(* ===== verification/Prelude.thy ===== *)
theory Prelude
  imports Main "HOL-Library.Word"
begin

text \<open>
  Shared vocabulary of the development.

  \<^item> names for the machine types of the C sources (\<open>uint8_t\<close>, \<open>uint32_t\<close>, ...) as words;
  \<^item> \<open>find_slot\<close>: the kernel's ubiquitous table scan \<open>for (i = 0; i < N; i++) if (P) ...\<close>,
    with its first-match laws;
  \<^item> NUL-terminated strings in byte buffers (\<open>c_streq\<close>, \<open>c_strcpy\<close>), the helper that
    almost every source file repeats under its own name;
  \<^item> bounded rings indexed by a head and a tail, and the locale \<open>bounded_queue\<close> that states
    what a ring promises to the code that uses it.
\<close>

type_synonym u8 = "8 word"
type_synonym u16 = "16 word"
type_synonym u32 = "32 word"
type_synonym u64 = "64 word"
type_synonym bytes = "8 word list"

named_theorems slot_simps \<open>table scans and slot updates\<close>
named_theorems ring_simps \<open>ring buffers\<close>
named_theorems cstr_simps \<open>NUL-terminated strings\<close>

unbundle bit_operations_syntax

section \<open>Table scans\<close>

fun find_slot :: "('a \<Rightarrow> bool) \<Rightarrow> 'a list \<Rightarrow> nat option" where
  "find_slot P [] = None"
| "find_slot P (x # xs) = (if P x then Some 0 else map_option Suc (find_slot P xs))"

definition find_slot_from :: "nat \<Rightarrow> ('a \<Rightarrow> bool) \<Rightarrow> 'a list \<Rightarrow> nat option" where
  "find_slot_from k P xs = map_option ((+) k) (find_slot P (drop k xs))"

section \<open>Byte buffers\<close>

text \<open>Storing a run of bytes into a buffer.\<close>

definition write_at :: "nat \<Rightarrow> bytes \<Rightarrow> bytes \<Rightarrow> bytes" where
  "write_at pos bs buf = take pos buf @ bs @ drop (pos + length bs) buf"

section \<open>NUL-terminated strings\<close>

definition cstr :: "bytes \<Rightarrow> bytes" where
  "cstr s = takeWhile (\<lambda>c. c \<noteq> 0) s"

text \<open>The bytes of a string literal.\<close>

definition bstr :: "string \<Rightarrow> bytes" where
  "bstr cs = map of_char cs"

text \<open>
  Character \<open>i\<close> of a C string held in a buffer; a byte list that ends without a NUL stands for
  a string literal, whose terminator is not written out.
\<close>

fun c_streq :: "bytes \<Rightarrow> bytes \<Rightarrow> bool" where
  "c_streq (a # as) (b # bs) =
     (if a \<noteq> 0 \<and> b \<noteq> 0 then (if a \<noteq> b then False else c_streq as bs) else a = 0 \<and> b = 0)"
| "c_streq [] (b # bs) = (b = 0)"
| "c_streq (a # as) [] = (a = 0)"
| "c_streq [] [] = True"

text \<open>
  Bounded copy: at most \<open>n - 1\<close> characters, then the terminator. \<open>None\<close> is a store past the end
  of the destination buffer.
\<close>

fun c_strcpy :: "bytes \<Rightarrow> bytes \<Rightarrow> nat \<Rightarrow> bytes option" where
  "c_strcpy [] src n = None"
| "c_strcpy (d # ds) [] n = Some (0 # ds)"
| "c_strcpy (d # ds) (c # cs) n =
     (if c \<noteq> 0 \<and> 1 < n then map_option ((#) c) (c_strcpy ds cs (n - 1)) else Some (0 # ds))"

section \<open>Little-endian fields\<close>

text \<open>
  The \<open>n\<close> low bytes of a word, least significant first, as the code stores them with
  \<open>buf[k] = (uint8_t)(w >> 8*k)\<close>, and the word that \<open>buf[0] | buf[1]<<8 | ...\<close> reads back.
\<close>

definition be_bytes :: "nat \<Rightarrow> 'a::len word \<Rightarrow> bytes" where
  "be_bytes n w = map (\<lambda>k. ucast (drop_bit (8 * (n - 1 - k)) w)) [0..<n]"

definition le_bytes :: "nat \<Rightarrow> 'a::len word \<Rightarrow> bytes" where
  "le_bytes n w = map (\<lambda>k. ucast (drop_bit (8 * k) w)) [0..<n]"

definition le_word :: "bytes \<Rightarrow> 'a::len word" where
  "le_word bs = foldr (\<lambda>b acc. push_bit 8 acc OR ucast b) bs 0"

section \<open>Rings\<close>

text \<open>A ring of \<open>n\<close> cells holds the cells \<open>h, h+1, ...\<close> up to but not including \<open>t\<close>, modulo \<open>n\<close>.\<close>

definition ring_len :: "nat \<Rightarrow> nat \<Rightarrow> nat \<Rightarrow> nat" where
  "ring_len n h t = (t + n - h) mod n"

definition ring_list :: "'a list \<Rightarrow> nat \<Rightarrow> nat \<Rightarrow> 'a list" where
  "ring_list buf h t =
     map (\<lambda>k. buf ! ((h + k) mod length buf)) [0..<ring_len (length buf) h t]"

section \<open>Laws of table scans\<close>

lemma find_slot_SomeD:
  assumes "find_slot P xs = Some i"
  shows "i < length xs" and "P (xs ! i)" and "\<And>j. j < i \<Longrightarrow> \<not> P (xs ! j)"
proof -
  from assms have "i < length xs \<and> P (xs ! i) \<and> (\<forall>j<i. \<not> P (xs ! j))"
    by (induction xs arbitrary: i)
      (auto simp: nth_Cons split: if_splits nat.splits)
  then show "i < length xs" and "P (xs ! i)" and "\<And>j. j < i \<Longrightarrow> \<not> P (xs ! j)"
    by auto
qed

lemma find_slot_None_iff [slot_simps]: "find_slot P xs = None \<longleftrightarrow> (\<forall>x\<in>set xs. \<not> P x)"
  by (induction xs) auto

lemma find_slot_Some_iff:
  "find_slot P xs = Some i \<longleftrightarrow> i < length xs \<and> P (xs ! i) \<and> (\<forall>j<i. \<not> P (xs ! j))"
proof (induction xs arbitrary: i)
  case Nil
  then show ?case by simp
next
  case (Cons x xs)
  show ?case
  proof (cases i)
    case 0
    then show ?thesis by auto
  next
    case (Suc k)
    have "(\<forall>j<Suc k. \<not> P ((x # xs) ! j)) \<longleftrightarrow> \<not> P x \<and> (\<forall>j<k. \<not> P (xs ! j))"
      by (auto simp: less_Suc_eq_0_disj)
    with Suc Cons.IH [of k] show ?thesis by auto
  qed
qed

lemma find_slot_ex: "x \<in> set xs \<Longrightarrow> P x \<Longrightarrow> \<exists>i. find_slot P xs = Some i"
  using find_slot_None_iff [of P xs] by (cases "find_slot P xs") auto

lemma find_slot_cong:
  "length xs = length ys \<Longrightarrow> (\<And>i. i < length xs \<Longrightarrow> P (xs ! i) = Q (ys ! i)) \<Longrightarrow>
   find_slot P xs = find_slot Q ys"
proof (induction xs ys rule: list_induct2)
  case Nil
  then show ?case by simp
next
  case (Cons x xs y ys)
  from Cons.prems [of 0] have "P x = Q y" by simp
  moreover have "find_slot P xs = find_slot Q ys"
    using Cons.prems [of "Suc i" for i] by (intro Cons.IH) auto
  ultimately show ?case by simp
qed

lemma find_slot_replicate: "find_slot P (replicate n x) = (if P x \<and> 0 < n then Some 0 else None)"
  by (induction n) auto

lemma find_slot_update_hit:
  assumes "i < length xs" "P x" "\<And>j. j < i \<Longrightarrow> \<not> P (xs ! j)"
  shows "find_slot P (xs[i := x]) = Some i"
  using assms by (auto simp: find_slot_Some_iff)

lemma find_slot_update_miss:
  assumes "\<not> P (xs ! i)" "\<not> P x"
  shows "find_slot P (xs[i := x]) = find_slot P xs"
proof (rule find_slot_cong)
  fix k assume "k < length (xs[i := x])"
  with assms show "P (xs[i := x] ! k) = P (xs ! k)" by (cases "k = i") auto
qed simp

lemma find_slot_from_SomeD:
  assumes "find_slot_from k P xs = Some i"
  shows "k \<le> i" and "i < length xs" and "P (xs ! i)"
    and "\<And>j. k \<le> j \<Longrightarrow> j < i \<Longrightarrow> \<not> P (xs ! j)"
proof -
  from assms obtain m where m: "find_slot P (drop k xs) = Some m" and i: "i = k + m"
    by (auto simp: find_slot_from_def)
  note d = find_slot_SomeD [OF m]
  show "k \<le> i" using i by simp
  show "i < length xs" using d(1) i by auto
  show "P (xs ! i)" using d(1,2) i by simp
  fix j assume "k \<le> j" "j < i"
  then have "j - k < m" using i by simp
  from d(3) [OF this] show "\<not> P (xs ! j)"
    using \<open>k \<le> j\<close> \<open>j < i\<close> d(1) i by auto
qed

lemma find_slot_from_None_iff [slot_simps]:
  "find_slot_from k P xs = None \<longleftrightarrow> (\<forall>j. k \<le> j \<longrightarrow> j < length xs \<longrightarrow> \<not> P (xs ! j))"
proof -
  have "(\<forall>x\<in>set (drop k xs). \<not> P x) \<longleftrightarrow> (\<forall>m < length xs - k. \<not> P (xs ! (k + m)))"
    by (auto simp: all_set_conv_all_nth)
  also have "\<dots> \<longleftrightarrow> (\<forall>j. k \<le> j \<longrightarrow> j < length xs \<longrightarrow> \<not> P (xs ! j))"
  proof safe
    fix j assume *: "\<forall>m<length xs - k. \<not> P (xs ! (k + m))" "k \<le> j" "j < length xs" "P (xs ! j)"
    from *(2,3) have "j - k < length xs - k" by auto
    with *(1,2,4) show False by (metis le_add_diff_inverse)
  qed auto
  finally show ?thesis by (simp add: find_slot_from_def find_slot_None_iff)
qed

section \<open>Rounding a word down to a power of two\<close>

lemma and_not_mask: "w AND NOT (mask n) = push_bit n (drop_bit n (w :: 'a::len word))"
  by (rule bit_eqI) (auto simp: bit_simps)

lemma unat_and_not_mask:
  "unat (w AND NOT (mask n)) = unat (w :: 'a::len word) div 2 ^ n * 2 ^ n"
proof -
  have "unat w div 2 ^ n * 2 ^ n \<le> unat w" by simp
  then have "unat w div 2 ^ n * 2 ^ n < 2 ^ LENGTH('a)"
    using unsigned_less [of w] by (metis le_less_trans)
  then show ?thesis
    unfolding and_not_mask unsigned_push_bit_eq unsigned_drop_bit_eq
    by (simp add: push_bit_eq_mult drop_bit_eq_div take_bit_eq_mod)
qed

lemma unat_of_nat_small: "n < 2 ^ LENGTH('a) \<Longrightarrow> unat (word_of_nat n :: 'a::len word) = n"
  by (simp only: unsigned_of_nat take_bit_eq_mod) simp

lemma unat_word_of_int_small:
  "0 \<le> k \<Longrightarrow> k < 2 ^ LENGTH('a) \<Longrightarrow> unat (word_of_int k :: 'a::len word) = nat k"
  by (simp add: unat_eq_nat_uint uint_word_of_int)

section \<open>Laws of little-endian fields\<close>

lemma length_be_bytes [simp]: "length (be_bytes n w) = n"
  by (simp add: be_bytes_def)

lemma length_write_at [simp]: "pos + length bs \<le> length buf \<Longrightarrow> length (write_at pos bs buf) = length buf"
  by (simp add: write_at_def)

lemma take_write_at: "pos + length bs \<le> length buf \<Longrightarrow> take (pos + length bs) (write_at pos bs buf) = take pos buf @ bs"
  by (simp add: write_at_def)

lemma length_le_bytes [simp]: "length (le_bytes n w) = n"
  by (simp add: le_bytes_def)

lemma bit_le_word:
  "bit (le_word bs :: 'a::len word) n \<longleftrightarrow> n < LENGTH('a) \<and> n < 8 * length bs \<and> bit (bs ! (n div 8)) (n mod 8)"
proof (induction bs arbitrary: n)
  case Nil
  then show ?case by (simp add: le_word_def)
next
  case (Cons b bs)
  have "bit (le_word (b # bs) :: 'a word) n \<longleftrightarrow>
      n < LENGTH('a) \<and> (if n < 8 then bit b n else bit (le_word bs :: 'a word) (n - 8))"
    by (auto simp: le_word_def bit_simps dest: bit_imp_le_length)
  then show ?case using Cons.IH [of "n - 8"] by (auto simp: le_div_geq le_mod_geq)
qed

lemma le_word_Cons: "le_word (b # bs) = push_bit 8 (le_word bs) OR ucast b"
  by (simp add: le_word_def)

lemma le_word_zeros: "le_word (replicate n 0) = 0"
  by (induction n) (simp_all add: le_word_Cons, simp add: le_word_def)

lemma le_word_le_bytes [simp]: "LENGTH('a) \<le> 8 * n \<Longrightarrow> le_word (le_bytes n w) = (w :: 'a::len word)"
proof (rule bit_word_eqI)
  fix k assume *: "LENGTH('a) \<le> 8 * n" "k < LENGTH('a)"
  then have "k div 8 < n" by (metis less_mult_imp_div_less mult.commute order_less_le_trans)
  with * show "bit (le_word (le_bytes n w) :: 'a word) k = bit w k"
    by (auto simp: bit_le_word le_bytes_def bit_simps)
qed

section \<open>Laws of C strings\<close>

lemma cstr_Nil [simp]: "cstr [] = []"
  by (simp add: cstr_def)

lemma cstr_Cons: "cstr (c # cs) = (if c = 0 then [] else c # cstr cs)"
  by (simp add: cstr_def)

lemma cstr_zeros [simp]: "cstr (replicate n 0) = []"
  by (cases n) (simp_all add: cstr_Cons)

lemma cstr_idem [simp]: "cstr (cstr s) = cstr s"
  by (induction s) (auto simp: cstr_Cons)

lemma cstr_no_nul: "0 \<notin> set s \<Longrightarrow> cstr s = s"
  by (induction s) (auto simp: cstr_Cons)

lemma length_cstr_le: "length (cstr s) \<le> length s"
  by (simp add: cstr_def length_takeWhile_le)

lemma cstr_append_nul: "0 \<notin> set s \<Longrightarrow> cstr (s @ 0 # r) = s"
  by (induction s) (auto simp: cstr_Cons)

lemma zero_notin_cstr [simp]: "0 \<notin> set (cstr s)"
  by (auto simp: cstr_def dest: set_takeWhileD)

lemma c_streq_iff [cstr_simps]: "c_streq a b \<longleftrightarrow> cstr a = cstr b"
  by (induction a b rule: c_streq.induct) (auto simp: cstr_Cons)

lemma c_strcpy_eq:
  assumes "min (length (cstr src)) (n - 1) < length dst"
  shows "c_strcpy dst src n =
     (let m = min (length (cstr src)) (n - 1) in Some (take m src @ 0 # drop (Suc m) dst))"
  using assms
proof (induction dst src n rule: c_strcpy.induct)
  case (1 src n)
  then show ?case by simp
next
  case (2 d ds n)
  then show ?case by simp
next
  case (3 d ds c cs n)
  show ?case
  proof (cases "c \<noteq> 0 \<and> 1 < n")
    case True
    then obtain k where n: "n = Suc (Suc k)" by (cases n; cases "n - 1") auto
    from True "3.prems" n have "min (length (cstr cs)) k < length ds"
      by (simp add: cstr_Cons)
    with True "3.IH" n show ?thesis
      by (simp add: cstr_Cons Let_def)
  next
    case False
    then have "min (length (cstr (c # cs))) (n - 1) = 0"
      by (auto simp: cstr_Cons)
    with False show ?thesis by (auto simp: Let_def)
  qed
qed

lemma c_strcpy_None:
  "length dst \<le> min (length (cstr src)) (n - 1) \<Longrightarrow> c_strcpy dst src n = None"
proof (induction dst src n rule: c_strcpy.induct)
  case (3 d ds c cs n)
  then have "c \<noteq> 0" "1 < n" by (auto simp: cstr_Cons split: if_splits)
  moreover with 3 have "length ds \<le> min (length (cstr cs)) (n - 1 - 1)"
    by (auto simp: cstr_Cons)
  ultimately show ?case using "3.IH" by simp
qed auto

lemma c_strcpy_length: "c_strcpy dst src n = Some d \<Longrightarrow> length d = length dst"
  by (induction dst src n arbitrary: d rule: c_strcpy.induct) (auto split: if_splits)

lemma c_strcpy_cstr:
  assumes "c_strcpy dst src n = Some d"
  shows "cstr d = take (n - 1) (cstr src)"
  using assms
proof (induction dst src n arbitrary: d rule: c_strcpy.induct)
  case (3 d ds c cs n)
  show ?case
  proof (cases "c \<noteq> 0 \<and> 1 < n")
    case True
    then obtain k where n: "n = Suc (Suc k)" by (cases n; cases "n - 1") auto
    with True "3.prems" "3.IH" show ?thesis by (auto simp: cstr_Cons)
  next
    case False
    with "3.prems" show ?thesis by (auto simp: cstr_Cons)
  qed
qed (auto simp: cstr_Cons)

lemma c_strcpy_take:
  assumes "c_strcpy dst src n = Some d" "length (cstr src) < n"
  shows "take (Suc (length (cstr src))) d = cstr src @ [0]" "length (cstr src) < length d"
proof -
  have m: "min (length (cstr src)) (n - 1) = length (cstr src)" using assms(2) by simp
  have l: "length (cstr src) < length dst"
    using assms(1) c_strcpy_None [of dst src n] m by fastforce
  then have "d = take (length (cstr src)) src @ 0 # drop (Suc (length (cstr src))) dst"
    using assms(1) c_strcpy_eq [of src n dst] m by (simp add: Let_def)
  moreover have "take (length (cstr src)) src = cstr src"
    unfolding cstr_def by (metis takeWhile_eq_take)
  moreover show "length (cstr src) < length d" using l c_strcpy_length [OF assms(1)] by simp
  ultimately show "take (Suc (length (cstr src))) d = cstr src @ [0]" by simp
qed

lemma c_strcpy_total:
  "0 < n \<Longrightarrow> n \<le> length dst \<Longrightarrow> \<exists>d. c_strcpy dst src n = Some d"
  by (subst c_strcpy_eq) (auto simp: Let_def)

section \<open>Laws of rings\<close>

lemma mod_add_eq_cases:
  fixes a b n :: nat
  assumes "a < n" "b < n"
  shows "(a + b) mod n = (if a + b < n then a + b else a + b - n)"
  using assms by (auto simp: le_mod_geq)

lemma ring_len_cases:
  assumes "h < n" "t < n"
  shows "ring_len n h t = (if h \<le> t then t - h else t + n - h)"
  using assms by (auto simp: ring_len_def le_mod_geq)

lemma ring_len_less: "0 < n \<Longrightarrow> ring_len n h t < n"
  by (simp add: ring_len_def)

lemma ring_len_0_iff: "h < n \<Longrightarrow> t < n \<Longrightarrow> ring_len n h t = 0 \<longleftrightarrow> h = t"
  by (auto simp: ring_len_cases)

lemma ring_len_push:
  assumes "h < n" "t < n" "(t + 1) mod n \<noteq> h"
  shows "ring_len n h ((t + 1) mod n) = Suc (ring_len n h t)"
  using assms by (cases "t + 1 = n") (auto simp: ring_len_cases)

lemma ring_len_full:
  assumes "h < n" "t < n" "(t + 1) mod n = h"
  shows "ring_len n h t = n - 1"
  using assms by (cases "t + 1 = n") (auto simp: ring_len_cases)

lemma ring_full_iff:
  assumes "h < n" "t < n"
  shows "(t + 1) mod n = h \<longleftrightarrow> ring_len n h t = n - 1"
proof
  assume "ring_len n h t = n - 1"
  then show "(t + 1) mod n = h"
    using assms ring_len_push [OF assms] ring_len_less [of n h "(t + 1) mod n"] by fastforce
qed (rule ring_len_full [OF assms])

lemma ring_len_pop:
  assumes "h < n" "t < n" "h \<noteq> t"
  shows "ring_len n h t = Suc (ring_len n ((h + 1) mod n) t)"
  using assms by (cases "h + 1 = n") (auto simp: ring_len_cases)

lemma length_ring_list [simp]: "length (ring_list buf h t) = ring_len (length buf) h t"
  by (simp add: ring_list_def)

lemma ring_list_Nil_iff [ring_simps]:
  "h < length buf \<Longrightarrow> t < length buf \<Longrightarrow> ring_list buf h t = [] \<longleftrightarrow> h = t"
  using length_ring_list [of buf h t] ring_len_0_iff by (metis length_0_conv)

lemma ring_list_same [simp]: "ring_list buf h h = []"
  by (simp add: ring_list_def ring_len_def)

lemma ring_list_push [ring_simps]:
  assumes "h < length buf" "t < length buf" "(t + 1) mod length buf \<noteq> h"
  shows "ring_list (buf[t := x]) h ((t + 1) mod length buf) = ring_list buf h t @ [x]"
proof -
  let ?n = "length buf" and ?l = "ring_len (length buf) h t"
  have l: "?l < ?n - 1"
    using assms by (cases "t + 1 = ?n") (auto simp: ring_len_cases)
  have last: "(h + ?l) mod ?n = t"
    using assms by (auto simp: ring_len_cases)
  have other: "(h + k) mod ?n \<noteq> t" if "k < ?l" for k
    using that assms l by (auto simp: ring_len_cases mod_add_eq_cases split: if_splits)
  have "map (\<lambda>k. buf[t := x] ! ((h + k) mod ?n)) [0..<?l] = map (\<lambda>k. buf ! ((h + k) mod ?n)) [0..<?l]"
    using other by (intro map_cong refl nth_list_update_neq) (metis atLeastLessThan_iff set_upt)
  moreover have "buf[t := x] ! ((h + ?l) mod ?n) = x"
    using assms(2) by (simp add: last)
  ultimately show ?thesis
    using ring_len_push [OF assms] by (simp add: ring_list_def)
qed

lemma ring_list_pop [ring_simps]:
  assumes "h < length buf" "t < length buf" "h \<noteq> t"
  shows "ring_list buf h t = buf ! h # ring_list buf ((h + 1) mod length buf) t"
proof -
  let ?n = "length buf"
  have eq: "(Suc h mod ?n + k) mod ?n = Suc (h + k) mod ?n" for k
    by (simp add: mod_simps)
  show ?thesis
    using assms ring_len_pop [OF assms]
    by (simp add: ring_list_def upt_conv_Cons map_Suc_upt [symmetric] eq comp_def del: upt_Suc)
qed

lemma ring_list_update_outside:
  assumes "h < length buf" "t < length buf" "ring_list buf h t = ys"
    "i < length buf" "\<And>k. k < ring_len (length buf) h t \<Longrightarrow> (h + k) mod length buf \<noteq> i"
  shows "ring_list (buf[i := x]) h t = ys"
proof -
  have "map (\<lambda>k. buf[i := x] ! ((h + k) mod length buf)) [0..<ring_len (length buf) h t] =
      map (\<lambda>k. buf ! ((h + k) mod length buf)) [0..<ring_len (length buf) h t]"
    using assms(5) by (intro map_cong refl nth_list_update_neq) (metis atLeastLessThan_iff set_upt)
  with assms(3) show ?thesis by (simp add: ring_list_def)
qed

text \<open>Clearing the cell that was just popped does not disturb the rest of the ring.\<close>

lemma ring_list_pop_clear:
  assumes "h < length buf" "t < length buf" "h \<noteq> t"
  shows "ring_list (buf[h := x]) ((h + 1) mod length buf) t = ring_list buf ((h + 1) mod length buf) t"
proof -
  let ?n = "length buf" and ?h = "(h + 1) mod length buf"
  have "(?h + k) mod ?n \<noteq> h" if "k < ring_len ?n ?h t" for k
  proof -
    from ring_len_pop [OF assms] that have "Suc k < ring_len ?n h t" by simp
    moreover have "ring_len ?n h t < ?n" using assms by (intro ring_len_less) auto
    moreover have "(?h + k) mod ?n = (h + Suc k) mod ?n" by (simp add: mod_simps)
    ultimately show ?thesis
      using assms(1) mod_add_eq_cases [of h ?n "Suc k"] by (auto split: if_splits)
  qed
  moreover have "?h < ?n" using assms(1) by (intro mod_less_divisor) linarith
  ultimately show ?thesis
    using assms by (intro ring_list_update_outside [OF _ _ refl]) auto
qed

section \<open>The contract of a bounded queue\<close>

text \<open>
  What the code that parks task identifiers, key strokes or messages in a ring relies on: an
  insertion that succeeds appends, one that fails leaves the queue as it was and only happens
  at capacity, a removal takes the oldest element.
\<close>

locale bounded_queue =
  fixes enq :: "'a \<Rightarrow> 'q \<Rightarrow> 'q option"
    and deq :: "'q \<Rightarrow> ('a \<times> 'q) option"
    and content :: "'q \<Rightarrow> 'a list"
    and inv :: "'q \<Rightarrow> bool"
    and cap :: nat
    and ok :: "'a \<Rightarrow> bool"
  assumes enq_Some: "inv q \<Longrightarrow> ok x \<Longrightarrow> enq x q = Some q' \<Longrightarrow> content q' = content q @ [x] \<and> inv q'"
    and enq_None: "inv q \<Longrightarrow> enq x q = None \<longleftrightarrow> length (content q) = cap"
    and deq_Some: "inv q \<Longrightarrow> deq q = Some (x, q') \<Longrightarrow> content q = x # content q' \<and> inv q'"
    and deq_None: "inv q \<Longrightarrow> deq q = None \<longleftrightarrow> content q = []"
    and within: "inv q \<Longrightarrow> length (content q) \<le> cap"
begin

fun enq_all :: "'a list \<Rightarrow> 'q \<Rightarrow> 'q option" where
  "enq_all [] q = Some q"
| "enq_all (x # xs) q = (case enq x q of None \<Rightarrow> None | Some q' \<Rightarrow> enq_all xs q')"

fun deq_n :: "nat \<Rightarrow> 'q \<Rightarrow> ('a list \<times> 'q) option" where
  "deq_n 0 q = Some ([], q)"
| "deq_n (Suc n) q =
     (case deq q of None \<Rightarrow> None
      | Some (x, q') \<Rightarrow> (case deq_n n q' of None \<Rightarrow> None | Some (xs, q'') \<Rightarrow> Some (x # xs, q'')))"

lemma enq_succeeds:
  assumes "inv q" "length (content q) < cap"
  shows "\<exists>q'. enq x q = Some q'"
  using assms enq_None [of q x] by (cases "enq x q") auto

lemma enq_all_content:
  assumes "inv q" "length (content q) + length xs \<le> cap" "list_all ok xs"
  shows "\<exists>q'. enq_all xs q = Some q' \<and> content q' = content q @ xs \<and> inv q'"
  using assms
proof (induction xs arbitrary: q)
  case Nil
  then show ?case by simp
next
  case (Cons x xs)
  then obtain q1 where q1: "enq x q = Some q1" using enq_succeeds [of q x] by auto
  with Cons.prems enq_Some [of q x q1] have "inv q1" "content q1 = content q @ [x]" by auto
  with Cons.IH [of q1] Cons.prems q1 show ?case by auto
qed

lemma deq_n_content:
  assumes "inv q" "n \<le> length (content q)"
  shows "\<exists>q'. deq_n n q = Some (take n (content q), q') \<and> content q' = drop n (content q) \<and> inv q'"
  using assms
proof (induction n arbitrary: q)
  case 0
  then show ?case by simp
next
  case (Suc n)
  then have "content q \<noteq> []" by auto
  with Suc.prems deq_None obtain x q1 where d: "deq q = Some (x, q1)" by (cases "deq q") auto
  with Suc.prems deq_Some have c: "content q = x # content q1" "inv q1" by auto
  with Suc.IH [of q1] Suc.prems obtain q2
    where "deq_n n q1 = Some (take n (content q1), q2)"
      "content q2 = drop n (content q1)" "inv q2" by auto
  with d c show ?case by simp
qed

text \<open>First in, first out: what goes in comes out, in the order it went in.\<close>

lemma fifo:
  assumes "inv q" "content q = []" "length xs \<le> cap" "list_all ok xs"
  shows "\<exists>q1 q2. enq_all xs q = Some q1 \<and> deq_n (length xs) q1 = Some (xs, q2) \<and>
    content q2 = [] \<and> inv q2"
proof -
  from enq_all_content [of q xs] assms obtain q1
    where "enq_all xs q = Some q1" "content q1 = xs" "inv q1" by auto
  with deq_n_content [of q1 "length xs"] show ?thesis by auto
qed

end

end
