(* ===== verification/Memory.thy ===== *)
theory Memory
  imports Prelude
begin

text \<open>
  The kernel heap, \<open>src/kernel/memory.c\<close>: a first-fit allocator over one linked list of block
  headers that lies inside the heap itself.

  The state is the head pointer and the headers that have been stored in memory, by address.
  \<open>malloc\<close> and \<open>free\<close> are translated with their loops over \<open>next\<close> pointers; \<open>None\<close> is a
  dereference of an address at which no header was ever written, or a loop that never ends. The
  specification side is the list of (size, free) pairs from the bottom of the heap to its top;
  \<open>heap_at\<close> says that the headers represent such a list. Saving and restoring the interrupt
  flag around each operation makes the operation one atomic step and is not modelled further.
\<close>

unbundle bit_operations_syntax

section \<open>The allocator\<close>

record block_header =
  bsize :: u32
  bfree :: u8
  bnext :: nat

type_synonym hstore = "nat \<Rightarrow> block_header option"

record kheap =
  heap_head :: nat
  hmem :: hstore

definition HEAP_START :: nat where "HEAP_START = 0x100000"
definition HEAP_SIZE :: nat where "HEAP_SIZE = 0x600000"
definition HEADER_SIZE :: nat where "HEADER_SIZE = 16"

definition mem_init :: "kheap \<Rightarrow> kheap" where
  "mem_init h =
     \<lparr>heap_head = HEAP_START,
      hmem = (hmem h)(HEAP_START \<mapsto>
        \<lparr>bsize = of_nat (HEAP_SIZE - HEADER_SIZE), bfree = 1, bnext = 0\<rparr>)\<rparr>"

definition round_up4 :: "u32 \<Rightarrow> u32" where
  "round_up4 sz = (sz + 3) AND NOT 3"

text \<open>Taking a block: split off the tail when it can hold a header and four bytes.\<close>

definition take_block :: "hstore \<Rightarrow> nat \<Rightarrow> block_header \<Rightarrow> u32 \<Rightarrow> hstore" where
  "take_block m cur b sz =
     (if sz + of_nat HEADER_SIZE + 4 \<le> bsize b then
        let split = cur + HEADER_SIZE + unat sz
        in m(split \<mapsto> \<lparr>bsize = bsize b - sz - of_nat HEADER_SIZE, bfree = 1, bnext = bnext b\<rparr>,
             cur \<mapsto> b\<lparr>bsize := sz, bnext := split, bfree := 0\<rparr>)
      else m(cur \<mapsto> b\<lparr>bfree := 0\<rparr>))"

partial_function (option) malloc_walk :: "hstore \<Rightarrow> nat \<Rightarrow> u32 \<Rightarrow> (nat \<times> hstore) option" where
  "malloc_walk m cur sz =
     (if cur = 0 then Some (0, m)
      else case m cur of
        None \<Rightarrow> None
      | Some b \<Rightarrow>
          if bfree b \<noteq> 0 \<and> sz \<le> bsize b
          then Some (cur + HEADER_SIZE, take_block m cur b sz)
          else malloc_walk m (bnext b) sz)"

definition malloc :: "kheap \<Rightarrow> u32 \<Rightarrow> (nat \<times> kheap) option" where
  "malloc h sz =
     (if sz = 0 then Some (0, h)
      else case malloc_walk (hmem h) (heap_head h) (round_up4 sz) of
        None \<Rightarrow> None
      | Some (p, m) \<Rightarrow> Some (p, h\<lparr>hmem := m\<rparr>))"

text \<open>The coalescing pass: merge a free block with a free successor, and look again.\<close>

partial_function (option) coalesce :: "hstore \<Rightarrow> nat \<Rightarrow> hstore option" where
  "coalesce m cur =
     (if cur = 0 then Some m
      else case m cur of
        None \<Rightarrow> None
      | Some b \<Rightarrow>
          if bfree b \<noteq> 0 \<and> bnext b \<noteq> 0 then
            (case m (bnext b) of
               None \<Rightarrow> None
             | Some nb \<Rightarrow>
                 if bfree nb \<noteq> 0
                 then coalesce (m(cur \<mapsto> b\<lparr>bsize := bsize b + (of_nat HEADER_SIZE + bsize nb),
                                           bnext := bnext nb\<rparr>)) cur
                 else coalesce m (bnext b))
          else coalesce m (bnext b))"

definition free :: "kheap \<Rightarrow> nat \<Rightarrow> kheap option" where
  "free h ptr =
     (if ptr = 0 then Some h
      else case hmem h (ptr - HEADER_SIZE) of
        None \<Rightarrow> None
      | Some block \<Rightarrow>
          map_option (\<lambda>m. h\<lparr>hmem := m\<rparr>)
            (coalesce ((hmem h)(ptr - HEADER_SIZE \<mapsto> block\<lparr>bfree := 1\<rparr>)) (heap_head h)))"

section \<open>The specification: a list of blocks\<close>

type_synonym blocks = "(nat \<times> bool) list"

fun heap_at :: "hstore \<Rightarrow> nat \<Rightarrow> blocks \<Rightarrow> nat \<Rightarrow> bool" where
  "heap_at m p [] e \<longleftrightarrow> p = e"
| "heap_at m p ((s, f) # bs) e \<longleftrightarrow>
     (case m p of
        None \<Rightarrow> False
      | Some b \<Rightarrow> unat (bsize b) = s \<and> (bfree b \<noteq> 0) = f \<and>
          bnext b = (if bs = [] then 0 else p + HEADER_SIZE + s)) \<and>
     heap_at m (p + HEADER_SIZE + s) bs e"

definition heap_inv :: "kheap \<Rightarrow> blocks \<Rightarrow> bool" where
  "heap_inv h bs \<longleftrightarrow> heap_head h = HEAP_START \<and> bs \<noteq> [] \<and>
     heap_at (hmem h) HEAP_START bs (HEAP_START + HEAP_SIZE)"

fun amalloc :: "nat \<Rightarrow> nat \<Rightarrow> blocks \<Rightarrow> (nat \<times> blocks) option" where
  "amalloc p n [] = None"
| "amalloc p n ((s, f) # bs) =
     (if f \<and> n \<le> s then
        Some (p + HEADER_SIZE,
          if n + HEADER_SIZE + 4 \<le> s then (n, False) # (s - n - HEADER_SIZE, True) # bs
          else (s, False) # bs)
      else map_option (\<lambda>(q, bs'). (q, (s, f) # bs')) (amalloc (p + HEADER_SIZE + s) n bs))"

fun amark :: "nat \<Rightarrow> nat \<Rightarrow> blocks \<Rightarrow> blocks" where
  "amark p q [] = []"
| "amark p q ((s, f) # bs) =
     (if q = p + HEADER_SIZE then (s, True) # bs
      else (s, f) # amark (p + HEADER_SIZE + s) q bs)"

fun acoalesce :: "blocks \<Rightarrow> blocks" where
  "acoalesce ((s, True) # (s', True) # bs) = acoalesce ((s + HEADER_SIZE + s', True) # bs)"
| "acoalesce (b # bs) = b # acoalesce bs"
| "acoalesce [] = []"

text \<open>The allocations that are live: payload address and payload size of every used block.\<close>

fun alive :: "nat \<Rightarrow> blocks \<Rightarrow> (nat \<times> nat) set" where
  "alive p [] = {}"
| "alive p ((s, f) # bs) =
     (if f then {} else {(p + HEADER_SIZE, s)}) \<union> alive (p + HEADER_SIZE + s) bs"

text \<open>No two neighbouring free blocks.\<close>

fun coalesced :: "blocks \<Rightarrow> bool" where
  "coalesced (b # b' # bs) \<longleftrightarrow> \<not> (snd b \<and> snd b') \<and> coalesced (b' # bs)"
| "coalesced _ \<longleftrightarrow> True"

text \<open>Bytes of the heap that the list accounts for, headers included.\<close>

definition footprint :: "blocks \<Rightarrow> nat" where
  "footprint bs = sum_list (map (\<lambda>b. fst b + HEADER_SIZE) bs)"

definition live :: "kheap \<Rightarrow> (nat \<times> nat) set" where
  "live h = {a. \<exists>bs. heap_inv h bs \<and> a \<in> alive HEAP_START bs}"

definition heap_ok :: "kheap \<Rightarrow> bool" where
  "heap_ok h \<longleftrightarrow> (\<exists>bs. heap_inv h bs)"

section \<open>The contract clients rely on\<close>

locale allocator =
  fixes alloc :: "'h \<Rightarrow> u32 \<Rightarrow> (nat \<times> 'h) option"
    and dealloc :: "'h \<Rightarrow> nat \<Rightarrow> 'h option"
    and used :: "'h \<Rightarrow> (nat \<times> nat) set"
    and inv :: "'h \<Rightarrow> bool"
  assumes alloc_returns: "inv h \<Longrightarrow> \<exists>p h'. alloc h n = Some (p, h') \<and> inv h'"
    and alloc_null: "inv h \<Longrightarrow> alloc h n = Some (0, h') \<Longrightarrow> h' = h"
    and alloc_fresh: "inv h \<Longrightarrow> alloc h n = Some (p, h') \<Longrightarrow> p \<noteq> 0 \<Longrightarrow>
      p \<notin> fst ` used h \<and> (\<exists>s. used h' = insert (p, s) (used h) \<and>
        (unat n \<le> 0xFFFFFFFC \<longrightarrow> unat n \<le> s))"
    and dealloc_frees: "inv h \<Longrightarrow> (p, s) \<in> used h \<Longrightarrow>
      \<exists>h'. dealloc h p = Some h' \<and> inv h' \<and> used h' = used h - {(p, s)}"
    and used_disjoint: "inv h \<Longrightarrow> (p, s) \<in> used h \<Longrightarrow> (q, t) \<in> used h \<Longrightarrow>
      (p, s) \<noteq> (q, t) \<Longrightarrow> p + s < q \<or> q + t < p"
    and used_not_null: "inv h \<Longrightarrow> (p, s) \<in> used h \<Longrightarrow> p \<noteq> 0"
begin

lemma used_inj: "inv h \<Longrightarrow> (p, s) \<in> used h \<Longrightarrow> (p, t) \<in> used h \<Longrightarrow> s = t"
  using used_disjoint [of h p s p t] by fastforce

lemma alloc_preserves:
  assumes "inv h" "alloc h n = Some (p, h')"
  shows "inv h' \<and> used h \<subseteq> used h'"
proof (cases "p = 0")
  case True
  with assms alloc_null [of h n h'] show ?thesis by auto
next
  case False
  with assms alloc_fresh [of h n p h'] alloc_returns [of h n] show ?thesis by auto
qed

text \<open>A block obtained from the allocator overlaps no block that was in use before.\<close>

lemma alloc_separate:
  assumes "inv h" "alloc h n = Some (p, h')" "p \<noteq> 0" "(q, t) \<in> used h"
  shows "\<exists>s. (p, s) \<in> used h' \<and> (q, t) \<in> used h' \<and> (p + s < q \<or> q + t < p)"
proof -
  from alloc_fresh [OF assms(1-3)] obtain s
    where p: "p \<notin> fst ` used h" and u: "used h' = insert (p, s) (used h)" by auto
  from alloc_preserves [OF assms(1,2)] have "inv h'" by simp
  moreover from p assms(4) have "(p, s) \<noteq> (q, t)" by (auto simp: image_iff)
  ultimately show ?thesis
    using u assms(4) used_disjoint [of h' p s q t] by auto
qed

end

section \<open>Representation lemmas\<close>

lemma round_up4_nat:
  assumes "unat sz \<le> 0xFFFFFFFC"
  shows "unat (round_up4 sz) = (unat sz + 3) div 4 * 4"
proof -
  have "unat (sz + 3) = unat sz + 3"
    using assms by (simp add: unat_word_ariths)
  moreover have "round_up4 sz = (sz + 3) AND NOT (mask 2)"
    by (simp add: round_up4_def mask_eq_exp_minus_1)
  ultimately show ?thesis
    by (simp only: unat_and_not_mask) simp
qed

lemma heap_at_le: "heap_at m p bs e \<Longrightarrow> p \<le> e"
  by (induction m p bs e rule: heap_at.induct) auto

lemma heap_at_cong:
  assumes "heap_at m p bs e" "\<And>a. p \<le> a \<Longrightarrow> m' a = m a"
  shows "heap_at m' p bs e"
  using assms by (induction m p bs e rule: heap_at.induct) (auto split: option.splits)

lemma heap_at_footprint: "heap_at m p bs e \<Longrightarrow> p + footprint bs = e"
  by (induction m p bs e rule: heap_at.induct) (auto simp: footprint_def)

text \<open>A header store represents at most one block list.\<close>

lemma heap_at_unique:
  "heap_at m p bs e \<Longrightarrow> heap_at m p bs' e \<Longrightarrow> bs = bs'"
proof (induction m p bs e arbitrary: bs' rule: heap_at.induct)
  case (1 m p e)
  then show ?case using heap_at_le by (cases bs') (fastforce simp: HEADER_SIZE_def)+
next
  case (2 m p s f bs e)
  then obtain s' f' cs where bs': "bs' = (s', f') # cs"
    using heap_at_le by (cases bs') (fastforce simp: HEADER_SIZE_def)+
  with 2 show ?case by (auto split: option.splits)
qed

lemma malloc_walk_0 [simp]: "malloc_walk m 0 n = Some (0, m)"
  by (subst malloc_walk.simps) simp

lemma coalesce_0 [simp]: "coalesce m 0 = Some m"
  by (subst coalesce.simps) simp

section \<open>malloc implements first fit\<close>

lemma take_block_other:
  "a \<noteq> cur \<Longrightarrow> a \<noteq> cur + HEADER_SIZE + unat n \<Longrightarrow> take_block m cur b n a = m a"
  by (simp add: take_block_def Let_def)

lemma take_block_heap_at:
  assumes "heap_at m p ((s, f) # bs) e" "m p = Some b" "unat n \<le> s" "s < 2 ^ 32 - 32"
  shows "heap_at (take_block m p b n) p
     (if unat n + HEADER_SIZE + 4 \<le> s then (unat n, False) # (s - unat n - HEADER_SIZE, True) # bs
      else (s, False) # bs) e"
proof -
  have s: "unat (bsize b) = s" using assms(1,2) by simp
  have cmp: "n + of_nat HEADER_SIZE + 4 \<le> bsize b \<longleftrightarrow> unat n + HEADER_SIZE + 4 \<le> s"
    using assms(3,4) s by (simp add: word_le_nat_alt unat_word_ariths HEADER_SIZE_def)
  show ?thesis
  proof (cases "unat n + HEADER_SIZE + 4 \<le> s")
    case False
    with assms cmp show ?thesis
      by (auto simp: take_block_def HEADER_SIZE_def intro: heap_at_cong)
  next
    case True
    then have "n \<le> bsize b" "of_nat HEADER_SIZE \<le> bsize b - n"
      using s by (auto simp: word_le_nat_alt HEADER_SIZE_def unat_sub)
    then have "unat (bsize b - n - of_nat HEADER_SIZE) = s - unat n - HEADER_SIZE"
      using s by (simp add: unat_sub HEADER_SIZE_def)
    moreover have "heap_at (take_block m p b n) (p + HEADER_SIZE + s) bs e"
    proof (rule heap_at_cong)
      show "heap_at m (p + HEADER_SIZE + s) bs e" using assms(1) by simp
      show "take_block m p b n a = m a" if "p + HEADER_SIZE + s \<le> a" for a
        using that True by (intro take_block_other) (auto simp: HEADER_SIZE_def)
    qed
    moreover have "p + HEADER_SIZE + unat n + HEADER_SIZE + (s - unat n - HEADER_SIZE) =
        p + HEADER_SIZE + s" using True by simp
    ultimately show ?thesis
      using True cmp assms(1,2) by (auto simp: take_block_def Let_def add.assoc HEADER_SIZE_def)
  qed
qed

text \<open>
  The walk returns what first fit returns, leaves every header below its starting point alone,
  and turns the represented list into the one first fit produces.
\<close>

lemma malloc_walk_refines:
  assumes "heap_at m p bs e" "bs \<noteq> []" "0 < p" "e < 2 ^ 32 - 64"
  shows "\<exists>r m'. malloc_walk m p n = Some (r, m') \<and> (\<forall>a<p. m' a = m a) \<and>
    (case amalloc p (unat n) bs of
       None \<Rightarrow> r = 0 \<and> m' = m
     | Some (q, bs') \<Rightarrow> r = q \<and> bs' \<noteq> [] \<and> heap_at m' p bs' e)"
  using assms
proof (induction bs arbitrary: p)
  case Nil
  then show ?case by simp
next
  case (Cons blk bs)
  obtain s f where blk: "blk = (s, f)" by (cases blk)
  with Cons.prems(1) obtain b where b: "m p = Some b" "unat (bsize b) = s" "(bfree b \<noteq> 0) = f"
    and nxt: "bnext b = (if bs = [] then 0 else p + HEADER_SIZE + s)"
    and rest: "heap_at m (p + HEADER_SIZE + s) bs e"
    by (auto split: option.splits)
  from heap_at_le [OF rest] Cons.prems(4) have s: "s < 2 ^ 32 - 32"
    by simp
  show ?case
  proof (cases "f \<and> unat n \<le> s")
    case True
    have "malloc_walk m p n = Some (p + HEADER_SIZE, take_block m p b n)"
      using True b Cons.prems(3) by (subst malloc_walk.simps) (simp add: word_le_nat_alt)
    moreover have "\<forall>a<p. take_block m p b n a = m a"
      by (auto intro!: take_block_other)
    ultimately show ?thesis
      using True take_block_heap_at [OF Cons.prems(1) [unfolded blk] b(1) _ s, of n]
      by (auto simp: blk)
  next
    case False
    then have step: "malloc_walk m p n = malloc_walk m (bnext b) n"
      using b Cons.prems(3) by (subst malloc_walk.simps) (auto simp: word_le_nat_alt)
    show ?thesis
    proof (cases "bs = []")
      case True
      with False step nxt show ?thesis by (auto simp: blk)
    next
      case non: False
      with Cons.IH [OF rest _ _ Cons.prems(4)] Cons.prems(3) obtain r m'
        where w: "malloc_walk m (p + HEADER_SIZE + s) n = Some (r, m')"
          and below: "\<forall>a<p + HEADER_SIZE + s. m' a = m a"
          and spec: "case amalloc (p + HEADER_SIZE + s) (unat n) bs of
             None \<Rightarrow> r = 0 \<and> m' = m
           | Some (q, bs') \<Rightarrow> r = q \<and> bs' \<noteq> [] \<and> heap_at m' (p + HEADER_SIZE + s) bs' e"
        by auto
      have "m' p = Some b" using below b(1) by (simp add: HEADER_SIZE_def)
      with w below spec step nxt non False b show ?thesis
        by (auto simp: blk split: option.splits)
    qed
  qed
qed

lemma acoalesce_Nil_iff [simp]: "acoalesce bs = [] \<longleftrightarrow> bs = []"
  by (induction bs rule: acoalesce.induct) auto

lemma coalesce_skip:
  assumes "heap_at m p ((s, f) # bs) e" "0 < p" "\<not> (f \<and> bs \<noteq> [] \<and> snd (hd bs))"
    and IH: "bs \<noteq> [] \<Longrightarrow> \<exists>m'. coalesce m (p + HEADER_SIZE + s) = Some m' \<and>
       (\<forall>a<p + HEADER_SIZE + s. m' a = m a) \<and> heap_at m' (p + HEADER_SIZE + s) (acoalesce bs) e"
  shows "\<exists>m'. coalesce m p = Some m' \<and> (\<forall>a<p. m' a = m a) \<and>
    heap_at m' p ((s, f) # acoalesce bs) e"
proof -
  from assms(1) obtain b where b: "m p = Some b" "unat (bsize b) = s" "(bfree b \<noteq> 0) = f"
    "bnext b = (if bs = [] then 0 else p + HEADER_SIZE + s)"
    and rest: "heap_at m (p + HEADER_SIZE + s) bs e"
    by (auto split: option.splits)
  have step: "coalesce m p = coalesce m (bnext b)"
  proof (cases "f \<and> bs \<noteq> []")
    case True
    then obtain s' f' cs where bs: "bs = (s', f') # cs" "\<not> f'"
      using assms(3) by (cases bs) auto
    with rest obtain nb where "m (bnext b) = Some nb" "bfree nb = 0"
      using True b by (auto split: option.splits)
    then show ?thesis
      using b assms(2) by (subst coalesce.simps) simp
  next
    case False
    then show ?thesis
      using b assms(2) by (subst coalesce.simps) auto
  qed
  show ?thesis
  proof (cases "bs = []")
    case True
    then show ?thesis using step b assms(1) by auto
  next
    case False
    then obtain m' where m': "coalesce m (p + HEADER_SIZE + s) = Some m'"
      "\<forall>a<p + HEADER_SIZE + s. m' a = m a" "heap_at m' (p + HEADER_SIZE + s) (acoalesce bs) e"
      using IH by auto
    then have "m' p = Some b" using b(1) by (simp add: HEADER_SIZE_def)
    with m' False step b show ?thesis by auto
  qed
qed

lemma acoalesce_refines:
  assumes "heap_at m p bs e" "bs \<noteq> []" "0 < p" "e < 2 ^ 32 - 64"
  shows "\<exists>m'. coalesce m p = Some m' \<and> (\<forall>a<p. m' a = m a) \<and> heap_at m' p (acoalesce bs) e"
  using assms
proof (induction bs arbitrary: m p rule: acoalesce.induct [case_names merge used last stop empty])
  case (merge s s' bs)
  let ?q = "p + HEADER_SIZE + s"
  from merge.prems(1) obtain b nb where
    b: "m p = Some b" "unat (bsize b) = s" "bfree b \<noteq> 0" "bnext b = ?q"
    and nb: "m ?q = Some nb" "unat (bsize nb) = s'" "bfree nb \<noteq> 0"
      "bnext nb = (if bs = [] then 0 else ?q + HEADER_SIZE + s')"
    and rest: "heap_at m (?q + HEADER_SIZE + s') bs e"
    by (auto split: option.splits)
  define m1 where "m1 = m(p \<mapsto> b\<lparr>bsize := bsize b + (of_nat HEADER_SIZE + bsize nb), bnext := bnext nb\<rparr>)"
  have step: "coalesce m p = coalesce m1 p"
    using b nb merge.prems(3) by (subst coalesce.simps) (simp add: m1_def)
  have bound: "s + (HEADER_SIZE + s') < 2 ^ 32"
    using heap_at_le [OF rest] merge.prems(4) by simp
  have "unat (bsize b + (of_nat HEADER_SIZE + bsize nb)) = s + (HEADER_SIZE + s')"
    using bound b(2) nb(2) by (simp add: unat_word_ariths HEADER_SIZE_def)
  moreover have "heap_at m1 (?q + HEADER_SIZE + s') bs e"
    by (rule heap_at_cong [OF rest]) (auto simp: HEADER_SIZE_def m1_def)
  ultimately have h1: "heap_at m1 p ((s + HEADER_SIZE + s', True) # bs) e"
    using b nb by (auto simp: add.assoc m1_def)
  have "\<forall>a<p. m1 a = m a" by (simp add: m1_def)
  with merge.IH [OF h1 _ merge.prems(3,4)] step show ?case by auto
next
  case (used s bs)
  show ?case
    using coalesce_skip [OF used.prems(1,3)] used by (auto simp: HEADER_SIZE_def)
next
  case (last b)
  obtain s f where b: "b = (s, f)" by (cases b)
  show ?case
    using coalesce_skip [OF last.prems(1)[unfolded b] last.prems(3)] by (auto simp: b)
next
  case (stop b s' bs)
  obtain s f where b: "b = (s, f)" by (cases b)
  show ?case
    using coalesce_skip [OF stop.prems(1)[unfolded b] stop.prems(3)] stop by (auto simp: b)
qed simp

section \<open>Live allocations\<close>

lemma footprint_simps [simp]:
  "footprint [] = 0"
  "footprint ((s, f) # bs) = s + HEADER_SIZE + footprint bs"
  by (simp_all add: footprint_def)

lemma alive_bounds: "(q, s) \<in> alive p bs \<Longrightarrow> p + HEADER_SIZE \<le> q \<and> q + s \<le> p + footprint bs"
  by (induction p bs rule: alive.induct) (fastforce split: if_splits)+

lemma alive_disjoint:
  "(q, s) \<in> alive p bs \<Longrightarrow> (r, t) \<in> alive p bs \<Longrightarrow> (q, s) \<noteq> (r, t) \<Longrightarrow>
   q + s < r \<or> r + t < q"
proof (induction p bs rule: alive.induct)
  case (1 p)
  then show ?case by simp
next
  case (2 p s' f bs)
  have *: "q + s < r" if "(q, s) = (p + HEADER_SIZE, s')" "(r, t) \<in> alive (p + HEADER_SIZE + s') bs"
    for q s r t
    using that alive_bounds [of r t "p + HEADER_SIZE + s'" bs] by (auto simp: HEADER_SIZE_def)
  from 2 * [of q s r t] * [of r t q s] show ?case by (auto split: if_splits)
qed

text \<open>Between two live blocks there is room for the header of the upper one.\<close>

lemma alive_gap:
  "(q, s) \<in> alive p bs \<Longrightarrow> (r, t) \<in> alive p bs \<Longrightarrow> (r, t) \<noteq> (q, s) \<Longrightarrow>
   q + s \<le> r - HEADER_SIZE \<or> r + t \<le> q - HEADER_SIZE"
proof (induction p bs rule: alive.induct)
  case (1 p)
  then show ?case by simp
next
  case (2 p s' f bs)
  have *: "q + s \<le> r - HEADER_SIZE"
    if "(q, s) = (p + HEADER_SIZE, s')" "(r, t) \<in> alive (p + HEADER_SIZE + s') bs" for q s r t
    using that alive_bounds [of r t "p + HEADER_SIZE + s'" bs] by auto
  from 2 * [of q s r t] * [of r t q s] show ?case by (auto split: if_splits)
qed

lemma amalloc_alive:
  "amalloc p n bs = Some (q, bs') \<Longrightarrow>
   \<exists>s. alive p bs' = insert (q, s) (alive p bs) \<and> n \<le> s \<and> q \<notin> fst ` alive p bs \<and>
       footprint bs' = footprint bs \<and> p < q"
proof (induction p n bs arbitrary: bs' rule: amalloc.induct)
  case (1 p n)
  then show ?case by simp
next
  case (2 p n s f bs)
  show ?case
  proof (cases "f \<and> n \<le> s")
    case True
    have "p + HEADER_SIZE \<notin> fst ` alive (p + HEADER_SIZE + s) bs"
      by (auto simp: HEADER_SIZE_def dest: alive_bounds)
    with True "2.prems" show ?thesis
      by (auto split: if_splits simp: HEADER_SIZE_def add.assoc)
  next
    case False
    with "2.prems" obtain cs where cs: "amalloc (p + HEADER_SIZE + s) n bs = Some (q, cs)"
      "bs' = (s, f) # cs" by auto
    with "2.IH" False obtain s' where IH:
      "alive (p + HEADER_SIZE + s) cs = insert (q, s') (alive (p + HEADER_SIZE + s) bs)"
      "n \<le> s'" "q \<notin> fst ` alive (p + HEADER_SIZE + s) bs"
      "footprint cs = footprint bs" "p + HEADER_SIZE + s < q"
      by blast
    then show ?thesis using cs by (intro exI [of _ s']) auto
  qed
qed

lemma amalloc_None_iff:
  "amalloc p n bs = None \<longleftrightarrow> (\<forall>(s, f)\<in>set bs. f \<longrightarrow> s < n)"
  by (induction p n bs rule: amalloc.induct) auto

lemma footprint_amark [simp]: "footprint (amark p q bs) = footprint bs"
  by (induction p q bs rule: amark.induct) auto

lemma footprint_acoalesce [simp]: "footprint (acoalesce bs) = footprint bs"
  by (induction bs rule: acoalesce.induct) (auto simp: footprint_def)

lemma alive_acoalesce [simp]: "alive p (acoalesce bs) = alive p bs"
proof (induction bs arbitrary: p rule: acoalesce.induct [case_names merge used last stop empty])
  case (merge s s' bs)
  then show ?case by (simp add: add.assoc)
next
  case (last b)
  then show ?case by (cases b) auto
next
  case (stop b s' bs)
  then show ?case by (cases b) auto
qed auto

lemma amark_alive:
  "(q, s) \<in> alive p bs \<Longrightarrow> alive p (amark p q bs) = alive p bs - {(q, s)}"
proof (induction p q bs rule: amark.induct)
  case (1 p q)
  then show ?case by simp
next
  case (2 p q s' f bs)
  show ?case
  proof (cases "q = p + HEADER_SIZE")
    case True
    with "2.prems" alive_bounds [of q s "p + HEADER_SIZE + s'" bs]
    have "\<not> f" "s = s'" by (auto split: if_splits simp: HEADER_SIZE_def)
    moreover have "(q, s) \<notin> alive (p + HEADER_SIZE + s') bs"
      using True alive_bounds [of q s "p + HEADER_SIZE + s'" bs] by (auto simp: HEADER_SIZE_def)
    ultimately show ?thesis using True by auto
  next
    case False
    with 2 show ?thesis by (auto split: if_splits)
  qed
qed

lemma coalesced_acoalesce: "coalesced (acoalesce bs)"
proof (induction bs rule: acoalesce.induct [case_names merge used last stop empty])
  case (used s bs)
  then show ?case by (cases "acoalesce bs") auto
next
  case (stop b s' bs)
  then show ?case by (cases "acoalesce bs") auto
qed auto

lemma acoalesce_id: "coalesced bs \<Longrightarrow> acoalesce bs = bs"
  by (induction bs rule: acoalesce.induct) (auto simp: neq_Nil_conv elim: coalesced.elims)

lemma amark_Nil_iff [simp]: "amark p q bs = [] \<longleftrightarrow> bs = []"
  by (induction p q bs rule: amark.induct) auto

lemma amark_refines:
  "heap_at m p bs e \<Longrightarrow> (q, s) \<in> alive p bs \<Longrightarrow>
   \<exists>b. m (q - HEADER_SIZE) = Some b \<and>
       heap_at (m(q - HEADER_SIZE \<mapsto> b\<lparr>bfree := 1\<rparr>)) p (amark p q bs) e"
proof (induction m p bs e rule: heap_at.induct)
  case (1 m p e)
  then show ?case by simp
next
  case (2 m p s' f bs e)
  from "2.prems" obtain b where b: "m p = Some b" "unat (bsize b) = s'" "(bfree b \<noteq> 0) = f"
    "bnext b = (if bs = [] then 0 else p + HEADER_SIZE + s')"
    and rest: "heap_at m (p + HEADER_SIZE + s') bs e"
    by (auto split: option.splits)
  show ?case
  proof (cases "q = p + HEADER_SIZE")
    case True
    have "heap_at (m(p \<mapsto> b\<lparr>bfree := 1\<rparr>)) (p + HEADER_SIZE + s') bs e"
      by (rule heap_at_cong [OF rest]) (auto simp: HEADER_SIZE_def)
    with b True show ?thesis by (auto simp: fun_upd_def)
  next
    case False
    with "2.prems" have a: "(q, s) \<in> alive (p + HEADER_SIZE + s') bs"
      by (auto split: if_splits)
    from "2.IH" [OF rest a] obtain b' where b': "m (q - HEADER_SIZE) = Some b'"
      "heap_at (m(q - HEADER_SIZE \<mapsto> b'\<lparr>bfree := 1\<rparr>)) (p + HEADER_SIZE + s')
         (amark (p + HEADER_SIZE + s') q bs) e" by blast
    moreover have "q - HEADER_SIZE \<noteq> p"
      using alive_bounds [OF a] by (auto simp: HEADER_SIZE_def)
    ultimately show ?thesis using b False by (auto simp: fun_upd_def)
  qed
qed

text \<open>Freeing what was just allocated gives back the same block list.\<close>

lemma amark_amalloc:
  "amalloc p n bs = Some (q, bs') \<Longrightarrow> coalesced bs \<Longrightarrow> acoalesce (amark p q bs') = bs"
proof (induction p n bs arbitrary: bs' rule: amalloc.induct)
  case (1 p n)
  then show ?case by simp
next
  case (2 p n s f bs)
  show ?case
  proof (cases "f \<and> n \<le> s")
    case True
    with "2.prems" acoalesce_id [of "(s, True) # bs"] show ?thesis
      by (auto split: if_splits simp: add.assoc)
  next
    case False
    with "2.prems" obtain cs where cs: "amalloc (p + HEADER_SIZE + s) n bs = Some (q, cs)"
      "bs' = (s, f) # cs" by auto
    from "2.prems"(2) have "coalesced bs" by (cases bs) auto
    with "2.IH" False cs have IH: "acoalesce (amark (p + HEADER_SIZE + s) q cs) = bs" by blast
    have q: "q \<noteq> p + HEADER_SIZE"
      using amalloc_alive [OF cs(1)] by (auto simp: HEADER_SIZE_def)
    from cs(1) obtain s1 f1 r where bs: "bs = (s1, f1) # r" by (cases bs) auto
    show ?thesis
    proof (cases f)
      case False
      with IH q cs show ?thesis by simp
    next
      case True
      with "2.prems"(2) bs have "\<not> f1" by auto
      with cs(1) bs obtain r' where "cs = (s1, False) # r'" by auto
      then obtain r'' where "amark (p + HEADER_SIZE + s) q cs = (s1, False) # r''"
        using amalloc_alive [OF cs(1)] alive_bounds IH bs \<open>\<not> f1\<close>
        by (cases "q = p + HEADER_SIZE + s + HEADER_SIZE") (auto simp: acoalesce_id)
      with IH q cs True show ?thesis by simp
    qed
  qed
qed

section \<open>malloc and free on whole heaps\<close>

lemma heap_inv_unique: "heap_inv h bs \<Longrightarrow> heap_inv h bs' \<Longrightarrow> bs = bs'"
  using heap_at_unique by (auto simp: heap_inv_def)

lemma live_eq: "heap_inv h bs \<Longrightarrow> live h = alive HEAP_START bs"
  using heap_inv_unique by (auto simp: live_def)

lemma heap_inv_footprint: "heap_inv h bs \<Longrightarrow> footprint bs = HEAP_SIZE"
  using heap_at_footprint by (fastforce simp: heap_inv_def)

lemma mem_init_inv: "heap_inv (mem_init h) [(HEAP_SIZE - HEADER_SIZE, True)]"
  by (simp add: heap_inv_def mem_init_def HEAP_START_def HEAP_SIZE_def HEADER_SIZE_def)

lemma malloc_refines:
  assumes "heap_inv h bs" "sz \<noteq> 0"
  shows "\<exists>r h'. malloc h sz = Some (r, h') \<and>
    (case amalloc HEAP_START (unat (round_up4 sz)) bs of
       None \<Rightarrow> r = 0 \<and> h' = h
     | Some (q, bs') \<Rightarrow> r = q \<and> heap_inv h' bs')"
proof -
  from assms(1) have h: "heap_head h = HEAP_START" "bs \<noteq> []"
    "heap_at (hmem h) HEAP_START bs (HEAP_START + HEAP_SIZE)"
    by (auto simp: heap_inv_def)
  have "0 < HEAP_START" "HEAP_START + HEAP_SIZE < 2 ^ 32 - 64"
    by (simp_all add: HEAP_START_def HEAP_SIZE_def)
  from malloc_walk_refines [OF h(3,2) this, of "round_up4 sz"] obtain r m'
    where "malloc_walk (hmem h) HEAP_START (round_up4 sz) = Some (r, m')"
      "case amalloc HEAP_START (unat (round_up4 sz)) bs of
         None \<Rightarrow> r = 0 \<and> m' = hmem h
       | Some (q, bs') \<Rightarrow> r = q \<and> bs' \<noteq> [] \<and> heap_at m' HEAP_START bs' (HEAP_START + HEAP_SIZE)"
    by blast
  with h(1) assms(2) show ?thesis
    by (auto simp: malloc_def heap_inv_def split: option.splits)
qed

lemma free_refines:
  assumes "heap_inv h bs" "(p, s) \<in> live h"
  shows "\<exists>h'. free h p = Some h' \<and> heap_inv h' (acoalesce (amark HEAP_START p bs))"
proof -
  from assms(1) have h: "heap_head h = HEAP_START" "bs \<noteq> []"
    "heap_at (hmem h) HEAP_START bs (HEAP_START + HEAP_SIZE)"
    by (auto simp: heap_inv_def)
  have e: "0 < HEAP_START" "HEAP_START + HEAP_SIZE < 2 ^ 32 - 64"
    by (simp_all add: HEAP_START_def HEAP_SIZE_def)
  from assms have a: "(p, s) \<in> alive HEAP_START bs" by (simp add: live_eq)
  from amark_refines [OF h(3) a] obtain b where b: "hmem h (p - HEADER_SIZE) = Some b"
    "heap_at ((hmem h)(p - HEADER_SIZE \<mapsto> b\<lparr>bfree := 1\<rparr>)) HEAP_START (amark HEAP_START p bs)
       (HEAP_START + HEAP_SIZE)" by auto
  have ne: "amark HEAP_START p bs \<noteq> []" using h(2) by simp
  from acoalesce_refines [OF b(2) ne e] obtain m' where
    "coalesce ((hmem h)(p - HEADER_SIZE \<mapsto> b\<lparr>bfree := 1\<rparr>)) HEAP_START = Some m'"
    "heap_at m' HEAP_START (acoalesce (amark HEAP_START p bs)) (HEAP_START + HEAP_SIZE)"
    by auto
  moreover have "p \<noteq> 0" using alive_bounds [OF a] by (simp add: HEADER_SIZE_def)
  ultimately show ?thesis
    using b h ne by (auto simp: free_def heap_inv_def)
qed

text \<open>The kernel heap keeps the allocator contract.\<close>

interpretation kernel_heap: allocator malloc free live heap_ok
proof (unfold_locales, goal_cases)
  case (1 h n)
  then obtain bs where bs: "heap_inv h bs" by (auto simp: heap_ok_def)
  show ?case
  proof (cases "n = 0")
    case True
    with 1 show ?thesis by (simp add: malloc_def)
  next
    case False
    with malloc_refines [OF bs, of n] bs show ?thesis
      by (auto simp: heap_ok_def split: option.splits)
  qed
next
  case (2 h n h')
  then obtain bs where bs: "heap_inv h bs" by (auto simp: heap_ok_def)
  show ?case
  proof (cases "n = 0")
    case True
    with 2 show ?thesis by (simp add: malloc_def)
  next
    case False
    with malloc_refines [OF bs, of n] 2(2) show ?thesis
      by (auto split: option.splits dest!: amalloc_alive)
  qed
next
  case (3 h n p h')
  then obtain bs where bs: "heap_inv h bs" by (auto simp: heap_ok_def)
  from 3(2,3) have n: "n \<noteq> 0" by (auto simp: malloc_def)
  with malloc_refines [OF bs, of n] 3(2,3) obtain bs'
    where am: "amalloc HEAP_START (unat (round_up4 n)) bs = Some (p, bs')" and bs': "heap_inv h' bs'"
    by (auto split: option.splits)
  from amalloc_alive [OF am] bs bs' obtain s where
    "live h' = insert (p, s) (live h)" "unat (round_up4 n) \<le> s" "p \<notin> fst ` live h"
    by (auto simp: live_eq)
  moreover have "unat n \<le> unat (round_up4 n)" if "unat n \<le> 0xFFFFFFFC"
    using round_up4_nat [OF that] by linarith
  ultimately show ?case by (meson order_trans)
next
  case (4 h p s)
  then obtain bs where bs: "heap_inv h bs" by (auto simp: heap_ok_def)
  from free_refines [OF bs 4(2)] obtain h' where h': "free h p = Some h'"
    "heap_inv h' (acoalesce (amark HEAP_START p bs))" by auto
  with bs 4(2) show ?case
    by (intro exI [of _ h']) (auto simp: heap_ok_def live_eq amark_alive)
next
  case (5 h p s q t)
  then show ?case using alive_disjoint by (fastforce simp: heap_ok_def live_eq)
next
  case (6 h p s)
  then show ?case
    using alive_bounds by (fastforce simp: heap_ok_def live_eq HEADER_SIZE_def)
qed

section \<open>Properties\<close>

text \<open>
  C4. \<open>malloc\<close> refines first fit. On a well-formed heap a non-zero request returns; the
  pointer and the new heap are those of a first-fit search over the block list for the rounded
  size, and a null pointer with an unchanged heap is the answer exactly when no free block is
  large enough.
\<close>

theorem malloc_first_fit:
  assumes "heap_inv h bs" "sz \<noteq> 0"
  shows "\<exists>r h'. malloc h sz = Some (r, h') \<and>
    (case amalloc HEAP_START (unat (round_up4 sz)) bs of
       None \<Rightarrow> r = 0 \<and> h' = h
     | Some (q, bs') \<Rightarrow> r = q \<and> heap_inv h' bs') \<and>
    (r = 0 \<longleftrightarrow> (\<forall>(s, f)\<in>set bs. f \<longrightarrow> s < unat (round_up4 sz)))"
proof -
  from malloc_refines [OF assms] obtain r h' where "malloc h sz = Some (r, h')"
    "case amalloc HEAP_START (unat (round_up4 sz)) bs of
       None \<Rightarrow> r = 0 \<and> h' = h
     | Some (q, bs') \<Rightarrow> r = q \<and> heap_inv h' bs'" by blast
  moreover from this(2) have "r = 0 \<longleftrightarrow> amalloc HEAP_START (unat (round_up4 sz)) bs = None"
    by (auto split: option.splits dest!: amalloc_alive)
  ultimately show ?thesis by (auto simp: amalloc_None_iff)
qed

theorem malloc_first_fit_witness:
  "\<exists>h'. malloc (mem_init \<lparr>heap_head = 0, hmem = (\<lambda>_. None)\<rparr>) 100 = Some (0x100010, h') \<and>
     heap_inv h' [(100, False), (0x600000 - 132, True)]"
proof -
  have "unat (round_up4 100) = 100" by (simp add: round_up4_nat)
  then show ?thesis
    using malloc_first_fit [OF mem_init_inv [of "\<lparr>heap_head = 0, hmem = (\<lambda>_. None)\<rparr>"], of 100]
    by (auto simp: HEAP_START_def HEAP_SIZE_def HEADER_SIZE_def)
qed

text \<open>
  C12. Memory safety of allocation. Every block that \<open>malloc\<close> hands out for a request of at most
  \<open>0xFFFFFFFC\<close> bytes lies inside the heap region, is at least as long as the request, and
  overlaps neither another live block nor its header; the live blocks are the old ones and the
  new one.
\<close>

theorem malloc_block_safe:
  assumes "heap_ok h" "malloc h n = Some (p, h')" "p \<noteq> 0" "unat n \<le> 0xFFFFFFFC"
  shows "heap_ok h' \<and> (\<exists>s. live h' = insert (p, s) (live h) \<and> unat n \<le> s \<and>
    HEAP_START + HEADER_SIZE \<le> p \<and> p + s \<le> HEAP_START + HEAP_SIZE \<and>
    (\<forall>(q, t)\<in>live h. p + s \<le> q - HEADER_SIZE \<or> q + t \<le> p - HEADER_SIZE))"
proof -
  from kernel_heap.alloc_fresh [OF assms(1-3)] assms(4) obtain s where
    p: "p \<notin> fst ` live h" and l: "live h' = insert (p, s) (live h)" and s: "unat n \<le> s"
    by auto
  from kernel_heap.alloc_preserves [OF assms(1,2)] have ok: "heap_ok h'" by simp
  then obtain bs where bs: "heap_inv h' bs" by (auto simp: heap_ok_def)
  then have a: "(p, s) \<in> alive HEAP_START bs" using l by (simp add: live_eq [symmetric])
  have "p + s \<le> q - HEADER_SIZE \<or> q + t \<le> p - HEADER_SIZE" if "(q, t) \<in> live h" for q t
  proof -
    have "(q, t) \<in> alive HEAP_START bs" "(q, t) \<noteq> (p, s)"
      using that l p bs by (auto simp: live_eq [symmetric] image_iff)
    with a show ?thesis using alive_gap by blast
  qed
  then show ?thesis
    using ok l s alive_bounds [OF a] heap_inv_footprint [OF bs] by auto
qed

theorem malloc_block_safe_witness:
  "\<exists>h1 h2. malloc (mem_init \<lparr>heap_head = 0, hmem = (\<lambda>_. None)\<rparr>) 8 = Some (0x100010, h1) \<and>
     malloc h1 5 = Some (0x100028, h2) \<and>
     (\<exists>s. live h2 = insert (0x100028, s) (live h1) \<and> 5 \<le> s)"
proof -
  let ?h0 = "mem_init \<lparr>heap_head = 0, hmem = (\<lambda>_. None)\<rparr>"
  have r: "unat (round_up4 8) = 8" "unat (round_up4 5) = 8" by (simp_all add: round_up4_nat)
  from malloc_refines [OF mem_init_inv [of "\<lparr>heap_head = 0, hmem = (\<lambda>_. None)\<rparr>"], of 8] r
  obtain h1 where h1: "malloc ?h0 8 = Some (0x100010, h1)"
    "heap_inv h1 [(8, False), (0x600000 - 40, True)]"
    by (auto simp: HEAP_START_def HEAP_SIZE_def HEADER_SIZE_def)
  from malloc_refines [OF h1(2), of 5] r obtain h2 where h2: "malloc h1 5 = Some (0x100028, h2)"
    by (auto simp: HEAP_START_def HEAP_SIZE_def HEADER_SIZE_def)
  have "heap_ok h1" using h1(2) by (auto simp: heap_ok_def)
  from malloc_block_safe [OF this h2] h1 h2 show ?thesis by auto
qed

text \<open>
  C13. Freeing a live block returns, removes exactly that block from the live set, keeps every
  byte of the heap accounted for, and leaves no two neighbouring free blocks: the coalescing
  pass is complete after every call.
\<close>

theorem free_coalesces:
  assumes "heap_ok h" "(p, s) \<in> live h"
  shows "\<exists>h' bs'. free h p = Some h' \<and> heap_inv h' bs' \<and> live h' = live h - {(p, s)} \<and>
    footprint bs' = HEAP_SIZE \<and> coalesced bs'"
proof -
  from assms(1) obtain bs where bs: "heap_inv h bs" by (auto simp: heap_ok_def)
  from free_refines [OF bs assms(2)] obtain h' where h': "free h p = Some h'"
    "heap_inv h' (acoalesce (amark HEAP_START p bs))" by auto
  moreover from kernel_heap.dealloc_frees [OF assms] h' have "live h' = live h - {(p, s)}" by auto
  ultimately show ?thesis
    using heap_inv_footprint coalesced_acoalesce by blast
qed

theorem free_coalesces_witness:
  "\<exists>h1 h2 bs. malloc (mem_init \<lparr>heap_head = 0, hmem = (\<lambda>_. None)\<rparr>) 8 = Some (0x100010, h1) \<and>
     free h1 0x100010 = Some h2 \<and> heap_inv h2 bs \<and> coalesced bs \<and> live h2 = live h1 - {(0x100010, 8)}"
proof -
  let ?h0 = "mem_init \<lparr>heap_head = 0, hmem = (\<lambda>_. None)\<rparr>"
  have r: "unat (round_up4 8) = 8" by (simp add: round_up4_nat)
  from malloc_refines [OF mem_init_inv [of "\<lparr>heap_head = 0, hmem = (\<lambda>_. None)\<rparr>"], of 8] r
  obtain h1 where h1: "malloc ?h0 8 = Some (0x100010, h1)"
    "heap_inv h1 [(8, False), (0x600000 - 40, True)]"
    by (auto simp: HEAP_START_def HEAP_SIZE_def HEADER_SIZE_def)
  then have "heap_ok h1" "(0x100010, 8) \<in> live h1"
    by (auto simp: heap_ok_def live_eq HEAP_START_def HEADER_SIZE_def)
  from free_coalesces [OF this] h1(1) show ?thesis by blast
qed

text \<open>
  Round trip: on a heap without neighbouring free blocks, which is what every \<open>free\<close>
  leaves, allocating a block and freeing it again restores the block list exactly, so repeated
  use does not fragment the heap.
\<close>

theorem malloc_free_roundtrip:
  assumes "heap_inv h bs" "coalesced bs" "malloc h n = Some (p, h1)" "p \<noteq> 0"
  shows "\<exists>h2. free h1 p = Some h2 \<and> heap_inv h2 bs"
proof -
  from assms(3,4) have "n \<noteq> 0" by (auto simp: malloc_def)
  with malloc_refines [OF assms(1), of n] assms(3,4) obtain bs1
    where am: "amalloc HEAP_START (unat (round_up4 n)) bs = Some (p, bs1)" and bs1: "heap_inv h1 bs1"
    by (auto split: option.splits)
  from amalloc_alive [OF am] bs1 obtain s where "(p, s) \<in> live h1" by (auto simp: live_eq)
  from free_refines [OF bs1 this] amark_amalloc [OF am assms(2)] show ?thesis by simp
qed

theorem malloc_free_roundtrip_witness:
  "\<exists>h1 h2. malloc (mem_init \<lparr>heap_head = 0, hmem = (\<lambda>_. None)\<rparr>) 24 = Some (0x100010, h1) \<and>
     free h1 0x100010 = Some h2 \<and> heap_inv h2 [(0x600000 - 16, True)]"
proof -
  let ?h = "\<lparr>heap_head = 0, hmem = (\<lambda>_. None)\<rparr>"
  have r: "unat (round_up4 24) = 24" by (simp add: round_up4_nat)
  from malloc_refines [OF mem_init_inv [of ?h], of 24] r
  obtain h1 where h1: "malloc (mem_init ?h) 24 = Some (0x100010, h1)"
    by (auto simp: HEAP_START_def HEAP_SIZE_def HEADER_SIZE_def)
  from malloc_free_roundtrip [OF mem_init_inv _ h1] h1 show ?thesis
    by (auto simp: HEAP_SIZE_def HEADER_SIZE_def)
qed

end
