(* ===== verification/Task.thy ===== *)
theory Task
  imports Prelude
begin

text \<open>
  The task table of \<open>src/kernel/task.c\<close>: the \<open>Task\<close> structure, blocking and waking, sleeping,
  signals, interval timers, limits and the small accessors. The scheduler is in \<open>Sched\<close>,
  creation and destruction of tasks in \<open>Lifecycle\<close>.

  Flags that the code stores as 0 or 1 are \<open>bool\<close>; task identifiers are \<open>int\<close> as in the code,
  because \<open>-1\<close> means "none" and callers pass unchecked values. \<open>task_block\<close> and \<open>task_sleep\<close>
  are the state change they make before halting the processor; the halt loop returns when
  another task has made the status \<open>TASK_RUNNING\<close> again, which the step relations of the
  components that block spell out.
\<close>

unbundle bit_operations_syntax

section \<open>State\<close>

definition MAX_TASKS :: nat where "MAX_TASKS = 32"
definition STACK_SIZE :: nat where "STACK_SIZE = 8192"

datatype task_status = TASK_RUNNING | TASK_BLOCKED | TASK_SLEEPING

record task =
  rsp :: nat
  used :: bool
  status :: task_status
  wake_tick :: u32
  page_dir :: nat
  name :: bytes
  priority :: u8
  ticks :: u8
  pipe_id :: int
  cpu_id :: int
  is_user :: bool
  is_thread :: bool
  parent_tid :: int
  waiter :: int
  heap_end :: u64
  tstack_frames :: "nat list"
  pending_signals :: u32
  exit_code :: int
  tls_frame :: nat
  arg_argc :: int
  arg_buf :: bytes
  nice :: int
  age_ticks :: u32
  uid :: int
  fpu_state :: bytes
  fpu_valid :: bool
  itimer_interval :: u32
  itimer_remaining :: u32
  signal_mask :: u32
  rlimit_mem :: u32
  rlimit_fds :: u16

text \<open>The table is static storage, so it starts as zero bytes.\<close>

definition zero_task :: task where
  "zero_task =
     \<lparr>rsp = 0, used = False, status = TASK_RUNNING, wake_tick = 0, page_dir = 0,
      name = replicate 32 0, priority = 0, ticks = 0, pipe_id = 0, cpu_id = 0,
      is_user = False, is_thread = False, parent_tid = 0, waiter = 0, heap_end = 0,
      tstack_frames = [0, 0, 0, 0], pending_signals = 0, exit_code = 0, tls_frame = 0,
      arg_argc = 0, arg_buf = replicate 512 0, nice = 0, age_ticks = 0, uid = 0,
      fpu_state = replicate 512 0, fpu_valid = False, itimer_interval = 0,
      itimer_remaining = 0, signal_mask = 0, rlimit_mem = 0, rlimit_fds = 0\<rparr>"

record task_state =
  tasks :: "task list"
  current_task :: nat
  task_count :: int
  exit_codes :: "int list"
  has_ap :: bool
  current_task_ap :: int
  stacks_base :: nat
  tick :: u32

definition boot_tasks :: task_state where
  "boot_tasks =
     \<lparr>tasks = replicate MAX_TASKS zero_task, current_task = 0, task_count = 0,
      exit_codes = replicate MAX_TASKS 0, has_ap = False, current_task_ap = -1,
      stacks_base = 0, tick = 0\<rparr>"

abbreviation the_task :: "task_state \<Rightarrow> nat \<Rightarrow> task" where
  "the_task s i \<equiv> tasks s ! i"

definition upd_task :: "nat \<Rightarrow> (task \<Rightarrow> task) \<Rightarrow> task_state \<Rightarrow> task_state" where
  "upd_task i f s = s\<lparr>tasks := (tasks s)[i := f (tasks s ! i)]\<rparr>"

definition valid_tid :: "int \<Rightarrow> bool" where
  "valid_tid tid \<longleftrightarrow> 0 \<le> tid \<and> tid < int MAX_TASKS"

definition tasks_wf :: "task_state \<Rightarrow> bool" where
  "tasks_wf s \<longleftrightarrow> length (tasks s) = MAX_TASKS \<and> length (exit_codes s) = MAX_TASKS \<and>
     current_task s < MAX_TASKS"

section \<open>Initialisation\<close>

text \<open>\<open>str_copy_n\<close> into one of the fixed name arrays.\<close>

definition str_copy_n :: "bytes \<Rightarrow> bytes \<Rightarrow> nat \<Rightarrow> bytes" where
  "str_copy_n dst src n = (case c_strcpy dst src n of None \<Rightarrow> dst | Some d \<Rightarrow> d)"

definition task_init_common :: "nat \<Rightarrow> task_state \<Rightarrow> task_state" where
  "task_init_common tid = upd_task tid (\<lambda>t. t\<lparr>used := True, status := TASK_RUNNING,
     wake_tick := 0, pipe_id := -1, waiter := -1, fpu_valid := False, itimer_interval := 0,
     itimer_remaining := 0, signal_mask := 0, rlimit_mem := 0, rlimit_fds := 0\<rparr>)"

definition task_init :: "nat \<Rightarrow> task_state \<Rightarrow> task_state" where
  "task_init base s = s\<lparr>stacks_base := base,
     tasks := map (\<lambda>t. t\<lparr>used := False, status := TASK_RUNNING, wake_tick := 0\<rparr>) (tasks s)\<rparr>"

definition shell_name :: bytes where
  "shell_name = [91, 115, 104, 101, 108, 108, 93]"

definition task_set_main :: "task_state \<Rightarrow> task_state" where
  "task_set_main s = upd_task 0 (\<lambda>t. t\<lparr>used := True, status := TASK_RUNNING, wake_tick := 0,
       priority := 3, ticks := 3, pipe_id := -1, cpu_id := 0, is_user := True,
       page_dir := 0x1000, name := str_copy_n (name t) shell_name 32\<rparr>) (s\<lparr>task_count := 1\<rparr>)"

section \<open>Blocking, sleeping, waking\<close>

definition task_sleep :: "u32 \<Rightarrow> task_state \<Rightarrow> task_state" where
  "task_sleep ms s =
     (let wait_ticks = (if ms > 0 then ms else 1)
      in upd_task (current_task s)
           (\<lambda>t. t\<lparr>status := TASK_SLEEPING, wake_tick := tick s + wait_ticks\<rparr>) s)"

definition task_block :: "task_state \<Rightarrow> task_state" where
  "task_block s = upd_task (current_task s) (\<lambda>t. t\<lparr>status := TASK_BLOCKED\<rparr>) s"

definition task_unblock :: "int \<Rightarrow> task_state \<Rightarrow> task_state" where
  "task_unblock tid s =
     (if valid_tid tid \<and> used (the_task s (nat tid)) \<and> status (the_task s (nat tid)) = TASK_BLOCKED
      then upd_task (nat tid) (\<lambda>t. t\<lparr>status := TASK_RUNNING\<rparr>) s else s)"

definition task_check_sleepers :: "task_state \<Rightarrow> task_state" where
  "task_check_sleepers s =
     s\<lparr>tasks := map (\<lambda>t. if used t \<and> status t = TASK_SLEEPING \<and> wake_tick t \<le> tick s
                         then t\<lparr>status := TASK_RUNNING\<rparr> else t) (tasks s)\<rparr>"

definition task_yield :: "task_state \<Rightarrow> task_state" where
  "task_yield s =
     (if status (the_task s (current_task s)) = TASK_RUNNING
      then upd_task (current_task s) (\<lambda>t. t\<lparr>ticks := 1\<rparr>) s else s)"

text \<open>
  \<open>task_wait\<close>: register as waiter and block; \<open>task_wait_done\<close> is what runs after the wake-up.
\<close>

definition task_wait :: "int \<Rightarrow> task_state \<Rightarrow> task_state" where
  "task_wait tid s =
     (if tid \<le> 0 \<or> tid \<ge> int MAX_TASKS then s
      else if \<not> used (the_task s (nat tid)) then s
      else task_block (upd_task (nat tid) (\<lambda>t. t\<lparr>waiter := int (current_task s)\<rparr>) s))"

definition task_wait_done :: "int \<Rightarrow> task_state \<Rightarrow> task_state" where
  "task_wait_done tid s = upd_task (nat tid) (\<lambda>t. t\<lparr>waiter := -1\<rparr>) s"

section \<open>Signals and interval timers\<close>

definition SIGINT :: nat where "SIGINT = 2"
definition SIGKILL :: nat where "SIGKILL = 9"
definition SIGALRM :: nat where "SIGALRM = 14"
definition SIGTERM :: nat where "SIGTERM = 15"

definition sigbit :: "nat \<Rightarrow> u32" where
  "sigbit n = push_bit n 1"

definition task_send_signal :: "int \<Rightarrow> int \<Rightarrow> task_state \<Rightarrow> task_state" where
  "task_send_signal tid sig s =
     (if tid \<le> 0 \<or> tid \<ge> int MAX_TASKS \<or> \<not> used (the_task s (nat tid)) then s
      else if sig \<le> 0 \<or> sig \<ge> 32 then s
      else let s1 = upd_task (nat tid)
                 (\<lambda>t. t\<lparr>pending_signals := pending_signals t OR sigbit (nat sig)\<rparr>) s
           in if status (the_task s1 (nat tid)) \<noteq> TASK_RUNNING then task_unblock tid s1 else s1)"

text \<open>The loop that looks for the lowest pending signal, from bit 1 up.\<close>

function lowest_sig :: "u32 \<Rightarrow> nat \<Rightarrow> nat" where
  "lowest_sig m sig = (if sig < 32 \<and> m AND sigbit sig = 0 then lowest_sig m (Suc sig) else sig)"
  by pat_completeness auto
termination
  by (relation "measure (\<lambda>(m, sig). 32 - sig)") auto

declare lowest_sig.simps [simp del]

text \<open>
  \<open>Some code\<close> means that the current task leaves the kernel through \<open>task_exit_code(code)\<close> and
  the call does not return.
\<close>

definition task_check_signals :: "task_state \<Rightarrow> int option" where
  "task_check_signals s =
     (let t = the_task s (current_task s);
          trm = sigbit SIGINT OR sigbit SIGKILL OR sigbit SIGTERM;
          sigs = pending_signals t AND trm
      in if sigs = 0 \<or> \<not> is_user t then None
         else let masked = (sigs AND NOT (signal_mask t)) OR (sigs AND sigbit SIGKILL)
              in if masked = 0 then None else Some (128 + int (lowest_sig masked 1)))"

definition task_set_signal_mask :: "int \<Rightarrow> u32 \<Rightarrow> task_state \<Rightarrow> task_state" where
  "task_set_signal_mask tid m s =
     (if \<not> valid_tid tid \<or> \<not> used (the_task s (nat tid)) then s
      else upd_task (nat tid) (\<lambda>t. t\<lparr>signal_mask := m AND NOT (sigbit SIGKILL)\<rparr>) s)"

definition task_get_signal_mask :: "int \<Rightarrow> task_state \<Rightarrow> u32" where
  "task_get_signal_mask tid s = (if \<not> valid_tid tid then 0 else signal_mask (the_task s (nat tid)))"

text \<open>One iteration of the timer loop, for slot \<open>i\<close>.\<close>

definition itimer_slot :: "nat \<Rightarrow> task_state \<Rightarrow> task_state" where
  "itimer_slot i s =
     (let t = the_task s i in
      if \<not> used t \<or> \<not> is_user t then s
      else if itimer_interval t = 0 then s
      else if itimer_remaining t > 0 then
        (let s1 = upd_task i (\<lambda>t. t\<lparr>itimer_remaining := itimer_remaining t - 1\<rparr>) s
         in if itimer_remaining (the_task s1 i) = 0
            then upd_task i (\<lambda>t. t\<lparr>itimer_remaining := itimer_interval t\<rparr>)
                   (task_send_signal (int i) (int SIGALRM) s1)
            else s1)
      else s)"

definition task_itimer_tick :: "task_state \<Rightarrow> task_state" where
  "task_itimer_tick s = fold itimer_slot [0..<MAX_TASKS] s"

definition task_set_itimer :: "int \<Rightarrow> u32 \<Rightarrow> task_state \<Rightarrow> task_state" where
  "task_set_itimer tid interval_ms s =
     (if \<not> valid_tid tid \<or> \<not> used (the_task s (nat tid)) then s
      else upd_task (nat tid)
             (\<lambda>t. t\<lparr>itimer_interval := interval_ms, itimer_remaining := interval_ms\<rparr>) s)"

text \<open>
  The timer interrupt (\<open>src/kernel/timer.c\<close>): advance the clock, wake sleepers, run the interval
  timers. The flag says whether the TCP timers are due in this tick.
\<close>

definition timer_handler :: "task_state \<Rightarrow> task_state \<times> bool" where
  "timer_handler s =
     (let s1 = s\<lparr>tick := tick s + 1\<rparr>;
          s2 = task_itimer_tick (task_check_sleepers s1)
      in (s2, tick s1 mod 10 = 0))"

definition timer_irq :: "task_state \<Rightarrow> task_state" where
  "timer_irq s = fst (timer_handler s)"

section \<open>Accessors\<close>

definition task_is_used :: "int \<Rightarrow> task_state \<Rightarrow> bool" where
  "task_is_used tid s = (if valid_tid tid then used (the_task s (nat tid)) else False)"

definition task_is_thread :: "int \<Rightarrow> task_state \<Rightarrow> bool" where
  "task_is_thread tid s = (if valid_tid tid then is_thread (the_task s (nat tid)) else False)"

definition task_get_parent :: "int \<Rightarrow> task_state \<Rightarrow> int" where
  "task_get_parent tid s = (if valid_tid tid then parent_tid (the_task s (nat tid)) else -1)"

definition task_get_cpu :: "int \<Rightarrow> task_state \<Rightarrow> int" where
  "task_get_cpu tid s = (if valid_tid tid then cpu_id (the_task s (nat tid)) else -1)"

definition task_get_priority :: "int \<Rightarrow> task_state \<Rightarrow> int" where
  "task_get_priority tid s = (if valid_tid tid then uint (priority (the_task s (nat tid))) else 0)"

definition task_get_heap_end :: "int \<Rightarrow> task_state \<Rightarrow> u64" where
  "task_get_heap_end tid s = (if valid_tid tid then heap_end (the_task s (nat tid)) else 0)"

definition task_set_heap_end :: "int \<Rightarrow> u64 \<Rightarrow> task_state \<Rightarrow> task_state" where
  "task_set_heap_end tid e s =
     (if valid_tid tid then upd_task (nat tid) (\<lambda>t. t\<lparr>heap_end := e\<rparr>) s else s)"

definition task_get_exit_code :: "int \<Rightarrow> task_state \<Rightarrow> int" where
  "task_get_exit_code tid s = (if valid_tid tid then exit_codes s ! nat tid else -1)"

definition task_set_name :: "int \<Rightarrow> bytes option \<Rightarrow> task_state \<Rightarrow> task_state" where
  "task_set_name tid nm s =
     (case nm of
        None \<Rightarrow> s
      | Some n \<Rightarrow>
          if \<not> valid_tid tid \<or> \<not> used (the_task s (nat tid)) then s
          else upd_task (nat tid) (\<lambda>t. t\<lparr>name := str_copy_n (name t) n 32\<rparr>) s)"

definition task_set_rlimit :: "int \<Rightarrow> u32 \<Rightarrow> u16 \<Rightarrow> task_state \<Rightarrow> task_state" where
  "task_set_rlimit tid mem_kb fds s =
     (if \<not> valid_tid tid \<or> \<not> used (the_task s (nat tid)) then s
      else upd_task (nat tid) (\<lambda>t. t\<lparr>rlimit_mem := mem_kb, rlimit_fds := fds\<rparr>) s)"

text \<open>\<open>None\<close>: the output arguments are left untouched.\<close>

definition task_get_rlimit :: "int \<Rightarrow> task_state \<Rightarrow> (u32 \<times> u16) option" where
  "task_get_rlimit tid s =
     (if \<not> valid_tid tid \<or> \<not> used (the_task s (nat tid)) then None
      else Some (rlimit_mem (the_task s (nat tid)), rlimit_fds (the_task s (nat tid))))"

definition task_set_priority :: "int \<Rightarrow> int \<Rightarrow> task_state \<Rightarrow> bool \<times> task_state" where
  "task_set_priority tid prio s =
     (if \<not> valid_tid tid \<or> \<not> used (the_task s (nat tid)) then (False, s)
      else if prio < 1 \<or> prio > 3 then (False, s)
      else (True, upd_task (nat tid)
              (\<lambda>t. t\<lparr>priority := word_of_int prio, ticks := word_of_int prio\<rparr>) s))"

definition task_get_nice :: "int \<Rightarrow> task_state \<Rightarrow> int" where
  "task_get_nice tid s =
     (if \<not> valid_tid tid \<or> \<not> used (the_task s (nat tid)) then 0 else nice (the_task s (nat tid)))"

definition task_set_nice :: "int \<Rightarrow> int \<Rightarrow> task_state \<Rightarrow> bool \<times> task_state" where
  "task_set_nice tid nice_val s =
     (if \<not> valid_tid tid \<or> \<not> used (the_task s (nat tid)) then (False, s)
      else let n1 = (if nice_val < -20 then -20 else nice_val);
               n2 = (if n1 > 19 then 19 else n1)
           in (True, upd_task (nat tid) (\<lambda>t. t\<lparr>nice := n2\<rparr>) s))"

definition task_get_uid :: "int \<Rightarrow> task_state \<Rightarrow> int" where
  "task_get_uid tid s =
     (if \<not> valid_tid tid \<or> \<not> used (the_task s (nat tid)) then -1 else uid (the_task s (nat tid)))"

definition task_set_uid :: "int \<Rightarrow> int \<Rightarrow> task_state \<Rightarrow> task_state" where
  "task_set_uid tid u s =
     (if \<not> valid_tid tid then s else upd_task (nat tid) (\<lambda>t. t\<lparr>uid := u\<rparr>) s)"

definition task_set_pipe :: "int \<Rightarrow> int \<Rightarrow> task_state \<Rightarrow> task_state" where
  "task_set_pipe tid p s =
     (if valid_tid tid then upd_task (nat tid) (\<lambda>t. t\<lparr>pipe_id := p\<rparr>) s else s)"

definition task_get_current_pipe :: "task_state \<Rightarrow> int" where
  "task_get_current_pipe s = pipe_id (the_task s (current_task s))"

definition task_get_rsp0 :: "int \<Rightarrow> task_state \<Rightarrow> nat" where
  "task_get_rsp0 tid s =
     (if \<not> valid_tid tid then 0 else stacks_base s + nat tid * STACK_SIZE + STACK_SIZE)"

definition task_get_page_dir :: "int \<Rightarrow> task_state \<Rightarrow> nat" where
  "task_get_page_dir tid s =
     (if \<not> valid_tid tid \<or> \<not> used (the_task s (nat tid)) then 0 else page_dir (the_task s (nat tid)))"

definition task_set_page_dir :: "int \<Rightarrow> nat \<Rightarrow> task_state \<Rightarrow> task_state" where
  "task_set_page_dir tid dir s =
     (if valid_tid tid then upd_task (nat tid) (\<lambda>t. t\<lparr>page_dir := dir\<rparr>) s else s)"

definition tasks_getargc :: "int \<Rightarrow> task_state \<Rightarrow> int" where
  "tasks_getargc tid s =
     (if \<not> valid_tid tid \<or> \<not> used (the_task s (nat tid)) then 0 else arg_argc (the_task s (nat tid)))"

definition tasks_getargbuf :: "int \<Rightarrow> task_state \<Rightarrow> bytes" where
  "tasks_getargbuf tid s =
     (if \<not> valid_tid tid \<or> \<not> used (the_task s (nat tid)) then [] else arg_buf (the_task s (nat tid)))"

text \<open>\<open>None\<close> stands for the result \<open>-1\<close>.\<close>

definition task_get_status :: "int \<Rightarrow> task_state \<Rightarrow> task_status option" where
  "task_get_status tid s = (if \<not> valid_tid tid then None else Some (status (the_task s (nat tid))))"

section \<open>Frame lemmas\<close>

lemma length_tasks_upd_task [simp]: "length (tasks (upd_task i f s)) = length (tasks s)"
  by (simp add: upd_task_def)

lemma upd_task_frame [simp]:
  "current_task (upd_task i f s) = current_task s"
  "task_count (upd_task i f s) = task_count s"
  "exit_codes (upd_task i f s) = exit_codes s"
  "has_ap (upd_task i f s) = has_ap s"
  "current_task_ap (upd_task i f s) = current_task_ap s"
  "stacks_base (upd_task i f s) = stacks_base s"
  "tick (upd_task i f s) = tick s"
  by (simp_all add: upd_task_def)

lemma the_task_upd_task:
  "j < length (tasks s) \<Longrightarrow> the_task (upd_task i f s) j = (if i = j then f (the_task s j) else the_task s j)"
  by (auto simp: upd_task_def nth_list_update)

lemma the_task_upd_same [simp]:
  "i < length (tasks s) \<Longrightarrow> the_task (upd_task i f s) i = f (the_task s i)"
  by (simp add: upd_task_def)

lemma the_task_upd_other [simp]: "i \<noteq> j \<Longrightarrow> the_task (upd_task i f s) j = the_task s j"
  by (simp add: upd_task_def)

lemma upd_task_field:
  assumes "\<And>t. g (f t) = g t"
  shows "map g (tasks (upd_task i f s)) = map g (tasks s)"
  using assms by (cases "i < length (tasks s)")
    (auto simp: upd_task_def map_update list_update_same_conv list_update_beyond)

lemma tasks_wf_upd_task [simp]: "tasks_wf (upd_task i f s) = tasks_wf s"
  by (simp add: tasks_wf_def)

lemma tasks_wf_boot: "tasks_wf boot_tasks"
  by (simp add: tasks_wf_def boot_tasks_def MAX_TASKS_def)

lemma tasks_wf_task_block [simp]: "tasks_wf (task_block s) = tasks_wf s"
  by (simp add: task_block_def)

lemma tasks_wf_task_unblock [simp]: "tasks_wf (task_unblock t s) = tasks_wf s"
  by (simp add: task_unblock_def)

lemma current_task_unblock [simp]:
  "current_task (task_unblock t s) = current_task s" "current_task (task_block s) = current_task s"
  "current_task (task_yield s) = current_task s"
  by (simp_all add: task_unblock_def task_block_def task_yield_def)

lemma length_tasks_unblock [simp]:
  "length (tasks (task_unblock t s)) = length (tasks s)"
  "length (tasks (task_block s)) = length (tasks s)"
  "length (tasks (task_yield s)) = length (tasks s)"
  by (simp_all add: task_unblock_def task_block_def task_yield_def)

lemma valid_tid_nat: "valid_tid t \<Longrightarrow> nat t < MAX_TASKS"
  by (auto simp: valid_tid_def)

lemma valid_tid_int [simp]: "valid_tid (int i) \<longleftrightarrow> i < MAX_TASKS"
  by (auto simp: valid_tid_def)

lemma used_task_unblock [simp]:
  "j < length (tasks s) \<Longrightarrow> used (the_task (task_unblock t s) j) = used (the_task s j)"
  "j < length (tasks s) \<Longrightarrow> used (the_task (task_block s) j) = used (the_task s j)"
  by (auto simp: task_unblock_def task_block_def the_task_upd_task)

text \<open>Waking a task is exactly: a blocked, used task becomes runnable.\<close>

lemma status_task_unblock:
  assumes "j < length (tasks s)" "length (tasks s) = MAX_TASKS"
  shows "status (the_task (task_unblock t s) j) =
    (if t = int j \<and> used (the_task s j) \<and> status (the_task s j) = TASK_BLOCKED
     then TASK_RUNNING else status (the_task s j))"
  using assms by (auto simp: task_unblock_def the_task_upd_task valid_tid_def)

section \<open>Signals\<close>

lemma bit_sigbit: "bit (sigbit n) k \<longleftrightarrow> k = n \<and> n < 32"
  by (auto simp: sigbit_def bit_simps)

lemma and_sigbit_0_iff: "n < 32 \<Longrightarrow> m AND sigbit n = 0 \<longleftrightarrow> \<not> bit m n"
proof
  assume "n < 32"
  then have "bit (m AND sigbit n) n \<longleftrightarrow> bit m n" by (simp add: bit_and_iff bit_sigbit)
  moreover assume "m AND sigbit n = 0"
  ultimately show "\<not> bit m n" by simp
next
  assume "\<not> bit m n"
  then show "m AND sigbit n = 0"
    by (intro bit_eqI) (auto simp: bit_and_iff bit_sigbit)
qed

lemma lowest_sig_spec:
  assumes "sig \<le> n" "n < 32" "bit m n"
  shows "bit m (lowest_sig m sig) \<and> sig \<le> lowest_sig m sig \<and> lowest_sig m sig \<le> n \<and>
    (\<forall>k. sig \<le> k \<longrightarrow> k < lowest_sig m sig \<longrightarrow> \<not> bit m k)"
  using assms
proof (induction m sig rule: lowest_sig.induct)
  case (1 m sig)
  show ?case
  proof (cases "bit m sig")
    case True
    with 1 have "lowest_sig m sig = sig"
      by (subst lowest_sig.simps) (simp add: and_sigbit_0_iff)
    with True 1 show ?thesis by auto
  next
    case False
    with "1.prems" have lt: "sig < n" by (metis le_neq_implies_less)
    with False "1.prems" have eq: "lowest_sig m sig = lowest_sig m (Suc sig)"
      by (subst lowest_sig.simps) (simp add: and_sigbit_0_iff)
    from "1.IH" lt False "1.prems" have IH:
      "bit m (lowest_sig m (Suc sig))" "Suc sig \<le> lowest_sig m (Suc sig)"
      "lowest_sig m (Suc sig) \<le> n"
      "\<forall>k. Suc sig \<le> k \<longrightarrow> k < lowest_sig m (Suc sig) \<longrightarrow> \<not> bit m k"
      by (auto simp: and_sigbit_0_iff)
    have "\<not> bit m k" if "sig \<le> k" "k < lowest_sig m (Suc sig)" for k
      using that False IH(4) by (cases "k = sig") auto
    with IH eq show ?thesis by auto
  qed
qed

text \<open>
  The signals that terminate a task now: pending and, unless it is \<open>SIGKILL\<close>, not masked.
\<close>

definition deliverable :: "task \<Rightarrow> nat \<Rightarrow> bool" where
  "deliverable t n \<longleftrightarrow> n \<in> {SIGINT, SIGKILL, SIGTERM} \<and> bit (pending_signals t) n \<and>
     (n = SIGKILL \<or> \<not> bit (signal_mask t) n)"

lemma bit_masked_signals:
  "bit (((p AND (sigbit SIGINT OR sigbit SIGKILL OR sigbit SIGTERM)) AND NOT msk) OR
        ((p AND (sigbit SIGINT OR sigbit SIGKILL OR sigbit SIGTERM)) AND sigbit SIGKILL)) n \<longleftrightarrow>
   n \<in> {SIGINT, SIGKILL, SIGTERM} \<and> bit p n \<and> (n = SIGKILL \<or> \<not> bit msk n)"
  by (auto simp: bit_simps bit_sigbit SIGINT_def SIGKILL_def SIGTERM_def)

text \<open>
  C14. Signal delivery. On entry to the kernel the current task is terminated exactly when it is
  a user task and some terminating signal is deliverable; the exit code is 128 plus the
  lowest-numbered such signal. A pending \<open>SIGKILL\<close> is deliverable whatever the signal mask.
\<close>

theorem check_signals_delivers:
  "(task_check_signals s \<noteq> None \<longleftrightarrow>
      is_user (the_task s (current_task s)) \<and> (\<exists>n. deliverable (the_task s (current_task s)) n)) \<and>
   (task_check_signals s = Some code \<longleftrightarrow>
      is_user (the_task s (current_task s)) \<and>
      (\<exists>n. deliverable (the_task s (current_task s)) n \<and> code = 128 + int n \<and>
           (\<nexists>k. k < n \<and> deliverable (the_task s (current_task s)) k)))"
proof -
  let ?t = "the_task s (current_task s)"
  let ?trm = "sigbit SIGINT OR sigbit SIGKILL OR sigbit SIGTERM"
  define sigs where "sigs = pending_signals ?t AND ?trm"
  define masked where "masked = (sigs AND NOT (signal_mask ?t)) OR (sigs AND sigbit SIGKILL)"
  have bm: "bit masked n \<longleftrightarrow> deliverable ?t n" for n
    unfolding masked_def sigs_def deliverable_def by (rule bit_masked_signals)
  have z: "sigs = 0 \<Longrightarrow> masked = 0" by (simp add: masked_def)
  have def: "task_check_signals s = (if \<not> is_user ?t \<or> masked = 0 then None
      else Some (128 + int (lowest_sig masked 1)))"
    using z by (auto simp: task_check_signals_def Let_def sigs_def masked_def)
  have m0: "masked = 0 \<longleftrightarrow> (\<nexists>n. deliverable ?t n)"
    using bm bit_eq_iff [of masked 0] by auto
  have low: "lowest_sig masked 1 = n \<longleftrightarrow> deliverable ?t n \<and> (\<nexists>k. k < n \<and> deliverable ?t k)"
    if "masked \<noteq> 0" for n
  proof -
    have range: "1 \<le> k \<and> k < 32" if "deliverable ?t k" for k
      using that by (auto simp: deliverable_def SIGINT_def SIGKILL_def SIGTERM_def)
    from that m0 obtain k where "deliverable ?t k" by blast
    with range lowest_sig_spec [of 1 k masked]
    have *: "deliverable ?t (lowest_sig masked 1)"
      "\<forall>k. 1 \<le> k \<longrightarrow> k < lowest_sig masked 1 \<longrightarrow> \<not> deliverable ?t k" by (auto simp: bm)
    show ?thesis
    proof
      assume "deliverable ?t n \<and> (\<nexists>k. k < n \<and> deliverable ?t k)"
      with * range show "lowest_sig masked 1 = n" by (metis linorder_neqE_nat)
    qed (use * range in blast)
  qed
  show ?thesis
  proof (cases "masked = 0")
    case True
    with m0 show ?thesis by (auto simp: def)
  next
    case False
    with m0 low [OF False] show ?thesis
      by (simp add: def) (metis of_nat_eq_iff add_left_cancel)
  qed
qed

section \<open>Sleeping\<close>

text \<open>Signals and interval timers leave a sleeping task asleep.\<close>

definition sleeping :: "nat \<Rightarrow> u32 \<Rightarrow> task_state \<Rightarrow> bool" where
  "sleeping i w s \<longleftrightarrow> i < length (tasks s) \<and> used (the_task s i) \<and>
     status (the_task s i) = TASK_SLEEPING \<and> wake_tick (the_task s i) = w"

lemma sleeping_upd_task:
  assumes "sleeping i w s"
    "\<And>t. used (f t) = used t" "\<And>t. status (f t) = status t" "\<And>t. wake_tick (f t) = wake_tick t"
  shows "sleeping i w (upd_task j f s)"
  using assms by (auto simp: sleeping_def the_task_upd_task)

lemma sleeping_task_unblock: "sleeping i w s \<Longrightarrow> sleeping i w (task_unblock t s)"
  by (auto simp: sleeping_def task_unblock_def the_task_upd_task)

lemma sleeping_send_signal: "sleeping i w s \<Longrightarrow> sleeping i w (task_send_signal t sig s)"
  by (auto simp: task_send_signal_def Let_def intro!: sleeping_task_unblock sleeping_upd_task)

lemma sleeping_itimer_slot: "sleeping i w s \<Longrightarrow> sleeping i w (itimer_slot j s)"
  by (auto simp: itimer_slot_def Let_def intro!: sleeping_send_signal sleeping_upd_task)

lemma sleeping_fold_itimer: "sleeping i w s \<Longrightarrow> sleeping i w (fold itimer_slot js s)"
  by (induction js arbitrary: s) (simp_all add: sleeping_itimer_slot)

lemma sleeping_itimer_tick: "sleeping i w s \<Longrightarrow> sleeping i w (task_itimer_tick s)"
  by (simp add: task_itimer_tick_def sleeping_fold_itimer)

lemma tick_itimer_slot [simp]: "tick (itimer_slot j s) = tick s"
  by (simp add: itimer_slot_def task_send_signal_def task_unblock_def Let_def)

lemma tick_itimer_tick [simp]: "tick (task_itimer_tick s) = tick s"
proof -
  have "tick (fold itimer_slot js s) = tick s" for js
    by (induction js arbitrary: s) auto
  then show ?thesis by (simp add: task_itimer_tick_def)
qed

lemma tick_timer_irq [simp]: "tick (timer_irq s) = tick s + 1"
  by (simp add: timer_irq_def timer_handler_def Let_def task_check_sleepers_def)

definition runnable :: "nat \<Rightarrow> task_state \<Rightarrow> bool" where
  "runnable i s \<longleftrightarrow> i < length (tasks s) \<and> status (the_task s i) = TASK_RUNNING"

lemma runnable_upd_task:
  "runnable i s \<Longrightarrow> (\<And>t. status t = TASK_RUNNING \<Longrightarrow> status (f t) = TASK_RUNNING) \<Longrightarrow>
   runnable i (upd_task j f s)"
  by (auto simp: runnable_def the_task_upd_task)

lemma runnable_task_unblock: "runnable i s \<Longrightarrow> runnable i (task_unblock t s)"
  by (auto simp: task_unblock_def intro: runnable_upd_task)

lemma runnable_send_signal: "runnable i s \<Longrightarrow> runnable i (task_send_signal t sig s)"
  by (auto simp: task_send_signal_def Let_def intro!: runnable_task_unblock runnable_upd_task)

lemma runnable_itimer_slot: "runnable i s \<Longrightarrow> runnable i (itimer_slot j s)"
  by (auto simp: itimer_slot_def Let_def intro!: runnable_send_signal runnable_upd_task)

lemma runnable_itimer_tick: "runnable i s \<Longrightarrow> runnable i (task_itimer_tick s)"
proof -
  have "runnable i (fold itimer_slot js s)" if "runnable i s" for js
    using that by (induction js arbitrary: s) (simp_all add: runnable_itimer_slot)
  then show "runnable i s \<Longrightarrow> ?thesis" by (simp add: task_itimer_tick_def)
qed

lemma timer_irq_sleeping:
  assumes "sleeping i w s"
  shows "if w \<le> tick s + 1 then status (the_task (timer_irq s) i) = TASK_RUNNING
    else sleeping i w (timer_irq s)"
proof (cases "w \<le> tick s + 1")
  case True
  let ?s1 = "task_check_sleepers (s\<lparr>tick := tick s + 1\<rparr>)"
  have "runnable i ?s1"
    using assms True by (auto simp: sleeping_def task_check_sleepers_def runnable_def)
  from runnable_itimer_tick [OF this] True show ?thesis
    by (simp add: runnable_def timer_irq_def timer_handler_def Let_def)
next
  case False
  then have "sleeping i w (task_check_sleepers (s\<lparr>tick := tick s + 1\<rparr>))"
    using assms by (auto simp: sleeping_def task_check_sleepers_def)
  from sleeping_itimer_tick [OF this] False show ?thesis
    by (simp add: timer_irq_def timer_handler_def Let_def)
qed

text \<open>
  A task that sleeps for \<open>ms\<close> milliseconds stays asleep for every one of the first
  \<open>ms - 1\<close> timer interrupts and is runnable after the \<open>ms\<close>-th, whatever signals and interval
  timers do meanwhile; a sleep of 0 counts as 1. The 32-bit tick counter must not wrap before
  the deadline.
\<close>

theorem task_sleep_duration:
  fixes ms :: u32
  defines "n \<equiv> max 1 (unat ms)"
  assumes "current_task s < length (tasks s)" "used (the_task s (current_task s))"
    "unat (tick s) + n < 2 ^ 32"
  shows "(\<forall>k<n. status (the_task ((timer_irq ^^ k) (task_sleep ms s)) (current_task s)) =
       TASK_SLEEPING) \<and>
    status (the_task ((timer_irq ^^ n) (task_sleep ms s)) (current_task s)) = TASK_RUNNING"
proof -
  let ?c = "current_task s" and ?run = "\<lambda>k. (timer_irq ^^ k) (task_sleep ms s)"
  define w where "w = tick s + (if ms > 0 then ms else 1)"
  have n: "unat (if ms > 0 then ms else 1) = n"
    by (auto simp: n_def word_greater_zero_iff unat_gt_0 max_def Suc_le_eq)
  have w: "unat w = unat (tick s) + n"
    using assms(4) n by (simp add: w_def unat_word_ariths del: unat_1)
  have tick: "tick (?run k) = tick s + of_nat k" for k
    by (induction k) (simp_all add: task_sleep_def Let_def algebra_simps)
  have tk: "unat (tick s + of_nat k) = unat (tick s) + k" if "k \<le> n" for k
    using that assms(4) by (simp add: unat_word_ariths unat_of_nat)
  have sl: "sleeping ?c w (?run k)" if "k < n" for k
    using that
  proof (induction k)
    case 0
    then show ?case
      using assms(2,3) by (simp add: sleeping_def task_sleep_def Let_def w_def)
  next
    case (Suc k)
    then have "\<not> w \<le> tick (?run k) + 1"
      using tk [of "Suc k"] w tick [of k] by (simp add: word_le_nat_alt algebra_simps)
    with timer_irq_sleeping [of ?c w "?run k"] Suc show ?case by simp
  qed
  obtain m where m: "n = Suc m" by (cases n) (auto simp: n_def)
  have "w \<le> tick (?run m) + 1"
    using tk [of n] w tick [of m] m by (simp add: word_le_nat_alt algebra_simps)
  with timer_irq_sleeping [OF sl [of m]] m
  have "status (the_task (?run n) ?c) = TASK_RUNNING" by simp
  with sl show ?thesis by (auto simp: sleeping_def)
qed

theorem task_sleep_duration_witness:
  "status (the_task ((timer_irq ^^ 5) (task_sleep 5 (task_set_main boot_tasks))) 0) =
     TASK_RUNNING"
  using task_sleep_duration [of "task_set_main boot_tasks" 5]
  by (simp add: task_set_main_def boot_tasks_def MAX_TASKS_def)

end
