(* ===== verification/Semaphore.thy ===== *)
theory Semaphore
  imports Task
begin

text \<open>
  Counting semaphores, \<open>src/kernel/semaphore.c\<close>. A semaphore has an 8-bit signed counter and a
  ring of four cells in which blocked tasks wait first-in first-out.

  \<open>sem_wait\<close> is a loop whose body is one section with interrupts off, followed by a yield or a
  \<open>task_block\<close> with interrupts on. \<open>sem_wait_section\<close> is that section; the step relation
  \<open>sem_step\<close> strings the sections of all tasks together, one program point per place where the
  code enables interrupts, so that every interleaving the timer interrupt can produce is a run.
\<close>

section \<open>State and operations\<close>

definition SEM_MAX :: nat where "SEM_MAX = 16"
definition SEM_WAITER_MAX :: nat where "SEM_WAITER_MAX = 4"

record semaphore =
  sem_value :: u8
  sem_used :: bool
  sem_waiters :: "int list"
  sem_whead :: nat
  sem_wtail :: nat

type_synonym sem_table = "semaphore list"

definition fresh_sem :: "bool \<Rightarrow> int \<Rightarrow> semaphore" where
  "fresh_sem u v = \<lparr>sem_value = word_of_int v, sem_used = u,
     sem_waiters = replicate SEM_WAITER_MAX (-1), sem_whead = 0, sem_wtail = 0\<rparr>"

definition sem_init_all :: "sem_table \<Rightarrow> sem_table" where
  "sem_init_all sems = map (\<lambda>_. fresh_sem False 0) sems"

definition sem_alloc :: "int \<Rightarrow> sem_table \<Rightarrow> int \<times> sem_table" where
  "sem_alloc initial_value sems =
     (case find_slot (\<lambda>s. \<not> sem_used s) sems of
        None \<Rightarrow> (-1, sems)
      | Some i \<Rightarrow> (int i, sems[i := fresh_sem True initial_value]))"

definition sem_free :: "int \<Rightarrow> sem_table \<Rightarrow> sem_table" where
  "sem_free sid sems =
     (if 0 \<le> sid \<and> sid < int SEM_MAX
      then sems[nat sid := (sems ! nat sid)\<lparr>sem_used := False\<rparr>] else sems)"

text \<open>\<open>None\<close> is the result \<open>-1\<close>, a full ring.\<close>

definition sem_enqueue :: "int \<Rightarrow> semaphore \<Rightarrow> semaphore option" where
  "sem_enqueue tid s =
     (let nxt = (sem_wtail s + 1) mod SEM_WAITER_MAX
      in if nxt = sem_whead s then None
         else Some (s\<lparr>sem_waiters := (sem_waiters s)[sem_wtail s := tid], sem_wtail := nxt\<rparr>))"

definition sem_dequeue :: "semaphore \<Rightarrow> int \<times> semaphore" where
  "sem_dequeue s =
     (if sem_whead s = sem_wtail s then (-1, s)
      else (sem_waiters s ! sem_whead s,
            s\<lparr>sem_waiters := (sem_waiters s)[sem_whead s := -1],
              sem_whead := (sem_whead s + 1) mod SEM_WAITER_MAX\<rparr>))"

definition sem_valid :: "int \<Rightarrow> sem_table \<Rightarrow> bool" where
  "sem_valid sid sems \<longleftrightarrow> 0 \<le> sid \<and> sid < int SEM_MAX \<and> sem_used (sems ! nat sid)"

datatype wait_result = WaitTaken | WaitRingFull | WaitParked

text \<open>The part of the loop body of \<open>sem_wait\<close> that runs with interrupts off.\<close>

definition sem_wait_section :: "int \<Rightarrow> semaphore \<Rightarrow> wait_result \<times> semaphore" where
  "sem_wait_section tid s =
     (if 0 < sint (sem_value s) then (WaitTaken, s\<lparr>sem_value := sem_value s - 1\<rparr>)
      else case sem_enqueue tid s of
        None \<Rightarrow> (WaitRingFull, s)
      | Some s' \<Rightarrow> (WaitParked, s'))"

datatype wait_outcome = WaitError | WaitReturns | WaitRetries | WaitBlocks

text \<open>
  One pass of the loop by the current task: the section and what follows it. After
  \<open>WaitRetries\<close> and, once woken, after \<open>WaitBlocks\<close> the loop runs the next pass.
\<close>

definition sem_wait_pass :: "nat \<Rightarrow> sem_table \<Rightarrow> task_state \<Rightarrow> wait_outcome \<times> sem_table \<times> task_state" where
  "sem_wait_pass i sems ts =
     (case sem_wait_section (int (current_task ts)) (sems ! i) of
        (WaitTaken, s') \<Rightarrow> (WaitReturns, sems[i := s'], ts)
      | (WaitRingFull, s') \<Rightarrow> (WaitRetries, sems[i := s'], task_yield ts)
      | (WaitParked, s') \<Rightarrow> (WaitBlocks, sems[i := s'], task_block ts))"

definition sem_wait :: "int \<Rightarrow> sem_table \<Rightarrow> task_state \<Rightarrow> wait_outcome \<times> sem_table \<times> task_state" where
  "sem_wait sid sems ts =
     (if \<not> sem_valid sid sems then (WaitError, sems, ts) else sem_wait_pass (nat sid) sems ts)"

text \<open>The section of \<open>sem_post\<close> with interrupts off: dequeue one waiter, count up.\<close>

definition sem_post_section :: "semaphore \<Rightarrow> int \<times> semaphore" where
  "sem_post_section s = (let (w, s') = sem_dequeue s in (w, s'\<lparr>sem_value := sem_value s' + 1\<rparr>))"

definition sem_wake :: "int \<Rightarrow> task_state \<Rightarrow> task_state" where
  "sem_wake w ts = (if 0 \<le> w \<and> w < int MAX_TASKS \<and> task_is_used w ts then task_unblock w ts else ts)"

definition sem_post :: "int \<Rightarrow> sem_table \<Rightarrow> task_state \<Rightarrow> int \<times> sem_table \<times> task_state" where
  "sem_post sid sems ts =
     (if \<not> sem_valid sid sems then (-1, sems, ts)
      else let (w, s') = sem_post_section (sems ! nat sid)
           in (0, sems[nat sid := s'], sem_wake w ts))"

section \<open>Interleaved runs\<close>

text \<open>
  Where a task stands with respect to one semaphore: outside, at the top of the loop of
  \<open>sem_wait\<close>, between the section that parked it and \<open>task_block\<close>, inside the halt loop of
  \<open>task_block\<close>, owning a unit, or in \<open>sem_post\<close> between counting up and the wake-up.
\<close>

datatype sem_pc = Outside | AtLoop | Parked | Halted | Owner | Waking int

record sem_sys =
  sys_sem :: semaphore
  sys_tasks :: task_state
  sys_pc :: "nat \<Rightarrow> sem_pc"

definition runs :: "sem_sys \<Rightarrow> nat \<Rightarrow> bool" where
  "runs S i \<longleftrightarrow> i < MAX_TASKS \<and> used (the_task (sys_tasks S) i) \<and>
     status (the_task (sys_tasks S) i) = TASK_RUNNING"

text \<open>Task \<open>i\<close> on the processor.\<close>

definition on_cpu :: "nat \<Rightarrow> task_state \<Rightarrow> task_state" where
  "on_cpu i ts = ts\<lparr>current_task := i\<rparr>"

text \<open>
  Tasks use the semaphore as a lock: \<open>sem_post\<close> is called by a task that owns a unit. Only a
  runnable task takes a step.
\<close>

inductive sem_step :: "sem_sys \<Rightarrow> sem_sys \<Rightarrow> bool" where
  call: "runs S i \<Longrightarrow> sys_pc S i = Outside \<Longrightarrow>
     sem_step S (S\<lparr>sys_pc := (sys_pc S)(i := AtLoop)\<rparr>)"
| acquire: "runs S i \<Longrightarrow> sys_pc S i = AtLoop \<Longrightarrow>
     sem_wait_section (int i) (sys_sem S) = (WaitTaken, s') \<Longrightarrow>
     sem_step S (S\<lparr>sys_sem := s', sys_pc := (sys_pc S)(i := Owner)\<rparr>)"
| full: "runs S i \<Longrightarrow> sys_pc S i = AtLoop \<Longrightarrow>
     sem_wait_section (int i) (sys_sem S) = (WaitRingFull, s') \<Longrightarrow>
     sem_step S (S\<lparr>sys_sem := s', sys_tasks := task_yield (on_cpu i (sys_tasks S))\<rparr>)"
| park: "runs S i \<Longrightarrow> sys_pc S i = AtLoop \<Longrightarrow>
     sem_wait_section (int i) (sys_sem S) = (WaitParked, s') \<Longrightarrow>
     sem_step S (S\<lparr>sys_sem := s', sys_pc := (sys_pc S)(i := Parked)\<rparr>)"
| halt: "runs S i \<Longrightarrow> sys_pc S i = Parked \<Longrightarrow>
     sem_step S (S\<lparr>sys_tasks := task_block (on_cpu i (sys_tasks S)),
                   sys_pc := (sys_pc S)(i := Halted)\<rparr>)"
| resume: "runs S i \<Longrightarrow> sys_pc S i = Halted \<Longrightarrow>
     sem_step S (S\<lparr>sys_pc := (sys_pc S)(i := AtLoop)\<rparr>)"
| post: "runs S i \<Longrightarrow> sys_pc S i = Owner \<Longrightarrow>
     sem_post_section (sys_sem S) = (w, s') \<Longrightarrow>
     sem_step S (S\<lparr>sys_sem := s', sys_pc := (sys_pc S)(i := Waking w)\<rparr>)"
| wake: "runs S i \<Longrightarrow> sys_pc S i = Waking w \<Longrightarrow>
     sem_step S (S\<lparr>sys_tasks := sem_wake w (sys_tasks S), sys_pc := (sys_pc S)(i := Outside)\<rparr>)"

inductive sem_reach :: "sem_sys \<Rightarrow> sem_sys \<Rightarrow> bool" for S0 where
  start: "sem_reach S0 S0"
| step: "sem_reach S0 S \<Longrightarrow> sem_step S T \<Longrightarrow> sem_reach S0 T"

text \<open>A system in which a semaphore has just been allocated with \<open>n\<close> units.\<close>

definition sem_start :: "nat \<Rightarrow> task_state \<Rightarrow> sem_sys" where
  "sem_start n ts = \<lparr>sys_sem = fresh_sem True (int n), sys_tasks = ts, sys_pc = (\<lambda>_. Outside)\<rparr>"

section \<open>The waiter ring keeps the queue contract\<close>

definition sem_ring_inv :: "semaphore \<Rightarrow> bool" where
  "sem_ring_inv s \<longleftrightarrow> length (sem_waiters s) = SEM_WAITER_MAX \<and>
     sem_whead s < SEM_WAITER_MAX \<and> sem_wtail s < SEM_WAITER_MAX \<and>
     (\<forall>t\<in>set (ring_list (sem_waiters s) (sem_whead s) (sem_wtail s)). 0 \<le> t)"

definition sem_queue :: "semaphore \<Rightarrow> int list" where
  "sem_queue s = ring_list (sem_waiters s) (sem_whead s) (sem_wtail s)"

text \<open>A dequeue that finds the ring empty answers \<open>-1\<close>, which is no task identifier.\<close>

definition sem_deq_opt :: "semaphore \<Rightarrow> (int \<times> semaphore) option" where
  "sem_deq_opt s = (if fst (sem_dequeue s) < 0 then None else Some (sem_dequeue s))"

lemma sem_enqueue_queue:
  assumes "sem_ring_inv s" "0 \<le> t" "sem_enqueue t s = Some s'"
  shows "sem_queue s' = sem_queue s @ [t] \<and> sem_ring_inv s'"
  using assms ring_list_push [of "sem_whead s" "sem_waiters s" "sem_wtail s" t]
  by (auto simp: sem_enqueue_def sem_ring_inv_def sem_queue_def Let_def SEM_WAITER_MAX_def
      split: if_splits)

lemma sem_enqueue_full:
  assumes "sem_ring_inv s"
  shows "sem_enqueue t s = None \<longleftrightarrow> length (sem_queue s) = SEM_WAITER_MAX - 1"
proof -
  have b: "sem_whead s < SEM_WAITER_MAX" "sem_wtail s < SEM_WAITER_MAX"
    "length (sem_waiters s) = SEM_WAITER_MAX"
    using assms by (auto simp: sem_ring_inv_def)
  from ring_full_iff [OF b(1,2)] b(3) show ?thesis
    by (simp add: sem_enqueue_def sem_queue_def Let_def)
qed

lemma sem_dequeue_queue:
  assumes "sem_ring_inv s"
  shows "sem_queue s = [] \<Longrightarrow> sem_dequeue s = (-1, s)"
    and "sem_queue s \<noteq> [] \<Longrightarrow> sem_dequeue s = (w, s') \<Longrightarrow>
      sem_queue s = w # sem_queue s' \<and> sem_ring_inv s' \<and> 0 \<le> w"
proof -
  have b: "sem_whead s < length (sem_waiters s)" "sem_wtail s < length (sem_waiters s)"
    "length (sem_waiters s) = SEM_WAITER_MAX"
    using assms by (auto simp: sem_ring_inv_def)
  show "sem_queue s = [] \<Longrightarrow> sem_dequeue s = (-1, s)"
    using ring_list_Nil_iff [OF b(1,2)] by (simp add: sem_dequeue_def sem_queue_def)
  assume "sem_queue s \<noteq> []" and d: "sem_dequeue s = (w, s')"
  then have ne: "sem_whead s \<noteq> sem_wtail s"
    using ring_list_Nil_iff [OF b(1,2)] by (simp add: sem_queue_def)
  with d ring_list_pop [OF b(1,2) ne] ring_list_pop_clear [OF b(1,2) ne, of "-1"] assms b
  show "sem_queue s = w # sem_queue s' \<and> sem_ring_inv s' \<and> 0 \<le> w"
    by (auto simp: sem_dequeue_def sem_queue_def sem_ring_inv_def SEM_WAITER_MAX_def)
qed

interpretation sem_ring: bounded_queue sem_enqueue sem_deq_opt sem_queue sem_ring_inv
  "SEM_WAITER_MAX - 1" "\<lambda>t. 0 \<le> t"
proof (unfold_locales, goal_cases)
  case (1 q x q')
  then show ?case by (rule sem_enqueue_queue)
next
  case (2 q x)
  then show ?case by (rule sem_enqueue_full)
next
  case (3 q x q')
  then show ?case
    using sem_dequeue_queue(1) [OF 3(1)] sem_dequeue_queue(2) [OF 3(1), of x q']
    by (cases "sem_queue q = []") (auto simp: sem_deq_opt_def split: if_splits)
next
  case (4 q)
  then show ?case
    using sem_dequeue_queue(1) [OF 4] sem_dequeue_queue(2) [OF 4, of "fst (sem_dequeue q)" "snd (sem_dequeue q)"]
    by (cases "sem_queue q = []") (auto simp: sem_deq_opt_def)
next
  case (5 q)
  then have "length (sem_queue q) < SEM_WAITER_MAX"
    using ring_len_less [of SEM_WAITER_MAX] by (auto simp: sem_queue_def sem_ring_inv_def SEM_WAITER_MAX_def)
  then show ?case by simp
qed

lemma fresh_sem_ring: "sem_ring_inv (fresh_sem u v)" "sem_queue (fresh_sem u v) = []"
  by (simp_all add: fresh_sem_def sem_ring_inv_def sem_queue_def SEM_WAITER_MAX_def)

section \<open>Counting\<close>

lemma sint_u8_dec: "0 < sint (v :: u8) \<Longrightarrow> sint (v - 1) = sint v - 1"
  using sint_lt [of v] by (simp add: sint_word_ariths signed_take_bit_int_eq_self)

lemma sint_u8_inc: "- 128 \<le> sint v \<Longrightarrow> sint (v :: u8) < 127 \<Longrightarrow> sint (v + 1) = sint v + 1"
  by (simp add: sint_word_ariths signed_take_bit_int_eq_self)

lemma sem_value_enqueue: "sem_enqueue t s = Some s' \<Longrightarrow> sem_value s' = sem_value s"
  by (auto simp: sem_enqueue_def Let_def split: if_splits)

lemma sem_value_dequeue: "sem_dequeue s = (w, s') \<Longrightarrow> sem_value s' = sem_value s"
  by (auto simp: sem_dequeue_def split: if_splits)

definition owners :: "sem_sys \<Rightarrow> nat set" where
  "owners S = {i. i < MAX_TASKS \<and> sys_pc S i = Owner}"

text \<open>The counter and the owners together always make up the units the semaphore started with.\<close>

definition units_inv :: "nat \<Rightarrow> sem_sys \<Rightarrow> bool" where
  "units_inv n S \<longleftrightarrow> 0 \<le> sint (sem_value (sys_sem S)) \<and>
     sint (sem_value (sys_sem S)) + int (card (owners S)) = int n"

lemma finite_owners [simp]: "finite (owners S)"
  by (simp add: owners_def)

lemma owners_sem [simp]: "owners (S\<lparr>sys_sem := s\<rparr>) = owners S"
  "owners (S\<lparr>sys_tasks := t\<rparr>) = owners S"
  by (simp_all add: owners_def)

lemma owners_pc:
  "owners (S\<lparr>sys_pc := (sys_pc S)(i := p)\<rparr>) =
     (if p = Owner \<and> i < MAX_TASKS then insert i (owners S) else owners S - {i})"
  by (auto simp: owners_def)

lemma owners_pc_sem:
  "owners (S\<lparr>sys_sem := s, sys_pc := (sys_pc S)(i := p)\<rparr>) = owners (S\<lparr>sys_pc := (sys_pc S)(i := p)\<rparr>)"
  "owners (S\<lparr>sys_tasks := t, sys_pc := (sys_pc S)(i := p)\<rparr>) = owners (S\<lparr>sys_pc := (sys_pc S)(i := p)\<rparr>)"
  by (simp_all add: owners_def)

lemmas owners_simps = owners_pc owners_pc_sem

lemma sem_step_units:
  assumes "sem_step S T" "units_inv n S" "n \<le> 127"
  shows "units_inv n T"
  using assms
proof (induction rule: sem_step.induct)
  case (call S i)
  then have "i \<notin> owners S" by (simp add: owners_def)
  with call show ?case by (simp add: units_inv_def owners_simps)
next
  case (acquire S i s')
  then have i: "i \<notin> owners S" "i < MAX_TASKS" by (simp_all add: owners_def runs_def)
  from acquire have "0 < sint (sem_value (sys_sem S))" "sem_value s' = sem_value (sys_sem S) - 1"
    by (auto simp: sem_wait_section_def split: if_splits option.splits)
  with acquire i show ?case
    by (simp add: units_inv_def owners_simps sint_u8_dec)
next
  case (full S i s')
  then show ?case
    by (auto simp: units_inv_def sem_wait_section_def split: if_splits option.splits)
next
  case (park S i s')
  then have "i \<notin> owners S" by (simp add: owners_def)
  with park show ?case
    by (auto simp: units_inv_def owners_simps sem_wait_section_def
        dest: sem_value_enqueue split: if_splits option.splits)
next
  case (halt S i)
  then have "i \<notin> owners S" by (simp add: owners_def)
  with halt show ?case by (simp add: units_inv_def owners_simps)
next
  case (resume S i)
  then have "i \<notin> owners S" by (simp add: owners_def)
  with resume show ?case by (simp add: units_inv_def owners_simps)
next
  case (post S i w s')
  then have i: "i \<in> owners S" by (simp add: owners_def runs_def)
  then obtain m where c: "card (owners S) = Suc m" "card (owners S - {i}) = m"
    by (metis card.remove finite_owners)
  from post have v: "sem_value s' = sem_value (sys_sem S) + 1"
    by (auto simp: sem_post_section_def Let_def dest: sem_value_dequeue split: prod.splits)
  from post c have "sint (sem_value (sys_sem S)) < 127" "- 128 \<le> sint (sem_value (sys_sem S))"
    by (auto simp: units_inv_def)
  with post c v show ?case
    by (simp add: units_inv_def owners_simps sint_u8_inc)
next
  case (wake S i w)
  then have "i \<notin> owners S" by (simp add: owners_def)
  with wake show ?case by (simp add: units_inv_def owners_simps)
qed

lemma sem_reach_units:
  "sem_reach S0 S \<Longrightarrow> units_inv n S0 \<Longrightarrow> n \<le> 127 \<Longrightarrow> units_inv n S"
  by (induction rule: sem_reach.induct) (auto intro: sem_step_units)

lemma sint_u8_of_nat:
  assumes "n \<le> 127"
  shows "sint (of_nat n :: u8) = int n"
proof -
  have "sint (word_of_int (int n) :: u8) = int n"
    using assms by (subst sint_sbintrunc') (simp add: signed_take_bit_int_eq_self)
  then show ?thesis by simp
qed

lemma units_inv_start: "n \<le> 127 \<Longrightarrow> units_inv n (sem_start n ts)"
  by (simp add: units_inv_def sem_start_def fresh_sem_def owners_def sint_u8_of_nat)

text \<open>
  C2. Mutual exclusion. A semaphore allocated with \<open>n \<le> 127\<close> units and used as a lock never has
  more than \<open>n\<close> owners, in whatever order the tasks' sections, halts and wake-ups interleave; the
  counter equals the number of free units throughout, so it neither goes negative nor wraps.
\<close>

theorem sem_mutual_exclusion:
  assumes "n \<le> 127" "sem_reach (sem_start n ts) S"
  shows "card (owners S) \<le> n \<and> sint (sem_value (sys_sem S)) = int n - int (card (owners S))"
  using sem_reach_units [OF assms(2) units_inv_start [OF assms(1)] assms(1)]
  by (auto simp: units_inv_def)

definition two_tasks :: task_state where
  "two_tasks = boot_tasks\<lparr>tasks := (tasks boot_tasks)
     [0 := zero_task\<lparr>used := True\<rparr>, 1 := zero_task\<lparr>used := True\<rparr>]\<rparr>"

lemma two_tasks_simps [simp]:
  "the_task two_tasks 0 = zero_task\<lparr>used := True\<rparr>"
  "the_task two_tasks (Suc 0) = zero_task\<lparr>used := True\<rparr>"
  "length (tasks two_tasks) = 32"
  by (simp_all add: two_tasks_def boot_tasks_def MAX_TASKS_def)

text \<open>Task 0 has taken the only unit.\<close>

definition one_owner :: sem_sys where
  "one_owner = \<lparr>sys_sem = fresh_sem True 0, sys_tasks = two_tasks,
     sys_pc = (\<lambda>_. Outside)(0 := Owner)\<rparr>"

lemma one_owner_reachable: "sem_reach (sem_start 1 two_tasks) one_owner"
proof -
  let ?S1 = "(sem_start 1 two_tasks)\<lparr>sys_pc := (sys_pc (sem_start 1 two_tasks))(0 := AtLoop)\<rparr>"
  have "sem_step (sem_start 1 two_tasks) ?S1"
    by (rule sem_step.call) (simp_all add: sem_start_def runs_def MAX_TASKS_def zero_task_def)
  moreover have "sem_step ?S1 (?S1\<lparr>sys_sem := fresh_sem True 0, sys_pc := (sys_pc ?S1)(0 := Owner)\<rparr>)"
    by (rule sem_step.acquire)
      (simp_all add: sem_start_def runs_def MAX_TASKS_def zero_task_def sem_wait_section_def fresh_sem_def)
  moreover have "?S1\<lparr>sys_sem := fresh_sem True 0, sys_pc := (sys_pc ?S1)(0 := Owner)\<rparr> = one_owner"
    by (simp add: one_owner_def sem_start_def)
  ultimately show ?thesis
    by (metis sem_reach.start sem_reach.step)
qed

theorem sem_mutual_exclusion_witness:
  "sem_reach (sem_start 1 two_tasks) one_owner \<and> owners one_owner = {0} \<and> card (owners one_owner) \<le> 1"
  using sem_mutual_exclusion [OF _ one_owner_reachable] one_owner_reachable
  by (auto simp: owners_def one_owner_def MAX_TASKS_def)

section \<open>The window between parking and halting\<close>

text \<open>
  A task that a post has already dequeued but that has not yet halted is told to wake up too
  early: \<open>task_unblock\<close> does nothing for a task that is not blocked. The task then halts with no
  entry in the ring. \<open>abandoned i\<close> describes the result.
\<close>

definition abandoned :: "nat \<Rightarrow> sem_sys \<Rightarrow> bool" where
  "abandoned i S \<longleftrightarrow> sys_pc S i = Halted \<and> length (tasks (sys_tasks S)) = MAX_TASKS \<and>
     status (the_task (sys_tasks S) i) = TASK_BLOCKED \<and> sem_ring_inv (sys_sem S) \<and>
     int i \<notin> set (sem_queue (sys_sem S)) \<and> (\<forall>j. sys_pc S j \<noteq> Waking (int i))"

lemma sem_wait_section_queue:
  assumes "sem_ring_inv s" "0 \<le> t" "sem_wait_section t s = (r, s')"
  shows "sem_ring_inv s' \<and> set (sem_queue s') \<subseteq> insert t (set (sem_queue s))"
  using assms sem_enqueue_queue [of s t]
  by (auto simp: sem_wait_section_def sem_ring_inv_def sem_queue_def split: if_splits option.splits)

lemma sem_post_section_queue:
  assumes "sem_ring_inv s" "sem_post_section s = (w, s')"
  shows "sem_ring_inv s' \<and> set (sem_queue s') \<subseteq> set (sem_queue s) \<and> (w = -1 \<or> w \<in> set (sem_queue s))"
proof -
  from assms(2) obtain s1 where s1: "sem_dequeue s = (w, s1)" "s' = s1\<lparr>sem_value := sem_value s1 + 1\<rparr>"
    by (auto simp: sem_post_section_def Let_def split: prod.splits)
  then have q: "sem_queue s' = sem_queue s1" "sem_ring_inv s' = sem_ring_inv s1"
    by (simp_all add: sem_queue_def sem_ring_inv_def)
  show ?thesis
  proof (cases "sem_queue s = []")
    case True
    with sem_dequeue_queue(1) [OF assms(1)] s1(1) have "w = -1" "s1 = s" by simp_all
    with q assms(1) show ?thesis by simp
  next
    case False
    with sem_dequeue_queue(2) [OF assms(1) False s1(1)] q show ?thesis by auto
  qed
qed

lemma abandoned_step:
  assumes "sem_step S T" "abandoned i S"
  shows "abandoned i T"
  using assms
proof (induction rule: sem_step.induct)
  case (call S j)
  then show ?case by (auto simp: abandoned_def runs_def)
next
  case (acquire S j s')
  then show ?case
    using sem_wait_section_queue [of "sys_sem S" "int j" WaitTaken s']
    by (auto simp: abandoned_def runs_def)
next
  case (full S j s')
  then have "j \<noteq> i" by (auto simp: abandoned_def runs_def)
  with full show ?case
    by (auto simp: abandoned_def task_yield_def on_cpu_def sem_wait_section_def
        split: if_splits option.splits)
next
  case (park S j s')
  then show ?case
    using sem_wait_section_queue [of "sys_sem S" "int j" WaitParked s']
    by (auto simp: abandoned_def runs_def)
next
  case (halt S j)
  then have "j \<noteq> i" by (auto simp: abandoned_def runs_def)
  with halt show ?case by (auto simp: abandoned_def task_block_def on_cpu_def upd_task_def)
next
  case (resume S j)
  then show ?case by (auto simp: abandoned_def runs_def)
next
  case (post S j w s')
  then show ?case
    using sem_post_section_queue [of "sys_sem S" w s']
    by (auto simp: abandoned_def runs_def)
next
  case (wake S j w)
  then have "j \<noteq> i" by (auto simp: abandoned_def runs_def)
  moreover from wake have "w \<noteq> int i" by (auto simp: abandoned_def)
  ultimately show ?case
    using wake by (auto simp: abandoned_def sem_wake_def task_unblock_def upd_task_def)
qed

lemma abandoned_forever: "sem_reach S T \<Longrightarrow> abandoned i S \<Longrightarrow> abandoned i T"
  by (induction rule: sem_reach.induct) (auto intro: abandoned_step)

text \<open>The state after the bad interleaving: one free unit, no owner, task 1 halted.\<close>

definition lost :: sem_sys where
  "lost = \<lparr>sys_sem = \<lparr>sem_value = 1, sem_used = True, sem_waiters = [-1, -1, -1, -1],
              sem_whead = 1, sem_wtail = 1\<rparr>,
     sys_tasks = task_block (on_cpu 1 two_tasks),
     sys_pc = (\<lambda>_. Outside)(1 := Halted)\<rparr>"

lemma lost_reachable: "sem_reach (sem_start 1 two_tasks) lost"
proof -
  note runs = runs_def MAX_TASKS_def zero_task_def
  define r where "r = \<lparr>sem_value = 0, sem_used = True, sem_waiters = [-1, -1, -1, -1],
      sem_whead = 0, sem_wtail = 0\<rparr>"
  have r: "fresh_sem True 0 = r"
    by (simp add: fresh_sem_def r_def SEM_WAITER_MAX_def numeral_eq_Suc)
  define A where "A = one_owner\<lparr>sys_pc := (sys_pc one_owner)(1 := AtLoop)\<rparr>"
  have s1: "sem_step one_owner A"
    unfolding A_def by (rule sem_step.call) (simp_all add: one_owner_def runs)
  define B where "B = A\<lparr>sys_sem := r\<lparr>sem_waiters := [1, -1, -1, -1], sem_wtail := 1\<rparr>,
      sys_pc := (sys_pc A)(1 := Parked)\<rparr>"
  have s2: "sem_step A B"
    unfolding B_def by (rule sem_step.park)
      (simp_all add: A_def one_owner_def runs r sem_wait_section_def sem_enqueue_def Let_def
        r_def SEM_WAITER_MAX_def)
  define C where "C = B\<lparr>sys_sem := r\<lparr>sem_value := 1, sem_whead := 1, sem_wtail := 1\<rparr>,
      sys_pc := (sys_pc B)(0 := Waking 1)\<rparr>"
  have s3: "sem_step B C"
    unfolding C_def by (rule sem_step.post)
      (simp_all add: B_def A_def one_owner_def runs sem_post_section_def sem_dequeue_def Let_def
        r_def SEM_WAITER_MAX_def)
  define D where "D = C\<lparr>sys_tasks := sem_wake 1 (sys_tasks C), sys_pc := (sys_pc C)(0 := Outside)\<rparr>"
  have s4: "sem_step C D"
    unfolding D_def by (rule sem_step.wake) (simp_all add: C_def B_def A_def one_owner_def runs)
  have D: "sys_tasks D = two_tasks" "sys_pc D = (\<lambda>_. Outside)(1 := Parked)"
    "sys_sem D = r\<lparr>sem_value := 1, sem_whead := 1, sem_wtail := 1\<rparr>"
    by (auto simp: D_def C_def B_def A_def one_owner_def sem_wake_def task_unblock_def zero_task_def)
  have "sem_step D (D\<lparr>sys_tasks := task_block (on_cpu 1 (sys_tasks D)), sys_pc := (sys_pc D)(1 := Halted)\<rparr>)"
    by (rule sem_step.halt) (simp_all add: D runs)
  moreover have "D\<lparr>sys_tasks := task_block (on_cpu 1 (sys_tasks D)), sys_pc := (sys_pc D)(1 := Halted)\<rparr> = lost"
    by (rule sem_sys.equality) (simp_all add: D lost_def r_def)
  ultimately show ?thesis
    using s1 s2 s3 s4 one_owner_reachable by (metis sem_reach.step)
qed

lemma lost_abandoned: "abandoned 1 lost"
  by (simp add: abandoned_def lost_def task_block_def on_cpu_def upd_task_def sem_ring_inv_def
      sem_queue_def SEM_WAITER_MAX_def MAX_TASKS_def two_tasks_def boot_tasks_def)

text \<open>
  C15. Lost wake-up. Interrupts are on between the section that parks a task and the \<open>task_block\<close>
  that halts it. A post in that window dequeues the task and wakes nobody: a state is reachable
  in which the semaphore has a free unit, nobody owns it, and a task waits in \<open>sem_wait\<close>; from
  there no further use of the semaphore ever makes that task runnable again.
\<close>

theorem sem_lost_wakeup:
  "\<exists>S. sem_reach (sem_start 1 two_tasks) S \<and> sint (sem_value (sys_sem S)) = 1 \<and> owners S = {} \<and>
     (\<forall>T. sem_reach S T \<longrightarrow> sys_pc T 1 = Halted \<and> \<not> runs T 1)"
proof (intro exI [of _ lost] conjI allI impI)
  show "sem_reach (sem_start 1 two_tasks) lost" by (rule lost_reachable)
  show "sint (sem_value (sys_sem lost)) = 1" by (simp add: lost_def)
  show "owners lost = {}" by (auto simp: owners_def lost_def)
  fix T assume "sem_reach lost T"
  from abandoned_forever [OF this lost_abandoned]
  show "sys_pc T 1 = Halted" "\<not> runs T 1" by (auto simp: abandoned_def runs_def)
qed

theorem sem_lost_wakeup_witness:
  "\<exists>S. sem_reach (sem_start 1 two_tasks) S \<and> sint (sem_value (sys_sem S)) = 1 \<and>
     sys_pc S 1 = Halted \<and> \<not> runs S 1"
  using sem_lost_wakeup sem_reach.start by blast

end
