(* ===== verification/Condvar.thy ===== *)
theory Condvar
  imports Semaphore
begin

text \<open>
  Condition variables, \<open>src/kernel/condvar.c\<close>: a ring of waiting tasks, used together with a
  semaphore that plays the mutex. \<open>cv_wait\<close> is cut where the task halts: \<open>cv_wait\<close> is the part
  up to \<open>task_block\<close>, and the caller then goes on with \<open>sem_wait\<close> to take the mutex back.
\<close>

section \<open>State and operations\<close>

definition CV_MAX :: nat where "CV_MAX = 8"
definition CV_WAITER_MAX :: nat where "CV_WAITER_MAX = 4"

record condvar =
  cv_used :: bool
  cv_waiters :: "int list"
  cv_whead :: nat
  cv_wtail :: nat

type_synonym cv_table = "condvar list"

definition cv_enqueue :: "int \<Rightarrow> condvar \<Rightarrow> condvar option" where
  "cv_enqueue tid cv =
     (let nxt = (cv_wtail cv + 1) mod CV_WAITER_MAX
      in if nxt = cv_whead cv then None
         else Some (cv\<lparr>cv_waiters := (cv_waiters cv)[cv_wtail cv := tid], cv_wtail := nxt\<rparr>))"

definition cv_dequeue :: "condvar \<Rightarrow> int \<times> condvar" where
  "cv_dequeue cv =
     (if cv_whead cv = cv_wtail cv then (-1, cv)
      else (cv_waiters cv ! cv_whead cv, cv\<lparr>cv_whead := (cv_whead cv + 1) mod CV_WAITER_MAX\<rparr>))"

definition cv_init_all :: "cv_table \<Rightarrow> cv_table" where
  "cv_init_all cvars = map (\<lambda>_. \<lparr>cv_used = False, cv_waiters = replicate CV_WAITER_MAX (-1),
     cv_whead = 0, cv_wtail = 0\<rparr>) cvars"

definition cv_alloc :: "cv_table \<Rightarrow> int \<times> cv_table" where
  "cv_alloc cvars =
     (case find_slot (\<lambda>cv. \<not> cv_used cv) cvars of
        None \<Rightarrow> (-1, cvars)
      | Some i \<Rightarrow> (int i, cvars[i := (cvars ! i)\<lparr>cv_used := True, cv_whead := 0, cv_wtail := 0\<rparr>]))"

definition cv_free :: "int \<Rightarrow> cv_table \<Rightarrow> cv_table" where
  "cv_free cid cvars =
     (if 0 \<le> cid \<and> cid < int CV_MAX
      then cvars[nat cid := (cvars ! nat cid)\<lparr>cv_used := False\<rparr>] else cvars)"

definition cv_valid :: "int \<Rightarrow> cv_table \<Rightarrow> bool" where
  "cv_valid cid cvars \<longleftrightarrow> 0 \<le> cid \<and> cid < int CV_MAX \<and> cv_used (cvars ! nat cid)"

datatype cv_outcome = CvError | CvRetry | CvBlocks

text \<open>
  Up to the halt: with a full ring the mutex is released and the task yields (\<open>CvRetry\<close>),
  otherwise it is queued, the mutex released, and the task blocked (\<open>CvBlocks\<close>). In both cases
  the call goes on with \<open>sem_wait\<close> on the same mutex and returns 0.
\<close>

definition cv_wait :: "int \<Rightarrow> int \<Rightarrow> cv_table \<Rightarrow> sem_table \<Rightarrow> task_state \<Rightarrow>
    cv_outcome \<times> cv_table \<times> sem_table \<times> task_state" where
  "cv_wait cid sem_id cvars sems ts =
     (if \<not> cv_valid cid cvars then (CvError, cvars, sems, ts)
      else case cv_enqueue (int (current_task ts)) (cvars ! nat cid) of
        None \<Rightarrow> (let (_, sems', ts') = sem_post sem_id sems ts
                 in (CvRetry, cvars, sems', task_yield ts'))
      | Some cv' \<Rightarrow> (let (_, sems', ts') = sem_post sem_id sems ts
                     in (CvBlocks, cvars[nat cid := cv'], sems', task_block ts')))"

definition cv_signal :: "int \<Rightarrow> cv_table \<Rightarrow> task_state \<Rightarrow> int \<times> cv_table \<times> task_state" where
  "cv_signal cid cvars ts =
     (if \<not> cv_valid cid cvars then (-1, cvars, ts)
      else let (w, cv') = cv_dequeue (cvars ! nat cid)
           in (0, cvars[nat cid := cv'], if w \<ge> 0 then task_unblock w ts else ts))"

text \<open>The loop of \<open>cv_broadcast\<close>; \<open>None\<close> would be a loop that never ends.\<close>

partial_function (option) cv_drain :: "condvar \<Rightarrow> task_state \<Rightarrow> (condvar \<times> task_state) option" where
  "cv_drain cv ts =
     (if fst (cv_dequeue cv) \<ge> 0
      then cv_drain (snd (cv_dequeue cv)) (task_unblock (fst (cv_dequeue cv)) ts)
      else Some (snd (cv_dequeue cv), ts))"

definition cv_broadcast :: "int \<Rightarrow> cv_table \<Rightarrow> task_state \<Rightarrow> (int \<times> cv_table \<times> task_state) option" where
  "cv_broadcast cid cvars ts =
     (if \<not> cv_valid cid cvars then Some (-1, cvars, ts)
      else map_option (\<lambda>(cv', ts'). (0, cvars[nat cid := cv'], ts')) (cv_drain (cvars ! nat cid) ts))"

section \<open>The waiter ring\<close>

definition cv_queue :: "condvar \<Rightarrow> int list" where
  "cv_queue cv = ring_list (cv_waiters cv) (cv_whead cv) (cv_wtail cv)"

definition cv_ring_inv :: "condvar \<Rightarrow> bool" where
  "cv_ring_inv cv \<longleftrightarrow> length (cv_waiters cv) = CV_WAITER_MAX \<and> cv_whead cv < CV_WAITER_MAX \<and>
     cv_wtail cv < CV_WAITER_MAX \<and> (\<forall>t\<in>set (cv_queue cv). 0 \<le> t)"

definition cv_deq_opt :: "condvar \<Rightarrow> (int \<times> condvar) option" where
  "cv_deq_opt cv = (if fst (cv_dequeue cv) < 0 then None else Some (cv_dequeue cv))"

lemma cv_enqueue_queue:
  assumes "cv_ring_inv cv" "0 \<le> t" "cv_enqueue t cv = Some cv'"
  shows "cv_queue cv' = cv_queue cv @ [t] \<and> cv_ring_inv cv'"
  using assms ring_list_push [of "cv_whead cv" "cv_waiters cv" "cv_wtail cv" t]
  by (auto simp: cv_enqueue_def cv_ring_inv_def cv_queue_def Let_def CV_WAITER_MAX_def
      split: if_splits)

lemma cv_enqueue_full:
  assumes "cv_ring_inv cv"
  shows "cv_enqueue t cv = None \<longleftrightarrow> length (cv_queue cv) = CV_WAITER_MAX - 1"
proof -
  have b: "cv_whead cv < CV_WAITER_MAX" "cv_wtail cv < CV_WAITER_MAX"
    "length (cv_waiters cv) = CV_WAITER_MAX"
    using assms by (auto simp: cv_ring_inv_def)
  from ring_full_iff [OF b(1,2)] b(3) show ?thesis
    by (simp add: cv_enqueue_def cv_queue_def Let_def)
qed

lemma cv_dequeue_queue:
  assumes "cv_ring_inv cv"
  shows "cv_queue cv = [] \<Longrightarrow> cv_dequeue cv = (-1, cv)"
    and "cv_queue cv = w # ws \<Longrightarrow> \<exists>cv'. cv_dequeue cv = (w, cv') \<and> cv_queue cv' = ws \<and>
      cv_ring_inv cv' \<and> 0 \<le> w \<and> cv_used cv' = cv_used cv"
proof -
  have b: "cv_whead cv < length (cv_waiters cv)" "cv_wtail cv < length (cv_waiters cv)"
    "length (cv_waiters cv) = CV_WAITER_MAX"
    using assms by (auto simp: cv_ring_inv_def)
  show "cv_queue cv = [] \<Longrightarrow> cv_dequeue cv = (-1, cv)"
    using ring_list_Nil_iff [OF b(1,2)] by (simp add: cv_dequeue_def cv_queue_def)
  assume q: "cv_queue cv = w # ws"
  then have ne: "cv_whead cv \<noteq> cv_wtail cv"
    using ring_list_Nil_iff [OF b(1,2)] by (auto simp: cv_queue_def)
  with q ring_list_pop [OF b(1,2) ne] assms b
  show "\<exists>cv'. cv_dequeue cv = (w, cv') \<and> cv_queue cv' = ws \<and> cv_ring_inv cv' \<and> 0 \<le> w \<and>
      cv_used cv' = cv_used cv"
    by (auto simp: cv_dequeue_def cv_queue_def cv_ring_inv_def CV_WAITER_MAX_def)
qed

interpretation cv_ring: bounded_queue cv_enqueue cv_deq_opt cv_queue cv_ring_inv
  "CV_WAITER_MAX - 1" "\<lambda>t. 0 \<le> t"
proof (unfold_locales, goal_cases)
  case (1 q x q')
  then show ?case by (rule cv_enqueue_queue)
next
  case (2 q x)
  then show ?case by (rule cv_enqueue_full)
next
  case (3 q x q')
  then show ?case
    using cv_dequeue_queue [OF 3(1)]
    by (cases "cv_queue q") (fastforce simp: cv_deq_opt_def split: if_splits)+
next
  case (4 q)
  then show ?case
    using cv_dequeue_queue [OF 4] by (cases "cv_queue q") (fastforce simp: cv_deq_opt_def)+
next
  case (5 q)
  then have "length (cv_queue q) < CV_WAITER_MAX"
    using ring_len_less [of CV_WAITER_MAX] by (auto simp: cv_queue_def cv_ring_inv_def CV_WAITER_MAX_def)
  then show ?case by simp
qed

section \<open>Broadcast\<close>

lemma cv_drain_queue:
  assumes "cv_ring_inv cv"
  shows "\<exists>cv'. cv_drain cv ts = Some (cv', fold task_unblock (cv_queue cv) ts) \<and>
    cv_queue cv' = [] \<and> cv_ring_inv cv' \<and> cv_used cv' = cv_used cv"
  using assms
proof (induction "cv_queue cv" arbitrary: cv ts)
  case Nil
  with cv_dequeue_queue(1) [OF Nil.prems] show ?case
    by (subst cv_drain.simps) simp
next
  case (Cons w ws)
  from cv_dequeue_queue(2) [OF Cons.prems Cons.hyps(2) [symmetric]] obtain cv1
    where d: "cv_dequeue cv = (w, cv1)" "cv_queue cv1 = ws" "cv_ring_inv cv1" "0 \<le> w"
      "cv_used cv1 = cv_used cv" by auto
  from Cons.hyps(1) [OF d(2) [symmetric] d(3), of "task_unblock w ts"] d Cons.hyps(2) [symmetric]
  show ?case by (subst cv_drain.simps) auto
qed

lemma fold_task_unblock_status:
  assumes "length (tasks ts) = MAX_TASKS" "j < MAX_TASKS"
  shows "status (the_task (fold task_unblock ws ts) j) =
    (if int j \<in> set ws \<and> used (the_task ts j) \<and> status (the_task ts j) = TASK_BLOCKED
     then TASK_RUNNING else status (the_task ts j))"
  using assms
proof (induction ws arbitrary: ts)
  case Nil
  then show ?case by simp
next
  case (Cons w ws)
  then show ?case
    by (auto simp: status_task_unblock)
qed

text \<open>
  Broadcast. \<open>cv_broadcast\<close> on an allocated condition variable returns 0 and empties its
  queue; a task changes status exactly when it was queued, is in use and blocked, and then it
  becomes runnable.
\<close>

theorem cv_broadcast_wakes_all:
  assumes "cv_valid cid cvars" "length cvars = CV_MAX" "cv_ring_inv (cvars ! nat cid)"
    "length (tasks ts) = MAX_TASKS"
  shows "\<exists>cvars' ts'. cv_broadcast cid cvars ts = Some (0, cvars', ts') \<and>
    cv_queue (cvars' ! nat cid) = [] \<and>
    (\<forall>j<MAX_TASKS. status (the_task ts' j) =
       (if int j \<in> set (cv_queue (cvars ! nat cid)) \<and> used (the_task ts j) \<and>
           status (the_task ts j) = TASK_BLOCKED
        then TASK_RUNNING else status (the_task ts j)))"
proof -
  from cv_drain_queue [OF assms(3), of ts] obtain cv' where
    "cv_drain (cvars ! nat cid) ts = Some (cv', fold task_unblock (cv_queue (cvars ! nat cid)) ts)"
    "cv_queue cv' = []" by auto
  moreover have "nat cid < length cvars"
    using assms(1,2) by (auto simp: cv_valid_def)
  ultimately show ?thesis
    using assms fold_task_unblock_status [OF assms(4)] by (simp add: cv_broadcast_def)
qed

theorem cv_broadcast_wakes_all_witness:
  "let cv = \<lparr>cv_used = True, cv_waiters = [1, -1, -1, -1], cv_whead = 0, cv_wtail = 1\<rparr>;
       ts = upd_task 1 (\<lambda>t. t\<lparr>status := TASK_BLOCKED\<rparr>) two_tasks
   in \<exists>cvars' ts'. cv_broadcast 0 (replicate 8 cv) ts = Some (0, cvars', ts') \<and>
        status (the_task ts 1) = TASK_BLOCKED \<and> status (the_task ts' 1) = TASK_RUNNING"
proof -
  let ?cv = "\<lparr>cv_used = True, cv_waiters = [1, -1, -1, -1], cv_whead = 0, cv_wtail = 1\<rparr>"
  let ?ts = "upd_task 1 (\<lambda>t. t\<lparr>status := TASK_BLOCKED\<rparr>) two_tasks"
  have q: "cv_queue ?cv = [1]" by (simp add: cv_queue_def ring_list_def ring_len_def)
  have "cv_ring_inv ?cv"
    unfolding cv_ring_inv_def q by (simp add: CV_WAITER_MAX_def)
  then show ?thesis
    using cv_broadcast_wakes_all [of 0 "replicate 8 ?cv" ?ts]
    by (auto simp: cv_valid_def CV_MAX_def MAX_TASKS_def q [simplified])
qed

end
