(* ===== verification/Pipe.thy ===== *)
theory Pipe
  imports Condvar
begin

text \<open>
  Pipes, \<open>src/kernel/pipe.c\<close>: a ring of 256 bytes that carries NUL-terminated messages, a ring
  of blocked readers, a count of writers and an end-of-file flag; and named pipes, a table of
  names for pipes. The blocking loop of \<open>pipe_read\<close> is cut at the points where the reader gives
  up the processor: \<open>pipe_read_pass\<close> is one pass of the loop.
\<close>

section \<open>State\<close>

definition PIPE_MAX :: nat where "PIPE_MAX = 8"
definition PIPE_BUF :: nat where "PIPE_BUF = 256"
definition PIPE_WAITER_MAX :: nat where "PIPE_WAITER_MAX = 4"
definition NAMED_PIPE_MAX :: nat where "NAMED_PIPE_MAX = 8"

record pipe =
  p_buf :: bytes
  p_head :: nat
  p_tail :: nat
  p_used :: bool
  p_eof :: bool
  write_refs :: u8
  reader_waiters :: "int list"
  rw_head :: nat
  rw_tail :: nat

type_synonym pipe_table = "pipe list"

record named_pipe =
  np_name :: bytes
  np_pipe_id :: int
  np_used :: bool

section \<open>Operations\<close>

definition pipe_reset_waiters :: "pipe \<Rightarrow> pipe" where
  "pipe_reset_waiters p =
     p\<lparr>reader_waiters := replicate PIPE_WAITER_MAX (-1), rw_head := 0, rw_tail := 0\<rparr>"

definition pipe_init_all :: "pipe_table \<Rightarrow> pipe_table" where
  "pipe_init_all pipes = map (\<lambda>p. pipe_reset_waiters
     (p\<lparr>p_used := False, p_head := 0, p_tail := 0, p_eof := False, write_refs := 0\<rparr>)) pipes"

definition pipe_alloc :: "pipe_table \<Rightarrow> int \<times> pipe_table" where
  "pipe_alloc pipes =
     (case find_slot (\<lambda>p. \<not> p_used p) pipes of
        None \<Rightarrow> (-1, pipes)
      | Some i \<Rightarrow> (int i, pipes[i := pipe_reset_waiters ((pipes ! i)\<lparr>p_used := True,
          p_head := 0, p_tail := 0, p_eof := False, write_refs := 0\<rparr>)]))"

definition pipe_enqueue_waiter :: "int \<Rightarrow> pipe \<Rightarrow> pipe option" where
  "pipe_enqueue_waiter tid p =
     (let nxt = (rw_tail p + 1) mod PIPE_WAITER_MAX
      in if nxt = rw_head p then None
         else Some (p\<lparr>reader_waiters := (reader_waiters p)[rw_tail p := tid], rw_tail := nxt\<rparr>))"

definition pipe_dequeue_waiter :: "pipe \<Rightarrow> int \<times> pipe" where
  "pipe_dequeue_waiter p =
     (if rw_head p = rw_tail p then (-1, p)
      else (reader_waiters p ! rw_head p,
            p\<lparr>reader_waiters := (reader_waiters p)[rw_head p := -1],
              rw_head := (rw_head p + 1) mod PIPE_WAITER_MAX\<rparr>))"

definition pipe_valid :: "int \<Rightarrow> pipe_table \<Rightarrow> bool" where
  "pipe_valid pid pipes \<longleftrightarrow> 0 \<le> pid \<and> pid < int PIPE_MAX \<and> p_used (pipes ! nat pid)"

definition pipe_free :: "int \<Rightarrow> pipe_table \<Rightarrow> pipe_table" where
  "pipe_free pid pipes =
     (if 0 \<le> pid \<and> pid < int PIPE_MAX
      then pipes[nat pid := (pipes ! nat pid)\<lparr>p_used := False\<rparr>] else pipes)"

definition pipe_writer_attach :: "int \<Rightarrow> pipe_table \<Rightarrow> pipe_table" where
  "pipe_writer_attach pid pipes =
     (if pipe_valid pid pipes
      then pipes[nat pid := (pipes ! nat pid)\<lparr>write_refs := write_refs (pipes ! nat pid) + 1\<rparr>]
      else pipes)"

text \<open>
  The loop that empties the waiter ring into the local array \<open>waiters\<close>, of which \<open>n\<close> cells are
  left. \<open>None\<close> is a store past the end of that array.
\<close>

fun pipe_drain :: "nat \<Rightarrow> pipe \<Rightarrow> (int list \<times> pipe) option" where
  "pipe_drain n p =
     (let (w, p') = pipe_dequeue_waiter p
      in if w \<ge> 0
         then (case n of
             0 \<Rightarrow> None
           | Suc m \<Rightarrow> map_option (\<lambda>(ws, p''). (w # ws, p'')) (pipe_drain m p'))
         else Some ([], p'))"

definition pipe_writer_detach ::
    "int \<Rightarrow> pipe_table \<Rightarrow> task_state \<Rightarrow> (pipe_table \<times> task_state) option" where
  "pipe_writer_detach pid pipes ts =
     (if \<not> pipe_valid pid pipes then Some (pipes, ts)
      else let p = pipes ! nat pid;
               p1 = (if 0 < sint (write_refs p) then p\<lparr>write_refs := write_refs p - 1\<rparr> else p)
           in if write_refs p1 = 0
              then map_option (\<lambda>(ws, p2). (pipes[nat pid := p2], fold task_unblock ws ts))
                     (pipe_drain PIPE_WAITER_MAX (p1\<lparr>p_eof := True\<rparr>))
              else Some (pipes[nat pid := p1], ts))"

text \<open>One store into the byte ring; \<open>None\<close> when the ring is full.\<close>

definition pipe_put :: "u8 \<Rightarrow> pipe \<Rightarrow> pipe option" where
  "pipe_put c p =
     (let nxt = (p_tail p + 1) mod PIPE_BUF
      in if nxt = p_head p then None
         else Some (p\<lparr>p_buf := (p_buf p)[p_tail p := c], p_tail := nxt\<rparr>))"

fun pipe_put_str :: "bytes \<Rightarrow> pipe \<Rightarrow> nat \<times> pipe" where
  "pipe_put_str [] p = (0, p)"
| "pipe_put_str (c # cs) p =
     (if c = 0 then (0, p)
      else case pipe_put c p of
        None \<Rightarrow> (0, p)
      | Some p' \<Rightarrow> (let (n, p'') = pipe_put_str cs p' in (Suc n, p'')))"

definition pipe_write ::
    "int \<Rightarrow> bytes option \<Rightarrow> pipe_table \<Rightarrow> task_state \<Rightarrow> int \<times> pipe_table \<times> task_state" where
  "pipe_write pid str pipes ts =
     (if \<not> pipe_valid pid pipes then (-1, pipes, ts)
      else case str of
        None \<Rightarrow> (-1, pipes, ts)
      | Some s \<Rightarrow>
          (let (n, p1) = pipe_put_str s (pipes ! nat pid);
               p2 = (case pipe_put 0 p1 of None \<Rightarrow> p1 | Some p' \<Rightarrow> p');
               (w, p3) = pipe_dequeue_waiter p2
           in (int n, pipes[nat pid := p3], if w \<ge> 0 then task_unblock w ts else ts)))"

definition pipe_take :: "pipe \<Rightarrow> (u8 \<times> pipe) option" where
  "pipe_take p =
     (if p_head p = p_tail p then None
      else Some (p_buf p ! p_head p, p\<lparr>p_head := (p_head p + 1) mod PIPE_BUF\<rparr>))"

text \<open>The copy loop of \<open>pipe_read\<close>; the first argument is what is left of the \<open>PIPE_BUF - 1\<close>
  bytes it may copy.\<close>

fun pipe_get :: "nat \<Rightarrow> pipe \<Rightarrow> bytes \<times> pipe" where
  "pipe_get 0 p = ([], p)"
| "pipe_get (Suc n) p =
     (case pipe_take p of
        None \<Rightarrow> ([], p)
      | Some (c, p') \<Rightarrow>
          (if c = 0 then ([], p') else let (cs, p'') = pipe_get n p' in (c # cs, p'')))"

text \<open>
  How one pass of \<open>pipe_read\<close> ends. \<open>ReadData cs\<close> returns the length of \<open>cs\<close> after storing \<open>cs\<close>
  and a NUL in the caller's buffer; \<open>ReadEof\<close> returns 0; after \<open>ReadRetries\<close> (the waiter ring
  was full) and, once woken, after \<open>ReadBlocks\<close> the pending signals are checked and the loop
  runs the next pass.
\<close>

datatype read_outcome = ReadError | ReadEof | ReadRetries | ReadBlocks | ReadData bytes

definition pipe_read_pass ::
    "int \<Rightarrow> bool \<Rightarrow> pipe_table \<Rightarrow> task_state \<Rightarrow> read_outcome \<times> pipe_table \<times> task_state" where
  "pipe_read_pass pid buf_null pipes ts =
     (if \<not> pipe_valid pid pipes \<or> buf_null then (ReadError, pipes, ts)
      else let p = pipes ! nat pid
           in if p_head p \<noteq> p_tail p
              then (let (cs, p') = pipe_get (PIPE_BUF - 1) p
                    in (ReadData cs, pipes[nat pid := p'], ts))
              else if p_eof p then (ReadEof, pipes, ts)
              else case pipe_enqueue_waiter (int (current_task ts)) p of
                None \<Rightarrow> (ReadRetries, pipes, task_yield ts)
              | Some p' \<Rightarrow> (ReadBlocks, pipes[nat pid := p'], task_block ts))"

definition pipe_has_data :: "int \<Rightarrow> pipe_table \<Rightarrow> bool" where
  "pipe_has_data pid pipes \<longleftrightarrow>
     pipe_valid pid pipes \<and> p_head (pipes ! nat pid) \<noteq> p_tail (pipes ! nat pid)"

text \<open>Named pipes. A \<open>NULL\<close> name is \<open>None\<close>.\<close>

definition named_pipe_open ::
    "bytes option \<Rightarrow> named_pipe list \<Rightarrow> pipe_table \<Rightarrow> int \<times> named_pipe list \<times> pipe_table" where
  "named_pipe_open nm nps pipes =
     (case nm of
        None \<Rightarrow> (-1, nps, pipes)
      | Some n \<Rightarrow>
          (case find_slot (\<lambda>e. np_used e \<and> c_streq (np_name e) n) nps of
             Some i \<Rightarrow> (np_pipe_id (nps ! i), nps, pipes)
           | None \<Rightarrow>
               (case find_slot (\<lambda>e. \<not> np_used e) nps of
                  None \<Rightarrow> (-1, nps, pipes)
                | Some i \<Rightarrow>
                    (let (pid, pipes') = pipe_alloc pipes
                     in if pid < 0 then (-1, nps, pipes')
                        else (pid, nps[i := (nps ! i)\<lparr>np_used := True, np_pipe_id := pid,
                                np_name := str_copy_n (np_name (nps ! i)) n 16\<rparr>], pipes')))))"

definition named_pipe_close ::
    "bytes option \<Rightarrow> named_pipe list \<Rightarrow> pipe_table \<Rightarrow> named_pipe list \<times> pipe_table" where
  "named_pipe_close nm nps pipes =
     (case nm of
        None \<Rightarrow> (nps, pipes)
      | Some n \<Rightarrow>
          (case find_slot (\<lambda>e. np_used e \<and> c_streq (np_name e) n) nps of
             None \<Rightarrow> (nps, pipes)
           | Some i \<Rightarrow>
               (nps[i := (nps ! i)\<lparr>np_used := False, np_name := (np_name (nps ! i))[0 := 0]\<rparr>],
                pipe_free (np_pipe_id (nps ! i)) pipes)))"

section \<open>The byte ring\<close>

declare pipe_drain.simps [simp del]

definition pipe_bytes :: "pipe \<Rightarrow> bytes" where
  "pipe_bytes p = ring_list (p_buf p) (p_head p) (p_tail p)"

definition pipe_waiting :: "pipe \<Rightarrow> int list" where
  "pipe_waiting p = ring_list (reader_waiters p) (rw_head p) (rw_tail p)"

definition pipe_inv :: "pipe \<Rightarrow> bool" where
  "pipe_inv p \<longleftrightarrow> length (p_buf p) = PIPE_BUF \<and> p_head p < PIPE_BUF \<and> p_tail p < PIPE_BUF \<and>
     length (reader_waiters p) = PIPE_WAITER_MAX \<and> rw_head p < PIPE_WAITER_MAX \<and>
     rw_tail p < PIPE_WAITER_MAX \<and> (\<forall>t\<in>set (pipe_waiting p). 0 \<le> t)"

lemma pipe_put_bytes:
  assumes "pipe_inv p" "pipe_put c p = Some p'"
  shows "pipe_bytes p' = pipe_bytes p @ [c]" "pipe_inv p'" "pipe_waiting p' = pipe_waiting p"
    "p_used p' = p_used p" "p_eof p' = p_eof p"
  using assms ring_list_push [of "p_head p" "p_buf p" "p_tail p" c]
  by (auto simp: pipe_put_def pipe_inv_def pipe_bytes_def pipe_waiting_def Let_def PIPE_BUF_def
      split: if_splits)

lemma pipe_put_full:
  assumes "pipe_inv p"
  shows "pipe_put c p = None \<longleftrightarrow> length (pipe_bytes p) = PIPE_BUF - 1"
  using assms ring_full_iff [of "p_head p" PIPE_BUF "p_tail p"]
  by (simp add: pipe_put_def pipe_inv_def pipe_bytes_def Let_def)

lemma pipe_take_bytes:
  assumes "pipe_inv p" "pipe_take p = Some (c, p')"
  shows "pipe_bytes p = c # pipe_bytes p'" "pipe_inv p'" "pipe_waiting p' = pipe_waiting p"
    "p_used p' = p_used p" "p_eof p' = p_eof p"
  using assms ring_list_pop [of "p_head p" "p_buf p" "p_tail p"]
  by (auto simp: pipe_take_def pipe_inv_def pipe_bytes_def pipe_waiting_def PIPE_BUF_def
      split: if_splits)

lemma pipe_empty_iff:
  "pipe_inv p \<Longrightarrow> p_head p = p_tail p \<longleftrightarrow> pipe_bytes p = []"
  by (simp add: pipe_inv_def pipe_bytes_def ring_list_Nil_iff)

lemma pipe_bytes_bound: "pipe_inv p \<Longrightarrow> length (pipe_bytes p) \<le> PIPE_BUF - 1"
  using ring_len_less [of PIPE_BUF "p_head p" "p_tail p"]
  by (simp add: pipe_inv_def pipe_bytes_def PIPE_BUF_def)

interpretation byte_ring: bounded_queue pipe_put pipe_take pipe_bytes pipe_inv "PIPE_BUF - 1"
  "\<lambda>_. True"
proof (unfold_locales, goal_cases)
  case (1 q x q')
  then show ?case by (simp add: pipe_put_bytes)
next
  case (2 q x)
  then show ?case by (rule pipe_put_full)
next
  case (3 q x q')
  then show ?case using pipe_take_bytes [OF 3(1)] by simp
next
  case (4 q)
  then show ?case by (simp add: pipe_take_def pipe_empty_iff)
next
  case (5 q)
  then show ?case by (rule pipe_bytes_bound)
qed

lemma pipe_put_str_spec:
  assumes "pipe_inv p" "pipe_put_str s p = (n, p')"
  shows "n = min (length (cstr s)) (PIPE_BUF - 1 - length (pipe_bytes p)) \<and>
    pipe_bytes p' = pipe_bytes p @ take n (cstr s) \<and> pipe_inv p' \<and>
    pipe_waiting p' = pipe_waiting p \<and> p_used p' = p_used p \<and> p_eof p' = p_eof p"
  using assms
proof (induction s p arbitrary: n p' rule: pipe_put_str.induct)
  case (1 p)
  then show ?case by simp
next
  case (2 c cs p)
  show ?case
  proof (cases "c = 0 \<or> pipe_put c p = None")
    case True
    with 2 pipe_put_full [of p c] show ?thesis by (auto simp: cstr_Cons)
  next
    case False
    then obtain p1 where p1: "pipe_put c p = Some p1" by auto
    with False "2.prems" obtain m where m: "pipe_put_str cs p1 = (m, p')" "n = Suc m"
      by (auto split: prod.splits)
    have "length (pipe_bytes p) < PIPE_BUF - 1"
      using pipe_bytes_bound [of p] pipe_put_full [of p c] p1 "2.prems"(1) by fastforce
    with False p1 m "2.IH" [OF _ p1 _ m(1)] pipe_put_bytes [OF "2.prems"(1) p1] show ?thesis
      by (auto simp: cstr_Cons)
  qed
qed

lemma pipe_dequeue_waiter_spec:
  assumes "pipe_inv p" "pipe_dequeue_waiter p = (w, p')"
  shows "pipe_bytes p' = pipe_bytes p" "pipe_inv p'" "p_used p' = p_used p" "p_eof p' = p_eof p"
    "pipe_waiting p = [] \<Longrightarrow> w = -1 \<and> p' = p"
    "pipe_waiting p \<noteq> [] \<Longrightarrow> pipe_waiting p = w # pipe_waiting p' \<and> 0 \<le> w"
proof -
  have b: "rw_head p < length (reader_waiters p)" "rw_tail p < length (reader_waiters p)"
    "length (reader_waiters p) = PIPE_WAITER_MAX"
    using assms by (auto simp: pipe_inv_def)
  note ne = ring_list_Nil_iff [OF b(1,2)]
  show "pipe_bytes p' = pipe_bytes p" "p_used p' = p_used p" "p_eof p' = p_eof p"
    using assms(2) by (auto simp: pipe_dequeue_waiter_def pipe_bytes_def split: if_splits)
  show "pipe_waiting p = [] \<Longrightarrow> w = -1 \<and> p' = p"
    using assms(2) ne by (auto simp: pipe_dequeue_waiter_def pipe_waiting_def)
  show *: "pipe_waiting p = w # pipe_waiting p' \<and> 0 \<le> w" if "pipe_waiting p \<noteq> []"
  proof -
    from that ne have h: "rw_head p \<noteq> rw_tail p" by (simp add: pipe_waiting_def)
    from ring_list_pop [OF b(1,2) h] ring_list_pop_clear [OF b(1,2) h, of "-1"] assms h b(3)
    show ?thesis by (auto simp: pipe_dequeue_waiter_def pipe_waiting_def pipe_inv_def)
  qed
  show "pipe_inv p'"
  proof (cases "pipe_waiting p = []")
    case True
    with assms ne show ?thesis by (auto simp: pipe_dequeue_waiter_def pipe_waiting_def)
  next
    case False
    from *[OF False] assms have "\<forall>t\<in>set (pipe_waiting p'). 0 \<le> t" by (simp add: pipe_inv_def)
    with assms b show ?thesis
      by (auto simp: pipe_inv_def pipe_dequeue_waiter_def PIPE_WAITER_MAX_def split: if_splits)
  qed
qed

section \<open>A pipe as a queue of messages\<close>

text \<open>The bytes of a pipe that holds the messages \<open>ms\<close>, each closed by its NUL.\<close>

definition enc_msgs :: "bytes list \<Rightarrow> bytes" where
  "enc_msgs ms = concat (map (\<lambda>m. m @ [0]) ms)"

lemma enc_msgs_simps [simp]:
  "enc_msgs [] = []" "enc_msgs (m # ms) = m @ 0 # enc_msgs ms"
  "enc_msgs (xs @ ys) = enc_msgs xs @ enc_msgs ys"
  by (simp_all add: enc_msgs_def)

lemma pipe_get_spec:
  assumes "pipe_inv p" "pipe_bytes p = m @ 0 # r" "0 \<notin> set m" "length m < n"
  shows "\<exists>p'. pipe_get n p = (m, p') \<and> pipe_bytes p' = r \<and> pipe_inv p' \<and>
    pipe_waiting p' = pipe_waiting p \<and> p_used p' = p_used p \<and> p_eof p' = p_eof p"
  using assms
proof (induction m arbitrary: n p)
  case Nil
  then obtain k where "n = Suc k" by (cases n) auto
  from Nil byte_ring.deq_None [of p] obtain c p1 where t: "pipe_take p = Some (c, p1)"
    by (cases "pipe_take p") auto
  from pipe_take_bytes [OF Nil(1) t] Nil t \<open>n = Suc k\<close> show ?case by auto
next
  case (Cons a m)
  then obtain k where n: "n = Suc k" by (cases n) auto
  from Cons.prems byte_ring.deq_None [of p] obtain c p1 where t: "pipe_take p = Some (c, p1)"
    by (cases "pipe_take p") auto
  note tb = pipe_take_bytes [OF Cons.prems(1) t]
  from Cons.IH [of p1 k] tb Cons.prems n obtain p2 where
    "pipe_get k p1 = (m, p2)" "pipe_bytes p2 = r" "pipe_inv p2" "pipe_waiting p2 = pipe_waiting p1"
    "p_used p2 = p_used p1" "p_eof p2 = p_eof p1"
    by auto
  with t tb Cons.prems n show ?case by auto
qed

text \<open>The state of one pipe in the table, and that it holds the messages \<open>ms\<close>.\<close>

definition pipes_hold :: "int \<Rightarrow> bytes list \<Rightarrow> pipe_table \<Rightarrow> bool" where
  "pipes_hold pid ms pipes \<longleftrightarrow> length pipes = PIPE_MAX \<and> pipe_valid pid pipes \<and>
     pipe_inv (pipes ! nat pid) \<and> pipe_bytes (pipes ! nat pid) = enc_msgs ms \<and>
     list_all (\<lambda>m. 0 \<notin> set m) ms"

lemma pipe_valid_bound: "pipe_valid pid pipes \<Longrightarrow> length pipes = PIPE_MAX \<Longrightarrow> nat pid < length pipes"
  by (auto simp: pipe_valid_def)

lemma pipe_write_spec:
  assumes "length pipes = PIPE_MAX" "pipe_valid pid pipes" "pipe_inv (pipes ! nat pid)"
    "free = PIPE_BUF - 1 - length (pipe_bytes (pipes ! nat pid))"
    "n = min (length (cstr s)) free"
  shows "\<exists>p' ts'. pipe_write pid (Some s) pipes ts = (int n, pipes[nat pid := p'], ts') \<and>
    pipe_bytes p' = pipe_bytes (pipes ! nat pid) @ take n (cstr s) @ (if n < free then [0] else []) \<and>
    pipe_inv p' \<and> p_used p' \<and> p_eof p' = p_eof (pipes ! nat pid) \<and>
    (case pipe_waiting (pipes ! nat pid) of
       [] \<Rightarrow> pipe_waiting p' = [] \<and> ts' = ts
     | w # ws \<Rightarrow> pipe_waiting p' = ws \<and> ts' = task_unblock w ts)"
proof -
  let ?p = "pipes ! nat pid"
  obtain m p1 where m: "pipe_put_str s ?p = (m, p1)" by fastforce
  note s1 = pipe_put_str_spec [OF assms(3) m]
  with assms(4,5) have mn: "m = n" by simp
  define p2 where "p2 = (case pipe_put 0 p1 of None \<Rightarrow> p1 | Some p' \<Rightarrow> p')"
  have le: "n \<le> length (cstr s)" "n \<le> free" by (simp_all add: assms(5))
  then have "length (pipe_bytes p1) = length (pipe_bytes ?p) + n" using s1 unfolding mn by simp
  moreover have "pipe_put 0 p1 = None \<longleftrightarrow> length (pipe_bytes p1) = PIPE_BUF - 1"
    using s1 by (intro pipe_put_full) simp
  ultimately have full: "pipe_put 0 p1 = None \<longleftrightarrow> free = n"
    using assms(4) pipe_bytes_bound [OF assms(3)] by linarith
  have s2: "pipe_bytes p2 = pipe_bytes p1 @ (if n < free then [0] else []) \<and> pipe_inv p2 \<and>
      pipe_waiting p2 = pipe_waiting p1 \<and> p_used p2 = p_used p1 \<and> p_eof p2 = p_eof p1"
    using s1 full le pipe_put_bytes [of p1 0] unfolding p2_def by (cases "pipe_put 0 p1") auto
  obtain w p3 where d: "pipe_dequeue_waiter p2 = (w, p3)" by fastforce
  have i2: "pipe_inv p2" using s2 by simp
  have r: "pipe_write pid (Some s) pipes ts =
      (int n, pipes[nat pid := p3], if w \<ge> 0 then task_unblock w ts else ts)"
    using assms(2) m d mn by (simp add: pipe_write_def p2_def [symmetric])
  have c: "pipe_bytes p2 = pipe_bytes ?p @ take n (cstr s) @ (if n < free then [0] else [])"
    "pipe_waiting p2 = pipe_waiting ?p" "p_used p2" "p_eof p2 = p_eof ?p"
    using s1 s2 assms(2) unfolding mn by (simp_all add: pipe_valid_def)
  show ?thesis
    unfolding r using c pipe_dequeue_waiter_spec [OF i2 d]
    by (cases "pipe_waiting ?p") auto
qed

lemma pipes_hold_write:
  assumes "pipes_hold pid ms pipes" "0 \<notin> set m" "length (enc_msgs ms) + length m + 1 < PIPE_BUF"
    "pipe_write pid (Some m) pipes ts = (n, pipes', ts')"
  shows "n = int (length m) \<and> pipes_hold pid (ms @ [m]) pipes'"
proof -
  let ?p = "pipes ! nat pid"
  have h: "length pipes = PIPE_MAX" "pipe_valid pid pipes" "pipe_inv ?p" "pipe_bytes ?p = enc_msgs ms"
    "list_all (\<lambda>m. 0 \<notin> set m) ms"
    using assms(1) by (simp_all add: pipes_hold_def)
  have lt: "length m < PIPE_BUF - 1 - length (pipe_bytes ?p)" using assms(3) h(4) by simp
  have "length m = min (length (cstr m)) (PIPE_BUF - 1 - length (pipe_bytes ?p))"
    using lt assms(2) by (simp add: cstr_no_nul)
  from pipe_write_spec [OF h(1-3) refl this, of ts] assms(2,4) lt h(4) obtain p' where
    "n = int (length m)" "pipes' = pipes[nat pid := p']" "pipe_inv p'" "p_used p'"
    "pipe_bytes p' = enc_msgs ms @ m @ [0]"
    by (auto simp: cstr_no_nul)
  then show ?thesis
    using h assms(2) pipe_valid_bound [OF h(2,1)] by (auto simp: pipes_hold_def pipe_valid_def)
qed

lemma pipes_hold_read:
  assumes "pipes_hold pid (m # ms) pipes" "pipe_read_pass pid False pipes ts = (r, pipes', ts')"
  shows "r = ReadData m \<and> pipes_hold pid ms pipes' \<and> ts' = ts"
proof -
  let ?p = "pipes ! nat pid"
  have h: "length pipes = PIPE_MAX" "pipe_valid pid pipes" "pipe_inv ?p"
    "pipe_bytes ?p = m @ 0 # enc_msgs ms" "0 \<notin> set m" "list_all (\<lambda>m. 0 \<notin> set m) ms"
    using assms(1) by (simp_all add: pipes_hold_def)
  have "length m < PIPE_BUF - 1" using pipe_bytes_bound [OF h(3)] h(4) by simp
  from pipe_get_spec [OF h(3-5) this] obtain p' where p':
    "pipe_get (PIPE_BUF - 1) ?p = (m, p')" "pipe_bytes p' = enc_msgs ms" "pipe_inv p'"
    "p_used p' = p_used ?p" by auto
  have "p_head ?p \<noteq> p_tail ?p" using pipe_empty_iff [OF h(3)] h(4) by simp
  then have "pipe_read_pass pid False pipes ts = (ReadData m, pipes[nat pid := p'], ts)"
    using h(2) p'(1) by (simp add: pipe_read_pass_def Let_def)
  with assms(2) p' h pipe_valid_bound [OF h(2,1)] show ?thesis
    by (auto simp: pipes_hold_def pipe_valid_def)
qed

text \<open>
  Sequences of writes and reads, on the pipe table and on an abstract queue of messages that
  holds at most 255 bytes with the separators. The abstract run is undefined where a write does
  not fit or a read finds the queue empty.
\<close>

datatype pipe_op = PWrite bytes | PRead

fun pipe_run :: "int \<Rightarrow> pipe_op list \<Rightarrow> pipe_table \<Rightarrow> task_state \<Rightarrow>
    (int + read_outcome) list \<times> pipe_table \<times> task_state" where
  "pipe_run pid [] pipes ts = ([], pipes, ts)"
| "pipe_run pid (PWrite m # ops) pipes ts =
     (let (n, pipes1, ts1) = pipe_write pid (Some m) pipes ts;
          (rs, pipes2, ts2) = pipe_run pid ops pipes1 ts1
      in (Inl n # rs, pipes2, ts2))"
| "pipe_run pid (PRead # ops) pipes ts =
     (let (r, pipes1, ts1) = pipe_read_pass pid False pipes ts;
          (rs, pipes2, ts2) = pipe_run pid ops pipes1 ts1
      in (Inr r # rs, pipes2, ts2))"

fun queue_run :: "pipe_op list \<Rightarrow> bytes list \<Rightarrow> ((int + read_outcome) list \<times> bytes list) option" where
  "queue_run [] ms = Some ([], ms)"
| "queue_run (PWrite m # ops) ms =
     (if 0 \<notin> set m \<and> length (enc_msgs ms) + length m + 1 < PIPE_BUF
      then map_option (\<lambda>(rs, q). (Inl (int (length m)) # rs, q)) (queue_run ops (ms @ [m]))
      else None)"
| "queue_run (PRead # ops) [] = None"
| "queue_run (PRead # ops) (m # ms) =
     map_option (\<lambda>(rs, q). (Inr (ReadData m) # rs, q)) (queue_run ops ms)"

text \<open>
  C5. A pipe is a first-in first-out queue of messages: every sequence of writes and reads that
  an abstract message queue of 255 bytes can serve gives the same results on the pipe, and
  leaves the pipe holding the messages that are left in the abstract queue.
\<close>

theorem pipe_refines_queue:
  assumes "pipes_hold pid ms pipes" "queue_run ops ms = Some (rs, ms')"
  shows "\<exists>pipes' ts'. pipe_run pid ops pipes ts = (rs, pipes', ts') \<and> pipes_hold pid ms' pipes'"
  using assms
proof (induction ops ms arbitrary: rs pipes ts rule: queue_run.induct [case_names Nil Write Empty Read])
  case (Nil ms)
  then show ?case by simp
next
  case (Write m ops ms)
  obtain n pipes1 ts1 where w: "pipe_write pid (Some m) pipes ts = (n, pipes1, ts1)"
    using prod_cases3 by blast
  from Write.prems(2) have fit: "0 \<notin> set m" "length (enc_msgs ms) + length m + 1 < PIPE_BUF"
    by (auto split: if_splits)
  from pipes_hold_write [OF Write.prems(1) fit w]
  have "n = int (length m)" "pipes_hold pid (ms @ [m]) pipes1" by auto
  with Write.IH [of pipes1 _ ts1] Write.prems(2) fit w show ?case by auto
next
  case (Empty ops)
  then show ?case by simp
next
  case (Read ops m ms)
  obtain r pipes1 ts1 where w: "pipe_read_pass pid False pipes ts = (r, pipes1, ts1)"
    using prod_cases3 by blast
  from pipes_hold_read [OF Read.prems(1) w]
  have "r = ReadData m" "pipes_hold pid ms pipes1" by auto
  with Read.IH [of pipes1 _ ts1] Read.prems(2) w show ?case by auto
qed

definition blank_pipe :: pipe where
  "blank_pipe = \<lparr>p_buf = replicate PIPE_BUF 0, p_head = 0, p_tail = 0, p_used = False,
     p_eof = False, write_refs = 0, reader_waiters = replicate PIPE_WAITER_MAX (-1), rw_head = 0,
     rw_tail = 0\<rparr>"

lemma pipe_alloc_holds:
  assumes "length pipes = PIPE_MAX" "pipe_alloc pipes = (pid, pipes')" "0 \<le> pid"
    "\<forall>p\<in>set pipes. length (p_buf p) = PIPE_BUF"
  shows "pipes_hold pid [] pipes'"
proof -
  from assms(2,3) obtain i where "find_slot (\<lambda>p. \<not> p_used p) pipes = Some i" "pid = int i"
    by (auto simp: pipe_alloc_def split: option.splits)
  with assms find_slot_SomeD(1) [of _ pipes i] show ?thesis
    by (auto simp: pipe_alloc_def pipes_hold_def pipe_valid_def pipe_inv_def pipe_bytes_def
        pipe_waiting_def pipe_reset_waiters_def PIPE_BUF_def PIPE_WAITER_MAX_def)
qed

theorem pipe_refines_queue_witness:
  "\<exists>pipes' ts'. pipe_run 0 [PWrite [104, 105], PWrite [33], PRead, PRead]
     (snd (pipe_alloc (replicate PIPE_MAX blank_pipe))) boot_tasks =
     ([Inl 2, Inl 1, Inr (ReadData [104, 105]), Inr (ReadData [33])], pipes', ts')"
proof -
  let ?t = "snd (pipe_alloc (replicate PIPE_MAX blank_pipe))"
  have "fst (pipe_alloc (replicate PIPE_MAX blank_pipe)) = 0"
    by (simp add: pipe_alloc_def PIPE_MAX_def blank_pipe_def numeral_eq_Suc)
  then have "pipes_hold 0 [] ?t"
    by (intro pipe_alloc_holds [of "replicate PIPE_MAX blank_pipe"])
      (auto simp: blank_pipe_def prod_eq_iff)
  from pipe_refines_queue [OF this, of "[PWrite [104, 105], PWrite [33], PRead, PRead]" _ _ boot_tasks]
  show ?thesis by (auto simp: PIPE_BUF_def)
qed

section \<open>The last writer leaves\<close>

lemma pipe_waiting_bound: "pipe_inv p \<Longrightarrow> length (pipe_waiting p) < PIPE_WAITER_MAX"
  using ring_len_less [of PIPE_WAITER_MAX "rw_head p" "rw_tail p"]
  by (simp add: pipe_inv_def pipe_waiting_def PIPE_WAITER_MAX_def)

lemma pipe_drain_spec:
  assumes "pipe_inv p" "length (pipe_waiting p) \<le> n"
  shows "\<exists>p'. pipe_drain n p = Some (pipe_waiting p, p') \<and> pipe_waiting p' = [] \<and> pipe_inv p' \<and>
    pipe_bytes p' = pipe_bytes p \<and> p_used p' = p_used p \<and> p_eof p' = p_eof p"
  using assms
proof (induction n arbitrary: p)
  case 0
  obtain w p' where d: "pipe_dequeue_waiter p = (w, p')" by fastforce
  from pipe_dequeue_waiter_spec(5) [OF "0.prems"(1) d] 0 d show ?case
    by (subst pipe_drain.simps) auto
next
  case (Suc n)
  obtain w p1 where d: "pipe_dequeue_waiter p = (w, p1)" by fastforce
  note sp = pipe_dequeue_waiter_spec [OF Suc.prems(1) d]
  show ?case
  proof (cases "pipe_waiting p")
    case Nil
    with sp(5) Suc.prems d show ?thesis by (subst pipe_drain.simps) auto
  next
    case (Cons v vs)
    with sp(6) have c: "pipe_waiting p = w # pipe_waiting p1" "0 \<le> w" by auto
    with Suc.IH [of p1] Suc.prems(2) sp(2) obtain p2 where
      "pipe_drain n p1 = Some (pipe_waiting p1, p2)" "pipe_waiting p2 = []" "pipe_inv p2"
      "pipe_bytes p2 = pipe_bytes p1" "p_used p2 = p_used p1" "p_eof p2 = p_eof p1" by auto
    with c d sp(1-4) show ?thesis by (simp add: pipe_drain.simps [of "Suc n"])
  qed
qed

text \<open>
  End of file. When the last writer detaches, the call ends (the local array is never
  overrun), exactly the blocked readers of the pipe become runnable, the messages still in the
  pipe stay readable, and a reader that finds the pipe empty from then on gets end of file
  instead of blocking.
\<close>

theorem pipe_last_detach_eof:
  assumes "pipes_hold pid ms pipes" "write_refs (pipes ! nat pid) = 1"
    "length (tasks ts) = MAX_TASKS"
  shows "\<exists>pipes' ts'. pipe_writer_detach pid pipes ts = Some (pipes', ts') \<and>
    pipes_hold pid ms pipes' \<and> pipe_waiting (pipes' ! nat pid) = [] \<and>
    (\<forall>j<MAX_TASKS. status (the_task ts' j) =
       (if int j \<in> set (pipe_waiting (pipes ! nat pid)) \<and> used (the_task ts j) \<and>
           status (the_task ts j) = TASK_BLOCKED
        then TASK_RUNNING else status (the_task ts j))) \<and>
    (ms = [] \<longrightarrow> (\<forall>ts2. pipe_read_pass pid False pipes' ts2 = (ReadEof, pipes', ts2)))"
proof -
  let ?p = "pipes ! nat pid"
  let ?p1 = "?p\<lparr>write_refs := 0, p_eof := True\<rparr>"
  have h: "length pipes = PIPE_MAX" "pipe_valid pid pipes" "pipe_inv ?p" "pipe_bytes ?p = enc_msgs ms"
    "list_all (\<lambda>m. 0 \<notin> set m) ms"
    using assms(1) by (simp_all add: pipes_hold_def)
  have same: "pipe_inv ?p1" "pipe_bytes ?p1 = pipe_bytes ?p" "pipe_waiting ?p1 = pipe_waiting ?p"
    using h(3) by (simp_all add: pipe_inv_def pipe_bytes_def pipe_waiting_def)
  have "length (pipe_waiting ?p1) \<le> PIPE_WAITER_MAX"
    using pipe_waiting_bound [OF h(3)] same(3) by simp
  from pipe_drain_spec [OF same(1) this] same obtain p2 where p2:
    "pipe_drain PIPE_WAITER_MAX ?p1 = Some (pipe_waiting ?p, p2)" "pipe_waiting p2 = []"
    "pipe_inv p2" "pipe_bytes p2 = pipe_bytes ?p" "p_used p2 = p_used ?p" "p_eof p2"
    by auto
  have d: "pipe_writer_detach pid pipes ts =
      Some (pipes[nat pid := p2], fold task_unblock (pipe_waiting ?p) ts)"
    using assms(2) h(2) p2(1) by (simp add: pipe_writer_detach_def Let_def)
  have v: "pipe_valid pid (pipes[nat pid := p2])" and n: "pipes[nat pid := p2] ! nat pid = p2"
    using h(1,2) p2(5) pipe_valid_bound [OF h(2,1)] by (simp_all add: pipe_valid_def)
  have "pipes_hold pid ms (pipes[nat pid := p2])"
    using h p2 v n by (simp add: pipes_hold_def)
  moreover have "pipe_read_pass pid False (pipes[nat pid := p2]) ts2 =
      (ReadEof, pipes[nat pid := p2], ts2)" if "ms = []" for ts2
    using that v n p2 h(4) pipe_empty_iff [OF p2(3)] by (simp add: pipe_read_pass_def Let_def)
  ultimately show ?thesis
    using d n p2(2) fold_task_unblock_status [OF assms(3)] by simp
qed

theorem pipe_last_detach_eof_witness:
  "\<exists>pipes' ts'. pipe_writer_detach 0
      (pipe_writer_attach 0 (snd (pipe_alloc (replicate PIPE_MAX blank_pipe)))) boot_tasks =
      Some (pipes', ts') \<and>
    pipe_read_pass 0 False pipes' ts' = (ReadEof, pipes', ts')"
proof -
  let ?a = "snd (pipe_alloc (replicate PIPE_MAX blank_pipe))"
  let ?t = "pipe_writer_attach 0 ?a"
  have f: "find_slot (\<lambda>p. \<not> p_used p) (replicate PIPE_MAX blank_pipe) = Some 0"
    by (simp add: PIPE_MAX_def blank_pipe_def numeral_eq_Suc)
  then have "pipes_hold 0 [] ?a"
    by (intro pipe_alloc_holds [of "replicate PIPE_MAX blank_pipe"])
      (auto simp: blank_pipe_def pipe_alloc_def)
  moreover from f have "write_refs (?a ! 0) = 0"
    by (simp add: pipe_alloc_def pipe_reset_waiters_def PIPE_MAX_def)
  ultimately have "pipes_hold 0 [] ?t" "write_refs (?t ! 0) = 1"
    by (auto simp: pipes_hold_def pipe_writer_attach_def pipe_valid_def pipe_inv_def
        pipe_bytes_def pipe_waiting_def PIPE_MAX_def)
  moreover have "length (tasks boot_tasks) = MAX_TASKS"
    using tasks_wf_boot by (simp add: tasks_wf_def)
  ultimately show ?thesis
    using pipe_last_detach_eof [of 0 "[]" ?t boot_tasks] by fastforce
qed

section \<open>Named pipes\<close>

text \<open>
  Opening a name twice gives the same pipe: after a successful \<open>named_pipe_open\<close> with a name
  that fits the table (15 characters), a second open of that name returns the same pipe and
  changes nothing.
\<close>

theorem named_pipe_open_idem:
  assumes "named_pipe_open (Some n) nps pipes = (pid, nps', pipes')" "0 \<le> pid"
    "length (cstr n) \<le> 15" "\<forall>e\<in>set nps. length (np_name e) = 16"
  shows "named_pipe_open (Some n) nps' pipes' = (pid, nps', pipes')"
proof (cases "find_slot (\<lambda>e. np_used e \<and> c_streq (np_name e) n) nps")
  case (Some i)
  with assms(1) show ?thesis by (auto simp: named_pipe_open_def)
next
  case None
  let ?P = "\<lambda>e. np_used e \<and> c_streq (np_name e) n"
  from None assms(1,2) obtain i where i: "find_slot (\<lambda>e. \<not> np_used e) nps = Some i"
    and nps': "nps' = nps[i := (nps ! i)\<lparr>np_used := True, np_pipe_id := pid,
      np_name := str_copy_n (np_name (nps ! i)) n 16\<rparr>]"
    by (auto simp: named_pipe_open_def split: option.splits prod.splits if_splits)
  have il: "i < length nps" using find_slot_SomeD(1) [OF i] .
  then have "length (np_name (nps ! i)) = 16" using assms(4) by simp
  then obtain d where d: "c_strcpy (np_name (nps ! i)) n 16 = Some d"
    using c_strcpy_total [of 16 "np_name (nps ! i)" n] by auto
  from c_strcpy_cstr [OF d] assms(3) have "cstr d = cstr n" by simp
  then have "?P (nps' ! i)" using nps' il d by (simp add: str_copy_n_def c_streq_iff)
  moreover have "\<not> ?P (nps' ! j)" if "j < i" for j
    using that None il nps' by (simp add: find_slot_None_iff)
  ultimately have "find_slot ?P nps' = Some i" "np_pipe_id (nps' ! i) = pid"
    using il nps' by (auto simp: find_slot_Some_iff)
  then show ?thesis by (simp add: named_pipe_open_def)
qed

theorem named_pipe_open_idem_witness:
  "let nps = replicate NAMED_PIPE_MAX \<lparr>np_name = replicate 16 0, np_pipe_id = 0, np_used = False\<rparr>;
       (pid, nps', pipes') = named_pipe_open (Some [108, 111, 103]) nps (replicate PIPE_MAX blank_pipe)
   in 0 \<le> pid \<and> named_pipe_open (Some [108, 111, 103]) nps' pipes' = (pid, nps', pipes')"
proof -
  let ?nps = "replicate NAMED_PIPE_MAX \<lparr>np_name = replicate 16 0, np_pipe_id = 0, np_used = False\<rparr>"
  let ?r = "named_pipe_open (Some [108, 111, 103]) ?nps (replicate PIPE_MAX blank_pipe)"
  have "0 \<le> fst ?r"
    by (simp add: named_pipe_open_def NAMED_PIPE_MAX_def PIPE_MAX_def blank_pipe_def pipe_alloc_def
        numeral_eq_Suc)
  then show ?thesis
    using named_pipe_open_idem [of "[108, 111, 103]" ?nps "replicate PIPE_MAX blank_pipe"
        "fst ?r" "fst (snd ?r)" "snd (snd ?r)"]
    by (simp add: cstr_Cons case_prod_beta Let_def)
qed

end
