(* ===== verification/Messages.thy ===== *)
theory Messages
  imports Pipe "HOL-Library.Multiset"
begin

text \<open>
  The two message services without blocking: the global queue of \<open>src/kernel/ipc.c\<close>, eight
  cells of 64 characters, and the per-task mailboxes of \<open>src/kernel/mq.c\<close>, eight slots of 56
  bytes per task. The queue is a ring and refines a list; a mailbox refines a multiset, since
  a receiver always takes the lowest slot in use and a sender refills the lowest free one.
\<close>

section \<open>The global queue\<close>

definition IPC_QUEUE_SIZE :: nat where "IPC_QUEUE_SIZE = 8"
definition IPC_MSG_LEN :: nat where "IPC_MSG_LEN = 64"

record ipc_queue =
  queue :: "bytes list"
  q_head :: nat
  q_tail :: nat

definition ipc_init :: "ipc_queue \<Rightarrow> ipc_queue" where
  "ipc_init q = q\<lparr>q_head := 0, q_tail := 0\<rparr>"

text \<open>\<open>None\<close> is a store past the end of the destination.\<close>

definition ipc_strncpy :: "bytes \<Rightarrow> bytes \<Rightarrow> nat \<Rightarrow> bytes option" where
  "ipc_strncpy dst src n = c_strcpy dst src n"

definition ipc_send :: "bytes \<Rightarrow> ipc_queue \<Rightarrow> (int \<times> ipc_queue) option" where
  "ipc_send msg q =
     (let nxt = (q_tail q + 1) mod IPC_QUEUE_SIZE
      in if nxt = q_head q then Some (0, q)
         else map_option (\<lambda>m. (1, q\<lparr>queue := (queue q)[q_tail q := m], q_tail := nxt\<rparr>))
                (ipc_strncpy (queue q ! q_tail q) msg IPC_MSG_LEN))"

definition ipc_recv :: "bytes \<Rightarrow> ipc_queue \<Rightarrow> (int \<times> bytes \<times> ipc_queue) option" where
  "ipc_recv buf q =
     (if q_head q = q_tail q then Some (0, buf, q)
      else map_option (\<lambda>b. (1, b, q\<lparr>q_head := (q_head q + 1) mod IPC_QUEUE_SIZE\<rparr>))
             (ipc_strncpy buf (queue q ! q_head q) IPC_MSG_LEN))"

section \<open>Mailboxes\<close>

definition MQ_MAX_MSGS :: nat where "MQ_MAX_MSGS = 8"
definition MQ_MSG_SIZE :: nat where "MQ_MSG_SIZE = 56"

record mq_msg =
  mq_used :: bool
  mq_from :: int
  mq_len :: u8
  mq_data :: bytes

type_synonym mailboxes = "mq_msg list list"

definition mq_init :: "mailboxes \<Rightarrow> mailboxes" where
  "mq_init mb = map (map (\<lambda>m. m\<lparr>mq_used := False\<rparr>)) mb"

text \<open>The copy loop \<open>for (k = 0; k < n; k++) dst[k] = src[k]\<close>; \<open>None\<close> is an access past the end
  of either buffer.\<close>

definition copy_n :: "nat \<Rightarrow> bytes \<Rightarrow> bytes \<Rightarrow> bytes option" where
  "copy_n n src dst =
     (if n \<le> length src \<and> n \<le> length dst then Some (take n src @ drop n dst) else None)"

definition mq_send ::
    "int \<Rightarrow> bytes \<Rightarrow> int \<Rightarrow> int \<Rightarrow> mailboxes \<Rightarrow> task_state \<Rightarrow> (int \<times> mailboxes) option" where
  "mq_send dst_pid data len from_pid mb ts =
     (if dst_pid < 0 \<or> dst_pid \<ge> int MAX_TASKS then Some (-1, mb)
      else if \<not> task_is_used dst_pid ts then Some (-1, mb)
      else let len = (if len > int MQ_MSG_SIZE then int MQ_MSG_SIZE else len);
               len = (if len < 0 then 0 else len);
               box = mb ! nat dst_pid
           in case find_slot (\<lambda>m. \<not> mq_used m) box of
                None \<Rightarrow> Some (-1, mb)
              | Some j \<Rightarrow>
                  map_option (\<lambda>d. (0, mb[nat dst_pid := box[j := (box ! j)\<lparr>mq_used := True,
                      mq_from := from_pid, mq_len := word_of_int len, mq_data := d\<rparr>]]))
                    (copy_n (nat len) data (mq_data (box ! j))))"

text \<open>The result, the caller's buffer, the sender (\<open>None\<close> when no message was taken), the mailboxes.\<close>

definition mq_recv ::
    "int \<Rightarrow> bytes \<Rightarrow> int \<Rightarrow> mailboxes \<Rightarrow> (int \<times> bytes \<times> int option \<times> mailboxes) option" where
  "mq_recv dst_pid buf max_len mb =
     (if dst_pid < 0 \<or> dst_pid \<ge> int MAX_TASKS then Some (0, buf, None, mb)
      else let box = mb ! nat dst_pid
           in case find_slot mq_used box of
                None \<Rightarrow> Some (0, buf, None, mb)
              | Some j \<Rightarrow>
                  (let len = uint (mq_len (box ! j));
                       len = (if len > max_len then max_len else len)
                   in map_option (\<lambda>b. (len, b, Some (mq_from (box ! j)),
                          mb[nat dst_pid := box[j := (box ! j)\<lparr>mq_used := False\<rparr>]]))
                        (copy_n (nat len) (mq_data (box ! j)) buf)))"

definition mq_pending :: "int \<Rightarrow> mailboxes \<Rightarrow> nat" where
  "mq_pending pid mb =
     (if pid < 0 \<or> pid \<ge> int MAX_TASKS then 0 else length (filter mq_used (mb ! nat pid)))"

section \<open>The queue as a list\<close>

definition ipc_content :: "ipc_queue \<Rightarrow> bytes list" where
  "ipc_content q = map cstr (ring_list (queue q) (q_head q) (q_tail q))"

definition ipc_inv :: "ipc_queue \<Rightarrow> bool" where
  "ipc_inv q \<longleftrightarrow> length (queue q) = IPC_QUEUE_SIZE \<and> q_head q < IPC_QUEUE_SIZE \<and>
     q_tail q < IPC_QUEUE_SIZE \<and> list_all (\<lambda>m. length m = IPC_MSG_LEN) (queue q)"

lemma ipc_send_spec:
  assumes "ipc_inv q"
  shows "length (ipc_content q) = IPC_QUEUE_SIZE - 1 \<Longrightarrow> ipc_send msg q = Some (0, q)"
    and "length (ipc_content q) \<noteq> IPC_QUEUE_SIZE - 1 \<Longrightarrow> \<exists>q'. ipc_send msg q = Some (1, q') \<and>
      ipc_content q' = ipc_content q @ [take 63 (cstr msg)] \<and> ipc_inv q'"
proof -
  have b: "q_head q < IPC_QUEUE_SIZE" "q_tail q < IPC_QUEUE_SIZE" "length (queue q) = IPC_QUEUE_SIZE"
    "list_all (\<lambda>m. length m = IPC_MSG_LEN) (queue q)"
    using assms by (auto simp: ipc_inv_def)
  have full: "(q_tail q + 1) mod IPC_QUEUE_SIZE = q_head q \<longleftrightarrow>
      length (ipc_content q) = IPC_QUEUE_SIZE - 1"
    using ring_full_iff [OF b(1,2)] b(3) by (simp add: ipc_content_def)
  then show "length (ipc_content q) = IPC_QUEUE_SIZE - 1 \<Longrightarrow> ipc_send msg q = Some (0, q)"
    by (simp add: ipc_send_def)
  assume "length (ipc_content q) \<noteq> IPC_QUEUE_SIZE - 1"
  with full have ne: "(q_tail q + 1) mod length (queue q) \<noteq> q_head q" using b(3) by simp
  have "length (queue q ! q_tail q) = IPC_MSG_LEN" using b by (auto simp: list_all_length)
  then obtain m where m: "c_strcpy (queue q ! q_tail q) msg IPC_MSG_LEN = Some m"
    using c_strcpy_total [of IPC_MSG_LEN "queue q ! q_tail q" msg] by (auto simp: IPC_MSG_LEN_def)
  have cm: "cstr m = take 63 (cstr msg)" using c_strcpy_cstr [OF m] by (simp add: IPC_MSG_LEN_def)
  have lm: "length m = IPC_MSG_LEN"
    using c_strcpy_length [OF m] \<open>length (queue q ! q_tail q) = IPC_MSG_LEN\<close> by simp
  let ?q = "q\<lparr>queue := (queue q)[q_tail q := m], q_tail := (q_tail q + 1) mod IPC_QUEUE_SIZE\<rparr>"
  have "ipc_send msg q = Some (1, ?q)"
    using ne m b(3) by (simp add: ipc_send_def ipc_strncpy_def Let_def)
  moreover have "ipc_content ?q = ipc_content q @ [take 63 (cstr msg)]"
    using ring_list_push [OF _ _ ne, of m] b cm by (simp add: ipc_content_def)
  moreover have "ipc_inv ?q"
    using b lm by (auto simp: ipc_inv_def list_all_length nth_list_update IPC_QUEUE_SIZE_def)
  ultimately show "\<exists>q'. ipc_send msg q = Some (1, q') \<and>
      ipc_content q' = ipc_content q @ [take 63 (cstr msg)] \<and> ipc_inv q'" by blast
qed

lemma ipc_recv_spec:
  assumes "ipc_inv q" "IPC_MSG_LEN \<le> length buf"
  shows "ipc_content q = [] \<Longrightarrow> ipc_recv buf q = Some (0, buf, q)"
    and "ipc_content q = m # ms \<Longrightarrow> \<exists>buf' q'. ipc_recv buf q = Some (1, buf', q') \<and>
      cstr buf' = take 63 m \<and> length buf' = length buf \<and> ipc_content q' = ms \<and> ipc_inv q'"
proof -
  have b: "q_head q < length (queue q)" "q_tail q < length (queue q)" "length (queue q) = IPC_QUEUE_SIZE"
    using assms by (auto simp: ipc_inv_def)
  note ne = ring_list_Nil_iff [OF b(1,2)]
  show "ipc_content q = [] \<Longrightarrow> ipc_recv buf q = Some (0, buf, q)"
    using ne by (simp add: ipc_recv_def ipc_content_def)
  assume c: "ipc_content q = m # ms"
  with ne have h: "q_head q \<noteq> q_tail q" by (auto simp: ipc_content_def)
  from c ring_list_pop [OF b(1,2) h] have m: "m = cstr (queue q ! q_head q)"
    and ms: "ms = map cstr (ring_list (queue q) ((q_head q + 1) mod length (queue q)) (q_tail q))"
    by (simp_all add: ipc_content_def)
  obtain d where d: "c_strcpy buf (queue q ! q_head q) IPC_MSG_LEN = Some d"
    using c_strcpy_total [of IPC_MSG_LEN buf] assms(2) by (auto simp: IPC_MSG_LEN_def)
  from c_strcpy_cstr [OF d] c_strcpy_length [OF d] h m ms d b assms(1)
  show "\<exists>buf' q'. ipc_recv buf q = Some (1, buf', q') \<and> cstr buf' = take 63 m \<and>
      length buf' = length buf \<and> ipc_content q' = ms \<and> ipc_inv q'"
    by (auto simp: ipc_recv_def ipc_strncpy_def ipc_content_def ipc_inv_def IPC_MSG_LEN_def
        IPC_QUEUE_SIZE_def)
qed

text \<open>The queue through the interface of bounded queues: a message is a string of at most 63
  characters, the receiver passes a 64-byte buffer.\<close>

definition ipc_enq :: "bytes \<Rightarrow> ipc_queue \<Rightarrow> ipc_queue option" where
  "ipc_enq m q = (case ipc_send m q of Some (r, q') \<Rightarrow> if r = 1 then Some q' else None | None \<Rightarrow> None)"

definition ipc_deq :: "ipc_queue \<Rightarrow> (bytes \<times> ipc_queue) option" where
  "ipc_deq q = (case ipc_recv (replicate IPC_MSG_LEN 0) q of
     Some (r, b, q') \<Rightarrow> if r = 1 then Some (cstr b, q') else None | None \<Rightarrow> None)"

definition ipc_ring_inv :: "ipc_queue \<Rightarrow> bool" where
  "ipc_ring_inv q \<longleftrightarrow> ipc_inv q \<and> list_all (\<lambda>m. length m \<le> 63) (ipc_content q)"

interpretation ipc_ring: bounded_queue ipc_enq ipc_deq ipc_content ipc_ring_inv
  "IPC_QUEUE_SIZE - 1" "\<lambda>m. 0 \<notin> set m \<and> length m \<le> 63"
proof (unfold_locales, goal_cases)
  case (1 q m q')
  then show ?case
    using ipc_send_spec [of q m] by (fastforce simp: ipc_enq_def ipc_ring_inv_def cstr_no_nul)
next
  case (2 q m)
  then show ?case
    using ipc_send_spec [of q m]
    by (cases "length (ipc_content q) = IPC_QUEUE_SIZE - 1") (auto simp: ipc_enq_def ipc_ring_inv_def)
next
  case (3 q m q')
  then show ?case
    using ipc_recv_spec [of q "replicate IPC_MSG_LEN 0"]
    by (cases "ipc_content q") (fastforce simp: ipc_deq_def ipc_ring_inv_def)+
next
  case (4 q)
  then show ?case
    using ipc_recv_spec [of q "replicate IPC_MSG_LEN 0"]
    by (cases "ipc_content q") (fastforce simp: ipc_deq_def ipc_ring_inv_def)+
next
  case (5 q)
  then show ?case
    using ring_len_less [of IPC_QUEUE_SIZE "q_head q" "q_tail q"]
    by (simp add: ipc_content_def ipc_ring_inv_def ipc_inv_def IPC_QUEUE_SIZE_def)
qed

text \<open>
  The global queue delivers in order: up to seven messages of at most 63 characters, sent to
  an empty queue, are all accepted and received in the order they were sent, and the queue is
  empty again.
\<close>

theorem ipc_fifo:
  assumes "ipc_ring_inv q" "ipc_content q = []" "length msgs \<le> 7"
    "list_all (\<lambda>m. 0 \<notin> set m \<and> length m \<le> 63) msgs"
  shows "\<exists>q1 q2. ipc_ring.enq_all msgs q = Some q1 \<and>
    ipc_ring.deq_n (length msgs) q1 = Some (msgs, q2) \<and> ipc_content q2 = [] \<and> ipc_ring_inv q2"
  using ipc_ring.fifo [of q msgs] assms by (simp add: IPC_QUEUE_SIZE_def)

theorem ipc_fifo_witness:
  "let q = ipc_init \<lparr>queue = replicate 8 (replicate 64 0), q_head = 3, q_tail = 5\<rparr>
   in \<exists>q1 q2. ipc_ring.enq_all [[72, 105], [33]] q = Some q1 \<and>
        ipc_ring.deq_n 2 q1 = Some ([[72, 105], [33]], q2)"
proof -
  let ?q = "ipc_init \<lparr>queue = replicate 8 (replicate 64 0), q_head = 3, q_tail = 5\<rparr>"
  have "ipc_ring_inv ?q" "ipc_content ?q = []"
    by (simp_all add: ipc_ring_inv_def ipc_init_def ipc_inv_def ipc_content_def IPC_QUEUE_SIZE_def
        IPC_MSG_LEN_def list_all_length)
  from ipc_fifo [OF this, of "[[72, 105], [33]]"] show ?thesis
    by (simp del: ipc_ring.enq_all.simps ipc_ring.deq_n.simps flip: numeral_2_eq_2) blast
qed

section \<open>A mailbox as a multiset\<close>

definition mq_payload :: "mq_msg \<Rightarrow> int \<times> bytes" where
  "mq_payload m = (mq_from m, take (unat (mq_len m)) (mq_data m))"

definition mq_bag :: "mq_msg list \<Rightarrow> (int \<times> bytes) multiset" where
  "mq_bag box = mset (map mq_payload (filter mq_used box))"

definition mq_inv :: "mailboxes \<Rightarrow> bool" where
  "mq_inv mb \<longleftrightarrow> length mb = MAX_TASKS \<and> list_all (\<lambda>box. length box = MQ_MAX_MSGS \<and>
     list_all (\<lambda>m. length (mq_data m) = MQ_MSG_SIZE \<and> unat (mq_len m) \<le> MQ_MSG_SIZE) box) mb"

lemma mq_bag_split:
  "j < length box \<Longrightarrow> mq_bag (box[j := m]) =
     mq_bag (take j box) + (if mq_used m then {#mq_payload m#} else {#}) + mq_bag (drop (Suc j) box)"
  by (simp add: mq_bag_def upd_conv_take_nth_drop)

lemma mq_bag_at:
  assumes "j < length box"
  shows "mq_bag box = mq_bag (take j box) + (if mq_used (box ! j) then {#mq_payload (box ! j)#}
    else {#}) + mq_bag (drop (Suc j) box)"
  using mq_bag_split [OF assms, of "box ! j"] by simp

lemma size_mq_bag: "size (mq_bag box) = length (filter mq_used box)"
  by (simp add: mq_bag_def size_mset [symmetric] del: size_mset)

lemma mq_inv_box:
  assumes "mq_inv mb" "0 \<le> pid" "pid < int MAX_TASKS"
  shows "nat pid < length mb" "length (mb ! nat pid) = MQ_MAX_MSGS"
    "j < MQ_MAX_MSGS \<Longrightarrow> length (mq_data (mb ! nat pid ! j)) = MQ_MSG_SIZE"
    "j < MQ_MAX_MSGS \<Longrightarrow> unat (mq_len (mb ! nat pid ! j)) \<le> MQ_MSG_SIZE"
  using assms by (auto simp: mq_inv_def list_all_length)

lemma mq_inv_upd:
  assumes "mq_inv mb" "j < MQ_MAX_MSGS" "0 \<le> pid" "pid < int MAX_TASKS"
    "length (mq_data m) = MQ_MSG_SIZE" "unat (mq_len m) \<le> MQ_MSG_SIZE"
  shows "mq_inv (mb[nat pid := (mb ! nat pid)[j := m]])"
  using assms by (auto simp: mq_inv_def list_all_length nth_list_update)

lemma mq_send_bag:
  assumes "mq_inv mb" "0 \<le> dst" "dst < int MAX_TASKS" "task_is_used dst ts"
    "0 \<le> len" "len \<le> int MQ_MSG_SIZE" "nat len \<le> length data"
  shows "if length (filter mq_used (mb ! nat dst)) = MQ_MAX_MSGS then mq_send dst data len from mb ts = Some (-1, mb)
    else \<exists>box. mq_send dst data len from mb ts = Some (0, mb[nat dst := box]) \<and>
      mq_bag box = mq_bag (mb ! nat dst) + {#(from, take (nat len) data)#} \<and> mq_inv (mb[nat dst := box])"
proof (cases "find_slot (\<lambda>m. \<not> mq_used m) (mb ! nat dst)")
  case None
  then have "filter mq_used (mb ! nat dst) = mb ! nat dst"
    by (auto simp: find_slot_None_iff filter_id_conv)
  with None assms mq_inv_box(2) [OF assms(1-3)] show ?thesis by (simp add: mq_send_def)
next
  case (Some j)
  let ?box = "mb ! nat dst"
  note d = find_slot_SomeD [OF Some]
  note ib = mq_inv_box [OF assms(1-3)]
  from d(1) ib(2) have j: "j < MQ_MAX_MSGS" by simp
  have "length (filter mq_used ?box) < length ?box"
    using d(1,2) by (intro length_filter_less [of "?box ! j"]) auto
  then have "length (filter mq_used ?box) \<noteq> MQ_MAX_MSGS" using ib(2) by simp
  moreover have "unat (word_of_int len :: u8) = nat len"
    using assms(5,6) by (intro unat_word_of_int_small) (simp_all add: MQ_MSG_SIZE_def)
  moreover define m where "m = (?box ! j)\<lparr>mq_used := True, mq_from := from,
      mq_len := word_of_int len,
      mq_data := take (nat len) data @ drop (nat len) (mq_data (?box ! j))\<rparr>"
  moreover have "mq_send dst data len from mb ts = Some (0, mb[nat dst := ?box[j := m]])"
    using Some assms ib(3) [OF j] unfolding m_def
    by (auto simp: mq_send_def copy_n_def Let_def)
  moreover have "mq_bag (?box[j := m]) = mq_bag ?box + {#mq_payload m#}"
    using d(1,2) unfolding mq_bag_split [OF d(1)] mq_bag_at [OF d(1)] by (simp add: m_def)
  moreover have "mq_inv (mb[nat dst := ?box[j := m]])"
    using assms ib(3) [OF j] calculation(2)
    by (intro mq_inv_upd j) (auto simp: m_def)
  ultimately show ?thesis
    using assms ib(3) [OF j] by (auto simp: mq_payload_def)
qed

lemma mq_recv_bag:
  assumes "mq_inv mb" "0 \<le> dst" "dst < int MAX_TASKS" "MQ_MSG_SIZE \<le> length buf"
    "int MQ_MSG_SIZE \<le> max_len"
  shows "if mq_bag (mb ! nat dst) = {#} then mq_recv dst buf max_len mb = Some (0, buf, None, mb)
    else \<exists>from msg box. mq_recv dst buf max_len mb =
        Some (int (length msg), msg @ drop (length msg) buf, Some from, mb[nat dst := box]) \<and>
      mq_bag (mb ! nat dst) = mq_bag box + {#(from, msg)#} \<and> mq_inv (mb[nat dst := box])"
proof (cases "find_slot mq_used (mb ! nat dst)")
  case None
  then have "filter mq_used (mb ! nat dst) = []"
    by (auto simp: find_slot_None_iff filter_empty_conv)
  with None assms show ?thesis by (simp add: mq_recv_def mq_bag_def)
next
  case (Some j)
  let ?box = "mb ! nat dst"
  note d = find_slot_SomeD [OF Some]
  note ib = mq_inv_box [OF assms(1-3)]
  from d(1) ib(2) have j: "j < MQ_MAX_MSGS" by simp
  define msg where "msg = take (unat (mq_len (?box ! j))) (mq_data (?box ! j))"
  have lm: "length msg = unat (mq_len (?box ! j))" using ib(3,4) [OF j] by (simp add: msg_def)
  let ?new = "?box[j := (?box ! j)\<lparr>mq_used := False\<rparr>]"
  have bag: "mq_bag ?box = mq_bag ?new + {#(mq_from (?box ! j), msg)#}"
    using d(2) unfolding mq_bag_split [OF d(1)] mq_bag_at [OF d(1)]
    by (simp add: mq_payload_def msg_def)
  moreover have "mq_recv dst buf max_len mb =
      Some (int (length msg), msg @ drop (length msg) buf, Some (mq_from (?box ! j)), mb[nat dst := ?new])"
  proof -
    have "uint (mq_len (?box ! j)) = int (length msg)" unfolding lm by simp
    moreover have "length msg \<le> MQ_MSG_SIZE" using lm ib(4) [OF j] by simp
    moreover have "take (length msg) (mq_data (?box ! j)) = msg" unfolding lm by (simp add: msg_def)
    ultimately show ?thesis
      using Some assms(2-5) ib(3) [OF j] by (simp add: mq_recv_def copy_n_def Let_def)
  qed
  moreover have "mq_inv (mb[nat dst := ?new])"
    using assms(2,3) ib(3,4) [OF j] by (intro mq_inv_upd assms(1) j) auto
  ultimately show ?thesis by auto
qed

text \<open>
  A mailbox keeps what it is given: sending adds exactly the message and its sender to the
  mailbox of a live task and fails only when eight messages wait there; receiving removes and
  returns one of the waiting messages, whole; no other mailbox changes.
\<close>

theorem mq_mailbox_bag:
  assumes "mq_inv mb" "0 \<le> dst" "dst < int MAX_TASKS" "task_is_used dst ts"
    "length data \<le> MQ_MSG_SIZE" "MQ_MSG_SIZE \<le> length buf"
  shows "(if mq_pending dst mb = MQ_MAX_MSGS
    then mq_send dst data (int (length data)) from mb ts = Some (-1, mb)
    else \<exists>box. mq_send dst data (int (length data)) from mb ts = Some (0, mb[nat dst := box]) \<and>
      mq_bag box = mq_bag (mb ! nat dst) + {#(from, data)#}) \<and>
    (if mq_pending dst mb = 0
    then mq_recv dst buf (int MQ_MSG_SIZE) mb = Some (0, buf, None, mb)
    else \<exists>sender msg box. mq_recv dst buf (int MQ_MSG_SIZE) mb =
        Some (int (length msg), msg @ drop (length msg) buf, Some sender, mb[nat dst := box]) \<and>
      mq_bag (mb ! nat dst) = mq_bag box + {#(sender, msg)#})"
proof
  have p: "mq_pending dst mb = size (mq_bag (mb ! nat dst))"
    using assms(2,3) by (simp add: mq_pending_def size_mq_bag)
  show "if mq_pending dst mb = MQ_MAX_MSGS
    then mq_send dst data (int (length data)) from mb ts = Some (-1, mb)
    else \<exists>box. mq_send dst data (int (length data)) from mb ts = Some (0, mb[nat dst := box]) \<and>
      mq_bag box = mq_bag (mb ! nat dst) + {#(from, data)#}"
    using mq_send_bag [of mb dst ts "int (length data)" data "from"] assms
    unfolding p size_mq_bag by (auto split: if_splits)
  show "if mq_pending dst mb = 0
    then mq_recv dst buf (int MQ_MSG_SIZE) mb = Some (0, buf, None, mb)
    else \<exists>sender msg box. mq_recv dst buf (int MQ_MSG_SIZE) mb =
        Some (int (length msg), msg @ drop (length msg) buf, Some sender, mb[nat dst := box]) \<and>
      mq_bag (mb ! nat dst) = mq_bag box + {#(sender, msg)#}"
    using mq_recv_bag [OF assms(1-3,6), of "int MQ_MSG_SIZE"] unfolding p by (auto split: if_splits)
qed

definition empty_mailboxes :: mailboxes where
  "empty_mailboxes = replicate MAX_TASKS (replicate MQ_MAX_MSGS
     \<lparr>mq_used = False, mq_from = 0, mq_len = 0, mq_data = replicate MQ_MSG_SIZE 0\<rparr>)"

lemma mq_inv_empty: "mq_inv empty_mailboxes"
  by (simp add: mq_inv_def empty_mailboxes_def list_all_length)

lemma used_two_tasks: "task_is_used 0 two_tasks"
  by (simp add: task_is_used_def two_tasks_def valid_tid_def MAX_TASKS_def boot_tasks_def)

theorem mq_mailbox_bag_witness:
  "\<exists>box. mq_send 0 [1, 2, 3] 3 0 empty_mailboxes two_tasks =
     Some (0, empty_mailboxes[0 := box]) \<and> mq_bag box = {#(0, [1, 2, 3])#}"
proof -
  have "task_is_used 0 two_tasks" by (rule used_two_tasks)
  moreover have "mq_pending 0 empty_mailboxes = 0" "mq_bag (empty_mailboxes ! 0) = {#}"
    by (simp_all add: mq_pending_def empty_mailboxes_def MAX_TASKS_def mq_bag_def)
  ultimately show ?thesis
    using mq_mailbox_bag [OF mq_inv_empty, of 0 two_tasks "[1, 2, 3]" "replicate 56 0" 0]
    by (simp add: MAX_TASKS_def MQ_MSG_SIZE_def MQ_MAX_MSGS_def)
qed

text \<open>
  Mailboxes are not first-in first-out, although \<open>mq.h\<close> promises it. After two messages are
  sent and one received, a third message takes the freed lowest slot and is received before the
  second one, which is older.
\<close>

theorem mq_overtakes:
  "Option.bind (mq_send 0 [1] 1 5 empty_mailboxes two_tasks) (\<lambda>(_, mb1).
   Option.bind (mq_send 0 [2] 1 5 mb1 two_tasks) (\<lambda>(_, mb2).
   Option.bind (mq_recv 0 (replicate 56 0) 56 mb2) (\<lambda>(_, first, _, mb3).
   Option.bind (mq_send 0 [3] 1 5 mb3 two_tasks) (\<lambda>(_, mb4).
   Option.bind (mq_recv 0 (replicate 56 0) 56 mb4) (\<lambda>(_, second, _, mb5).
   Some (hd first, hd second)))))) = Some (1, 3)"
  by code_simp

end
