(* ===== verification/Sched.thy ===== *)
theory Sched
  imports Task
begin

text \<open>
  The scheduler of \<open>src/kernel/task.c\<close>: the time-slice countdown, the boot processor's choice
  by priority, nice value and age (\<open>task_switch\<close>), and the application processor's two-pass
  round robin over kernel tasks (\<open>task_switch_ap\<close>). The spinlock makes each call atomic with
  respect to the other processor.

  A processor's registers that a switch loads are a record: FPU image, page-table root, FS base,
  the two kernel stack pointers, and the two pointers that the interrupt stub reads to swap
  stacks, as the indices of the tasks whose \<open>rsp\<close> they point to. What \<open>fninit\<close> does to the FPU
  image is the processor's business and a parameter of the model.
\<close>

section \<open>State and operations\<close>

definition MM_TLS_BASE :: nat where "MM_TLS_BASE = 0x800000"
definition MM_TLS_PAGE_SIZE :: nat where "MM_TLS_PAGE_SIZE = 0x1000"

record cpu =
  fpu :: bytes
  cr3 :: nat
  fs_base :: nat
  tss_rsp0 :: nat
  syscall_kstack :: nat
  current_rsp :: "nat option"
  next_rsp :: "nat option"

definition task_tick_countdown_or_reset :: "int \<Rightarrow> task_state \<Rightarrow> bool \<times> task_state" where
  "task_tick_countdown_or_reset tid s =
     (if tid < 0 then (False, s)
      else let t = the_task s (nat tid)
           in if used t \<and> status t = TASK_RUNNING \<and> 1 < ticks t
              then (True, upd_task (nat tid) (\<lambda>t. t\<lparr>ticks := ticks t - 1\<rparr>) s)
              else if used t \<and> status t = TASK_RUNNING
              then (False, upd_task (nat tid) (\<lambda>t. t\<lparr>ticks := priority t\<rparr>) s)
              else (False, s))"

definition sched_score :: "task \<Rightarrow> int" where
  "sched_score t = uint (priority t) * 4 - nice t + uint (drop_bit 3 (age_ticks t))"

text \<open>The tests of the selection loop that do not look at the score.\<close>

definition eligible :: "task_state \<Rightarrow> nat \<Rightarrow> bool" where
  "eligible s i \<longleftrightarrow> used (the_task s i) \<and> status (the_task s i) = TASK_RUNNING \<and>
     cpu_id (the_task s i) = -1 \<and> i \<noteq> current_task s \<and> \<not> (has_ap s \<and> \<not> is_user (the_task s i))"

fun pick_loop :: "task_state \<Rightarrow> nat list \<Rightarrow> int \<times> int \<Rightarrow> int \<times> int" where
  "pick_loop s [] acc = acc"
| "pick_loop s (i # is) (best, best_score) =
     pick_loop s is
       (if eligible s i \<and> sched_score (the_task s i) > best_score
        then (int i, sched_score (the_task s i)) else (best, best_score))"

definition pick_best :: "task_state \<Rightarrow> int" where
  "pick_best s = fst (pick_loop s [0..<MAX_TASKS] (-1, -9999))"

definition age_one :: "int \<Rightarrow> nat \<Rightarrow> task_state \<Rightarrow> task_state" where
  "age_one best i s =
     (if used (the_task s i) \<and> status (the_task s i) = TASK_RUNNING \<and> cpu_id (the_task s i) = -1 \<and>
         int i \<noteq> best \<and> i \<noteq> current_task s \<and> age_ticks (the_task s i) < 0xFFFFFFFF
      then upd_task i (\<lambda>t. t\<lparr>age_ticks := age_ticks t + 1\<rparr>) s else s)"

definition age_all :: "int \<Rightarrow> task_state \<Rightarrow> task_state" where
  "age_all best s = fold (age_one best) [0..<MAX_TASKS] s"

text \<open>Saving the FPU image of the task that leaves and loading the one that comes.\<close>

definition fpu_restore :: "(bytes \<Rightarrow> bytes) \<Rightarrow> nat \<Rightarrow> task_state \<Rightarrow> cpu \<Rightarrow> cpu" where
  "fpu_restore fninit nxt s c =
     c\<lparr>fpu := (if fpu_valid (the_task s nxt) then fpu_state (the_task s nxt) else fninit (fpu c))\<rparr>"

definition load_context :: "nat \<Rightarrow> task_state \<Rightarrow> cpu \<Rightarrow> cpu" where
  "load_context nxt s c =
     c\<lparr>cr3 := (if page_dir (the_task s nxt) \<noteq> 0 then page_dir (the_task s nxt) else cr3 c),
       fs_base := (if tls_frame (the_task s nxt) \<noteq> 0 then MM_TLS_BASE + nxt * MM_TLS_PAGE_SIZE
                   else fs_base c)\<rparr>"

definition task_switch :: "(bytes \<Rightarrow> bytes) \<Rightarrow> task_state \<Rightarrow> cpu \<Rightarrow> task_state \<times> cpu" where
  "task_switch fninit s c =
     (let c = c\<lparr>current_rsp := None, next_rsp := None\<rparr>
      in if task_count s < 2 then (s, c)
         else let (running, s) = task_tick_countdown_or_reset (int (current_task s)) s
         in if running then (s, c)
         else let best = pick_best s;
                  s = age_all best s;
                  nxt = nat best;
                  old = current_task s
         in if best < 0 \<or> \<not> used (the_task s nxt) \<or> status (the_task s nxt) \<noteq> TASK_RUNNING \<or>
               cpu_id (the_task s nxt) \<noteq> -1 \<or> nxt = old
            then (s, c)
            else let s = upd_task old (\<lambda>t. t\<lparr>cpu_id := -1\<rparr>) s;
                     s = upd_task nxt (\<lambda>t. t\<lparr>cpu_id := 0, age_ticks := 0\<rparr>) s;
                     c = c\<lparr>current_rsp := Some old, next_rsp := Some nxt\<rparr>;
                     s = upd_task old (\<lambda>t. t\<lparr>fpu_state := fpu c, fpu_valid := True\<rparr>) s;
                     c = fpu_restore fninit nxt s c;
                     s = s\<lparr>current_task := nxt\<rparr>;
                     kstack_top = stacks_base s + nxt * STACK_SIZE + STACK_SIZE;
                     c = c\<lparr>tss_rsp0 := kstack_top, syscall_kstack := kstack_top\<rparr>
                 in (s, load_context nxt s c))"

text \<open>
  The wrap-around scans of the application processor: from \<open>next\<close>, at most \<open>n\<close> slots. The
  result is where the scan stopped.
\<close>

fun ap_scan :: "(nat \<Rightarrow> bool) \<Rightarrow> nat \<Rightarrow> nat \<Rightarrow> bool \<times> nat" where
  "ap_scan P nxt 0 = (False, nxt)"
| "ap_scan P nxt (Suc n) = (if P nxt then (True, nxt) else ap_scan P ((nxt + 1) mod MAX_TASKS) n)"

definition ap_assigned :: "int \<Rightarrow> task_state \<Rightarrow> nat \<Rightarrow> bool" where
  "ap_assigned cpu_idx s i \<longleftrightarrow> used (the_task s i) \<and> status (the_task s i) = TASK_RUNNING \<and>
     \<not> is_user (the_task s i) \<and> cpu_id (the_task s i) = cpu_idx \<and> int i \<noteq> current_task_ap s"

definition ap_stealable :: "task_state \<Rightarrow> nat \<Rightarrow> bool" where
  "ap_stealable s i \<longleftrightarrow> used (the_task s i) \<and> status (the_task s i) = TASK_RUNNING \<and>
     \<not> is_user (the_task s i) \<and> cpu_id (the_task s i) = -1"

definition ap_pick :: "int \<Rightarrow> task_state \<Rightarrow> bool \<times> nat" where
  "ap_pick cpu_idx s =
     (let start = (if current_task_ap s \<ge> 0 then (nat (current_task_ap s) + 1) mod MAX_TASKS else 0);
          (found, nxt) = ap_scan (ap_assigned cpu_idx s) start MAX_TASKS
      in if found then (True, nxt) else ap_scan (ap_stealable s) start MAX_TASKS)"

definition ap_claim :: "int \<Rightarrow> int \<Rightarrow> task_state \<Rightarrow> task_state" where
  "ap_claim tid v s =
     (if tid \<ge> 0 \<and> used (the_task s (nat tid)) then upd_task (nat tid) (\<lambda>t. t\<lparr>cpu_id := v\<rparr>) s else s)"

definition task_switch_ap ::
    "(bytes \<Rightarrow> bytes) \<Rightarrow> int \<Rightarrow> task_state \<Rightarrow> cpu \<Rightarrow> task_state \<times> cpu" where
  "task_switch_ap fninit cpu_idx s c =
     (let c = c\<lparr>current_rsp := None, next_rsp := None\<rparr>
      in if task_count s < 1 then (s, c)
         else let (running, s) = task_tick_countdown_or_reset (current_task_ap s) s
         in if running then (s, c)
         else let (found, nxt) = ap_pick cpu_idx s; old = current_task_ap s
         in if \<not> found \<or> int nxt = old then (ap_claim old cpu_idx s, c)
         else let s = ap_claim old (-1) s;
                  s = upd_task nxt (\<lambda>t. t\<lparr>cpu_id := cpu_idx\<rparr>) s;
                  old_used = (old \<ge> 0 \<and> used (the_task s (nat old)));
                  c = c\<lparr>current_rsp := (if old_used then Some (nat old) else None), next_rsp := Some nxt\<rparr>;
                  s = s\<lparr>current_task_ap := int nxt\<rparr>;
                  kstack = stacks_base s + nxt * STACK_SIZE + STACK_SIZE;
                  c = c\<lparr>tss_rsp0 := kstack,
                        syscall_kstack := (if is_user (the_task s nxt) then kstack else syscall_kstack c)\<rparr>;
                  s = (if old_used
                       then upd_task (nat old) (\<lambda>t. t\<lparr>fpu_state := fpu c, fpu_valid := True\<rparr>) s else s);
                  c = fpu_restore fninit nxt s c
              in (s, load_context nxt s c))"

section \<open>The choice of the next task\<close>

text \<open>
  The order in which the boot processor prefers tasks: a higher score first, and the lower slot
  among equal scores.
\<close>

datatype sched_key = Key (key_score: int) (key_slot: nat)

instantiation sched_key :: linorder
begin

definition less_eq_sched_key :: "sched_key \<Rightarrow> sched_key \<Rightarrow> bool" where
  "less_eq_sched_key a b \<longleftrightarrow> key_score a < key_score b \<or>
     key_score a = key_score b \<and> key_slot b \<le> key_slot a"

definition less_sched_key :: "sched_key \<Rightarrow> sched_key \<Rightarrow> bool" where
  "less_sched_key a b \<longleftrightarrow> key_score a < key_score b \<or>
     key_score a = key_score b \<and> key_slot b < key_slot a"

instance
  by standard (auto simp: less_eq_sched_key_def less_sched_key_def intro: sched_key.expand)

end

definition task_key :: "task_state \<Rightarrow> nat \<Rightarrow> sched_key" where
  "task_key s i = Key (sched_score (the_task s i)) i"

definition candidates :: "task_state \<Rightarrow> nat set" where
  "candidates s = {i. i < MAX_TASKS \<and> eligible s i}"

text \<open>The \<open>int8_t\<close> range of the nice field, which keeps every score above the loop's start value.\<close>

definition nice_wf :: "task_state \<Rightarrow> bool" where
  "nice_wf s \<longleftrightarrow> (\<forall>i<MAX_TASKS. -128 \<le> nice (the_task s i) \<and> nice (the_task s i) \<le> 127)"

lemma finite_candidates [simp]: "finite (candidates s)"
  by (simp add: candidates_def)

lemma sched_score_lower: "- nice t \<le> sched_score t"
  by (simp add: sched_score_def)

lemma pick_loop_append:
  "pick_loop s (is @ [i]) acc =
     (let (best, bs) = pick_loop s is acc
      in if eligible s i \<and> sched_score (the_task s i) > bs
         then (int i, sched_score (the_task s i)) else (best, bs))"
  by (induction s "is" acc rule: pick_loop.induct) auto

lemma pick_upto:
  assumes "\<And>i. i < n \<Longrightarrow> eligible s i \<Longrightarrow> sched_score (the_task s i) > -9999"
  shows "(\<nexists>i. i < n \<and> eligible s i) \<and> pick_loop s [0..<n] (-1, -9999) = (-1, -9999) \<or>
    (\<exists>k<n. pick_loop s [0..<n] (-1, -9999) = (int k, sched_score (the_task s k)) \<and> eligible s k \<and>
       (\<forall>i<n. eligible s i \<longrightarrow> task_key s i \<le> task_key s k))"
  using assms
proof (induction n)
  case 0
  then show ?case by simp
next
  case (Suc n)
  let ?sc = "\<lambda>i. sched_score (the_task s i)"
  from Suc.IH Suc.prems consider
    (none) "\<nexists>i. i < n \<and> eligible s i" "pick_loop s [0..<n] (-1, -9999) = (-1, -9999)"
    | (some) k where "k < n" "pick_loop s [0..<n] (-1, -9999) = (int k, ?sc k)" "eligible s k"
      "\<forall>i<n. eligible s i \<longrightarrow> task_key s i \<le> task_key s k"
    by (metis less_Suc_eq)
  then show ?case
  proof cases
    case none
    with Suc.prems [of n] show ?thesis
      by (auto simp: pick_loop_append less_Suc_eq)
  next
    case some
    show ?thesis
    proof (cases "eligible s n \<and> ?sc n > ?sc k")
      case True
      then have "task_key s k \<le> task_key s n"
        by (simp add: task_key_def less_eq_sched_key_def)
      with some True show ?thesis
        by (intro disjI2 exI [of _ n]) (auto simp: pick_loop_append less_Suc_eq intro: order_trans)
    next
      case False
      then have "eligible s n \<longrightarrow> task_key s n \<le> task_key s k"
        using some(1) by (auto simp: task_key_def less_eq_sched_key_def)
      with some False show ?thesis
        by (intro disjI2 exI [of _ k]) (auto simp: pick_loop_append less_Suc_eq)
    qed
  qed
qed

lemma pick_best_none:
  assumes "nice_wf s" "candidates s = {}"
  shows "pick_best s = -1"
  using pick_upto [of MAX_TASKS s] assms by (auto simp: pick_best_def candidates_def)

lemma pick_best_max:
  assumes "nice_wf s" "candidates s \<noteq> {}"
  shows "\<exists>k\<in>candidates s. pick_best s = int k \<and> task_key s k = Max (task_key s ` candidates s)"
proof -
  have "sched_score (the_task s i) > -9999" if "i < MAX_TASKS" for i
    using sched_score_lower [of "the_task s i"] assms(1) that unfolding nice_wf_def by fastforce
  with pick_upto [of MAX_TASKS s] assms(2) obtain k where k: "k < MAX_TASKS" "eligible s k"
    "pick_best s = int k" "\<forall>i<MAX_TASKS. eligible s i \<longrightarrow> task_key s i \<le> task_key s k"
    by (auto simp: pick_best_def candidates_def)
  then have "Max (task_key s ` candidates s) = task_key s k"
    by (intro Max_eqI) (auto simp: candidates_def)
  with k show ?thesis by (auto simp: candidates_def)
qed

section \<open>One call of the boot processor's scheduler\<close>

text \<open>Which waiting tasks grow older when \<open>best\<close> is chosen.\<close>

definition ages :: "int \<Rightarrow> task_state \<Rightarrow> nat \<Rightarrow> bool" where
  "ages best s i \<longleftrightarrow> used (the_task s i) \<and> status (the_task s i) = TASK_RUNNING \<and>
     cpu_id (the_task s i) = -1 \<and> int i \<noteq> best \<and> i \<noteq> current_task s \<and>
     age_ticks (the_task s i) < 0xFFFFFFFF"

definition older :: "task \<Rightarrow> task" where
  "older t = t\<lparr>age_ticks := age_ticks t + 1\<rparr>"

lemma age_one_eq: "age_one best i s = (if ages best s i then upd_task i older s else s)"
  unfolding age_one_def ages_def older_def [abs_def] by simp

lemma the_task_age_one:
  "j < length (tasks s) \<Longrightarrow> the_task (age_one b i s) j =
     (if i = j \<and> ages b s j then older (the_task s j) else the_task s j)"
  by (auto simp: age_one_eq the_task_upd_task)

lemma age_one_frame [simp]:
  "length (tasks (age_one b i s)) = length (tasks s)" "current_task (age_one b i s) = current_task s"
  "task_count (age_one b i s) = task_count s" "has_ap (age_one b i s) = has_ap s"
  "current_task_ap (age_one b i s) = current_task_ap s" "stacks_base (age_one b i s) = stacks_base s"
  "exit_codes (age_one b i s) = exit_codes s" "tick (age_one b i s) = tick s"
  by (simp_all add: age_one_def)

lemma fold_age_one_frame [simp]:
  "length (tasks (fold (age_one b) is s)) = length (tasks s)"
  "current_task (fold (age_one b) is s) = current_task s"
  "task_count (fold (age_one b) is s) = task_count s"
  "has_ap (fold (age_one b) is s) = has_ap s"
  "current_task_ap (fold (age_one b) is s) = current_task_ap s"
  "stacks_base (fold (age_one b) is s) = stacks_base s"
  "exit_codes (fold (age_one b) is s) = exit_codes s"
  by (induction "is" arbitrary: s) simp_all

lemma fold_age_one:
  assumes "j < length (tasks s)" "n \<le> length (tasks s)"
  shows "the_task (fold (age_one b) [0..<n] s) j =
      (if j < n \<and> ages b s j then older (the_task s j) else the_task s j)"
  using assms
proof (induction n arbitrary: j)
  case (Suc n)
  then have "ages b (fold (age_one b) [0..<n] s) n = ages b s n"
    by (simp add: ages_def)
  with Suc show ?case by (auto simp: the_task_age_one less_Suc_eq)
qed simp

lemma the_task_age_all:
  "tasks_wf s \<Longrightarrow> j < MAX_TASKS \<Longrightarrow>
   the_task (age_all b s) j = (if ages b s j then older (the_task s j) else the_task s j)"
  by (simp add: age_all_def fold_age_one tasks_wf_def)

lemma age_all_frame [simp]:
  "current_task (age_all b s) = current_task s" "task_count (age_all b s) = task_count s"
  "has_ap (age_all b s) = has_ap s" "current_task_ap (age_all b s) = current_task_ap s"
  "stacks_base (age_all b s) = stacks_base s" "exit_codes (age_all b s) = exit_codes s"
  "length (tasks (age_all b s)) = length (tasks s)"
  by (simp_all add: age_all_def)

lemma older_simps [simp]:
  "used (older t) = used t" "status (older t) = status t" "cpu_id (older t) = cpu_id t"
  "is_user (older t) = is_user t" "priority (older t) = priority t" "nice (older t) = nice t"
  "page_dir (older t) = page_dir t" "tls_frame (older t) = tls_frame t"
  "fpu_valid (older t) = fpu_valid t" "fpu_state (older t) = fpu_state t" "ticks (older t) = ticks t"
  by (simp_all add: older_def)

text \<open>The running task has used up its slice, or does not run any more.\<close>

definition slice_over :: "task_state \<Rightarrow> bool" where
  "slice_over s \<longleftrightarrow> \<not> (used (the_task s (current_task s)) \<and>
     status (the_task s (current_task s)) = TASK_RUNNING \<and> 1 < ticks (the_task s (current_task s)))"

definition reset_slice :: "task_state \<Rightarrow> task_state" where
  "reset_slice s = snd (task_tick_countdown_or_reset (int (current_task s)) s)"

lemma countdown_over:
  "slice_over s \<Longrightarrow> task_tick_countdown_or_reset (int (current_task s)) s = (False, reset_slice s)"
  by (auto simp: slice_over_def reset_slice_def task_tick_countdown_or_reset_def Let_def)

lemma reset_slice_frame [simp]:
  "current_task (reset_slice s) = current_task s" "task_count (reset_slice s) = task_count s"
  "has_ap (reset_slice s) = has_ap s" "current_task_ap (reset_slice s) = current_task_ap s"
  "stacks_base (reset_slice s) = stacks_base s" "tasks_wf (reset_slice s) = tasks_wf s"
  "length (tasks (reset_slice s)) = length (tasks s)"
  by (simp_all add: reset_slice_def task_tick_countdown_or_reset_def Let_def)

lemma the_task_reset_other [simp]:
  "j \<noteq> current_task s \<Longrightarrow> the_task (reset_slice s) j = the_task s j"
  by (simp add: reset_slice_def task_tick_countdown_or_reset_def Let_def)

lemma the_task_reset_slice:
  assumes "j < length (tasks s)"
  obtains n where "the_task (reset_slice s) j = (the_task s j)\<lparr>ticks := n\<rparr>"
proof -
  have "\<exists>n. the_task (reset_slice s) j = (the_task s j)\<lparr>ticks := n\<rparr>"
    using assms by (auto simp: reset_slice_def task_tick_countdown_or_reset_def Let_def
        the_task_upd_task intro: exI [of _ "ticks (the_task s j)"])
  then show thesis using that by blast
qed

lemma eligible_reset_slice [simp]: "eligible (reset_slice s) i = eligible s i"
  by (cases "i = current_task s") (simp_all add: eligible_def)

lemma candidates_reset_slice [simp]: "candidates (reset_slice s) = candidates s"
  by (simp add: candidates_def)

lemma task_key_reset_slice: "i \<in> candidates s \<Longrightarrow> task_key (reset_slice s) i = task_key s i"
  by (simp add: task_key_def candidates_def eligible_def)

lemma nice_reset_slice [simp]: "tasks_wf s \<Longrightarrow> j < MAX_TASKS \<Longrightarrow> nice (the_task (reset_slice s) j) = nice (the_task s j)"
  by (rule the_task_reset_slice [of j s]) (simp_all add: tasks_wf_def)

lemma nice_wf_reset_slice: "nice_wf s \<Longrightarrow> tasks_wf s \<Longrightarrow> nice_wf (reset_slice s)"
  by (simp add: nice_wf_def)

text \<open>
  What a switch from \<open>current_task s\<close> to \<open>k\<close> leaves of task \<open>j\<close>.
\<close>

definition switched :: "task_state \<Rightarrow> nat \<Rightarrow> bytes \<Rightarrow> nat \<Rightarrow> task" where
  "switched s k img j =
     (let t = the_task (reset_slice s) j
      in if j = k then t\<lparr>cpu_id := 0, age_ticks := 0\<rparr>
         else if j = current_task s then t\<lparr>cpu_id := -1, fpu_state := img, fpu_valid := True\<rparr>
         else if ages (int k) s j then older t else t)"

lemma ages_reset_slice: "ages b (reset_slice s) j = ages b s j"
  by (cases "j = current_task s") (simp_all add: ages_def)

lemma task_switch_eq:
  assumes "tasks_wf s" "2 \<le> task_count s" "slice_over s" "pick_best (reset_slice s) = int k"
    "k \<in> candidates s" "task_switch fninit s c = (s', c')"
  shows "current_task s' = k" "current_rsp c' = Some (current_task s)" "next_rsp c' = Some k"
    "length (tasks s') = MAX_TASKS" "task_count s' = task_count s" "has_ap s' = has_ap s"
    "current_task_ap s' = current_task_ap s" "tasks_wf s'"
    "j < MAX_TASKS \<Longrightarrow> the_task s' j = switched s k (fpu c) j"
    "fpu c' = (if fpu_valid (the_task s k) then fpu_state (the_task s k) else fninit (fpu c))"
    "cr3 c' = (if page_dir (the_task s k) \<noteq> 0 then page_dir (the_task s k) else cr3 c)"
    "tss_rsp0 c' = stacks_base s + k * STACK_SIZE + STACK_SIZE"
    "syscall_kstack c' = stacks_base s + k * STACK_SIZE + STACK_SIZE"
proof -
  let ?s1 = "reset_slice s" and ?o = "current_task s"
  let ?s2 = "age_all (int k) ?s1"
  let ?f = "\<lambda>t. t\<lparr>fpu_state := fpu c, fpu_valid := True\<rparr>"
  let ?s3 = "upd_task ?o ?f (upd_task k (\<lambda>t. t\<lparr>cpu_id := 0, age_ticks := 0\<rparr>)
    (upd_task ?o (\<lambda>t. t\<lparr>cpu_id := -1\<rparr>) ?s2))"
  have k: "k < MAX_TASKS" "eligible s k" "k \<noteq> ?o"
    using assms(5) by (auto simp: candidates_def eligible_def)
  have len: "length (tasks s) = MAX_TASKS" "?o < MAX_TASKS" using assms(1) by (auto simp: tasks_wf_def)
  have nk: "\<not> ages (int k) ?s1 k" by (simp add: ages_def)
  have tk: "the_task ?s2 k = the_task s k"
    using k nk assms(1) by (simp add: the_task_age_all)
  have t3: "the_task ?s3 k = (the_task s k)\<lparr>cpu_id := 0, age_ticks := 0\<rparr>"
    using k len tk by (simp add: the_task_upd_task)
  have r: "task_switch fninit s c = (?s3\<lparr>current_task := k\<rparr>,
      load_context k (?s3\<lparr>current_task := k\<rparr>)
       ((fpu_restore fninit k ?s3 (c\<lparr>current_rsp := Some ?o, next_rsp := Some k\<rparr>))
         \<lparr>tss_rsp0 := stacks_base s + k * STACK_SIZE + STACK_SIZE,
          syscall_kstack := stacks_base s + k * STACK_SIZE + STACK_SIZE\<rparr>))"
    using assms(2,4) k tk countdown_over [OF assms(3)]
    by (simp add: task_switch_def Let_def eligible_def)
  have s': "s' = ?s3\<lparr>current_task := k\<rparr>" and c': "c' = load_context k (?s3\<lparr>current_task := k\<rparr>)
       ((fpu_restore fninit k ?s3 (c\<lparr>current_rsp := Some ?o, next_rsp := Some k\<rparr>))
         \<lparr>tss_rsp0 := stacks_base s + k * STACK_SIZE + STACK_SIZE,
          syscall_kstack := stacks_base s + k * STACK_SIZE + STACK_SIZE\<rparr>)"
    using r [unfolded assms(6)] by (simp_all only: prod.inject)
  show "current_task s' = k" "length (tasks s') = MAX_TASKS" "task_count s' = task_count s"
    "has_ap s' = has_ap s" "current_task_ap s' = current_task_ap s" "tasks_wf s'"
    using assms(1) k(1) len by (simp_all add: s' tasks_wf_def age_all_def reset_slice_def
        task_tick_countdown_or_reset_def Let_def)
  show "current_rsp c' = Some ?o" "next_rsp c' = Some k"
    "fpu c' = (if fpu_valid (the_task s k) then fpu_state (the_task s k) else fninit (fpu c))"
    "cr3 c' = (if page_dir (the_task s k) \<noteq> 0 then page_dir (the_task s k) else cr3 c)"
    "tss_rsp0 c' = stacks_base s + k * STACK_SIZE + STACK_SIZE"
    "syscall_kstack c' = stacks_base s + k * STACK_SIZE + STACK_SIZE"
    using t3 by (simp_all add: c' load_context_def fpu_restore_def)
  show "j < MAX_TASKS \<Longrightarrow> the_task s' j = switched s k (fpu c) j"
    using k len assms(1)
    by (auto simp: s' switched_def Let_def the_task_upd_task the_task_age_all ages_reset_slice)
      (auto simp: ages_def)
qed

lemma task_switch_picks:
  assumes "tasks_wf s" "nice_wf s" "2 \<le> task_count s" "slice_over s" "candidates s \<noteq> {}"
    "task_switch fninit s c = (s', c')"
  shows "\<exists>k\<in>candidates s. task_key s k = Max (task_key s ` candidates s) \<and>
    pick_best (reset_slice s) = int k \<and> current_task s' = k \<and>
    (\<forall>j<MAX_TASKS. the_task s' j = switched s k (fpu c) j)"
proof -
  from pick_best_max [of "reset_slice s"] nice_wf_reset_slice assms(1,2,5) obtain k where
    k: "k \<in> candidates s" "pick_best (reset_slice s) = int k"
    and m: "task_key (reset_slice s) k = Max (task_key (reset_slice s) ` candidates s)"
    by auto
  have "task_key (reset_slice s) ` candidates s = task_key s ` candidates s"
    using task_key_reset_slice by (intro image_cong) auto
  with m k(1) task_key_reset_slice have "task_key s k = Max (task_key s ` candidates s)" by simp
  with task_switch_eq [OF assms(1,3,4) k(2,1) assms(6)] k show ?thesis by auto
qed

text \<open>
  C6. The boot processor runs the best candidate: when the running task's slice is over and some
  task can run, \<open>task_switch\<close> dispatches the candidate with the highest score, the lowest slot
  among equals. The leaving task goes back to the pool with the FPU image of the processor saved,
  the chosen one is claimed by processor 0 with its age reset, and the processor gets that
  task's FPU image, page tables and kernel stack.
\<close>

theorem task_switch_picks_max:
  assumes "tasks_wf s" "nice_wf s" "2 \<le> task_count s" "slice_over s" "candidates s \<noteq> {}"
    "task_switch fninit s c = (s', c')"
  shows "\<exists>k\<in>candidates s. task_key s k = Max (task_key s ` candidates s) \<and>
    current_task s' = k \<and> next_rsp c' = Some k \<and> current_rsp c' = Some (current_task s) \<and>
    (\<forall>j<MAX_TASKS. the_task s' j = switched s k (fpu c) j) \<and>
    fpu c' = (if fpu_valid (the_task s k) then fpu_state (the_task s k) else fninit (fpu c)) \<and>
    (page_dir (the_task s k) \<noteq> 0 \<longrightarrow> cr3 c' = page_dir (the_task s k)) \<and>
    tss_rsp0 c' = stacks_base s + k * STACK_SIZE + STACK_SIZE"
proof -
  from task_switch_picks [OF assms] obtain k where k: "k \<in> candidates s"
    "task_key s k = Max (task_key s ` candidates s)" "pick_best (reset_slice s) = int k" by auto
  from task_switch_eq [OF assms(1,3,4) k(3,1) assms(6)] k(1,2) show ?thesis by auto
qed

definition demo_tasks :: task_state where
  "demo_tasks = boot_tasks\<lparr>task_count := 3, tasks := (tasks boot_tasks)
     [0 := zero_task\<lparr>used := True, priority := 1\<rparr>,
      1 := zero_task\<lparr>used := True, priority := 1, cpu_id := -1\<rparr>,
      2 := zero_task\<lparr>used := True, priority := 2, cpu_id := -1, is_user := True\<rparr>]\<rparr>"

definition demo_cpu :: cpu where
  "demo_cpu = \<lparr>fpu = [1], cr3 = 0x1000, fs_base = 0, tss_rsp0 = 0, syscall_kstack = 0,
     current_rsp = None, next_rsp = None\<rparr>"

lemma demo_tasks_nth:
  assumes "i < MAX_TASKS"
  shows "the_task demo_tasks i =
     (if i = 0 then zero_task\<lparr>used := True, priority := 1\<rparr>
      else if i = 1 then zero_task\<lparr>used := True, priority := 1, cpu_id := -1\<rparr>
      else if i = 2 then zero_task\<lparr>used := True, priority := 2, cpu_id := -1, is_user := True\<rparr>
      else zero_task)"
  using assms by (auto simp: demo_tasks_def boot_tasks_def nth_list_update MAX_TASKS_def)

lemma demo_wf: "tasks_wf demo_tasks" "nice_wf demo_tasks" "slice_over demo_tasks"
    "2 \<le> task_count demo_tasks" "current_task demo_tasks = 0" "\<not> has_ap demo_tasks"
proof -
  show "tasks_wf demo_tasks" "2 \<le> task_count demo_tasks" "current_task demo_tasks = 0"
    "\<not> has_ap demo_tasks"
    by (simp_all add: demo_tasks_def boot_tasks_def tasks_wf_def MAX_TASKS_def)
  show "nice_wf demo_tasks"
    by (auto simp: nice_wf_def demo_tasks_nth zero_task_def)
  have "the_task demo_tasks 0 = zero_task\<lparr>used := True, priority := 1\<rparr>"
    using demo_tasks_nth [of 0] by (simp add: MAX_TASKS_def)
  then show "slice_over demo_tasks"
    using \<open>current_task demo_tasks = 0\<close> by (simp add: slice_over_def zero_task_def)
qed

lemma candidates_demo: "candidates demo_tasks = {1, 2}"
  using demo_wf(5,6)
  by (auto simp: candidates_def eligible_def demo_tasks_nth MAX_TASKS_def zero_task_def split: if_splits)

lemma demo_keys:
  "task_key demo_tasks 1 = Key 4 1" "task_key demo_tasks 2 = Key 8 2" "Max {Key 4 1, Key 8 2} = Key 8 2"
  using demo_tasks_nth [of 1] demo_tasks_nth [of 2]
  by (simp_all add: task_key_def sched_score_def zero_task_def MAX_TASKS_def max_def less_eq_sched_key_def)

lemma stacks_base_demo: "stacks_base demo_tasks = 0"
  by (simp add: demo_tasks_def boot_tasks_def)

lemma demo_switch: "current_task (fst (task_switch id demo_tasks demo_cpu)) = 2"
  using task_switch_picks [OF demo_wf(1,2,4,3), of id demo_cpu
      "fst (task_switch id demo_tasks demo_cpu)" "snd (task_switch id demo_tasks demo_cpu)"] demo_keys
  by (auto simp: candidates_demo)

theorem task_switch_picks_max_witness:
  "current_task (fst (task_switch id demo_tasks demo_cpu)) = 2 \<and>
   tss_rsp0 (snd (task_switch id demo_tasks demo_cpu)) = 3 * 8192"
  using task_switch_picks_max [OF demo_wf(1,2,4,3), of id demo_cpu
      "fst (task_switch id demo_tasks demo_cpu)" "snd (task_switch id demo_tasks demo_cpu)"] demo_keys
  by (auto simp: candidates_demo stacks_base_demo STACK_SIZE_def)

section \<open>No task starves\<close>

abbreviation age_of :: "task_state \<Rightarrow> nat \<Rightarrow> nat" where
  "age_of s j \<equiv> unat (age_ticks (the_task s j))"

text \<open>
  The state before a scheduling round in which task \<open>i\<close> waits: the slice is over, and the
  candidates have the priorities and nice values that \<open>task_set_priority\<close>, \<open>task_set_nice\<close> and
  the creating functions allow.
\<close>

definition round_ok :: "nat \<Rightarrow> task_state \<Rightarrow> bool" where
  "round_ok i s \<longleftrightarrow> tasks_wf s \<and> nice_wf s \<and> 2 \<le> task_count s \<and> slice_over s \<and>
     i \<in> candidates s \<and>
     (\<forall>j\<in>candidates s. 1 \<le> uint (priority (the_task s j)) \<and> uint (priority (the_task s j)) \<le> 3 \<and>
        -20 \<le> nice (the_task s j) \<and> nice (the_task s j) \<le> 19)"

text \<open>
  What may happen between two rounds: anything, as long as it does not touch the age of \<open>i\<close> and
  makes no other task older. No code but the scheduler raises an age.
\<close>

definition meanwhile :: "nat \<Rightarrow> task_state \<Rightarrow> task_state \<Rightarrow> bool" where
  "meanwhile i s s' \<longleftrightarrow> age_of s' i = age_of s i \<and> (\<forall>j<MAX_TASKS. age_of s' j \<le> age_of s j)"

lemma sched_score_age:
  "sched_score t = uint (priority t) * 4 - nice t + int (unat (age_ticks t) div 8)"
proof -
  have "uint (drop_bit 3 (age_ticks t)) = uint (age_ticks t) div 8"
    by (simp add: drop_bit_eq_div uint_div)
  then show ?thesis by (simp add: sched_score_def zdiv_int)
qed

lemma round_chooses:
  assumes "round_ok i s" "task_switch fninit s c = (s', c')"
  shows "current_task s' \<in> candidates s"
    "sched_score (the_task s i) \<le> sched_score (the_task s (current_task s'))"
    "age_of s' (current_task s') = 0"
    "j < MAX_TASKS \<Longrightarrow> age_of s' j \<le> age_of s j + 1"
    "current_task s' \<noteq> i \<Longrightarrow> age_of s i < 0xFFFFFFFF \<Longrightarrow> age_of s' i = age_of s i + 1"
proof -
  from assms(1) have h: "tasks_wf s" "nice_wf s" "2 \<le> task_count s" "slice_over s" "candidates s \<noteq> {}"
    and i: "i \<in> candidates s"
    by (auto simp: round_ok_def)
  from task_switch_picks [OF h assms(2)] obtain k where k: "k \<in> candidates s"
    "task_key s k = Max (task_key s ` candidates s)" "current_task s' = k"
    "\<And>j. j < MAX_TASKS \<Longrightarrow> the_task s' j = switched s k (fpu c) j" by auto
  show "current_task s' \<in> candidates s" using k by simp
  have "task_key s i \<le> task_key s k" using k(2) i by simp
  then show "sched_score (the_task s i) \<le> sched_score (the_task s (current_task s'))"
    using k(3) by (auto simp: task_key_def less_eq_sched_key_def)
  have kl: "k < MAX_TASKS" using k(1) by (simp add: candidates_def)
  then show "age_of s' (current_task s') = 0" using k(3,4) by (simp add: switched_def)
  have inc: "unat (a + 1) = unat a + 1" if "a < 0xFFFFFFFF" for a :: u32
    using that unat_add_lem [of a 1] by (simp add: word_less_nat_alt)
  show "age_of s' j \<le> age_of s j + 1" if "j < MAX_TASKS"
  proof (cases "j = current_task s")
    case True
    from that h(1) obtain n where "the_task (reset_slice s) j = (the_task s j)\<lparr>ticks := n\<rparr>"
      using the_task_reset_slice [of j s] by (auto simp: tasks_wf_def)
    with True that k(4) show ?thesis by (simp add: switched_def Let_def)
  next
    case False
    with that k(4) show ?thesis by (auto simp: switched_def Let_def older_def ages_def inc)
  qed
  assume "current_task s' \<noteq> i" and lt: "age_of s i < 0xFFFFFFFF"
  then have "ages (int k) s i"
    using i k(3) by (auto simp: ages_def candidates_def eligible_def word_less_nat_alt)
  moreover have "i \<noteq> current_task s" "i < MAX_TASKS" using i by (auto simp: candidates_def eligible_def)
  ultimately show "age_of s' i = age_of s i + 1"
    using k(3,4) \<open>current_task s' \<noteq> i\<close> inc by (simp add: switched_def Let_def older_def ages_def)
qed

text \<open>The rounds of a run: the state before each, and what lies between them.\<close>

definition waiting_run ::
    "(bytes \<Rightarrow> bytes) \<Rightarrow> nat \<Rightarrow> (nat \<Rightarrow> task_state) \<Rightarrow> (nat \<Rightarrow> cpu) \<Rightarrow> bool" where
  "waiting_run fninit i ss cs \<longleftrightarrow> (\<forall>k. round_ok i (ss k) \<and>
     (let s' = fst (task_switch fninit (ss k) (cs k))
      in current_task s' \<noteq> i \<longrightarrow> meanwhile i s' (ss (Suc k))))"

abbreviation chosen :: "(bytes \<Rightarrow> bytes) \<Rightarrow> (nat \<Rightarrow> task_state) \<Rightarrow> (nat \<Rightarrow> cpu) \<Rightarrow> nat \<Rightarrow> nat" where
  "chosen fninit ss cs k \<equiv> current_task (fst (task_switch fninit (ss k) (cs k)))"

lemma waiting_run_round:
  assumes "waiting_run fninit i ss cs"
  shows "round_ok i (ss k)"
    "chosen fninit ss cs k \<noteq> i \<Longrightarrow> meanwhile i (fst (task_switch fninit (ss k) (cs k))) (ss (Suc k))"
  using assms by (auto simp: waiting_run_def Let_def)

text \<open>While \<open>i\<close> is passed over, it grows older by one in each round.\<close>

lemma waiting_age:
  assumes run: "waiting_run fninit i ss cs" and fresh: "age_of (ss 0) i < 2 ^ 31"
    and skipped: "\<And>k. k < N \<Longrightarrow> chosen fninit ss cs k \<noteq> i" and N: "N < 2 ^ 31"
  shows "k \<le> N \<Longrightarrow> age_of (ss k) i = age_of (ss 0) i + k"
proof (induction k)
  case (Suc k)
  let ?r = "task_switch fninit (ss k) (cs k)"
  from Suc.prems skipped have ne: "chosen fninit ss cs k \<noteq> i" by simp
  from Suc have ih: "age_of (ss k) i = age_of (ss 0) i + k" by simp
  with fresh N Suc.prems have "age_of (ss k) i < 0xFFFFFFFF" by simp
  with round_chooses(5) [OF waiting_run_round(1) [OF run, of k], of fninit "cs k" "fst ?r" "snd ?r"] ne
  have "age_of (fst ?r) i = age_of (ss k) i + 1" by simp
  with waiting_run_round(2) [OF run ne] ih show ?case by (simp add: meanwhile_def)
qed simp

text \<open>A task that was chosen comes back with age 0 and gains at most one per round.\<close>

lemma rival_age:
  assumes run: "waiting_run fninit i ss cs"
    and skipped: "\<And>k. k < N \<Longrightarrow> chosen fninit ss cs k \<noteq> i"
    and j: "chosen fninit ss cs k = j" "k + m < N"
  shows "age_of (ss (Suc k + m)) j \<le> m"
  using j(2)
proof (induction m)
  case 0
  let ?r = "task_switch fninit (ss k) (cs k)"
  note rc = round_chooses [OF waiting_run_round(1) [OF run, of k], of fninit "cs k" "fst ?r" "snd ?r"]
  from rc(1) j(1) have "j < MAX_TASKS" by (auto simp: candidates_def)
  with rc(3) j(1) waiting_run_round(2) [OF run skipped, of k] 0 show ?case
    by (simp add: meanwhile_def) (metis le_zero_eq)
next
  case (Suc m)
  let ?k = "Suc k + m"
  let ?r = "task_switch fninit (ss ?k) (cs ?k)"
  have "j < MAX_TASKS"
    using round_chooses(1) [OF waiting_run_round(1) [OF run, of k], of fninit "cs k"
        "fst (task_switch fninit (ss k) (cs k))" "snd (task_switch fninit (ss k) (cs k))"] j(1)
    by (auto simp: candidates_def)
  moreover from this have "age_of (fst ?r) j \<le> age_of (ss ?k) j + 1"
    using round_chooses(4) [OF waiting_run_round(1) [OF run, of ?k], of fninit "cs ?k" "fst ?r" "snd ?r" j]
    by simp
  moreover have "meanwhile i (fst ?r) (ss (Suc ?k))"
    using Suc.prems by (intro waiting_run_round(2) [OF run] skipped) simp
  ultimately show ?case
    using Suc by (fastforce simp: meanwhile_def)
qed

text \<open>
  C1. No task starves on the boot processor: a task that stays ready is dispatched within 440
  scheduling rounds, whatever the other tasks do in between (run, block, sleep, be created or
  killed). After 408 rounds its age outweighs every priority and nice value the kernel allows,
  and from then on no other task can be dispatched twice before it.
\<close>

theorem no_starvation:
  assumes run: "waiting_run fninit i ss cs" and fresh: "age_of (ss 0) i < 2 ^ 31"
  shows "\<exists>k<440. chosen fninit ss cs k = i"
proof (rule ccontr)
  assume "\<not> ?thesis"
  then have skipped: "\<And>k. k < 440 \<Longrightarrow> chosen fninit ss cs k \<noteq> i" by blast
  let ?ch = "chosen fninit ss cs"
  have rc: "?ch k \<in> candidates (ss k)"
    "sched_score (the_task (ss k) i) \<le> sched_score (the_task (ss k) (?ch k))" for k
    using round_chooses(1,2) [OF waiting_run_round(1) [OF run, of k], of fninit "cs k"
        "fst (task_switch fninit (ss k) (cs k))" "snd (task_switch fninit (ss k) (cs k))"] by auto
  have i: "i \<in> candidates (ss k)" for k
    using waiting_run_round(1) [OF run, of k] by (simp add: round_ok_def)
  have "?ch ` {408..<440} \<subseteq> {0..<MAX_TASKS} - {i}"
  proof
    fix x assume "x \<in> ?ch ` {408..<440}"
    then obtain k where "x = ?ch k" "k < 440" by auto
    with rc(1) [of k] skipped [of k] show "x \<in> {0..<MAX_TASKS} - {i}" by (simp add: candidates_def)
  qed
  moreover have "card ({0..<MAX_TASKS} - {i}) = 31"
    using i by (simp add: candidates_def MAX_TASKS_def)
  ultimately have "card (?ch ` {408..<440}) < card {408..<440::nat}"
    using card_mono [of "{0..<MAX_TASKS} - {i}" "?ch ` {408..<440}"] by simp
  then have "\<not> inj_on ?ch {408..<440}" by (rule pigeonhole)
  then obtain k1 k2 where k: "408 \<le> k1" "k1 < k2" "k2 < 440" "?ch k1 = ?ch k2"
    unfolding inj_on_def by (metis atLeastLessThan_iff linorder_neqE_nat)
  let ?j = "?ch k2"
  have "age_of (ss k2) ?j \<le> 31"
    using rival_age [where N = 440 and m = "k2 - Suc k1", OF run skipped k(4)] k by fastforce
  then have j_age: "age_of (ss k2) ?j div 8 \<le> 3" using div_le_mono [of _ 31 8] by fastforce
  have "408 \<le> age_of (ss k2) i"
    using waiting_age [where N = 440 and k = k2, OF run fresh skipped] k by simp
  then have i_age: "51 \<le> age_of (ss k2) i div 8" using div_le_mono [of 408 _ 8] by fastforce
  have par: "1 \<le> uint (priority (the_task (ss k2) l)) \<and> uint (priority (the_task (ss k2) l)) \<le> 3 \<and>
      -20 \<le> nice (the_task (ss k2) l) \<and> nice (the_task (ss k2) l) \<le> 19"
    if "l \<in> candidates (ss k2)" for l
    using waiting_run_round(1) [OF run, of k2] that by (simp add: round_ok_def)
  show False
    using rc(2) [of k2] par [OF i] par [OF rc(1)] i_age j_age unfolding sched_score_age by linarith
qed

theorem no_starvation_witness:
  "\<exists>k<440. chosen id (\<lambda>_. demo_tasks) (\<lambda>_. demo_cpu) k = 2"
proof -
  have "chosen id (\<lambda>_. demo_tasks) (\<lambda>_. demo_cpu) k = 2" for k by (rule demo_switch)
  moreover have "round_ok 2 demo_tasks"
    using demo_wf demo_tasks_nth [of 1] demo_tasks_nth [of 2]
    by (simp add: round_ok_def candidates_demo MAX_TASKS_def zero_task_def)
  moreover have "age_of demo_tasks 2 < 2 ^ 31"
    using demo_tasks_nth [of 2] by (simp add: MAX_TASKS_def zero_task_def)
  ultimately show ?thesis
    using no_starvation [of id 2 "\<lambda>_. demo_tasks" "\<lambda>_. demo_cpu"] by (simp add: waiting_run_def Let_def)
qed

section \<open>No task runs on two processors\<close>

text \<open>
  The claims of the two processors: the task each of them runs carries its number, unless the
  task has ended in the meantime.
\<close>

definition sched_excl :: "task_state \<Rightarrow> bool" where
  "sched_excl s \<longleftrightarrow> tasks_wf s \<and> current_task_ap s < int MAX_TASKS \<and>
     (used (the_task s (current_task s)) \<longrightarrow> cpu_id (the_task s (current_task s)) = 0) \<and>
     (current_task_ap s \<ge> 0 \<longrightarrow> used (the_task s (nat (current_task_ap s))) \<longrightarrow>
        cpu_id (the_task s (nat (current_task_ap s))) = 1)"

text \<open>A change that leaves every claim alone.\<close>

definition same_claims :: "task_state \<Rightarrow> task_state \<Rightarrow> bool" where
  "same_claims s s' \<longleftrightarrow> tasks_wf s' = tasks_wf s \<and> current_task s' = current_task s \<and>
     current_task_ap s' = current_task_ap s \<and>
     (\<forall>j<length (tasks s). used (the_task s' j) = used (the_task s j) \<and>
        cpu_id (the_task s' j) = cpu_id (the_task s j))"

lemma sched_excl_same: "sched_excl s \<Longrightarrow> same_claims s s' \<Longrightarrow> sched_excl s'"
  by (auto simp: sched_excl_def same_claims_def tasks_wf_def)

lemma same_claims_refl [simp]: "same_claims s s"
  by (simp add: same_claims_def)

lemma same_claims_trans:
  "same_claims s t \<Longrightarrow> same_claims t u \<Longrightarrow> length (tasks t) = length (tasks s) \<Longrightarrow> same_claims s u"
  by (simp add: same_claims_def)

lemma same_claims_upd:
  "(\<And>t. used (f t) = used t \<and> cpu_id (f t) = cpu_id t) \<Longrightarrow> same_claims s (upd_task i f s)"
  by (auto simp: same_claims_def the_task_upd_task)

lemma same_claims_countdown:
  "task_tick_countdown_or_reset tid s = (r, s') \<Longrightarrow> same_claims s s' \<and> length (tasks s') = length (tasks s)"
  by (auto simp: task_tick_countdown_or_reset_def Let_def same_claims_upd split: if_splits)

lemma same_claims_age_all: "tasks_wf s \<Longrightarrow> same_claims s (age_all b s)"
  by (auto simp: same_claims_def the_task_age_all tasks_wf_def)

lemma pick_loop_bound:
  "fst acc < int n \<Longrightarrow> \<forall>i\<in>set is. i < n \<Longrightarrow> fst (pick_loop s is acc) < int n"
  by (induction s "is" acc rule: pick_loop.induct) auto

lemma pick_best_bound: "pick_best s < int MAX_TASKS"
  unfolding pick_best_def by (intro pick_loop_bound) (auto simp: MAX_TASKS_def)

lemma sched_excl_dispatch:
  assumes "sched_excl s" "k < MAX_TASKS" "used (the_task s k)" "cpu_id (the_task s k) = -1"
    "k \<noteq> current_task s"
    "tasks_wf s'" "current_task s' = k" "current_task_ap s' = current_task_ap s"
    "\<And>j. j < MAX_TASKS \<Longrightarrow> used (the_task s' j) = used (the_task s j) \<and>
       cpu_id (the_task s' j) = (if j = k then 0 else if j = current_task s then -1
         else cpu_id (the_task s j))"
  shows "sched_excl s'"
  using assms unfolding sched_excl_def tasks_wf_def
  by (cases "0 \<le> current_task_ap s") (auto simp: nat_less_iff)

lemma task_switch_excl:
  assumes "sched_excl s"
  shows "sched_excl (fst (task_switch fninit s c))"
proof (cases "task_count s < 2")
  case True
  with assms show ?thesis by (simp add: task_switch_def Let_def)
next
  case False
  obtain r s1 where cd: "task_tick_countdown_or_reset (int (current_task s)) s = (r, s1)" by fastforce
  let ?s2 = "age_all (pick_best s1) s1"
  let ?k = "nat (pick_best s1)"
  note e1 = sched_excl_same [OF assms conjunct1 [OF same_claims_countdown [OF cd]]]
  then have e2: "sched_excl ?s2"
    by (rule sched_excl_same) (use e1 in \<open>auto simp: same_claims_age_all sched_excl_def\<close>)
  show ?thesis
  proof (cases "r \<or> pick_best s1 < 0 \<or> \<not> used (the_task ?s2 ?k) \<or>
      status (the_task ?s2 ?k) \<noteq> TASK_RUNNING \<or> cpu_id (the_task ?s2 ?k) \<noteq> -1 \<or> ?k = current_task ?s2")
    case True
    with cd False e1 e2 show ?thesis by (auto simp: task_switch_def Let_def)
  next
    case ok: False
    have "?k < MAX_TASKS" using ok pick_best_bound [of s1] by auto
    moreover have "length (tasks ?s2) = MAX_TASKS" "current_task ?s2 < MAX_TASKS" "tasks_wf ?s2"
      using e2 by (auto simp: sched_excl_def tasks_wf_def)
    ultimately show ?thesis
      using cd False ok
      by (intro sched_excl_dispatch [OF e2, of ?k])
        (auto simp: task_switch_def Let_def the_task_upd_task tasks_wf_def)
  qed
qed

lemma ap_scan_found:
  "ap_scan P nxt n = (True, k) \<Longrightarrow> nxt < MAX_TASKS \<Longrightarrow> P k \<and> k < MAX_TASKS"
  by (induction n arbitrary: nxt) (auto simp: MAX_TASKS_def split: if_splits)

lemma ap_pick_found:
  assumes "ap_pick idx s = (True, k)"
  shows "k < MAX_TASKS \<and> used (the_task s k) \<and> (cpu_id (the_task s k) = idx \<or> cpu_id (the_task s k) = -1)"
proof -
  define start where
    "start = (if current_task_ap s \<ge> 0 then (nat (current_task_ap s) + 1) mod MAX_TASKS else 0)"
  have "start < MAX_TASKS" by (simp add: start_def MAX_TASKS_def)
  with assms ap_scan_found [of "ap_assigned idx s" start MAX_TASKS k]
    ap_scan_found [of "ap_stealable s" start MAX_TASKS k]
  show ?thesis
    by (auto simp: ap_pick_def start_def [symmetric] Let_def ap_assigned_def ap_stealable_def
        split: prod.splits if_splits)
qed

lemma task_switch_ap_excl:
  assumes "sched_excl s"
  shows "sched_excl (fst (task_switch_ap fninit 1 s c))"
proof (cases "task_count s < 1")
  case True
  with assms show ?thesis by (simp add: task_switch_ap_def Let_def)
next
  case False
  obtain r s1 where cd: "task_tick_countdown_or_reset (current_task_ap s) s = (r, s1)" by fastforce
  have e1: "sched_excl s1"
    using sched_excl_same [OF assms conjunct1 [OF same_claims_countdown [OF cd]]] .
  have ap: "current_task_ap s1 = current_task_ap s"
    using same_claims_countdown [OF cd] by (simp add: same_claims_def)
  obtain found k where p: "ap_pick 1 s1 = (found, k)" by fastforce
  have len: "length (tasks s1) = MAX_TASKS" "current_task s1 < MAX_TASKS" "length (exit_codes s1) = MAX_TASKS"
    using e1 by (auto simp: sched_excl_def tasks_wf_def)
  show ?thesis
  proof (cases "r \<or> \<not> found \<or> int k = current_task_ap s1")
    case True
    have "sched_excl (ap_claim (current_task_ap s1) 1 s1)"
      using e1 len by (auto simp: sched_excl_def ap_claim_def the_task_upd_task tasks_wf_def)
    with True cd False e1 p ap show ?thesis by (auto simp: task_switch_ap_def Let_def)
  next
    case go: False
    with p ap_pick_found [of 1 s1 k] have k: "k < MAX_TASKS" "used (the_task s1 k)"
      "cpu_id (the_task s1 k) = 1 \<or> cpu_id (the_task s1 k) = -1" by auto
    have "k \<noteq> current_task s1" using k e1 by (auto simp: sched_excl_def)
    with cd False go p ap k len e1 show ?thesis
      by (auto simp: task_switch_ap_def Let_def sched_excl_def tasks_wf_def ap_claim_def the_task_upd_task
          nat_less_iff)
  qed
qed

text \<open>The events of the two processors and of the tasks that concern claims, and their runs.\<close>

inductive sched_step :: "(bytes \<Rightarrow> bytes) \<Rightarrow> task_state \<times> cpu \<times> cpu \<Rightarrow> task_state \<times> cpu \<times> cpu \<Rightarrow> bool"
  for fninit where
  bsp: "task_switch fninit s c0 = (s', c0') \<Longrightarrow> sched_step fninit (s, c0, c1) (s', c0', c1)"
| ap: "task_switch_ap fninit 1 s c1 = (s', c1') \<Longrightarrow> sched_step fninit (s, c0, c1) (s', c0, c1')"
| timer: "sched_step fninit (s, c0, c1) (timer_irq s, c0, c1)"
| block: "sched_step fninit (s, c0, c1) (task_block s, c0, c1)"
| unblock: "sched_step fninit (s, c0, c1) (task_unblock t s, c0, c1)"
| yield: "sched_step fninit (s, c0, c1) (task_yield s, c0, c1)"
| sleep: "sched_step fninit (s, c0, c1) (task_sleep ms s, c0, c1)"
| signal: "sched_step fninit (s, c0, c1) (task_send_signal t sig s, c0, c1)"

inductive_cases sched_stepE: "sched_step fninit (s, c0, c1) (s', c0', c1')"

lemma same_claims_unblock: "same_claims s (task_unblock t s)"
  by (auto simp: task_unblock_def same_claims_upd)

lemma same_claims_signal: "same_claims s (task_send_signal t sig s)"
  unfolding task_send_signal_def Let_def
  by (auto simp: same_claims_upd intro!: same_claims_trans [OF same_claims_upd same_claims_unblock])

lemma length_tasks_signal [simp]: "length (tasks (task_send_signal t sig s)) = length (tasks s)"
  by (simp add: task_send_signal_def Let_def)

lemma same_claims_itimer_slot:
  "same_claims s (itimer_slot i s) \<and> length (tasks (itimer_slot i s)) = length (tasks s)"
  unfolding itimer_slot_def Let_def
  by (auto simp: same_claims_upd
      intro!: same_claims_trans [OF same_claims_trans [OF same_claims_upd same_claims_signal] same_claims_upd])

lemma same_claims_fold_itimer:
  "same_claims s (fold itimer_slot is s) \<and> length (tasks (fold itimer_slot is s)) = length (tasks s)"
proof (induction "is" arbitrary: s)
  case (Cons i "is")
  with same_claims_itimer_slot [of s i] same_claims_trans show ?case by fastforce
qed simp

lemma same_claims_timer: "same_claims s (timer_irq s)"
proof -
  let ?s1 = "task_check_sleepers (s\<lparr>tick := tick s + 1\<rparr>)"
  have "same_claims s ?s1" "length (tasks ?s1) = length (tasks s)"
    by (auto simp: same_claims_def task_check_sleepers_def tasks_wf_def)
  with same_claims_fold_itimer [of ?s1 "[0..<MAX_TASKS]"] show ?thesis
    by (simp add: timer_irq_def timer_handler_def Let_def task_itimer_tick_def same_claims_trans)
qed

lemma sched_step_excl:
  assumes "sched_step fninit (s, c0, c1) (s', c0', c1')" "sched_excl s"
  shows "sched_excl s'"
  using assms(1)
proof cases
  case bsp
  with task_switch_excl [OF assms(2), of fninit c0] show ?thesis by simp
next
  case ap
  with task_switch_ap_excl [OF assms(2), of fninit c1] show ?thesis by simp
qed (use assms(2) in \<open>auto intro!: sched_excl_same [OF assms(2)] same_claims_upd same_claims_timer
    same_claims_unblock same_claims_signal simp: task_block_def task_yield_def task_sleep_def Let_def\<close>)



end
