(* ===== verification/Pmm.thy ===== *)
theory Pmm
  imports Prelude
begin

text \<open>
  The physical frame allocator, first part of \<open>src/kernel/vmm.c\<close>: one bit per 4 KB frame of the
  64 MB the kernel manages, the first 2048 frames (kernel image, heap, boot page tables) set for
  good. The bitmap refines the set of frames in use. What the page-table code relies on is the
  interface \<open>frame_allocator\<close>.
\<close>

unbundle bit_operations_syntax

section \<open>State and operations\<close>

definition PAGE_SIZE :: nat where "PAGE_SIZE = 4096"
definition TOTAL_FRAMES :: nat where "TOTAL_FRAMES = 16384"
definition KERNEL_RESERVED_FRAMES :: nat where "KERNEL_RESERVED_FRAMES = 2048"

type_synonym bitmap = "u8 list"

definition bitmap_set :: "nat \<Rightarrow> bitmap \<Rightarrow> bitmap" where
  "bitmap_set frame bm = bm[frame div 8 := bm ! (frame div 8) OR push_bit (frame mod 8) 1]"

definition bitmap_clear :: "nat \<Rightarrow> bitmap \<Rightarrow> bitmap" where
  "bitmap_clear frame bm = bm[frame div 8 := bm ! (frame div 8) AND NOT (push_bit (frame mod 8) 1)]"

definition bitmap_test :: "nat \<Rightarrow> bitmap \<Rightarrow> bool" where
  "bitmap_test frame bm \<longleftrightarrow> bm ! (frame div 8) AND push_bit (frame mod 8) 1 \<noteq> 0"

definition pmm_init :: "bitmap \<Rightarrow> bitmap" where
  "pmm_init bm = fold bitmap_set [0..<KERNEL_RESERVED_FRAMES] (map (\<lambda>_. 0) bm)"

text \<open>The address of a fresh frame, or 0.\<close>

definition pmm_alloc_frame :: "bitmap \<Rightarrow> nat \<times> bitmap" where
  "pmm_alloc_frame bm =
     (case find (\<lambda>i. \<not> bitmap_test i bm) [KERNEL_RESERVED_FRAMES..<TOTAL_FRAMES] of
        None \<Rightarrow> (0, bm)
      | Some i \<Rightarrow> (i * PAGE_SIZE, bitmap_set i bm))"

text \<open>The frame number is cut to 32 bits.\<close>

definition pmm_free_frame :: "nat \<Rightarrow> bitmap \<Rightarrow> bitmap" where
  "pmm_free_frame addr bm =
     (let frame = addr div PAGE_SIZE mod 2 ^ 32
      in if frame \<ge> KERNEL_RESERVED_FRAMES \<and> frame < TOTAL_FRAMES then bitmap_clear frame bm else bm)"

definition pmm_free_count :: "bitmap \<Rightarrow> nat" where
  "pmm_free_count bm =
     length (filter (\<lambda>i. \<not> bitmap_test i bm) [KERNEL_RESERVED_FRAMES..<TOTAL_FRAMES])"

section \<open>The bitmap as a set\<close>

definition bitmap_wf :: "bitmap \<Rightarrow> bool" where
  "bitmap_wf bm \<longleftrightarrow> length bm = TOTAL_FRAMES div 8"

definition frames_used :: "bitmap \<Rightarrow> nat set" where
  "frames_used bm = {f. f < TOTAL_FRAMES \<and> bitmap_test f bm}"

lemma bitmap_test_bit: "bitmap_test f bm \<longleftrightarrow> bit (bm ! (f div 8)) (f mod 8)"
  by (simp add: bitmap_test_def push_bit_of_1 and_exp_eq_0_iff_not_bit)

lemma div_mod_eq_iff: "(f::nat) div 8 = g div 8 \<and> f mod 8 = g mod 8 \<longleftrightarrow> f = g"
  by (metis div_mult_mod_eq)

lemma bitmap_test_set:
  assumes "f div 8 < length bm"
  shows "bitmap_test g (bitmap_set f bm) \<longleftrightarrow> g = f \<or> bitmap_test g bm"
proof (cases "g div 8 = f div 8")
  case True
  then have "bitmap_test g (bitmap_set f bm) \<longleftrightarrow> bit (bm ! (f div 8)) (g mod 8) \<or> g mod 8 = f mod 8"
    using assms by (auto simp: bitmap_test_bit bitmap_set_def bit_simps)
  with True div_mod_eq_iff [of g f] show ?thesis by (auto simp: bitmap_test_bit)
next
  case False
  then show ?thesis by (auto simp: bitmap_test_bit bitmap_set_def)
qed

lemma bitmap_test_clear:
  assumes "f div 8 < length bm"
  shows "bitmap_test g (bitmap_clear f bm) \<longleftrightarrow> g \<noteq> f \<and> bitmap_test g bm"
proof (cases "g div 8 = f div 8")
  case True
  then have "bitmap_test g (bitmap_clear f bm) \<longleftrightarrow> bit (bm ! (f div 8)) (g mod 8) \<and> g mod 8 \<noteq> f mod 8"
    using assms by (auto simp: bitmap_test_bit bitmap_clear_def bit_simps)
  with True div_mod_eq_iff [of g f] show ?thesis by (auto simp: bitmap_test_bit)
next
  case False
  then show ?thesis by (auto simp: bitmap_test_bit bitmap_clear_def)
qed

lemma frames_used_set:
  assumes "bitmap_wf bm" "f < TOTAL_FRAMES"
  shows "frames_used (bitmap_set f bm) = insert f (frames_used bm)" "bitmap_wf (bitmap_set f bm)"
  using assms by (auto simp: frames_used_def bitmap_test_set bitmap_wf_def TOTAL_FRAMES_def)
    (simp add: bitmap_set_def)

lemma frames_used_clear:
  assumes "bitmap_wf bm" "f < TOTAL_FRAMES"
  shows "frames_used (bitmap_clear f bm) = frames_used bm - {f}" "bitmap_wf (bitmap_clear f bm)"
  using assms by (auto simp: frames_used_def bitmap_test_clear bitmap_wf_def TOTAL_FRAMES_def)
    (simp add: bitmap_clear_def)

lemma frames_used_init:
  assumes "bitmap_wf bm"
  shows "frames_used (pmm_init bm) = {0..<KERNEL_RESERVED_FRAMES} \<and> bitmap_wf (pmm_init bm)"
proof -
  let ?z = "map (\<lambda>_. 0) bm :: bitmap"
  have z: "bitmap_wf ?z" using assms by (simp add: bitmap_wf_def)
  have e: "frames_used ?z = {}"
    using assms by (auto simp: frames_used_def bitmap_test_bit bitmap_wf_def TOTAL_FRAMES_def)
  have "frames_used (fold bitmap_set [0..<n] ?z) = {0..<n} \<and> bitmap_wf (fold bitmap_set [0..<n] ?z)"
    if "n \<le> TOTAL_FRAMES" for n
    using that by (induction n) (auto simp: e z frames_used_set atLeastLessThanSuc)
  then show ?thesis by (simp add: pmm_init_def KERNEL_RESERVED_FRAMES_def TOTAL_FRAMES_def)
qed

section \<open>The interface of the frame allocator\<close>

text \<open>
  A pool of frame numbers of which those in \<open>managed\<close> can be handed out. Address 0 is the failure
  value, so no managed frame may have it.
\<close>

locale frame_allocator =
  fixes alloc :: "'s \<Rightarrow> nat \<times> 's"
    and release :: "nat \<Rightarrow> 's \<Rightarrow> 's"
    and in_use :: "'s \<Rightarrow> nat set"
    and wf :: "'s \<Rightarrow> bool"
    and managed :: "nat set"
    and fsize :: nat
  assumes managed: "finite managed" "0 \<notin> managed" "0 < fsize"
    and alloc_ok: "wf s \<Longrightarrow> alloc s = (a, s') \<Longrightarrow> a \<noteq> 0 \<Longrightarrow>
      \<exists>f\<in>managed - in_use s. a = f * fsize \<and> in_use s' = insert f (in_use s) \<and> wf s'"
    and alloc_fail: "wf s \<Longrightarrow> alloc s = (0, s') \<Longrightarrow> managed \<subseteq> in_use s \<and> s' = s"
    and release_ok: "wf s \<Longrightarrow> f \<in> managed \<Longrightarrow> in_use (release (f * fsize) s) = in_use s - {f} \<and>
      wf (release (f * fsize) s)"
begin

definition available :: "'s \<Rightarrow> nat set" where
  "available s = managed - in_use s"

lemma alloc_available:
  assumes "wf s" "alloc s = (a, s')"
  shows "a \<noteq> 0 \<longleftrightarrow> available s \<noteq> {}"
    and "a \<noteq> 0 \<Longrightarrow> \<exists>f. a = f * fsize \<and> f \<in> available s \<and> available s' = available s - {f} \<and> wf s'"
proof -
  show *: "\<exists>f. a = f * fsize \<and> f \<in> available s \<and> available s' = available s - {f} \<and> wf s'"
    if "a \<noteq> 0"
    using alloc_ok [OF assms that] by (auto simp: available_def)
  show "a \<noteq> 0 \<longleftrightarrow> available s \<noteq> {}"
    using * alloc_fail [OF assms(1)] assms(2) by (cases "a = 0") (auto simp: available_def)
qed

fun alloc_n :: "nat \<Rightarrow> 's \<Rightarrow> nat list \<times> 's" where
  "alloc_n 0 s = ([], s)"
| "alloc_n (Suc n) s = (let (a, s1) = alloc s; (as, s2) = alloc_n n s1 in (a # as, s2))"

text \<open>As long as the pool lasts, a series of allocations returns pairwise different frames.\<close>

lemma alloc_n_distinct:
  assumes "wf s" "n \<le> card (available s)" "alloc_n n s = (as, s')"
  shows "distinct as \<and> set as \<subseteq> (\<lambda>f. f * fsize) ` available s \<and>
    card (available s') = card (available s) - n \<and> wf s'"
  using assms
proof (induction n arbitrary: s as)
  case 0
  then show ?case by simp
next
  case (Suc n)
  obtain a s1 where a: "alloc s = (a, s1)" by fastforce
  obtain bs where bs: "alloc_n n s1 = (bs, s')" "as = a # bs"
    using Suc.prems(3) a by (auto split: prod.splits)
  have fin: "finite (available s)" using managed(1) by (simp add: available_def)
  from Suc.prems(2) have "available s \<noteq> {}" by auto
  with alloc_available [OF Suc.prems(1) a] obtain f where f: "a = f * fsize" "f \<in> available s"
    "available s1 = available s - {f}" "wf s1" by auto
  with Suc.IH [OF f(4) _ bs(1)] Suc.prems(2) fin
  have "distinct bs" "set bs \<subseteq> (\<lambda>f. f * fsize) ` (available s - {f})"
    "card (available s') = card (available s) - 1 - n" "wf s'" by auto
  with f bs(2) managed(3) show ?case by auto
qed

end

section \<open>The bitmap implements it\<close>

definition managed_frames :: "nat set" where
  "managed_frames = {KERNEL_RESERVED_FRAMES..<TOTAL_FRAMES}"

lemma pmm_alloc_frame_spec:
  assumes "bitmap_wf bm"
  shows "pmm_alloc_frame bm =
    (if managed_frames \<subseteq> frames_used bm then (0, bm)
     else let f = Min (managed_frames - frames_used bm) in (f * PAGE_SIZE, bitmap_set f bm))"
proof (cases "find (\<lambda>i. \<not> bitmap_test i bm) [KERNEL_RESERVED_FRAMES..<TOTAL_FRAMES]")
  case None
  then have "managed_frames \<subseteq> frames_used bm"
    by (auto simp: find_None_iff managed_frames_def frames_used_def)
  with None show ?thesis by (simp add: pmm_alloc_frame_def)
next
  case (Some i)
  let ?A = "managed_frames - frames_used bm"
  from Some obtain k where k: "k < TOTAL_FRAMES - KERNEL_RESERVED_FRAMES"
    "i = KERNEL_RESERVED_FRAMES + k" "\<not> bitmap_test i bm"
    and least: "\<And>j. j < k \<Longrightarrow> bitmap_test (KERNEL_RESERVED_FRAMES + j) bm"
    by (auto simp: find_Some_iff)
  then have i: "i \<in> ?A" by (auto simp: managed_frames_def frames_used_def)
  have "Min ?A = i"
  proof (rule Min_eqI)
    show "finite ?A" by (simp add: managed_frames_def)
    fix y assume y: "y \<in> ?A"
    then have "KERNEL_RESERVED_FRAMES \<le> y" "\<not> bitmap_test y bm"
      by (auto simp: managed_frames_def frames_used_def)
    with least [of "y - KERNEL_RESERVED_FRAMES"] k(2) show "i \<le> y"
      by (metis le_add_diff_inverse not_less add_less_cancel_left)
  qed (rule i)
  with Some i show ?thesis by (auto simp: pmm_alloc_frame_def)
qed

lemma pmm_free_frame_spec:
  assumes "bitmap_wf bm" "f < TOTAL_FRAMES"
  shows "pmm_free_frame (f * PAGE_SIZE + r mod PAGE_SIZE) bm =
    (if f \<in> managed_frames then bitmap_clear f bm else bm)"
proof -
  have "(f * PAGE_SIZE + r mod PAGE_SIZE) div PAGE_SIZE mod 2 ^ 32 = f"
    using assms(2) by (simp add: PAGE_SIZE_def TOTAL_FRAMES_def)
  then show ?thesis using assms(2) by (simp add: pmm_free_frame_def managed_frames_def)
qed

interpretation pmm: frame_allocator pmm_alloc_frame pmm_free_frame frames_used bitmap_wf
  managed_frames PAGE_SIZE
proof (unfold_locales, goal_cases)
  case (4 s a s')
  let ?A = "managed_frames - frames_used s"
  from 4 have "?A \<noteq> {}" by (auto simp: pmm_alloc_frame_spec split: if_splits)
  then have f: "Min ?A \<in> ?A" by (intro Min_in) (auto simp: managed_frames_def)
  then have "Min ?A < TOTAL_FRAMES" by (auto simp: managed_frames_def)
  moreover have "a = Min ?A * PAGE_SIZE" "s' = bitmap_set (Min ?A) s"
    using 4 \<open>?A \<noteq> {}\<close> by (auto simp: pmm_alloc_frame_spec Let_def)
  ultimately show ?case using f frames_used_set [OF 4(1)] by blast
next
  case (5 s s')
  let ?A = "managed_frames - frames_used s"
  have "0 < Min ?A * PAGE_SIZE" if "?A \<noteq> {}"
  proof -
    have "Min ?A \<in> ?A" using that by (intro Min_in) (auto simp: managed_frames_def)
    then show ?thesis by (auto simp: managed_frames_def KERNEL_RESERVED_FRAMES_def PAGE_SIZE_def)
  qed
  with 5 show ?case by (auto simp: pmm_alloc_frame_spec Let_def split: if_splits)
next
  case (6 s f)
  then show ?case
    using pmm_free_frame_spec [of s f 0] frames_used_clear [of s f] by (auto simp: managed_frames_def)
qed (auto simp: managed_frames_def KERNEL_RESERVED_FRAMES_def PAGE_SIZE_def)

lemma pmm_available:
  "pmm.available bm = {KERNEL_RESERVED_FRAMES..<TOTAL_FRAMES} - frames_used bm"
  unfolding pmm.available_def by (simp add: managed_frames_def)

lemma pmm_free_count_card: "bitmap_wf bm \<Longrightarrow> pmm_free_count bm = card (pmm.available bm)"
proof -
  have "distinct (filter (\<lambda>i. \<not> bitmap_test i bm) [KERNEL_RESERVED_FRAMES..<TOTAL_FRAMES])" by simp
  from distinct_card [OF this] have "pmm_free_count bm =
      card (set (filter (\<lambda>i. \<not> bitmap_test i bm) [KERNEL_RESERVED_FRAMES..<TOTAL_FRAMES]))"
    by (simp add: pmm_free_count_def)
  also have "set (filter (\<lambda>i. \<not> bitmap_test i bm) [KERNEL_RESERVED_FRAMES..<TOTAL_FRAMES]) =
      pmm.available bm"
    unfolding pmm_available by (auto simp: frames_used_def)
  finally show ?thesis .
qed

text \<open>
  Frames are handed out once. From a well-formed bitmap with at least \<open>n\<close> free frames, \<open>n\<close>
  calls of \<open>pmm_alloc_frame\<close> return \<open>n\<close> different frame addresses, all above the reserved 8 MB and
  below 64 MB and none of them in use before, and the free count drops by exactly \<open>n\<close>.
\<close>

theorem pmm_alloc_distinct:
  assumes "bitmap_wf bm" "n \<le> pmm_free_count bm" "pmm.alloc_n n bm = (as, bm')"
  shows "distinct as \<and> pmm_free_count bm' = pmm_free_count bm - n \<and>
    (\<forall>a\<in>set as. \<exists>f. a = f * PAGE_SIZE \<and> KERNEL_RESERVED_FRAMES \<le> f \<and> f < TOTAL_FRAMES \<and>
       f \<notin> frames_used bm)"
proof -
  have n: "n \<le> card (pmm.available bm)" using assms(1,2) by (simp add: pmm_free_count_card)
  from pmm.alloc_n_distinct [OF assms(1) n assms(3)]
  have d: "distinct as" "card (pmm.available bm') = card (pmm.available bm) - n" "bitmap_wf bm'"
    and sub: "set as \<subseteq> (\<lambda>f. f * PAGE_SIZE) ` pmm.available bm" by auto
  have "\<exists>f. a = f * PAGE_SIZE \<and> KERNEL_RESERVED_FRAMES \<le> f \<and> f < TOTAL_FRAMES \<and> f \<notin> frames_used bm"
    if "a \<in> set as" for a
    using that sub unfolding pmm_available by fastforce
  with d assms(1) show ?thesis by (simp add: pmm_free_count_card)
qed

lemma bitmap_wf_init: "bitmap_wf (pmm_init (replicate 2048 0))"
  using frames_used_init [of "replicate 2048 0"] by (simp add: bitmap_wf_def TOTAL_FRAMES_def)

theorem pmm_alloc_distinct_witness:
  "let bm = pmm_init (replicate 2048 0)
   in distinct (fst (pmm.alloc_n 3 bm)) \<and> pmm_free_count (snd (pmm.alloc_n 3 bm)) = 14333"
proof -
  let ?bm = "pmm_init (replicate 2048 0)"
  have "pmm.available ?bm = {KERNEL_RESERVED_FRAMES..<TOTAL_FRAMES}"
    using frames_used_init [of "replicate 2048 0"] unfolding pmm_available
    by (auto simp: bitmap_wf_def TOTAL_FRAMES_def)
  then have "pmm_free_count ?bm = 14336"
    by (simp add: pmm_free_count_card [OF bitmap_wf_init] KERNEL_RESERVED_FRAMES_def TOTAL_FRAMES_def)
  then show ?thesis
    using pmm_alloc_distinct [OF bitmap_wf_init, of 3 "fst (pmm.alloc_n 3 ?bm)" "snd (pmm.alloc_n 3 ?bm)"]
    by (simp del: pmm.alloc_n.simps)
qed

end
