(* ===== verification/Vmm.thy ===== *)
theory Vmm
  imports Pmm
begin

text \<open>
  Four-level page tables, second part of \<open>src/kernel/vmm.c\<close>. The tables live in physical memory,
  a function from addresses to bytes: the functions of the source run on the boot page tables,
  which map the first gigabyte to itself, so that a physical address is a pointer. Entries are
  read and written as 64-bit words, least significant byte first. The translation caches of the
  processor (\<open>invlpg\<close>, the reload of \<open>cr3\<close>) are outside the model.
\<close>

unbundle bit_operations_syntax

section \<open>Physical memory\<close>

type_synonym phys_mem = "nat \<Rightarrow> u8"

definition load64 :: "phys_mem \<Rightarrow> nat \<Rightarrow> u64" where
  "load64 m a = foldr (\<lambda>k acc. push_bit 8 acc OR ucast (m (a + k))) [0..<8] 0"

definition store64 :: "nat \<Rightarrow> u64 \<Rightarrow> phys_mem \<Rightarrow> phys_mem" where
  "store64 a v m = (\<lambda>x. if a \<le> x \<and> x < a + 8 then ucast (drop_bit (8 * (x - a)) v) else m x)"

record vm =
  mem :: phys_mem
  frame_bitmap :: bitmap
  frame_cow_cnt :: "u8 list"

definition alloc_frame :: "vm \<Rightarrow> nat \<times> vm" where
  "alloc_frame s = (let (p, bm) = pmm_alloc_frame (frame_bitmap s) in (p, s\<lparr>frame_bitmap := bm\<rparr>))"

definition free_frame :: "nat \<Rightarrow> vm \<Rightarrow> vm" where
  "free_frame p s = s\<lparr>frame_bitmap := pmm_free_frame p (frame_bitmap s)\<rparr>"

definition zero_frame :: "nat \<Rightarrow> phys_mem \<Rightarrow> phys_mem" where
  "zero_frame phys m = fold (\<lambda>i. store64 (phys + 8 * i) 0) [0..<PAGE_SIZE div 8] m"

definition vmm_zero_frame :: "nat \<Rightarrow> vm \<Rightarrow> vm" where
  "vmm_zero_frame phys s = s\<lparr>mem := zero_frame phys (mem s)\<rparr>"

definition vmm_copy_to_frame :: "nat \<Rightarrow> nat \<Rightarrow> bytes \<Rightarrow> vm \<Rightarrow> vm" where
  "vmm_copy_to_frame phys off src s =
     s\<lparr>mem := fold (\<lambda>i m. m(phys + off + i := src ! i)) [0..<length src] (mem s)\<rparr>"

section \<open>Walking and changing the tables\<close>

text \<open>
  An entry: bit 0 is \<open>present\<close>, bit 7 of a page-directory entry marks a 2 MB page, bit 9 is the
  kernel's copy-on-write mark, the address is what the low twelve bits leave.
\<close>

abbreviation pte_present :: "u64 \<Rightarrow> bool" where "pte_present e \<equiv> bit e 0"
abbreviation pde_large :: "u64 \<Rightarrow> bool" where "pde_large e \<equiv> bit e 7"
abbreviation pte_cow :: "u64 \<Rightarrow> bool" where "pte_cow e \<equiv> bit e 9"

definition entry_base :: "u64 \<Rightarrow> nat" where
  "entry_base e = unat (e AND NOT (mask 12))"

definition pt_index :: "nat \<Rightarrow> u64 \<Rightarrow> nat" where
  "pt_index sh virt = unat (drop_bit sh virt AND mask 9)"

definition entry :: "phys_mem \<Rightarrow> nat \<Rightarrow> nat \<Rightarrow> u64" where
  "entry m t i = load64 m (t + 8 * i)"

definition set_entry :: "nat \<Rightarrow> nat \<Rightarrow> u64 \<Rightarrow> vm \<Rightarrow> vm" where
  "set_entry t i e s = s\<lparr>mem := store64 (t + 8 * i) e (mem s)\<rparr>"

text \<open>
  One level of \<open>vmm_map_page\<close>: follow the entry, or install a fresh zeroed table in it. \<open>None\<close>
  is the early return when no frame is left.
\<close>

definition next_table :: "nat \<Rightarrow> nat \<Rightarrow> vm \<Rightarrow> nat option \<times> vm" where
  "next_table t i s =
     (if pte_present (entry (mem s) t i) then (Some (entry_base (entry (mem s) t i)), s)
      else let (p, s1) = alloc_frame s
           in if p = 0 then (None, s1)
              else (Some p, set_entry t i (word_of_nat p OR 7) (vmm_zero_frame p s1)))"

definition vmm_map_page :: "nat \<Rightarrow> u64 \<Rightarrow> u64 \<Rightarrow> u64 \<Rightarrow> vm \<Rightarrow> vm" where
  "vmm_map_page pml4 virt phys flags s =
     (case next_table pml4 (pt_index 39 virt) s of
        (None, s) \<Rightarrow> s
      | (Some pdpt, s) \<Rightarrow>
     (case next_table pdpt (pt_index 30 virt) s of
        (None, s) \<Rightarrow> s
      | (Some pd, s) \<Rightarrow>
     (if pde_large (entry (mem s) pd (pt_index 21 virt)) then s
      else case next_table pd (pt_index 21 virt) s of
        (None, s) \<Rightarrow> s
      | (Some pt, s) \<Rightarrow>
          set_entry pt (pt_index 12 virt) ((phys AND NOT (mask 12)) OR flags OR 1) s)))"

text \<open>The address of the page-table entry for a virtual address, 0 when there is no page table.\<close>

definition vmm_get_pte :: "nat \<Rightarrow> u64 \<Rightarrow> phys_mem \<Rightarrow> nat" where
  "vmm_get_pte pml4 virt m =
     (if pml4 = 0 then 0
      else let e4 = entry m pml4 (pt_index 39 virt) in if \<not> pte_present e4 then 0
      else let e3 = entry m (entry_base e4) (pt_index 30 virt) in if \<not> pte_present e3 then 0
      else let e2 = entry m (entry_base e3) (pt_index 21 virt) in if \<not> pte_present e2 then 0
      else if pde_large e2 then 0
      else entry_base e2 + 8 * pt_index 12 virt)"

definition vmm_unmap_page :: "nat \<Rightarrow> u64 \<Rightarrow> vm \<Rightarrow> vm" where
  "vmm_unmap_page pml4 virt s =
     (if pml4 = 0 then s
      else let m = mem s; e4 = entry m pml4 (pt_index 39 virt) in
      if pte_present e4 then
        let e3 = entry m (entry_base e4) (pt_index 30 virt) in
        if pte_present e3 then
          let e2 = entry m (entry_base e3) (pt_index 21 virt) in
          if pte_present e2 \<and> \<not> pde_large e2
          then set_entry (entry_base e2) (pt_index 12 virt) 0 s
          else s
        else s
      else s)"

definition vmm_get_phys :: "nat \<Rightarrow> u64 \<Rightarrow> phys_mem \<Rightarrow> u64" where
  "vmm_get_phys pml4 virt m =
     (if pml4 = 0 then 0
      else let e4 = entry m pml4 (pt_index 39 virt) in
      if pte_present e4 then
        let e3 = entry m (entry_base e4) (pt_index 30 virt) in
        if pte_present e3 then
          let e2 = entry m (entry_base e3) (pt_index 21 virt) in
          if pte_present e2 then
            if pde_large e2 then (e2 AND NOT (mask 21)) + (virt AND mask 21)
            else let e1 = entry m (entry_base e2) (pt_index 12 virt) in
                 if pte_present e1 then e1 AND NOT (mask 12) else 0
          else 0
        else 0
      else 0)"

text \<open>The entries that \<open>vmm_create_page_dir\<close> writes into the low page directory.\<close>

definition pd_low_entries :: "(nat \<times> u64) list" where
  "pd_low_entries =
     [(0, 0x87), (1, 0x200087), (2, 0x400087), (3, 0x600087),
      (32, 0x4000083), (33, 0x4200083), (34, 0x4400083), (35, 0x4600083),
      (36, 0x4800083), (37, 0x4A00083)]"

definition vmm_create_page_dir :: "vm \<Rightarrow> nat \<times> vm" where
  "vmm_create_page_dir s =
     (let (pml4, s) = alloc_frame s in if pml4 = 0 then (0, s)
      else let s = vmm_zero_frame pml4 s; (pdpt, s) = alloc_frame s in
      if pdpt = 0 then (0, free_frame pml4 s)
      else let s = vmm_zero_frame pdpt s; (pd_low, s) = alloc_frame s in
      if pd_low = 0 then (0, free_frame pml4 (free_frame pdpt s))
      else let s = vmm_zero_frame pd_low s;
               s = set_entry pml4 0 (word_of_nat pdpt OR 7) s;
               s = set_entry pdpt 0 (word_of_nat pd_low OR 7) s;
               s = set_entry pdpt 1 0x4003 s;
               s = set_entry pdpt 2 0x5003 s;
               s = set_entry pdpt 3 0x6003 s
           in (pml4, fold (\<lambda>(i, e). set_entry pd_low i e) pd_low_entries s))"

definition is_user_frame :: "nat \<Rightarrow> bool" where
  "is_user_frame p \<longleftrightarrow> p \<ge> KERNEL_RESERVED_FRAMES * PAGE_SIZE"

text \<open>Giving back one mapped data frame: a shared frame only loses a reference.\<close>

definition release_data :: "nat \<Rightarrow> vm \<Rightarrow> vm" where
  "release_data phys s =
     (if is_user_frame phys
      then let fn = phys div PAGE_SIZE mod 2 ^ 32
           in if fn < TOTAL_FRAMES \<and> frame_cow_cnt s ! fn > 0
              then s\<lparr>frame_cow_cnt := (frame_cow_cnt s)[fn := frame_cow_cnt s ! fn - 1]\<rparr>
              else free_frame phys s
      else s)"

definition release_pt_slot :: "nat \<Rightarrow> nat \<Rightarrow> vm \<Rightarrow> vm" where
  "release_pt_slot pt j s =
     (let e = entry (mem s) pt j
      in if \<not> pte_present e then s else release_data (entry_base e) s)"

definition release_table :: "nat \<Rightarrow> vm \<Rightarrow> vm" where
  "release_table p s = (if is_user_frame p then free_frame p s else s)"

definition release_pd_slot :: "nat \<Rightarrow> nat \<Rightarrow> vm \<Rightarrow> vm" where
  "release_pd_slot pd_low i s =
     (let e = entry (mem s) pd_low i
      in if \<not> pte_present e then s
         else if pde_large e then s
         else release_table (entry_base e)
                (fold (release_pt_slot (entry_base e)) [0..<512] s))"

definition vmm_free_user_memory :: "nat \<Rightarrow> vm \<Rightarrow> vm" where
  "vmm_free_user_memory pml4 s =
     (if pml4 = 0 then s
      else let e4 = entry (mem s) pml4 0 in
      release_table pml4
       (if \<not> pte_present e4 then s
        else let e3 = entry (mem s) (entry_base e4) 0 in
        release_table (entry_base e4)
         (if \<not> pte_present e3 then s
          else release_table (entry_base e3) (fold (release_pd_slot (entry_base e3)) [0..<512] s))))"

section \<open>Copy on write\<close>

definition cow_share_slot :: "nat \<Rightarrow> nat \<Rightarrow> nat \<Rightarrow> nat \<Rightarrow> vm \<Rightarrow> vm" where
  "cow_share_slot child_pml4 i parent_pt j s =
     (let e = entry (mem s) parent_pt j
      in if \<not> pte_present e then s
         else let phys = e AND NOT (mask 12)
         in if \<not> is_user_frame (unat phys) then s
         else let va = word_of_nat (i * 0x200000 + j * 0x1000);
                  s = set_entry parent_pt j (phys OR 0x205) s;
                  s = vmm_map_page child_pml4 va phys 0x205 s;
                  fn = unat phys div PAGE_SIZE mod 2 ^ 32
         in if fn < TOTAL_FRAMES
            then s\<lparr>frame_cow_cnt := (frame_cow_cnt s)[fn :=
                   (if frame_cow_cnt s ! fn < 254 then frame_cow_cnt s ! fn + 2 else 255)]\<rparr>
            else s)"

definition cow_share_pd_slot :: "nat \<Rightarrow> nat \<Rightarrow> nat \<Rightarrow> vm \<Rightarrow> vm" where
  "cow_share_pd_slot child_pml4 parent_pd i s =
     (let e = entry (mem s) parent_pd i
      in if \<not> pte_present e then s
         else if pde_large e then s
         else fold (cow_share_slot child_pml4 i (entry_base e)) [0..<512] s)"

definition vmm_copy_cow :: "nat \<Rightarrow> nat \<Rightarrow> vm \<Rightarrow> vm" where
  "vmm_copy_cow parent_pml4 child_pml4 s =
     (if parent_pml4 = 0 \<or> child_pml4 = 0 then s
      else let e4 = entry (mem s) parent_pml4 0 in if \<not> pte_present e4 then s
      else let e3 = entry (mem s) (entry_base e4) 0 in if \<not> pte_present e3 then s
      else fold (cow_share_pd_slot child_pml4 (entry_base e3)) [0..<512] s)"

definition copy_page :: "nat \<Rightarrow> nat \<Rightarrow> phys_mem \<Rightarrow> phys_mem" where
  "copy_page src dst m = fold (\<lambda>k m. m(dst + k := m (src + k))) [0..<PAGE_SIZE] m"

definition vmm_cow_fault :: "nat \<Rightarrow> u64 \<Rightarrow> vm \<Rightarrow> bool \<times> vm" where
  "vmm_cow_fault pml4 virt s =
     (let fa = virt AND NOT (mask 12);
          pte = vmm_get_pte pml4 fa (mem s)
      in if pte = 0 \<or> \<not> pte_present (load64 (mem s) pte) then (False, s)
         else if \<not> pte_cow (load64 (mem s) pte) then (False, s)
         else let old_phys = load64 (mem s) pte AND NOT (mask 12);
                  old_frame = unat old_phys div PAGE_SIZE mod 2 ^ 32
         in if old_frame < TOTAL_FRAMES \<and> frame_cow_cnt s ! old_frame > 1
            then let (new_phys, s) = alloc_frame s in
                 if new_phys = 0 then (False, s)
                 else let s = s\<lparr>mem := copy_page (unat old_phys) new_phys (mem s)\<rparr>;
                          s = s\<lparr>mem := store64 pte (word_of_nat new_phys OR 7) (mem s)\<rparr>
                      in (True, s\<lparr>frame_cow_cnt :=
                           (frame_cow_cnt s)[old_frame := frame_cow_cnt s ! old_frame - 1]\<rparr>)
            else (True, s\<lparr>mem := store64 pte (old_phys OR 7) (mem s)\<rparr>))"

section \<open>Loads and stores\<close>

lemma bit_load_bytes:
  "bit (foldr (\<lambda>k acc. push_bit 8 acc OR ucast (m (a + k))) [j..<j + l] (0::u64)) n \<longleftrightarrow>
     n < 64 \<and> n < 8 * l \<and> bit (m (a + j + n div 8) :: u8) (n mod 8)"
proof (induction l arbitrary: j n)
  case 0
  then show ?case by simp
next
  case (Suc l)
  have step: "bit (push_bit 8 acc OR ucast b :: u64) n \<longleftrightarrow>
      n < 64 \<and> (if n < 8 then bit b n else bit acc (n - 8))" for acc :: u64 and b :: u8
    by (auto simp: bit_simps dest: bit_imp_le_length)
  have "[j..<j + Suc l] = j # [Suc j..<Suc j + l]" by (simp add: upt_conv_Cons)
  then show ?case
    using Suc.IH [of "Suc j" "n - 8"] by (auto simp: step less_diff_conv2 le_div_geq le_mod_geq)
qed

lemma bit_load64: "bit (load64 m a) n \<longleftrightarrow> n < 64 \<and> bit (m (a + n div 8)) (n mod 8)"
  using bit_load_bytes [of m a 0 8 n] by (auto simp: load64_def)

lemma load64_cong: "(\<And>k. k < 8 \<Longrightarrow> m (a + k) = m' (a + k)) \<Longrightarrow> load64 m a = load64 m' a"
  by (rule bit_eqI) (auto simp: bit_load64)

lemma load64_store64 [simp]: "load64 (store64 a v m) a = v"
proof (rule bit_word_eqI)
  fix n
  assume "n < LENGTH(64)"
  then have "n div 8 < 8" by simp
  then show "bit (load64 (store64 a v m) a) n \<longleftrightarrow> bit v n"
    using \<open>n < LENGTH(64)\<close> by (simp add: bit_load64 store64_def bit_simps)
qed

lemma load64_store64_other: "a + 8 \<le> b \<or> b + 8 \<le> a \<Longrightarrow> load64 (store64 a v m) b = load64 m b"
  by (rule load64_cong) (auto simp: store64_def)

text \<open>Two tables are page-aligned, so that entries overlap only when they are the same.\<close>

lemma page_gap:
  assumes "t mod PAGE_SIZE = 0" "u mod PAGE_SIZE = 0" "t \<noteq> u"
  shows "t + PAGE_SIZE \<le> u \<or> u + PAGE_SIZE \<le> t"
proof -
  from assms(1,2) obtain p q where pq: "t = PAGE_SIZE * p" "u = PAGE_SIZE * q"
    by (auto simp: mod_eq_0_iff_dvd elim!: dvdE)
  with assms(3) consider "Suc p \<le> q" | "Suc q \<le> p" by fastforce
  then show ?thesis
  proof cases
    case 1
    then have "PAGE_SIZE * Suc p \<le> PAGE_SIZE * q" by (rule mult_le_mono2)
    with pq show ?thesis by simp
  next
    case 2
    then have "PAGE_SIZE * Suc q \<le> PAGE_SIZE * p" by (rule mult_le_mono2)
    with pq show ?thesis by simp
  qed
qed

lemma entry_store:
  assumes "t mod PAGE_SIZE = 0" "u mod PAGE_SIZE = 0" "i < 512" "j < 512"
  shows "entry (store64 (t + 8 * i) e m) u j = (if u = t \<and> j = i then e else entry m u j)"
proof (cases "u = t")
  case True
  then show ?thesis by (auto simp: entry_def intro!: load64_store64_other)
next
  case False
  with page_gap [OF assms(1,2)] assms(3,4) have "t + 8 * i + 8 \<le> u + 8 * j \<or> u + 8 * j + 8 \<le> t + 8 * i"
    by (auto simp: PAGE_SIZE_def)
  with False show ?thesis by (simp add: entry_def load64_store64_other)
qed

lemma zero_frame_eq: "zero_frame p m = (\<lambda>x. if p \<le> x \<and> x < p + PAGE_SIZE then 0 else m x)"
proof -
  have "fold (\<lambda>i. store64 (p + 8 * i) 0) [0..<n] m = (\<lambda>x. if p \<le> x \<and> x < p + 8 * n then 0 else m x)" for n
    by (induction n) (auto simp: store64_def fun_eq_iff)
  then show ?thesis by (simp add: zero_frame_def PAGE_SIZE_def)
qed

lemma entry_zero_frame:
  assumes "t mod PAGE_SIZE = 0" "u mod PAGE_SIZE = 0" "j < 512"
  shows "entry (zero_frame t m) u j = (if u = t then 0 else entry m u j)"
proof (cases "u = t")
  case True
  then have "load64 (zero_frame t m) (u + 8 * j) = load64 (\<lambda>_. 0) (u + 8 * j)"
    using assms(3) by (intro load64_cong) (auto simp: zero_frame_eq PAGE_SIZE_def)
  also have "\<dots> = 0" by (rule bit_eqI) (simp add: bit_load64)
  finally show ?thesis using True by (simp add: entry_def)
next
  case False
  with page_gap [OF assms(1,2)] assms(3) have "u + 8 * j + 8 \<le> t \<or> t + PAGE_SIZE \<le> u + 8 * j"
    by (auto simp: PAGE_SIZE_def)
  with False show ?thesis
    by (auto simp: entry_def zero_frame_eq intro!: load64_cong)
qed

end
