(* ===== verification/Paging.thy ===== *)
theory Paging
  imports Vmm
begin

text \<open>
  What the page-table code of \<open>Vmm\<close> keeps true. The invariant \<open>vm_inv\<close> types every table frame
  with its level, makes every entry point one level down, and lets no two entries share a table,
  but for the boot page directories that all address spaces link to and that hold 2 MB pages
  only. From it follows what the callers rely on: a mapping is found again, and no other page of
  this or of any other address space changes.
\<close>

unbundle bit_operations_syntax

section \<open>Walks\<close>

text \<open>\<open>vmm_get_phys\<close> as a recursion over the levels.\<close>

fun walk :: "phys_mem \<Rightarrow> nat \<Rightarrow> nat \<Rightarrow> u64 \<Rightarrow> u64" where
  "walk m 0 t v = 0"
| "walk m (Suc l) t v =
     (let e = entry m t (pt_index (12 + 9 * l) v)
      in if \<not> pte_present e then 0
         else if l = 0 then e AND NOT (mask 12)
         else if l = 1 \<and> pde_large e then (e AND NOT (mask 21)) + (v AND mask 21)
         else walk m l (entry_base e) v)"

text \<open>The page table at the end of a walk.\<close>

fun pt_at :: "phys_mem \<Rightarrow> nat \<Rightarrow> nat \<Rightarrow> u64 \<Rightarrow> nat option" where
  "pt_at m 0 t v = None"
| "pt_at m (Suc l) t v =
     (if l = 0 then Some t
      else let e = entry m t (pt_index (12 + 9 * l) v)
      in if \<not> pte_present e \<or> l = 1 \<and> pde_large e then None else pt_at m l (entry_base e) v)"

lemma vmm_get_phys_walk: "vmm_get_phys root v m = (if root = 0 then 0 else walk m 4 root v)"
  by (simp add: vmm_get_phys_def numeral_eq_Suc Let_def)

lemma vmm_get_pte_pt_at:
  "vmm_get_pte root v m =
     (if root = 0 then 0 else case pt_at m 4 root v of None \<Rightarrow> 0 | Some pt \<Rightarrow> pt + 8 * pt_index 12 v)"
  by (simp add: vmm_get_pte_def numeral_eq_Suc Let_def)

lemma pt_index_less [simp]: "pt_index sh v < 512"
proof -
  have "unat (drop_bit sh v AND mask 9) \<le> unat (mask 9 :: u64)"
    using word_and_le1 word_le_nat_alt by blast
  also have "unat (mask 9 :: u64) = 511" by (simp add: mask_eq_exp_minus_1)
  finally show ?thesis by (simp add: pt_index_def)
qed

text \<open>Two virtual addresses lie in the same 4 KB page of the 48-bit address space.\<close>

definition same_page :: "u64 \<Rightarrow> u64 \<Rightarrow> bool" where
  "same_page v w \<longleftrightarrow> (\<forall>l<4. pt_index (12 + 9 * l) v = pt_index (12 + 9 * l) w)"

section \<open>Table entries\<close>

lemma bit_7_iff: "bit (7 :: u64) n \<longleftrightarrow> n < 3"
proof -
  have "(7 :: u64) = mask 3" by (simp add: mask_eq_exp_minus_1)
  then show ?thesis by (simp only: bit_mask_iff) auto
qed

lemma table_entry:
  assumes "p mod PAGE_SIZE = 0" "p < 2 ^ 64"
  shows "entry_base (word_of_nat p OR 7) = p" "pte_present (word_of_nat p OR 7 :: u64)"
    "\<not> pde_large (word_of_nat p OR 7 :: u64)"
proof -
  obtain f where p: "p = 2 ^ 12 * f" using assms(1) by (auto simp: PAGE_SIZE_def mod_eq_0_iff_dvd)
  then have w: "word_of_nat p = push_bit 12 (word_of_nat f :: u64)" by (simp add: push_bit_eq_mult)
  define k where "k = (7 :: u64)"
  have k: "bit k n \<longleftrightarrow> n < 3" for n by (simp only: k_def bit_7_iff)
  have "(word_of_nat p OR k) AND NOT (mask 12) = word_of_nat p"
    unfolding w by (rule bit_eqI) (auto simp: bit_simps k)
  then show "entry_base (word_of_nat p OR 7) = p"
    using assms(2) by (simp add: entry_base_def k_def unsigned_of_nat take_bit_nat_eq_self)
  have pr: "pte_present (word_of_nat p OR k)" and nl: "\<not> pde_large (word_of_nat p OR k)"
    unfolding w by (auto simp: bit_simps k)
  show "pte_present (word_of_nat p OR 7 :: u64)" using pr unfolding k_def .
  show "\<not> pde_large (word_of_nat p OR 7 :: u64)" using nl unfolding k_def .
qed

lemma entry_base_page: "entry_base e mod PAGE_SIZE = 0"
  using unat_and_not_mask [of e 12] by (simp add: entry_base_def PAGE_SIZE_def)

section \<open>The invariant\<close>

definition links :: "(nat \<Rightarrow> nat) \<Rightarrow> phys_mem \<Rightarrow> nat \<Rightarrow> nat \<Rightarrow> bool" where
  "links lv m t i \<longleftrightarrow> 2 \<le> lv t \<and> i < 512 \<and> pte_present (entry m t i) \<and>
     \<not> (lv t = 2 \<and> pde_large (entry m t i))"

definition tables_typed :: "(nat \<Rightarrow> nat) \<Rightarrow> bitmap \<Rightarrow> bool" where
  "tables_typed lv bm \<longleftrightarrow> (\<forall>t. lv t \<noteq> 0 \<longrightarrow> lv t \<le> 4 \<and> t \<noteq> 0 \<and> t mod PAGE_SIZE = 0 \<and>
     t div PAGE_SIZE \<in> frames_used bm)"

definition links_down :: "(nat \<Rightarrow> nat) \<Rightarrow> phys_mem \<Rightarrow> bool" where
  "links_down lv m \<longleftrightarrow> (\<forall>t i. links lv m t i \<longrightarrow> lv (entry_base (entry m t i)) = lv t - 1)"

definition links_unique :: "(nat \<Rightarrow> nat) \<Rightarrow> nat set \<Rightarrow> phys_mem \<Rightarrow> bool" where
  "links_unique lv Sh m \<longleftrightarrow> (\<forall>t i u j. links lv m t i \<longrightarrow> links lv m u j \<longrightarrow>
     entry_base (entry m t i) = entry_base (entry m u j) \<longrightarrow> entry_base (entry m t i) \<notin> Sh \<longrightarrow>
     t = u \<and> i = j)"

definition shared_large :: "(nat \<Rightarrow> nat) \<Rightarrow> nat set \<Rightarrow> phys_mem \<Rightarrow> bool" where
  "shared_large lv Sh m \<longleftrightarrow> (\<forall>t\<in>Sh. lv t = 2 \<and> (\<forall>i<512. pde_large (entry m t i)))"

definition vm_inv :: "(nat \<Rightarrow> nat) \<Rightarrow> nat set \<Rightarrow> vm \<Rightarrow> bool" where
  "vm_inv lv Sh s \<longleftrightarrow> bitmap_wf (frame_bitmap s) \<and> tables_typed lv (frame_bitmap s) \<and>
     links_down lv (mem s) \<and> links_unique lv Sh (mem s) \<and> shared_large lv Sh (mem s)"

definition boot_pds :: "nat set" where
  "boot_pds = {0x4000, 0x5000, 0x6000}"

text \<open>The address spaces rooted at \<open>R\<close> are in order.\<close>

definition vm_ok :: "nat set \<Rightarrow> vm \<Rightarrow> bool" where
  "vm_ok R s \<longleftrightarrow> (\<exists>lv. vm_inv lv boot_pds s \<and> (\<forall>r\<in>R. lv r = 4))"

lemma tables_typedD:
  assumes "tables_typed lv bm" "lv t \<noteq> 0"
  shows "t \<noteq> 0" "t mod PAGE_SIZE = 0" "t div PAGE_SIZE \<in> frames_used bm" "lv t \<le> 4" "t < 2 ^ 64"
proof -
  show *: "t \<noteq> 0" "t mod PAGE_SIZE = 0" "t div PAGE_SIZE \<in> frames_used bm" "lv t \<le> 4"
    using assms by (auto simp: tables_typed_def)
  then have "t div PAGE_SIZE < TOTAL_FRAMES" by (simp add: frames_used_def)
  then have "t < TOTAL_FRAMES * PAGE_SIZE" by (simp add: PAGE_SIZE_def div_less_iff_less_mult)
  then show "t < 2 ^ 64" by (simp add: PAGE_SIZE_def TOTAL_FRAMES_def)
qed

text \<open>A fresh frame is not a table yet.\<close>

lemma alloc_frame_basic:
  assumes wf: "bitmap_wf (frame_bitmap s)" and al: "alloc_frame s = (p, s1)" "p \<noteq> 0"
  shows "p mod PAGE_SIZE = 0" "p < 2 ^ 64" "mem s1 = mem s"
    "frame_cow_cnt s1 = frame_cow_cnt s" "bitmap_wf (frame_bitmap s1)"
    "frames_used (frame_bitmap s1) = insert (p div PAGE_SIZE) (frames_used (frame_bitmap s))"
    "p div PAGE_SIZE \<notin> frames_used (frame_bitmap s)" "p div PAGE_SIZE \<in> managed_frames"
proof -
  obtain bm where a: "pmm_alloc_frame (frame_bitmap s) = (p, bm)" "s1 = s\<lparr>frame_bitmap := bm\<rparr>"
    using al by (auto simp: alloc_frame_def split: prod.splits)
  from pmm.alloc_ok [OF wf a(1) al(2)] obtain f where f: "f \<in> managed_frames"
    "f \<notin> frames_used (frame_bitmap s)" "p = f * PAGE_SIZE"
    "frames_used bm = insert f (frames_used (frame_bitmap s))" "bitmap_wf bm" by auto
  have d: "p div PAGE_SIZE = f" using f(3) by (simp add: PAGE_SIZE_def)
  show "p mod PAGE_SIZE = 0" using f(3) by simp
  show "mem s1 = mem s" "frame_cow_cnt s1 = frame_cow_cnt s" "bitmap_wf (frame_bitmap s1)"
    using a f by simp_all
  show "frames_used (frame_bitmap s1) = insert (p div PAGE_SIZE) (frames_used (frame_bitmap s))"
    "p div PAGE_SIZE \<notin> frames_used (frame_bitmap s)" "p div PAGE_SIZE \<in> managed_frames"
    using a f d by simp_all
  show "p < 2 ^ 64" using f(1,3) by (simp add: managed_frames_def TOTAL_FRAMES_def PAGE_SIZE_def)
qed

lemma fresh_not_table:
  "tables_typed lv bm \<Longrightarrow> p div PAGE_SIZE \<notin> frames_used bm \<Longrightarrow> lv p = 0"
  using tables_typedD(3) by blast

lemma alloc_frame_fresh:
  assumes "vm_inv lv Sh s" "alloc_frame s = (p, s1)" "p \<noteq> 0"
  shows "lv p = 0" "p mod PAGE_SIZE = 0" "p < 2 ^ 64" "mem s1 = mem s"
    "frame_cow_cnt s1 = frame_cow_cnt s" "bitmap_wf (frame_bitmap s1)"
    "frames_used (frame_bitmap s1) = insert (p div PAGE_SIZE) (frames_used (frame_bitmap s))"
    "p div PAGE_SIZE \<notin> frames_used (frame_bitmap s)"
proof -
  have wf: "bitmap_wf (frame_bitmap s)" "tables_typed lv (frame_bitmap s)"
    using assms(1) by (auto simp: vm_inv_def)
  note b = alloc_frame_basic [OF wf(1) assms(2,3)]
  show "lv p = 0" by (rule fresh_not_table [OF wf(2) b(7)])
  show "p mod PAGE_SIZE = 0" "p < 2 ^ 64" "mem s1 = mem s" "frame_cow_cnt s1 = frame_cow_cnt s"
    "bitmap_wf (frame_bitmap s1)"
    "frames_used (frame_bitmap s1) = insert (p div PAGE_SIZE) (frames_used (frame_bitmap s))"
    "p div PAGE_SIZE \<notin> frames_used (frame_bitmap s)" using b by auto
qed

lemma alloc_frame_none: "bitmap_wf (frame_bitmap s) \<Longrightarrow> alloc_frame s = (0, s1) \<Longrightarrow> s1 = s"
  using pmm.alloc_fail [of "frame_bitmap s"] by (auto simp: alloc_frame_def split: prod.splits)

section \<open>Installing a table\<close>

text \<open>The state after a fresh zeroed table \<open>p\<close> was put into the empty entry \<open>i\<close> of \<open>t\<close>.\<close>

definition installed :: "nat \<Rightarrow> nat \<Rightarrow> nat \<Rightarrow> phys_mem \<Rightarrow> phys_mem" where
  "installed t i p m = store64 (t + 8 * i) (word_of_nat p OR 7) (zero_frame p m)"

lemma entry_installed:
  assumes "t mod PAGE_SIZE = 0" "u mod PAGE_SIZE = 0" "p mod PAGE_SIZE = 0" "i < 512" "j < 512"
  shows "entry (installed t i p m) u j =
    (if u = t \<and> j = i then word_of_nat p OR 7 else if u = p then 0 else entry m u j)"
  using assms by (simp add: installed_def entry_store entry_zero_frame)

lemma walk_zero_table:
  "(\<And>j. j < 512 \<Longrightarrow> entry m p j = 0) \<Longrightarrow> walk m l p v = 0"
  by (cases l) simp_all

text \<open>A step of a walk stays among the tables.\<close>

lemma links_step:
  assumes "links_down lv m" "lv t = Suc l" "0 < l"
    "pte_present (entry m t (pt_index sh v))" "\<not> (l = 1 \<and> pde_large (entry m t (pt_index sh v)))"
  shows "links lv m t (pt_index sh v)" "lv (entry_base (entry m t (pt_index sh v))) = l"
proof -
  show "links lv m t (pt_index sh v)" using assms by (auto simp: links_def)
  with assms(1,2) show "lv (entry_base (entry m t (pt_index sh v))) = l" by (simp add: links_down_def)
qed

lemma walk_installed:
  assumes ty: "tables_typed lv bm" "links_down lv m"
    and t: "2 \<le> lv t" "i < 512" "\<not> pte_present (entry m t i)"
    and p: "lv p = 0" "p mod PAGE_SIZE = 0" "p < 2 ^ 64"
    and a: "lv a = l"
  shows "walk (installed t i p m) l a v = walk m l a v"
  using a
proof (induction l arbitrary: a)
  case 0
  then show ?case by simp
next
  case (Suc l)
  let ?m = "installed t i p m" and ?j = "pt_index (12 + 9 * l) v"
  have tp: "t mod PAGE_SIZE = 0" "a mod PAGE_SIZE = 0"
    using tables_typedD(2) [OF ty(1)] t(1) Suc.prems by auto
  have ne: "a \<noteq> p" "t \<noteq> p" using p(1) t(1) Suc.prems by auto
  have ent: "entry ?m u j = (if u = t \<and> j = i then word_of_nat p OR 7 else if u = p then 0 else entry m u j)"
    if "u mod PAGE_SIZE = 0" "j < 512" for u j
    using entry_installed [OF tp(1) that(1) p(2) t(2) that(2)] .
  show ?case
  proof (cases "a = t \<and> ?j = i")
    case True
    then have "l \<noteq> 0" using t(1) Suc.prems by auto
    have "walk ?m l p v = 0" using ent [OF p(2)] ne(2) by (intro walk_zero_table) auto
    moreover have "entry ?m a ?j = word_of_nat p OR 7" using ent [OF tp(2) t(2)] True by simp
    ultimately show ?thesis
      using True t(3) table_entry [OF p(2,3)] \<open>l \<noteq> 0\<close> by (simp add: Let_def)
  next
    case False
    then have e: "entry ?m a ?j = entry m a ?j" using ent [OF tp(2)] ne(1) by auto
    show ?thesis
    proof (cases "l = 0 \<or> \<not> pte_present (entry m a ?j) \<or> l = 1 \<and> pde_large (entry m a ?j)")
      case True
      with e show ?thesis by (auto simp: Let_def)
    next
      case go: False
      with Suc.IH links_step(2) [OF ty(2) Suc.prems] have
        "walk ?m l (entry_base (entry m a ?j)) v = walk m l (entry_base (entry m a ?j)) v" by auto
      with e go show ?thesis by (auto simp: Let_def)
    qed
  qed
qed

text \<open>The invariant, with the new table at the level below that of its parent.\<close>

lemma vm_inv_install:
  assumes inv: "vm_inv lv Sh s" and t: "2 \<le> lv t" "i < 512" "\<not> pte_present (entry (mem s) t i)"
    "\<not> (lv t = 2 \<and> pde_large (entry (mem s) t i))" "t \<notin> Sh"
    and al: "alloc_frame s = (p, s1)" "p \<noteq> 0"
  shows "vm_inv (lv(p := lv t - 1)) Sh (set_entry t i (word_of_nat p OR 7) (vmm_zero_frame p s1))"
proof -
  let ?lv = "lv(p := lv t - 1)" and ?m = "installed t i p (mem s)"
  note f = alloc_frame_fresh [OF inv al]
  have m: "mem (set_entry t i (word_of_nat p OR 7) (vmm_zero_frame p s1)) = ?m"
    "frame_bitmap (set_entry t i (word_of_nat p OR 7) (vmm_zero_frame p s1)) = frame_bitmap s1"
    using f(4) by (simp_all add: set_entry_def vmm_zero_frame_def installed_def)
  have iv: "tables_typed lv (frame_bitmap s)" "links_down lv (mem s)" "links_unique lv Sh (mem s)"
    "shared_large lv Sh (mem s)" using inv by (auto simp: vm_inv_def)
  have pg: "u mod PAGE_SIZE = 0" if "?lv u \<noteq> 0" for u
    using that f(2) tables_typedD(2) [OF iv(1)] by (auto split: if_splits)
  have ne: "t \<noteq> p" using f(1) t(1) by auto
  have ent: "entry ?m u j = (if u = t \<and> j = i then word_of_nat p OR 7 else if u = p then 0 else entry (mem s) u j)"
    if "?lv u \<noteq> 0" "j < 512" for u j
    using entry_installed [OF _ pg [OF that(1)] f(2) t(2) that(2)] tables_typedD(2) [OF iv(1)] t(1) by auto
  note te = table_entry [OF f(2,3)]
  have lk: "links ?lv ?m u j \<longleftrightarrow> u = t \<and> j = i \<or> links lv (mem s) u j" for u j
    using ent [of u j] te ne t f(1) by (cases "u = p") (auto simp: links_def split: if_splits)
  have not_i: "\<not> links lv (mem s) t i" using t by (simp add: links_def)
  have base: "entry_base (entry ?m u j) = (if u = t \<and> j = i then p else entry_base (entry (mem s) u j))"
    if "links ?lv ?m u j" for u j
    using ent [of u j] that te lk [of u j] f(1) by (auto simp: links_def)
  have old: "lv (entry_base (entry (mem s) u j)) = lv u - 1" "entry_base (entry (mem s) u j) \<noteq> p"
    if "links lv (mem s) u j" for u j
    using that iv(2) f(1) by (auto simp: links_down_def links_def)
  have "tables_typed ?lv (frame_bitmap s1)"
  proof -
    have "lv t \<le> 4" using tables_typedD(4) [OF iv(1), of t] t(1) by simp
    then have "lv t - 1 \<le> 4" by simp
    with iv(1) f(2,7) al(2) show ?thesis unfolding tables_typed_def by auto
  qed
  moreover have "links_down ?lv ?m"
    using base lk old ne not_i t(1) f(1) unfolding links_down_def by (auto simp: links_def)
  moreover have "links_unique ?lv Sh ?m"
    using base lk old iv(3) not_i unfolding links_unique_def by (smt (verit))
  moreover have "shared_large ?lv Sh ?m"
    using iv(4) f(1) t(5) ent unfolding shared_large_def by auto
  ultimately show ?thesis using f(6) by (simp add: vm_inv_def m)
qed

text \<open>
  The tables of \<open>s\<close> are still there in \<open>s'\<close>, with all their links and translations.
\<close>

definition grows :: "(nat \<Rightarrow> nat) \<Rightarrow> vm \<Rightarrow> (nat \<Rightarrow> nat) \<Rightarrow> vm \<Rightarrow> bool" where
  "grows lv s lv' s' \<longleftrightarrow> (\<forall>a. lv a \<noteq> 0 \<longrightarrow> lv' a = lv a) \<and>
     (\<forall>a v. lv a \<noteq> 0 \<longrightarrow> walk (mem s') (lv a) a v = walk (mem s) (lv a) a v) \<and>
     (\<forall>a j. links lv (mem s) a j \<longrightarrow> entry (mem s') a j = entry (mem s) a j)"

lemma grows_refl [simp]: "grows lv s lv s"
  by (simp add: grows_def)

lemma grows_links: "grows lv s lv' s' \<Longrightarrow> links lv (mem s) a j \<Longrightarrow> links lv' (mem s') a j"
  by (auto simp: grows_def links_def)

lemma grows_trans:
  assumes "grows lv s lv1 s1" "grows lv1 s1 lv2 s2"
  shows "grows lv s lv2 s2"
proof -
  have "entry (mem s2) a j = entry (mem s) a j" if "links lv (mem s) a j" for a j
    using that grows_links [OF assms(1) that] assms by (simp add: grows_def)
  moreover have "walk (mem s2) (lv a) a v = walk (mem s) (lv a) a v" if "lv a \<noteq> 0" for a v
    using that assms unfolding grows_def by metis
  ultimately show ?thesis using assms by (simp add: grows_def)
qed

text \<open>The virtual address lies in a 2 MB page already.\<close>

definition in_large_page :: "nat \<Rightarrow> u64 \<Rightarrow> phys_mem \<Rightarrow> bool" where
  "in_large_page root v m \<longleftrightarrow>
     (let e4 = entry m root (pt_index 39 v); e3 = entry m (entry_base e4) (pt_index 30 v)
      in pte_present e4 \<and> pte_present e3 \<and> pde_large (entry m (entry_base e3) (pt_index 21 v)))"

text \<open>
  What is not a table of \<open>s\<close> stays as it is: frames in use that are no tables keep their bytes, new
  tables and links to them come from frames that were free, and no new 2 MB pages appear.
\<close>

definition extends :: "(nat \<Rightarrow> nat) \<Rightarrow> vm \<Rightarrow> (nat \<Rightarrow> nat) \<Rightarrow> vm \<Rightarrow> bool" where
  "extends lv s lv' s' \<longleftrightarrow> (\<forall>a. lv a \<noteq> 0 \<longrightarrow> lv' a = lv a) \<and>
     (\<forall>a j. links lv (mem s) a j \<longrightarrow> entry (mem s') a j = entry (mem s) a j) \<and>
     frames_used (frame_bitmap s) \<subseteq> frames_used (frame_bitmap s') \<and>
     (\<forall>a. lv' a \<noteq> 0 \<longrightarrow> lv a \<noteq> 0 \<or> a div PAGE_SIZE \<notin> frames_used (frame_bitmap s)) \<and>
     (\<forall>x. x div PAGE_SIZE \<in> frames_used (frame_bitmap s) \<longrightarrow> lv (x div PAGE_SIZE * PAGE_SIZE) = 0 \<longrightarrow>
        mem s' x = mem s x) \<and>
     (\<forall>a j. links lv' (mem s') a j \<longrightarrow> links lv (mem s) a j \<or> lv (entry_base (entry (mem s') a j)) = 0) \<and>
     (\<forall>a j. j < 512 \<longrightarrow> lv' a = 2 \<longrightarrow> pde_large (entry (mem s') a j) \<longrightarrow> lv a = 2 \<and> pde_large (entry (mem s) a j))"

lemma extends_refl [simp]: "extends lv s lv s"
  by (simp add: extends_def)

lemma extendsD:
  assumes "extends lv s lv' s'"
  shows "lv a \<noteq> 0 \<Longrightarrow> lv' a = lv a" "links lv (mem s) a j \<Longrightarrow> entry (mem s') a j = entry (mem s) a j"
    "f \<in> frames_used (frame_bitmap s) \<Longrightarrow> f \<in> frames_used (frame_bitmap s')"
    "a div PAGE_SIZE \<in> frames_used (frame_bitmap s) \<Longrightarrow> lv a = 0 \<Longrightarrow> lv' a = 0"
    "x div PAGE_SIZE \<in> frames_used (frame_bitmap s) \<Longrightarrow> lv (x div PAGE_SIZE * PAGE_SIZE) = 0 \<Longrightarrow> mem s' x = mem s x"
    "links lv' (mem s') a j \<Longrightarrow> lv (entry_base (entry (mem s') a j)) \<noteq> 0 \<Longrightarrow> links lv (mem s) a j"
    "j < 512 \<Longrightarrow> lv' a = 2 \<Longrightarrow> pde_large (entry (mem s') a j) \<Longrightarrow> lv a = 2 \<and> pde_large (entry (mem s) a j)"
proof -
  note e1 = assms [unfolded extends_def] and e2 = conjunct2 [OF e1] and e3 = conjunct2 [OF e2]
    and e4 = conjunct2 [OF e3] and e5 = conjunct2 [OF e4] and e6 = conjunct2 [OF e5]
  show "lv' a = lv a" if "lv a \<noteq> 0" using conjunct1 [OF e1] that by blast
  show "entry (mem s') a j = entry (mem s) a j" if "links lv (mem s) a j" using conjunct1 [OF e2] that by blast
  show "f \<in> frames_used (frame_bitmap s')" if "f \<in> frames_used (frame_bitmap s)" using conjunct1 [OF e3] that by blast
  show "lv' a = 0" if "a div PAGE_SIZE \<in> frames_used (frame_bitmap s)" "lv a = 0"
    using conjunct1 [OF e4] that by blast
  show "mem s' x = mem s x" if "x div PAGE_SIZE \<in> frames_used (frame_bitmap s)" "lv (x div PAGE_SIZE * PAGE_SIZE) = 0"
    using conjunct1 [OF e5] that by blast
  show "links lv (mem s) a j" if "links lv' (mem s') a j" "lv (entry_base (entry (mem s') a j)) \<noteq> 0"
    using spec [OF spec [OF conjunct1 [OF e6]], of a j] that by simp
  show "lv a = 2 \<and> pde_large (entry (mem s) a j)" if "j < 512" "lv' a = 2" "pde_large (entry (mem s') a j)"
    using conjunct2 [OF e6] that by blast
qed

lemma extends_links: "extends lv s lv' s' \<Longrightarrow> links lv (mem s) a j \<Longrightarrow> links lv' (mem s') a j"
  using extendsD(1) [of lv s lv' s' a] extendsD(2) [of lv s lv' s' a j] by (simp add: links_def)

lemma extends_trans:
  assumes "extends lv s lv1 s1" "extends lv1 s1 lv2 s2"
  shows "extends lv s lv2 s2"
  unfolding extends_def
proof (intro conjI allI impI subsetI)
  note d1 = extendsD [OF assms(1)] and d2 = extendsD [OF assms(2)]
  show "lv2 a = lv a" if "lv a \<noteq> 0" for a using d1(1) [OF that] d2(1) that by simp
  show "entry (mem s2) a j = entry (mem s) a j" if "links lv (mem s) a j" for a j
    using d1(2) [OF that] d2(2) [OF extends_links [OF assms(1) that]] by simp
  show "f \<in> frames_used (frame_bitmap s2)" if "f \<in> frames_used (frame_bitmap s)" for f
    by (rule d2(3) [OF d1(3) [OF that]])
  have data: "lv2 a = 0" if "a div PAGE_SIZE \<in> frames_used (frame_bitmap s)" "lv a = 0" for a
    by (rule d2(4) [OF d1(3) [OF that(1)] d1(4) [OF that]])
  show "lv a \<noteq> 0 \<or> a div PAGE_SIZE \<notin> frames_used (frame_bitmap s)" if "lv2 a \<noteq> 0" for a
    using that data [of a] by auto
  show "mem s2 x = mem s x"
    if x: "x div PAGE_SIZE \<in> frames_used (frame_bitmap s)" "lv (x div PAGE_SIZE * PAGE_SIZE) = 0" for x
  proof -
    have "x div PAGE_SIZE * PAGE_SIZE div PAGE_SIZE = x div PAGE_SIZE" by (simp add: PAGE_SIZE_def)
    then have "lv1 (x div PAGE_SIZE * PAGE_SIZE) = 0" by (intro d1(4) x(2)) (simp only: x(1))
    then show ?thesis using d2(5) [OF d1(3) [OF x(1)]] d1(5) [OF x] by simp
  qed
  show "links lv (mem s) a j \<or> lv (entry_base (entry (mem s2) a j)) = 0" if l: "links lv2 (mem s2) a j" for a j
  proof (cases "lv (entry_base (entry (mem s2) a j)) = 0")
    case False
    then have "links lv1 (mem s1) a j" using d2(6) [OF l] d1(1) by simp
    with False d1(6) d2(2) show ?thesis by simp
  qed simp
  show "lv a = 2" "pde_large (entry (mem s) a j)" if "j < 512" "lv2 a = 2" "pde_large (entry (mem s2) a j)" for a j
    using d1(7) [OF that(1)] d2(7) [OF that] by auto
qed

lemma same_frame: "t mod PAGE_SIZE = 0 \<Longrightarrow> t \<le> x \<Longrightarrow> x < t + PAGE_SIZE \<Longrightarrow> x div PAGE_SIZE * PAGE_SIZE = t"
  by (auto simp: PAGE_SIZE_def)

lemma in_large_extends:
  assumes "extends lv s lv' s'" "vm_inv lv' Sh s'" "lv r = 4" "in_large_page r w (mem s')"
  shows "in_large_page r w (mem s)"
proof -
  note d = extendsD [OF assms(1)]
  have ld: "links_down lv' (mem s')" using assms(2) by (simp add: vm_inv_def)
  define i4 i3 i2 where "i4 = pt_index 39 w" and "i3 = pt_index 30 w" and "i2 = pt_index 21 w"
  define e4 e3 where "e4 = entry (mem s') r i4" and "e3 = entry (mem s') (entry_base e4) i3"
  from assms(4) have p: "pte_present e4" "pte_present e3" "pde_large (entry (mem s') (entry_base e3) i2)"
    by (auto simp: in_large_page_def Let_def e4_def e3_def i4_def i3_def i2_def)
  have l4: "links lv' (mem s') r i4" using p d(1) [of r] assms(3) by (simp add: links_def e4_def i4_def)
  then have lv3: "lv' (entry_base e4) = 3" using ld d(1) [of r] assms(3) by (simp add: links_down_def e4_def)
  then have l3: "links lv' (mem s') (entry_base e4) i3" using p by (simp add: links_def e3_def i3_def)
  then have lv2: "lv' (entry_base e3) = 2" using ld lv3 by (simp add: links_down_def e3_def)
  from d(7) [OF _ lv2 p(3)] have pd: "lv (entry_base e3) = 2" "pde_large (entry (mem s) (entry_base e3) i2)"
    by (auto simp: i2_def)
  have k3: "links lv (mem s) (entry_base e4) i3" by (rule d(6) [OF l3]) (use pd(1) in \<open>simp add: e3_def\<close>)
  then have "lv (entry_base e4) \<noteq> 0" by (simp add: links_def)
  then have k4: "links lv (mem s) r i4" using d(6) [OF l4] by (simp add: e4_def)
  have "entry (mem s) r i4 = e4" "entry (mem s) (entry_base e4) i3 = e3"
    using d(2) [OF k4] d(2) [OF k3] by (simp_all add: e4_def e3_def)
  with p pd(2) show ?thesis by (simp add: in_large_page_def Let_def i4_def i3_def i2_def)
qed

abbreviation frames_free :: "vm \<Rightarrow> nat" where
  "frames_free s \<equiv> card (pmm.available (frame_bitmap s))"

lemma extends_install:
  assumes inv: "vm_inv lv Sh s" and t: "2 \<le> lv t" "i < 512" "\<not> pte_present (entry (mem s) t i)"
    and al: "alloc_frame s = (p, s1)" "p \<noteq> 0"
  shows "extends lv s (lv(p := lv t - 1)) (set_entry t i (word_of_nat p OR 7) (vmm_zero_frame p s1))"
    (is "extends lv s ?lv ?s")
proof -
  note f = alloc_frame_fresh [OF inv al]
  have ty: "tables_typed lv (frame_bitmap s)" using inv by (simp add: vm_inv_def)
  have m: "mem ?s = installed t i p (mem s)" "frame_bitmap ?s = frame_bitmap s1"
    using f(4) by (simp_all add: set_entry_def vmm_zero_frame_def installed_def)
  have tp: "t mod PAGE_SIZE = 0" "t \<noteq> p" using tables_typedD(2) [OF ty, of t] t(1) f(1) by auto
  have ent: "entry (mem ?s) a j = (if a = t \<and> j = i then word_of_nat p OR 7 else if a = p then 0 else entry (mem s) a j)"
    if "a = p \<or> lv a \<noteq> 0" "j < 512" for a j
    using entry_installed [OF tp(1) _ f(2) t(2) that(2), of a "mem s"] that(1) f(2) tables_typedD(2) [OF ty]
    by (auto simp: m)
  note te = table_entry [OF f(2,3)]
  show ?thesis
    unfolding extends_def
  proof (intro conjI allI impI)
    show "?lv a = lv a" if "lv a \<noteq> 0" for a using that f(1) by auto
    show "entry (mem ?s) a j = entry (mem s) a j" if "links lv (mem s) a j" for a j
      using that ent [of a j] t(3) f(1) by (auto simp: links_def)
    show "frames_used (frame_bitmap s) \<subseteq> frames_used (frame_bitmap ?s)" using f(7) m(2) by auto
    show "lv a \<noteq> 0 \<or> a div PAGE_SIZE \<notin> frames_used (frame_bitmap s)" if "?lv a \<noteq> 0" for a
      using that f(8) by (auto split: if_splits)
    show "mem ?s x = mem s x"
      if "x div PAGE_SIZE \<in> frames_used (frame_bitmap s)" "lv (x div PAGE_SIZE * PAGE_SIZE) = 0" for x
    proof -
      have "\<not> (p \<le> x \<and> x < p + PAGE_SIZE)"
        using same_frame [OF f(2), of x] that(1) f(8) by (auto simp: PAGE_SIZE_def)
      moreover have "\<not> (t \<le> x \<and> x < t + PAGE_SIZE)" using same_frame [OF tp(1), of x] that(2) t(1) by auto
      ultimately show ?thesis using t(2) by (auto simp: m installed_def store64_def zero_frame_eq PAGE_SIZE_def)
    qed
    show "links lv (mem s) a j \<or> lv (entry_base (entry (mem ?s) a j)) = 0" if "links ?lv (mem ?s) a j" for a j
      using that ent [of a j] te f(1) tp(2) by (auto simp: links_def split: if_splits)
    show "lv a = 2" "pde_large (entry (mem s) a j)" if "j < 512" "?lv a = 2" "pde_large (entry (mem ?s) a j)" for a j
      using that ent [of a j] te by (auto split: if_splits)
  qed
qed

lemma extends_leaf:
  assumes "vm_inv lv Sh s" "lv pt = 1" "i < 512"
  shows "extends lv s lv (set_entry pt i e s)"
proof -
  have ty: "tables_typed lv (frame_bitmap s)" using assms(1) by (simp add: vm_inv_def)
  have pg: "pt mod PAGE_SIZE = 0" using tables_typedD(2) [OF ty, of pt] assms(2) by simp
  have ent: "entry (mem (set_entry pt i e s)) a j = entry (mem s) a j" if "2 \<le> lv a" "j < 512" for a j
    using that assms(2,3) pg tables_typedD(2) [OF ty, of a] by (auto simp: set_entry_def entry_store)
  have "mem (set_entry pt i e s) x = mem s x" if "lv (x div PAGE_SIZE * PAGE_SIZE) = 0" for x
    using same_frame [OF pg, of x] that assms(2,3) by (auto simp: set_entry_def store64_def PAGE_SIZE_def)
  with ent show ?thesis by (auto simp: extends_def links_def set_entry_def)
qed

lemma next_table_spec:
  assumes inv: "vm_inv lv Sh s" and t: "2 \<le> lv t" "i < 512"
    "lv t = 2 \<longrightarrow> \<not> pde_large (entry (mem s) t i)" and nt: "next_table t i s = (r, s')"
  obtains (full) "r = None" "s' = s" "frames_free s = 0"
  | (found) lv' p where "r = Some p" "vm_inv lv' Sh s'" "grows lv s lv' s'" "lv' p = lv t - 1"
      "links lv' (mem s') t i" "entry_base (entry (mem s') t i) = p"
      "if pte_present (entry (mem s) t i) then s' = s else \<forall>j<512. entry (mem s') p j = 0"
      "frames_free s \<le> Suc (frames_free s')" "extends lv s lv' s'"
proof (cases "pte_present (entry (mem s) t i)")
  case True
  then have "r = Some (entry_base (entry (mem s) t i))" "s' = s"
    using nt by (auto simp: next_table_def)
  moreover have "links lv (mem s) t i" using True t by (auto simp: links_def)
  moreover from this have "lv (entry_base (entry (mem s) t i)) = lv t - 1"
    using inv by (simp add: vm_inv_def links_down_def)
  ultimately show thesis using inv True by (intro found [of _ lv]) auto
next
  case False
  obtain p s1 where al: "alloc_frame s = (p, s1)" by fastforce
  have wf: "bitmap_wf (frame_bitmap s)" and ty: "tables_typed lv (frame_bitmap s)" "links_down lv (mem s)"
    and sl: "shared_large lv Sh (mem s)"
    using inv by (auto simp: vm_inv_def)
  obtain bm where a: "pmm_alloc_frame (frame_bitmap s) = (p, bm)" "s1 = s\<lparr>frame_bitmap := bm\<rparr>"
    using al by (auto simp: alloc_frame_def split: prod.splits)
  show thesis
  proof (cases "p = 0")
    case True
    with alloc_frame_none [OF wf] al have "s1 = s" by simp
    then have "r = None" "s' = s" using False True nt al by (simp_all add: next_table_def)
    moreover have "pmm.available (frame_bitmap s) = {}"
      using pmm.alloc_available(1) [OF wf a(1)] True by simp
    ultimately show thesis by (intro full) simp_all
  next
    case p: False
    have tS: "t \<notin> Sh" using sl t by (auto simp: shared_large_def)
    note f = alloc_frame_fresh [OF inv al p]
    let ?s = "set_entry t i (word_of_nat p OR 7) (vmm_zero_frame p s1)"
    let ?lv = "lv(p := lv t - 1)"
    have r: "r = Some p" "s' = ?s" using False p nt al by (simp_all add: next_table_def)
    have m: "mem ?s = installed t i p (mem s)" "frame_bitmap ?s = bm"
      using f(4) a(2) by (simp_all add: set_entry_def vmm_zero_frame_def installed_def)
    have pg: "a mod PAGE_SIZE = 0" "a \<noteq> p" if "lv a \<noteq> 0" for a
      using tables_typedD(2) [OF ty(1) that] f(1) that by auto
    have ent: "entry (mem ?s) a j = (if a = t \<and> j = i then word_of_nat p OR 7 else entry (mem s) a j)"
      if "lv a \<noteq> 0" "j < 512" for a j
      using entry_installed [OF pg(1) pg(1) [OF that(1)] f(2) t(2) that(2), of t "mem s"] pg(2) [OF that(1)] t(1)
      by (simp add: m)
    have inv': "vm_inv ?lv Sh ?s"
      using t False tS al p by (intro vm_inv_install [OF inv]) auto
    have "grows lv s ?lv ?s"
      using walk_installed [OF ty t(1,2) False f(1-3) refl] f(1) ent False
      by (auto simp: grows_def m(1) [symmetric] links_def)
    moreover have "links ?lv (mem ?s) t i" "entry_base (entry (mem ?s) t i) = p"
      using ent [of t i] t table_entry [OF f(2,3)] pg(2) [of t] by (simp_all add: links_def)
    moreover have "frames_free s \<le> Suc (frames_free ?s)"
    proof -
      from pmm.alloc_available(2) [OF wf a(1) p] obtain g where
        "g \<in> pmm.available (frame_bitmap s)" "pmm.available bm = pmm.available (frame_bitmap s) - {g}"
        by auto
      moreover have "finite (pmm.available (frame_bitmap s))" by (simp add: pmm_available)
      ultimately show ?thesis by (simp add: card_Diff_singleton_if m)
    qed
    moreover have "\<forall>j<512. entry (mem ?s) p j = 0"
      using entry_installed [OF pg(1) f(2) f(2) t(2), of t _ "mem s"] pg(2) [of t] t(1) by (simp add: m)
    moreover have "extends lv s ?lv ?s"
      by (rule extends_install [OF inv t(1,2) False al p])
    ultimately show thesis
      using inv' r False by (intro found [of p ?lv]) auto
  qed
qed

section \<open>Changing a leaf\<close>

lemma pt_at_level:
  "links_down lv m \<Longrightarrow> lv a = l \<Longrightarrow> pt_at m l a v = Some pt \<Longrightarrow> lv pt = 1"
proof (induction l arbitrary: a)
  case (Suc l)
  show ?case
  proof (cases "l = 0")
    case False
    let ?e = "entry m a (pt_index (12 + 9 * l) v)"
    from False Suc.prems(3) have e: "pte_present ?e" "\<not> (l = 1 \<and> pde_large ?e)"
      "pt_at m l (entry_base ?e) v = Some pt"
      by (simp_all add: Let_def split: if_splits)
    with False Suc.IH [OF Suc.prems(1) _ e(3)] links_step(2) [OF Suc.prems(1,2) _ e(1,2)]
    show ?thesis by simp
  qed (use Suc in simp)
qed simp

lemma walk_pt:
  "pt_at m l a v = Some pt \<Longrightarrow> walk m l a v =
     (if pte_present (entry m pt (pt_index 12 v)) then entry m pt (pt_index 12 v) AND NOT (mask 12) else 0)"
  by (induction l arbitrary: a) (auto simp: Let_def split: if_splits)

lemma entry_leaf_store:
  assumes "tables_typed lv bm" "lv pt \<noteq> 0" "lv a \<noteq> 0" "i < 512" "j < 512"
  shows "entry (store64 (pt + 8 * i) e m) a j = (if a = pt \<and> j = i then e else entry m a j)"
  using assms tables_typedD(2) [OF assms(1)] by (simp add: entry_store)

lemma pt_at_leaf_store:
  assumes "tables_typed lv bm" "links_down lv m" "lv pt = 1" "i < 512" "lv a = l"
  shows "pt_at (store64 (pt + 8 * i) e m) l a v = pt_at m l a v"
  using assms(5)
proof (induction l arbitrary: a)
  case (Suc l)
  show ?case
  proof (cases "l = 0")
    case False
    then have "entry (store64 (pt + 8 * i) e m) a (pt_index (12 + 9 * l) v) = entry m a (pt_index (12 + 9 * l) v)"
      using Suc.prems assms by (subst entry_leaf_store [OF assms(1)]) auto
    with False Suc.IH links_step(2) [OF assms(2) Suc.prems] show ?thesis by (auto simp: Let_def)
  qed simp
qed simp

lemma walk_leaf_store:
  assumes "tables_typed lv bm" "links_down lv m" "lv pt = 1" "i < 512" "lv a = l"
    "\<not> (pt_at m l a v = Some pt \<and> pt_index 12 v = i)"
  shows "walk (store64 (pt + 8 * i) e m) l a v = walk m l a v"
  using assms(5,6)
proof (induction l arbitrary: a)
  case (Suc l)
  have e: "entry (store64 (pt + 8 * i) e m) a (pt_index (12 + 9 * l) v) = entry m a (pt_index (12 + 9 * l) v)"
    using Suc.prems assms by (subst entry_leaf_store [OF assms(1)]) auto
  show ?case
  proof (cases "l = 0 \<or> \<not> pte_present (entry m a (pt_index (12 + 9 * l) v)) \<or>
      l = 1 \<and> pde_large (entry m a (pt_index (12 + 9 * l) v))")
    case False
    with Suc.IH links_step(2) [OF assms(2) Suc.prems(1)] Suc.prems(2) e show ?thesis
      by (auto simp: Let_def)
  qed (use e in \<open>auto simp: Let_def\<close>)
qed simp

lemma vm_inv_leaf_store:
  assumes "vm_inv lv Sh s" "lv pt = 1" "i < 512"
  shows "vm_inv lv Sh (set_entry pt i e s)"
proof -
  have ty: "tables_typed lv (frame_bitmap s)" using assms(1) by (simp add: vm_inv_def)
  have ent: "entry (mem (set_entry pt i e s)) a j = entry (mem s) a j" if "2 \<le> lv a" "j < 512" for a j
    using that assms(2,3) by (simp add: set_entry_def entry_leaf_store [OF ty]) auto
  then have lk: "links lv (mem (set_entry pt i e s)) a j = links lv (mem s) a j" for a j
    by (auto simp: links_def)
  have ent': "entry (mem (set_entry pt i e s)) a j = entry (mem s) a j" if "links lv (mem s) a j" for a j
    using ent that by (simp add: links_def)
  have "shared_large lv Sh (mem (set_entry pt i e s))"
    using assms(1) ent by (auto simp: vm_inv_def shared_large_def)
  moreover have "links_down lv (mem (set_entry pt i e s))"
    using assms(1) by (simp add: vm_inv_def links_down_def lk ent')
  moreover have "links_unique lv Sh (mem (set_entry pt i e s))"
    using assms(1) unfolding vm_inv_def links_unique_def lk by (metis ent')
  ultimately show ?thesis using assms(1) by (simp add: vm_inv_def set_entry_def)
qed

text \<open>A page table is reached from one root and one range of addresses only.\<close>

lemma pt_at_inj:
  assumes ld: "links_down lv m" and lu: "links_unique lv Sh m" and sl: "shared_large lv Sh m"
    and "lv a = l" "lv b = l" "pt_at m l a v = Some p" "pt_at m l b w = Some p"
  shows "a = b \<and> (\<forall>k. 0 < k \<longrightarrow> k < l \<longrightarrow> pt_index (12 + 9 * k) v = pt_index (12 + 9 * k) w)"
  using assms(4-7)
proof (induction l arbitrary: a b)
  case (Suc l)
  show ?case
  proof (cases "l = 0")
    case True
    with Suc.prems show ?thesis by simp
  next
    case False
    let ?i = "pt_index (12 + 9 * l) v" and ?j = "pt_index (12 + 9 * l) w"
    let ?e = "entry m a ?i" and ?f = "entry m b ?j"
    from False Suc.prems(3,4) have e: "pte_present ?e" "\<not> (l = 1 \<and> pde_large ?e)"
      "pt_at m l (entry_base ?e) v = Some p" and f: "pte_present ?f" "\<not> (l = 1 \<and> pde_large ?f)"
      "pt_at m l (entry_base ?f) w = Some p"
      by (simp_all add: Let_def split: if_splits)
    note le = links_step [OF ld Suc.prems(1) _ e(1,2)] and lf = links_step [OF ld Suc.prems(2) _ f(1,2)]
    from Suc.IH [OF le(2) lf(2) e(3) f(3)] False
    have b: "entry_base ?e = entry_base ?f"
      and ks: "\<forall>k. 0 < k \<longrightarrow> k < l \<longrightarrow> pt_index (12 + 9 * k) v = pt_index (12 + 9 * k) w" by auto
    have "entry_base ?e \<notin> Sh"
    proof
      assume "entry_base ?e \<in> Sh"
      with sl have "lv (entry_base ?e) = 2" "pde_large (entry m (entry_base ?e) (pt_index 21 v))"
        by (auto simp: shared_large_def)
      moreover from this have "pt_at m 2 (entry_base ?e) v = None" by (simp add: numeral_2_eq_2)
      ultimately show False using le(2) False e(3) by simp
    qed
    with lu le(1) lf(1) b False have "a = b \<and> ?i = ?j" unfolding links_unique_def by blast
    with ks show ?thesis by (auto simp: less_Suc_eq)
  qed
qed simp

text \<open>So a change of one leaf is invisible to every other page.\<close>

lemma walk_other_page:
  assumes "vm_inv lv Sh s" "lv root = 4" "pt_at (mem s) 4 root v = Some pt"
    "lv r = 4" "\<not> (r = root \<and> same_page w v)"
  shows "walk (mem (set_entry pt (pt_index 12 v) e s)) 4 r w = walk (mem s) 4 r w"
proof -
  have iv: "tables_typed lv (frame_bitmap s)" "links_down lv (mem s)" "links_unique lv Sh (mem s)"
    "shared_large lv Sh (mem s)" using assms(1) by (auto simp: vm_inv_def)
  have "\<not> (pt_at (mem s) 4 r w = Some pt \<and> pt_index 12 w = pt_index 12 v)"
  proof
    assume *: "pt_at (mem s) 4 r w = Some pt \<and> pt_index 12 w = pt_index 12 v"
    from pt_at_inj [OF iv(2-4) assms(4,2) conjunct1 [OF *] assms(3)]
    have "r = root" and k: "\<And>k. 0 < k \<Longrightarrow> k < 4 \<Longrightarrow> pt_index (12 + 9 * k) w = pt_index (12 + 9 * k) v"
      by auto
    have "pt_index (12 + 9 * k) w = pt_index (12 + 9 * k) v" if "k < 4" for k
      using k [of k] * that by (cases "k = 0") auto
    with \<open>r = root\<close> assms(5) show False by (simp add: same_page_def)
  qed
  with walk_leaf_store [OF iv(1,2) pt_at_level [OF iv(2) assms(2,3)] pt_index_less assms(4)]
  show ?thesis by (simp add: set_entry_def)
qed

section \<open>Mapping a page\<close>

lemma leaf_entry:
  assumes "flags AND NOT (mask 12) = 0"
  shows "pte_present ((phys AND NOT (mask 12)) OR flags OR (1 :: u64))"
    "((phys AND NOT (mask 12)) OR flags OR (1 :: u64)) AND NOT (mask 12) = phys AND NOT (mask 12)"
proof -
  have "\<not> bit flags n" if "\<not> n < 12" for n
    using assms that by (metis bit_and_iff bit_mask_iff bit_not_iff bit_0_eq bot_apply bot_bool_def
        bit_imp_possible_bit)
  then show "((phys AND NOT (mask 12)) OR flags OR (1 :: u64)) AND NOT (mask 12) = phys AND NOT (mask 12)"
    by (intro bit_eqI) (auto simp: bit_simps)
  show "pte_present ((phys AND NOT (mask 12)) OR flags OR (1 :: u64))"
    by (simp add: bit_simps)
qed

text \<open>What \<open>vmm_map_page\<close> does once it has come down to a page table.\<close>

lemma map_page_leaf:
  assumes inv: "vm_inv lv0 Sh s0" "vm_inv lv Sh s" "grows lv0 s0 lv s" and root: "lv0 root = 4"
    and pt: "pt_at (mem s) 4 root v = Some pt"
    and s': "s' = set_entry pt (pt_index 12 v) ((phys AND NOT (mask 12)) OR flags OR 1) s"
  shows "vm_inv lv Sh s'" "\<And>r w. lv0 r = 4 \<Longrightarrow> \<not> (r = root \<and> same_page w v) \<Longrightarrow>
       walk (mem s') 4 r w = walk (mem s0) 4 r w"
    "flags AND NOT (mask 12) = 0 \<Longrightarrow> walk (mem s') 4 root v = phys AND NOT (mask 12)"
    "pt_at (mem s') 4 root v = Some pt"
    "entry (mem s') pt (pt_index 12 v) = (phys AND NOT (mask 12)) OR flags OR 1"
proof -
  have lr: "lv r = 4" if "lv0 r = 4" for r using inv(3) that by (simp add: grows_def)
  have iv: "tables_typed lv (frame_bitmap s)" "links_down lv (mem s)" using inv(2) by (auto simp: vm_inv_def)
  have l1: "lv pt = 1" by (rule pt_at_level [OF iv(2) lr [OF root] pt])
  show "vm_inv lv Sh s'" unfolding s' by (rule vm_inv_leaf_store [OF inv(2) l1 pt_index_less])
  show "walk (mem s') 4 r w = walk (mem s0) 4 r w" if "lv0 r = 4" "\<not> (r = root \<and> same_page w v)" for r w
  proof -
    have "walk (mem s') 4 r w = walk (mem s) 4 r w"
      unfolding s' using that by (intro walk_other_page [OF inv(2) lr [OF root] pt lr]) auto
    also have "\<dots> = walk (mem s0) 4 r w" using inv(3) that(1) unfolding grows_def by (metis zero_neq_numeral)
    finally show ?thesis .
  qed
  show p: "pt_at (mem s') 4 root v = Some pt"
    using pt_at_leaf_store [OF iv l1 pt_index_less lr [OF root]] pt by (simp add: s' set_entry_def)
  show e: "entry (mem s') pt (pt_index 12 v) = (phys AND NOT (mask 12)) OR flags OR 1"
    using l1 by (simp add: s' set_entry_def entry_leaf_store [OF iv(1)])
  from p e show "walk (mem s') 4 root v = phys AND NOT (mask 12)" if "flags AND NOT (mask 12) = 0"
    using leaf_entry [OF that, of phys] by (simp add: walk_pt)
qed

definition map_result :: "(nat \<Rightarrow> nat) \<Rightarrow> nat set \<Rightarrow> nat \<Rightarrow> u64 \<Rightarrow> u64 \<Rightarrow> u64 \<Rightarrow> vm \<Rightarrow> vm \<Rightarrow> bool" where
  "map_result lv Sh root v phys flags s s' \<longleftrightarrow>
     (\<exists>lv'. vm_inv lv' Sh s' \<and> extends lv s lv' s') \<and> frames_free s \<le> frames_free s' + 3 \<and>
     (\<forall>r w. lv r = 4 \<longrightarrow> \<not> (r = root \<and> same_page w v) \<longrightarrow> walk (mem s') 4 r w = walk (mem s) 4 r w) \<and>
     (3 \<le> frames_free s \<longrightarrow> \<not> in_large_page root v (mem s) \<longrightarrow> flags AND NOT (mask 12) = 0 \<longrightarrow>
        walk (mem s') 4 root v = phys AND NOT (mask 12) \<and>
        (\<exists>pt. pt_at (mem s') 4 root v = Some pt \<and>
           entry (mem s') pt (pt_index 12 v) = (phys AND NOT (mask 12)) OR flags OR 1))"

lemma map_result_grows:
  assumes "vm_inv lv' Sh s'" "grows lv s lv' s'" "3 \<le> frames_free s \<Longrightarrow> in_large_page root v (mem s)"
    "extends lv s lv' s'" "frames_free s \<le> frames_free s' + 3"
  shows "map_result lv Sh root v phys flags s s'"
proof -
  have "walk (mem s') 4 r w = walk (mem s) 4 r w" if "lv r = 4" for r w
    using assms(2) that unfolding grows_def by (metis zero_neq_numeral)
  then show ?thesis using assms(1,3-5) unfolding map_result_def by blast
qed

lemma map_page_result:
  assumes inv: "vm_inv lv Sh s" and root: "lv root = 4"
  shows "map_result lv Sh root v phys flags s (vmm_map_page root v phys flags s)"
proof -
  let ?i4 = "pt_index 39 v" and ?i3 = "pt_index 30 v" and ?i2 = "pt_index 21 v"
  let ?R = "map_result lv Sh root v phys flags s"
  obtain r1 s1 where n1: "next_table root ?i4 s = (r1, s1)" by fastforce
  have root2: "2 \<le> lv root" "lv root = 2 \<longrightarrow> \<not> pde_large (entry (mem s) root ?i4)"
    using root by simp_all
  show ?thesis
  proof (rule next_table_spec [OF inv root2(1) pt_index_less root2(2) n1], goal_cases)
    case 1
    with n1 map_result_grows [OF inv grows_refl _ extends_refl] show ?thesis by (simp add: vmm_map_page_def)
  next
    case (2 lv1 pdpt)
    note f1 = this
    obtain r2 s2 where n2: "next_table pdpt ?i3 s1 = (r2, s2)" by fastforce
    have l3: "2 \<le> lv1 pdpt" "lv1 pdpt = 2 \<longrightarrow> \<not> pde_large (entry (mem s1) pdpt ?i3)" "lv1 pdpt = 3"
      using f1(4) root by simp_all
    show ?thesis
    proof (rule next_table_spec [OF f1(2) l3(1) pt_index_less l3(2) n2], goal_cases)
      case 1
      with n1 n2 f1 map_result_grows [OF f1(2,3) _ f1(9)] show ?thesis by (simp add: vmm_map_page_def)
    next
      case (2 lv2 pd)
      note f2 = this
      have g2: "grows lv s lv2 s2" by (rule grows_trans [OF f1(3) f2(3)])
      have x2: "extends lv s lv2 s2" by (rule extends_trans [OF f1(9) f2(9)])
      have l2: "lv2 pd = 2" using f2(4) l3 by simp
      show ?thesis
      proof (cases "pde_large (entry (mem s2) pd ?i2)")
        case True
        then have e3: "pte_present (entry (mem s1) pdpt ?i3)" "s2 = s1" "pd = entry_base (entry (mem s1) pdpt ?i3)"
          using f2 by (auto split: if_splits)
        then have "pte_present (entry (mem s) root ?i4)" "s1 = s" "pdpt = entry_base (entry (mem s) root ?i4)"
          using f1 by (auto split: if_splits)
        with e3 True have "in_large_page root v (mem s)" by (simp add: in_large_page_def)
        with True n1 n2 f1 f2 map_result_grows [OF f2(2) g2 _ x2] show ?thesis by (simp add: vmm_map_page_def)
      next
        case large: False
        obtain r3 s3 where n3: "next_table pd ?i2 s2 = (r3, s3)" by fastforce
        have ge: "2 \<le> lv2 pd" "lv2 pd = 2 \<longrightarrow> \<not> pde_large (entry (mem s2) pd ?i2)"
          using l2 large by simp_all
        show ?thesis
        proof (rule next_table_spec [OF f2(2) ge(1) pt_index_less ge(2) n3], goal_cases)
          case 1
          with n1 n2 n3 large f1 f2 map_result_grows [OF f2(2) g2 _ x2] show ?thesis
            by (simp add: vmm_map_page_def)
        next
          case (2 lv3 pt)
          note f3 = this
          have g3: "grows lv s lv3 s3" by (rule grows_trans [OF g2 f3(3)])
          have k2: "links lv3 (mem s3) pdpt ?i3" "entry (mem s3) pdpt ?i3 = entry (mem s2) pdpt ?i3"
            using grows_links [OF f3(3) f2(5)] f3(3) f2(5) by (auto simp: grows_def)
          have g13: "grows lv1 s1 lv3 s3" by (rule grows_trans [OF f2(3) f3(3)])
          have k1: "links lv3 (mem s3) root ?i4" "entry (mem s3) root ?i4 = entry (mem s1) root ?i4"
            using grows_links [OF g13 f1(5)] g13 f1(5) by (auto simp: grows_def)
          have "pt_at (mem s3) 4 root v = Some pt"
            using f1(6) f2(6) f3(5,6) k1 k2 f3(3) l2 by (simp add: numeral_eq_Suc links_def grows_def)
          note leaf = map_page_leaf [OF inv f3(2) g3 root this refl]
          have "vmm_map_page root v phys flags s =
              set_entry pt (pt_index 12 v) ((phys AND NOT (mask 12)) OR flags OR 1) s3"
            using n1 n2 n3 large f1(1) f2(1) f3(1) by (simp add: vmm_map_page_def)
          moreover have "lv3 pt = 1" using f3(4) l2 by simp
          then have "extends lv s lv3 (set_entry pt (pt_index 12 v) ((phys AND NOT (mask 12)) OR flags OR 1) s3)"
            by (intro extends_trans [OF extends_trans [OF x2 f3(9)] extends_leaf [OF f3(2)]]) auto
          moreover have "frames_free s \<le> frames_free s3 + 3" using f1(8) f2(8) f3(8) by simp
          ultimately show ?thesis using leaf unfolding map_result_def by (auto simp: set_entry_def)
        qed
      qed
    qed
  qed
qed

text \<open>
  C3. Mapping a page. In a set of address spaces that are in order, \<open>vmm_map_page\<close> keeps them in
  order and changes the translation of no other page, neither in this nor in any other address
  space, even when it runs out of frames half way. When three frames are free and the address is
  not inside a 2 MB page, the page is mapped to the given frame afterwards.
\<close>

theorem vmm_map_page_correct:
  assumes "vm_ok R s" "root \<in> R" "s' = vmm_map_page root v phys flags s"
  shows "vm_ok R s' \<and>
    (\<forall>r\<in>R. \<forall>w. \<not> (r = root \<and> same_page w v) \<longrightarrow> vmm_get_phys r w (mem s') = vmm_get_phys r w (mem s)) \<and>
    (3 \<le> pmm_free_count (frame_bitmap s) \<longrightarrow> \<not> in_large_page root v (mem s) \<longrightarrow>
     flags AND NOT (mask 12) = 0 \<longrightarrow> vmm_get_phys root v (mem s') = phys AND NOT (mask 12))"
proof -
  from assms(1) obtain lv where lv: "vm_inv lv boot_pds s" "\<forall>r\<in>R. lv r = 4" by (auto simp: vm_ok_def)
  have wf: "bitmap_wf (frame_bitmap s)" using lv(1) by (simp add: vm_inv_def)
  have nz: "r \<noteq> 0" if "r \<in> R" for r
    using tables_typedD(1) [of lv "frame_bitmap s" r] lv that by (auto simp: vm_inv_def)
  from map_page_result [OF lv(1), of root v phys flags] lv(2) assms(2,3)
  have m: "map_result lv boot_pds root v phys flags s s'" by simp
  then obtain lv' where "vm_inv lv' boot_pds s'" "\<forall>a. lv a \<noteq> 0 \<longrightarrow> lv' a = lv a"
    unfolding map_result_def extends_def by blast
  with lv(2) have "vm_ok R s'" unfolding vm_ok_def by (metis zero_neq_numeral)
  with m lv(2) nz assms(2) show ?thesis
    by (auto simp: map_result_def vmm_get_phys_walk pmm_free_count_card [OF wf])
qed

section \<open>A new address space\<close>

lemma walk_cong:
  assumes "links_down lv m" "\<And>a j. lv a \<noteq> 0 \<Longrightarrow> j < 512 \<Longrightarrow> entry m' a j = entry m a j" "lv a = l"
  shows "walk m' l a v = walk m l a v"
  using assms(3)
proof (induction l arbitrary: a)
  case (Suc l)
  let ?j = "pt_index (12 + 9 * l) v"
  have e: "entry m' a ?j = entry m a ?j" using assms(2) Suc.prems by simp
  show ?case
  proof (cases "l = 0 \<or> \<not> pte_present (entry m a ?j) \<or> l = 1 \<and> pde_large (entry m a ?j)")
    case False
    with Suc.IH links_step(2) [OF assms(1) Suc.prems] e show ?thesis by (auto simp: Let_def)
  qed (use e in \<open>auto simp: Let_def\<close>)
qed simp

lemma set_entry_simps [simp]:
  "frame_bitmap (set_entry t i e s) = frame_bitmap s" "frame_cow_cnt (set_entry t i e s) = frame_cow_cnt s"
  "frame_bitmap (vmm_zero_frame p s) = frame_bitmap s" "mem (vmm_zero_frame p s) = zero_frame p (mem s)"
  by (simp_all add: set_entry_def vmm_zero_frame_def)

lemma entry_set_entry:
  assumes "t mod PAGE_SIZE = 0" "u mod PAGE_SIZE = 0" "i < 512" "j < 512"
  shows "entry (mem (set_entry t i e s)) u j = (if u = t \<and> j = i then e else entry (mem s) u j)"
  using entry_store [OF assms] by (simp add: set_entry_def)

lemma fold_set_entry_bitmap [simp]:
  "frame_bitmap (fold (\<lambda>(i, e). set_entry t i e) xs s) = frame_bitmap s"
  by (induction xs arbitrary: s) auto

lemma fold_set_entry:
  assumes "t mod PAGE_SIZE = 0" "u mod PAGE_SIZE = 0" "j < 512" "\<forall>(i, e)\<in>set xs. i < 512" "distinct (map fst xs)"
  shows "entry (mem (fold (\<lambda>(i, e). set_entry t i e) xs s)) u j =
    (if u = t then (case map_of xs j of Some e \<Rightarrow> e | None \<Rightarrow> entry (mem s) u j) else entry (mem s) u j)"
  using assms(4,5)
proof (induction xs arbitrary: s)
  case (Cons x xs)
  obtain i e where x: "x = (i, e)" by fastforce
  with Cons.prems have "map_of xs i = None" by (auto simp: map_of_eq_None_iff)
  with Cons.IH [of "set_entry t i e s"] Cons.prems assms(1-3) x show ?case
    by (auto simp: entry_set_entry split: option.splits)
qed simp

text \<open>The three tables of a new address space, as \<open>vmm_create_page_dir\<close> leaves them.\<close>

definition fresh_space :: "nat \<Rightarrow> nat \<Rightarrow> nat \<Rightarrow> phys_mem \<Rightarrow> phys_mem \<Rightarrow> bool" where
  "fresh_space p4 p3 p2 m m' \<longleftrightarrow> (\<forall>u j. u mod PAGE_SIZE = 0 \<longrightarrow> j < 512 \<longrightarrow> entry m' u j =
     (if u = p4 then (if j = 0 then word_of_nat p3 OR 7 else 0)
      else if u = p3 then
        (if j = 0 then word_of_nat p2 OR 7 else if j = 1 then 0x4003 else if j = 2 then 0x5003
         else if j = 3 then 0x6003 else 0)
      else if u = p2 then (case map_of pd_low_entries j of Some e \<Rightarrow> e | None \<Rightarrow> 0)
      else entry m u j))"

lemma pd_low_entries_ok:
  "distinct (map fst pd_low_entries)" "\<forall>(i, e)\<in>set pd_low_entries. i < 512 \<and> pde_large e"
  by (simp_all add: pd_low_entries_def)

text \<open>The invariant does not look beyond the tables.\<close>

lemma vm_inv_frame:
  assumes "vm_inv lv Sh s" "bitmap_wf (frame_bitmap s')"
    "frames_used (frame_bitmap s) \<subseteq> frames_used (frame_bitmap s')"
    "\<And>a j. lv a \<noteq> 0 \<Longrightarrow> j < 512 \<Longrightarrow> entry (mem s') a j = entry (mem s) a j"
  shows "vm_inv lv Sh s'"
proof -
  have lk: "links lv (mem s') a j = links lv (mem s) a j" for a j
    using assms(4) [of a j] by (auto simp: links_def)
  have ent: "entry (mem s') a j = entry (mem s) a j" if "links lv (mem s) a j" for a j
    using that assms(4) [of a j] by (simp add: links_def)
  have "tables_typed lv (frame_bitmap s')"
    using assms(1,3) by (auto simp: vm_inv_def tables_typed_def)
  moreover have "links_down lv (mem s')" using assms(1) by (simp add: vm_inv_def links_down_def lk ent)
  moreover have "links_unique lv Sh (mem s')"
    using assms(1) unfolding vm_inv_def links_unique_def lk by (metis ent)
  moreover have "shared_large lv Sh (mem s')"
    using assms(1,4) by (auto simp: vm_inv_def shared_large_def)
  ultimately show ?thesis using assms(2) by (simp add: vm_inv_def)
qed

lemma frames_distinct:
  "p mod PAGE_SIZE = 0 \<Longrightarrow> q mod PAGE_SIZE = 0 \<Longrightarrow> p = q \<longleftrightarrow> p div PAGE_SIZE = q div PAGE_SIZE"
  by (metis add.right_neutral div_mult_mod_eq)

lemma vmm_create_page_dir_tables:
  assumes wf: "bitmap_wf (frame_bitmap s)" and cr: "vmm_create_page_dir s = (p4, s')" "p4 \<noteq> 0"
  obtains p3 p2 where "fresh_space p4 p3 p2 (mem s) (mem s')" "distinct [p4, p3, p2]"
    "\<forall>p\<in>{p4, p3, p2}. p \<noteq> 0 \<and> p mod PAGE_SIZE = 0 \<and> p < 2 ^ 64 \<and> p div PAGE_SIZE \<notin> frames_used (frame_bitmap s)"
    "bitmap_wf (frame_bitmap s')" "frames_used (frame_bitmap s') =
       frames_used (frame_bitmap s) \<union> {p4 div PAGE_SIZE, p3 div PAGE_SIZE, p2 div PAGE_SIZE}"
proof -
  obtain q4 s1 where a1: "alloc_frame s = (q4, s1)" by fastforce
  with cr have q4: "q4 \<noteq> 0" by (auto simp: vmm_create_page_dir_def Let_def split: if_splits)
  let ?s1 = "vmm_zero_frame q4 s1"
  note b1 = alloc_frame_basic [OF wf a1 q4]
  obtain p3 s2 where a2: "alloc_frame ?s1 = (p3, s2)" by fastforce
  with a1 q4 cr have p3: "p3 \<noteq> 0" by (auto simp: vmm_create_page_dir_def Let_def split: if_splits)
  have wf1: "bitmap_wf (frame_bitmap ?s1)" using b1(5) by simp
  note b2 = alloc_frame_basic [OF wf1 a2 p3]
  let ?s2 = "vmm_zero_frame p3 s2"
  obtain p2 s3 where a3: "alloc_frame ?s2 = (p2, s3)" by fastforce
  with a1 a2 q4 p3 cr have p2: "p2 \<noteq> 0" by (auto simp: vmm_create_page_dir_def Let_def split: if_splits)
  have wf2: "bitmap_wf (frame_bitmap ?s2)" using b2(5) by simp
  note b3 = alloc_frame_basic [OF wf2 a3 p2]
  have ne: "q4 \<noteq> p3" "q4 \<noteq> p2" "p3 \<noteq> p2"
    using b1(1,6,7) b2(1,6,7) b3(1,6,7) frames_distinct by auto
  let ?s3 = "set_entry p3 3 0x6003 (set_entry p3 2 0x5003 (set_entry p3 1 0x4003
    (set_entry p3 0 (word_of_nat p2 OR 7) (set_entry q4 0 (word_of_nat p3 OR 7) (vmm_zero_frame p2 s3)))))"
  have r: "p4 = q4" "s' = fold (\<lambda>(i, e). set_entry p2 i e) pd_low_entries ?s3"
    using cr a1 a2 a3 q4 p3 p2 by (auto simp: vmm_create_page_dir_def Let_def)
  have fs: "fresh_space q4 p3 p2 (mem s) (mem s')"
    unfolding fresh_space_def
  proof (intro allI impI)
    fix u j :: nat
    assume u: "u mod PAGE_SIZE = 0" "j < 512"
    have "\<forall>(i, e)\<in>set pd_low_entries. i < 512" using pd_low_entries_ok(2) by auto
    note fo = fold_set_entry [OF b3(1) u this pd_low_entries_ok(1), of ?s3]
    have base: "entry (mem (vmm_zero_frame p2 s3)) u j = (if u \<in> {q4, p3, p2} then 0 else entry (mem s) u j)"
      using u b1(1,3) b2(1,3) b3(1,3) by (simp add: entry_zero_frame)
    show "entry (mem s') u j = (if u = q4 then (if j = 0 then word_of_nat p3 OR 7 else 0)
      else if u = p3 then
        (if j = 0 then word_of_nat p2 OR 7 else if j = 1 then 0x4003 else if j = 2 then 0x5003
         else if j = 3 then 0x6003 else 0)
      else if u = p2 then (case map_of pd_low_entries j of Some e \<Rightarrow> e | None \<Rightarrow> 0)
      else entry (mem s) u j)"
      unfolding r(2) fo
      using u ne b1(1) b2(1) b3(1) base
      by (cases "u = q4"; cases "u = p3"; cases "u = p2")
        (simp_all add: entry_set_entry del: set_entry_simps cong: option.case_cong)
  qed
  have bw: "bitmap_wf (frame_bitmap s')" and fu: "frames_used (frame_bitmap s') =
      frames_used (frame_bitmap s) \<union> {q4 div PAGE_SIZE, p3 div PAGE_SIZE, p2 div PAGE_SIZE}"
    using b1(6) b2(6) b3(5,6) pd_low_entries_ok by (auto simp: r(2))
  have "\<forall>p\<in>{q4, p3, p2}. p \<noteq> 0 \<and> p mod PAGE_SIZE = 0 \<and> p < 2 ^ 64 \<and>
      p div PAGE_SIZE \<notin> frames_used (frame_bitmap s)"
    using q4 p3 p2 b1(1,2,6,7) b2(1,2,6,7) b3(1,2,7) by simp
  with fs ne bw fu show thesis by (intro that) (simp_all add: r(1))
qed

lemma pt_index_eq: "pt_index sh v = unat v div 2 ^ sh mod 512"
proof -
  have lt: "unat v mod 2 ^ 64 = unat v" using unsigned_less [of v, where ?'a = nat] by simp
  have "pt_index sh v = unat (take_bit 9 (drop_bit sh v))"
    by (simp add: pt_index_def take_bit_eq_mask)
  also have "\<dots> = unat v div 2 ^ sh mod 512"
    by (simp only: unsigned_take_bit_eq unsigned_drop_bit_eq)
      (use lt in \<open>simp add: take_bit_eq_mod drop_bit_eq_div\<close>)
  finally show ?thesis .
qed

lemma large_page_address:
  assumes "unat v div 2 ^ 21 = k" "k < 2 ^ 43" "unat (e AND NOT (mask 21)) = k * 2 ^ 21"
  shows "(e AND NOT (mask 21)) + (v AND mask 21) = (v :: u64)"
proof -
  have "unat (v AND mask 21) = unat v mod 2 ^ 21"
    by (simp only: take_bit_eq_mask [symmetric] unsigned_take_bit_eq) (simp add: take_bit_eq_mod)
  moreover have "unat v = k * 2 ^ 21 + unat v mod 2 ^ 21"
    using assms(1) div_mult_mod_eq [of "unat v" "2 ^ 21"] by simp
  ultimately have "unat (e AND NOT (mask 21)) + unat (v AND mask 21) = unat v"
    using assms(3) by simp
  then show ?thesis
    using unsigned_less [of v, where ?'a = nat]
    by (intro word_unat_eq_iff [THEN iffD2]) (simp add: unat_word_ariths)
qed

lemma fresh_space_inv:
  assumes inv: "vm_inv lv boot_pds s" and fs: "fresh_space p4 p3 p2 (mem s) (mem s')"
    and d: "distinct [p4, p3, p2]" and p: "\<forall>p\<in>{p4, p3, p2}. p \<noteq> 0 \<and> p mod PAGE_SIZE = 0 \<and> p < 2 ^ 64 \<and>
      p div PAGE_SIZE \<notin> frames_used (frame_bitmap s)"
    and bm: "bitmap_wf (frame_bitmap s')" "frames_used (frame_bitmap s') =
       frames_used (frame_bitmap s) \<union> {p4 div PAGE_SIZE, p3 div PAGE_SIZE, p2 div PAGE_SIZE}"
  shows "vm_inv (lv(p4 := 4, p3 := 3, p2 := 2)) boot_pds s'"
    "\<And>a j. lv a \<noteq> 0 \<Longrightarrow> j < 512 \<Longrightarrow> entry (mem s') a j = entry (mem s) a j"
proof -
  let ?lv = "lv(p4 := 4, p3 := 3, p2 := 2)"
  have iv: "tables_typed lv (frame_bitmap s)" "links_down lv (mem s)" "links_unique lv boot_pds (mem s)"
    "shared_large lv boot_pds (mem s)" using inv by (auto simp: vm_inv_def)
  have z: "lv p4 = 0" "lv p3 = 0" "lv p2 = 0" using p fresh_not_table [OF iv(1)] by auto
  show old: "entry (mem s') a j = entry (mem s) a j" if "lv a \<noteq> 0" "j < 512" for a j
    using fs that z tables_typedD(2) [OF iv(1) that(1)] by (auto simp: fresh_space_def)
  have boot: "lv b = 2" if "b \<in> boot_pds" for b using iv(4) that by (simp add: shared_large_def)
  have t3: "entry_base (word_of_nat p3 OR 7) = p3" "entry_base (word_of_nat p2 OR 7) = p2"
    using p by (auto intro!: table_entry(1))
  have e4: "entry (mem s') p4 j = (if j = 0 then word_of_nat p3 OR 7 else 0)" if "j < 512" for j
    using fs p that by (simp add: fresh_space_def)
  have e3: "entry (mem s') p3 j = (if j = 0 then word_of_nat p2 OR 7 else if j = 1 then 0x4003
      else if j = 2 then 0x5003 else if j = 3 then 0x6003 else 0)" if "j < 512" for j
    using fs p that d by (simp add: fresh_space_def)
  have e2: "entry (mem s') p2 j = (case map_of pd_low_entries j of Some e \<Rightarrow> e | None \<Rightarrow> 0)" if "j < 512" for j
    using fs p that d by (simp add: fresh_space_def)
  have no2: "\<not> links ?lv (mem s') p2 j" for j
    using e2 [of j] pd_low_entries_ok(2) d by (auto simp: links_def split: option.splits dest: map_of_SomeD)
  have lk: "links ?lv (mem s') a j \<Longrightarrow> a = p4 \<and> j = 0 \<or> a = p3 \<and> j < 4 \<or> links lv (mem s) a j" for a j
    using no2 [of j] e4 [of j] e3 [of j] old [of a j] d z
    by (cases "a = p4"; cases "a = p3"; cases "a = p2") (auto simp: links_def split: if_splits)
  have b3: "entry_base 0x4003 = 0x4000" "entry_base 0x5003 = 0x5000" "entry_base 0x6003 = 0x6000"
    by (simp_all add: entry_base_def unat_and_not_mask)
  have base: "entry_base (entry (mem s') p4 0) = p3" "entry_base (entry (mem s') p3 0) = p2"
    "j < 4 \<Longrightarrow> j \<noteq> 0 \<Longrightarrow> entry_base (entry (mem s') p3 j) \<in> boot_pds" for j
    using e4 [of 0] e3 [of 0] e3 [of j] t3 b3 by (auto simp: boot_pds_def)
  have olds: "lv (entry_base (entry (mem s) a j)) = lv a - 1" "lv a - 1 \<noteq> 0" "entry (mem s') a j = entry (mem s) a j"
    if "links lv (mem s) a j" for a j
  proof -
    have "2 \<le> lv a" "j < 512" using that by (simp_all add: links_def)
    then show "lv a - 1 \<noteq> 0" "entry (mem s') a j = entry (mem s) a j" using old [of a j] by simp_all
    show "lv (entry_base (entry (mem s) a j)) = lv a - 1" using iv(2) that by (simp add: links_down_def)
  qed
  have "tables_typed ?lv (frame_bitmap s')"
    unfolding tables_typed_def
  proof (intro allI impI)
    fix t assume "?lv t \<noteq> 0"
    then show "?lv t \<le> 4 \<and> t \<noteq> 0 \<and> t mod PAGE_SIZE = 0 \<and> t div PAGE_SIZE \<in> frames_used (frame_bitmap s')"
      using p bm(2) tables_typedD(1-4) [OF iv(1), of t] by (cases "t \<in> {p4, p3, p2}") auto
  qed
  moreover have "links_down ?lv (mem s')"
    unfolding links_down_def
  proof (intro allI impI)
    fix a j assume "links ?lv (mem s') a j"
    then consider "a = p4" "j = 0" | "a = p3" "j < 4" | "links lv (mem s) a j" using lk by blast
    then show "?lv (entry_base (entry (mem s') a j)) = ?lv a - 1"
    proof cases
      case 1
      then show ?thesis using base(1) d by simp
    next
      case 2
      then show ?thesis using base(2) base(3) [of j] boot z d by (cases "j = 0") auto
    next
      case 3
      then show ?thesis using olds [OF 3] z by auto
    qed
  qed
  moreover have "links_unique ?lv boot_pds (mem s')"
    unfolding links_unique_def
  proof (intro allI impI)
    fix t i u j
    let ?b = "entry_base (entry (mem s') t i)"
    assume l: "links ?lv (mem s') t i" "links ?lv (mem s') u j"
      and eq: "?b = entry_base (entry (mem s') u j)" and nb: "?b \<notin> boot_pds"
    have cls: "a = p4 \<and> k = 0 \<and> entry_base (entry (mem s') a k) = p3 \<or>
        a = p3 \<and> k = 0 \<and> entry_base (entry (mem s') a k) = p2 \<or>
        links lv (mem s) a k \<and> lv (entry_base (entry (mem s') a k)) \<noteq> 0"
      if "links ?lv (mem s') a k" "entry_base (entry (mem s') a k) \<notin> boot_pds" for a k
      using lk [OF that(1)] base(1,2) base(3) [of k] olds [of a k] that(2) by (cases "k = 0") auto
    from cls [OF l(1) nb] cls [OF l(2)] eq nb z d
    consider "t = u" "i = j" | "links lv (mem s) t i" "links lv (mem s) u j" by auto
    then show "t = u \<and> i = j"
    proof cases
      case 2
      with iv(3) olds(3) eq nb show ?thesis unfolding links_unique_def by metis
    qed simp
  qed
  moreover have "shared_large ?lv boot_pds (mem s')"
    using iv(4) old z unfolding shared_large_def by (auto simp: boot)
  ultimately show "vm_inv ?lv boot_pds s'" using bm(1) by (simp add: vm_inv_def)
qed

lemma fresh_space_walk:
  assumes fs: "fresh_space p4 p3 p2 m m'" and d: "distinct [p4, p3, p2]"
    and p: "\<forall>p\<in>{p4, p3, p2}. p mod PAGE_SIZE = 0 \<and> p < 2 ^ 64" and v: "unat v < 2 ^ 30"
  shows "walk m' 4 p4 v =
    (case map_of pd_low_entries (unat v div 2 ^ 21) of
       None \<Rightarrow> 0 | Some e \<Rightarrow> if pte_present e then (e AND NOT (mask 21)) + (v AND mask 21) else 0)"
proof -
  have i: "pt_index 39 v = 0" "pt_index 30 v = 0" "pt_index 21 v = unat v div 2 ^ 21"
    using v by (auto simp: pt_index_eq less_mult_imp_div_less)
  have e: "entry m' p4 0 = word_of_nat p3 OR 7" "entry m' p3 0 = word_of_nat p2 OR 7"
    "entry m' p2 (pt_index 21 v) = (case map_of pd_low_entries (pt_index 21 v) of Some e \<Rightarrow> e | None \<Rightarrow> 0)"
    using fs d p by (simp_all add: fresh_space_def)
  have t: "entry_base (word_of_nat p3 OR 7) = p3" "pte_present (word_of_nat p3 OR 7 :: u64)"
    "entry_base (word_of_nat p2 OR 7) = p2" "pte_present (word_of_nat p2 OR 7 :: u64)"
    using p by (auto intro!: table_entry)
  have "walk m' 4 p4 v = (let e = entry m' p2 (pt_index 21 v) in if \<not> pte_present e then 0
      else if pde_large e then (e AND NOT (mask 21)) + (v AND mask 21) else walk m' 1 (entry_base e) v)"
    using i(1,2) e(1,2) t by (simp add: numeral_eq_Suc Let_def)
  also have "\<dots> = (case map_of pd_low_entries (unat v div 2 ^ 21) of
       None \<Rightarrow> 0 | Some e \<Rightarrow> if pte_present e then (e AND NOT (mask 21)) + (v AND mask 21) else 0)"
  proof (cases "map_of pd_low_entries (pt_index 21 v)")
    case (Some x)
    then have "pde_large x" using pd_low_entries_ok(2) by (auto dest: map_of_SomeD)
    with Some e(3) show ?thesis unfolding i(3) [symmetric] by (simp add: Let_def)
  next
    case None
    with e(3) show ?thesis unfolding i(3) [symmetric] by simp
  qed
  finally show ?thesis .
qed

lemma kernel_identity:
  assumes "unat v < 0x800000"
  shows "case map_of pd_low_entries (unat v div 2 ^ 21) of
    None \<Rightarrow> False | Some e \<Rightarrow> pte_present e \<and> (e AND NOT (mask 21)) + (v AND mask 21) = (v :: u64)"
proof -
  let ?k = "unat v div 2 ^ 21"
  have "?k < 4" using assms by (simp add: less_mult_imp_div_less)
  then consider "?k = 0" | "?k = 1" | "?k = 2" | "?k = 3" by linarith
  then show ?thesis
  proof cases
    case 1
    with large_page_address [OF 1, of "0x87"] show ?thesis
      by (simp add: pd_low_entries_def unat_and_not_mask)
  next
    case 2
    with large_page_address [OF 2, of "0x200087"] show ?thesis
      by (simp add: pd_low_entries_def unat_and_not_mask)
  next
    case 3
    with large_page_address [OF 3, of "0x400087"] show ?thesis
      by (simp add: pd_low_entries_def unat_and_not_mask)
  next
    case 4
    with large_page_address [OF 4, of "0x600087"] show ?thesis
      by (simp add: pd_low_entries_def unat_and_not_mask)
  qed
qed

lemma new_space:
  assumes "vm_ok R s" "vmm_create_page_dir s = (root, s')" "root \<noteq> 0"
  obtains p3 p2 where "fresh_space root p3 p2 (mem s) (mem s')" "distinct [root, p3, p2]"
    "\<forall>p\<in>{root, p3, p2}. p mod PAGE_SIZE = 0 \<and> p < 2 ^ 64" "root \<notin> R" "vm_ok (insert root R) s'"
    "\<forall>r\<in>R. \<forall>w. vmm_get_phys r w (mem s') = vmm_get_phys r w (mem s)"
proof -
  from assms(1) obtain lv where lv: "vm_inv lv boot_pds s" "\<forall>r\<in>R. lv r = 4" by (auto simp: vm_ok_def)
  have iv: "bitmap_wf (frame_bitmap s)" "tables_typed lv (frame_bitmap s)" "links_down lv (mem s)"
    using lv(1) by (auto simp: vm_inv_def)
  obtain p3 p2 where fs: "fresh_space root p3 p2 (mem s) (mem s')" and d: "distinct [root, p3, p2]"
    and p: "\<forall>p\<in>{root, p3, p2}. p \<noteq> 0 \<and> p mod PAGE_SIZE = 0 \<and> p < 2 ^ 64 \<and>
      p div PAGE_SIZE \<notin> frames_used (frame_bitmap s)"
    and bm: "bitmap_wf (frame_bitmap s')" "frames_used (frame_bitmap s') =
       frames_used (frame_bitmap s) \<union> {root div PAGE_SIZE, p3 div PAGE_SIZE, p2 div PAGE_SIZE}"
    by (rule vmm_create_page_dir_tables [OF iv(1) assms(2,3)])
  note fi = fresh_space_inv [OF lv(1) fs d p bm]
  have z: "lv root = 0" "lv p3 = 0" "lv p2 = 0" using p fresh_not_table [OF iv(2)] by auto
  then have "root \<notin> R" using lv(2) by auto
  moreover have "vm_ok (insert root R) s'"
    unfolding vm_ok_def using fi(1) lv(2) z d by (intro exI [of _ "lv(root := 4, p3 := 3, p2 := 2)"]) auto
  moreover have "vmm_get_phys r w (mem s') = vmm_get_phys r w (mem s)" if "r \<in> R" for r w
    using walk_cong [OF iv(3) fi(2), of r 4] lv(2) that by (simp add: vmm_get_phys_walk)
  moreover have "\<forall>p\<in>{root, p3, p2}. p mod PAGE_SIZE = 0 \<and> p < 2 ^ 64" using p by auto
  ultimately show ?thesis using that fs d by blast
qed

lemma new_space_kernel:
  assumes "vm_ok R s" "vmm_create_page_dir s = (root, s')" "root \<noteq> 0" "unat v < 0x800000"
  shows "vmm_get_phys root v (mem s') = v"
proof -
  obtain p3 p2 where "fresh_space root p3 p2 (mem s) (mem s')" "distinct [root, p3, p2]"
    "\<forall>p\<in>{root, p3, p2}. p mod PAGE_SIZE = 0 \<and> p < 2 ^ 64" by (rule new_space [OF assms(1-3)])
  from fresh_space_walk [OF this, of v] kernel_identity [OF assms(4)] assms(3,4) show ?thesis
    by (auto simp: vmm_get_phys_walk split: option.splits)
qed

lemma new_space_user:
  assumes "vm_ok R s" "vmm_create_page_dir s = (root, s')" "root \<noteq> 0"
    "0x800000 \<le> unat v" "unat v < 0x4000000"
  shows "vmm_get_phys root v (mem s') = 0"
proof -
  obtain p3 p2 where fs: "fresh_space root p3 p2 (mem s) (mem s')" "distinct [root, p3, p2]"
    "\<forall>p\<in>{root, p3, p2}. p mod PAGE_SIZE = 0 \<and> p < 2 ^ 64" by (rule new_space [OF assms(1-3)])
  have "4 \<le> unat v div 2 ^ 21" "unat v div 2 ^ 21 < 32"
    using assms(4,5) div_le_mono [of "4 * 2 ^ 21" "unat v" "2 ^ 21"] by (simp_all add: less_mult_imp_div_less)
  then have "map_of pd_low_entries (unat v div 2 ^ 21) = None" by (auto simp: pd_low_entries_def)
  with fresh_space_walk [OF fs, of v] assms(3,5) show ?thesis by (simp add: vmm_get_phys_walk)
qed

text \<open>
  A new address space. When \<open>vmm_create_page_dir\<close> succeeds, the new root joins the address
  spaces in order and is none of the old ones, whose translations do not change; in the new space
  the first 8 MB are mapped to themselves and the user range from 8 MB to 64 MB is empty.
\<close>

theorem vmm_create_page_dir_correct:
  assumes "vm_ok R s" "vmm_create_page_dir s = (root, s')" "root \<noteq> 0"
  shows "vm_ok (insert root R) s' \<and> root \<notin> R \<and>
    (\<forall>r\<in>R. \<forall>w. vmm_get_phys r w (mem s') = vmm_get_phys r w (mem s)) \<and>
    (\<forall>v. unat v < 0x800000 \<longrightarrow> vmm_get_phys root v (mem s') = v) \<and>
    (\<forall>v. 0x800000 \<le> unat v \<longrightarrow> unat v < 0x4000000 \<longrightarrow> vmm_get_phys root v (mem s') = 0)"
proof -
  have "vm_ok (insert root R) s'" "root \<notin> R"
    "\<forall>r\<in>R. \<forall>w. vmm_get_phys r w (mem s') = vmm_get_phys r w (mem s)"
    by (rule new_space [OF assms]; blast)+
  with new_space_kernel [OF assms] new_space_user [OF assms] show ?thesis by blast
qed

section \<open>The state after boot\<close>

text \<open>
  The boot page directories filled with 2 MB pages as \<open>kernel_entry.asm\<close> leaves them (only the
  low byte of the entries matters here), everything else clear.
\<close>

definition boot_vm :: vm where
  "boot_vm = \<lparr>mem = (\<lambda>x. if 0x4000 \<le> x \<and> x < 0x7000 \<and> x mod 8 = 0 then 0x83 else 0),
     frame_bitmap = pmm_init (replicate 2048 0), frame_cow_cnt = replicate TOTAL_FRAMES 0\<rparr>"

lemma vm_ok_boot: "vm_ok {} boot_vm"
proof -
  let ?lv = "\<lambda>a. if a \<in> boot_pds then 2 else 0 :: nat"
  have large: "pde_large (entry (mem boot_vm) a j)" if "a \<in> boot_pds" "j < 512" for a j
    using that by (auto simp: entry_def bit_load64 boot_vm_def boot_pds_def)
  then have "\<not> links ?lv (mem boot_vm) a j" for a j by (auto simp: links_def)
  moreover have "tables_typed ?lv (frame_bitmap boot_vm)"
    using frames_used_init [of "replicate 2048 0"]
    by (auto simp: tables_typed_def boot_vm_def boot_pds_def bitmap_wf_def TOTAL_FRAMES_def PAGE_SIZE_def
        KERNEL_RESERVED_FRAMES_def split: if_splits)
  ultimately have "vm_inv ?lv boot_pds boot_vm"
    using large bitmap_wf_init
    by (auto simp: vm_inv_def links_down_def links_unique_def shared_large_def boot_vm_def)
  then show ?thesis by (auto simp: vm_ok_def)
qed

lemma alloc_frame_succeeds:
  assumes "bitmap_wf (frame_bitmap s)" "0 < frames_free s" "alloc_frame s = (p, s1)"
  shows "p \<noteq> 0" "frames_free s1 = frames_free s - 1"
proof -
  obtain bm where a: "pmm_alloc_frame (frame_bitmap s) = (p, bm)" "s1 = s\<lparr>frame_bitmap := bm\<rparr>"
    using assms(3) by (auto simp: alloc_frame_def split: prod.splits)
  have fin: "finite (pmm.available (frame_bitmap s))" by (simp add: pmm_available)
  with assms(2) have "pmm.available (frame_bitmap s) \<noteq> {}" by auto
  with pmm.alloc_available(1) [OF assms(1) a(1)] show p: "p \<noteq> 0" by simp
  from pmm.alloc_available(2) [OF assms(1) a(1) p] obtain f where
    "f \<in> pmm.available (frame_bitmap s)" "pmm.available bm = pmm.available (frame_bitmap s) - {f}" by auto
  with fin a(2) show "frames_free s1 = frames_free s - 1" by simp
qed

lemma vmm_create_page_dir_succeeds:
  assumes wf: "bitmap_wf (frame_bitmap s)" and fr: "3 \<le> frames_free s"
  shows "fst (vmm_create_page_dir s) \<noteq> 0"
proof -
  obtain p s1 where a1: "alloc_frame s = (p, s1)" by fastforce
  note 1 = alloc_frame_succeeds [OF wf _ a1] alloc_frame_basic(5) [OF wf a1]
  obtain q s2 where a2: "alloc_frame (vmm_zero_frame p s1) = (q, s2)" by fastforce
  have "q \<noteq> 0 \<and> frames_free s2 = frames_free s - 2 \<and> bitmap_wf (frame_bitmap s2)"
    using alloc_frame_succeeds [OF _ _ a2] alloc_frame_basic(5) [OF _ a2] 1 fr by auto
  moreover obtain r s3 where a3: "alloc_frame (vmm_zero_frame q s2) = (r, s3)" by fastforce
  ultimately have "r \<noteq> 0" using alloc_frame_succeeds(1) [OF _ _ a3] fr by simp
  with a1 a2 a3 1 fr \<open>q \<noteq> 0 \<and> _\<close> show ?thesis by (simp add: vmm_create_page_dir_def Let_def)
qed

lemma boot_vm_free: "frames_free boot_vm = 14336" "bitmap_wf (frame_bitmap boot_vm)"
proof -
  have "pmm.available (frame_bitmap boot_vm) = {KERNEL_RESERVED_FRAMES..<TOTAL_FRAMES}"
    using frames_used_init [of "replicate 2048 0"] unfolding pmm_available
    by (auto simp: boot_vm_def bitmap_wf_def TOTAL_FRAMES_def)
  then show "frames_free boot_vm = 14336" by (simp add: TOTAL_FRAMES_def KERNEL_RESERVED_FRAMES_def)
  show "bitmap_wf (frame_bitmap boot_vm)" using bitmap_wf_init by (simp add: boot_vm_def)
qed

theorem vmm_create_page_dir_correct_witness:
  "let (root, s') = vmm_create_page_dir boot_vm
   in vm_ok {root} s' \<and> vmm_get_phys root 0x123456 (mem s') = 0x123456 \<and>
      vmm_get_phys root 0xC00000 (mem s') = 0"
proof -
  obtain root s' where c: "vmm_create_page_dir boot_vm = (root, s')" by fastforce
  have "root \<noteq> 0" using vmm_create_page_dir_succeeds [of boot_vm] boot_vm_free c by simp
  from vmm_create_page_dir_correct [OF vm_ok_boot c this] show ?thesis using c by simp
qed

lemma in_large_page_fresh:
  assumes "fresh_space p4 p3 p2 m m'" "distinct [p4, p3, p2]"
    "\<forall>p\<in>{p4, p3, p2}. p mod PAGE_SIZE = 0 \<and> p < 2 ^ 64" "0x800000 \<le> unat v" "unat v < 0x4000000"
  shows "\<not> in_large_page p4 v m'"
proof -
  have i: "pt_index 39 v = 0" "pt_index 30 v = 0" "pt_index 21 v = unat v div 2 ^ 21"
    using assms(5) by (auto simp: pt_index_eq less_mult_imp_div_less)
  have "4 \<le> unat v div 2 ^ 21" "unat v div 2 ^ 21 < 32"
    using assms(4,5) div_le_mono [of "4 * 2 ^ 21" "unat v" "2 ^ 21"] by (simp_all add: less_mult_imp_div_less)
  then have "map_of pd_low_entries (pt_index 21 v) = None" unfolding i(3) by (auto simp: pd_low_entries_def)
  moreover have "entry_base (word_of_nat p3 OR 7) = p3" "entry_base (word_of_nat p2 OR 7) = p2"
    using assms(3) by (auto intro!: table_entry(1))
  moreover have "entry m' p4 0 = word_of_nat p3 OR 7" "entry m' p3 0 = word_of_nat p2 OR 7"
    "entry m' p2 (pt_index 21 v) = (case map_of pd_low_entries (pt_index 21 v) of Some e \<Rightarrow> e | None \<Rightarrow> 0)"
    using assms by (simp_all add: fresh_space_def)
  ultimately show ?thesis by (simp add: in_large_page_def i(1,2) Let_def)
qed

end
