(* ===== verification/Cow.thy ===== *)
theory Cow
  imports Paging
begin

text \<open>
  Unmapping and the copy-on-write fault on top of the invariant of \<open>Paging\<close>, and the witness
  run that builds an address space and maps a page in it.
\<close>

unbundle bit_operations_syntax

section \<open>Unmapping\<close>

lemma vmm_unmap_page_pt:
  "root \<noteq> 0 \<Longrightarrow> vmm_unmap_page root v s =
     (case pt_at (mem s) 4 root v of None \<Rightarrow> s | Some pt \<Rightarrow> set_entry pt (pt_index 12 v) 0 s)"
  by (simp add: vmm_unmap_page_def numeral_eq_Suc Let_def)

lemma walk_no_pt:
  "pt_at m 4 root v = None \<Longrightarrow> \<not> in_large_page root v m \<Longrightarrow> walk m 4 root v = 0"
  by (simp add: numeral_eq_Suc Let_def in_large_page_def split: if_splits)

text \<open>Facts about an address space that the proofs below share.\<close>

lemma vm_okD:
  assumes "vm_ok R s" "root \<in> R"
  obtains lv where "vm_inv lv boot_pds s" "\<forall>r\<in>R. lv r = 4" "lv root = 4" "root \<noteq> 0"
    "tables_typed lv (frame_bitmap s)" "links_down lv (mem s)" "bitmap_wf (frame_bitmap s)"
proof -
  from assms(1) obtain lv where lv: "vm_inv lv boot_pds s" "\<forall>r\<in>R. lv r = 4" by (auto simp: vm_ok_def)
  moreover have "tables_typed lv (frame_bitmap s)" "links_down lv (mem s)" "bitmap_wf (frame_bitmap s)"
    using lv(1) by (auto simp: vm_inv_def)
  moreover have "lv root = 4" using lv(2) assms(2) by simp
  moreover have "root \<noteq> 0" using tables_typedD(1) [of lv "frame_bitmap s" root] calculation by simp
  ultimately show thesis using that by blast
qed

text \<open>Every root is a table, so it is not address 0.\<close>

lemma vm_ok_nonzero: "vm_ok R s \<Longrightarrow> r \<in> R \<Longrightarrow> r \<noteq> 0"
  by (rule vm_okD) auto

text \<open>
  Rewriting the leaf entry of one page of one address space.
\<close>

lemma leaf_rewrite:
  assumes "vm_ok R s" "root \<in> R" "pt_at (mem s) 4 root v = Some pt"
  shows "vm_ok R (set_entry pt (pt_index 12 v) e s)"
    "r \<in> R \<Longrightarrow> \<not> (r = root \<and> same_page w v) \<Longrightarrow>
     vmm_get_phys r w (mem (set_entry pt (pt_index 12 v) e s)) = vmm_get_phys r w (mem s)"
    "pt_at (mem (set_entry pt (pt_index 12 v) e s)) 4 root v = Some pt"
    "vmm_get_phys root v (mem (set_entry pt (pt_index 12 v) e s)) =
       (if pte_present e then e AND NOT (mask 12) else 0)"
    "pt mod PAGE_SIZE = 0" "pt div PAGE_SIZE \<in> frames_used (frame_bitmap s)" "pt \<noteq> 0"
proof -
  obtain lv where lv: "vm_inv lv boot_pds s" "\<forall>r\<in>R. lv r = 4" "lv root = 4" "root \<noteq> 0"
    "tables_typed lv (frame_bitmap s)" "links_down lv (mem s)" "bitmap_wf (frame_bitmap s)"
    by (rule vm_okD [OF assms(1,2)])
  have l1: "lv pt = 1" by (rule pt_at_level [OF lv(6,3) assms(3)])
  show "vm_ok R (set_entry pt (pt_index 12 v) e s)"
    using vm_inv_leaf_store [OF lv(1) l1 pt_index_less] lv(2) by (auto simp: vm_ok_def)
  show "vmm_get_phys r w (mem (set_entry pt (pt_index 12 v) e s)) = vmm_get_phys r w (mem s)"
    if "r \<in> R" "\<not> (r = root \<and> same_page w v)"
    using walk_other_page [OF lv(1,3) assms(3)] lv(2) that by (simp add: vmm_get_phys_walk)
  show pt: "pt_at (mem (set_entry pt (pt_index 12 v) e s)) 4 root v = Some pt"
    using pt_at_leaf_store [OF lv(5,6) l1 pt_index_less lv(3)] assms(3) by (simp add: set_entry_def)
  have "entry (mem (set_entry pt (pt_index 12 v) e s)) pt (pt_index 12 v) = e"
    using l1 by (simp add: set_entry_def entry_leaf_store [OF lv(5)])
  with walk_pt [OF pt] lv(4) show "vmm_get_phys root v (mem (set_entry pt (pt_index 12 v) e s)) =
       (if pte_present e then e AND NOT (mask 12) else 0)"
    by (simp add: vmm_get_phys_walk)
  show "pt mod PAGE_SIZE = 0" "pt div PAGE_SIZE \<in> frames_used (frame_bitmap s)" "pt \<noteq> 0"
    using tables_typedD [OF lv(5), of pt] l1 by auto
qed

text \<open>
  Unmapping a page. \<open>vmm_unmap_page\<close> keeps the address spaces in order, removes the
  translation of a page that is not part of a 2 MB page, and changes no other page anywhere.
\<close>

theorem vmm_unmap_page_correct:
  assumes "vm_ok R s" "root \<in> R" "s' = vmm_unmap_page root v s"
  shows "vm_ok R s' \<and>
    (\<forall>r\<in>R. \<forall>w. \<not> (r = root \<and> same_page w v) \<longrightarrow> vmm_get_phys r w (mem s') = vmm_get_phys r w (mem s)) \<and>
    (\<not> in_large_page root v (mem s) \<longrightarrow> vmm_get_phys root v (mem s') = 0)"
proof (cases "pt_at (mem s) 4 root v")
  case None
  then have "s' = s" using assms vm_ok_nonzero [OF assms(1,2)] by (simp add: vmm_unmap_page_pt)
  with None assms(1) walk_no_pt [OF None] show ?thesis by (simp add: vmm_get_phys_walk)
next
  case (Some pt)
  then have "s' = set_entry pt (pt_index 12 v) 0 s"
    using assms vm_ok_nonzero [OF assms(1,2)] by (simp add: vmm_unmap_page_pt)
  with leaf_rewrite(1,2,4) [OF assms(1,2) Some, where e = 0] show ?thesis by auto
qed

section \<open>A mapped page in a new address space\<close>

text \<open>The address space that the boot state gives.\<close>

definition demo_root :: nat where "demo_root = fst (vmm_create_page_dir boot_vm)"
definition demo_vm :: vm where "demo_vm = snd (vmm_create_page_dir boot_vm)"

lemma demo_vm_tables:
  obtains p3 p2 where "fresh_space demo_root p3 p2 (mem boot_vm) (mem demo_vm)" "distinct [demo_root, p3, p2]"
    "\<forall>p\<in>{demo_root, p3, p2}. p \<noteq> 0 \<and> p mod PAGE_SIZE = 0 \<and> p < 2 ^ 64 \<and>
       p div PAGE_SIZE \<notin> frames_used (frame_bitmap boot_vm)"
    "bitmap_wf (frame_bitmap demo_vm)" "frames_used (frame_bitmap demo_vm) =
       frames_used (frame_bitmap boot_vm) \<union> {demo_root div PAGE_SIZE, p3 div PAGE_SIZE, p2 div PAGE_SIZE}"
proof -
  have "vmm_create_page_dir boot_vm = (demo_root, demo_vm)" by (simp add: demo_root_def demo_vm_def)
  moreover have "demo_root \<noteq> 0"
    unfolding demo_root_def by (rule vmm_create_page_dir_succeeds) (simp_all add: boot_vm_free)
  ultimately show thesis by (rule vmm_create_page_dir_tables [OF boot_vm_free(2)]) (rule that)
qed

lemma demo_vm_ok: "vm_ok {demo_root} demo_vm" "demo_root \<noteq> 0"
proof -
  have "vmm_create_page_dir boot_vm = (demo_root, demo_vm)" by (simp add: demo_root_def demo_vm_def)
  moreover show "demo_root \<noteq> 0"
    unfolding demo_root_def by (rule vmm_create_page_dir_succeeds) (simp_all add: boot_vm_free)
  ultimately have "vm_ok (insert demo_root {}) demo_vm" using new_space [OF vm_ok_boot] by blast
  then show "vm_ok {demo_root} demo_vm" by simp
qed

lemma demo_vm_user:
  assumes "0x800000 \<le> unat v" "unat v < 0x4000000"
  shows "\<not> in_large_page demo_root v (mem demo_vm)"
proof (rule demo_vm_tables)
  fix p3 p2
  assume fs: "fresh_space demo_root p3 p2 (mem boot_vm) (mem demo_vm)" "distinct [demo_root, p3, p2]"
    and "\<forall>p\<in>{demo_root, p3, p2}. p \<noteq> 0 \<and> p mod PAGE_SIZE = 0 \<and> p < 2 ^ 64 \<and>
       p div PAGE_SIZE \<notin> frames_used (frame_bitmap boot_vm)"
  then have "\<forall>p\<in>{demo_root, p3, p2}. p mod PAGE_SIZE = 0 \<and> p < 2 ^ 64" by auto
  from in_large_page_fresh [OF fs this assms] show ?thesis .
qed

lemma demo_vm_frames: "14333 \<le> pmm_free_count (frame_bitmap demo_vm)"
proof (rule demo_vm_tables)
  fix p3 p2
  let ?P = "{demo_root div PAGE_SIZE, p3 div PAGE_SIZE, p2 div PAGE_SIZE}"
  assume bm: "bitmap_wf (frame_bitmap demo_vm)"
    "frames_used (frame_bitmap demo_vm) = frames_used (frame_bitmap boot_vm) \<union> ?P"
  then have "pmm.available (frame_bitmap demo_vm) = pmm.available (frame_bitmap boot_vm) - ?P"
    unfolding pmm_available by auto
  moreover have "card (pmm.available (frame_bitmap boot_vm)) - card ?P \<le>
      card (pmm.available (frame_bitmap boot_vm) - ?P)" by (rule diff_card_le_card_Diff) simp
  moreover have "card ?P \<le> 3" by (simp add: card_insert_if)
  ultimately show ?thesis using boot_vm_free(1) by (simp add: pmm_free_count_card [OF bm(1)])
qed

lemma demo_vm_free: "3 \<le> pmm_free_count (frame_bitmap demo_vm)"
  using demo_vm_frames by simp

lemma vmm_map_page_ok: "vm_ok R s \<Longrightarrow> root \<in> R \<Longrightarrow> vm_ok R (vmm_map_page root v phys flags s)"
proof (rule vm_okD)
  fix lv assume lv: "vm_inv lv boot_pds s" "\<forall>r\<in>R. lv r = 4" "lv root = 4"
  from map_page_result [OF lv(1,3), of v phys flags] obtain lv' where
    "vm_inv lv' boot_pds (vmm_map_page root v phys flags s)" "\<forall>a. lv a \<noteq> 0 \<longrightarrow> lv' a = lv a"
    unfolding map_result_def extends_def by blast
  with lv(2) show "vm_ok R (vmm_map_page root v phys flags s)"
    unfolding vm_ok_def by (metis zero_neq_numeral)
qed

theorem vmm_map_page_correct_witness:
  "vmm_get_phys demo_root 0xC00000 (mem (vmm_map_page demo_root 0xC00000 0x900000 7 demo_vm)) = 0x900000 \<and>
   vm_ok {demo_root} (vmm_map_page demo_root 0xC00000 0x900000 7 demo_vm)"
proof -
  have "7 AND NOT (mask 12) = (0 :: u64)" "0x900000 AND NOT (mask 12) = (0x900000 :: u64)"
    by (simp_all add: word_unat_eq_iff unat_and_not_mask)
  with vmm_map_page_correct [OF demo_vm_ok(1), of demo_root _ "0xC00000" "0x900000" 7]
    demo_vm_user [of "0xC00000"] demo_vm_free show ?thesis by simp
qed

theorem vmm_unmap_page_correct_witness:
  "let s = vmm_map_page demo_root 0xC00000 0x900000 7 demo_vm
   in vmm_get_phys demo_root 0xC01000 (mem (vmm_unmap_page demo_root 0xC00000 s)) =
      vmm_get_phys demo_root 0xC01000 (mem s)"
proof -
  let ?s = "vmm_map_page demo_root 0xC00000 0x900000 7 demo_vm"
  have ok: "vm_ok {demo_root} ?s" using vmm_map_page_ok [OF demo_vm_ok(1)] by simp
  have "\<not> same_page 0xC01000 0xC00000" by (auto simp: same_page_def pt_index_eq intro!: exI [of _ 0])
  with vmm_unmap_page_correct [OF ok, of demo_root _ "0xC00000"] show ?thesis by simp
qed

section \<open>The copy-on-write fault\<close>

lemma pt_index_align: "12 \<le> sh \<Longrightarrow> pt_index sh (v AND NOT (mask 12)) = pt_index sh v"
proof -
  assume "12 \<le> sh"
  then obtain k where sh: "sh = 12 + k" using le_Suc_ex by blast
  have "unat v div 2 ^ 12 * 2 ^ 12 div 2 ^ sh = unat v div 2 ^ sh"
    by (simp add: sh power_add div_mult2_eq)
  then show ?thesis by (simp only: pt_index_eq unat_and_not_mask)
qed

lemma vmm_get_pte_align: "vmm_get_pte root (v AND NOT (mask 12)) m = vmm_get_pte root v m"
  by (simp add: vmm_get_pte_def pt_index_align Let_def)

lemma page_word_or7:
  fixes w :: u64
  assumes "w AND NOT (mask 12) = w"
  shows "(w OR 7) AND NOT (mask 12) = w" "bit (w OR 7) 0" "bit (w OR 7) 1" "\<not> bit (w OR 7) 9"
proof -
  define k where "k = (7 :: u64)"
  have k: "bit k n \<longleftrightarrow> n < 3" for n by (simp only: k_def bit_7_iff)
  have low: "\<not> bit w n" if "n < 12" for n
  proof -
    have "bit w n = bit (w AND NOT (mask 12)) n" using assms by simp
    also have "\<dots> = False" using that by (simp add: bit_simps)
    finally show ?thesis by simp
  qed
  have "(w OR k) AND NOT (mask 12) = w AND NOT (mask 12)"
    by (rule bit_eqI) (auto simp: bit_simps k)
  with assms have 1: "(w OR k) AND NOT (mask 12) = w" by simp
  have 2: "bit (w OR k) 0" "bit (w OR k) 1" "\<not> bit (w OR k) 9"
    using low [of 9] by (auto simp: bit_or_iff k)
  show "(w OR 7) AND NOT (mask 12) = w" using 1 unfolding k_def .
  show "bit (w OR 7) 0" using 2(1) unfolding k_def .
  show "bit (w OR 7) 1" using 2(2) unfolding k_def .
  show "\<not> bit (w OR 7) 9" using 2(3) unfolding k_def .
qed

lemma page_word_of_nat:
  assumes "p mod PAGE_SIZE = 0" "p < 2 ^ 64"
  shows "(word_of_nat p :: u64) AND NOT (mask 12) = word_of_nat p" "unat (word_of_nat p :: u64) = p"
proof -
  show u: "unat (word_of_nat p :: u64) = p"
    using assms(2) by (simp add: unsigned_of_nat take_bit_nat_eq_self)
  show "(word_of_nat p :: u64) AND NOT (mask 12) = word_of_nat p"
    using assms(1) by (simp add: word_unat_eq_iff unat_and_not_mask u PAGE_SIZE_def)
      (metis div_mult_mod_eq add.right_neutral u)
qed

lemma copy_page_eq:
  assumes "src mod PAGE_SIZE = 0" "dst mod PAGE_SIZE = 0" "src \<noteq> dst"
  shows "copy_page src dst m = (\<lambda>x. if dst \<le> x \<and> x < dst + PAGE_SIZE then m (src + (x - dst)) else m x)"
proof -
  have "fold (\<lambda>k m. m(dst + k := m (src + k))) [0..<n] m =
      (\<lambda>x. if dst \<le> x \<and> x < dst + n then m (src + (x - dst)) else m x)" if "n \<le> PAGE_SIZE" for n
    using that
  proof (induction n)
    case (Suc n)
    have "\<not> (dst \<le> src + n \<and> src + n < dst + n)" using page_gap [OF assms] Suc.prems by auto
    with Suc show ?case by (auto simp: fun_eq_iff)
  qed (auto simp: fun_eq_iff)
  then show ?thesis by (simp add: copy_page_def)
qed

text \<open>The entry of the faulting page.\<close>

lemma cow_entry:
  assumes "vm_ok R s" "root \<in> R" "vmm_cow_fault root v s = (True, s')"
  obtains pt where "pt_at (mem s) 4 root v = Some pt" "vmm_get_pte root v (mem s) = pt + 8 * pt_index 12 v"
    "pte_present (entry (mem s) pt (pt_index 12 v))" "pte_cow (entry (mem s) pt (pt_index 12 v))"
    "vmm_get_phys root v (mem s) = entry (mem s) pt (pt_index 12 v) AND NOT (mask 12)"
proof -
  have nz: "root \<noteq> 0" by (rule vm_ok_nonzero [OF assms(1,2)])
  from assms(3) have pte: "vmm_get_pte root v (mem s) \<noteq> 0"
    "pte_present (load64 (mem s) (vmm_get_pte root v (mem s)))"
    "pte_cow (load64 (mem s) (vmm_get_pte root v (mem s)))"
    by (auto simp: vmm_cow_fault_def vmm_get_pte_align Let_def split: if_splits)
  with nz obtain pt where pt: "pt_at (mem s) 4 root v = Some pt"
    "vmm_get_pte root v (mem s) = pt + 8 * pt_index 12 v"
    by (auto simp: vmm_get_pte_pt_at split: option.splits)
  moreover have "vmm_get_phys root v (mem s) = entry (mem s) pt (pt_index 12 v) AND NOT (mask 12)"
    using pte pt nz by (simp add: vmm_get_phys_walk walk_pt [OF pt(1)] entry_def)
  ultimately show thesis using pte by (intro that) (simp_all add: entry_def)
qed

text \<open>The frame count below which a fault keeps the frame.\<close>

definition cow_shared :: "u64 \<Rightarrow> vm \<Rightarrow> bool" where
  "cow_shared phys s \<longleftrightarrow> unat phys div PAGE_SIZE mod 2 ^ 32 < TOTAL_FRAMES \<and>
     1 < frame_cow_cnt s ! (unat phys div PAGE_SIZE mod 2 ^ 32)"

lemma cow_fault_exclusive:
  assumes "vm_ok R s" "root \<in> R" "vmm_cow_fault root v s = (True, s')"
    "\<not> cow_shared (vmm_get_phys root v (mem s)) s" "pt_at (mem s) 4 root v = Some pt"
  shows "s' = set_entry pt (pt_index 12 v) (vmm_get_phys root v (mem s) OR 7) s"
proof (rule cow_entry [OF assms(1-3)])
  fix pt' assume c: "pt_at (mem s) 4 root v = Some pt'" "vmm_get_pte root v (mem s) = pt' + 8 * pt_index 12 v"
    "pte_present (entry (mem s) pt' (pt_index 12 v))" "pte_cow (entry (mem s) pt' (pt_index 12 v))"
    "vmm_get_phys root v (mem s) = entry (mem s) pt' (pt_index 12 v) AND NOT (mask 12)"
  then show ?thesis
    using assms(3,4,5) leaf_rewrite(7) [OF assms(1,2,5)]
    by (auto simp: vmm_cow_fault_def vmm_get_pte_align Let_def entry_def set_entry_def cow_shared_def)
qed

lemma cow_fault_shared:
  assumes "vm_ok R s" "root \<in> R" "vmm_cow_fault root v s = (True, s')"
    "cow_shared (vmm_get_phys root v (mem s)) s" "pt_at (mem s) 4 root v = Some pt"
  obtains new s1 where "alloc_frame s = (new, s1)" "new \<noteq> 0"
    "s' = (set_entry pt (pt_index 12 v) (word_of_nat new OR 7)
       (s1\<lparr>mem := copy_page (unat (vmm_get_phys root v (mem s))) new (mem s1)\<rparr>))
       \<lparr>frame_cow_cnt := (frame_cow_cnt s1)[unat (vmm_get_phys root v (mem s)) div PAGE_SIZE mod 2 ^ 32 :=
          frame_cow_cnt s1 ! (unat (vmm_get_phys root v (mem s)) div PAGE_SIZE mod 2 ^ 32) - 1]\<rparr>"
proof (rule cow_entry [OF assms(1-3)])
  fix pt' assume c: "pt_at (mem s) 4 root v = Some pt'" "vmm_get_pte root v (mem s) = pt' + 8 * pt_index 12 v"
    "pte_present (entry (mem s) pt' (pt_index 12 v))" "pte_cow (entry (mem s) pt' (pt_index 12 v))"
    "vmm_get_phys root v (mem s) = entry (mem s) pt' (pt_index 12 v) AND NOT (mask 12)"
  obtain new s1 where a: "alloc_frame s = (new, s1)" by fastforce
  with c assms(3,4,5) leaf_rewrite(7) [OF assms(1,2,5)] show thesis
    by (intro that [OF a])
      (auto simp: vmm_cow_fault_def vmm_get_pte_align Let_def entry_def set_entry_def cow_shared_def
        split: if_splits)
qed

lemma pt_at_cong:
  assumes "links_down lv m" "\<And>a j. lv a \<noteq> 0 \<Longrightarrow> j < 512 \<Longrightarrow> entry m' a j = entry m a j" "lv a = l"
  shows "pt_at m' l a v = pt_at m l a v"
  using assms(3)
proof (induction l arbitrary: a)
  case (Suc l)
  have "entry m' a (pt_index (12 + 9 * l) v) = entry m a (pt_index (12 + 9 * l) v)"
    using assms(2) Suc.prems by simp
  with Suc.IH links_step(2) [OF assms(1) Suc.prems] show ?case
    by (cases "l = 0") (auto simp: Let_def)
qed simp

text \<open>Copying: the destination page gets the bytes of the source page, nothing else changes.\<close>

lemma copy_page_bytes:
  assumes "src mod PAGE_SIZE = 0" "dst mod PAGE_SIZE = 0"
  shows "k < PAGE_SIZE \<Longrightarrow> copy_page src dst m (dst + k) = m (src + k)"
    "x < dst \<or> dst + PAGE_SIZE \<le> x \<Longrightarrow> copy_page src dst m x = m x"
proof -
  have "fold (\<lambda>k m. m(src + k := m (src + k))) ks m = m" for ks by (induction ks) auto
  then have "copy_page src src m = m" by (simp add: copy_page_def)
  then have "(k < PAGE_SIZE \<longrightarrow> copy_page src dst m (dst + k) = m (src + k)) \<and>
      (x < dst \<or> dst + PAGE_SIZE \<le> x \<longrightarrow> copy_page src dst m x = m x)"
    using copy_page_eq [OF assms, of m] by (cases "src = dst") auto
  then show "k < PAGE_SIZE \<Longrightarrow> copy_page src dst m (dst + k) = m (src + k)"
    "x < dst \<or> dst + PAGE_SIZE \<le> x \<Longrightarrow> copy_page src dst m x = m x" by auto
qed

text \<open>The state between copying the page and rewriting the entry.\<close>

lemma copied_state:
  assumes ok: "vm_ok R s" "root \<in> R" and al: "alloc_frame s = (new, s1)" "new \<noteq> 0"
    and old: "old mod PAGE_SIZE = 0" and s2: "s2 = s1\<lparr>mem := copy_page old new (mem s1)\<rparr>"
  shows "vm_ok R s2" "r \<in> R \<Longrightarrow> vmm_get_phys r w (mem s2) = vmm_get_phys r w (mem s)"
    "pt_at (mem s2) 4 root v = pt_at (mem s) 4 root v"
proof -
  obtain lv where lv: "vm_inv lv boot_pds s" "\<forall>r\<in>R. lv r = 4" "lv root = 4"
    "tables_typed lv (frame_bitmap s)" "links_down lv (mem s)" "bitmap_wf (frame_bitmap s)"
    by (rule vm_okD [OF ok]) blast
  note f = alloc_frame_fresh [OF lv(1) al]
  have ent: "entry (mem s2) a j = entry (mem s) a j" if "lv a \<noteq> 0" "j < 512" for a j
  proof -
    have "a \<noteq> new" using that(1) f(1) by auto
    from page_gap [OF tables_typedD(2) [OF lv(4) that(1)] f(2) this] that(2)
    have "a + 8 * j + k < new \<or> new + PAGE_SIZE \<le> a + 8 * j + k" if "k < 8" for k
      using that by (auto simp: PAGE_SIZE_def)
    then show ?thesis
      unfolding entry_def s2 using copy_page_bytes(2) [OF old f(2)] f(4) by (intro load64_cong) simp
  qed
  have "vm_inv lv boot_pds s2"
    using f(6,7) ent by (intro vm_inv_frame [OF lv(1)]) (auto simp: s2)
  then show "vm_ok R s2" using lv(2) by (auto simp: vm_ok_def)
  show "vmm_get_phys r w (mem s2) = vmm_get_phys r w (mem s)" if "r \<in> R"
    using walk_cong [OF lv(5) ent, of r 4] lv(2) that by (simp add: vmm_get_phys_walk)
  show "pt_at (mem s2) 4 root v = pt_at (mem s) 4 root v"
    by (rule pt_at_cong [OF lv(5) ent lv(3)])
qed


lemma map_page_entry:
  assumes "vm_ok R s" "root \<in> R" "3 \<le> pmm_free_count (frame_bitmap s)" "\<not> in_large_page root v (mem s)"
    "flags AND NOT (mask 12) = 0"
  shows "load64 (mem (vmm_map_page root v phys flags s))
      (vmm_get_pte root v (mem (vmm_map_page root v phys flags s))) = (phys AND NOT (mask 12)) OR flags OR 1"
    "vmm_get_pte root v (mem (vmm_map_page root v phys flags s)) \<noteq> 0"
proof -
  let ?s = "vmm_map_page root v phys flags s"
  obtain lv where lv: "vm_inv lv boot_pds s" "lv root = 4" "root \<noteq> 0" "bitmap_wf (frame_bitmap s)"
    by (rule vm_okD [OF assms(1,2)]) blast
  have "3 \<le> frames_free s" using assms(3) by (simp add: pmm_free_count_card [OF lv(4)])
  with map_page_result [OF lv(1,2), of v phys flags] assms(4,5) obtain pt where
    pt: "pt_at (mem ?s) 4 root v = Some pt"
      "entry (mem ?s) pt (pt_index 12 v) = (phys AND NOT (mask 12)) OR flags OR 1"
    unfolding map_result_def by blast
  from leaf_rewrite(7) [OF vmm_map_page_ok [OF assms(1,2)] assms(2) pt(1)] have "pt \<noteq> 0" .
  with pt lv(3) show "load64 (mem ?s) (vmm_get_pte root v (mem ?s)) = (phys AND NOT (mask 12)) OR flags OR 1"
    "vmm_get_pte root v (mem ?s) \<noteq> 0"
    by (simp_all add: vmm_get_pte_pt_at entry_def)
qed

text \<open>Mapping and creating address spaces leave the reference counts alone.\<close>

lemma cow_cnt_alloc: "alloc_frame s = (p, s1) \<Longrightarrow> frame_cow_cnt s1 = frame_cow_cnt s"
  by (auto simp: alloc_frame_def split: prod.splits)

lemma cow_cnt_next_table: "next_table t i s = (r, s') \<Longrightarrow> frame_cow_cnt s' = frame_cow_cnt s"
  by (auto simp: next_table_def vmm_zero_frame_def dest: cow_cnt_alloc split: if_splits prod.splits)

lemma cow_cnt_map_page [simp]: "frame_cow_cnt (vmm_map_page root v phys flags s) = frame_cow_cnt s"
  by (auto simp: vmm_map_page_def dest!: cow_cnt_next_table split: prod.splits option.splits)

lemma cow_cnt_fold_set_entry [simp]:
  "frame_cow_cnt (fold (\<lambda>(i, e). set_entry t i e) xs s) = frame_cow_cnt s"
  by (induction xs arbitrary: s) auto

lemma cow_cnt_demo: "frame_cow_cnt demo_vm = replicate TOTAL_FRAMES 0"
proof -
  have "frame_cow_cnt (snd (vmm_create_page_dir s)) = frame_cow_cnt s" for s
    by (auto simp: vmm_create_page_dir_def Let_def free_frame_def vmm_zero_frame_def
        dest!: cow_cnt_alloc split: prod.splits)
  then show ?thesis by (simp add: demo_vm_def boot_vm_def)
qed


end
