(* ===== verification/Shm.thy ===== *)
theory Shm
  imports Cow
begin

text \<open>
  Shared memory regions, \<open>src/kernel/shm.c\<close>: eight slots, each a key string, one frame of the
  frame allocator and a count of the processes that attached it. The address spaces are those of
  \<open>Vmm\<close>. The attach count is a C \<open>int\<close> that is kept unbounded here: it changes by one per system
  call.
\<close>

unbundle bit_operations_syntax

section \<open>State and operations\<close>

definition SHM_MAX :: nat where "SHM_MAX = 8"
definition SHM_PAGE_SIZE :: nat where "SHM_PAGE_SIZE = 4096"
definition SHM_VA_BASE :: nat where "SHM_VA_BASE = 0x500000"

record shm_slot =
  shm_key :: bytes
  phys :: nat
  refcount :: int

record shm_state =
  shm_slots :: "shm_slot list"
  shm_vm :: vm

definition shm_streq :: "bytes \<Rightarrow> bytes \<Rightarrow> bool" where
  "shm_streq a b = c_streq a b"

text \<open>The destination has \<open>n\<close> bytes wherever the source calls this.\<close>

definition shm_strcpy :: "bytes \<Rightarrow> bytes \<Rightarrow> nat \<Rightarrow> bytes" where
  "shm_strcpy dst src n = (case c_strcpy dst src n of None \<Rightarrow> dst | Some d \<Rightarrow> d)"

definition shm_clear_slot :: "shm_slot \<Rightarrow> shm_slot" where
  "shm_clear_slot sl = sl\<lparr>phys := 0, refcount := 0, shm_key := (shm_key sl)[0 := 0]\<rparr>"

definition shm_init :: "shm_state \<Rightarrow> shm_state" where
  "shm_init st = st\<lparr>shm_slots := map shm_clear_slot (shm_slots st)\<rparr>"

definition shm_lookup :: "bytes \<Rightarrow> shm_slot list \<Rightarrow> nat option" where
  "shm_lookup key sls = find_slot (\<lambda>sl. phys sl \<noteq> 0 \<and> shm_streq (shm_key sl) key) sls"

definition shm_create :: "bytes \<Rightarrow> shm_state \<Rightarrow> int \<times> shm_state" where
  "shm_create key st =
     (case shm_lookup key (shm_slots st) of
        Some i \<Rightarrow> (int i, st)
      | None \<Rightarrow>
     (case find_slot (\<lambda>sl. phys sl = 0) (shm_slots st) of
        None \<Rightarrow> (-1, st)
      | Some i \<Rightarrow>
          let (frame, s) = alloc_frame (shm_vm st)
          in if frame = 0 then (-1, st\<lparr>shm_vm := s\<rparr>)
             else let sl = shm_slots st ! i
                  in (int i, st\<lparr>shm_vm := vmm_zero_frame frame s,
                       shm_slots := (shm_slots st)[i := sl\<lparr>phys := frame, refcount := 0,
                         shm_key := shm_strcpy (shm_key sl) key 16\<rparr>]\<rparr>)))"

definition shm_find :: "bytes \<Rightarrow> shm_state \<Rightarrow> int" where
  "shm_find key st = (case shm_lookup key (shm_slots st) of Some i \<Rightarrow> int i | None \<Rightarrow> -1)"

text \<open>The guard \<open>id < 0 || id >= SHM_MAX || !shm_slots[id].phys\<close>.\<close>

definition shm_valid :: "int \<Rightarrow> shm_state \<Rightarrow> bool" where
  "shm_valid i st \<longleftrightarrow> 0 \<le> i \<and> i < int SHM_MAX \<and> phys (shm_slots st ! nat i) \<noteq> 0"

definition shm_phys :: "int \<Rightarrow> shm_state \<Rightarrow> nat" where
  "shm_phys i st = (if i < 0 \<or> i \<ge> int SHM_MAX then 0 else phys (shm_slots st ! nat i))"

definition shm_va :: "int \<Rightarrow> u64" where
  "shm_va i = word_of_nat (SHM_VA_BASE + nat i * SHM_PAGE_SIZE)"

definition shm_attach :: "int \<Rightarrow> nat \<Rightarrow> shm_state \<Rightarrow> int \<times> shm_state" where
  "shm_attach i pml4 st =
     (if \<not> shm_valid i st then (0, st)
      else let sl = shm_slots st ! nat i
           in (sint (ucast (shm_va i) :: u32),
               st\<lparr>shm_vm := vmm_map_page pml4 (shm_va i) (word_of_nat (phys sl)) 7 (shm_vm st),
                 shm_slots := (shm_slots st)[nat i := sl\<lparr>refcount := refcount sl + 1\<rparr>]\<rparr>))"

definition shm_detach :: "int \<Rightarrow> nat \<Rightarrow> shm_state \<Rightarrow> int \<times> shm_state" where
  "shm_detach i pml4 st =
     (if \<not> shm_valid i st then (0, st)
      else let sl = shm_slots st ! nat i
           in (1, if refcount sl > 0
                  then st\<lparr>shm_slots := (shm_slots st)[nat i := sl\<lparr>refcount := refcount sl - 1\<rparr>]\<rparr>
                  else st))"

definition shm_destroy :: "int \<Rightarrow> shm_state \<Rightarrow> shm_state" where
  "shm_destroy i st =
     (if \<not> shm_valid i st then st
      else let sl = shm_slots st ! nat i
           in if refcount sl \<le> 0
              then st\<lparr>shm_vm := free_frame (phys sl) (shm_vm st),
                     shm_slots := (shm_slots st)[nat i := shm_clear_slot sl]\<rparr>
              else st)"

section \<open>Every region owns its frame\<close>

text \<open>The frames of the slots in use (0 marks a free slot): allocated ones, each in one slot only.\<close>

definition regions_ok :: "nat list \<Rightarrow> bitmap \<Rightarrow> bool" where
  "regions_ok ps bm \<longleftrightarrow>
     (\<forall>i<length ps. ps ! i \<noteq> 0 \<longrightarrow> ps ! i mod PAGE_SIZE = 0 \<and> ps ! i div PAGE_SIZE \<in> managed_frames \<and>
        ps ! i div PAGE_SIZE \<in> frames_used bm) \<and>
     (\<forall>i<length ps. \<forall>j<length ps. ps ! i \<noteq> 0 \<longrightarrow> ps ! i = ps ! j \<longrightarrow> i = j)"

definition shm_inv :: "shm_state \<Rightarrow> bool" where
  "shm_inv st \<longleftrightarrow> length (shm_slots st) = SHM_MAX \<and> bitmap_wf (frame_bitmap (shm_vm st)) \<and>
     list_all (\<lambda>sl. length (shm_key sl) = 16) (shm_slots st) \<and>
     regions_ok (map phys (shm_slots st)) (frame_bitmap (shm_vm st))"

inductive shm_step :: "shm_state \<Rightarrow> shm_state \<Rightarrow> bool" where
  create: "shm_step st (snd (shm_create key st))"
| attach: "shm_step st (snd (shm_attach i pml4 st))"
| detach: "shm_step st (snd (shm_detach i pml4 st))"
| destroy: "shm_step st (shm_destroy i st)"

lemma next_table_bitmap:
  assumes "bitmap_wf (frame_bitmap s)" "next_table t i s = (r, s')"
  shows "bitmap_wf (frame_bitmap s') \<and> frames_used (frame_bitmap s) \<subseteq> frames_used (frame_bitmap s')"
proof (cases "pte_present (entry (mem s) t i)")
  case False
  obtain p s1 where a: "alloc_frame s = (p, s1)" by fastforce
  show ?thesis
  proof (cases "p = 0")
    case True
    with a assms alloc_frame_none [of s s1] False show ?thesis by (auto simp: next_table_def)
  next
    case False
    with a assms \<open>\<not> pte_present _\<close> alloc_frame_basic [OF assms(1) a False] show ?thesis
      by (auto simp: next_table_def)
  qed
qed (use assms in \<open>auto simp: next_table_def\<close>)

lemma vmm_map_page_bitmap:
  assumes "bitmap_wf (frame_bitmap s)"
  shows "bitmap_wf (frame_bitmap (vmm_map_page root v p fl s)) \<and>
    frames_used (frame_bitmap s) \<subseteq> frames_used (frame_bitmap (vmm_map_page root v p fl s))"
  using assms
  by (auto simp: vmm_map_page_def split: prod.splits option.splits dest!: next_table_bitmap [rotated])

lemma shm_valid_less: "shm_valid i st \<Longrightarrow> nat i < SHM_MAX"
  by (auto simp: shm_valid_def)

lemma list_all_update: "list_all P xs \<Longrightarrow> P x \<Longrightarrow> list_all P (xs[k := x])"
  by (auto simp: list_all_iff dest!: set_update_subset_insert [THEN subsetD])

lemma regions_ok_mono:
  "regions_ok ps bm \<Longrightarrow> frames_used bm \<subseteq> frames_used bm' \<Longrightarrow> regions_ok ps bm'"
  by (auto simp: regions_ok_def)

lemma regions_ok_fresh:
  assumes "regions_ok ps bm" "f \<in> managed_frames" "f \<notin> frames_used bm"
    "frames_used bm' = insert f (frames_used bm)" "k < length ps"
  shows "regions_ok (ps[k := f * PAGE_SIZE]) bm'"
proof -
  have "ps ! j \<noteq> f * PAGE_SIZE" if "j < length ps" "0 < f" for j
  proof
    assume *: "ps ! j = f * PAGE_SIZE"
    then have "ps ! j \<noteq> 0" "ps ! j div PAGE_SIZE = f" using that(2) by (simp_all add: PAGE_SIZE_def)
    with assms(1,3) that(1) show False by (auto simp: regions_ok_def)
  qed
  from this this [symmetric] assms show ?thesis
    by (auto simp: regions_ok_def nth_list_update PAGE_SIZE_def)
qed

lemma regions_ok_drop:
  assumes "regions_ok ps bm" "k < length ps" "ps ! k \<noteq> 0"
    "frames_used bm' = frames_used bm - {ps ! k div PAGE_SIZE}"
  shows "regions_ok (ps[k := 0]) bm'"
proof -
  have "ps ! j div PAGE_SIZE \<noteq> ps ! k div PAGE_SIZE" if "j < length ps" "j \<noteq> k" "ps ! j \<noteq> 0" for j
  proof
    assume "ps ! j div PAGE_SIZE = ps ! k div PAGE_SIZE"
    moreover have "ps ! j mod PAGE_SIZE = ps ! k mod PAGE_SIZE"
      using assms(1-3) that by (auto simp: regions_ok_def)
    ultimately have "ps ! j = ps ! k" by (metis div_mult_mod_eq)
    with assms(1,2) that show False by (auto simp: regions_ok_def)
  qed
  with assms show ?thesis by (auto simp: regions_ok_def nth_list_update)
qed

lemma map_update_same: "g x = g (xs ! k) \<Longrightarrow> map g (xs[k := x]) = map g xs"
  by (cases "k < length xs") (simp_all add: map_update list_update_same_conv list_update_beyond)

lemma shm_inv_create:
  assumes "shm_inv st"
  shows "shm_inv (snd (shm_create key st))"
proof (cases "shm_lookup key (shm_slots st)")
  case None
  obtain p s where a: "alloc_frame (shm_vm st) = (p, s)" by fastforce
  have wf: "bitmap_wf (frame_bitmap (shm_vm st))" using assms by (simp add: shm_inv_def)
  show ?thesis
  proof (cases "find_slot (\<lambda>sl. phys sl = 0) (shm_slots st)")
    case (Some i)
    show ?thesis
    proof (cases "p = 0")
      case True
      with None Some a assms alloc_frame_none [OF wf, of s] show ?thesis
        by (simp add: shm_create_def)
    next
      case False
      note al = alloc_frame_basic [OF wf a False]
      have "p = p div PAGE_SIZE * PAGE_SIZE" using al(1) by (auto simp: mod_eq_0_iff_dvd)
      then have "regions_ok ((map phys (shm_slots st))[i := p]) (frame_bitmap s)"
        using regions_ok_fresh [of "map phys (shm_slots st)" "frame_bitmap (shm_vm st)" "p div PAGE_SIZE"
            "frame_bitmap s" i] al(6-8) assms find_slot_SomeD(1) [OF Some] by (simp add: shm_inv_def)
      moreover have "length (shm_strcpy (shm_key (shm_slots st ! i)) key 16) = 16"
        using find_slot_SomeD(1) [OF Some] assms
        by (auto simp: shm_strcpy_def shm_inv_def list_all_length split: option.splits dest: c_strcpy_length)
      ultimately show ?thesis
        using None Some a False assms al(5)
        by (simp add: shm_create_def Let_def shm_inv_def map_update list_all_update)
    qed
  qed (use None assms in \<open>simp add: shm_create_def\<close>)
qed (use assms in \<open>simp add: shm_create_def\<close>)

lemma shm_inv_attach: "shm_inv st \<Longrightarrow> shm_inv (snd (shm_attach i pml4 st))"
  using vmm_map_page_bitmap [of "shm_vm st" pml4 "shm_va i" "word_of_nat (phys (shm_slots st ! nat i))" 7]
  by (auto simp: shm_attach_def Let_def shm_inv_def map_update_same shm_valid_def list_all_length nth_list_update
      intro: regions_ok_mono)

lemma shm_inv_detach: "shm_inv st \<Longrightarrow> shm_inv (snd (shm_detach i pml4 st))"
  by (auto simp: shm_detach_def Let_def shm_inv_def map_update_same list_all_length nth_list_update shm_valid_def)

lemma shm_inv_destroy:
  assumes "shm_inv st"
  shows "shm_inv (shm_destroy i st)"
proof (cases "shm_valid i st \<and> refcount (shm_slots st ! nat i) \<le> 0")
  case True
  let ?p = "phys (shm_slots st ! nat i)" and ?bm = "frame_bitmap (shm_vm st)"
  have k: "nat i < length (shm_slots st)" "?p \<noteq> 0"
    using True assms by (auto simp: shm_valid_def shm_inv_def)
  with assms have p: "?p mod PAGE_SIZE = 0" "?p div PAGE_SIZE \<in> managed_frames" "bitmap_wf ?bm"
    by (auto simp: shm_inv_def regions_ok_def)
  then have eq: "?p = ?p div PAGE_SIZE * PAGE_SIZE" by (auto simp: mod_eq_0_iff_dvd)
  from p(2) have f: "?p div PAGE_SIZE < TOTAL_FRAMES" by (auto simp: managed_frames_def)
  from pmm_free_frame_spec [OF p(3) f, of 0] eq p(2)
  have "pmm_free_frame ?p ?bm = bitmap_clear (?p div PAGE_SIZE) ?bm" by simp
  with frames_used_clear [OF p(3) f]
  have "frames_used (pmm_free_frame ?p ?bm) = frames_used ?bm - {?p div PAGE_SIZE}" "bitmap_wf (pmm_free_frame ?p ?bm)"
    by simp_all
  with True k assms show ?thesis
    using regions_ok_drop [of "map phys (shm_slots st)" ?bm "nat i" "pmm_free_frame ?p ?bm"]
    by (auto simp: shm_destroy_def Let_def shm_inv_def free_frame_def shm_clear_slot_def map_update list_all_length
        nth_list_update)
qed (use assms in \<open>auto simp: shm_destroy_def\<close>)

lemma shm_inv_step: "shm_step st st' \<Longrightarrow> shm_inv st \<Longrightarrow> shm_inv st'"
  by (induction rule: shm_step.induct)
    (simp_all add: shm_inv_create shm_inv_attach shm_inv_detach shm_inv_destroy)

text \<open>
  C21. Shared regions are disjoint. Starting from the initialised slot table, after any sequence of
  creations, attachments, detachments and destructions, two different slots in use never have the
  same frame, and the frame of a slot in use is one that the frame allocator has given out (so that
  it hands it to nobody else).
\<close>

theorem shm_regions_disjoint:
  assumes "shm_step\<^sup>*\<^sup>* (shm_init st) st'" "length (shm_slots st) = SHM_MAX"
    "list_all (\<lambda>sl. length (shm_key sl) = 16) (shm_slots st)" "bitmap_wf (frame_bitmap (shm_vm st))"
    "0 \<le> i" "i < int SHM_MAX" "0 \<le> j" "j < int SHM_MAX" "i \<noteq> j" "shm_phys i st' \<noteq> 0"
  shows "shm_phys i st' \<noteq> shm_phys j st' \<and>
    shm_phys i st' div PAGE_SIZE \<in> managed_frames \<inter> frames_used (frame_bitmap (shm_vm st'))"
proof -
  have "shm_inv (shm_init st)"
    using assms(2-4) by (auto simp: shm_inv_def shm_init_def shm_clear_slot_def regions_ok_def list_all_length)
  with assms(1) have "shm_inv st'" by (induction rule: rtranclp_induct) (auto intro: shm_inv_step)
  moreover have "nat i < SHM_MAX" "nat j < SHM_MAX" "nat i \<noteq> nat j" using assms(5-9) by auto
  ultimately show ?thesis
    using assms(5-10) unfolding shm_inv_def regions_ok_def shm_phys_def
    by (simp add: not_le del: ex_simps all_simps) (metis nat_int)
qed

text \<open>An empty table over the memory after boot, and two regions in it.\<close>

definition shm_boot :: shm_state where
  "shm_boot = \<lparr>shm_slots = replicate SHM_MAX \<lparr>shm_key = replicate 16 0, phys = 0, refcount = 0\<rparr>,
     shm_vm = demo_vm\<rparr>"

lemma demo_bitmap: "bitmap_wf (frame_bitmap demo_vm)"
  using demo_vm_ok(1) by (auto simp: vm_ok_def vm_inv_def)

lemma shm_create_new:
  assumes "bitmap_wf (frame_bitmap (shm_vm st))" "0 < pmm_free_count (frame_bitmap (shm_vm st))"
    "shm_lookup key (shm_slots st) = None" "find_slot (\<lambda>sl. phys sl = 0) (shm_slots st) = Some i"
    "i < SHM_MAX" "length (shm_slots st) = SHM_MAX"
  shows "fst (shm_create key st) = int i" "shm_phys (int i) (snd (shm_create key st)) \<noteq> 0"
    "mem (shm_vm (snd (shm_create key st))) =
       zero_frame (shm_phys (int i) (snd (shm_create key st))) (mem (shm_vm st))"
proof -
  obtain p s where a: "alloc_frame (shm_vm st) = (p, s)" by fastforce
  from assms(1,2) have "p \<noteq> 0" using alloc_frame_succeeds(1) [OF assms(1) _ a] by (simp add: pmm_free_count_card)
  with a assms alloc_frame_basic(3) [OF assms(1) a] show "fst (shm_create key st) = int i"
    "shm_phys (int i) (snd (shm_create key st)) \<noteq> 0"
    "mem (shm_vm (snd (shm_create key st))) =
       zero_frame (shm_phys (int i) (snd (shm_create key st))) (mem (shm_vm st))"
    by (simp_all add: shm_create_def Let_def shm_phys_def)
qed

theorem shm_regions_disjoint_witness:
  "shm_phys 0 (snd (shm_create [65] (shm_init shm_boot))) \<noteq> shm_phys 1 (snd (shm_create [65] (shm_init shm_boot)))"
proof -
  let ?st = "shm_init shm_boot" and ?st' = "snd (shm_create [65] (shm_init shm_boot))"
  have "shm_phys (int 0) ?st' \<noteq> 0"
    using demo_bitmap demo_vm_free by (intro shm_create_new(2))
      (simp_all add: shm_init_def shm_boot_def shm_clear_slot_def SHM_MAX_def shm_lookup_def
        find_slot_None_iff eval_nat_numeral)
  moreover have "shm_step\<^sup>*\<^sup>* ?st ?st'" by (blast intro: shm_step.create)
  ultimately show ?thesis
    using shm_regions_disjoint [of shm_boot ?st' 0 1] demo_bitmap
    by (simp add: shm_boot_def SHM_MAX_def list_all_length)
qed

section \<open>Finding a region again\<close>

text \<open>
  A region is found under its key. When \<open>shm_create\<close> returns a slot for a key of at most 15
  characters, \<open>shm_find\<close> returns the same slot afterwards, another \<open>shm_create\<close> with this key
  returns it without allocating anything, and every other slot keeps its frame, key and count. A
  region that did not exist before starts out as zeros.
\<close>

theorem shm_create_find:
  assumes "shm_inv st" "length (cstr key) < 16" "shm_create key st = (i, st')" "i \<noteq> -1"
  shows "shm_find key st' = i \<and> shm_create key st' = (i, st') \<and> shm_phys i st' \<noteq> 0 \<and>
    (\<forall>j<SHM_MAX. int j \<noteq> i \<longrightarrow> shm_slots st' ! j = shm_slots st ! j) \<and>
    (shm_find key st = -1 \<longrightarrow> (\<forall>k<PAGE_SIZE. mem (shm_vm st') (shm_phys i st' + k) = 0))"
proof (cases "shm_lookup key (shm_slots st)")
  case (Some k)
  with assms find_slot_SomeD [OF Some [unfolded shm_lookup_def]] show ?thesis
    by (auto simp: shm_create_def shm_find_def shm_phys_def shm_inv_def)
next
  case None
  obtain p s where a: "alloc_frame (shm_vm st) = (p, s)" by fastforce
  from None assms(3,4) a obtain k where k: "find_slot (\<lambda>sl. phys sl = 0) (shm_slots st) = Some k"
    "p \<noteq> 0" "i = int k" by (auto simp: shm_create_def Let_def split: option.splits if_splits)
  let ?d = "shm_strcpy (shm_key (shm_slots st ! k)) key 16"
  note kd = find_slot_SomeD [OF k(1)]
  have st': "st' = st\<lparr>shm_vm := vmm_zero_frame p s, shm_slots := (shm_slots st)[k := (shm_slots st ! k)
      \<lparr>phys := p, refcount := 0, shm_key := ?d\<rparr>]\<rparr>"
    using assms(3) None k a by (simp add: shm_create_def Let_def)
  obtain d where d: "c_strcpy (shm_key (shm_slots st ! k)) key 16 = Some d"
    using c_strcpy_total [of 16 "shm_key (shm_slots st ! k)" key] kd(1) assms(1)
    by (auto simp: shm_inv_def list_all_length)
  from c_strcpy_cstr [OF d] assms(2) have "shm_streq ?d key"
    by (simp add: shm_strcpy_def d shm_streq_def c_streq_iff)
  moreover have "\<not> (phys sl \<noteq> 0 \<and> shm_streq (shm_key sl) key)" if "sl \<in> set (shm_slots st)" for sl
    using None that by (auto simp: shm_lookup_def find_slot_None_iff)
  ultimately have l: "shm_lookup key (shm_slots st') = Some k"
    using kd(1) k(2) st' unfolding shm_lookup_def find_slot_Some_iff
    by (auto simp: nth_list_update dest: nth_mem)
  have "k < SHM_MAX" using kd(1) assms(1) by (simp add: shm_inv_def)
  with l st' k(2,3) kd(1) show ?thesis
    by (auto simp: shm_create_def shm_find_def shm_phys_def zero_frame_eq)
qed

theorem shm_create_find_witness:
  "let (i, st) = shm_create [83, 72, 77] shm_boot in i = 0 \<and> shm_find [83, 72, 77] st = 0"
proof -
  obtain i st where c: "shm_create [83, 72, 77] shm_boot = (i, st)" by fastforce
  have "fst (shm_create [83, 72, 77] shm_boot) = int 0"
    using demo_bitmap demo_vm_free by (intro shm_create_new(1))
      (simp_all add: shm_boot_def SHM_MAX_def shm_lookup_def find_slot_None_iff eval_nat_numeral)
  moreover have "shm_inv shm_boot"
    using demo_bitmap by (simp add: shm_inv_def shm_boot_def regions_ok_def list_all_length)
  ultimately show ?thesis using shm_create_find [of shm_boot "[83, 72, 77]" i st] c by (simp add: cstr_Cons)
qed

section \<open>Attaching a region\<close>

text \<open>
  The addresses of the regions lie in the first 8 MB, which every address space that
  \<open>vmm_create_page_dir\<close> builds maps with 2 MB pages; \<open>vmm_map_page\<close> does not touch those.
\<close>

lemma vmm_map_page_large:
  assumes "in_large_page root v (mem s)"
  shows "vmm_map_page root v p fl s = s"
  using assms by (simp add: in_large_page_def vmm_map_page_def next_table_def Let_def)

lemma in_large_page_kernel:
  assumes "vm_ok R s" "vmm_create_page_dir s = (root, s')" "root \<noteq> 0" "unat v < 0x800000"
  shows "in_large_page root v (mem s')"
proof -
  obtain p3 p2 where fs: "fresh_space root p3 p2 (mem s) (mem s')"
    and d: "distinct [root, p3, p2]" and p: "\<forall>p\<in>{root, p3, p2}. p mod PAGE_SIZE = 0 \<and> p < 2 ^ 64"
    by (rule new_space [OF assms(1-3)])
  have i: "pt_index 39 v = 0" "pt_index 30 v = 0" "pt_index 21 v = unat v div 2 ^ 21"
    using assms(4) by (auto simp: pt_index_eq less_mult_imp_div_less)
  have "unat v div 2 ^ 21 < 4" using assms(4) by (simp add: less_mult_imp_div_less)
  then consider "unat v div 2 ^ 21 = 0" | "unat v div 2 ^ 21 = 1" | "unat v div 2 ^ 21 = 2" | "unat v div 2 ^ 21 = 3"
    by linarith
  then have "\<exists>e. map_of pd_low_entries (pt_index 21 v) = Some e \<and> pde_large e"
    unfolding i(3) by cases (simp_all add: pd_low_entries_def)
  moreover have "entry_base (word_of_nat p3 OR 7) = p3" "entry_base (word_of_nat p2 OR 7) = p2"
    "pte_present (word_of_nat p3 OR 7 :: u64)" "pte_present (word_of_nat p2 OR 7 :: u64)"
    using p by (auto intro!: table_entry)
  moreover have "entry (mem s') root 0 = word_of_nat p3 OR 7" "entry (mem s') p3 0 = word_of_nat p2 OR 7"
    "entry (mem s') p2 (pt_index 21 v) = (case map_of pd_low_entries (pt_index 21 v) of Some e \<Rightarrow> e | None \<Rightarrow> 0)"
    using fs d p by (simp_all add: fresh_space_def)
  ultimately show ?thesis by (auto simp: in_large_page_def i(1,2) Let_def)
qed

lemma shm_va_small: "0 \<le> i \<Longrightarrow> i < int SHM_MAX \<Longrightarrow> SHM_VA_BASE + nat i * SHM_PAGE_SIZE < 0x508000"
  by (simp add: SHM_VA_BASE_def SHM_PAGE_SIZE_def SHM_MAX_def)

lemma unat_shm_va:
  assumes "0 \<le> i" "i < int SHM_MAX"
  shows "unat (shm_va i) = SHM_VA_BASE + nat i * SHM_PAGE_SIZE"
  using shm_va_small [OF assms] unfolding shm_va_def unsigned_of_nat by (simp only: take_bit_eq_mod) simp

lemma sint_shm_va:
  assumes "0 \<le> i" "i < int SHM_MAX"
  shows "sint (ucast (shm_va i) :: u32) = int (SHM_VA_BASE + nat i * SHM_PAGE_SIZE)"
proof -
  define k where "k = SHM_VA_BASE + nat i * SHM_PAGE_SIZE"
  have k: "unat (shm_va i) = k" "k < 0x508000"
    using unat_shm_va [OF assms] shm_va_small [OF assms] by (simp_all add: k_def)
  then have u: "uint (ucast (shm_va i) :: u32) = int k"
    by (simp add: unsigned_ucast_eq uint_nat take_bit_eq_mod)
  then have "sint (ucast (shm_va i) :: u32) = signed_take_bit 31 (int k)" by (simp add: sint_uint)
  also have "\<dots> = int k"
    using k(2) by (intro signed_take_bit_int_eq_self) simp_all
  finally show ?thesis by (simp add: k_def)
qed

text \<open>
  An attached region is not mapped. In an address space that \<open>vmm_create_page_dir\<close> has just
  built, attaching a region counts the attachment and returns the address of the slot, but the
  translation of that address stays what it was: the kernel's own memory at 5 MB, not the frame of
  the region.
\<close>

theorem shm_attach_not_mapped:
  assumes "vm_ok R s" "vmm_create_page_dir s = (root, shm_vm st)" "root \<noteq> 0"
    "shm_inv st" "shm_valid i st" "shm_attach i root st = (va, st')"
  shows "va = int (SHM_VA_BASE + nat i * SHM_PAGE_SIZE) \<and>
    refcount (shm_slots st' ! nat i) = refcount (shm_slots st ! nat i) + 1 \<and>
    vmm_get_phys root (shm_va i) (mem (shm_vm st')) = shm_va i \<and> unat (shm_va i) \<noteq> shm_phys i st"
proof -
  from assms(5) have i: "0 \<le> i" "i < int SHM_MAX" "phys (shm_slots st ! nat i) \<noteq> 0" by (auto simp: shm_valid_def)
  have k: "nat i < length (shm_slots st)" using i assms(4) by (auto simp: shm_inv_def)
  have small: "unat (shm_va i) < 0x800000" using unat_shm_va [OF i(1,2)] shm_va_small [OF i(1,2)] by simp
  have vm: "shm_vm st' = shm_vm st"
    using assms(5,6) vmm_map_page_large [OF in_large_page_kernel [OF assms(1-3) small]]
    by (auto simp: shm_attach_def Let_def)
  have "phys (shm_slots st ! nat i) div PAGE_SIZE \<in> managed_frames"
    using assms(4) i(3) k by (auto simp: shm_inv_def regions_ok_def)
  then have "0x800000 \<le> shm_phys i st"
    using i div_le_mono [of "phys (shm_slots st ! nat i)" "0x7FFFFF" PAGE_SIZE]
    by (auto simp: managed_frames_def KERNEL_RESERVED_FRAMES_def PAGE_SIZE_def shm_phys_def)
  with small have "unat (shm_va i) \<noteq> shm_phys i st" by linarith
  with vm new_space_kernel [OF assms(1-3) small] assms(5,6) i k sint_shm_va [OF i(1,2)] show ?thesis
    by (auto simp: shm_attach_def Let_def)
qed

text \<open>A fresh data frame leaves every address space as it was.\<close>

lemma vm_ok_new_frame:
  assumes "vm_ok R s" "alloc_frame s = (p, s1)" "p \<noteq> 0"
  shows "vm_ok R (vmm_zero_frame p s1)"
proof -
  from assms(1) obtain lv where lv: "vm_inv lv boot_pds s" "\<forall>r\<in>R. lv r = 4" by (auto simp: vm_ok_def)
  then have wf: "bitmap_wf (frame_bitmap s)" and ty: "tables_typed lv (frame_bitmap s)" by (auto simp: vm_inv_def)
  note b = alloc_frame_basic [OF wf assms(2,3)]
  have "entry (mem (vmm_zero_frame p s1)) a j = entry (mem s) a j" if "lv a \<noteq> 0" "j < 512" for a j
    using tables_typedD(2,3) [OF ty that(1)] b(1,3,7) that(2) by (auto simp: entry_zero_frame)
  with vm_inv_frame [OF lv(1), of "vmm_zero_frame p s1"] b(5,6) have "vm_inv lv boot_pds (vmm_zero_frame p s1)"
    by auto
  with lv(2) show ?thesis by (auto simp: vm_ok_def)
qed

lemma shm_inv_new_space:
  assumes "shm_inv st" "vmm_create_page_dir (shm_vm st) = (root, s')" "root \<noteq> 0"
  shows "shm_inv (st\<lparr>shm_vm := s'\<rparr>)"
proof -
  have wf: "bitmap_wf (frame_bitmap (shm_vm st))" using assms(1) by (simp add: shm_inv_def)
  have "bitmap_wf (frame_bitmap s') \<and> frames_used (frame_bitmap (shm_vm st)) \<subseteq> frames_used (frame_bitmap s')"
    by (rule vmm_create_page_dir_tables [OF wf assms(2,3)]) blast
  with assms(1) show ?thesis by (auto simp: shm_inv_def intro: regions_ok_mono)
qed

theorem shm_attach_not_mapped_witness:
  "let st0 = snd (shm_create [65] (shm_boot\<lparr>shm_vm := boot_vm\<rparr>));
       (root, s) = vmm_create_page_dir (shm_vm st0);
       (va, st) = shm_attach 0 root (st0\<lparr>shm_vm := s\<rparr>)
   in va = 0x500000 \<and> vmm_get_phys root 0x500000 (mem (shm_vm st)) = 0x500000"
proof -
  let ?b = "shm_boot\<lparr>shm_vm := boot_vm\<rparr>"
  define st0 where "st0 = snd (shm_create [65] ?b)"
  obtain root s where c: "vmm_create_page_dir (shm_vm st0) = (root, s)" by fastforce
  obtain va st where t: "shm_attach 0 root (st0\<lparr>shm_vm := s\<rparr>) = (va, st)" by fastforce
  obtain p s1 where a: "alloc_frame boot_vm = (p, s1)" by fastforce
  note p = alloc_frame_succeeds [OF boot_vm_free(2) _ a, unfolded boot_vm_free(1), simplified]
  have l: "shm_lookup [65] (shm_slots ?b) = None" "find_slot (\<lambda>sl. phys sl = 0) (shm_slots ?b) = Some 0"
    by (simp_all add: shm_boot_def SHM_MAX_def shm_lookup_def find_slot_None_iff eval_nat_numeral)
  then have vm: "shm_vm st0 = vmm_zero_frame p s1" using a p(1) by (simp add: st0_def shm_create_def Let_def)
  have b: "shm_inv ?b" using boot_vm_free(2) by (simp add: shm_inv_def shm_boot_def regions_ok_def list_all_length)
  then have i0: "shm_inv st0" unfolding st0_def by (rule shm_inv_create)
  have ok: "vm_ok {} (shm_vm st0)" unfolding vm by (rule vm_ok_new_frame [OF vm_ok_boot a]) (use p(1) in simp)
  have r: "root \<noteq> 0"
    using vmm_create_page_dir_succeeds [of "shm_vm st0"] i0 c p(2) vm by (simp add: shm_inv_def)
  have "shm_valid 0 (st0\<lparr>shm_vm := s\<rparr>)"
    using l a p(1) by (simp add: st0_def shm_create_def Let_def shm_valid_def SHM_MAX_def shm_boot_def)
  from shm_attach_not_mapped [OF ok _ r shm_inv_new_space [OF i0 c r] this t] c t show ?thesis
    by (simp add: st0_def [symmetric] Let_def shm_va_def SHM_VA_BASE_def)
qed

end
