(* ===== verification/Fs.thy ===== *)
theory Fs
  imports Memory "HOL-Library.Monad_Syntax"
begin

text \<open>
  The file system MFS3, \<open>src/kernel/fs.c\<close>: a table of 64 entries in the kernel heap, the data of
  each file in a heap buffer of its own, and a disk image of fixed slots (one header sector and 128
  data sectors per file).

  The buffers come from the allocator of \<open>Memory\<close>; a data pointer is the address together with the
  bytes of the buffer it points to, so that the length of the list is what was asked for. A fresh
  buffer holds whatever the heap held there (\<open>junk\<close>). An operation is \<open>None\<close> when the code reads
  or writes outside of a buffer, dereferences NULL, or hands the allocator a bad pointer. The disk
  driver (\<open>src/kernel/ata.c\<close>) is its contract: a sector that can be accessed is read back as it was
  written; the register protocol is not modelled. The timer tick is an argument.
\<close>

unbundle bit_operations_syntax

section \<open>The disk\<close>

type_synonym sector = bytes

record disk =
  present :: bool
  answers :: "nat \<Rightarrow> bool"
  sectors :: "nat \<Rightarrow> sector"

definition ATA_LBA28_MAX :: nat where "ATA_LBA28_MAX = 0x0FFFFFFF"

definition ata_disk_present :: "disk \<Rightarrow> bool" where
  "ata_disk_present d = present d"

definition ata_access :: "nat \<Rightarrow> disk \<Rightarrow> bool" where
  "ata_access lba d \<longleftrightarrow> present d \<and> lba \<le> ATA_LBA28_MAX \<and> answers d lba"

definition ata_read_sector :: "nat \<Rightarrow> disk \<Rightarrow> sector option" where
  "ata_read_sector lba d = (if ata_access lba d then Some (sectors d lba) else None)"

definition ata_write_sector :: "nat \<Rightarrow> sector \<Rightarrow> disk \<Rightarrow> disk" where
  "ata_write_sector lba buf d =
     (if ata_access lba d then d\<lparr>sectors := (sectors d)(lba := buf)\<rparr> else d)"

section \<open>The file table\<close>

definition FS_MAX_FILES :: nat where "FS_MAX_FILES = 64"
definition FS_MAX_NAME :: nat where "FS_MAX_NAME = 32"
definition FS_MAX_DATA :: nat where "FS_MAX_DATA = 65536"
definition FS_MAX_BIN_DATA :: nat where "FS_MAX_BIN_DATA = 524288"
definition FS_DATA_SECS :: nat where "FS_DATA_SECS = FS_MAX_DATA div 512"
definition FS_SECTORS_PER_FILE :: nat where "FS_SECTORS_PER_FILE = 1 + FS_DATA_SECS"

definition FS_PERM_DIR :: u16 where "FS_PERM_DIR = 0x8000"
definition FS_PERM_READ :: u16 where "FS_PERM_READ = 4"
definition FS_PERM_WRITE :: u16 where "FS_PERM_WRITE = 2"
definition FS_PERM_EXEC :: u16 where "FS_PERM_EXEC = 1"

type_synonym buffer = "nat \<times> bytes"

record fs_file =
  fname :: bytes
  fsize :: u32
  fused :: u8
  ftmpfs :: u8
  fdirty :: u8
  fperms :: u16
  fctime :: u32
  fmtime :: u32
  fdata :: "buffer option"

record fs_state =
  files :: "fs_file list"
  dsk :: disk
  fheap :: kheap
  junk :: "nat \<Rightarrow> u8"

definition upd_file :: "nat \<Rightarrow> (fs_file \<Rightarrow> fs_file) \<Rightarrow> fs_state \<Rightarrow> fs_state" where
  "upd_file i g s = s\<lparr>files := (files s)[i := g (files s ! i)]\<rparr>"

text \<open>Allocation: \<open>None\<close> inside is the NULL that \<open>malloc\<close> returns when nothing fits.\<close>

definition fs_malloc :: "nat \<Rightarrow> fs_state \<Rightarrow> (buffer option \<times> fs_state) option" where
  "fs_malloc n s = do {
     (p, h) \<leftarrow> malloc (fheap s) (word_of_nat n);
     Some (if p = 0 then None else Some (p, map (junk s) [p..<p + n]), s\<lparr>fheap := h\<rparr>)
   }"

definition fs_free :: "buffer \<Rightarrow> fs_state \<Rightarrow> fs_state option" where
  "fs_free b s = do { h \<leftarrow> free (fheap s) (fst b); Some (s\<lparr>fheap := h\<rparr>) }"

section \<open>Disk image\<close>

definition fs_hdr_sector :: "nat \<Rightarrow> nat" where
  "fs_hdr_sector i = 1 + i * FS_SECTORS_PER_FILE"

definition fs_data_sector :: "nat \<Rightarrow> nat \<Rightarrow> nat" where
  "fs_data_sector i chunk = 2 + i * FS_SECTORS_PER_FILE + chunk"

definition fs_header :: "fs_file \<Rightarrow> sector" where
  "fs_header f = fname f @ le_bytes 4 (fsize f) @ [fused f, ftmpfs f] @ le_bytes 2 (fperms f) @
     le_bytes 4 (fctime f) @ le_bytes 4 (fmtime f) @ replicate 464 0"

definition fs_chunk :: "fs_file \<Rightarrow> bytes \<Rightarrow> nat \<Rightarrow> sector" where
  "fs_chunk f d k =
     map (\<lambda>j. let off = k * 512 + j in if off < unat (fsize f) then d ! off else 0) [0..<512]"

definition fs_disk_save :: "nat \<Rightarrow> fs_state \<Rightarrow> fs_state option" where
  "fs_disk_save i s =
     (let f = files s ! i in
      if \<not> ata_disk_present (dsk s) then Some s
      else if ftmpfs f \<noteq> 0 then Some s
      else let s = s\<lparr>dsk := ata_write_sector (fs_hdr_sector i) (fs_header f) (dsk s)\<rparr>
      in case fdata f of
           None \<Rightarrow> Some s
         | Some (p, d) \<Rightarrow>
             if min (unat (fsize f)) FS_MAX_DATA \<le> length d
             then Some (upd_file i (\<lambda>f. f\<lparr>fdirty := 0\<rparr>)
               (s\<lparr>dsk := fold (\<lambda>k. ata_write_sector (fs_data_sector i k) (fs_chunk f d k))
                           [0..<FS_DATA_SECS] (dsk s)\<rparr>))
             else None)"

definition fs_magic :: bytes where "fs_magic = [0x4D, 0x46, 0x53, 0x33]"

definition fs_disk_write_magic :: "fs_state \<Rightarrow> fs_state" where
  "fs_disk_write_magic s = s\<lparr>dsk := ata_write_sector 0 (fs_magic @ replicate 508 0) (dsk s)\<rparr>"

text \<open>Reading the data sectors from chunk \<open>k\<close> on stops at the first sector that cannot be read.\<close>

fun fs_load_chunks :: "disk \<Rightarrow> nat \<Rightarrow> nat list \<Rightarrow> bytes \<Rightarrow> bytes" where
  "fs_load_chunks dk i [] d = d"
| "fs_load_chunks dk i (k # ks) d =
     (case ata_read_sector (fs_data_sector i k) dk of
        None \<Rightarrow> d
      | Some buf \<Rightarrow> fs_load_chunks dk i ks (take (k * 512) d @ take 512 buf @ drop (k * 512 + 512) d))"

definition fs_decode_header :: "sector \<Rightarrow> fs_file \<Rightarrow> fs_file" where
  "fs_decode_header buf f = f\<lparr>fused := buf ! 36, fname := take FS_MAX_NAME buf,
     fsize := le_word (take 4 (drop 32 buf)), ftmpfs := buf ! 37,
     fperms := le_word (take 2 (drop 38 buf)), fctime := le_word (take 4 (drop 40 buf)),
     fmtime := le_word (take 4 (drop 44 buf)), fdirty := 0\<rparr>"

definition fs_load_slot :: "nat \<Rightarrow> fs_state \<Rightarrow> fs_state option" where
  "fs_load_slot i s =
     (case ata_read_sector (fs_hdr_sector i) (dsk s) of
        None \<Rightarrow> Some s
      | Some buf \<Rightarrow>
          if buf ! 36 = 0 then Some (upd_file i (\<lambda>f. f\<lparr>fused := 0\<rparr>) s)
          else let s = upd_file i (fs_decode_header buf) s
          in if fperms (files s ! i) AND FS_PERM_DIR \<noteq> 0
             then Some (upd_file i (\<lambda>f. f\<lparr>fdata := None\<rparr>) s)
             else do {
               (b, s) \<leftarrow> fs_malloc FS_MAX_DATA s;
               Some (case b of
                   None \<Rightarrow> upd_file i (\<lambda>f. f\<lparr>fdata := None, fused := 0\<rparr>) s
                 | Some (p, d) \<Rightarrow> upd_file i (\<lambda>f. f\<lparr>fdata :=
                     Some (p, fs_load_chunks (dsk s) i [0..<FS_DATA_SECS] d)\<rparr>) s)
             })"

fun fs_load_from :: "nat list \<Rightarrow> fs_state \<Rightarrow> fs_state option" where
  "fs_load_from [] s = Some s"
| "fs_load_from (i # is) s = do { s \<leftarrow> fs_load_slot i s; fs_load_from is s }"

definition fs_disk_load :: "fs_state \<Rightarrow> fs_state option" where
  "fs_disk_load s = fs_load_from [0..<FS_MAX_FILES] s"

section \<open>Operations\<close>

definition fs_strcmp :: "bytes \<Rightarrow> bytes \<Rightarrow> bool" where
  "fs_strcmp a b = c_streq a b"

definition fs_strcpy :: "bytes \<Rightarrow> bytes \<Rightarrow> nat \<Rightarrow> bytes option" where
  "fs_strcpy dest src mx = c_strcpy dest src mx"

text \<open>
  The table is itself a heap buffer, 64 bytes an entry; names and sizes are not initialised. There
  is no check that the allocation succeeded.
\<close>

definition fs_blank :: "(nat \<Rightarrow> u8) \<Rightarrow> nat \<Rightarrow> fs_file" where
  "fs_blank jk a = \<lparr>fname = map jk [a..<a + 32], fsize = le_word (map jk [a + 32..<a + 36]), fused = 0,
     ftmpfs = 0, fdirty = 0, fperms = 0, fctime = 0, fmtime = 0, fdata = None\<rparr>"

definition fs_init :: "fs_state \<Rightarrow> fs_state option" where
  "fs_init s = do {
     (p, h) \<leftarrow> malloc (fheap s) (word_of_nat (FS_MAX_FILES * 64));
     if p = 0 then None
     else let s = s\<lparr>fheap := h, files := map (\<lambda>i. fs_blank (junk s) (p + 64 * i)) [0..<FS_MAX_FILES]\<rparr>
     in if \<not> ata_disk_present (dsk s) then Some s
        else case ata_read_sector 0 (dsk s) of
          None \<Rightarrow> Some s
        | Some sb \<Rightarrow> if take 4 sb = fs_magic then fs_disk_load s else Some (fs_disk_write_magic s)
   }"

definition fs_ensure_data :: "nat \<Rightarrow> fs_state \<Rightarrow> (buffer option \<times> fs_state) option" where
  "fs_ensure_data i s =
     (case fdata (files s ! i) of
        Some b \<Rightarrow> Some (Some b, s)
      | None \<Rightarrow> do {
          (b, s) \<leftarrow> fs_malloc FS_MAX_DATA s;
          Some (case b of
              None \<Rightarrow> (None, upd_file i (\<lambda>f. f\<lparr>fdata := None\<rparr>) s)
            | Some (p, d) \<Rightarrow>
                (let z = (p, replicate FS_MAX_DATA 0)
                 in (Some z, upd_file i (\<lambda>f. f\<lparr>fdata := Some z\<rparr>) s)))
        })"

definition is_dir :: "fs_file \<Rightarrow> bool" where
  "is_dir f \<longleftrightarrow> fperms f AND FS_PERM_DIR \<noteq> 0"

definition named :: "bytes \<Rightarrow> fs_file \<Rightarrow> bool" where
  "named nm f \<longleftrightarrow> fused f \<noteq> 0 \<and> fs_strcmp (fname f) nm"

definition named_file :: "bytes \<Rightarrow> fs_file \<Rightarrow> bool" where
  "named_file nm f \<longleftrightarrow> fused f \<noteq> 0 \<and> \<not> is_dir f \<and> fs_strcmp (fname f) nm"

definition fs_write :: "bytes \<Rightarrow> bytes \<Rightarrow> u32 \<Rightarrow> fs_state \<Rightarrow> (int \<times> fs_state) option" where
  "fs_write nm str tick s =
     (let len = length (cstr str) in
      if len \<ge> FS_MAX_DATA then Some (0, s)
      else case find_slot (named_file nm) (files s) of
        Some i \<Rightarrow> do {
          (b, s) \<leftarrow> fs_ensure_data i s;
          case b of
            None \<Rightarrow> Some (0, s)
          | Some (p, d) \<Rightarrow> do {
              d \<leftarrow> fs_strcpy d str FS_MAX_DATA;
              s \<leftarrow> fs_disk_save i (upd_file i (\<lambda>f. f\<lparr>fdata := Some (p, d),
                fsize := word_of_nat (len + 1), fmtime := tick, fdirty := 1\<rparr>) s);
              Some (1, s)
            }
        }
      | None \<Rightarrow>
      (case find_slot (\<lambda>f. fused f = 0) (files s) of
         None \<Rightarrow> Some (0, s)
       | Some i \<Rightarrow> do {
           nm' \<leftarrow> fs_strcpy (fname (files s ! i)) nm FS_MAX_NAME;
           (b, s) \<leftarrow> fs_ensure_data i (upd_file i (\<lambda>f. f\<lparr>fname := nm'\<rparr>) s);
           case b of
             None \<Rightarrow> Some (0, s)
           | Some (p, d) \<Rightarrow> do {
               d \<leftarrow> fs_strcpy d str FS_MAX_DATA;
               s \<leftarrow> fs_disk_save i (upd_file i (\<lambda>f. f\<lparr>fdata := Some (p, d),
                 fsize := word_of_nat (len + 1), fused := 1, ftmpfs := 0, fdirty := 1,
                 fperms := FS_PERM_READ OR FS_PERM_WRITE, fctime := tick, fmtime := tick\<rparr>) s);
               Some (1, s)
             }
         }))"

definition fs_read :: "bytes \<Rightarrow> fs_state \<Rightarrow> bytes option" where
  "fs_read nm s =
     (case find_slot (named_file nm) (files s) of
        None \<Rightarrow> None
      | Some i \<Rightarrow> map_option snd (fdata (files s ! i)))"

definition fs_delete :: "bytes \<Rightarrow> fs_state \<Rightarrow> (int \<times> fs_state) option" where
  "fs_delete nm s =
     (case find_slot (named nm) (files s) of
        None \<Rightarrow> Some (0, s)
      | Some i \<Rightarrow> do {
          s \<leftarrow> (case fdata (files s ! i) of
             None \<Rightarrow> Some (upd_file i (\<lambda>f. f\<lparr>fused := 0\<rparr>) s)
           | Some b \<Rightarrow> fs_free b (upd_file i (\<lambda>f. f\<lparr>fused := 0, fdata := None\<rparr>) s));
          s \<leftarrow> fs_disk_save i s;
          Some (1, s)
        })"

text \<open>What the listings print, one list element per call of the print function.\<close>

definition list_entry :: "fs_file \<Rightarrow> bytes \<Rightarrow> bytes list" where
  "list_entry f shown = (if is_dir f then [bstr ''[DIR] ''] else []) @ [shown, [10]]"

definition fs_list :: "fs_state \<Rightarrow> bytes list" where
  "fs_list s =
     (let us = filter (\<lambda>f. fused f \<noteq> 0) (files s)
      in if us = [] then [bstr ''Tidak ada file'' @ [10]]
         else concat (map (\<lambda>f. list_entry f (cstr (fname f))) us))"

definition slash :: u8 where "slash = 0x2F"

fun c_prefix :: "bytes \<Rightarrow> bytes \<Rightarrow> bool" where
  "c_prefix [] nm = True"
| "c_prefix (p # ps) nm =
     (if p = 0 then True else case nm of [] \<Rightarrow> False | c # cs \<Rightarrow> c = p \<and> c_prefix ps cs)"

text \<open>What of a name is shown in the listing of a directory, if anything.\<close>

definition fs_dir_tail :: "bytes \<Rightarrow> bytes \<Rightarrow> bytes option" where
  "fs_dir_tail dir nm =
     (if cstr dir = [] \<or> cstr dir = [slash]
      then if slash \<in> set (cstr nm) then None else Some (cstr nm)
      else if \<not> c_prefix dir nm then None
      else let rest = drop (length (cstr dir)) (cstr nm)
           in if slash \<in> set rest then None else Some rest)"

definition fs_list_dir :: "bytes \<Rightarrow> fs_state \<Rightarrow> bytes list" where
  "fs_list_dir dir s =
     (let es = concat (map (\<lambda>f. if fused f = 0 then []
                 else case fs_dir_tail dir (fname f) of None \<Rightarrow> [] | Some shown \<Rightarrow> list_entry f shown) (files s))
      in if es = [] then [bstr ''Kosong'' @ [10]] else es)"

text \<open>
  The listing into a buffer of \<open>bufsz\<close> bytes: the number of files and the bytes stored from the
  start of the buffer on.
\<close>

fun list_names :: "int \<Rightarrow> fs_file list \<Rightarrow> bytes \<Rightarrow> int \<times> bytes" where
  "list_names bufsz [] out = (0, out)"
| "list_names bufsz (f # fs) out =
     (if fused f = 0 then list_names bufsz fs out
      else let out = out @ take (nat (bufsz - 2 - int (length out))) (cstr (fname f));
               out = (if int (length out) < bufsz - 1 then out @ [10] else out);
               (cnt, out) = list_names bufsz fs out
           in (cnt + 1, out))"

definition fs_list_buf :: "int \<Rightarrow> fs_state \<Rightarrow> int \<times> bytes" where
  "fs_list_buf bufsz s =
     (let (cnt, out) = list_names bufsz (files s) []
      in (cnt, if int (length out) < bufsz then out @ [0] else out))"

text \<open>The unique completion of a prefix: the result and what was stored to \<open>out_name\<close>.\<close>

fun find_prefix_from :: "bytes \<Rightarrow> fs_file list \<Rightarrow> bytes option \<Rightarrow> int \<times> bytes option" where
  "find_prefix_from prefix [] found = (case found of None \<Rightarrow> 0 | Some _ \<Rightarrow> 1, found)"
| "find_prefix_from prefix (f # fs) found =
     (if fused f = 0 \<or> \<not> c_prefix prefix (fname f) then find_prefix_from prefix fs found
      else case found of
        Some out \<Rightarrow> (0, Some out)
      | None \<Rightarrow> find_prefix_from prefix fs (Some (take (FS_MAX_NAME - 1) (cstr (fname f)) @ [0])))"

definition fs_find_prefix :: "bytes \<Rightarrow> fs_state \<Rightarrow> int \<times> bytes option" where
  "fs_find_prefix prefix s = find_prefix_from prefix (files s) None"

definition fs_memcpy :: "bytes \<Rightarrow> bytes \<Rightarrow> nat \<Rightarrow> bytes option" where
  "fs_memcpy dst src n = (if n \<le> length dst \<and> n \<le> length src then Some (take n src @ drop n dst) else None)"

definition fs_write_bin_internal :: "bytes \<Rightarrow> bytes \<Rightarrow> nat \<Rightarrow> u8 \<Rightarrow> u32 \<Rightarrow> fs_state \<Rightarrow> (int \<times> fs_state) option" where
  "fs_write_bin_internal nm src sz is_tmpfs tick s =
     (if sz > FS_MAX_BIN_DATA then Some (0, s)
      else case find_slot (named_file nm) (files s) of
        Some i \<Rightarrow> do {
          s \<leftarrow> (case fdata (files s ! i) of
             None \<Rightarrow> Some s
           | Some b \<Rightarrow> fs_free b (upd_file i (\<lambda>f. f\<lparr>fdata := None\<rparr>) s));
          (b, s) \<leftarrow> fs_malloc sz s;
          case b of
            None \<Rightarrow> Some (0, upd_file i (\<lambda>f. f\<lparr>fdata := None\<rparr>) s)
          | Some (p, d) \<Rightarrow> do {
              d \<leftarrow> fs_memcpy d src sz;
              s \<leftarrow> fs_disk_save i (upd_file i (\<lambda>f. f\<lparr>fdata := Some (p, d), fsize := word_of_nat sz,
                fmtime := tick, fdirty := 1, ftmpfs := is_tmpfs\<rparr>) s);
              Some (1, s)
            }
        }
      | None \<Rightarrow>
      (case find_slot (\<lambda>f. fused f = 0) (files s) of
         None \<Rightarrow> Some (0, s)
       | Some i \<Rightarrow> do {
           nm' \<leftarrow> fs_strcpy (fname (files s ! i)) nm FS_MAX_NAME;
           (b, s) \<leftarrow> fs_malloc sz (upd_file i (\<lambda>f. f\<lparr>fname := nm'\<rparr>) s);
           case b of
             None \<Rightarrow> Some (0, upd_file i (\<lambda>f. f\<lparr>fdata := None\<rparr>) s)
           | Some (p, d) \<Rightarrow> do {
               d \<leftarrow> fs_memcpy d src sz;
               s \<leftarrow> fs_disk_save i (upd_file i (\<lambda>f. f\<lparr>fdata := Some (p, d), fsize := word_of_nat sz,
                 fused := 1, ftmpfs := is_tmpfs, fdirty := 1,
                 fperms := FS_PERM_READ OR FS_PERM_WRITE OR FS_PERM_EXEC, fctime := tick, fmtime := tick\<rparr>) s);
               Some (1, s)
             }
         }))"

definition fs_write_bin :: "bytes \<Rightarrow> bytes \<Rightarrow> nat \<Rightarrow> u32 \<Rightarrow> fs_state \<Rightarrow> (int \<times> fs_state) option" where
  "fs_write_bin nm src sz tick s = fs_write_bin_internal nm src sz 0 tick s"

definition fs_write_tmp :: "bytes \<Rightarrow> bytes \<Rightarrow> nat \<Rightarrow> u32 \<Rightarrow> fs_state \<Rightarrow> (int \<times> fs_state) option" where
  "fs_write_tmp nm src sz tick s = fs_write_bin_internal nm src sz 1 tick s"

definition fs_mkdir :: "bytes \<Rightarrow> u32 \<Rightarrow> fs_state \<Rightarrow> (int \<times> fs_state) option" where
  "fs_mkdir nm tick s =
     (case find_slot (named nm) (files s) of
        Some i \<Rightarrow> Some (1, s)
      | None \<Rightarrow>
      (case find_slot (\<lambda>f. fused f = 0) (files s) of
         None \<Rightarrow> Some (0, s)
       | Some i \<Rightarrow> do {
           nm' \<leftarrow> fs_strcpy (fname (files s ! i)) nm FS_MAX_NAME;
           s \<leftarrow> fs_disk_save i (upd_file i (\<lambda>f. f\<lparr>fname := nm', fsize := 0, fused := 1, ftmpfs := 0, fdirty := 1,
             fperms := FS_PERM_DIR OR FS_PERM_READ OR FS_PERM_WRITE, fctime := tick, fmtime := tick,
             fdata := None\<rparr>) s);
           Some (1, s)
         }))"

definition fs_read_bin :: "bytes \<Rightarrow> fs_state \<Rightarrow> (u32 \<times> bytes option) option" where
  "fs_read_bin nm s =
     (case find_slot (named_file nm) (files s) of
        None \<Rightarrow> None
      | Some i \<Rightarrow> Some (fsize (files s ! i), map_option snd (fdata (files s ! i))))"

definition fs_get_perms :: "bytes \<Rightarrow> fs_state \<Rightarrow> u16" where
  "fs_get_perms nm s = (case find_slot (named nm) (files s) of None \<Rightarrow> 0 | Some i \<Rightarrow> fperms (files s ! i))"

definition fs_set_perms :: "bytes \<Rightarrow> u16 \<Rightarrow> fs_state \<Rightarrow> (int \<times> fs_state) option" where
  "fs_set_perms nm ps s =
     (case find_slot (named nm) (files s) of
        None \<Rightarrow> Some (0, s)
      | Some i \<Rightarrow> do {
          s \<leftarrow> fs_disk_save i (upd_file i (\<lambda>f. f\<lparr>fperms := ps, fdirty := 1\<rparr>) s);
          Some (1, s)
        })"

definition fs_get_mtime :: "bytes \<Rightarrow> fs_state \<Rightarrow> u32" where
  "fs_get_mtime nm s = (case find_slot (named nm) (files s) of None \<Rightarrow> 0 | Some i \<Rightarrow> fmtime (files s ! i))"

definition fs_rename :: "bytes \<Rightarrow> bytes \<Rightarrow> u32 \<Rightarrow> fs_state \<Rightarrow> (int \<times> fs_state) option" where
  "fs_rename old_name new_name tick s =
     (case find_slot (named new_name) (files s) of
        Some i \<Rightarrow> Some (-1, s)
      | None \<Rightarrow>
      (case find_slot (named old_name) (files s) of
         None \<Rightarrow> Some (-1, s)
       | Some i \<Rightarrow> do {
           nm' \<leftarrow> fs_strcpy (fname (files s ! i)) new_name FS_MAX_NAME;
           s \<leftarrow> fs_disk_save i (upd_file i (\<lambda>f. f\<lparr>fname := nm', fdirty := 1, fmtime := tick\<rparr>) s);
           Some (0, s)
         }))"

end
