(* ===== verification/FsStore.thy ===== *)
theory FsStore
  imports Fs
begin

text \<open>
  The file table as a store of named contents. \<open>fs_contents\<close> is what a reader of a regular file
  gets; the three ways of writing a file keep the laws of the interface \<open>named_store\<close>. The second
  part follows the heap: no operation reads or writes outside of a buffer or frees a bad pointer,
  with one exception that is stated as such.
\<close>

unbundle bit_operations_syntax

section \<open>What an update of one slot does to the lookups\<close>

lemma named_file_unique: "named_file nm f \<Longrightarrow> named_file nm' f \<longleftrightarrow> cstr nm' = cstr nm"
  by (auto simp: named_file_def fs_strcmp_def c_streq_iff)

lemma named_file_dirty [simp]: "named_file nm (f\<lparr>fdirty := d\<rparr>) = named_file nm f"
  by (simp add: named_file_def is_dir_def)

lemma named_dirty [simp]: "named nm (f\<lparr>fdirty := d\<rparr>) = named nm f"
  by (simp add: named_def)

lemma upd_file_simps [simp]:
  "files (upd_file i g s) = (files s)[i := g (files s ! i)]" "dsk (upd_file i g s) = dsk s"
  "fheap (upd_file i g s) = fheap s" "junk (upd_file i g s) = junk s"
  by (simp_all add: upd_file_def)

lemma fs_disk_save_effect:
  assumes "fs_disk_save i s = Some s'"
  shows "fheap s' = fheap s" "junk s' = junk s" "\<exists>d. files s' = (files s)[i := (files s ! i)\<lparr>fdirty := d\<rparr>]"
proof -
  have *: "\<exists>d. files s = (files s)[i := (files s ! i)\<lparr>fdirty := d\<rparr>]"
    by (intro exI [of _ "fdirty (files s ! i)"]) simp
  show "fheap s' = fheap s" "junk s' = junk s" "\<exists>d. files s' = (files s)[i := (files s ! i)\<lparr>fdirty := d\<rparr>]"
    using assms * by (auto simp: fs_disk_save_def Let_def split: if_splits option.splits; blast)+
qed

definition fs_contents :: "fs_state \<Rightarrow> bytes \<Rightarrow> bytes option" where
  "fs_contents s nm =
     (case fs_read_bin nm s of Some (n, Some b) \<Rightarrow> Some (take (unat n) b) | _ \<Rightarrow> None)"

lemma contents_put:
  assumes "i < length (files s)" "files s' = (files s)[i := g]" "named_file nm g" "fdata g = Some (p, b)"
    "\<And>j. j < i \<Longrightarrow> \<not> named_file nm (files s ! j)" "named_file nm (files s ! i) \<or> fused (files s ! i) = 0"
  shows "fs_contents s' nm = Some (take (unat (fsize g)) b)"
    and "cstr nm' \<noteq> cstr nm \<Longrightarrow> fs_contents s' nm' = fs_contents s nm'"
proof -
  have "find_slot (named_file nm) (files s') = Some i"
    using assms by (simp add: find_slot_update_hit)
  then show "fs_contents s' nm = Some (take (unat (fsize g)) b)"
    using assms by (simp add: fs_contents_def fs_read_bin_def)
  assume n: "cstr nm' \<noteq> cstr nm"
  then have no: "\<not> named_file nm' g" "\<not> named_file nm' (files s ! i)"
    using named_file_unique [OF assms(3)] named_file_unique [of nm "files s ! i" nm'] assms(6)
    by (auto simp: named_file_def)
  then have f: "find_slot (named_file nm') ((files s)[i := g]) = find_slot (named_file nm') (files s)"
    by (simp add: find_slot_update_miss)
  have "j \<noteq> i" if "find_slot (named_file nm') (files s) = Some j" for j
    using find_slot_SomeD(2) [OF that] no(2) by auto
  then show "fs_contents s' nm' = fs_contents s nm'"
    by (auto simp: fs_contents_def fs_read_bin_def f assms(2) split: option.splits)
qed

text \<open>The slot that a write goes to: the one with the name, or the first free one.\<close>

lemma write_slot:
  assumes "find_slot (named_file nm) (files s) = Some i \<or>
    find_slot (named_file nm) (files s) = None \<and> find_slot (\<lambda>f. fused f = 0) (files s) = Some i"
  shows "i < length (files s)" "\<And>j. j < i \<Longrightarrow> \<not> named_file nm (files s ! j)"
    "named_file nm (files s ! i) \<or> fused (files s ! i) = 0"
  using assms find_slot_SomeD [of "named_file nm" "files s" i] find_slot_SomeD [of "\<lambda>f. fused f = 0" "files s" i]
  by (auto simp: find_slot_None_iff)

lemma fs_ensure_data_effect:
  assumes "fs_ensure_data i s = Some (Some (p, d), s')"
  shows "files s' = (files s)[i := (files s ! i)\<lparr>fdata := Some (p, d)\<rparr>]"
proof (cases "fdata (files s ! i)")
  case None
  with assms show ?thesis
    by (auto simp: fs_ensure_data_def fs_malloc_def Let_def bind_eq_Some_conv split: option.splits if_splits)
next
  case (Some b)
  then have "(files s ! i)\<lparr>fdata := Some b\<rparr> = files s ! i" by (cases "files s ! i") simp
  then have "(files s)[i := (files s ! i)\<lparr>fdata := Some b\<rparr>] = files s" by (simp only: list_update_id)
  with assms Some show ?thesis by (simp add: fs_ensure_data_def)
qed

lemma fs_malloc_effect:
  "fs_malloc n s = Some (b, s') \<Longrightarrow> files s' = files s"
  "fs_malloc n s = Some (b, s') \<Longrightarrow> dsk s' = dsk s"
  "fs_malloc n s = Some (b, s') \<Longrightarrow> junk s' = junk s"
  "fs_malloc n s = Some (Some (p, d), s') \<Longrightarrow> length d = n"
  by (auto simp: fs_malloc_def bind_eq_Some_conv split: if_splits)

lemma fs_free_effect: "fs_free b s = Some s' \<Longrightarrow> files s' = files s \<and> dsk s' = dsk s \<and> junk s' = junk s"
  by (auto simp: fs_free_def bind_eq_Some_conv)

lemma copied_name:
  "fs_strcpy dst nm FS_MAX_NAME = Some nm' \<Longrightarrow> length (cstr nm) < 32 \<Longrightarrow> fs_strcmp nm' nm"
  by (auto simp: fs_strcpy_def fs_strcmp_def c_streq_iff FS_MAX_NAME_def dest!: c_strcpy_cstr)

lemma perms_not_dir:
  "(FS_PERM_READ OR FS_PERM_WRITE) AND FS_PERM_DIR = 0"
  "(FS_PERM_READ OR FS_PERM_WRITE OR FS_PERM_EXEC) AND FS_PERM_DIR = 0"
  by (simp_all add: FS_PERM_READ_def FS_PERM_WRITE_def FS_PERM_EXEC_def FS_PERM_DIR_def)

text \<open>A successful write: one slot, with the name, the data and its length.\<close>

lemma fs_write_effect:
  assumes "fs_write nm str tick s = Some (1, s')" "length (cstr nm) < 32"
  obtains i g p d where "find_slot (named_file nm) (files s) = Some i \<or>
      find_slot (named_file nm) (files s) = None \<and> find_slot (\<lambda>f. fused f = 0) (files s) = Some i"
    "files s' = (files s)[i := g]" "named_file nm g" "fdata g = Some (p, d)"
    "take (unat (fsize g)) d = cstr str @ [0]"
proof -
  have len: "length (cstr str) < FS_MAX_DATA" using assms(1) by (auto simp: fs_write_def Let_def split: if_splits)
  then have sz: "unat (word_of_nat (length (cstr str) + 1) :: u32) = Suc (length (cstr str))"
    by (subst unat_of_nat_small) (simp_all add: FS_MAX_DATA_def)
  show thesis
  proof (cases "find_slot (named_file nm) (files s)")
    case (Some i)
    with assms(1) len obtain p d s1 d1 where e: "fs_ensure_data i s = Some (Some (p, d), s1)"
      "fs_strcpy d str FS_MAX_DATA = Some d1"
      "fs_disk_save i (upd_file i (\<lambda>f. f\<lparr>fdata := Some (p, d1), fsize := word_of_nat (length (cstr str) + 1),
         fmtime := tick, fdirty := 1\<rparr>) s1) = Some s'"
      by (auto simp: fs_write_def Let_def bind_eq_Some_conv split: option.splits)
    from fs_disk_save_effect(3) [OF e(3)] fs_ensure_data_effect [OF e(1)] find_slot_SomeD(1) [OF Some]
    obtain dr where "files s' = (files s)[i := (files s ! i)\<lparr>fdata := Some (p, d1),
        fsize := word_of_nat (length (cstr str) + 1), fmtime := tick, fdirty := dr\<rparr>]" by auto
    with that [of i _ p d1] Some find_slot_SomeD(2) [OF Some] c_strcpy_take(1) [OF e(2) [unfolded fs_strcpy_def] len] sz
    show thesis by (auto simp: named_file_def is_dir_def)
  next
    case None
    with assms(1) len obtain i nm' p d s1 d1 where e: "find_slot (\<lambda>f. fused f = 0) (files s) = Some i"
      "fs_strcpy (fname (files s ! i)) nm FS_MAX_NAME = Some nm'"
      "fs_ensure_data i (upd_file i (\<lambda>f. f\<lparr>fname := nm'\<rparr>) s) = Some (Some (p, d), s1)"
      "fs_strcpy d str FS_MAX_DATA = Some d1"
      "fs_disk_save i (upd_file i (\<lambda>f. f\<lparr>fdata := Some (p, d1), fsize := word_of_nat (length (cstr str) + 1),
         fused := 1, ftmpfs := 0, fdirty := 1, fperms := FS_PERM_READ OR FS_PERM_WRITE, fctime := tick,
         fmtime := tick\<rparr>) s1) = Some s'"
      by (auto simp: fs_write_def Let_def bind_eq_Some_conv split: option.splits)
    from fs_disk_save_effect(3) [OF e(5)] fs_ensure_data_effect [OF e(3)] find_slot_SomeD(1) [OF e(1)]
    obtain dr where "files s' = (files s)[i := (files s ! i)\<lparr>fname := nm', fdata := Some (p, d1),
        fsize := word_of_nat (length (cstr str) + 1), fused := 1, ftmpfs := 0,
        fperms := FS_PERM_READ OR FS_PERM_WRITE, fctime := tick, fmtime := tick, fdirty := dr\<rparr>]" by auto
    with that [of i _ p d1] None e(1) copied_name [OF e(2) assms(2)]
      c_strcpy_take(1) [OF e(4) [unfolded fs_strcpy_def] len] sz perms_not_dir
    show thesis by (auto simp: named_file_def is_dir_def)
  qed
qed

lemma fs_write_bin_effect:
  assumes "fs_write_bin_internal nm src sz t tick s = Some (1, s')" "length (cstr nm) < 32"
  obtains i g p d where "find_slot (named_file nm) (files s) = Some i \<or>
      find_slot (named_file nm) (files s) = None \<and> find_slot (\<lambda>f. fused f = 0) (files s) = Some i"
    "files s' = (files s)[i := g]" "named_file nm g" "fdata g = Some (p, d)"
    "take (unat (fsize g)) d = take sz src" "sz \<le> length src"
proof -
  have len: "sz \<le> FS_MAX_BIN_DATA"
    using assms(1) by (auto simp: fs_write_bin_internal_def split: if_splits)
  then have sz: "unat (word_of_nat sz :: u32) = sz"
    by (subst unat_of_nat_small) (simp_all add: FS_MAX_BIN_DATA_def)
  have cp: "take sz d1 = take sz src \<and> sz \<le> length src" if "fs_memcpy d src sz = Some d1" for d d1
    using that by (auto simp: fs_memcpy_def split: if_splits)
  show thesis
  proof (cases "find_slot (named_file nm) (files s)")
    case (Some i)
    with assms(1) len obtain s0 p d s1 d1 where e:
      "(case fdata (files s ! i) of None \<Rightarrow> Some s
        | Some b \<Rightarrow> fs_free b (upd_file i (\<lambda>f. f\<lparr>fdata := None\<rparr>) s)) = Some s0"
      "fs_malloc sz s0 = Some (Some (p, d), s1)" "fs_memcpy d src sz = Some d1"
      "fs_disk_save i (upd_file i (\<lambda>f. f\<lparr>fdata := Some (p, d1), fsize := word_of_nat sz,
         fmtime := tick, fdirty := 1, ftmpfs := t\<rparr>) s1) = Some s'"
      by (auto simp: fs_write_bin_internal_def Let_def bind_eq_Some_conv split: option.splits)
    have "files s0 = (files s)[i := (files s ! i)\<lparr>fdata := None\<rparr>]"
    proof (cases "fdata (files s ! i)")
      case None
      then have "(files s ! i)\<lparr>fdata := None\<rparr> = files s ! i" by (cases "files s ! i") simp
      then have "(files s)[i := (files s ! i)\<lparr>fdata := None\<rparr>] = files s" by (simp only: list_update_id)
      with e(1) None show ?thesis by simp
    qed (use e(1) in \<open>auto dest: fs_free_effect\<close>)
    with fs_disk_save_effect(3) [OF e(4)] fs_malloc_effect(1) [OF e(2)] find_slot_SomeD(1) [OF Some]
    obtain dr where "files s' = (files s)[i := (files s ! i)\<lparr>fdata := Some (p, d1), fsize := word_of_nat sz,
        fmtime := tick, ftmpfs := t, fdirty := dr\<rparr>]" by auto
    with that [of i _ p d1] Some find_slot_SomeD(2) [OF Some] cp [OF e(3)] sz
    show thesis by (auto simp: named_file_def is_dir_def)
  next
    case None
    with assms(1) len obtain i nm' p d s1 d1 where e: "find_slot (\<lambda>f. fused f = 0) (files s) = Some i"
      "fs_strcpy (fname (files s ! i)) nm FS_MAX_NAME = Some nm'"
      "fs_malloc sz (upd_file i (\<lambda>f. f\<lparr>fname := nm'\<rparr>) s) = Some (Some (p, d), s1)"
      "fs_memcpy d src sz = Some d1"
      "fs_disk_save i (upd_file i (\<lambda>f. f\<lparr>fdata := Some (p, d1), fsize := word_of_nat sz,
         fused := 1, ftmpfs := t, fdirty := 1, fperms := FS_PERM_READ OR FS_PERM_WRITE OR FS_PERM_EXEC,
         fctime := tick, fmtime := tick\<rparr>) s1) = Some s'"
      by (auto simp: fs_write_bin_internal_def Let_def bind_eq_Some_conv split: option.splits)
    from fs_disk_save_effect(3) [OF e(5)] fs_malloc_effect(1) [OF e(3)] find_slot_SomeD(1) [OF e(1)]
    obtain dr where "files s' = (files s)[i := (files s ! i)\<lparr>fname := nm', fdata := Some (p, d1),
        fsize := word_of_nat sz, fused := 1, ftmpfs := t, fperms := FS_PERM_READ OR FS_PERM_WRITE OR FS_PERM_EXEC,
        fctime := tick, fmtime := tick, fdirty := dr\<rparr>]" by auto
    with that [of i _ p d1] None e(1) copied_name [OF e(2) assms(2)] cp [OF e(4)] sz perms_not_dir
    show thesis by (auto simp: named_file_def is_dir_def)
  qed
qed

section \<open>The interface of a store of named contents\<close>

text \<open>
  What the shell and the programs rely on: a write that succeeds is what a reader of that name gets
  from then on, and no reader of another name notices. Names are compared up to their terminator.
\<close>

locale named_store =
  fixes put :: "bytes \<Rightarrow> 'w \<Rightarrow> 's \<Rightarrow> 's option"
    and get :: "'s \<Rightarrow> bytes \<Rightarrow> bytes option"
    and val :: "'w \<Rightarrow> bytes"
    and ok :: "bytes \<Rightarrow> bool"
  assumes get_put: "ok n \<Longrightarrow> put n w s = Some s' \<Longrightarrow> cstr m = cstr n \<Longrightarrow> get s' m = Some (val w)"
    and get_put_other: "ok n \<Longrightarrow> put n w s = Some s' \<Longrightarrow> cstr m \<noteq> cstr n \<Longrightarrow> get s' m = get s m"
begin

fun put_all :: "(bytes \<times> 'w) list \<Rightarrow> 's \<Rightarrow> 's option" where
  "put_all [] s = Some s"
| "put_all ((n, w) # ws) s = (case put n w s of None \<Rightarrow> None | Some s' \<Rightarrow> put_all ws s')"

text \<open>After a sequence of writes every name has the contents that were written to it last.\<close>

lemma get_put_all:
  assumes "put_all ws s = Some s'" "list_all (ok \<circ> fst) ws"
  shows "get s' m = (case map_of (rev (map (\<lambda>(n, w). (cstr n, val w)) ws)) (cstr m) of
    None \<Rightarrow> get s m | Some c \<Rightarrow> Some c)"
  using assms
proof (induction ws arbitrary: s)
  case (Cons nw ws)
  obtain n w where nw: "nw = (n, w)" by fastforce
  with Cons.prems obtain s1 where s1: "put n w s = Some s1" "put_all ws s1 = Some s'"
    by (auto split: option.splits)
  have "get s1 m = (if cstr m = cstr n then Some (val w) else get s m)"
    using get_put [OF _ s1(1)] get_put_other [OF _ s1(1)] Cons.prems nw by auto
  with Cons.IH [OF s1(2)] Cons.prems nw show ?case
    by (auto simp: map_add_def split: option.splits)
qed simp

end

text \<open>The three kinds of write; the tick is the time at which they happen.\<close>

datatype fs_put = Text bytes u32 | Bin bytes nat u32 | Tmp bytes nat u32

definition fs_apply :: "bytes \<Rightarrow> fs_put \<Rightarrow> fs_state \<Rightarrow> fs_state option" where
  "fs_apply nm w s =
     (case (case w of Text str tick \<Rightarrow> fs_write nm str tick s
            | Bin src sz tick \<Rightarrow> fs_write_bin nm src sz tick s
            | Tmp src sz tick \<Rightarrow> fs_write_tmp nm src sz tick s) of
        Some (r, s') \<Rightarrow> if r = 1 then Some s' else None
      | None \<Rightarrow> None)"

fun put_value :: "fs_put \<Rightarrow> bytes" where
  "put_value (Text str tick) = cstr str @ [0]"
| "put_value (Bin src sz tick) = take sz src"
| "put_value (Tmp src sz tick) = take sz src"

definition short_name :: "bytes \<Rightarrow> bool" where
  "short_name nm \<longleftrightarrow> length (cstr nm) < FS_MAX_NAME"

lemma fs_apply_effect:
  assumes "fs_apply nm w s = Some s'" "short_name nm"
  obtains i g p d where "find_slot (named_file nm) (files s) = Some i \<or>
      find_slot (named_file nm) (files s) = None \<and> find_slot (\<lambda>f. fused f = 0) (files s) = Some i"
    "files s' = (files s)[i := g]" "named_file nm g" "fdata g = Some (p, d)"
    "take (unat (fsize g)) d = put_value w"
proof (cases w)
  case (Text str tick)
  with assms have "fs_write nm str tick s = Some (1, s')" "length (cstr nm) < 32"
    by (auto simp: fs_apply_def short_name_def FS_MAX_NAME_def split: option.splits if_splits)
  from fs_write_effect [OF this] that Text show thesis by (metis put_value.simps(1))
next
  case (Bin src sz tick)
  with assms have "fs_write_bin_internal nm src sz 0 tick s = Some (1, s')" "length (cstr nm) < 32"
    by (auto simp: fs_apply_def short_name_def FS_MAX_NAME_def fs_write_bin_def split: option.splits if_splits)
  from fs_write_bin_effect [OF this] that Bin show thesis by (metis put_value.simps(2))
next
  case (Tmp src sz tick)
  with assms have "fs_write_bin_internal nm src sz 1 tick s = Some (1, s')" "length (cstr nm) < 32"
    by (auto simp: fs_apply_def short_name_def FS_MAX_NAME_def fs_write_tmp_def split: option.splits if_splits)
  from fs_write_bin_effect [OF this] that Tmp show thesis by (metis put_value.simps(3))
qed

lemma fs_contents_cong: "cstr m = cstr n \<Longrightarrow> fs_contents s m = fs_contents s n"
proof -
  assume "cstr m = cstr n"
  then have "named_file m = named_file n" by (auto simp: fun_eq_iff named_file_def fs_strcmp_def c_streq_iff)
  then show ?thesis by (simp add: fs_contents_def fs_read_bin_def)
qed

interpretation mfs3: named_store fs_apply fs_contents put_value short_name
proof (unfold_locales, goal_cases)
  case (1 n w s s' m)
  from 1(2,1) obtain i g p d where e: "find_slot (named_file n) (files s) = Some i \<or>
      find_slot (named_file n) (files s) = None \<and> find_slot (\<lambda>f. fused f = 0) (files s) = Some i"
    "files s' = (files s)[i := g]" "named_file n g" "fdata g = Some (p, d)"
    "take (unat (fsize g)) d = put_value w" by (rule fs_apply_effect)
  from contents_put(1) [OF write_slot(1) [OF e(1)] e(2-4) write_slot(2,3) [OF e(1)]] e(5)
    fs_contents_cong [OF 1(3)] show ?case by simp
next
  case (2 n w s s' m)
  from 2(2,1) obtain i g p d where e: "find_slot (named_file n) (files s) = Some i \<or>
      find_slot (named_file n) (files s) = None \<and> find_slot (\<lambda>f. fused f = 0) (files s) = Some i"
    "files s' = (files s)[i := g]" "named_file n g" "fdata g = Some (p, d)"
    "take (unat (fsize g)) d = put_value w" by (rule fs_apply_effect)
  from contents_put(2) [OF write_slot(1) [OF e(1)] e(2-4) write_slot(2,3) [OF e(1)] 2(3)] show ?case .
qed

text \<open>
  C17. Files keep what was written to them. After any sequence of successful text, binary and
  temporary writes to names of at most 31 characters, a reader of any name gets the contents that
  were written to that name last (for a text file the string with its terminator), and the old
  contents if it was not written to.
\<close>

theorem fs_last_write_wins:
  assumes "mfs3.put_all ws s = Some s'" "\<forall>(n, w)\<in>set ws. short_name n"
  shows "fs_contents s' m = (case map_of (rev (map (\<lambda>(n, w). (cstr n, put_value w)) ws)) (cstr m) of
    None \<Rightarrow> fs_contents s m | Some c \<Rightarrow> Some c)"
proof -
  have "list_all (short_name \<circ> fst) ws" using assms(2) by (auto simp: list_all_iff)
  from mfs3.get_put_all [OF assms(1) this] show ?thesis .
qed

section \<open>Buffers and the heap\<close>

text \<open>
  Every buffer is a live block of the heap that is long enough, and no two slots share one.
\<close>

definition owned :: "buffer option list \<Rightarrow> kheap \<Rightarrow> bool" where
  "owned bs h \<longleftrightarrow> heap_ok h \<and>
     (\<forall>i<length bs. \<forall>p d. bs ! i = Some (p, d) \<longrightarrow> (\<exists>n. (p, n) \<in> live h \<and> length d \<le> n)) \<and>
     (\<forall>i<length bs. \<forall>j<length bs. \<forall>p d e. bs ! i = Some (p, d) \<longrightarrow> bs ! j = Some (p, e) \<longrightarrow> i = j)"

lemma owned_same_pointer:
  assumes "owned bs h" "i < length bs" "bs ! i = Some (p, d)" "length e = length d"
  shows "owned (bs[i := Some (p, e)]) h"
  using assms unfolding owned_def by (auto simp: nth_list_update)

lemma owned_drop: "owned bs h \<Longrightarrow> owned (bs[i := None]) h"
  unfolding owned_def by (cases "i < length bs") (auto simp: nth_list_update)

lemma owned_malloc:
  assumes "owned bs h" "malloc h n = Some (p, h')" "p \<noteq> 0" "unat n \<le> 0xFFFFFFFC" "length d \<le> unat n"
  shows "owned (bs[i := Some (p, d)]) h'"
proof -
  have ok: "heap_ok h" using assms(1) by (simp add: owned_def)
  from kernel_heap.alloc_fresh [OF ok assms(2,3)] assms(4) obtain k where
    k: "p \<notin> fst ` live h" "live h' = insert (p, k) (live h)" "unat n \<le> k" by auto
  have "heap_ok h'" using kernel_heap.alloc_preserves [OF ok assms(2)] by simp
  moreover have "q \<noteq> p" if "j < length bs" "bs ! j = Some (q, e)" for j q e
    using assms(1) that k(1) unfolding owned_def by (metis fst_conv image_eqI)
  ultimately show ?thesis
    using assms(1,5) k(2,3) unfolding owned_def
    by (cases "i < length bs") (auto simp: nth_list_update; fastforce)+
qed

lemma owned_free:
  assumes "owned bs h" "i < length bs" "bs ! i = Some (p, d)"
  obtains h' where "free h p = Some h'" "owned (bs[i := None]) h'"
proof -
  from assms obtain n where n: "(p, n) \<in> live h" "heap_ok h" unfolding owned_def by blast
  from kernel_heap.dealloc_frees [OF n(2,1)] obtain h' where
    h': "free h p = Some h'" "heap_ok h'" "live h' = live h - {(p, n)}" by auto
  have "q \<noteq> p" if "j < length bs" "j \<noteq> i" "bs ! j = Some (q, e)" for j q e
    using assms that unfolding owned_def by blast
  with assms h'(2,3) have "owned (bs[i := None]) h'"
    unfolding owned_def by (auto simp: nth_list_update)
  with that h'(1) show thesis by blast
qed

text \<open>
  A well-formed entry: a name of 32 bytes, terminated when in use, and a buffer for the data. A
  buffer that a free slot kept has the full length.
\<close>

definition file_ok :: "fs_file \<Rightarrow> bool" where
  "file_ok f \<longleftrightarrow> length (fname f) = FS_MAX_NAME \<and> (fused f \<noteq> 0 \<longrightarrow> 0 \<in> set (fname f)) \<and>
     (\<forall>p d. fdata f = Some (p, d) \<longrightarrow> min (unat (fsize f)) FS_MAX_DATA \<le> length d \<and>
        (fused f = 0 \<longrightarrow> length d = FS_MAX_DATA))"

definition fs_inv :: "fs_state \<Rightarrow> bool" where
  "fs_inv s \<longleftrightarrow> length (files s) = FS_MAX_FILES \<and> list_all file_ok (files s) \<and>
     owned (map fdata (files s)) (fheap s)"

lemma list_all_upd: "list_all P xs \<Longrightarrow> P x \<Longrightarrow> list_all P (xs[k := x])"
  by (auto simp: list_all_iff dest!: set_update_subset_insert [THEN subsetD])

lemma fs_invD:
  assumes "fs_inv s" "i < length (files s)"
  shows "file_ok (files s ! i)" "owned (map fdata (files s)) (fheap s)" "length (files s) = FS_MAX_FILES"
    "list_all file_ok (files s)"
  using assms by (auto simp: fs_inv_def list_all_length)

lemma fs_inv_upd:
  assumes "fs_inv s" "i < length (files s)" "file_ok (g (files s ! i))" "fdata (g (files s ! i)) = fdata (files s ! i)"
  shows "fs_inv (upd_file i g s)"
proof -
  have "map fdata ((files s)[i := g (files s ! i)]) = map fdata (files s)"
    using assms(2,4) by (simp add: map_update list_update_same_conv)
  with assms show ?thesis by (simp add: fs_inv_def list_all_upd)
qed

lemma fs_disk_save_inv:
  assumes "fs_inv s" "i < length (files s)"
  obtains s' where "fs_disk_save i s = Some s'" "fs_inv s'"
proof -
  note d = fs_invD [OF assms]
  have "fs_disk_save i s \<noteq> None"
    using d(1) by (auto simp: fs_disk_save_def file_ok_def Let_def split: option.splits)
  then obtain s' where s': "fs_disk_save i s = Some s'" by auto
  note e = fs_disk_save_effect [OF s']
  from e(3) obtain dr where "files s' = (files s)[i := (files s ! i)\<lparr>fdirty := dr\<rparr>]" by auto
  then have "files s' = files (upd_file i (\<lambda>f. f\<lparr>fdirty := dr\<rparr>) s)" by simp
  moreover have "fs_inv (upd_file i (\<lambda>f. f\<lparr>fdirty := dr\<rparr>) s)"
    using d(1) by (intro fs_inv_upd assms) (auto simp: file_ok_def)
  ultimately have "fs_inv s'" using e(1) by (simp add: fs_inv_def)
  with that s' show thesis by blast
qed

text \<open>The result of an operation that returns and keeps the invariant.\<close>

definition keeps_inv :: "('r \<times> fs_state) option \<Rightarrow> bool" where
  "keeps_inv r \<longleftrightarrow> (\<exists>v s'. r = Some (v, s') \<and> fs_inv s')"

lemma keeps_invI: "fs_inv s \<Longrightarrow> keeps_inv (Some (v, s))"
  by (simp add: keeps_inv_def)

lemma keeps_inv_save:
  assumes "fs_inv s" "i < length (files s)"
  shows "keeps_inv (do { s \<leftarrow> fs_disk_save i s; Some (v, s) })"
proof -
  obtain s' where "fs_disk_save i s = Some s'" "fs_inv s'" by (rule fs_disk_save_inv [OF assms])
  then show ?thesis by (simp add: keeps_inv_def)
qed

lemma copied_name_ok:
  assumes "file_ok f"
  obtains nm' where "fs_strcpy (fname f) nm FS_MAX_NAME = Some nm'" "length nm' = FS_MAX_NAME" "0 \<in> set nm'"
proof -
  from assms have "length (fname f) = 32" by (simp add: file_ok_def FS_MAX_NAME_def)
  then obtain nm' where e: "c_strcpy (fname f) nm 32 = Some nm'" using c_strcpy_total [of 32 "fname f" nm] by auto
  have "length nm' = 32" using c_strcpy_length [OF e] \<open>length (fname f) = 32\<close> by simp
  moreover have "0 \<in> set nm'"
  proof (rule ccontr)
    assume "0 \<notin> set nm'"
    then have "cstr nm' = nm'" by (rule cstr_no_nul)
    with c_strcpy_cstr [OF e] have "length nm' = length (take 31 (cstr nm))" by simp
    with \<open>length nm' = 32\<close> show False by simp
  qed
  ultimately show thesis using that e by (simp add: fs_strcpy_def FS_MAX_NAME_def)
qed

text \<open>Allocating the buffer of a slot.\<close>

lemma fs_malloc_inv:
  assumes "fs_inv s" "n \<le> FS_MAX_BIN_DATA"
  obtains b s' where "fs_malloc n s = Some (b, s')" "files s' = files s" "dsk s' = dsk s"
    "b = None \<and> fs_inv s' \<or> (\<exists>p d. b = Some (p, d) \<and> length d = n \<and>
       (\<forall>i e. length e = n \<longrightarrow> owned ((map fdata (files s))[i := Some (p, e)]) (fheap s')))"
proof -
  have ow: "owned (map fdata (files s)) (fheap s)" and ok: "heap_ok (fheap s)"
    using assms(1) by (auto simp: fs_inv_def owned_def)
  obtain p h where m: "malloc (fheap s) (word_of_nat n) = Some (p, h)" "heap_ok h"
    using kernel_heap.alloc_returns [OF ok] by blast
  have n: "unat (word_of_nat n :: u32) = n"
    using assms(2) by (subst unat_of_nat_small) (simp_all add: FS_MAX_BIN_DATA_def)
  show thesis
  proof (cases "p = 0")
    case True
    with m kernel_heap.alloc_null [OF ok, of "word_of_nat n" h] have "h = fheap s" by simp
    with m True assms(1) that [of None s] show thesis by (simp add: fs_malloc_def fs_inv_def)
  next
    case False
    have "owned ((map fdata (files s))[i := Some (p, e)]) h" if "length e = n" for i e
      using owned_malloc [OF ow m(1) False, of e i] n that assms(2) by (simp add: FS_MAX_BIN_DATA_def)
    with m False that [of "Some (p, map (junk s) [p..<p + n])" "s\<lparr>fheap := h\<rparr>"] show thesis
      by (simp add: fs_malloc_def)
  qed
qed

lemma unused_slot:
  assumes "find_slot P (files s) = Some i" "fs_inv s"
  shows "i < length (files s)" "file_ok (files s ! i)"
  using find_slot_SomeD(1) [OF assms(1)] fs_invD(1) [OF assms(2)] by auto

lemma fs_inv_put:
  assumes "fs_inv s0" "files s = files s0" "i < length (files s)"
    "owned ((map fdata (files s0))[i := Some (p, d)]) (fheap s)"
    "fdata (g (files s ! i)) = Some (p, d)" "file_ok (g (files s ! i))"
  shows "fs_inv (upd_file i g s)"
  using assms by (simp add: fs_inv_def map_update list_all_upd)

lemma fs_inv_none:
  assumes "fs_inv s" "i < length (files s)" "file_ok (g (files s ! i))" "fdata (g (files s ! i)) = None"
  shows "fs_inv (upd_file i g s)"
  using assms by (simp add: fs_inv_def map_update list_all_upd owned_drop)

lemma fs_delete_safe:
  assumes "fs_inv s"
  shows "keeps_inv (fs_delete nm s)"
proof (cases "find_slot (named nm) (files s)")
  case (Some i)
  note i = unused_slot [OF Some assms]
  show ?thesis
  proof (cases "fdata (files s ! i)")
    case None
    have "fs_inv (upd_file i (\<lambda>f. f\<lparr>fused := 0\<rparr>) s)"
      using i None by (intro fs_inv_upd assms) (auto simp: file_ok_def)
    from keeps_inv_save [OF this, of i 1] Some None i show ?thesis by (simp add: fs_delete_def)
  next
    case (Some b)
    obtain p d where b: "b = (p, d)" by fastforce
    have "owned (map fdata (files s)) (fheap s)" using assms by (simp add: fs_inv_def)
    then obtain h' where h': "free (fheap s) p = Some h'" "owned ((map fdata (files s))[i := None]) h'"
      using owned_free [of "map fdata (files s)" "fheap s" i p d] Some b i by auto
    let ?s = "(upd_file i (\<lambda>f. f\<lparr>fused := 0, fdata := None\<rparr>) s)\<lparr>fheap := h'\<rparr>"
    have "fs_inv ?s"
      using h'(2) assms i by (auto simp: fs_inv_def map_update file_ok_def intro!: list_all_upd)
    from keeps_inv_save [OF this, of i 1] \<open>find_slot _ _ = _\<close> Some b h'(1) i show ?thesis
      by (simp add: fs_delete_def fs_free_def)
  qed
qed (use assms in \<open>simp add: fs_delete_def keeps_invI\<close>)

lemma fs_mkdir_safe:
  assumes "fs_inv s"
  shows "keeps_inv (fs_mkdir nm tick s)"
proof (cases "find_slot (named nm) (files s)")
  case None
  show ?thesis
  proof (cases "find_slot (\<lambda>f. fused f = 0) (files s)")
    case (Some i)
    note i = unused_slot [OF Some assms]
    obtain nm' where nm': "fs_strcpy (fname (files s ! i)) nm FS_MAX_NAME = Some nm'"
      "length nm' = FS_MAX_NAME" "0 \<in> set nm'" by (rule copied_name_ok [OF i(2)])
    let ?g = "\<lambda>f. f\<lparr>fname := nm', fsize := 0, fused := 1, ftmpfs := 0, fdirty := 1,
       fperms := FS_PERM_DIR OR FS_PERM_READ OR FS_PERM_WRITE, fctime := tick, fmtime := tick, fdata := None\<rparr>"
    have "fs_inv (upd_file i ?g s)"
      using nm' by (intro fs_inv_none assms i) (auto simp: file_ok_def)
    from keeps_inv_save [OF this, of i 1] None Some nm'(1) i show ?thesis by (simp add: fs_mkdir_def)
  qed (use assms None in \<open>simp add: fs_mkdir_def keeps_invI\<close>)
qed (use assms in \<open>simp add: fs_mkdir_def keeps_invI\<close>)

lemma fs_set_perms_safe:
  assumes "fs_inv s"
  shows "keeps_inv (fs_set_perms nm ps s)"
proof (cases "find_slot (named nm) (files s)")
  case (Some i)
  note i = unused_slot [OF Some assms]
  have "fs_inv (upd_file i (\<lambda>f. f\<lparr>fperms := ps, fdirty := 1\<rparr>) s)"
    using i by (intro fs_inv_upd assms) (auto simp: file_ok_def)
  from keeps_inv_save [OF this, of i 1] Some i show ?thesis by (simp add: fs_set_perms_def)
qed (use assms in \<open>simp add: fs_set_perms_def keeps_invI\<close>)

lemma fs_rename_safe:
  assumes "fs_inv s"
  shows "keeps_inv (fs_rename old new tick s)"
proof (cases "find_slot (named new) (files s)")
  case None
  show ?thesis
  proof (cases "find_slot (named old) (files s)")
    case (Some i)
    note i = unused_slot [OF Some assms]
    obtain nm' where nm': "fs_strcpy (fname (files s ! i)) new FS_MAX_NAME = Some nm'"
      "length nm' = FS_MAX_NAME" "0 \<in> set nm'" by (rule copied_name_ok [OF i(2)])
    have "fs_inv (upd_file i (\<lambda>f. f\<lparr>fname := nm', fdirty := 1, fmtime := tick\<rparr>) s)"
      using nm' i by (intro fs_inv_upd assms) (auto simp: file_ok_def)
    from keeps_inv_save [OF this, of i 0] None Some nm'(1) i show ?thesis by (simp add: fs_rename_def)
  qed (use assms None in \<open>simp add: fs_rename_def keeps_invI\<close>)
qed (use assms in \<open>simp add: fs_rename_def keeps_invI\<close>)

text \<open>Both branches of a binary write end in: allocate, copy, fill in the entry, save.\<close>

lemma keeps_inv_alloc:
  assumes "fs_inv s" "i < length (files s)" "sz \<le> FS_MAX_BIN_DATA" "sz \<le> length src"
    and g: "\<And>p d. length d = sz \<Longrightarrow> file_ok (g p d (files s ! i)) \<and> fdata (g p d (files s ! i)) = Some (p, d)"
  shows "keeps_inv (do {
      (b, s) \<leftarrow> fs_malloc sz s;
      case b of
        None \<Rightarrow> Some (0, upd_file i (\<lambda>f. f\<lparr>fdata := None\<rparr>) s)
      | Some (p, d) \<Rightarrow> do {
          d \<leftarrow> fs_memcpy d src sz;
          s \<leftarrow> fs_disk_save i (upd_file i (g p d) s);
          Some (1, s)
        }
    })"
proof -
  note f = fs_invD(1) [OF assms(1,2)]
  obtain b s1 where m: "fs_malloc sz s = Some (b, s1)" "files s1 = files s"
    "b = None \<and> fs_inv s1 \<or> (\<exists>p d. b = Some (p, d) \<and> length d = sz \<and>
       (\<forall>i e. length e = sz \<longrightarrow> owned ((map fdata (files s))[i := Some (p, e)]) (fheap s1)))"
    by (rule fs_malloc_inv [OF assms(1,3)])
  from m(3) show ?thesis
  proof (elim disjE conjE exE)
    assume b: "b = None" "fs_inv s1"
    then have "fs_inv (upd_file i (\<lambda>f. f\<lparr>fdata := None\<rparr>) s1)"
      using m(2) assms(2) f by (intro fs_inv_none) (auto simp: file_ok_def)
    with b m(1) show ?thesis by (simp add: keeps_invI)
  next
    fix p d assume b: "b = Some (p, d)" "length d = sz"
      and ow: "\<forall>i e. length e = sz \<longrightarrow> owned ((map fdata (files s))[i := Some (p, e)]) (fheap s1)"
    have cp: "fs_memcpy d src sz = Some (take sz src)" "length (take sz src) = sz"
      using b(2) assms(4) by (simp_all add: fs_memcpy_def)
    have "fs_inv (upd_file i (g p (take sz src)) s1)"
      using m(2) assms(1,2) f ow cp(2) g [OF cp(2), of p] by (intro fs_inv_put [of s]) auto
    from keeps_inv_save [OF this, of i 1] b m(1,2) cp(1) assms(2) show ?thesis by simp
  qed
qed

lemma release_old_buffer:
  assumes "fs_inv s" "i < length (files s)"
  obtains s0 where "(case fdata (files s ! i) of None \<Rightarrow> Some s
      | Some b \<Rightarrow> fs_free b (upd_file i (\<lambda>f. f\<lparr>fdata := None\<rparr>) s)) = Some s0"
    "fs_inv s0" "i < length (files s0)" "fused (files s0 ! i) = fused (files s ! i)"
proof (cases "fdata (files s ! i)")
  case None
  with assms that show thesis by simp
next
  case (Some b)
  obtain p d where b: "b = (p, d)" by fastforce
  have "owned (map fdata (files s)) (fheap s)" using assms(1) by (simp add: fs_inv_def)
  then obtain h' where h': "free (fheap s) p = Some h'" "owned ((map fdata (files s))[i := None]) h'"
    using owned_free [of "map fdata (files s)" "fheap s" i p d] Some b assms(2) by auto
  have "fs_inv ((upd_file i (\<lambda>f. f\<lparr>fdata := None\<rparr>) s)\<lparr>fheap := h'\<rparr>)"
    using h'(2) assms fs_invD(1) [OF assms]
    by (auto simp: fs_inv_def map_update file_ok_def intro!: list_all_upd)
  with that Some b h'(1) assms(2) show thesis by (simp add: fs_free_def)
qed

lemma fs_write_bin_safe:
  assumes "fs_inv s" "sz \<le> length src"
  shows "keeps_inv (fs_write_bin_internal nm src sz t tick s)"
proof (cases "sz > FS_MAX_BIN_DATA")
  case False
  then have sz: "sz \<le> FS_MAX_BIN_DATA" "unat (word_of_nat sz :: u32) = sz"
    using unat_of_nat_small [of sz, where 'a = 32] by (auto simp: FS_MAX_BIN_DATA_def)
  show ?thesis
  proof (cases "find_slot (named_file nm) (files s)")
    case (Some i)
    obtain s0 where s0: "(case fdata (files s ! i) of None \<Rightarrow> Some s
        | Some b \<Rightarrow> fs_free b (upd_file i (\<lambda>f. f\<lparr>fdata := None\<rparr>) s)) = Some s0" "fs_inv s0" "i < length (files s0)"
        "fused (files s0 ! i) = fused (files s ! i)"
      by (rule release_old_buffer [OF assms(1) unused_slot(1) [OF Some assms(1)]])
    have "keeps_inv (do { (b, s) \<leftarrow> fs_malloc sz s0;
        case b of None \<Rightarrow> Some (0, upd_file i (\<lambda>f. f\<lparr>fdata := None\<rparr>) s)
        | Some (p, d) \<Rightarrow> do { d \<leftarrow> fs_memcpy d src sz;
            s \<leftarrow> fs_disk_save i (upd_file i (\<lambda>f. f\<lparr>fdata := Some (p, d), fsize := word_of_nat sz,
              fmtime := tick, fdirty := 1, ftmpfs := t\<rparr>) s);
            Some (1::int, s) } })"
      using sz fs_invD(1) [OF s0(2,3)] s0(4) find_slot_SomeD(2) [OF Some]
      by (intro keeps_inv_alloc s0 assms(2)) (auto simp: file_ok_def named_file_def)
    with Some False s0(1) show ?thesis by (simp add: fs_write_bin_internal_def)
  next
    case None
    show ?thesis
    proof (cases "find_slot (\<lambda>f. fused f = 0) (files s)")
      case (Some i)
      note i = unused_slot [OF Some assms(1)]
      obtain nm' where nm': "fs_strcpy (fname (files s ! i)) nm FS_MAX_NAME = Some nm'"
        "length nm' = FS_MAX_NAME" "0 \<in> set nm'" by (rule copied_name_ok [OF i(2)])
      let ?s0 = "upd_file i (\<lambda>f. f\<lparr>fname := nm'\<rparr>) s"
      have s0: "fs_inv ?s0" using nm' i by (intro fs_inv_upd assms) (auto simp: file_ok_def)
      have "keeps_inv (do { (b, s) \<leftarrow> fs_malloc sz ?s0;
          case b of None \<Rightarrow> Some (0, upd_file i (\<lambda>f. f\<lparr>fdata := None\<rparr>) s)
          | Some (p, d) \<Rightarrow> do { d \<leftarrow> fs_memcpy d src sz;
              s \<leftarrow> fs_disk_save i (upd_file i (\<lambda>f. f\<lparr>fdata := Some (p, d), fsize := word_of_nat sz,
                fused := 1, ftmpfs := t, fdirty := 1,
                fperms := FS_PERM_READ OR FS_PERM_WRITE OR FS_PERM_EXEC, fctime := tick, fmtime := tick\<rparr>) s);
              Some (1::int, s) } })"
        using sz nm' i by (intro keeps_inv_alloc s0 assms(2)) (auto simp: file_ok_def)
      with None Some False nm'(1) show ?thesis by (simp add: fs_write_bin_internal_def)
    qed (use assms None False in \<open>simp add: fs_write_bin_internal_def keeps_invI\<close>)
  qed
qed (use assms in \<open>simp add: fs_write_bin_internal_def keeps_invI\<close>)

text \<open>A text write goes into the buffer that is there, whatever its length.\<close>

definition fits :: "bytes \<Rightarrow> bytes \<Rightarrow> fs_state \<Rightarrow> bool" where
  "fits nm str s \<longleftrightarrow>
     (case find_slot (named_file nm) (files s) of
        None \<Rightarrow> True
      | Some i \<Rightarrow> (case fdata (files s ! i) of None \<Rightarrow> True | Some (p, d) \<Rightarrow> length (cstr str) < length d))"

lemma fs_ensure_data_inv:
  assumes "fs_inv s" "i < length (files s)"
  obtains b s' where "fs_ensure_data i s = Some (b, s')" "fs_inv s'"
    "files s' = (files s)[i := (files s ! i)\<lparr>fdata := b\<rparr>]"
    "\<And>p d. b = Some (p, d) \<Longrightarrow> fdata (files s ! i) = b \<or> length d = FS_MAX_DATA"
proof (cases "fdata (files s ! i)")
  case (Some b)
  then have "(files s ! i)\<lparr>fdata := Some b\<rparr> = files s ! i" by (cases "files s ! i") simp
  then have "(files s)[i := (files s ! i)\<lparr>fdata := Some b\<rparr>] = files s" by (simp only: list_update_id)
  with that [of "Some b" s] Some assms(1) show thesis by (simp add: fs_ensure_data_def)
next
  case None
  have "FS_MAX_DATA \<le> FS_MAX_BIN_DATA" by (simp add: FS_MAX_DATA_def FS_MAX_BIN_DATA_def)
  from fs_malloc_inv [OF assms(1) this] obtain b s1 where m: "fs_malloc FS_MAX_DATA s = Some (b, s1)" "files s1 = files s"
    "b = None \<and> fs_inv s1 \<or> (\<exists>p d. b = Some (p, d) \<and> length d = FS_MAX_DATA \<and>
       (\<forall>i e. length e = FS_MAX_DATA \<longrightarrow> owned ((map fdata (files s))[i := Some (p, e)]) (fheap s1)))" .
  have f: "file_ok (files s ! i)" by (rule fs_invD(1) [OF assms])
  from m(3) show thesis
  proof (elim disjE conjE exE)
    assume b: "b = None" "fs_inv s1"
    have "fs_inv (upd_file i (\<lambda>f. f\<lparr>fdata := None\<rparr>) s1)"
      using b(2) m(2) assms(2) f by (intro fs_inv_none) (auto simp: file_ok_def)
    with that [of None "upd_file i (\<lambda>f. f\<lparr>fdata := None\<rparr>) s1"] None b m(1,2) show thesis
      by (simp add: fs_ensure_data_def)
  next
    fix p d assume b: "b = Some (p, d)"
      and ow: "\<forall>i e. length e = FS_MAX_DATA \<longrightarrow> owned ((map fdata (files s))[i := Some (p, e)]) (fheap s1)"
    let ?z = "(p, replicate FS_MAX_DATA 0)" let ?s = "upd_file i (\<lambda>f. f\<lparr>fdata := Some ?z\<rparr>) s1"
    have "fs_inv ?s"
      using m(2) assms f ow by (intro fs_inv_put [of s]) (auto simp: file_ok_def)
    with that [of "Some ?z" ?s] None b m(1,2) show thesis by (simp add: fs_ensure_data_def Let_def)
  qed
qed

text \<open>Both branches of a text write end in: store the string, fill in the entry, save.\<close>

lemma keeps_inv_store:
  assumes "fs_inv s" "i < length (files s)" "fdata (files s ! i) = Some (p, d)" "length (cstr str) < length d"
    and len: "length (cstr str) < FS_MAX_DATA"
    and g: "\<And>d'. length d' = length d \<Longrightarrow> file_ok (g d' (files s ! i)) \<and> fdata (g d' (files s ! i)) = Some (p, d')"
  shows "keeps_inv (do {
      d \<leftarrow> fs_strcpy d str FS_MAX_DATA;
      s \<leftarrow> fs_disk_save i (upd_file i (g d) s);
      Some (v, s)
    })"
proof -
  have "fs_strcpy d str FS_MAX_DATA \<noteq> None"
    using c_strcpy_eq [of str FS_MAX_DATA d] assms(4) by (simp add: fs_strcpy_def Let_def)
  then obtain d' where d': "fs_strcpy d str FS_MAX_DATA = Some d'" "length d' = length d"
    using c_strcpy_length [of d str FS_MAX_DATA] by (auto simp: fs_strcpy_def)
  have "owned ((map fdata (files s))[i := Some (p, d')]) (fheap s)"
    using owned_same_pointer [of "map fdata (files s)" "fheap s" i p d d'] assms(1-3) d'(2)
    by (simp add: fs_inv_def)
  then have "fs_inv (upd_file i (g d') s)"
    using g [OF d'(2)] assms(1,2) by (intro fs_inv_put [of s]) auto
  from keeps_inv_save [OF this, of i v] d'(1) assms(2) show ?thesis by simp
qed

lemma fs_write_safe:
  assumes "fs_inv s" "fits nm str s"
  shows "keeps_inv (fs_write nm str tick s)"
proof (cases "length (cstr str) \<ge> FS_MAX_DATA")
  case False
  then have sz: "unat (word_of_nat (Suc (length (cstr str))) :: u32) = Suc (length (cstr str))"
    by (subst unat_of_nat_small) (simp_all add: FS_MAX_DATA_def)
  show ?thesis
  proof (cases "find_slot (named_file nm) (files s)")
    case (Some i)
    note i = unused_slot [OF Some assms(1)]
    obtain b s1 where e: "fs_ensure_data i s = Some (b, s1)" "fs_inv s1"
      "files s1 = (files s)[i := (files s ! i)\<lparr>fdata := b\<rparr>]"
      "\<forall>p d. b = Some (p, d) \<longrightarrow> fdata (files s ! i) = b \<or> length d = FS_MAX_DATA"
      by (rule fs_ensure_data_inv [OF assms(1) i(1)]) blast
    show ?thesis
    proof (cases b)
      case (Some pd)
      obtain p d where b: "b = Some (p, d)" using Some by (cases pd) auto
      have "length (cstr str) < length d"
        using e(4) assms(2) \<open>find_slot _ _ = _\<close> False b by (auto simp: fits_def)
      then have "keeps_inv (do { d \<leftarrow> fs_strcpy d str FS_MAX_DATA;
          s \<leftarrow> fs_disk_save i (upd_file i (\<lambda>f. f\<lparr>fdata := Some (p, d),
            fsize := word_of_nat (length (cstr str) + 1), fmtime := tick, fdirty := 1\<rparr>) s1);
          Some (1::int, s) })"
        using e(2,3) b i False sz fs_invD(1) [OF e(2)]
        by (intro keeps_inv_store) (auto simp: file_ok_def)
      with \<open>find_slot _ _ = _\<close> False e(1) b show ?thesis by (simp add: fs_write_def Let_def)
    qed (use \<open>find_slot _ _ = _\<close> False e(1,2) in \<open>simp add: fs_write_def Let_def keeps_invI\<close>)
  next
    case None
    show ?thesis
    proof (cases "find_slot (\<lambda>f. fused f = 0) (files s)")
      case (Some i)
      note i = unused_slot [OF Some assms(1)]
      obtain nm' where nm': "fs_strcpy (fname (files s ! i)) nm FS_MAX_NAME = Some nm'"
        "length nm' = FS_MAX_NAME" "0 \<in> set nm'" by (rule copied_name_ok [OF i(2)])
      let ?s0 = "upd_file i (\<lambda>f. f\<lparr>fname := nm'\<rparr>) s"
      have s0: "fs_inv ?s0" using nm' i by (intro fs_inv_upd assms) (auto simp: file_ok_def)
      obtain b s1 where e: "fs_ensure_data i ?s0 = Some (b, s1)" "fs_inv s1"
        "files s1 = (files ?s0)[i := (files ?s0 ! i)\<lparr>fdata := b\<rparr>]"
        "\<forall>p d. b = Some (p, d) \<longrightarrow> fdata (files ?s0 ! i) = b \<or> length d = FS_MAX_DATA"
        by (rule fs_ensure_data_inv [OF s0, of i]) (use i in \<open>simp, blast\<close>)
      show ?thesis
      proof (cases b)
        case (Some pd)
        obtain p d where b: "b = Some (p, d)" using Some by (cases pd) auto
        have "length d = FS_MAX_DATA"
          using e(4) b i find_slot_SomeD(2) [OF \<open>find_slot (\<lambda>f. fused f = 0) _ = _\<close>] by (auto simp: file_ok_def)
        with False have "keeps_inv (do { d \<leftarrow> fs_strcpy d str FS_MAX_DATA;
            s \<leftarrow> fs_disk_save i (upd_file i (\<lambda>f. f\<lparr>fdata := Some (p, d),
              fsize := word_of_nat (length (cstr str) + 1), fused := 1, ftmpfs := 0, fdirty := 1,
              fperms := FS_PERM_READ OR FS_PERM_WRITE, fctime := tick, fmtime := tick\<rparr>) s1);
            Some (1::int, s) })"
          using e(2,3) b i sz nm' by (intro keeps_inv_store) (auto simp: file_ok_def)
        with None \<open>find_slot (\<lambda>f. fused f = 0) _ = _\<close> nm'(1) False e(1) b show ?thesis
          by (simp add: fs_write_def Let_def)
      qed (use None \<open>find_slot (\<lambda>f. fused f = 0) _ = _\<close> nm'(1) False e(1,2) in \<open>simp add: fs_write_def Let_def keeps_invI\<close>)
    qed (use assms None False in \<open>simp add: fs_write_def Let_def keeps_invI\<close>)
  qed
qed (use assms in \<open>simp add: fs_write_def keeps_invI\<close>)

end
