(* ===== verification/FsDisk.thy ===== *)
theory FsDisk
  imports FsStore
begin

text \<open>
  The disk image of MFS3: what \<open>fs_disk_save\<close> writes is what \<open>fs_disk_load\<close> reads, the slots of
  different files do not overlap, and booting from a well-formed image establishes the invariant
  that all operations keep.
\<close>

unbundle bit_operations_syntax

section \<open>One slot on the disk\<close>

lemma sectors_write:
  "sectors (ata_write_sector lba buf d) = (if ata_access lba d then (sectors d)(lba := buf) else sectors d)"
  by (simp add: ata_write_sector_def)

lemma ata_write_same [simp]:
  "present (ata_write_sector lba buf d) = present d" "answers (ata_write_sector lba buf d) = answers d"
  "ata_access l (ata_write_sector lba buf d) = ata_access l d"
  by (simp_all add: ata_write_sector_def ata_access_def)


lemma fold_write_access [simp]:
  "ata_access l (fold (\<lambda>k. ata_write_sector (addr k) (buf k)) ks d) = ata_access l d"
  by (induction ks arbitrary: d) simp_all

lemma fold_write_other:
  "l \<notin> addr ` set ks \<Longrightarrow> sectors (fold (\<lambda>k. ata_write_sector (addr k) (buf k)) ks d) l = sectors d l"
  by (induction ks arbitrary: d) (simp_all add: sectors_write)

lemma fold_write_hit:
  assumes "k \<in> set ks" "inj_on addr (set ks)" "distinct ks" "ata_access (addr k) d"
  shows "sectors (fold (\<lambda>k. ata_write_sector (addr k) (buf k)) ks d) (addr k) = buf k"
  using assms
proof (induction ks arbitrary: d)
  case (Cons x ks)
  show ?case
  proof (cases "x = k")
    case True
    have "addr k \<notin> addr ` set ks"
      using Cons.prems True by (auto simp: inj_on_def)
    with True Cons.prems(4) show ?thesis by (simp add: fold_write_other sectors_write)
  next
    case False
    with Cons show ?thesis by (simp add: inj_on_insert)
  qed
qed simp

lemma data_sector_inj: "inj_on (fs_data_sector i) A"
  by (auto simp: inj_on_def fs_data_sector_def)

text \<open>The sectors of slot \<open>i\<close>.\<close>

definition slot_area :: "nat \<Rightarrow> nat set" where
  "slot_area i = {fs_hdr_sector i} \<union> fs_data_sector i ` {0..<FS_DATA_SECS}"

lemma slot_area_eq: "slot_area i = {1 + i * 129..<1 + i * 129 + 129}"
proof -
  have "fs_data_sector i = (+) (2 + i * 129)"
    by (simp add: fun_eq_iff fs_data_sector_def FS_SECTORS_PER_FILE_def FS_DATA_SECS_def FS_MAX_DATA_def)
  then have "fs_data_sector i ` {0..<128} = {2 + i * 129..<2 + i * 129 + 128}"
    using image_add_atLeastLessThan [of "2 + i * 129" 0 128] by (metis add.commute add_0)
  then show ?thesis
    by (auto simp: slot_area_def fs_hdr_sector_def FS_SECTORS_PER_FILE_def FS_DATA_SECS_def FS_MAX_DATA_def)
qed

lemma slot_area_disjoint: "i \<noteq> j \<Longrightarrow> slot_area i \<inter> slot_area j = {}"
proof -
  assume "i \<noteq> j"
  then consider "Suc i \<le> j" | "Suc j \<le> i" by linarith
  then show ?thesis
  proof cases
    case 1
    then have "Suc i * 129 \<le> j * 129" by (rule mult_le_mono1)
    then show ?thesis by (auto simp: slot_area_eq)
  next
    case 2
    then have "Suc j * 129 \<le> i * 129" by (rule mult_le_mono1)
    then show ?thesis by (auto simp: slot_area_eq)
  qed
qed

section \<open>Encoding and decoding the header\<close>

lemma fs_decode_encode:
  assumes "length (fname f) = FS_MAX_NAME"
  shows "fs_decode_header (fs_header f) g = f\<lparr>fdirty := 0, fdata := fdata g\<rparr>" "fs_header f ! 36 = fused f"
proof -
  have "length (fname f) = 32" using assms by (simp add: FS_MAX_NAME_def)
  then show "fs_decode_header (fs_header f) g = f\<lparr>fdirty := 0, fdata := fdata g\<rparr>" "fs_header f ! 36 = fused f"
    by (cases f; cases g; simp add: fs_decode_header_def fs_header_def FS_MAX_NAME_def nth_append)+
qed

section \<open>Saving a slot\<close>

text \<open>What is on the disk after saving slot \<open>i\<close>, when the drive answers for the whole slot.\<close>

lemma fs_disk_save_sectors:
  assumes "fs_disk_save i s = Some s'" "\<forall>l\<in>slot_area i. ata_access l (dsk s)" "ftmpfs (files s ! i) = 0"
  shows "sectors (dsk s') (fs_hdr_sector i) = fs_header (files s ! i)"
    "fdata (files s ! i) = Some (p, d) \<Longrightarrow> k < FS_DATA_SECS \<Longrightarrow>
       sectors (dsk s') (fs_data_sector i k) = fs_chunk (files s ! i) d k"
    "l \<notin> slot_area i \<Longrightarrow> sectors (dsk s') l = sectors (dsk s) l"
    "present (dsk s') = present (dsk s)" "ata_access l (dsk s') = ata_access l (dsk s)"
proof -
  let ?f = "files s ! i" and ?dk = "ata_write_sector (fs_hdr_sector i) (fs_header (files s ! i)) (dsk s)"
  have acc: "ata_access (fs_hdr_sector i) (dsk s)" "k < FS_DATA_SECS \<Longrightarrow> ata_access (fs_data_sector i k) (dsk s)" for k
    using assms(2) by (auto simp: slot_area_def)
  then have pr: "ata_disk_present (dsk s)" by (simp add: ata_access_def ata_disk_present_def)
  have dk: "dsk s' = (case fdata ?f of None \<Rightarrow> ?dk
      | Some (p, d) \<Rightarrow> fold (\<lambda>k. ata_write_sector (fs_data_sector i k) (fs_chunk ?f d k)) [0..<FS_DATA_SECS] ?dk)"
    using assms(1,3) pr by (auto simp: fs_disk_save_def Let_def split: option.splits if_splits)
  have hd: "fs_hdr_sector i \<notin> fs_data_sector i ` set [0..<FS_DATA_SECS]"
    by (auto simp: fs_hdr_sector_def fs_data_sector_def)
  show "sectors (dsk s') (fs_hdr_sector i) = fs_header ?f"
    using acc(1) fold_write_other [OF hd] by (auto simp: dk sectors_write split: option.splits)
  show "sectors (dsk s') (fs_data_sector i k) = fs_chunk ?f d k" if "fdata ?f = Some (p, d)" "k < FS_DATA_SECS"
    using that acc(2) [OF that(2)] fold_write_hit [OF _ data_sector_inj, of k "[0..<FS_DATA_SECS]" i ?dk "fs_chunk ?f d"]
    by (simp add: dk)
  show "sectors (dsk s') l = sectors (dsk s) l" if "l \<notin> slot_area i"
    using that fold_write_other [of l "fs_data_sector i" "[0..<FS_DATA_SECS]"]
    by (auto simp: dk sectors_write slot_area_def split: option.splits)
  show acl: "ata_access l (dsk s') = ata_access l (dsk s)" for l by (auto simp: dk split: option.splits)
  from acl [of "fs_hdr_sector i"] acc(1) show "present (dsk s') = present (dsk s)"
    by (simp add: ata_access_def)
qed

section \<open>Loading a slot\<close>

lemma fs_load_chunks_length:
  assumes "\<forall>k\<in>set ks. k < FS_DATA_SECS" "\<forall>l. length (sectors dk l) = 512" "length d = FS_MAX_DATA"
  shows "length (fs_load_chunks dk i ks d) = FS_MAX_DATA"
  using assms(1,3)
proof (induction ks arbitrary: d)
  case (Cons k ks)
  have "k < 128" using Cons.prems(1) by (simp add: FS_DATA_SECS_def FS_MAX_DATA_def)
  then have "length (take (k * 512) d @ take 512 (sectors dk (fs_data_sector i k)) @ drop (k * 512 + 512) d) = FS_MAX_DATA"
    using Cons.prems(2) assms(2) by (simp add: FS_MAX_DATA_def)
  with Cons show ?case by (auto simp: ata_read_sector_def split: option.splits)
qed simp

text \<open>After reading the chunks from the first on, the buffer holds the sectors one after the other.\<close>

lemma fs_load_chunks_content:
  assumes "\<forall>k<FS_DATA_SECS. ata_access (fs_data_sector i k) dk" "\<forall>l. length (sectors dk l) = 512"
    "length d = FS_MAX_DATA" "n \<le> FS_DATA_SECS"
  shows "fs_load_chunks dk i [0..<n] d =
    concat (map (\<lambda>k. sectors dk (fs_data_sector i k)) [0..<n]) @ drop (n * 512) d"
proof -
  have ap: "fs_load_chunks dk i (ks @ [k]) d = (let d' = fs_load_chunks dk i ks d in
      take (k * 512) d' @ take 512 (sectors dk (fs_data_sector i k)) @ drop (k * 512 + 512) d')"
    if "\<forall>k\<in>set (ks @ [k]). k < FS_DATA_SECS" for ks k d
    using that assms(1) by (induction ks arbitrary: d) (auto simp: ata_read_sector_def Let_def)
  show ?thesis
    using assms(4)
  proof (induction n)
    case (Suc n)
    let ?c = "concat (map (\<lambda>k. sectors dk (fs_data_sector i k)) [0..<n])"
    have "length ?c = n * 512"
      using assms(2) by (simp add: length_concat comp_def sum_list_const_mult sum_list_triv)
    with Suc ap [of "[0..<n]" n d] assms(2) show ?case by (simp add: Let_def add.commute)
  qed simp
qed

lemma concat_chunks:
  "concat (map (fs_chunk f d) [0..<n]) = map (\<lambda>off. if off < unat (fsize f) then d ! off else 0) [0..<n * 512]"
proof (induction n)
  case (Suc n)
  have "fs_chunk f d n = map (\<lambda>off. if off < unat (fsize f) then d ! off else 0) [n * 512..<n * 512 + 512]"
    by (simp add: fs_chunk_def map_add_upt [symmetric] Let_def comp_def add.commute)
  moreover have "[0..<Suc n * 512] = [0..<n * 512] @ [n * 512..<n * 512 + 512]"
    using upt_add_eq_append [of 0 "n * 512" 512] by (simp add: add.commute)
  ultimately show ?case using Suc by simp
qed simp

definition sectors_full :: "disk \<Rightarrow> bool" where
  "sectors_full dk \<longleftrightarrow> (\<forall>l. length (sectors dk l) = 512)"

lemma fs_header_length: "length (fname f) = FS_MAX_NAME \<Longrightarrow> length (fs_header f) = 512"
  by (simp add: fs_header_def FS_MAX_NAME_def)

lemma sectors_full_save:
  assumes "fs_disk_save i s = Some s'" "\<forall>l\<in>slot_area i. ata_access l (dsk s)" "ftmpfs (files s ! i) = 0"
    "length (fname (files s ! i)) = FS_MAX_NAME" "fdata (files s ! i) = Some (p, d)" "sectors_full (dsk s)"
  shows "sectors_full (dsk s')"
proof -
  note e = fs_disk_save_sectors [OF assms(1-3)]
  have "length (sectors (dsk s') l) = 512" for l
  proof (cases "l \<in> slot_area i")
    case True
    then consider "l = fs_hdr_sector i" | k where "k < FS_DATA_SECS" "l = fs_data_sector i k"
      by (auto simp: slot_area_def)
    then show ?thesis
      by cases (simp_all add: e(1) e(2) [OF assms(5)] fs_header_length [OF assms(4)] fs_chunk_def)
  qed (use e(3) assms(6) in \<open>simp add: sectors_full_def\<close>)
  then show ?thesis by (simp add: sectors_full_def)
qed

text \<open>
  C18. A saved file survives a reboot. Saving an entry of at most 64 KB that is in use and not
  temporary, on a drive that answers for its slot, and loading the slot from that disk later, into
  whatever state the kernel is in, gives the entry back: name, size, permissions and times, and a
  buffer with the same data. The sectors of all other slots are as before.
\<close>

theorem fs_save_load:
  assumes "fs_inv s" "i < FS_MAX_FILES" "files s ! i = f" "fdata f = Some (p, d)"
    "fused f \<noteq> 0" "ftmpfs f = 0" "\<not> is_dir f" "unat (fsize f) \<le> FS_MAX_DATA"
    "\<forall>l\<in>slot_area i. ata_access l (dsk s)" "sectors_full (dsk s)" "fs_disk_save i s = Some s1"
    "dsk s2 = dsk s1" "i < length (files s2)" "fs_load_slot i s2 = Some s3" "fused (files s3 ! i) \<noteq> 0"
  shows "(\<exists>q e. files s3 ! i = f\<lparr>fdirty := 0, fdata := Some (q, e)\<rparr> \<and>
      take (unat (fsize f)) e = take (unat (fsize f)) d \<and> unat (fsize f) \<le> length d) \<and>
    (\<forall>j l. j \<noteq> i \<longrightarrow> l \<in> slot_area j \<longrightarrow> sectors (dsk s1) l = sectors (dsk s) l)"
proof -
  have fok: "file_ok f" using fs_invD(1) [OF assms(1), of i] assms(1-3) by (simp add: fs_inv_def)
  then have nm: "length (fname f) = FS_MAX_NAME" and ld: "unat (fsize f) \<le> length d"
    using assms(4,8) by (auto simp: file_ok_def)
  note sv = fs_disk_save_sectors [OF assms(11,9)] and f = assms(3)
  have t: "ftmpfs (files s ! i) = 0" using assms(6) f by simp
  have acc: "ata_access (fs_hdr_sector i) (dsk s1)" "\<forall>k<FS_DATA_SECS. ata_access (fs_data_sector i k) (dsk s1)"
    using assms(9) sv(5) [OF t] by (auto simp: slot_area_def)
  have full: "\<forall>l. length (sectors (dsk s1) l) = 512"
    using sectors_full_save [OF assms(11,9) t _ _ assms(10)] nm assms(4) f by (simp add: sectors_full_def)
  let ?s = "upd_file i (fs_decode_header (fs_header f)) s2"
  have dec: "fs_decode_header (fs_header f) (files s2 ! i) = f\<lparr>fdirty := 0, fdata := fdata (files s2 ! i)\<rparr>"
    by (rule fs_decode_encode(1) [OF nm])
  have "ata_read_sector (fs_hdr_sector i) (dsk s2) = Some (fs_header f)"
    using acc(1) sv(1) [OF t] assms(12) f by (simp add: ata_read_sector_def)
  moreover have "perms_dir = 0" if "perms_dir = fperms f AND FS_PERM_DIR" for perms_dir
    using assms(7) that by (simp add: is_dir_def)
  ultimately obtain b s4 where m: "fs_malloc FS_MAX_DATA ?s = Some (b, s4)"
    "s3 = (case b of None \<Rightarrow> upd_file i (\<lambda>f. f\<lparr>fdata := None, fused := 0\<rparr>) s4
       | Some (p, d) \<Rightarrow> upd_file i (\<lambda>f. f\<lparr>fdata := Some (p, fs_load_chunks (dsk s4) i [0..<FS_DATA_SECS] d)\<rparr>) s4)"
    using assms(5,13,14) dec fs_decode_encode(2) [OF nm]
    by (auto simp: fs_load_slot_def Let_def bind_eq_Some_conv)
  note me = fs_malloc_effect(1-3) [OF m(1)]
  obtain q d0 where b: "b = Some (q, d0)"
    using m(2) assms(13,15) me(1) by (cases b) auto
  have l0: "length d0 = FS_MAX_DATA" using fs_malloc_effect(4) m(1) b by blast
  have dk: "dsk s4 = dsk s1" using me(2) assms(12) by simp
  define e where "e = fs_load_chunks (dsk s1) i [0..<FS_DATA_SECS] d0"
  have "map (\<lambda>k. sectors (dsk s1) (fs_data_sector i k)) [0..<FS_DATA_SECS] = map (fs_chunk f d) [0..<FS_DATA_SECS]"
    using sv(2) [OF t, of p d] assms(4) f by (intro map_cong refl) (simp del: upt_Suc)
  with fs_load_chunks_content [OF acc(2) full l0, of FS_DATA_SECS] l0
  have "e = concat (map (fs_chunk f d) [0..<FS_DATA_SECS])"
    by (simp add: e_def) (simp add: FS_DATA_SECS_def FS_MAX_DATA_def)
  then have "e = map (\<lambda>off. if off < unat (fsize f) then d ! off else 0) [0..<FS_MAX_DATA]"
    by (simp add: concat_chunks FS_DATA_SECS_def FS_MAX_DATA_def)
  then have te: "take (unat (fsize f)) e = take (unat (fsize f)) d"
    using assms(8) ld by (intro nth_equalityI) auto
  have "files s3 ! i = f\<lparr>fdirty := 0, fdata := Some (q, e)\<rparr>"
    using m(2) b me(1) assms(13) dec dk by (simp add: e_def)
  moreover have "sectors (dsk s1) l = sectors (dsk s) l" if "j \<noteq> i" "l \<in> slot_area j" for j l
    using slot_area_disjoint [OF that(1)] that(2) sv(3) [OF t] by blast
  ultimately show ?thesis using te ld by blast
qed

section \<open>Booting from a disk\<close>

text \<open>The names of the files on a disk image are terminated.\<close>

definition image_ok :: "disk \<Rightarrow> bool" where
  "image_ok dk \<longleftrightarrow> sectors_full dk \<and>
     (\<forall>i<FS_MAX_FILES. let buf = sectors dk (fs_hdr_sector i) in buf ! 36 \<noteq> 0 \<longrightarrow> 0 \<in> set (take FS_MAX_NAME buf))"

lemma fs_load_slot_inv:
  assumes "fs_inv s" "image_ok (dsk s)" "i < FS_MAX_FILES" "fdata (files s ! i) = None"
  obtains s' where "fs_load_slot i s = Some s'" "fs_inv s'" "dsk s' = dsk s"
    "\<And>j. j \<noteq> i \<Longrightarrow> files s' ! j = files s ! j"
proof -
  have i: "i < length (files s)" "file_ok (files s ! i)" using assms(1,3) by (auto simp: fs_inv_def list_all_length)
  have full: "\<forall>l. length (sectors (dsk s) l) = 512" using assms(2) by (simp add: image_ok_def sectors_full_def)
  show thesis
  proof (cases "ata_access (fs_hdr_sector i) (dsk s)")
    case False
    with that [of s] assms(1) show thesis by (simp add: fs_load_slot_def ata_read_sector_def)
  next
    case True
    define buf where "buf = sectors (dsk s) (fs_hdr_sector i)"
    have rd: "ata_read_sector (fs_hdr_sector i) (dsk s) = Some buf" using True by (simp add: ata_read_sector_def buf_def)
    show thesis
    proof (cases "buf ! 36 = 0")
      case True
      have "fs_inv (upd_file i (\<lambda>f. f\<lparr>fused := 0\<rparr>) s)"
        using i assms(4) by (intro fs_inv_upd assms) (auto simp: file_ok_def)
      with that [of "upd_file i (\<lambda>f. f\<lparr>fused := 0\<rparr>) s"] rd True show thesis by (simp add: fs_load_slot_def)
    next
      case False
      let ?f = "fs_decode_header buf (files s ! i)" and ?s = "upd_file i (fs_decode_header buf) s"
      have nm: "length (take FS_MAX_NAME buf) = FS_MAX_NAME" "0 \<in> set (take FS_MAX_NAME buf)"
        using assms(2,3) False full by (auto simp: image_ok_def buf_def Let_def FS_MAX_NAME_def)
      have f: "file_ok ?f" "fdata ?f = None" "fused ?f \<noteq> 0"
        using nm False assms(4) by (auto simp: file_ok_def fs_decode_header_def)
      have s: "fs_inv ?s" using f i assms(4) by (intro fs_inv_upd assms) auto
      show thesis
      proof (cases "fperms ?f AND FS_PERM_DIR \<noteq> 0")
        case True
        have "fs_inv (upd_file i (\<lambda>f. f\<lparr>fdata := None\<rparr>) ?s)"
          using f i by (intro fs_inv_none s) (auto simp: file_ok_def)
        with that [of "upd_file i (\<lambda>f. f\<lparr>fdata := None\<rparr>) ?s"] rd \<open>buf ! 36 \<noteq> 0\<close> True i show thesis
          by (simp add: fs_load_slot_def Let_def)
      next
        case nodir: False
        have "FS_MAX_DATA \<le> FS_MAX_BIN_DATA" by (simp add: FS_MAX_DATA_def FS_MAX_BIN_DATA_def)
        from fs_malloc_inv [OF s this] obtain b s1 where m: "fs_malloc FS_MAX_DATA ?s = Some (b, s1)"
          "files s1 = files ?s" "dsk s1 = dsk ?s"
          "b = None \<and> fs_inv s1 \<or> (\<exists>p d. b = Some (p, d) \<and> length d = FS_MAX_DATA \<and>
             (\<forall>i e. length e = FS_MAX_DATA \<longrightarrow> owned ((map fdata (files ?s))[i := Some (p, e)]) (fheap s1)))" .
        from m(4) show thesis
        proof (elim disjE conjE exE)
          assume b: "b = None" "fs_inv s1"
          have "fs_inv (upd_file i (\<lambda>f. f\<lparr>fdata := None, fused := 0\<rparr>) s1)"
            using f i m(2) by (intro fs_inv_none b) (auto simp: file_ok_def)
          with that [of "upd_file i (\<lambda>f. f\<lparr>fdata := None, fused := 0\<rparr>) s1"] rd \<open>buf ! 36 \<noteq> 0\<close> nodir i b m(1-3)
          show thesis by (simp add: fs_load_slot_def Let_def)
        next
          fix p d assume b: "b = Some (p, d)" "length d = FS_MAX_DATA"
            and ow: "\<forall>i e. length e = FS_MAX_DATA \<longrightarrow> owned ((map fdata (files ?s))[i := Some (p, e)]) (fheap s1)"
          let ?e = "fs_load_chunks (dsk s1) i [0..<FS_DATA_SECS] d"
          have "length ?e = FS_MAX_DATA" using full m(3) b(2) by (intro fs_load_chunks_length) auto
          then have "fs_inv (upd_file i (\<lambda>f. f\<lparr>fdata := Some (p, ?e)\<rparr>) s1)"
            using f i m(2) ow by (intro fs_inv_put [OF s]) (auto simp: file_ok_def)
          with that [of "upd_file i (\<lambda>f. f\<lparr>fdata := Some (p, ?e)\<rparr>) s1"] rd \<open>buf ! 36 \<noteq> 0\<close> nodir i b m(1-3)
          show thesis by (simp add: fs_load_slot_def Let_def)
        qed
      qed
    qed
  qed
qed

lemma fs_load_from_inv:
  assumes "fs_inv s" "image_ok (dsk s)" "\<forall>i\<in>set is. i < FS_MAX_FILES \<and> fdata (files s ! i) = None" "distinct is"
  obtains s' where "fs_load_from is s = Some s'" "fs_inv s'"
  using assms
proof (induction "is" arbitrary: s thesis)
  case Nil
  then show ?case by simp
next
  case (Cons i "is")
  have i: "i < FS_MAX_FILES" "fdata (files s ! i) = None" using Cons.prems(4) by auto
  obtain s1 where s1: "fs_load_slot i s = Some s1" "fs_inv s1" "dsk s1 = dsk s"
    "\<forall>j. j \<noteq> i \<longrightarrow> files s1 ! j = files s ! j"
    by (rule fs_load_slot_inv [OF Cons.prems(2,3) i]) blast
  have "\<forall>j\<in>set is. j < FS_MAX_FILES \<and> fdata (files s1 ! j) = None"
  proof
    fix j assume "j \<in> set is"
    with Cons.prems(4,5) s1(4) show "j < FS_MAX_FILES \<and> fdata (files s1 ! j) = None" by (cases "j = i") auto
  qed
  with Cons.IH [of s1] Cons.prems(1,3,5) s1 show ?case by auto
qed

lemma fs_init_inv:
  assumes "heap_ok (fheap s)" "image_ok (dsk s)" "fs_init s = Some s'"
  shows "fs_inv s'"
proof -
  from assms(3) obtain p h where m: "malloc (fheap s) (word_of_nat (FS_MAX_FILES * 64)) = Some (p, h)" "p \<noteq> 0"
    by (auto simp: fs_init_def bind_eq_Some_conv split: if_splits)
  let ?s = "s\<lparr>fheap := h, files := map (\<lambda>i. fs_blank (junk s) (p + 64 * i)) [0..<FS_MAX_FILES]\<rparr>"
  have "heap_ok h" using kernel_heap.alloc_preserves [OF assms(1) m(1)] by simp
  then have inv: "fs_inv ?s"
    by (auto simp: fs_inv_def owned_def list_all_length file_ok_def fs_blank_def FS_MAX_NAME_def)
  then have "fs_inv (fs_disk_write_magic ?s)" by (simp add: fs_inv_def fs_disk_write_magic_def)
  moreover have "fs_inv s1" if "fs_disk_load ?s = Some s1" for s1
  proof -
    obtain s2 where "fs_load_from [0..<FS_MAX_FILES] ?s = Some s2" "fs_inv s2"
      by (rule fs_load_from_inv [OF inv, of "[0..<FS_MAX_FILES]"]) (use assms(2) in \<open>auto simp: fs_blank_def\<close>)
    with that show ?thesis by (simp add: fs_disk_load_def)
  qed
  ultimately show ?thesis
    using assms(3) m inv by (auto simp: fs_init_def Let_def split: if_splits option.splits)
qed

section \<open>Safety of the operations\<close>

text \<open>One call; a text write only into a buffer that can take it.\<close>

inductive fs_op :: "fs_state \<Rightarrow> fs_state \<Rightarrow> bool" where
  write_text: "fits nm str s \<Longrightarrow> fs_write nm str tick s = Some (r, s') \<Longrightarrow> fs_op s s'"
| write_bin: "sz \<le> length src \<Longrightarrow> fs_write_bin nm src sz tick s = Some (r, s') \<Longrightarrow> fs_op s s'"
| write_temp: "sz \<le> length src \<Longrightarrow> fs_write_tmp nm src sz tick s = Some (r, s') \<Longrightarrow> fs_op s s'"
| deletion: "fs_delete nm s = Some (r, s') \<Longrightarrow> fs_op s s'"
| mkdir: "fs_mkdir nm tick s = Some (r, s') \<Longrightarrow> fs_op s s'"
| set_perms: "fs_set_perms nm ps s = Some (r, s') \<Longrightarrow> fs_op s s'"
| renaming: "fs_rename old_name new_name tick s = Some (r, s') \<Longrightarrow> fs_op s s'"

lemma keeps_invD: "keeps_inv r \<Longrightarrow> r = Some (v, s') \<Longrightarrow> fs_inv s'"
  by (auto simp: keeps_inv_def)

lemma keeps_inv_returns: "keeps_inv r \<Longrightarrow> r \<noteq> None"
  by (auto simp: keeps_inv_def)

lemma fs_op_inv:
  assumes "fs_op s s'" "fs_inv s"
  shows "fs_inv s'"
  using assms(1)
proof cases
  case (write_text nm str tick r)
  then show ?thesis using keeps_invD [OF fs_write_safe [OF assms(2)]] by blast
next
  case (write_bin sz src nm tick r)
  then show ?thesis using keeps_invD [OF fs_write_bin_safe [OF assms(2)]] unfolding fs_write_bin_def by blast
next
  case (write_temp sz src nm tick r)
  then show ?thesis using keeps_invD [OF fs_write_bin_safe [OF assms(2)]] unfolding fs_write_tmp_def by blast
next
  case (deletion nm r)
  then show ?thesis using keeps_invD [OF fs_delete_safe [OF assms(2)]] by blast
next
  case (mkdir nm tick r)
  then show ?thesis using keeps_invD [OF fs_mkdir_safe [OF assms(2)]] by blast
next
  case (set_perms nm ps r)
  then show ?thesis using keeps_invD [OF fs_set_perms_safe [OF assms(2)]] by blast
next
  case (renaming old_name new_name tick r)
  then show ?thesis using keeps_invD [OF fs_rename_safe [OF assms(2)]] by blast
qed

text \<open>
  C16. Memory safety of the file system. After booting from a disk image with terminated names and
  any sequence of calls, the table is in order: buffers are live blocks of the kernel heap, long
  enough for the recorded sizes and not shared between entries. In every such state each operation
  returns: it stays inside the buffers, never passes a bad pointer to \<open>free\<close>, and this holds for a
  text write exactly when the file's buffer has room for the string.
\<close>

theorem fs_memory_safe:
  assumes "heap_ok (fheap s0)" "image_ok (dsk s0)" "fs_init s0 = Some s1" "fs_op\<^sup>*\<^sup>* s1 s"
  shows "fs_inv s \<and> fs_delete nm s \<noteq> None \<and> fs_mkdir nm tick s \<noteq> None \<and> fs_set_perms nm ps s \<noteq> None \<and>
    fs_rename nm nm' tick s \<noteq> None \<and> (sz \<le> length src \<longrightarrow> fs_write_bin nm src sz tick s \<noteq> None) \<and>
    (sz \<le> length src \<longrightarrow> fs_write_tmp nm src sz tick s \<noteq> None) \<and>
    (fs_write nm str tick s = None \<longleftrightarrow> \<not> fits nm str s \<and> length (cstr str) < FS_MAX_DATA)"
proof -
  from assms(4) fs_init_inv [OF assms(1-3)] have inv: "fs_inv s"
    by (induction rule: rtranclp_induct) (auto intro: fs_op_inv)
  have "fs_write nm str tick s = None" if "\<not> fits nm str s" "length (cstr str) < FS_MAX_DATA"
    using that c_strcpy_None [of _ str FS_MAX_DATA]
    by (auto simp: fits_def fs_write_def Let_def fs_ensure_data_def fs_strcpy_def split: option.splits)
  moreover have "fs_write nm str tick s \<noteq> None" if "FS_MAX_DATA \<le> length (cstr str)"
    using that by (simp add: fs_write_def)
  ultimately show ?thesis
    using inv keeps_inv_returns [OF fs_write_safe [OF inv]] keeps_inv_returns [OF fs_write_bin_safe [OF inv]]
      keeps_inv_returns [OF fs_delete_safe [OF inv]] keeps_inv_returns [OF fs_mkdir_safe [OF inv]]
      keeps_inv_returns [OF fs_set_perms_safe [OF inv]] keeps_inv_returns [OF fs_rename_safe [OF inv]]
    unfolding fs_write_bin_def fs_write_tmp_def by (metis not_le)
qed

section \<open>Concrete states\<close>

text \<open>An empty table over the heap after boot, with and without a disk.\<close>

definition no_disk :: disk where
  "no_disk = \<lparr>present = False, answers = (\<lambda>_. False), sectors = (\<lambda>_. replicate 512 0)\<rparr>"

definition new_disk :: disk where
  "new_disk = \<lparr>present = True, answers = (\<lambda>_. True), sectors = (\<lambda>_. replicate 512 0)\<rparr>"

definition empty_fs :: "disk \<Rightarrow> fs_state" where
  "empty_fs dk = \<lparr>files = replicate FS_MAX_FILES (fs_blank (\<lambda>_. 0) 0), dsk = dk,
     fheap = mem_init \<lparr>heap_head = 0, hmem = (\<lambda>_. None)\<rparr>, junk = (\<lambda>_. 0)\<rparr>"

lemma first_malloc:
  assumes "0 < unat n" "unat (round_up4 n) \<le> 0x5FFFDC"
  obtains h where "malloc (mem_init h0) n = Some (0x100010, h)" "heap_ok h"
    "heap_inv h [(unat (round_up4 n), False), (0x5FFFF0 - unat (round_up4 n) - 16, True)]"
proof -
  have "n \<noteq> 0" using assms(1) by auto
  from malloc_refines [OF mem_init_inv [of h0] this] assms(2) that show thesis
    by (auto simp: HEAP_START_def HEAP_SIZE_def HEADER_SIZE_def heap_ok_def)
qed

lemma blank_slots:
  "find_slot (named_file nm) (replicate FS_MAX_FILES (fs_blank jk a)) = None"
  "find_slot (named nm) (replicate FS_MAX_FILES (fs_blank jk a)) = None"
  "find_slot (\<lambda>f. fused f = 0) (replicate FS_MAX_FILES (fs_blank jk a)) = Some 0"
  by (simp_all add: find_slot_replicate named_file_def named_def fs_blank_def FS_MAX_FILES_def)

lemma empty_fs_inv: "fs_inv (empty_fs dk)"
  using mem_init_inv
  by (auto simp: fs_inv_def empty_fs_def owned_def list_all_length file_ok_def fs_blank_def FS_MAX_NAME_def heap_ok_def)

text \<open>Writing three bytes to the file \<open>a\<close>.\<close>

definition demo_file :: fs_file where
  "demo_file = (fs_blank (\<lambda>_. 0) 0)\<lparr>fname := 97 # replicate 31 0, fdata := Some (0x100010, [1, 2, 3]), fsize := 3,
     fused := 1, fdirty := 1, fperms := 7\<rparr>"

lemma demo_write:
  obtains h where "heap_ok h" "heap_inv h [(4, False), (0x5FFFDC, True)]"
    "fs_write_bin [97] [1, 2, 3] 3 0 (empty_fs dk) = do {
       s \<leftarrow> fs_disk_save 0 ((empty_fs dk)\<lparr>files := (files (empty_fs dk))[0 := demo_file], fheap := h\<rparr>);
       Some (1, s) }"
proof -
  obtain h where h: "malloc (mem_init \<lparr>heap_head = 0, hmem = (\<lambda>_. None)\<rparr>) 3 = Some (0x100010, h)" "heap_ok h"
    "heap_inv h [(4, False), (0x5FFFDC, True)]"
    by (rule first_malloc [of 3 "\<lparr>heap_head = 0, hmem = (\<lambda>_. None)\<rparr>"]) (simp_all add: round_up4_nat)
  have nm: "fs_strcpy (replicate 32 0) [97] 32 = Some (97 # replicate 31 0)"
    using c_strcpy_eq [of "[97]" 32 "replicate 32 0"] replicate_Suc [of 30 "0 :: u8"] by (simp add: fs_strcpy_def cstr_Cons)
  have z: "replicate FS_MAX_FILES (fs_blank (\<lambda>_. 0) 0) ! 0 = fs_blank (\<lambda>_. 0) 0" by (simp add: FS_MAX_FILES_def)
  have f: "fname (fs_blank (\<lambda>_. 0) 0) = replicate 32 0" by (simp add: fs_blank_def map_replicate_const)
  have d: "((replicate FS_MAX_FILES (fs_blank (\<lambda>_. 0) 0))[0 := (fs_blank (\<lambda>_. 0) 0)\<lparr>fname := 97 # replicate 31 0\<rparr>] ! 0)
      \<lparr>fdata := Some (0x100010, [1, 2, 3]), fsize := 3, fused := 1, ftmpfs := 0, fdirty := 1,
       fperms := FS_PERM_READ OR FS_PERM_WRITE OR FS_PERM_EXEC, fctime := 0, fmtime := 0\<rparr> = demo_file"
    by (simp add: demo_file_def fs_blank_def FS_PERM_READ_def FS_PERM_WRITE_def FS_PERM_EXEC_def FS_MAX_FILES_def)
  show thesis
    by (rule that [OF h(2,3)])
      (simp add: fs_write_bin_def fs_write_bin_internal_def empty_fs_def blank_slots FS_MAX_BIN_DATA_def
        fs_malloc_def h nm z f FS_MAX_NAME_def fs_memcpy_def upd_file_def d)
qed

lemma demo_write_no_disk:
  obtains s where "fs_write_bin [97] [1, 2, 3] 3 0 (empty_fs no_disk) = Some (1, s)" "fs_inv s"
proof -
  obtain h where h: "fs_write_bin [97] [1, 2, 3] 3 0 (empty_fs no_disk) = do {
       s \<leftarrow> fs_disk_save 0 ((empty_fs no_disk)\<lparr>files := (files (empty_fs no_disk))[0 := demo_file], fheap := h\<rparr>);
       Some (1, s) }" by (rule demo_write)
  then obtain s where s: "fs_write_bin [97] [1, 2, 3] 3 0 (empty_fs no_disk) = Some (1, s)"
    by (simp add: fs_disk_save_def empty_fs_def no_disk_def ata_disk_present_def)
  moreover have "fs_inv s"
    using keeps_invD [OF fs_write_bin_safe [OF empty_fs_inv, of 3 "[1, 2, 3]"]] s by (simp add: fs_write_bin_def)
  ultimately show thesis using that by blast
qed

theorem fs_last_write_wins_witness:
  "\<exists>s. mfs3.put_all [([97], Bin [1, 2, 3] 3 0)] (empty_fs no_disk) = Some s \<and>
     fs_contents s [97, 0] = Some [1, 2, 3]"
proof -
  obtain s where s: "fs_write_bin [97] [1, 2, 3] 3 0 (empty_fs no_disk) = Some (1, s)" by (rule demo_write_no_disk)
  then have p: "mfs3.put_all [([97], Bin [1, 2, 3] 3 0)] (empty_fs no_disk) = Some s" by (simp add: fs_apply_def)
  from fs_last_write_wins [OF p, of "[97, 0]"] p show ?thesis
    by (simp add: short_name_def cstr_Cons FS_MAX_NAME_def)
qed

theorem fs_memory_safe_witness:
  "\<exists>s. fs_init (empty_fs no_disk) = Some s \<and> fs_inv s \<and> fs_delete [97] s \<noteq> None"
proof -
  obtain h where h: "malloc (mem_init \<lparr>heap_head = 0, hmem = (\<lambda>_. None)\<rparr>) 4096 = Some (0x100010, h)"
    by (rule first_malloc [of 4096 "\<lparr>heap_head = 0, hmem = (\<lambda>_. None)\<rparr>"]) (simp_all add: round_up4_nat)
  then obtain s where s: "fs_init (empty_fs no_disk) = Some s"
    by (simp add: fs_init_def empty_fs_def FS_MAX_FILES_def Let_def ata_disk_present_def no_disk_def)
  have "image_ok (dsk (empty_fs no_disk))" "heap_ok (fheap (empty_fs no_disk))"
    using mem_init_inv by (auto simp: image_ok_def sectors_full_def empty_fs_def no_disk_def heap_ok_def)
  with fs_memory_safe [OF _ _ s] s show ?thesis by blast
qed

lemma new_disk_access: "\<forall>l\<in>slot_area 0. ata_access l new_disk"
  by (auto simp: slot_area_eq ata_access_def new_disk_def ATA_LBA28_MAX_def)

theorem fs_save_load_witness:
  "\<exists>s s1 s3 q e. files s ! 0 = demo_file \<and> fs_disk_save 0 s = Some s1 \<and>
     fs_load_slot 0 ((empty_fs no_disk)\<lparr>dsk := dsk s1\<rparr>) = Some s3 \<and>
     files s3 ! 0 = demo_file\<lparr>fdirty := 0, fdata := Some (q, e)\<rparr> \<and> take 3 e = [1, 2, 3]"
proof -
  obtain h where h: "heap_ok h" "heap_inv h [(4, False), (0x5FFFDC, True)]" by (rule demo_write [of no_disk])
  define s where "s = (empty_fs new_disk)\<lparr>files := (files (empty_fs new_disk))[0 := demo_file], fheap := h\<rparr>"
  have f: "files s ! 0 = demo_file" by (simp add: s_def empty_fs_def FS_MAX_FILES_def)
  have "(0x100010, 4) \<in> live h"
    using h(2) by (auto simp: live_eq HEAP_START_def HEADER_SIZE_def)
  then have inv: "fs_inv s"
    using h(1) empty_fs_inv [of new_disk]
    by (auto simp: fs_inv_def s_def owned_def list_all_length empty_fs_def nth_list_update demo_file_def file_ok_def
        fs_blank_def FS_MAX_NAME_def FS_MAX_FILES_def intro!: exI [of _ 4])
  obtain s1 where s1: "fs_disk_save 0 s = Some s1"
    by (rule fs_disk_save_inv [OF inv, of 0]) (use inv in \<open>simp_all add: fs_inv_def FS_MAX_FILES_def\<close>)
  define s2 where "s2 = (empty_fs no_disk)\<lparr>dsk := dsk s1\<rparr>"
  have dk: "dsk s = new_disk" by (simp add: s_def empty_fs_def)
  have acc: "\<forall>l\<in>slot_area 0. ata_access l (dsk s)" using new_disk_access dk by simp
  have df: "ftmpfs demo_file = 0" "fused demo_file = 1" "\<not> is_dir demo_file" "unat (fsize demo_file) = 3"
    "length (fname demo_file) = FS_MAX_NAME" "fdata demo_file = Some (0x100010, [1, 2, 3])"
    by (simp_all add: demo_file_def fs_blank_def is_dir_def FS_PERM_DIR_def FS_MAX_NAME_def)
  have hdr: "ata_read_sector (fs_hdr_sector 0) (dsk s2) = Some (fs_header demo_file)"
    using fs_disk_save_sectors(1,5) [OF s1 acc] f df(1) acc by (simp add: s2_def ata_read_sector_def slot_area_def)
  obtain h2 where h2: "malloc (mem_init \<lparr>heap_head = 0, hmem = (\<lambda>_. None)\<rparr>) 65536 = Some (0x100010, h2)"
    by (rule first_malloc [of 65536 "\<lparr>heap_head = 0, hmem = (\<lambda>_. None)\<rparr>"]) (simp_all add: round_up4_nat)
  then have h2': "malloc (mem_init \<lparr>heap_head = 0, hmem = (\<lambda>_. None)\<rparr>) (word_of_nat FS_MAX_DATA) = Some (0x100010, h2)"
    by (simp add: FS_MAX_DATA_def)
  have "fperms demo_file AND FS_PERM_DIR = 0" using df(3) by (simp add: is_dir_def)
  then obtain s3 where s3: "fs_load_slot 0 s2 = Some s3" "fused (files s3 ! 0) = 1"
    using hdr h2' fs_decode_encode [OF df(5)] df(2)
    by (auto simp: fs_load_slot_def Let_def fs_malloc_def s2_def empty_fs_def FS_MAX_FILES_def)
  have "\<exists>q e. files s3 ! 0 = demo_file\<lparr>fdirty := 0, fdata := Some (q, e)\<rparr> \<and> take 3 e = [1, 2, 3]"
    using fs_save_load [OF inv _ f df(6) _ df(1,3) _ acc _ s1 _ _ s3(1)] df(2,4) s3(2)
    by (simp add: FS_MAX_FILES_def FS_MAX_DATA_def sectors_full_def dk new_disk_def s2_def empty_fs_def)
  with f s1 s3(1) show ?thesis unfolding s2_def by blast
qed

section \<open>Deleting\<close>

lemma fs_delete_slot:
  assumes "fs_delete nm s = Some (r, s')" "find_slot (named nm) (files s) = Some i"
  obtains s1 g where "r = 1" "files s1 = (files s)[i := g]" "fused g = 0" "ftmpfs g = ftmpfs (files s ! i)" "fname g = fname (files s ! i)"
    "fdata g = None" "dsk s1 = dsk s" "fs_disk_save i s1 = Some s'"
proof (cases "fdata (files s ! i)")
  case None
  with assms that [of "upd_file i (\<lambda>f. f\<lparr>fused := 0\<rparr>) s" "(files s ! i)\<lparr>fused := 0\<rparr>"] show thesis
    by (auto simp: fs_delete_def bind_eq_Some_conv)
next
  case (Some b)
  with assms obtain s1 where s1: "fs_free b (upd_file i (\<lambda>f. f\<lparr>fused := 0, fdata := None\<rparr>) s) = Some s1"
    "fs_disk_save i s1 = Some s'" "r = 1" by (auto simp: fs_delete_def bind_eq_Some_conv)
  with that [of s1 "(files s ! i)\<lparr>fused := 0, fdata := None\<rparr>"] fs_free_effect [OF s1(1)] show thesis by simp
qed

text \<open>
  Deleting a file. When only one entry has the name, \<open>fs_delete\<close> removes it: no reader finds the
  name any more, every other name keeps its contents, and on a drive that answers for the slot the
  header of a file that is not temporary says from then on that the slot is free.
\<close>

theorem fs_delete_removes:
  assumes "fs_inv s" "fs_delete nm s = Some (1, s')" "find_slot (named nm) (files s) = Some i"
    "\<forall>j<FS_MAX_FILES. j \<noteq> i \<longrightarrow> \<not> named nm (files s ! j)"
  shows "fs_contents s' nm = None \<and> fs_get_perms nm s' = 0 \<and>
    (\<forall>nm'. cstr nm' \<noteq> cstr nm \<longrightarrow> fs_contents s' nm' = fs_contents s nm') \<and>
    (ftmpfs (files s ! i) = 0 \<longrightarrow> (\<forall>l\<in>slot_area i. ata_access l (dsk s)) \<longrightarrow>
      sectors (dsk s') (fs_hdr_sector i) ! 36 = 0)"
proof -
  obtain s1 g where s1: "files s1 = (files s)[i := g]" "fused g = 0" "ftmpfs g = ftmpfs (files s ! i)"
    "fname g = fname (files s ! i)" "dsk s1 = dsk s" "fs_disk_save i s1 = Some s'"
    by (rule fs_delete_slot [OF assms(2,3)]) blast
  obtain dr where s': "files s' = (files s)[i := g\<lparr>fdirty := dr\<rparr>]"
    using fs_disk_save_effect(3) [OF s1(6)] s1(1) find_slot_SomeD(1) [OF assms(3)] by auto
  have len: "i < length (files s)" "length (files s) = FS_MAX_FILES"
    using find_slot_SomeD(1) [OF assms(3)] assms(1) by (auto simp: fs_inv_def)
  have no: "\<not> named nm f" if "f \<in> set (files s')" for f
  proof -
    from that obtain k where "k < length (files s)" "f = files s' ! k" by (auto simp: s' in_set_conv_nth)
    with assms(4) len s1(2) s' show ?thesis by (cases "k = i") (auto simp: named_def)
  qed
  then have "find_slot (named nm) (files s') = None" "find_slot (named_file nm) (files s') = None"
    by (auto simp: find_slot_None_iff named_def named_file_def)
  moreover have "fs_contents s' nm' = fs_contents s nm'" if "cstr nm' \<noteq> cstr nm" for nm'
  proof -
    have "\<not> named_file nm' (files s ! i)" "\<not> named_file nm' (g\<lparr>fdirty := dr\<rparr>)"
      using find_slot_SomeD(2) [OF assms(3)] that s1(2) by (auto simp: named_def named_file_def fs_strcmp_def c_streq_iff)
    then have fd: "find_slot (named_file nm') ((files s)[i := g\<lparr>fdirty := dr\<rparr>]) = find_slot (named_file nm') (files s)"
      and ne: "\<And>j. find_slot (named_file nm') (files s) = Some j \<Longrightarrow> j \<noteq> i"
      using find_slot_SomeD(2) by (auto simp: find_slot_update_miss)
    show ?thesis unfolding fs_contents_def fs_read_bin_def s' fd using ne by (auto split: option.splits)
  qed
  moreover have "sectors (dsk s') (fs_hdr_sector i) ! 36 = 0"
    if "ftmpfs (files s ! i) = 0" "\<forall>l\<in>slot_area i. ata_access l (dsk s)"
  proof -
    have "length (fname g) = FS_MAX_NAME" using fs_invD(1) [OF assms(1) len(1)] s1(4) by (simp add: file_ok_def)
    with fs_disk_save_sectors(1) [OF s1(6)] that s1 len fs_decode_encode(2) [of g] show ?thesis by simp
  qed
  ultimately show ?thesis by (auto simp: fs_contents_def fs_read_bin_def fs_get_perms_def)
qed

text \<open>The state with the one file \<open>a\<close>.\<close>

lemma demo_named:
  obtains s where "fs_write_bin [97] [1, 2, 3] 3 0 (empty_fs no_disk) = Some (1, s)" "fs_inv s"
    "find_slot (named [97]) (files s) = Some 0" "find_slot (named_file [97]) (files s) = Some 0"
    "\<forall>j<FS_MAX_FILES. j \<noteq> 0 \<longrightarrow> \<not> named [97] (files s ! j)" "fdata (files s ! 0) = Some (0x100010, [1, 2, 3])"
    "heap_inv (fheap s) [(4, False), (0x5FFFDC, True)]"
proof -
  obtain h where hp: "heap_inv h [(4, False), (0x5FFFDC, True)]" and h: "fs_write_bin [97] [1, 2, 3] 3 0 (empty_fs no_disk) = do {
       s \<leftarrow> fs_disk_save 0 ((empty_fs no_disk)\<lparr>files := (files (empty_fs no_disk))[0 := demo_file], fheap := h\<rparr>);
       Some (1, s) }" by (rule demo_write)
  obtain s where s: "fs_write_bin [97] [1, 2, 3] 3 0 (empty_fs no_disk) = Some (1, s)" "fs_inv s"
    by (rule demo_write_no_disk)
  have f: "files s = (replicate FS_MAX_FILES (fs_blank (\<lambda>_. 0) 0))[0 := demo_file]" "fheap s = h"
    using h s(1) by (auto simp: fs_disk_save_def empty_fs_def no_disk_def ata_disk_present_def)
  have nd: "named [97] demo_file" "named_file [97] demo_file" "\<not> named [97] (fs_blank (\<lambda>_. 0) 0)"
    by (simp_all add: named_def named_file_def is_dir_def FS_PERM_DIR_def demo_file_def fs_strcmp_def c_streq_iff cstr_Cons fs_blank_def)
  have "find_slot (named [97]) (files s) = Some 0"
    unfolding f(1) by (intro find_slot_update_hit) (simp_all add: FS_MAX_FILES_def nd)
  moreover have "find_slot (named_file [97]) (files s) = Some 0"
    unfolding f(1) by (intro find_slot_update_hit) (simp_all add: FS_MAX_FILES_def nd)
  moreover have "\<forall>j<FS_MAX_FILES. j \<noteq> 0 \<longrightarrow> \<not> named [97] (files s ! j)" using f(1) nd(3) by simp
  moreover have "fdata (files s ! 0) = Some (0x100010, [1, 2, 3])"
    using f(1) by (simp add: FS_MAX_FILES_def demo_file_def)
  ultimately show thesis using that [OF s] f(2) hp by blast
qed

theorem fs_delete_removes_witness:
  "\<exists>s s'. fs_write_bin [97] [1, 2, 3] 3 0 (empty_fs no_disk) = Some (1, s) \<and> fs_delete [97] s = Some (1, s') \<and>
     fs_contents s' [97] = None"
proof -
  obtain s where s: "fs_write_bin [97] [1, 2, 3] 3 0 (empty_fs no_disk) = Some (1, s)" "fs_inv s"
    "find_slot (named [97]) (files s) = Some 0" "\<forall>j<FS_MAX_FILES. j \<noteq> 0 \<longrightarrow> \<not> named [97] (files s ! j)"
    by (rule demo_named)
  obtain r s' where s': "fs_delete [97] s = Some (r, s')" using fs_delete_safe [OF s(2), of "[97]"] by (auto simp: keeps_inv_def)
  obtain "r = 1" by (rule fs_delete_slot [OF s' s(3)])
  then show ?thesis using fs_delete_removes [OF s(2) _ s(3,4)] s(1) s' by blast
qed

text \<open>
  A deleted file can come back. When a file is overwritten by a temporary one of the same name
  and that is deleted, the disk is the one from before: the slot still holds the old file, and the
  next boot loads it.
\<close>

theorem fs_deleted_file_returns:
  assumes "find_slot (named nm) (files s) = Some i" "find_slot (named_file nm) (files s) = Some i"
    "fs_write_tmp nm src sz tick s = Some (1, s1)" "fs_delete nm s1 = Some (r, s2)"
  shows "r = 1 \<and> dsk s2 = dsk s"
proof -
  note f = find_slot_SomeD [OF assms(1)] find_slot_SomeD [OF assms(2)]
  have "\<not> sz > FS_MAX_BIN_DATA"
    using assms(3) by (auto simp: fs_write_tmp_def fs_write_bin_internal_def)
  with assms(2,3) obtain s0 p d s4 d1 where e:
    "(case fdata (files s ! i) of None \<Rightarrow> Some s
      | Some b \<Rightarrow> fs_free b (upd_file i (\<lambda>f. f\<lparr>fdata := None\<rparr>) s)) = Some s0"
    "fs_malloc sz s0 = Some (Some (p, d), s4)" "fs_disk_save i (upd_file i (\<lambda>f. f\<lparr>fdata := Some (p, d1),
       fsize := word_of_nat sz, fmtime := tick, fdirty := 1, ftmpfs := 1\<rparr>) s4) = Some s1"
    by (auto simp: fs_write_tmp_def fs_write_bin_internal_def bind_eq_Some_conv split: option.splits)
  let ?s4 = "upd_file i (\<lambda>f. f\<lparr>fdata := Some (p, d1), fsize := word_of_nat sz, fmtime := tick, fdirty := 1, ftmpfs := 1\<rparr>) s4"
  have s0: "dsk s0 = dsk s" "fname (files s0 ! i) = fname (files s ! i)" "fused (files s0 ! i) = fused (files s ! i)"
    "length (files s0) = length (files s)" "\<And>j. j \<noteq> i \<Longrightarrow> files s0 ! j = files s ! j"
    using e(1) f(1) fs_free_effect by (auto split: option.splits)
  note m = fs_malloc_effect(1,2) [OF e(2)]
  have s1: "s1 = ?s4" using e(3) f(1) s0(4) m by (auto simp: fs_disk_save_def Let_def split: if_splits)
  have "named nm (files s1 ! i)" "\<And>j. j < i \<Longrightarrow> \<not> named nm (files s1 ! j)" "i < length (files s1)"
    using f s0 m s1 by (auto simp: named_def)
  then have i: "find_slot (named nm) (files s1) = Some i" by (auto simp: find_slot_Some_iff)
  obtain s3 g where g: "r = 1" "files s3 = (files s1)[i := g]" "ftmpfs g = ftmpfs (files s1 ! i)" "dsk s3 = dsk s1"
    "fs_disk_save i s3 = Some s2"
    by (rule fs_delete_slot [OF assms(4) i]) blast
  have "ftmpfs (files s3 ! i) = 1" using g(2,3) s1 f(1) s0(4) m by simp
  then have "dsk s2 = dsk s3" using g(5) by (auto simp: fs_disk_save_def Let_def split: if_splits)
  with g s1 m s0 show ?thesis by simp
qed

theorem fs_deleted_file_returns_witness:
  "\<exists>s s1 s2. fs_write_bin [97] [1, 2, 3] 3 0 (empty_fs no_disk) = Some (1, s) \<and>
     fs_write_tmp [97] [5] 1 0 s = Some (1, s1) \<and> fs_delete [97] s1 = Some (1, s2) \<and> dsk s2 = dsk s"
proof -
  obtain s where s: "fs_write_bin [97] [1, 2, 3] 3 0 (empty_fs no_disk) = Some (1, s)" "fs_inv s"
    "find_slot (named [97]) (files s) = Some 0" "find_slot (named_file [97]) (files s) = Some 0"
    "fdata (files s ! 0) = Some (0x100010, [1, 2, 3])" "heap_inv (fheap s) [(4, False), (0x5FFFDC, True)]"
    by (rule demo_named)
  obtain r s1 where s1: "fs_write_tmp [97] [5] 1 0 s = Some (r, s1)" "fs_inv s1"
    using fs_write_bin_safe [OF s(2), of 1 "[5]" "[97]" 1 0] by (auto simp: keeps_inv_def fs_write_tmp_def)
  obtain r2 s2 where s2: "fs_delete [97] s1 = Some (r2, s2)"
    using fs_delete_safe [OF s1(2), of "[97]"] by (auto simp: keeps_inv_def)
  have "(0x100010, 4) \<in> live (fheap s)"
    using s(6) by (auto simp: live_eq HEAP_START_def HEADER_SIZE_def)
  from free_refines [OF s(6) this] obtain h where h: "free (fheap s) 0x100010 = Some h" "heap_inv h [(0x5FFFF0, True)]"
    by (auto simp: HEAP_START_def HEADER_SIZE_def)
  from malloc_refines [OF h(2), of 1] obtain h2 where "malloc h 1 = Some (0x100010, h2)"
    by (auto simp: round_up4_nat HEAP_START_def HEADER_SIZE_def)
  then have "r = 1"
    using s1(1) s(4,5) h(1)
    by (auto simp: fs_write_tmp_def fs_write_bin_internal_def FS_MAX_BIN_DATA_def fs_free_def fs_malloc_def fs_memcpy_def
        bind_eq_Some_conv)
  with fs_deleted_file_returns [OF s(3,4)] s s1 s2 show ?thesis by blast
qed

end
