(* ===== verification/Mfs4.thy ===== *)
theory Mfs4
  imports FsDisk
begin

text \<open>
  The inode layer MFS4, \<open>src/kernel/mfs4.c\<close>: 128 entries of type file, directory or symbolic link
  over the files of MFS3, with symbolic and hard links, and an image of the whole table on the disk
  that MFS3 uses too. \<open>fs_flush\<close> of \<open>src/kernel/fs.c\<close> is here because it ends by flushing this
  table. The table is written to disk byte by byte as it lies in memory, so the layout of an entry
  (144 bytes) is part of the model. String arguments are not NULL; an operation is \<open>None\<close> when the
  MFS3 call it makes is.
\<close>

unbundle bit_operations_syntax

section \<open>State\<close>

definition MFS4_MAX_INODES :: nat where "MFS4_MAX_INODES = 128"
definition MFS4_PATH_LEN :: nat where "MFS4_PATH_LEN = 64"
definition MFS4_TYPE_FILE :: u8 where "MFS4_TYPE_FILE = 1"
definition MFS4_TYPE_DIR :: u8 where "MFS4_TYPE_DIR = 2"
definition MFS4_TYPE_SYMLINK :: u8 where "MFS4_TYPE_SYMLINK = 3"
definition MFS4_LBA_META :: nat where "MFS4_LBA_META = 513"
definition MFS4_LBA_DATA :: nat where "MFS4_LBA_DATA = 514"
definition MFS4_INODE_BYTES :: nat where "MFS4_INODE_BYTES = MFS4_MAX_INODES * 144"
definition MFS4_INODE_SECTS :: nat where "MFS4_INODE_SECTS = (MFS4_INODE_BYTES + 511) div 512"

record inode =
  itype :: u8
  iused :: u8
  ipad :: u16
  inode_id :: u32
  path :: bytes
  target :: bytes
  ictime :: u32
  imtime :: u32

record mfs4 =
  inodes :: "inode list"
  next_inode_id :: u32
  mfs3 :: fs_state

record mfs4_stat =
  st_type :: u8
  st_size :: u32
  st_ctime :: u32
  st_mtime :: u32
  st_perms :: u16

definition s_len :: "bytes \<Rightarrow> nat" where "s_len s = length (cstr s)"
definition s_eq :: "bytes \<Rightarrow> bytes \<Rightarrow> bool" where "s_eq a b = c_streq a b"

text \<open>Every destination has room for \<open>mx\<close> bytes.\<close>

definition s_copy :: "bytes \<Rightarrow> bytes \<Rightarrow> nat \<Rightarrow> bytes" where
  "s_copy dst src mx = (case c_strcpy dst src mx of None \<Rightarrow> dst | Some d \<Rightarrow> d)"

definition find_inode :: "bytes \<Rightarrow> mfs4 \<Rightarrow> nat option" where
  "find_inode p s = find_slot (\<lambda>n. iused n \<noteq> 0 \<and> s_eq (path n) p) (inodes s)"

definition alloc_inode :: "mfs4 \<Rightarrow> nat option" where
  "alloc_inode s = find_slot (\<lambda>n. iused n = 0) (inodes s)"

definition upd_inode :: "nat \<Rightarrow> (inode \<Rightarrow> inode) \<Rightarrow> mfs4 \<Rightarrow> mfs4" where
  "upd_inode i g s = s\<lparr>inodes := (inodes s)[i := g (inodes s ! i)]\<rparr>"

text \<open>Filling in a free entry: type, number, path, target and times.\<close>

definition set_inode :: "u8 \<Rightarrow> u32 \<Rightarrow> bytes \<Rightarrow> bytes \<Rightarrow> u32 \<Rightarrow> u32 \<Rightarrow> inode \<Rightarrow> inode" where
  "set_inode ty num pa tg ct mt n = n\<lparr>iused := 1, itype := ty, inode_id := num,
     path := s_copy (path n) pa MFS4_PATH_LEN, target := s_copy (target n) tg MFS4_PATH_LEN,
     ictime := ct, imtime := mt\<rparr>"

definition new_inode :: "nat \<Rightarrow> u8 \<Rightarrow> bytes \<Rightarrow> bytes \<Rightarrow> u32 \<Rightarrow> u32 \<Rightarrow> mfs4 \<Rightarrow> mfs4" where
  "new_inode i ty pa tg ct mt s =
     upd_inode i (set_inode ty (next_inode_id s) pa tg ct mt) s\<lparr>next_inode_id := next_inode_id s + 1\<rparr>"

section \<open>The table on disk\<close>

definition encode_inode :: "inode \<Rightarrow> bytes" where
  "encode_inode n = [itype n, iused n] @ le_bytes 2 (ipad n) @ le_bytes 4 (inode_id n) @
     path n @ target n @ le_bytes 4 (ictime n) @ le_bytes 4 (imtime n)"

definition decode_inode :: "bytes \<Rightarrow> inode" where
  "decode_inode b = \<lparr>itype = b ! 0, iused = b ! 1, ipad = le_word (take 2 (drop 2 b)),
     inode_id = le_word (take 4 (drop 4 b)), path = take 64 (drop 8 b), target = take 64 (drop 72 b),
     ictime = le_word (take 4 (drop 136 b)), imtime = le_word (take 4 (drop 140 b))\<rparr>"

definition raw_table :: "inode list \<Rightarrow> bytes" where
  "raw_table ns = concat (map encode_inode ns)"

definition parse_table :: "bytes \<Rightarrow> inode list" where
  "parse_table raw = map (\<lambda>i. decode_inode (take 144 (drop (144 * i) raw))) [0..<MFS4_MAX_INODES]"

definition mfs4_magic :: bytes where "mfs4_magic = [0x4D, 0x46, 0x53, 0x34]"

definition mfs4_flush :: "mfs4 \<Rightarrow> mfs4" where
  "mfs4_flush s =
     (let d = dsk (mfs3 s); raw = raw_table (inodes s) in
      if \<not> ata_disk_present d then s
      else let d = ata_write_sector MFS4_LBA_META
                     (mfs4_magic @ le_bytes 4 (next_inode_id s) @ replicate 504 0) d;
               d = fold (\<lambda>k. ata_write_sector (MFS4_LBA_DATA + k) (take 512 (drop (k * 512) raw)))
                     [0..<MFS4_INODE_SECTS] d
           in s\<lparr>mfs3 := (mfs3 s)\<lparr>dsk := d\<rparr>\<rparr>)"

text \<open>Overwriting the table sector by sector; the loop stops when a sector cannot be read.\<close>

fun load_raw :: "disk \<Rightarrow> nat list \<Rightarrow> bytes \<Rightarrow> bool \<times> bytes" where
  "load_raw d [] raw = (True, raw)"
| "load_raw d (k # ks) raw =
     (case ata_read_sector (MFS4_LBA_DATA + k) d of
        None \<Rightarrow> (False, raw)
      | Some buf \<Rightarrow> load_raw d ks (take (k * 512) raw @ take 512 buf @ drop (k * 512 + 512) raw))"

definition mfs4_load :: "mfs4 \<Rightarrow> int \<times> mfs4" where
  "mfs4_load s =
     (let d = dsk (mfs3 s) in
      if \<not> ata_disk_present d then (-1, s)
      else case ata_read_sector MFS4_LBA_META d of
        None \<Rightarrow> (-1, s)
      | Some buf \<Rightarrow>
          if take 4 buf \<noteq> mfs4_magic then (-1, s)
          else let (ok, raw) = load_raw d [0..<MFS4_INODE_SECTS] (raw_table (inodes s));
                   s = s\<lparr>next_inode_id := le_word (take 4 (drop 4 buf)), inodes := parse_table raw\<rparr>
               in (if ok then 0 else -1, s))"

definition fs_flush :: "mfs4 \<Rightarrow> (int \<times> mfs4) option" where
  "fs_flush s =
     (if \<not> ata_disk_present (dsk (mfs3 s)) then Some (0, s)
      else do {
        (count, f) \<leftarrow> fold (\<lambda>i acc. do {
            (count, f) \<leftarrow> acc;
            if fused (files f ! i) \<noteq> 0 \<and> fdirty (files f ! i) \<noteq> 0 \<and> ftmpfs (files f ! i) = 0
            then do { f \<leftarrow> fs_disk_save i f; Some (count + 1, f) }
            else Some (count, f)
          }) [0..<FS_MAX_FILES] (Some (0, mfs3 s));
        Some (count, mfs4_flush (s\<lparr>mfs3 := f\<rparr>))
      })"

section \<open>Operations\<close>

text \<open>One entry of the scan in \<open>mfs4_init\<close>; \<open>None\<close> ends the scan.\<close>

fun scan_files :: "fs_file list \<Rightarrow> mfs4 \<Rightarrow> mfs4" where
  "scan_files [] s = s"
| "scan_files (f # fs) s =
     (if fused f = 0 then scan_files fs s
      else case alloc_inode s of
        None \<Rightarrow> s
      | Some i \<Rightarrow> scan_files fs
          (new_inode i (if is_dir f then MFS4_TYPE_DIR else MFS4_TYPE_FILE) (fname f) (fname f)
            (fctime f) (fmtime f) s))"

definition mfs4_init :: "mfs4 \<Rightarrow> mfs4" where
  "mfs4_init s =
     (let s = s\<lparr>inodes := map (\<lambda>n. n\<lparr>iused := 0\<rparr>) (inodes s), next_inode_id := 1\<rparr>;
          (r, s) = mfs4_load s
      in if r = 0 then s else scan_files (files (mfs3 s)) s)"

text \<open>\<open>resolved\<close> holds a C string of at most 63 characters; the result is that string.\<close>

fun resolve_loop :: "nat \<Rightarrow> bytes \<Rightarrow> mfs4 \<Rightarrow> bytes" where
  "resolve_loop 0 r s = []"
| "resolve_loop (Suc d) r s =
     (case find_inode r s of
        None \<Rightarrow> r
      | Some i \<Rightarrow> if itype (inodes s ! i) \<noteq> MFS4_TYPE_SYMLINK then r
                  else resolve_loop d (take (MFS4_PATH_LEN - 1) (cstr (target (inodes s ! i)))) s)"

definition mfs4_resolve :: "bytes \<Rightarrow> nat \<Rightarrow> mfs4 \<Rightarrow> bytes" where
  "mfs4_resolve p max_depth s = resolve_loop max_depth (take (MFS4_PATH_LEN - 1) (cstr p)) s"

definition mfs4_symlink :: "bytes \<Rightarrow> bytes \<Rightarrow> u32 \<Rightarrow> mfs4 \<Rightarrow> int \<times> mfs4" where
  "mfs4_symlink link_path target_path tick s =
     (if find_inode link_path s \<noteq> None then (-1, s)
      else case alloc_inode s of
        None \<Rightarrow> (-1, s)
      | Some i \<Rightarrow> (0, new_inode i MFS4_TYPE_SYMLINK link_path target_path tick tick s))"

definition mfs4_hardlink :: "bytes \<Rightarrow> bytes \<Rightarrow> u32 \<Rightarrow> mfs4 \<Rightarrow> int \<times> mfs4" where
  "mfs4_hardlink link_path original_path tick s =
     (if find_inode link_path s \<noteq> None then (-1, s)
      else case find_inode original_path s of
        None \<Rightarrow> (-1, s)
      | Some orig \<Rightarrow>
          if itype (inodes s ! orig) \<noteq> MFS4_TYPE_FILE then (-1, s)
          else case alloc_inode s of
            None \<Rightarrow> (-1, s)
          | Some i \<Rightarrow> (0, upd_inode i (set_inode MFS4_TYPE_FILE (inode_id (inodes s ! orig)) link_path
                            (target (inodes s ! orig)) tick tick) s))"

definition mfs4_mkdir :: "bytes \<Rightarrow> u32 \<Rightarrow> mfs4 \<Rightarrow> (int \<times> mfs4) option" where
  "mfs4_mkdir p tick s =
     (if cstr p = [] then Some (-1, s)
      else if find_inode p s \<noteq> None then Some (-1, s)
      else do {
        (r, f) \<leftarrow> fs_mkdir p tick (mfs3 s);
        Some (let s = s\<lparr>mfs3 := f\<rparr> in
          case alloc_inode s of
            None \<Rightarrow> (-1, s)
          | Some i \<Rightarrow> (0, new_inode i MFS4_TYPE_DIR p p tick tick s))
      })"

definition mfs4_stat :: "bytes \<Rightarrow> mfs4 \<Rightarrow> mfs4_stat option" where
  "mfs4_stat p s =
     (case find_inode (mfs4_resolve p 8 s) s of
        None \<Rightarrow> None
      | Some i \<Rightarrow>
          let n = inodes s ! i;
              out = \<lparr>st_type = itype n, st_size = 0, st_ctime = ictime n, st_mtime = imtime n, st_perms = 0\<rparr>
          in Some (if itype n = MFS4_TYPE_FILE
               then out\<lparr>st_size := (case fs_read_bin (target n) (mfs3 s) of None \<Rightarrow> 0 | Some (sz, _) \<Rightarrow> sz),
                        st_perms := fs_get_perms (target n) (mfs3 s)\<rparr>
               else if itype n = MFS4_TYPE_DIR then out\<lparr>st_perms := FS_PERM_DIR OR FS_PERM_READ\<rparr>
               else out))"

text \<open>The name under which an entry appears in a listing of \<open>dir\<close>, if it is a direct child.\<close>

definition child_name :: "bytes \<Rightarrow> bytes \<Rightarrow> bytes option" where
  "child_name dir p =
     (let d = cstr dir; q = cstr p; n = length d in
      if n = 0 then (if slash \<in> set q then None else Some q)
      else if length q > n + 1 \<and> q ! n = slash \<and> take n q = d \<and> slash \<notin> set (drop (n + 1) q)
           then Some (drop (n + 1) q) else None)"

fun list_children :: "bytes \<Rightarrow> int \<Rightarrow> inode list \<Rightarrow> int \<Rightarrow> bytes \<Rightarrow> int \<times> bytes" where
  "list_children dir bufsz [] count out = (count, out)"
| "list_children dir bufsz (n # ns) count out =
     (if iused n = 0 then list_children dir bufsz ns count out
      else case child_name dir (path n) of
        None \<Rightarrow> list_children dir bufsz ns count out
      | Some nm \<Rightarrow>
          if int (length out) + int (length nm) + 2 \<ge> bufsz then (count, out)
          else list_children dir bufsz ns (count + 1)
                 (out @ nm @ (if itype n = MFS4_TYPE_DIR then [slash] else []) @ [10]))"

definition mfs4_listdir :: "bytes \<Rightarrow> int \<Rightarrow> mfs4 \<Rightarrow> int \<times> bytes" where
  "mfs4_listdir dir bufsz s =
     (let (count, out) = list_children dir bufsz (inodes s) 0 []
      in (count, if int (length out) < bufsz then out @ [0] else out))"

definition link_count :: "u32 \<Rightarrow> mfs4 \<Rightarrow> nat" where
  "link_count num s =
     length (filter (\<lambda>n. iused n \<noteq> 0 \<and> itype n = MFS4_TYPE_FILE \<and> inode_id n = num) (inodes s))"

definition mfs4_unlink :: "bytes \<Rightarrow> mfs4 \<Rightarrow> (int \<times> mfs4) option" where
  "mfs4_unlink p s =
     (case find_inode p s of
        None \<Rightarrow> Some (-1, s)
      | Some i \<Rightarrow>
          let n = inodes s ! i in do {
            s \<leftarrow> (if itype n = MFS4_TYPE_FILE \<and> link_count (inode_id n) s \<le> 1
                 then do { (r, f) \<leftarrow> fs_delete (target n) (mfs3 s); Some (s\<lparr>mfs3 := f\<rparr>) }
                 else Some s);
            Some (0, upd_inode i (\<lambda>n. n\<lparr>iused := 0\<rparr>) s)
          })"

definition mfs4_register :: "bytes \<Rightarrow> u8 \<Rightarrow> u32 \<Rightarrow> mfs4 \<Rightarrow> int \<times> mfs4" where
  "mfs4_register p ty tick s =
     (if cstr p = [] then (-1, s)
      else if find_inode p s \<noteq> None then (0, s)
      else case alloc_inode s of
        None \<Rightarrow> (-1, s)
      | Some i \<Rightarrow> (0, new_inode i ty p p tick tick s))"

definition mfs4_rename :: "bytes \<Rightarrow> bytes \<Rightarrow> u32 \<Rightarrow> mfs4 \<Rightarrow> (int \<times> mfs4) option" where
  "mfs4_rename old_path new_path tick s =
     (case find_inode old_path s of
        None \<Rightarrow> Some (-1, s)
      | Some i \<Rightarrow>
          if find_inode new_path s \<noteq> None then Some (-1, s)
          else let n = inodes s ! i; finish = (\<lambda>s. (0, upd_inode i (\<lambda>n. n\<lparr>path :=
                 s_copy (path n) new_path MFS4_PATH_LEN, imtime := tick\<rparr>) s))
          in if itype n \<noteq> MFS4_TYPE_FILE then Some (finish s)
             else do {
               (r, f) \<leftarrow> fs_rename (target n) new_path tick (mfs3 s);
               Some (if r \<noteq> 0 then (-1, s\<lparr>mfs3 := f\<rparr>)
                     else finish (s\<lparr>mfs3 := f, inodes := map (\<lambda>m.
                       if iused m \<noteq> 0 \<and> itype m = MFS4_TYPE_FILE \<and> inode_id m = inode_id n
                       then m\<lparr>target := s_copy (target m) new_path MFS4_PATH_LEN\<rparr> else m) (inodes s)\<rparr>))
             })"

section \<open>Round trip of the table\<close>

definition inodes_wf :: "inode list \<Rightarrow> bool" where
  "inodes_wf ns \<longleftrightarrow> length ns = MFS4_MAX_INODES \<and>
     list_all (\<lambda>n. length (path n) = MFS4_PATH_LEN \<and> length (target n) = MFS4_PATH_LEN) ns"

lemma decode_encode_inode:
  assumes "length (path n) = MFS4_PATH_LEN" "length (target n) = MFS4_PATH_LEN"
  shows "decode_inode (encode_inode n) = n" "length (encode_inode n) = 144"
proof -
  have "length (path n) = 64" "length (target n) = 64" using assms by (simp_all add: MFS4_PATH_LEN_def)
  then show "decode_inode (encode_inode n) = n" "length (encode_inode n) = 144"
    by (simp_all add: decode_inode_def encode_inode_def nth_Cons')
qed

lemma take_drop_concat:
  assumes "\<forall>x\<in>set xs. length x = m" "i < length xs"
  shows "take m (drop (m * i) (concat xs)) = xs ! i"
  using assms
proof (induction xs arbitrary: i)
  case (Cons x xs)
  then show ?case by (cases i) (auto simp: add.commute)
qed simp

lemma parse_raw_table:
  assumes "inodes_wf ns"
  shows "parse_table (raw_table ns) = ns" "length (raw_table ns) = MFS4_INODE_BYTES"
proof -
  have ok: "\<forall>n\<in>set ns. length (path n) = MFS4_PATH_LEN \<and> length (target n) = MFS4_PATH_LEN"
    and len: "length ns = MFS4_MAX_INODES" using assms by (auto simp: inodes_wf_def list_all_iff)
  have l: "\<forall>x\<in>set (map encode_inode ns). length x = 144" using ok decode_encode_inode(2) by auto
  have "parse_table (raw_table ns) ! i = ns ! i" if "i < MFS4_MAX_INODES" for i
    using take_drop_concat [OF l, of i] that len ok decode_encode_inode(1)
    by (simp add: parse_table_def raw_table_def)
  then show "parse_table (raw_table ns) = ns"
    using len by (intro nth_equalityI) (simp_all add: parse_table_def)
  have "map length (map encode_inode ns) = replicate (length ns) 144"
    using l by (intro nth_equalityI) auto
  then have "length (raw_table ns) = sum_list (replicate (length ns) 144)"
    by (simp add: raw_table_def length_concat)
  then show "length (raw_table ns) = MFS4_INODE_BYTES"
    using len by (simp add: MFS4_INODE_BYTES_def sum_list_replicate)
qed

lemma sects_36: "MFS4_INODE_SECTS = 36" "MFS4_INODE_BYTES = 36 * 512"
  by (simp_all add: MFS4_INODE_SECTS_def MFS4_INODE_BYTES_def MFS4_MAX_INODES_def)

definition mfs4_area :: "nat set" where
  "mfs4_area = {MFS4_LBA_META} \<union> (+) MFS4_LBA_DATA ` {0..<MFS4_INODE_SECTS}"

lemma mfs4_flush_sectors:
  assumes "\<forall>l\<in>mfs4_area. ata_access l (dsk (mfs3 s))"
  shows "sectors (dsk (mfs3 (mfs4_flush s))) MFS4_LBA_META = mfs4_magic @ le_bytes 4 (next_inode_id s) @ replicate 504 0"
    "k < MFS4_INODE_SECTS \<Longrightarrow> sectors (dsk (mfs3 (mfs4_flush s))) (MFS4_LBA_DATA + k) = take 512 (drop (k * 512) (raw_table (inodes s)))"
    "ata_access l (dsk (mfs3 (mfs4_flush s))) = ata_access l (dsk (mfs3 s))"
    "inodes (mfs4_flush s) = inodes s" "next_inode_id (mfs4_flush s) = next_inode_id s"
proof -
  let ?w = "\<lambda>k. take 512 (drop (k * 512) (raw_table (inodes s)))"
  let ?d = "ata_write_sector MFS4_LBA_META (mfs4_magic @ le_bytes 4 (next_inode_id s) @ replicate 504 0) (dsk (mfs3 s))"
  have acc: "ata_access MFS4_LBA_META (dsk (mfs3 s))" "\<And>k. k < MFS4_INODE_SECTS \<Longrightarrow> ata_access (MFS4_LBA_DATA + k) (dsk (mfs3 s))"
    using assms by (auto simp: mfs4_area_def)
  then have "ata_disk_present (dsk (mfs3 s))" by (simp add: ata_access_def ata_disk_present_def)
  then have d: "dsk (mfs3 (mfs4_flush s)) =
      fold (\<lambda>k. ata_write_sector (MFS4_LBA_DATA + k) (?w k)) [0..<MFS4_INODE_SECTS] ?d"
    by (simp add: mfs4_flush_def Let_def)
  have "MFS4_LBA_META \<notin> (+) MFS4_LBA_DATA ` set [0..<MFS4_INODE_SECTS]"
    by (auto simp: MFS4_LBA_META_def MFS4_LBA_DATA_def)
  from fold_write_other [OF this] acc(1)
  show "sectors (dsk (mfs3 (mfs4_flush s))) MFS4_LBA_META = mfs4_magic @ le_bytes 4 (next_inode_id s) @ replicate 504 0"
    by (simp add: d sectors_write)
  show "sectors (dsk (mfs3 (mfs4_flush s))) (MFS4_LBA_DATA + k) = ?w k" if "k < MFS4_INODE_SECTS"
    using fold_write_hit [of k "[0..<MFS4_INODE_SECTS]" "(+) MFS4_LBA_DATA" ?d ?w] acc(2) [OF that] that by (simp add: d)
  show "ata_access l (dsk (mfs3 (mfs4_flush s))) = ata_access l (dsk (mfs3 s))" by (simp add: d)
  show "inodes (mfs4_flush s) = inodes s" "next_inode_id (mfs4_flush s) = next_inode_id s"
    by (simp_all add: mfs4_flush_def Let_def)
qed

lemma load_raw_all:
  assumes "\<forall>k<MFS4_INODE_SECTS. ata_access (MFS4_LBA_DATA + k) d"
    "\<forall>k<MFS4_INODE_SECTS. sectors d (MFS4_LBA_DATA + k) = take 512 (drop (k * 512) raw')"
    "length raw = MFS4_INODE_BYTES" "length raw' = MFS4_INODE_BYTES" "n \<le> MFS4_INODE_SECTS"
  shows "load_raw d [0..<n] raw = (True, take (n * 512) raw' @ drop (n * 512) raw)"
proof -
  have ap: "load_raw d (ks @ [k]) raw = (let (ok, r) = load_raw d ks raw in
      (ok, take (k * 512) r @ take 512 (sectors d (MFS4_LBA_DATA + k)) @ drop (k * 512 + 512) r))"
    if "\<forall>k\<in>set (ks @ [k]). k < MFS4_INODE_SECTS" for ks k raw
    using that assms(1) by (induction ks arbitrary: raw) (auto simp: ata_read_sector_def)
  show ?thesis
    using assms(5)
  proof (induction n)
    case (Suc n)
    then have n: "n < 36" by (simp add: sects_36)
    have "take (n * 512) raw' @ take 512 (drop (n * 512) raw') = take (Suc n * 512) raw'"
      using take_add [of "n * 512" 512 raw'] by (simp add: add.commute)
    moreover have "take (n * 512) (take (n * 512) raw' @ drop (n * 512) raw) = take (n * 512) raw'"
      "drop (n * 512 + 512) (take (n * 512) raw' @ drop (n * 512) raw) = drop (Suc n * 512) raw"
      using assms(3,4) n by (simp_all add: sects_36 add.commute)
    moreover have "n * 512 \<le> length raw'" using assms(4) n by (simp add: sects_36)
    ultimately show ?case
      using Suc ap [of "[0..<n]" n raw] assms(2) by (simp add: Let_def min_absorb2)
  qed simp
qed

text \<open>
  The inode table survives a reboot. After \<open>mfs4_flush\<close> to a drive that answers for its
  sectors, \<open>mfs4_load\<close> from that disk, into whatever table, succeeds and gives the same 128 entries
  and the same next number.
\<close>

theorem mfs4_flush_load:
  assumes "inodes_wf (inodes s)" "\<forall>l\<in>mfs4_area. ata_access l (dsk (mfs3 s))"
    "inodes_wf (inodes s2)" "dsk (mfs3 s2) = dsk (mfs3 (mfs4_flush s))"
  shows "mfs4_load s2 = (0, s2\<lparr>inodes := inodes s, next_inode_id := next_inode_id s\<rparr>)"
proof -
  let ?d = "dsk (mfs3 s2)" and ?raw = "raw_table (inodes s)"
  note f = mfs4_flush_sectors [OF assms(2)]
  have acc: "ata_access MFS4_LBA_META ?d" "\<forall>k<MFS4_INODE_SECTS. ata_access (MFS4_LBA_DATA + k) ?d"
    using assms(2,4) f(3) by (auto simp: mfs4_area_def)
  have "load_raw ?d [0..<MFS4_INODE_SECTS] (raw_table (inodes s2)) =
      (True, take (MFS4_INODE_SECTS * 512) ?raw @ drop (MFS4_INODE_SECTS * 512) (raw_table (inodes s2)))"
    using assms(1,3,4) f(2) acc(2) parse_raw_table(2) by (intro load_raw_all) auto
  also have "\<dots> = (True, ?raw)" using parse_raw_table(2) [OF assms(1)] parse_raw_table(2) [OF assms(3)] by (simp add: sects_36)
  finally have l: "load_raw ?d [0..<MFS4_INODE_SECTS] (raw_table (inodes s2)) = (True, ?raw)" .
  have m: "ata_read_sector MFS4_LBA_META ?d = Some (mfs4_magic @ le_bytes 4 (next_inode_id s) @ replicate 504 0)"
    using acc(1) f(1) assms(4) by (simp add: ata_read_sector_def)
  have "ata_disk_present ?d" using acc(1) by (simp add: ata_access_def ata_disk_present_def)
  with m l parse_raw_table(1) [OF assms(1)] show ?thesis
    by (simp add: mfs4_load_def Let_def mfs4_magic_def)
qed

text \<open>
  Flushing the inode table destroys files. The sectors of the table lie inside the slots of
  MFS3: the fourth of them is the header of slot 4. After \<open>mfs4_flush\<close>, as long as the target of
  inode 10 is shorter than 60 characters, that header says that the slot is free, so the file that
  was saved there is not loaded at the next boot.
\<close>

theorem mfs4_flush_loses_file:
  assumes "inodes_wf (inodes s)" "\<forall>l\<in>mfs4_area. ata_access l (dsk (mfs3 s))" "target (inodes s ! 10) ! 60 = 0"
    "dsk f = dsk (mfs3 (mfs4_flush s))"
  shows "fs_hdr_sector 4 \<in> mfs4_area \<and> sectors (dsk f) (fs_hdr_sector 4) ! 36 = 0 \<and>
    fs_load_slot 4 f = Some (upd_file 4 (\<lambda>f. f\<lparr>fused := 0\<rparr>) f)"
proof -
  have h: "fs_hdr_sector 4 = MFS4_LBA_DATA + 3"
    by (simp add: fs_hdr_sector_def FS_SECTORS_PER_FILE_def FS_DATA_SECS_def FS_MAX_DATA_def MFS4_LBA_DATA_def)
  then have a: "fs_hdr_sector 4 \<in> mfs4_area" by (auto simp: mfs4_area_def sects_36)
  let ?raw = "raw_table (inodes s)"
  have len: "length ?raw = 18432" using parse_raw_table(2) [OF assms(1)] by (simp add: sects_36)
  have "sectors (dsk f) (fs_hdr_sector 4) = take 512 (drop (3 * 512) ?raw)"
    using mfs4_flush_sectors(2) [OF assms(2), of 3] h assms(4) by (simp add: sects_36)
  then have "sectors (dsk f) (fs_hdr_sector 4) ! 36 = ?raw ! 1572" using len by simp
  also have "?raw ! 1572 = take 144 (drop (144 * 10) ?raw) ! 132" using len by simp
  also have "take 144 (drop (144 * 10) ?raw) = encode_inode (inodes s ! 10)"
    using take_drop_concat [of "map encode_inode (inodes s)" 144 10] assms(1) decode_encode_inode(2)
    by (auto simp: raw_table_def inodes_wf_def list_all_iff MFS4_MAX_INODES_def)
  also have "encode_inode (inodes s ! 10) ! 132 = target (inodes s ! 10) ! 60"
    using assms(1) by (simp add: encode_inode_def inodes_wf_def list_all_length MFS4_MAX_INODES_def MFS4_PATH_LEN_def nth_append nth_Cons')
  finally have z: "sectors (dsk f) (fs_hdr_sector 4) ! 36 = 0" using assms(3) by simp
  have "ata_read_sector (fs_hdr_sector 4) (dsk f) = Some (sectors (dsk f) (fs_hdr_sector 4))"
    using a assms(2,4) mfs4_flush_sectors(3) [OF assms(2)] by (simp add: ata_read_sector_def)
  with a z show ?thesis by (simp add: fs_load_slot_def)
qed

section \<open>Following links\<close>

text \<open>One step: the target of the symbolic link with this path.\<close>

definition follow :: "mfs4 \<Rightarrow> bytes \<Rightarrow> bytes option" where
  "follow s r = (case find_inode r s of
     None \<Rightarrow> None
   | Some i \<Rightarrow> if itype (inodes s ! i) = MFS4_TYPE_SYMLINK
               then Some (take (MFS4_PATH_LEN - 1) (cstr (target (inodes s ! i)))) else None)"

text \<open>The path after \<open>n\<close> links, if there are that many.\<close>

fun chain :: "mfs4 \<Rightarrow> nat \<Rightarrow> bytes \<Rightarrow> bytes option" where
  "chain s 0 r = Some r"
| "chain s (Suc n) r = (case follow s r of None \<Rightarrow> None | Some r' \<Rightarrow> chain s n r')"

lemma resolve_loop_follow:
  "resolve_loop (Suc d) r s = (case follow s r of None \<Rightarrow> r | Some r' \<Rightarrow> resolve_loop d r' s)"
  by (simp add: follow_def split: option.splits)

lemma resolve_loop_chain:
  "n < d \<Longrightarrow> chain s n r = Some e \<Longrightarrow> follow s e = None \<Longrightarrow> resolve_loop d r s = e"
  by (induction n arbitrary: d r)
    (auto simp: resolve_loop_follow gr0_conv_Suc less_Suc_eq_0_disj Suc_less_eq2 split: option.splits simp del: resolve_loop.simps)

lemma resolve_loop_long: "chain s d r \<noteq> None \<Longrightarrow> resolve_loop d r s = []"
  by (induction d arbitrary: r) (auto simp: resolve_loop_follow simp del: resolve_loop.simps(2) split: option.splits)

lemma chain_ends: "chain s d r = None \<Longrightarrow> \<exists>n<d. \<exists>e. chain s n r = Some e \<and> follow s e = None"
proof (induction d arbitrary: r)
  case (Suc d)
  show ?case
  proof (cases "follow s r")
    case None
    then show ?thesis by (intro exI [of _ 0]) simp
  next
    case (Some r')
    with Suc.prems Suc.IH [of r'] obtain n e where "n < d" "chain s n r' = Some e" "follow s e = None"
      by (simp, blast)
    with Some show ?thesis by (intro exI [of _ "Suc n"]) simp
  qed
qed simp


section \<open>Paths are keys\<close>

definition paths_unique :: "mfs4 \<Rightarrow> bool" where
  "paths_unique s \<longleftrightarrow> inodes_wf (inodes s) \<and>
     (\<forall>i<MFS4_MAX_INODES. \<forall>j<MFS4_MAX_INODES. iused (inodes s ! i) \<noteq> 0 \<longrightarrow> iused (inodes s ! j) \<noteq> 0 \<longrightarrow>
        cstr (path (inodes s ! i)) = cstr (path (inodes s ! j)) \<longrightarrow> i = j)"

definition short_path :: "bytes \<Rightarrow> bool" where
  "short_path p \<longleftrightarrow> length (cstr p) < MFS4_PATH_LEN"

lemma s_copy_path:
  assumes "length dst = MFS4_PATH_LEN"
  shows "length (s_copy dst src MFS4_PATH_LEN) = MFS4_PATH_LEN"
    "short_path src \<Longrightarrow> cstr (s_copy dst src MFS4_PATH_LEN) = cstr src"
proof -
  obtain d where d: "c_strcpy dst src MFS4_PATH_LEN = Some d"
    using c_strcpy_total [of MFS4_PATH_LEN dst src] assms by (auto simp: MFS4_PATH_LEN_def)
  then show "length (s_copy dst src MFS4_PATH_LEN) = MFS4_PATH_LEN"
    using c_strcpy_length [OF d] assms by (simp add: s_copy_def)
  show "cstr (s_copy dst src MFS4_PATH_LEN) = cstr src" if "short_path src"
    using c_strcpy_cstr [OF d] that d by (simp add: s_copy_def short_path_def MFS4_PATH_LEN_def)
qed

lemma find_inode_None:
  "find_inode p s = None \<longleftrightarrow> (\<forall>n\<in>set (inodes s). iused n \<noteq> 0 \<longrightarrow> cstr (path n) \<noteq> cstr p)"
  by (auto simp: find_inode_def find_slot_None_iff s_eq_def c_streq_iff)

text \<open>Changing one entry whose path, if it is used, is new.\<close>

lemma paths_unique_upd:
  assumes "paths_unique s" "i < MFS4_MAX_INODES" "length (path n) = MFS4_PATH_LEN" "length (target n) = MFS4_PATH_LEN"
    "iused n \<noteq> 0 \<Longrightarrow> (\<forall>j<MFS4_MAX_INODES. j \<noteq> i \<longrightarrow> iused (inodes s ! j) \<noteq> 0 \<longrightarrow> cstr (path (inodes s ! j)) \<noteq> cstr (path n))"
    "inodes s' = (inodes s)[i := n]"
  shows "paths_unique s'"
  using assms by (auto simp: paths_unique_def inodes_wf_def list_all_length nth_list_update; metis)

lemma paths_unique_cong: "inodes s' = inodes s \<Longrightarrow> paths_unique s' = paths_unique s"
  by (simp add: paths_unique_def)

lemma paths_unique_new:
  assumes "paths_unique s" "find_inode p s = None" "short_path p" "alloc_inode s = Some i"
    "inodes s' = (inodes s)[i := set_inode ty num p tg ct mt (inodes s ! i)]"
  shows "paths_unique s'"
proof -
  have i: "i < MFS4_MAX_INODES" "i < length (inodes s)"
    using find_slot_SomeD(1) [OF assms(4) [unfolded alloc_inode_def]] assms(1) by (auto simp: paths_unique_def inodes_wf_def)
  then have l: "length (path (inodes s ! i)) = MFS4_PATH_LEN" "length (target (inodes s ! i)) = MFS4_PATH_LEN"
    using assms(1) by (auto simp: paths_unique_def inodes_wf_def list_all_length)
  show ?thesis
    using assms(2) i l s_copy_path(2) [OF l(1) assms(3)] assms(1)
    by (intro paths_unique_upd [OF assms(1) i(1) _ _ _ assms(5)])
      (auto simp: set_inode_def s_copy_path(1) find_inode_None paths_unique_def inodes_wf_def)
qed

inductive mfs4_step :: "mfs4 \<Rightarrow> mfs4 \<Rightarrow> bool" where
  symlink: "short_path p \<Longrightarrow> mfs4_step s (snd (mfs4_symlink p tg tick s))"
| hardlink: "short_path p \<Longrightarrow> mfs4_step s (snd (mfs4_hardlink p orig tick s))"
| mkdir: "short_path p \<Longrightarrow> mfs4_mkdir p tick s = Some (r, s') \<Longrightarrow> mfs4_step s s'"
| register: "short_path p \<Longrightarrow> mfs4_step s (snd (mfs4_register p ty tick s))"
| unlink: "mfs4_unlink p s = Some (r, s') \<Longrightarrow> mfs4_step s s'"
| rename: "short_path p \<Longrightarrow> mfs4_rename old_path p tick s = Some (r, s') \<Longrightarrow> mfs4_step s s'"

lemma paths_unique_rename:
  assumes "paths_unique s" "short_path p" "mfs4_rename old_path p tick s = Some (r, s')"
  shows "paths_unique s'"
proof -
  have retarget: "paths_unique (s\<lparr>mfs3 := f, inodes := map (\<lambda>m. if Q m then m\<lparr>target := s_copy (target m) p MFS4_PATH_LEN\<rparr> else m) (inodes s)\<rparr>)" for f Q
    using assms(1) by (auto simp: paths_unique_def inodes_wf_def list_all_length s_copy_path(1))
  have fin: "paths_unique (upd_inode i (\<lambda>n. n\<lparr>path := s_copy (path n) p MFS4_PATH_LEN, imtime := tick\<rparr>) s1)"
    if "paths_unique s1" "i < MFS4_MAX_INODES" "\<forall>j<MFS4_MAX_INODES. iused (inodes s1 ! j) \<noteq> 0 \<longrightarrow> cstr (path (inodes s1 ! j)) \<noteq> cstr p" for i s1
  proof -
    have l: "length (path (inodes s1 ! i)) = MFS4_PATH_LEN" "length (target (inodes s1 ! i)) = MFS4_PATH_LEN"
      using that(1,2) by (auto simp: paths_unique_def inodes_wf_def list_all_length)
    show ?thesis
      using that(3) l s_copy_path [OF l(1), of p] assms(2)
      by (intro paths_unique_upd [OF that(1,2)]) (auto simp: upd_inode_def)
  qed
  show ?thesis
  proof (cases "find_inode old_path s")
    case (Some i)
    have len: "length (inodes s) = MFS4_MAX_INODES" using assms(1) by (simp add: paths_unique_def inodes_wf_def)
    have i: "i < MFS4_MAX_INODES" using find_slot_SomeD(1) [OF Some [unfolded find_inode_def]] len by simp
    show ?thesis
    proof (cases "find_inode p s")
      case None
      then have new: "\<forall>j<MFS4_MAX_INODES. iused (inodes s ! j) \<noteq> 0 \<longrightarrow> cstr (path (inodes s ! j)) \<noteq> cstr p"
        using len by (auto simp: find_inode_None)
      from assms(3) Some None consider
          "s' = upd_inode i (\<lambda>n. n\<lparr>path := s_copy (path n) p MFS4_PATH_LEN, imtime := tick\<rparr>) s"
        | f where "s' = s\<lparr>mfs3 := f\<rparr>"
        | f where "s' = upd_inode i (\<lambda>n. n\<lparr>path := s_copy (path n) p MFS4_PATH_LEN, imtime := tick\<rparr>)
            (s\<lparr>mfs3 := f, inodes := map (\<lambda>m. if iused m \<noteq> 0 \<and> itype m = MFS4_TYPE_FILE \<and> inode_id m = inode_id (inodes s ! i)
               then m\<lparr>target := s_copy (target m) p MFS4_PATH_LEN\<rparr> else m) (inodes s)\<rparr>)"
        by (auto simp: mfs4_rename_def Let_def bind_eq_Some_conv split: if_splits)
      then show ?thesis
      proof cases
        case 1
        with fin [OF assms(1) i new] show ?thesis by simp
      next
        case 2
        with assms(1) paths_unique_cong [of s' s] show ?thesis by simp
      next
        case 3
        show ?thesis unfolding 3 by (rule fin [OF retarget i]) (use new len in auto)
      qed
    qed (use assms Some in \<open>auto simp: mfs4_rename_def\<close>)
  qed (use assms in \<open>auto simp: mfs4_rename_def\<close>)
qed

lemma paths_unique_unlink:
  assumes "paths_unique s" "mfs4_unlink p s = Some (r, s')"
  shows "paths_unique s'"
proof (cases "find_inode p s")
  case (Some i)
  then obtain f where s': "inodes s' = (inodes s)[i := (inodes s ! i)\<lparr>iused := 0\<rparr>]"
    using assms(2) by (auto simp: mfs4_unlink_def Let_def bind_eq_Some_conv upd_inode_def split: if_splits)
  have "i < MFS4_MAX_INODES" "i < length (inodes s)"
    using find_slot_SomeD(1) [OF Some [unfolded find_inode_def]] assms(1) by (auto simp: paths_unique_def inodes_wf_def)
  then show ?thesis
    using assms(1) by (intro paths_unique_upd [OF assms(1) _ _ _ _ s']) (auto simp: paths_unique_def inodes_wf_def list_all_length)
qed (use assms in \<open>simp add: mfs4_unlink_def\<close>)

lemma paths_unique_step: "mfs4_step s s' \<Longrightarrow> paths_unique s \<Longrightarrow> paths_unique s'"
proof (induction rule: mfs4_step.induct)
  case (symlink p s tg tick)
  then show ?case
    by (auto simp: mfs4_symlink_def new_inode_def upd_inode_def split: option.splits intro: paths_unique_new)
next
  case (hardlink p s orig tick)
  then show ?case
    by (auto simp: mfs4_hardlink_def upd_inode_def split: option.splits intro: paths_unique_new)
next
  case (mkdir p tick s r s')
  show ?case
  proof (cases "cstr p = [] \<or> find_inode p s \<noteq> None")
    case True
    with mkdir show ?thesis by (auto simp: mfs4_mkdir_def split: if_splits)
  next
    case False
    then obtain f where f: "s' = s\<lparr>mfs3 := f\<rparr> \<or> (\<exists>i. alloc_inode (s\<lparr>mfs3 := f\<rparr>) = Some i \<and>
        s' = new_inode i MFS4_TYPE_DIR p p tick tick (s\<lparr>mfs3 := f\<rparr>))"
      using mkdir(2) by (auto simp: mfs4_mkdir_def Let_def bind_eq_Some_conv split: option.splits)
    let ?s = "s\<lparr>mfs3 := f\<rparr>"
    have "paths_unique ?s" "find_inode p ?s = None"
      using mkdir(3) False by (auto simp: paths_unique_def find_inode_def)
    with f mkdir(1) paths_unique_new [of ?s p _ s'] show ?thesis
      by (auto simp: new_inode_def upd_inode_def)
  qed
next
  case (register p s ty tick)
  then show ?case
    by (auto simp: mfs4_register_def new_inode_def upd_inode_def split: option.splits intro: paths_unique_new)
qed (auto intro: paths_unique_unlink paths_unique_rename)

text \<open>
  C20. Paths identify inodes. Starting from a table in which they do, after any sequence of links,
  directory creations, registrations, renamings and removals with paths of fewer than 64
  characters, no two entries in use have the same path, and looking up the path of an entry in use
  finds exactly this entry.
\<close>

theorem mfs4_paths_unique:
  assumes "mfs4_step\<^sup>*\<^sup>* s s'" "paths_unique s" "i < MFS4_MAX_INODES" "iused (inodes s' ! i) \<noteq> 0"
  shows "paths_unique s' \<and> find_inode (path (inodes s' ! i)) s' = Some i"
proof -
  from assms(1,2) have u: "paths_unique s'" by (induction rule: rtranclp_induct) (auto intro: paths_unique_step)
  then have "find_inode (path (inodes s' ! i)) s' = Some i"
    using assms(3,4) unfolding find_inode_def find_slot_Some_iff
    by (auto simp: paths_unique_def inodes_wf_def s_eq_def c_streq_iff) (metis less_irrefl less_trans)
  with u show ?thesis by blast
qed

section \<open>Concrete tables\<close>

definition empty_inode :: inode where
  "empty_inode = \<lparr>itype = 0, iused = 0, ipad = 0, inode_id = 0, path = replicate 64 0, target = replicate 64 0,
     ictime = 0, imtime = 0\<rparr>"

definition empty_mfs4 :: "disk \<Rightarrow> mfs4" where
  "empty_mfs4 dk = \<lparr>inodes = replicate MFS4_MAX_INODES empty_inode, next_inode_id = 1, mfs3 = empty_fs dk\<rparr>"

lemma empty_mfs4_wf: "inodes_wf (inodes (empty_mfs4 dk))" "paths_unique (empty_mfs4 dk)"
  by (auto simp: inodes_wf_def paths_unique_def empty_mfs4_def empty_inode_def list_all_length MFS4_PATH_LEN_def)

lemma new_disk_mfs4: "\<forall>l\<in>mfs4_area. ata_access l (dsk (mfs3 (empty_mfs4 new_disk)))"
  by (auto simp: mfs4_area_def ata_access_def new_disk_def ATA_LBA28_MAX_def MFS4_LBA_META_def MFS4_LBA_DATA_def
      sects_36 empty_mfs4_def empty_fs_def)

theorem mfs4_flush_load_witness:
  "mfs4_load ((mfs4_flush (empty_mfs4 new_disk))\<lparr>next_inode_id := 7\<rparr>) = (0, mfs4_flush (empty_mfs4 new_disk))"
proof -
  let ?s = "empty_mfs4 new_disk" and ?s2 = "(mfs4_flush (empty_mfs4 new_disk))\<lparr>next_inode_id := 7\<rparr>"
  have "inodes (mfs4_flush ?s) = inodes ?s" "next_inode_id (mfs4_flush ?s) = next_inode_id ?s"
    using mfs4_flush_sectors(4,5) [OF new_disk_mfs4] by simp_all
  with mfs4_flush_load [OF empty_mfs4_wf(1) new_disk_mfs4, of ?s2] empty_mfs4_wf(1) [of new_disk] show ?thesis
    by (cases "mfs4_flush ?s") simp
qed

theorem mfs4_flush_loses_file_witness:
  "sectors (dsk (mfs3 (mfs4_flush (empty_mfs4 new_disk)))) 517 ! 36 = 0"
proof -
  have "target (inodes (empty_mfs4 new_disk) ! 10) ! 60 = 0"
    by (simp add: empty_mfs4_def empty_inode_def MFS4_MAX_INODES_def)
  from mfs4_flush_loses_file [OF empty_mfs4_wf(1) new_disk_mfs4 this refl] show ?thesis
    by (simp add: fs_hdr_sector_def FS_SECTORS_PER_FILE_def FS_DATA_SECS_def FS_MAX_DATA_def)
qed

theorem mfs4_paths_unique_witness:
  "let s = snd (mfs4_symlink [97] [98] 0 (empty_mfs4 no_disk)) in find_inode (path (inodes s ! 0)) s = Some 0"
proof -
  let ?s = "snd (mfs4_symlink [97] [98] 0 (empty_mfs4 no_disk))"
  have "mfs4_step\<^sup>*\<^sup>* (empty_mfs4 no_disk) ?s"
    by (intro r_into_rtranclp symlink) (simp add: short_path_def MFS4_PATH_LEN_def cstr_Cons)
  moreover have "alloc_inode (empty_mfs4 no_disk) = Some 0" "find_inode [97] (empty_mfs4 no_disk) = None"
    by (simp_all add: alloc_inode_def find_slot_replicate find_inode_None empty_mfs4_def empty_inode_def MFS4_MAX_INODES_def)
  then have "iused (inodes ?s ! 0) \<noteq> 0"
    by (simp add: mfs4_symlink_def new_inode_def upd_inode_def set_inode_def empty_mfs4_def MFS4_MAX_INODES_def)
  ultimately show ?thesis
    using mfs4_paths_unique [OF _ empty_mfs4_wf(2), of no_disk ?s 0] by (simp add: MFS4_MAX_INODES_def)
qed

end
