(* ===== verification/Keyboard.thy ===== *)
theory Keyboard
  imports Task
begin

text \<open>
  The keyboard driver, \<open>src/kernel/keyboard.c\<close>: a ring of 64 characters that the interrupt handler
  fills and the readers empty, the state of the modifier keys, the task that waits for a character
  and the foreground task that Control-C interrupts. The scan code is an argument of the handler
  (the port read is outside the model); switching to another virtual terminal, which the handler
  delegates to \<open>vt_switch\<close>, is reported as its result.
\<close>

unbundle bit_operations_syntax

section \<open>State and operations\<close>

definition KEY_BUFFER_SIZE :: nat where "KEY_BUFFER_SIZE = 64"

definition KEY_UP :: u8 where "KEY_UP = 0x01"
definition KEY_DOWN :: u8 where "KEY_DOWN = 0x02"
definition KEY_TAB :: u8 where "KEY_TAB = 0x03"
definition KEY_LEFT :: u8 where "KEY_LEFT = 0x04"
definition KEY_RIGHT :: u8 where "KEY_RIGHT = 0x05"
definition KEY_DELETE :: u8 where "KEY_DELETE = 0x06"
definition KEY_F1 :: u8 where "KEY_F1 = 0x10"

record kbd =
  key_buffer :: bytes
  key_head :: nat
  key_tail :: nat
  extended :: bool
  shift_pressed :: bool
  ctrl_pressed :: bool
  alt_pressed :: bool
  capslock_on :: bool
  fg_task_pid :: int
  kwaiter :: int

definition key_push :: "u8 \<Rightarrow> kbd \<Rightarrow> kbd" where
  "key_push c k =
     (let nxt = (key_tail k + 1) mod KEY_BUFFER_SIZE
      in if nxt \<noteq> key_head k
         then k\<lparr>key_buffer := (key_buffer k)[key_tail k := c], key_tail := nxt\<rparr> else k)"

definition keyboard_getchar :: "kbd \<Rightarrow> u8 \<times> kbd" where
  "keyboard_getchar k =
     (if key_head k = key_tail k then (0, k)
      else (key_buffer k ! key_head k, k\<lparr>key_head := (key_head k + 1) mod KEY_BUFFER_SIZE\<rparr>))"

definition scancode_table :: bytes where
  "scancode_table = [0, 0] @ bstr ''1234567890-='' @ [0, 0] @ bstr ''qwertyuiop[]'' @ [0, 0] @
     bstr ''asdfghjkl;'' @ [39, 96, 0, 92] @ bstr ''zxcvbnm,./'' @ [0, 42, 0, 32]"

definition scancode_shift_table :: bytes where
  "scancode_shift_table = [0, 0] @ bstr ''!@#$%^&*()_+'' @ [0, 0] @ bstr ''QWERTYUIOP{}'' @ [0, 0] @
     bstr ''ASDFGHJKL:'' @ [34, 126, 0, 124] @ bstr ''ZXCVBNM<>?'' @ [0, 42, 0, 32]"

definition keyboard_has_char :: "kbd \<Rightarrow> bool" where
  "keyboard_has_char k \<longleftrightarrow> key_head k \<noteq> key_tail k"

definition keyboard_set_waiter :: "int \<Rightarrow> kbd \<Rightarrow> kbd" where
  "keyboard_set_waiter tid k = k\<lparr>kwaiter := tid\<rparr>"

definition keyboard_set_fg_pid :: "int \<Rightarrow> kbd \<Rightarrow> kbd" where
  "keyboard_set_fg_pid pid k = k\<lparr>fg_task_pid := pid\<rparr>"

text \<open>Waking the task that waits for a character.\<close>

definition kbd_wake :: "kbd \<times> task_state \<Rightarrow> kbd \<times> task_state" where
  "kbd_wake kt = (case kt of (k, ts) \<Rightarrow>
     (k\<lparr>kwaiter := -1\<rparr>, if kwaiter k \<ge> 0 then task_unblock (kwaiter k) ts else ts))"

definition lower_case :: "u8 \<Rightarrow> bool" where "lower_case c \<longleftrightarrow> 97 \<le> c \<and> c \<le> 122"
definition upper_case :: "u8 \<Rightarrow> bool" where "upper_case c \<longleftrightarrow> 65 \<le> c \<and> c \<le> 90"

text \<open>The character of a key that is in the tables, before control codes.\<close>

definition key_char :: "u8 \<Rightarrow> kbd \<Rightarrow> u8" where
  "key_char sc k =
     (let c = (if shift_pressed k then scancode_shift_table else scancode_table) ! unat sc
      in if c \<noteq> 0 \<and> capslock_on k
         then (if lower_case c then c - 32 else if upper_case c then c + 32 else c) else c)"

definition control_code :: "u8 \<Rightarrow> kbd \<Rightarrow> u8" where
  "control_code c k =
     (if c \<noteq> 0 \<and> ctrl_pressed k
      then (if lower_case c then c - 97 + 1 else if upper_case c then c - 65 + 1 else c) else c)"

definition push_extended :: "u8 \<Rightarrow> kbd \<Rightarrow> kbd" where
  "push_extended sc k =
     (if sc = 0x48 then key_push KEY_UP k
      else if sc = 0x50 then key_push KEY_DOWN k
      else if sc = 0x4B then key_push KEY_LEFT k
      else if sc = 0x4D then key_push KEY_RIGHT k
      else if sc = 0x53 then key_push KEY_DELETE k
      else if sc = 0x9D then k\<lparr>ctrl_pressed := False\<rparr>
      else k)"

text \<open>The keys at the end of the handler: backspace, enter, escape and the tables.\<close>

definition push_plain :: "u8 \<Rightarrow> kbd \<Rightarrow> task_state \<Rightarrow> kbd \<times> task_state" where
  "push_plain sc k ts =
     (if sc = 0x0E then kbd_wake (key_push 8 k, ts)
      else if sc = 0x1C then kbd_wake (key_push 10 k, ts)
      else if sc = 0x01 then kbd_wake (key_push 0x1B k, ts)
      else if unat sc < length scancode_table then
        let c = key_char sc k in
        if ctrl_pressed k \<and> sc = 0x2E then
          (if fg_task_pid k \<ge> 0 then (k\<lparr>fg_task_pid := -1\<rparr>, task_send_signal (fg_task_pid k) 2 ts) else (k, ts))
        else let c = control_code c k in kbd_wake (if c \<noteq> 0 then key_push c k else k, ts)
      else kbd_wake (k, ts))"

definition keyboard_handler :: "u8 \<Rightarrow> kbd \<Rightarrow> task_state \<Rightarrow> int option \<times> kbd \<times> task_state" where
  "keyboard_handler sc k ts =
     (if sc = 0xE0 then (None, k\<lparr>extended := True\<rparr>, ts)
      else if sc = 0xAA \<or> sc = 0xB6 then (None, k\<lparr>shift_pressed := False, extended := False\<rparr>, ts)
      else if sc = 0x9D then (None, k\<lparr>ctrl_pressed := False, extended := False\<rparr>, ts)
      else if sc = 0xB8 then (None, k\<lparr>alt_pressed := False, extended := False\<rparr>, ts)
      else if sc AND 0x80 \<noteq> 0 then (None, k\<lparr>extended := False\<rparr>, ts)
      else if sc = 0x2A \<or> sc = 0x36 then (None, k\<lparr>shift_pressed := True\<rparr>, ts)
      else if sc = 0x1D then (None, k\<lparr>ctrl_pressed := True\<rparr>, ts)
      else if sc = 0x38 then (None, k\<lparr>alt_pressed := True\<rparr>, ts)
      else if sc = 0x3A then (None, k\<lparr>capslock_on := \<not> capslock_on k\<rparr>, ts)
      else if extended k then (None, push_extended sc (k\<lparr>extended := False\<rparr>), ts)
      else if sc = 0x0F then (None, kbd_wake (key_push KEY_TAB k, ts))
      else if 0x3B \<le> sc \<and> sc \<le> 0x44 then
        (if ctrl_pressed k \<and> alt_pressed k \<and> uint sc - 0x3B < 6 then (Some (uint sc - 0x3B), k, ts)
         else (None, kbd_wake (key_push (KEY_F1 + (sc - 0x3B)) k, ts)))
      else (None, push_plain sc k ts))"

text \<open>One round of the loop of \<open>keyboard_getchar_block\<close>: a character, or the processor is given up.\<close>

definition getchar_block_pass :: "kbd \<Rightarrow> task_state \<Rightarrow> u8 option \<times> kbd \<times> task_state" where
  "getchar_block_pass k ts =
     (let (c, k) = keyboard_getchar k
      in if c \<noteq> 0 then (Some c, k, ts) else (None, k, task_yield ts))"

section \<open>The buffer is a queue\<close>

definition kbd_inv :: "kbd \<Rightarrow> bool" where
  "kbd_inv k \<longleftrightarrow> length (key_buffer k) = KEY_BUFFER_SIZE \<and> key_head k < KEY_BUFFER_SIZE \<and> key_tail k < KEY_BUFFER_SIZE"

definition typed :: "kbd \<Rightarrow> bytes" where
  "typed k = ring_list (key_buffer k) (key_head k) (key_tail k)"

definition kbd_enq :: "u8 \<Rightarrow> kbd \<Rightarrow> kbd option" where
  "kbd_enq c k = (if (key_tail k + 1) mod KEY_BUFFER_SIZE = key_head k then None else Some (key_push c k))"

definition kbd_deq :: "kbd \<Rightarrow> (u8 \<times> kbd) option" where
  "kbd_deq k = (if keyboard_has_char k then Some (keyboard_getchar k) else None)"

interpretation key_ring: bounded_queue kbd_enq kbd_deq typed kbd_inv "KEY_BUFFER_SIZE - 1" "\<lambda>_. True"
proof (unfold_locales, goal_cases)
  case (1 q x q')
  then have ne: "(key_tail q + 1) mod length (key_buffer q) \<noteq> key_head q"
    by (auto simp: kbd_enq_def kbd_inv_def split: if_splits)
  with 1 ring_list_push [of "key_head q" "key_buffer q" "key_tail q" x] show ?case
    by (auto simp: kbd_enq_def kbd_inv_def typed_def key_push_def Let_def KEY_BUFFER_SIZE_def split: if_splits)
next
  case (2 q x)
  then show ?case
    using ring_full_iff [of "key_head q" KEY_BUFFER_SIZE "key_tail q"] by (auto simp: kbd_enq_def kbd_inv_def typed_def)
next
  case (3 q x q')
  then have "key_head q \<noteq> key_tail q" by (auto simp: kbd_deq_def keyboard_has_char_def split: if_splits)
  with 3 ring_list_pop [of "key_head q" "key_buffer q" "key_tail q"] show ?case
    by (auto simp: kbd_deq_def keyboard_has_char_def keyboard_getchar_def kbd_inv_def typed_def KEY_BUFFER_SIZE_def)
next
  case (4 q)
  then show ?case
    using ring_list_Nil_iff [of "key_head q" "key_buffer q" "key_tail q"]
    by (auto simp: kbd_deq_def keyboard_has_char_def kbd_inv_def typed_def)
next
  case (5 q)
  then have "ring_len KEY_BUFFER_SIZE (key_head q) (key_tail q) < KEY_BUFFER_SIZE"
    by (intro ring_len_less) (simp add: KEY_BUFFER_SIZE_def)
  with 5 show ?case by (simp add: kbd_inv_def typed_def)
qed

lemma key_push_spec:
  assumes "kbd_inv k"
  shows "kbd_inv (key_push c k) \<and>
    typed (key_push c k) = (if length (typed k) < KEY_BUFFER_SIZE - 1 then typed k @ [c] else typed k)"
proof (cases "kbd_enq c k")
  case None
  then have "key_push c k = k" by (auto simp: kbd_enq_def key_push_def split: if_splits)
  with assms key_ring.enq_None [OF assms, of c] None show ?thesis by auto
next
  case (Some k')
  then have "k' = key_push c k" by (auto simp: kbd_enq_def split: if_splits)
  with key_ring.enq_Some [OF assms _ Some] key_ring.within [OF assms] key_ring.enq_None [OF assms, of c] Some
  show ?thesis by auto
qed

lemma getchar_spec:
  assumes "kbd_inv k" "typed k = x # xs"
  shows "fst (keyboard_getchar k) = x \<and> typed (snd (keyboard_getchar k)) = xs"
proof -
  have "kbd_deq k \<noteq> None" using assms key_ring.deq_None [OF assms(1)] by simp
  then have "kbd_deq k = Some (keyboard_getchar k)" by (auto simp: kbd_deq_def split: if_splits)
  with key_ring.deq_Some [OF assms(1), of "fst (keyboard_getchar k)" "snd (keyboard_getchar k)"] assms(2)
  show ?thesis by simp
qed

section \<open>What a key press does\<close>

text \<open>The keys that produce a character when no prefix, Control or Caps Lock is involved.\<close>

definition plain_key :: "u8 \<Rightarrow> bool" where
  "plain_key sc \<longleftrightarrow> unat sc < length scancode_table \<and> scancode_table ! unat sc \<noteq> 0"

lemma plain_key_code:
  assumes "plain_key sc"
  shows "sc \<notin> set [0xE0, 0xAA, 0xB6, 0x9D, 0xB8, 0x2A, 0x36, 0x1D, 0x38, 0x3A, 0x0F, 0x0E, 0x1C, 0x01]"
    "sc AND 0x80 = 0" "\<not> 0x3B \<le> sc" "unat sc < length scancode_table" "scancode_shift_table ! unat sc \<noteq> 0"
proof -
  have *: "list_all (\<lambda>n. scancode_table ! n \<noteq> 0 \<longrightarrow>
      (of_nat n :: u8) \<notin> set [0xE0, 0xAA, 0xB6, 0x9D, 0xB8, 0x2A, 0x36, 0x1D, 0x38, 0x3A, 0x0F, 0x0E, 0x1C, 0x01] \<and>
      (of_nat n :: u8) AND 0x80 = 0 \<and> \<not> 0x3B \<le> (of_nat n :: u8) \<and> scancode_shift_table ! n \<noteq> 0)
    [0..<length scancode_table]"
    by code_simp
  from assms have "unat sc < length scancode_table" "scancode_table ! unat sc \<noteq> 0" by (simp_all add: plain_key_def)
  with * have "(of_nat (unat sc) :: u8) \<notin> set [0xE0, 0xAA, 0xB6, 0x9D, 0xB8, 0x2A, 0x36, 0x1D, 0x38, 0x3A, 0x0F, 0x0E, 0x1C, 0x01] \<and>
      (of_nat (unat sc) :: u8) AND 0x80 = 0 \<and> \<not> 0x3B \<le> (of_nat (unat sc) :: u8) \<and> scancode_shift_table ! unat sc \<noteq> 0"
    unfolding list_all_iff by (metis atLeast0LessThan atLeast_upt lessThan_iff)
  with assms show
    "sc \<notin> set [0xE0, 0xAA, 0xB6, 0x9D, 0xB8, 0x2A, 0x36, 0x1D, 0x38, 0x3A, 0x0F, 0x0E, 0x1C, 0x01]"
    "sc AND 0x80 = 0" "\<not> 0x3B \<le> sc" "unat sc < length scancode_table" "scancode_shift_table ! unat sc \<noteq> 0"
    by (simp_all add: plain_key_def)
qed

lemma keyboard_handler_plain:
  assumes "plain_key sc" "\<not> extended k" "\<not> ctrl_pressed k" "\<not> capslock_on k"
  shows "keyboard_handler sc k ts =
    (None, kbd_wake (key_push ((if shift_pressed k then scancode_shift_table else scancode_table) ! unat sc) k, ts))"
  using plain_key_code [OF assms(1)] assms
  by (auto simp: keyboard_handler_def push_plain_def key_char_def control_code_def plain_key_def Let_def)

lemma key_push_flags [simp]:
  "shift_pressed (key_push c k) = shift_pressed k" "kwaiter (key_push c k) = kwaiter k"
  by (simp_all add: key_push_def Let_def)

lemma kwaiter_upd_inv [simp]: "kbd_inv (k\<lparr>kwaiter := t\<rparr>) = kbd_inv k" "typed (k\<lparr>kwaiter := t\<rparr>) = typed k"
  by (simp_all add: kbd_inv_def typed_def)

text \<open>
  C24. Typing. Pressing a key of the tables, with neither a prefix nor Control nor Caps Lock, appends
  its character (the shifted one while Shift is down) to what the readers will get, in the order
  typed and dropped only when 63 characters are waiting, and wakes the task that waits for a
  character; no modifier changes. \<open>keyboard_getchar\<close> then delivers the oldest character.
\<close>

theorem keyboard_types:
  assumes "kbd_inv k" "plain_key sc" "\<not> extended k" "\<not> ctrl_pressed k" "\<not> capslock_on k"
    "keyboard_handler sc k ts = (v, k', ts')"
    "c = (if shift_pressed k then scancode_shift_table else scancode_table) ! unat sc"
  shows "v = None \<and> kbd_inv k' \<and>
    typed k' = (if length (typed k) < KEY_BUFFER_SIZE - 1 then typed k @ [c] else typed k) \<and>
    kwaiter k' = -1 \<and> ts' = (if kwaiter k \<ge> 0 then task_unblock (kwaiter k) ts else ts) \<and>
    shift_pressed k' = shift_pressed k \<and>
    (\<forall>x xs. typed k' = x # xs \<longrightarrow> fst (keyboard_getchar k') = x \<and> typed (snd (keyboard_getchar k')) = xs)"
proof -
  have k': "v = None" "k' = (key_push c k)\<lparr>kwaiter := -1\<rparr>"
    "ts' = (if kwaiter k \<ge> 0 then task_unblock (kwaiter k) ts else ts)"
    using assms(6,7) keyboard_handler_plain [OF assms(2-5)] by (auto simp: kbd_wake_def)
  with key_push_spec [OF assms(1), of c] have "kbd_inv k'" by simp
  with k' key_push_spec [OF assms(1), of c] getchar_spec [of k'] show ?thesis by simp
qed

definition kbd_start :: kbd where
  "kbd_start = \<lparr>key_buffer = replicate KEY_BUFFER_SIZE 0, key_head = 0, key_tail = 0, extended = False,
     shift_pressed = False, ctrl_pressed = False, alt_pressed = False, capslock_on = False,
     fg_task_pid = -1, kwaiter = -1\<rparr>"

lemma kbd_start_inv: "kbd_inv kbd_start" "typed kbd_start = []"
  by (simp_all add: kbd_start_def kbd_inv_def typed_def ring_list_def ring_len_def KEY_BUFFER_SIZE_def)

theorem keyboard_types_witness:
  "\<forall>ts. let k' = fst (snd (keyboard_handler 0x1E kbd_start ts)) in
     typed k' = [97] \<and> fst (keyboard_getchar k') = 97 \<and> typed (snd (keyboard_getchar k')) = []"
proof
  fix ts
  have p: "plain_key 0x1E" "scancode_table ! 30 = 97" by code_simp+
  have st: "\<not> extended kbd_start" "\<not> ctrl_pressed kbd_start" "\<not> capslock_on kbd_start" "\<not> shift_pressed kbd_start"
    by (simp_all add: kbd_start_def)
  obtain v k' ts' where h: "keyboard_handler 0x1E kbd_start ts = (v, k', ts')" by (metis prod_cases3)
  show "let k' = fst (snd (keyboard_handler 0x1E kbd_start ts)) in
     typed k' = [97] \<and> fst (keyboard_getchar k') = 97 \<and> typed (snd (keyboard_getchar k')) = []"
    using keyboard_types [OF kbd_start_inv(1) p(1) st(1-3) h refl] st(4) p(2) kbd_start_inv(2) h
    by (simp add: KEY_BUFFER_SIZE_def)
qed

text \<open>
  Right Control swallows the next key. The driver leaves the prefix flag set when the extended
  code of the right Control key arrives, so the key pressed while it is held is taken for an
  extended one: Control-C with the right Control key neither signals the foreground task nor
  reaches a reader, and a letter is lost, whatever the state, while the left Control key delivers
  signal 2 to the foreground task.
\<close>

theorem right_ctrl_swallows:
  assumes "fg_task_pid k \<ge> 0" "\<not> extended k"
  shows "let press = \<lambda>sc (k, ts). snd (keyboard_handler sc k ts) in
      press 0x2E (press 0x1D (press 0xE0 (k, ts))) = (k\<lparr>ctrl_pressed := True\<rparr>, ts) \<and>
      press 0x2E (press 0x1D (k, ts)) =
        (k\<lparr>ctrl_pressed := True, fg_task_pid := -1\<rparr>, task_send_signal (fg_task_pid k) 2 ts)"
proof -
  have n: "length scancode_table = 58" by code_simp
  show ?thesis using assms
    by (simp add: keyboard_handler_def push_extended_def push_plain_def n Let_def)
qed

theorem right_ctrl_swallows_witness:
  "\<forall>ts. let k = kbd_start\<lparr>fg_task_pid := 3\<rparr>; press = \<lambda>sc (k, ts). snd (keyboard_handler sc k ts) in
     press 0x2E (press 0x1D (press 0xE0 (k, ts))) = (k\<lparr>ctrl_pressed := True\<rparr>, ts)"
  using right_ctrl_swallows [of "kbd_start\<lparr>fg_task_pid := 3\<rparr>"] by (simp add: kbd_start_def Let_def)

end
