(* ===== verification/Procfs.thy ===== *)
theory Procfs
  imports Keyboard Pipe Fs Pmm
begin

text \<open>
  The kernel log of \<open>src/kernel/serial.c\<close> (\<open>dmesg_log\<close>, \<open>dmesg_read\<close>), the state of the virtual
  file system and the generator of the files under \<open>/proc\<close>, \<open>proc_generate\<close> of
  \<open>src/kernel/vfs.c\<close>.

  The state joins the components the descriptors lead to: pipes, tasks, keyboard, files, frames.
  The network stack is a state of its own type \<open>'n\<close>, whose operations are an argument of the
  calls that need them (theory \<open>Vfs\<close>). The union inside \<open>VfsFd\<close> has one field per member here:
  every reader tests the type first, and every operation that sets the type sets the members that
  this type reads.
\<close>

unbundle bit_operations_syntax

section \<open>The kernel log\<close>

definition DMESG_BUF_SIZE :: nat where "DMESG_BUF_SIZE = 4096"

record dmesg =
  dmesg_buf :: bytes
  dmesg_head :: nat
  dmesg_len :: nat

definition dmesg_put :: "u8 \<Rightarrow> dmesg \<Rightarrow> dmesg" where
  "dmesg_put c d = d\<lparr>dmesg_buf := (dmesg_buf d)[dmesg_head d := c],
     dmesg_head := (dmesg_head d + 1) mod DMESG_BUF_SIZE,
     dmesg_len := (if dmesg_len d < DMESG_BUF_SIZE - 1 then dmesg_len d + 1 else dmesg_len d)\<rparr>"

definition dmesg_log :: "bytes \<Rightarrow> dmesg \<Rightarrow> dmesg" where
  "dmesg_log s d = fold dmesg_put (cstr s) d"

text \<open>What is stored in the caller's buffer before the terminating NUL; the result is its length.\<close>

definition dmesg_read :: "int \<Rightarrow> dmesg \<Rightarrow> bytes" where
  "dmesg_read maxlen d =
     (if maxlen \<le> 0 then []
      else let to_copy = (if int (dmesg_len d) \<ge> maxlen then nat (maxlen - 1) else dmesg_len d);
               start = (dmesg_head d + DMESG_BUF_SIZE * 2 - dmesg_len d) mod DMESG_BUF_SIZE
           in map (\<lambda>i. dmesg_buf d ! ((start + i) mod DMESG_BUF_SIZE)) [0..<to_copy])"

section \<open>Descriptors and the state of the virtual file system\<close>

definition VFS_MAX_FD :: nat where "VFS_MAX_FD = 32"
definition VFS_TTY_MAX :: nat where "VFS_TTY_MAX = 4"

datatype fd_type = VFS_TYPE_NONE | VFS_TYPE_STDIN | VFS_TYPE_STDOUT | VFS_TYPE_FILE | VFS_TYPE_PIPE
  | VFS_TYPE_NET | VFS_TYPE_TTY | VFS_TYPE_PROC | VFS_TYPE_DEV

definition VFS_DEV_NULL :: u32 where "VFS_DEV_NULL = 0"
definition VFS_DEV_ZERO :: u32 where "VFS_DEV_ZERO = 1"

definition VFS_O_RDONLY :: u8 where "VFS_O_RDONLY = 1"
definition VFS_O_WRONLY :: u8 where "VFS_O_WRONLY = 2"
definition VFS_O_RDWR :: u8 where "VFS_O_RDWR = 3"
definition VFS_O_CREATE :: u32 where "VFS_O_CREATE = 4"
definition VFS_O_NONBLOCK :: u8 where "VFS_O_NONBLOCK = 8"
definition VFS_EAGAIN :: int where "VFS_EAGAIN = -11"

record vfs_fd =
  fd_type :: fd_type
  fd_used :: bool
  fd_flags :: u8
  fd_offset :: u32
  fd_name :: bytes
  fd_pipe_id :: int
  fd_pipe_end :: int
  fd_net_conn :: int
  fd_tty_id :: int

record tty_slot =
  tty_used :: bool
  tty_pipe_id :: int

record 'n vfs =
  fd_table :: "vfs_fd list list"
  tty_slots :: "tty_slot list"
  proc_buf :: bytes
  vpipes :: pipe_table
  vtasks :: task_state
  vkbd :: kbd
  vfiles :: fs_state
  vframes :: bitmap
  klog :: dmesg
  cpu_count :: int
  smp_ap_started :: u32
  screen :: "bytes list"
  vnet :: 'n

abbreviation the_fd :: "'n vfs \<Rightarrow> nat \<Rightarrow> nat \<Rightarrow> vfs_fd" where
  "the_fd s t j \<equiv> fd_table s ! t ! j"

section \<open>Generating a file of \<open>/proc\<close>\<close>

definition PROC_BUF_SIZE :: nat where "PROC_BUF_SIZE = 2048"

text \<open>Both helpers append to what is in the buffer and stop when one byte is left.\<close>

definition proc_puts :: "bytes \<Rightarrow> bytes \<Rightarrow> bytes" where
  "proc_puts str out = out @ take (PROC_BUF_SIZE - 1 - length out) (cstr str)"

fun digits_rev :: "nat \<Rightarrow> bytes" where
  "digits_rev n = (if n = 0 then [] else word_of_nat (48 + n mod 10) # digits_rev (n div 10))"

definition proc_putn :: "u32 \<Rightarrow> bytes \<Rightarrow> bytes" where
  "proc_putn n out =
     (if n = 0 then proc_puts (bstr ''0'') out
      else out @ take (PROC_BUF_SIZE - 1 - length out) (rev (digits_rev (unat n))))"

text \<open>The calls that a branch of \<open>proc_generate\<close> makes, in order; \<open>Raw\<close> is the copy loop of the log.\<close>

datatype proc_call = Puts bytes | Putn u32 | Raw bytes

fun proc_do :: "proc_call \<Rightarrow> bytes \<Rightarrow> bytes" where
  "proc_do (Puts str) out = proc_puts str out"
| "proc_do (Putn n) out = proc_putn n out"
| "proc_do (Raw bs) out = out @ take (PROC_BUF_SIZE - 1 - length out) bs"

definition used_tids :: "task_state \<Rightarrow> nat list" where
  "used_tids ts = filter (\<lambda>i. task_is_used (int i) ts) [0..<MAX_TASKS]"

definition newline :: bytes where "newline = [10]"
definition tab :: bytes where "tab = [9]"

definition proc_ps_line :: "task_state \<Rightarrow> nat \<Rightarrow> proc_call list" where
  "proc_ps_line ts i =
     [Putn (word_of_nat i),
      Puts (bstr (if i < 10 then ''   '' else if i < 100 then ''  '' else '' '')), Puts (bstr '' ''),
      Puts (bstr (if i = current_task ts then ''running   '' else ''blocked   '')),
      Puts (name (the_task ts i)), Puts newline]"

definition proc_ps :: "task_state \<Rightarrow> proc_call list" where
  "proc_ps ts =
     [Puts (bstr ''TID  STATUS    NAME'' @ newline),
      Puts (bstr ''---- --------- --------------------------------'' @ newline)] @
     concat (map (proc_ps_line ts) (used_tids ts))"

definition proc_meminfo :: "bitmap \<Rightarrow> proc_call list" where
  "proc_meminfo bm =
     (let free_frames = word_of_nat (pmm_free_count bm) :: u32;
          total_frames = 16384 - 768 :: u32;
          used_frames = (if total_frames > free_frames then total_frames - free_frames else 0)
      in [Puts (bstr ''MemTotal:  ''), Putn (total_frames * 4), Puts (bstr '' kB'' @ newline),
          Puts (bstr ''MemFree:   ''), Putn (free_frames * 4), Puts (bstr '' kB'' @ newline),
          Puts (bstr ''MemUsed:   ''), Putn (used_frames * 4), Puts (bstr '' kB'' @ newline),
          Puts (bstr ''PageSize:  4 kB'' @ newline)])"

definition proc_cpuinfo :: "int \<Rightarrow> u32 \<Rightarrow> proc_call list" where
  "proc_cpuinfo cpus aps =
     [Puts (bstr ''arch:    x86_64'' @ newline), Puts (bstr ''vendor:  Oria OS'' @ newline),
      Puts (bstr ''mode:    Long Mode (64-bit)'' @ newline),
      Puts (bstr ''cores:   ''), Putn (word_of_int cpus), Puts newline,
      Puts (bstr ''online:  ''), Putn (aps + 1), Puts newline]"

definition proc_status :: "task_state \<Rightarrow> nat \<Rightarrow> proc_call list" where
  "proc_status ts pid =
     (let st_name = (if pid = current_task ts then ''R (running)''
        else case status (the_task ts pid) of
          TASK_SLEEPING \<Rightarrow> ''S (sleeping)'' | TASK_BLOCKED \<Rightarrow> ''D (blocked)'' | TASK_RUNNING \<Rightarrow> ''R (ready)'')
      in [Puts (bstr ''Name:'' @ tab), Puts (name (the_task ts pid)), Puts newline,
          Puts (bstr ''Pid:'' @ tab), Putn (word_of_nat pid), Puts newline,
          Puts (bstr ''State:'' @ tab), Puts (bstr st_name), Puts newline,
          Puts (bstr ''PPid:'' @ tab), Putn (word_of_int (task_get_parent (int pid) ts)), Puts newline,
          Puts (bstr ''Priority:'' @ tab), Putn (word_of_int (task_get_priority (int pid) ts)), Puts newline])"

definition MM_USER_CODE_BASE :: u64 where "MM_USER_CODE_BASE = 0xC00000"

definition proc_maps :: "u64 \<Rightarrow> proc_call list" where
  "proc_maps heap =
     [Puts (bstr ''address            perm  region'' @ newline),
      Puts (bstr ''0000000000c00000   r-xp  [text]'' @ newline)] @
     (if heap > MM_USER_CODE_BASE
      then [Puts (bstr ''0000000000c00000   rw-p  [heap] size=''),
            Putn (ucast (heap - MM_USER_CODE_BASE)), Puts newline] else []) @
     [Puts (bstr ''0000000000f00000   rw-p  [stack]'' @ newline)]"

definition proc_fd_line :: "nat \<times> vfs_fd \<Rightarrow> proc_call list" where
  "proc_fd_line jf = (case jf of (j, f) \<Rightarrow>
     if \<not> fd_used f then []
     else [Putn (word_of_nat j), Puts (bstr '': '')] @
       (case fd_type f of
          VFS_TYPE_STDIN \<Rightarrow> [Puts (bstr ''stdin'')]
        | VFS_TYPE_STDOUT \<Rightarrow> [Puts (bstr ''stdout'')]
        | VFS_TYPE_FILE \<Rightarrow> [Puts (bstr ''file:''), Puts (fd_name f)]
        | VFS_TYPE_PIPE \<Rightarrow> [Puts (bstr ''pipe'')]
        | VFS_TYPE_NET \<Rightarrow> [Puts (bstr ''socket'')]
        | VFS_TYPE_TTY \<Rightarrow> [Puts (bstr ''tty'')]
        | VFS_TYPE_PROC \<Rightarrow> [Puts (bstr ''proc'')]
        | VFS_TYPE_DEV \<Rightarrow> [Puts (bstr ''dev'')]
        | VFS_TYPE_NONE \<Rightarrow> [Puts (bstr ''?'')]) @ [Puts newline])"

definition is_digit :: "u8 \<Rightarrow> bool" where "is_digit c \<longleftrightarrow> 48 \<le> c \<and> c \<le> 57"

text \<open>The process number; the accumulator is a 32-bit integer and wraps.\<close>

definition parse_pid :: "bytes \<Rightarrow> int \<times> bytes" where
  "parse_pid p =
     (sint (fold (\<lambda>c pid. pid * 10 + ucast (c - 48)) (takeWhile is_digit p) (0 :: u32)),
      dropWhile is_digit p)"

definition proc_pid :: "bytes \<Rightarrow> 'n vfs \<Rightarrow> proc_call list" where
  "proc_pid path s =
     (let (pid, p) = parse_pid path; p = (if take 1 p = [slash] then drop 1 p else p)
      in if \<not> task_is_used pid (vtasks s)
         then [Puts (bstr ''proc: PID tidak ada: ''), Putn (word_of_int pid), Puts newline]
         else if p = [] \<or> take 2 p = bstr ''st'' then proc_status (vtasks s) (nat pid)
         else if take 2 p = bstr ''ma'' then proc_maps (task_get_heap_end pid (vtasks s))
         else if take 2 p = bstr ''fd''
         then concat (map proc_fd_line (zip [0..<VFS_MAX_FD] (fd_table s ! nat pid)))
         else [Puts (bstr ''proc: sub-path tidak dikenal: ''), Puts p, Puts newline])"

definition proc_calls :: "bytes \<Rightarrow> 'n vfs \<Rightarrow> proc_call list" where
  "proc_calls path s =
     (let p = cstr path in
      if p = bstr ''ps'' then proc_ps (vtasks s)
      else if take 3 p = bstr ''mem'' then proc_meminfo (vframes s)
      else if take 1 p = bstr ''u'' then [Putn (tick (vtasks s) div 100), Puts (bstr '' seconds'' @ newline)]
      else if take 2 p = bstr ''cp'' then proc_cpuinfo (cpu_count s) (smp_ap_started s)
      else if take 2 p = bstr ''dm'' then [Raw (dmesg_read (int PROC_BUF_SIZE - 1) (klog s))]
      else if p = [] \<or> p = bstr ''.'' then
        [Puts (concat (map (\<lambda>e. bstr e @ newline) [''ps'', ''meminfo'', ''uptime'', ''cpuinfo'', ''dmesg'']))] @
        concat (map (\<lambda>i. [Putn (word_of_nat i), Puts newline]) (used_tids (vtasks s)))
      else if is_digit (hd p) then proc_pid p s
      else [Puts (bstr ''proc: unknown entry /proc/''), Puts p, Puts newline])"

definition proc_generate :: "bytes \<Rightarrow> 'n vfs \<Rightarrow> 'n vfs" where
  "proc_generate path s = s\<lparr>proc_buf := fold proc_do (proc_calls path s) []\<rparr>"

end
