(* ===== verification/Vfs.thy ===== *)
theory Vfs
  imports Procfs FsStore
begin

text \<open>
  The virtual file system, \<open>src/kernel/vfs.c\<close>: a table of 32 descriptors for each of the 32 tasks,
  over files, pipes, terminals, sockets, the keyboard, the screen and the generated files.

  Every operation returns \<open>None\<close> when the code would access memory outside of a buffer, overflow a
  signed integer, or not return; the caller's buffer is the list of its bytes, a read reports the
  bytes it stores from the start of the caller's buffer on. A read that has to wait ends with
  \<open>VBlocks\<close> or \<open>VRetries\<close>: the task is blocked (or has yielded) and continues with another pass of
  the same loop, \<open>stdin_pass\<close> or \<open>pipe_read_pass\<close>. The network stack is the argument \<open>net\<close>.
\<close>

unbundle bit_operations_syntax

section \<open>The operations\<close>

record 'n net_ops =
  net_present :: "'n \<Rightarrow> bool"
  net_tcp_connect :: "bytes \<Rightarrow> u16 \<Rightarrow> 'n \<Rightarrow> int \<times> 'n"
  net_tcp_close :: "int \<Rightarrow> 'n \<Rightarrow> 'n"
  net_tcp_recv :: "int \<Rightarrow> u16 \<Rightarrow> 'n \<Rightarrow> int \<times> bytes \<times> 'n"
  net_tcp_send :: "int \<Rightarrow> bytes \<Rightarrow> u16 \<Rightarrow> 'n \<Rightarrow> int \<times> 'n"

text \<open>The conversion to \<open>int16_t\<close>, and the range of \<open>int\<close>.\<close>

definition i16 :: "int \<Rightarrow> int" where "i16 x = sint (word_of_int x :: u16)"

definition int_ok :: "int \<Rightarrow> bool" where "int_ok x \<longleftrightarrow> -(2 ^ 31) \<le> x \<and> x < 2 ^ 31"

definition upd_fd :: "nat \<Rightarrow> nat \<Rightarrow> (vfs_fd \<Rightarrow> vfs_fd) \<Rightarrow> 'n vfs \<Rightarrow> 'n vfs" where
  "upd_fd t j g s = s\<lparr>fd_table := (fd_table s)[t := (fd_table s ! t)[j := g (the_fd s t j)]]\<rparr>"

definition valid_fd :: "int \<Rightarrow> bool" where "valid_fd fd \<longleftrightarrow> 0 \<le> fd \<and> fd < int VFS_MAX_FD"

definition free_fd :: "nat \<Rightarrow> 'n vfs \<Rightarrow> nat option" where
  "free_fd t s = find_slot_from 3 (\<lambda>f. \<not> fd_used f) (fd_table s ! t)"

definition vfs_init :: "'n vfs \<Rightarrow> 'n vfs" where
  "vfs_init s = s\<lparr>fd_table := map (map (\<lambda>f. f\<lparr>fd_used := False\<rparr>)) (fd_table s)\<rparr>"

definition vfs_init_task :: "int \<Rightarrow> 'n vfs \<Rightarrow> 'n vfs" where
  "vfs_init_task task_id s =
     (if \<not> valid_tid task_id then s
      else let t = nat task_id;
               s = s\<lparr>fd_table := (fd_table s)[t := map (\<lambda>f. f\<lparr>fd_used := False\<rparr>) (fd_table s ! t)]\<rparr>;
               s = upd_fd t 0 (\<lambda>f. f\<lparr>fd_used := True, fd_type := VFS_TYPE_STDIN, fd_flags := VFS_O_RDONLY\<rparr>) s;
               s = upd_fd t 1 (\<lambda>f. f\<lparr>fd_used := True, fd_type := VFS_TYPE_STDOUT, fd_flags := VFS_O_WRONLY\<rparr>) s
           in upd_fd t 2 (\<lambda>f. f\<lparr>fd_used := True, fd_type := VFS_TYPE_STDOUT, fd_flags := VFS_O_WRONLY\<rparr>) s)"

definition vfs_copy_fds :: "int \<Rightarrow> int \<Rightarrow> 'n vfs \<Rightarrow> 'n vfs" where
  "vfs_copy_fds src dst s =
     (if \<not> valid_tid src \<or> \<not> valid_tid dst then s
      else s\<lparr>fd_table := (fd_table s)[nat dst := fd_table s ! nat src]\<rparr>)"

text \<open>Closing the write end of a pipe, and a socket.\<close>

definition detach_writer :: "int \<Rightarrow> 'n vfs \<Rightarrow> 'n vfs option" where
  "detach_writer pid s =
     map_option (\<lambda>(ps, ts). s\<lparr>vpipes := ps, vtasks := ts\<rparr>) (pipe_writer_detach pid (vpipes s) (vtasks s))"

definition close_net :: "'n net_ops \<Rightarrow> vfs_fd \<Rightarrow> 'n vfs \<Rightarrow> 'n vfs" where
  "close_net net f s =
     (if fd_type f = VFS_TYPE_NET then s\<lparr>vnet := net_tcp_close net (fd_net_conn f) (vnet s)\<rparr> else s)"

definition close_writer :: "vfs_fd \<Rightarrow> 'n vfs \<Rightarrow> 'n vfs option" where
  "close_writer f s =
     (if fd_type f = VFS_TYPE_PIPE \<and> fd_pipe_end f = 1 then detach_writer (fd_pipe_id f) s else Some s)"

fun close_from :: "'n net_ops \<Rightarrow> nat \<Rightarrow> nat list \<Rightarrow> 'n vfs \<Rightarrow> 'n vfs option" where
  "close_from net t [] s = Some s"
| "close_from net t (j # js) s =
     (if fd_used (the_fd s t j)
      then do {
        s \<leftarrow> close_writer (the_fd s t j) (close_net net (the_fd s t j) s);
        close_from net t js (upd_fd t j (\<lambda>f. f\<lparr>fd_used := False\<rparr>) s)
      }
      else close_from net t js s)"

definition vfs_close_all :: "'n net_ops \<Rightarrow> int \<Rightarrow> 'n vfs \<Rightarrow> 'n vfs option" where
  "vfs_close_all net task_id s =
     (if \<not> valid_tid task_id then Some s else close_from net (nat task_id) [0..<VFS_MAX_FD] s)"

definition open_fd :: "fd_type \<Rightarrow> u8 \<Rightarrow> u32 \<Rightarrow> bytes \<Rightarrow> vfs_fd \<Rightarrow> vfs_fd" where
  "open_fd ty fl off nm f = f\<lparr>fd_used := True, fd_type := ty, fd_flags := fl, fd_offset := off,
     fd_name := str_copy_n (fd_name f) nm FS_MAX_NAME\<rparr>"

definition dev_sub :: "bytes \<Rightarrow> u32 option" where
  "dev_sub dev = (if dev = bstr ''null'' then Some VFS_DEV_NULL
     else if dev = bstr ''zero'' then Some VFS_DEV_ZERO else None)"

text \<open>The tick stamps a file that is created.\<close>

definition create_missing :: "bytes \<Rightarrow> 'n vfs \<Rightarrow> 'n vfs option" where
  "create_missing path s =
     (case fs_read path (vfiles s) of
        Some _ \<Rightarrow> Some s
      | None \<Rightarrow> do { (r, fs) \<leftarrow> fs_write path [] (tick (vtasks s)) (vfiles s); Some (s\<lparr>vfiles := fs\<rparr>) })"

definition open_file :: "nat \<Rightarrow> bytes \<Rightarrow> u32 \<Rightarrow> 'n vfs \<Rightarrow> (int \<times> 'n vfs) option" where
  "open_file t path flags s =
     (case free_fd t s of
        None \<Rightarrow> Some (-1, s)
      | Some j \<Rightarrow>
          if flags AND VFS_O_CREATE \<noteq> 0
          then do { s \<leftarrow> create_missing path s; Some (int j, upd_fd t j (open_fd VFS_TYPE_FILE (ucast flags) 0 path) s) }
          else case fs_read_bin path (vfiles s) of
            Some (_, Some _) \<Rightarrow> Some (int j, upd_fd t j (open_fd VFS_TYPE_FILE (ucast flags) 0 path) s)
          | _ \<Rightarrow> Some (-1, s))"

definition vfs_open :: "int \<Rightarrow> bytes option \<Rightarrow> u32 \<Rightarrow> 'n vfs \<Rightarrow> (int \<times> 'n vfs) option" where
  "vfs_open task_id path flags s =
     (case path of None \<Rightarrow> Some (-1, s) | Some path \<Rightarrow>
      if \<not> valid_tid task_id then Some (-1, s)
      else let t = nat task_id; p = cstr path in
      if take 6 p = bstr ''/proc/'' then
        (case free_fd t s of
           None \<Rightarrow> Some (-1, s)
         | Some j \<Rightarrow> Some (int j, upd_fd t j (open_fd VFS_TYPE_PROC VFS_O_RDONLY 0 (drop 6 p)) s))
      else if take 5 p = bstr ''/dev/'' then
        (case dev_sub (drop 5 p) of
           None \<Rightarrow> Some (-1, s)
         | Some sub \<Rightarrow>
             (case free_fd t s of
                None \<Rightarrow> Some (-1, s)
              | Some j \<Rightarrow> Some (int j, upd_fd t j (open_fd VFS_TYPE_DEV (ucast flags) sub []) s)))
      else open_file t path flags s)"

definition pipe_fd :: "u8 \<Rightarrow> int \<Rightarrow> int \<Rightarrow> vfs_fd \<Rightarrow> vfs_fd" where
  "pipe_fd fl pid e f = f\<lparr>fd_used := True, fd_type := VFS_TYPE_PIPE, fd_flags := fl,
     fd_pipe_id := i16 pid, fd_pipe_end := e\<rparr>"

text \<open>\<open>Some (r, w)\<close>: the two descriptors that were stored to the output arguments, and result 0.\<close>

definition vfs_pipe :: "int \<Rightarrow> 'n vfs \<Rightarrow> (nat \<times> nat) option \<times> 'n vfs" where
  "vfs_pipe task_id s =
     (if \<not> valid_tid task_id then (None, s)
      else let t = nat task_id; (pid, ps) = pipe_alloc (vpipes s)
      in if pid < 0 then (None, s\<lparr>vpipes := ps\<rparr>)
         else case free_fd t s of
           None \<Rightarrow> (None, s\<lparr>vpipes := pipe_free pid ps\<rparr>)
         | Some r \<Rightarrow>
             (case find_slot_from (Suc r) (\<lambda>f. \<not> fd_used f) (fd_table s ! t) of
                None \<Rightarrow> (None, s\<lparr>vpipes := pipe_free pid ps\<rparr>)
              | Some w \<Rightarrow> (Some (r, w),
                  (upd_fd t w (pipe_fd VFS_O_WRONLY pid 1) (upd_fd t r (pipe_fd VFS_O_RDONLY pid 0) s))
                    \<lparr>vpipes := pipe_writer_attach pid ps\<rparr>)))"

definition vfs_net_open :: "'n net_ops \<Rightarrow> int \<Rightarrow> bytes \<Rightarrow> u16 \<Rightarrow> 'n vfs \<Rightarrow> int \<times> 'n vfs" where
  "vfs_net_open net task_id dst_ip port s =
     (if \<not> valid_tid task_id then (-1, s)
      else if \<not> net_present net (vnet s) then (-1, s)
      else let (conn, n) = net_tcp_connect net dst_ip port (vnet s); s = s\<lparr>vnet := n\<rparr>
      in if conn < 0 then (-1, s)
         else case free_fd (nat task_id) s of
           None \<Rightarrow> (-1, s\<lparr>vnet := net_tcp_close net conn (vnet s)\<rparr>)
         | Some j \<Rightarrow> (int j, upd_fd (nat task_id) j (\<lambda>f. f\<lparr>fd_used := True, fd_type := VFS_TYPE_NET,
             fd_flags := VFS_O_RDWR, fd_net_conn := i16 conn\<rparr>) s))"

definition vfs_tty_open :: "int \<Rightarrow> 'n vfs \<Rightarrow> int \<times> 'n vfs" where
  "vfs_tty_open task_id s =
     (if \<not> valid_tid task_id then (-1, s)
      else case find_slot (\<lambda>y. \<not> tty_used y) (tty_slots s) of
        None \<Rightarrow> (-1, s)
      | Some k \<Rightarrow>
          (let (pid, ps) = pipe_alloc (vpipes s); s = s\<lparr>vpipes := ps\<rparr>
           in if pid < 0 then (-1, s)
              else let s = s\<lparr>tty_slots := (tty_slots s)[k := \<lparr>tty_used = True, tty_pipe_id = pid\<rparr>]\<rparr>
              in case free_fd (nat task_id) s of
                None \<Rightarrow> (-1, s\<lparr>vpipes := pipe_free pid (vpipes s),
                  tty_slots := (tty_slots s)[k := (tty_slots s ! k)\<lparr>tty_used := False\<rparr>]\<rparr>)
              | Some j \<Rightarrow> (int j, upd_fd (nat task_id) j (\<lambda>f. f\<lparr>fd_used := True, fd_type := VFS_TYPE_TTY,
                  fd_flags := VFS_O_RDWR, fd_tty_id := i16 (int k)\<rparr>) s)))"

section \<open>Reading\<close>

datatype vread = VRet int bytes | VBlocks | VRetries

text \<open>One round of the loop that waits for the keyboard.\<close>

definition stdin_pass :: "'n vfs \<Rightarrow> vread \<times> 'n vfs" where
  "stdin_pass s =
     (if keyboard_has_char (vkbd s)
      then (let (c, k) = keyboard_getchar (vkbd s) in (VRet 1 [c], s\<lparr>vkbd := k\<rparr>))
      else (VBlocks, s\<lparr>vkbd := keyboard_set_waiter (int (current_task (vtasks s))) (vkbd s),
              vtasks := task_block (vtasks s)\<rparr>))"

text \<open>A pass over a pipe; the function says what is returned for the length that was read.\<close>

definition pipe_pass :: "int \<Rightarrow> (int \<Rightarrow> int) \<Rightarrow> 'n vfs \<Rightarrow> vread \<times> 'n vfs" where
  "pipe_pass pid ret s =
     (let (r, ps, ts) = pipe_read_pass pid False (vpipes s) (vtasks s); s = s\<lparr>vpipes := ps, vtasks := ts\<rparr>
      in case r of
           ReadError \<Rightarrow> (VRet (ret (-1)) [], s)
         | ReadEof \<Rightarrow> (VRet (ret 0) [], s)
         | ReadRetries \<Rightarrow> (VRetries, s)
         | ReadBlocks \<Rightarrow> (VBlocks, s)
         | ReadData cs \<Rightarrow> (VRet (ret (int (length cs))) (cs @ [0]), s))"

text \<open>
  Copying from position \<open>off\<close> of \<open>dat\<close>, of which \<open>cnt\<close> bytes count: the number of bytes to
  copy and the bytes. The remaining length is computed with the offset as a signed integer.
\<close>

definition copy_out :: "bytes \<Rightarrow> int \<Rightarrow> u32 \<Rightarrow> int \<Rightarrow> (int \<times> bytes) option" where
  "copy_out dat cnt off len =
     (let remaining = cnt - sint off in
      if \<not> int_ok remaining then None
      else if remaining \<le> 0 then Some (0, [])
      else let len = (if len > remaining then remaining else len)
      in if len \<le> 0 then Some (len, [])
         else if unat off + nat len \<le> length dat then Some (len, take (nat len) (drop (unat off) dat))
         else None)"

definition advance :: "nat \<Rightarrow> nat \<Rightarrow> int \<Rightarrow> 'n vfs \<Rightarrow> 'n vfs" where
  "advance t j len s = upd_fd t j (\<lambda>f. f\<lparr>fd_offset := fd_offset f + word_of_int len\<rparr>) s"

definition read_file :: "nat \<Rightarrow> nat \<Rightarrow> int \<Rightarrow> 'n vfs \<Rightarrow> (vread \<times> 'n vfs) option" where
  "read_file t j len s =
     (let f = the_fd s t j in
      if fd_flags f AND (VFS_O_RDONLY OR VFS_O_RDWR) = 0 then Some (VRet (-1) [], s)
      else case fs_read_bin (fd_name f) (vfiles s) of
        Some (file_len, Some dat) \<Rightarrow>
          if file_len = 0 then Some (VRet 0 [], s)
          else do {
            (n, bs) \<leftarrow> copy_out dat (sint file_len) (fd_offset f) len;
            Some (VRet n bs, advance t j n s)
          }
      | _ \<Rightarrow> Some (VRet 0 [], s))"

definition read_proc :: "nat \<Rightarrow> nat \<Rightarrow> int \<Rightarrow> 'n vfs \<Rightarrow> (vread \<times> 'n vfs) option" where
  "read_proc t j len s =
     (let f = the_fd s t j;
          s = (if fd_offset f = 0 then proc_generate (fd_name f) s else s)
      in do {
           (n, bs) \<leftarrow> copy_out (proc_buf s) (int (length (proc_buf s))) (fd_offset f) len;
           Some (VRet n bs, advance t j n s)
         })"

definition clip1400 :: "int \<Rightarrow> u16" where
  "clip1400 len = word_of_int (if len > 1400 then 1400 else len)"

definition valid_tty :: "int \<Rightarrow> bool" where "valid_tty k \<longleftrightarrow> 0 \<le> k \<and> k < int VFS_TTY_MAX"

definition vfs_read :: "'n net_ops \<Rightarrow> int \<Rightarrow> int \<Rightarrow> int \<Rightarrow> 'n vfs \<Rightarrow> (vread \<times> 'n vfs) option" where
  "vfs_read net task_id fd len s =
     (if \<not> valid_tid task_id \<or> \<not> valid_fd fd then Some (VRet (-1) [], s)
      else let t = nat task_id; j = nat fd; f = the_fd s t j; nonblock = (fd_flags f AND VFS_O_NONBLOCK \<noteq> 0) in
      if \<not> fd_used f then Some (VRet (-1) [], s)
      else case fd_type f of
        VFS_TYPE_STDIN \<Rightarrow>
          if len < 1 then Some (VRet 0 [], s)
          else if nonblock \<and> \<not> keyboard_has_char (vkbd s) then Some (VRet VFS_EAGAIN [], s)
          else Some (stdin_pass s)
      | VFS_TYPE_FILE \<Rightarrow> read_file t j len s
      | VFS_TYPE_DEV \<Rightarrow>
          if fd_offset f = VFS_DEV_NULL then Some (VRet 0 [], s)
          else if fd_offset f = VFS_DEV_ZERO then Some (VRet len (replicate (nat len) 0), s)
          else Some (VRet 0 [], s)
      | VFS_TYPE_PROC \<Rightarrow> read_proc t j len s
      | VFS_TYPE_PIPE \<Rightarrow>
          if fd_pipe_end f \<noteq> 0 then Some (VRet (-1) [], s)
          else if len \<le> 0 then Some (VRet 0 [], s)
          else if nonblock \<and> \<not> pipe_has_data (fd_pipe_id f) (vpipes s) then Some (VRet VFS_EAGAIN [], s)
          else Some (pipe_pass (fd_pipe_id f) (\<lambda>n. if n < len then n else len) s)
      | VFS_TYPE_NET \<Rightarrow>
          if \<not> net_present net (vnet s) then Some (VRet (-1) [], s)
          else (let (r, bs, n) = net_tcp_recv net (fd_net_conn f) (clip1400 len) (vnet s)
                in Some (VRet r bs, s\<lparr>vnet := n\<rparr>))
      | VFS_TYPE_TTY \<Rightarrow>
          if \<not> valid_tty (fd_tty_id f) then None
          else let pid = tty_pipe_id (tty_slots s ! nat (fd_tty_id f)) in
          if nonblock \<and> \<not> pipe_has_data pid (vpipes s) then Some (VRet VFS_EAGAIN [], s)
          else Some (pipe_pass pid (\<lambda>n. n) s)
      | _ \<Rightarrow> Some (VRet (-1) [], s))"

definition vfs_set_flags :: "int \<Rightarrow> int \<Rightarrow> u8 \<Rightarrow> 'n vfs \<Rightarrow> int \<times> 'n vfs" where
  "vfs_set_flags task_id fd flags s =
     (if \<not> valid_tid task_id \<or> \<not> valid_fd fd then (-1, s)
      else if \<not> fd_used (the_fd s (nat task_id) (nat fd)) then (-1, s)
      else (0, upd_fd (nat task_id) (nat fd) (\<lambda>f. f\<lparr>fd_flags := flags\<rparr>) s))"

definition POLLIN :: u16 where "POLLIN = 1"
definition POLLOUT :: u16 where "POLLOUT = 2"
definition POLLERR :: u16 where "POLLERR = 4"

definition pollin_ready :: "vfs_fd \<Rightarrow> 'n vfs \<Rightarrow> bool" where
  "pollin_ready f s \<longleftrightarrow>
     (case fd_type f of
        VFS_TYPE_STDIN \<Rightarrow> keyboard_has_char (vkbd s)
      | VFS_TYPE_PIPE \<Rightarrow> fd_pipe_end f = 0 \<and> pipe_has_data (fd_pipe_id f) (vpipes s)
      | VFS_TYPE_FILE \<Rightarrow> True
      | VFS_TYPE_TTY \<Rightarrow> pipe_has_data (tty_pipe_id (tty_slots s ! nat (fd_tty_id f))) (vpipes s)
      | _ \<Rightarrow> False)"

definition pollout_ready :: "vfs_fd \<Rightarrow> bool" where
  "pollout_ready f \<longleftrightarrow>
     fd_type f = VFS_TYPE_PIPE \<and> fd_pipe_end f = 1 \<or>
     fd_type f = VFS_TYPE_STDOUT \<or> fd_type f = VFS_TYPE_FILE \<or> fd_type f = VFS_TYPE_NET"

definition vfs_fd_ready :: "int \<Rightarrow> int \<Rightarrow> u16 \<Rightarrow> 'n vfs \<Rightarrow> u16" where
  "vfs_fd_ready task_id fd events s =
     (if \<not> valid_tid task_id \<or> \<not> valid_fd fd then 0
      else let f = the_fd s (nat task_id) (nat fd) in
      if \<not> fd_used f then POLLERR
      else (if events AND POLLIN \<noteq> 0 \<and> pollin_ready f s then POLLIN else 0) OR
           (if events AND POLLOUT \<noteq> 0 \<and> pollout_ready f then POLLOUT else 0))"

section \<open>Writing\<close>

text \<open>
  The loop that feeds a pipe in chunks of at most 255 bytes. It does not return while the pipe takes
  nothing (a full ring, or a chunk that starts with NUL).
\<close>

partial_function (option) write_chunks ::
    "int \<Rightarrow> bytes \<Rightarrow> int \<Rightarrow> int \<Rightarrow> pipe_table \<Rightarrow> task_state \<Rightarrow> (int \<times> pipe_table \<times> task_state) option" where
  "write_chunks pid buf len written ps ts =
     (if written < len
      then let n = (if len - written > 255 then 255 else len - written);
               chunk = take (nat n) (drop (nat written) buf) @ [0];
               (r, ps', ts') = pipe_write pid (Some chunk) ps ts
           in if r < 0 then Some (written, ps', ts') else write_chunks pid buf len (written + r) ps' ts'
      else Some (written, ps, ts))"

definition write_pipe :: "int \<Rightarrow> bytes \<Rightarrow> int \<Rightarrow> 'n vfs \<Rightarrow> (int \<times> 'n vfs) option" where
  "write_pipe pid buf len s =
     map_option (\<lambda>(n, ps, ts). (n, s\<lparr>vpipes := ps, vtasks := ts\<rparr>)) (write_chunks pid buf len 0 (vpipes s) (vtasks s))"

text \<open>The scratch buffer of a file write: the old content, then the bytes at the offset.\<close>

definition overlay :: "bytes \<Rightarrow> u32 \<Rightarrow> bytes \<Rightarrow> int \<Rightarrow> bytes option" where
  "overlay tmp off buf len =
     (if len \<le> 0 then Some tmp
      else if unat off + nat len \<le> length tmp
      then Some (take (unat off) tmp @ take (nat len) buf @ drop (unat off + nat len) tmp) else None)"

definition copy_existing :: "bytes option \<Rightarrow> u32 \<Rightarrow> bytes \<Rightarrow> bytes option" where
  "copy_existing existing file_len tmp =
     (let n = nat (min (sint file_len) (int FS_MAX_BIN_DATA)) in
      if n = 0 then Some tmp
      else case existing of
        None \<Rightarrow> None
      | Some dat \<Rightarrow> if n \<le> length dat then Some (take n dat @ drop n tmp) else None)"

text \<open>The rest of a file write, from the position of its end on.\<close>

definition store_file ::
    "nat \<Rightarrow> nat \<Rightarrow> bytes \<Rightarrow> int \<Rightarrow> u32 \<Rightarrow> buffer \<Rightarrow> fs_state \<Rightarrow> 'n vfs \<Rightarrow> (int \<times> 'n vfs) option" where
  "store_file t j buf len file_len b fs s =
     (let f = the_fd s t j;
          top = sint (fd_offset f) + len;
          full = (top > int FS_MAX_BIN_DATA - 1);
          len = (if full then int FS_MAX_BIN_DATA - 1 - sint (fd_offset f) else len);
          sz = max (sint file_len) (if full then int FS_MAX_BIN_DATA - 1 else top)
      in if \<not> int_ok top then None
         else do {
           tmp \<leftarrow> overlay (snd b) (fd_offset f) buf len;
           (r, fs) \<leftarrow> fs_write_bin (fd_name f) tmp (unat (word_of_int sz :: u32)) (tick (vtasks s)) fs;
           fs \<leftarrow> fs_free b fs;
           Some (len, advance t j len (s\<lparr>vfiles := fs\<rparr>))
         })"

definition write_file :: "nat \<Rightarrow> nat \<Rightarrow> bytes \<Rightarrow> int \<Rightarrow> 'n vfs \<Rightarrow> (int \<times> 'n vfs) option" where
  "write_file t j buf len s =
     (let f = the_fd s t j in
      if fd_flags f AND (VFS_O_WRONLY OR VFS_O_RDWR) = 0 then Some (-1, s)
      else let (file_len, existing) = (case fs_read_bin (fd_name f) (vfiles s) of None \<Rightarrow> (0, None) | Some r \<Rightarrow> r)
      in do {
        (b, fs) \<leftarrow> fs_malloc FS_MAX_BIN_DATA (vfiles s);
        case b of
          None \<Rightarrow> Some (-1, s\<lparr>vfiles := fs\<rparr>)
        | Some (p, tmp) \<Rightarrow> do {
            tmp \<leftarrow> copy_existing existing file_len tmp;
            store_file t j buf len file_len (p, tmp) fs s
          }
      })"

definition vfs_write :: "'n net_ops \<Rightarrow> int \<Rightarrow> int \<Rightarrow> bytes \<Rightarrow> int \<Rightarrow> 'n vfs \<Rightarrow> (int \<times> 'n vfs) option" where
  "vfs_write net task_id fd buf len s =
     (if \<not> valid_tid task_id \<or> \<not> valid_fd fd then Some (-1, s)
      else let t = nat task_id; j = nat fd; f = the_fd s t j in
      if \<not> fd_used f then Some (-1, s)
      else if fd_type f = VFS_TYPE_DEV then Some (len, s)
      else if int (length buf) < len then None
      else case fd_type f of
        VFS_TYPE_STDOUT \<Rightarrow>
          (let n = (if len < 255 then len else 255)
           in Some (n, s\<lparr>screen := screen s @ [cstr (take (nat n) buf)]\<rparr>))
      | VFS_TYPE_FILE \<Rightarrow> write_file t j buf len s
      | VFS_TYPE_PIPE \<Rightarrow>
          if fd_pipe_end f \<noteq> 1 then Some (-1, s) else write_pipe (fd_pipe_id f) buf len s
      | VFS_TYPE_NET \<Rightarrow>
          if \<not> net_present net (vnet s) then Some (-1, s)
          else (let (r, n) = net_tcp_send net (fd_net_conn f) buf (clip1400 len) (vnet s)
                in Some (r, s\<lparr>vnet := n\<rparr>))
      | VFS_TYPE_TTY \<Rightarrow>
          if \<not> valid_tty (fd_tty_id f) then None
          else write_pipe (tty_pipe_id (tty_slots s ! nat (fd_tty_id f))) buf len s
      | _ \<Rightarrow> Some (-1, s))"

section \<open>Closing, seeking and redirection\<close>

definition close_tty :: "vfs_fd \<Rightarrow> 'n vfs \<Rightarrow> 'n vfs" where
  "close_tty f s =
     (let k = nat (fd_tty_id f) in
      if fd_type f = VFS_TYPE_TTY \<and> tty_used (tty_slots s ! k)
      then s\<lparr>vpipes := pipe_free (tty_pipe_id (tty_slots s ! k)) (vpipes s),
             tty_slots := (tty_slots s)[k := (tty_slots s ! k)\<lparr>tty_used := False\<rparr>]\<rparr>
      else s)"

definition vfs_close :: "'n net_ops \<Rightarrow> int \<Rightarrow> int \<Rightarrow> 'n vfs \<Rightarrow> (int \<times> 'n vfs) option" where
  "vfs_close net task_id fd s =
     (if \<not> valid_tid task_id \<or> fd < 3 \<or> fd \<ge> int VFS_MAX_FD then Some (-1, s)
      else let t = nat task_id; j = nat fd; f = the_fd s t j in
      if \<not> fd_used f then Some (-1, s)
      else do {
        s \<leftarrow> close_writer f (close_tty f (close_net net f s));
        Some (0, upd_fd t j (\<lambda>f. f\<lparr>fd_used := False\<rparr>) s)
      })"

definition vfs_seek :: "int \<Rightarrow> int \<Rightarrow> int \<Rightarrow> 'n vfs \<Rightarrow> int \<times> 'n vfs" where
  "vfs_seek task_id fd offset s =
     (if \<not> valid_tid task_id \<or> \<not> valid_fd fd then (-1, s)
      else if \<not> fd_used (the_fd s (nat task_id) (nat fd)) then (-1, s)
      else (0, upd_fd (nat task_id) (nat fd) (\<lambda>f. f\<lparr>fd_offset := word_of_int offset\<rparr>) s))"

definition vfs_stdout_is_file :: "int \<Rightarrow> 'n vfs \<Rightarrow> bool" where
  "vfs_stdout_is_file task_id s =
     (if \<not> valid_tid task_id then False
      else if \<not> fd_used (the_fd s (nat task_id) 1) then False
      else fd_type (the_fd s (nat task_id) 1) \<in> {VFS_TYPE_FILE, VFS_TYPE_PIPE, VFS_TYPE_NET, VFS_TYPE_TTY})"

definition no_path :: "int \<Rightarrow> bytes option \<Rightarrow> bool" where
  "no_path task_id path \<longleftrightarrow> \<not> valid_tid task_id \<or> path = None \<or> cstr (the path) = []"

text \<open>Descriptor 2 becomes a copy of descriptor 1.\<close>

definition redirect_both :: "nat \<Rightarrow> u32 \<Rightarrow> bytes \<Rightarrow> 'n vfs \<Rightarrow> 'n vfs" where
  "redirect_both t off path s =
     (let s = upd_fd t 1 (open_fd VFS_TYPE_FILE VFS_O_WRONLY off path) s
      in upd_fd t 2 (\<lambda>_. the_fd s t 1) s)"

definition vfs_redirect_out :: "int \<Rightarrow> bytes option \<Rightarrow> 'n vfs \<Rightarrow> (int \<times> 'n vfs) option" where
  "vfs_redirect_out task_id path s =
     (if no_path task_id path then Some (-1, s)
      else do { s \<leftarrow> create_missing (the path) s; Some (0, redirect_both (nat task_id) 0 (the path) s) })"

definition vfs_redirect_in :: "int \<Rightarrow> bytes option \<Rightarrow> 'n vfs \<Rightarrow> int \<times> 'n vfs" where
  "vfs_redirect_in task_id path s =
     (if no_path task_id path then (-1, s)
      else if fs_read (the path) (vfiles s) = None then (-1, s)
      else (0, upd_fd (nat task_id) 0 (open_fd VFS_TYPE_FILE VFS_O_RDONLY 0 (the path)) s))"

definition vfs_redirect_out_pipe :: "int \<Rightarrow> int \<Rightarrow> 'n vfs \<Rightarrow> int \<times> 'n vfs" where
  "vfs_redirect_out_pipe task_id pid s =
     (if \<not> valid_tid task_id then (-1, s)
      else (0, (upd_fd (nat task_id) 1 (pipe_fd VFS_O_WRONLY pid 1) s)\<lparr>vpipes := pipe_writer_attach pid (vpipes s)\<rparr>))"

definition vfs_redirect_in_pipe :: "int \<Rightarrow> int \<Rightarrow> 'n vfs \<Rightarrow> int \<times> 'n vfs" where
  "vfs_redirect_in_pipe task_id pid s =
     (if \<not> valid_tid task_id then (-1, s)
      else (0, upd_fd (nat task_id) 0 (pipe_fd VFS_O_RDONLY pid 0) s))"

definition vfs_redirect_out_append :: "int \<Rightarrow> bytes option \<Rightarrow> 'n vfs \<Rightarrow> (int \<times> 'n vfs) option" where
  "vfs_redirect_out_append task_id path s =
     (if no_path task_id path then Some (-1, s)
      else let file_len = (case fs_read_bin (the path) (vfiles s) of None \<Rightarrow> 0 | Some (n, _) \<Rightarrow> n)
      in do {
        fs \<leftarrow> (if file_len = 0 then map_option snd (fs_write (the path) [] (tick (vtasks s)) (vfiles s))
               else Some (vfiles s));
        Some (0, redirect_both (nat task_id) file_len (the path) (s\<lparr>vfiles := fs\<rparr>))
      })"

end
