(* ===== verification/VfsFile.thy ===== *)
theory VfsFile
  imports Vfs FsDisk
begin

text \<open>
  File descriptors over the file system: a descriptor of a file refines a cursor over the bytes of
  the file (\<open>vfs_file_cursor\<close>). The first section keeps track of the scratch buffer that a write
  allocates beside the buffers of the files.
\<close>

unbundle bit_operations_syntax

section \<open>A scratch buffer beside the buffers of the files\<close>

definition spare :: "nat \<Rightarrow> fs_state \<Rightarrow> bool" where
  "spare p s \<longleftrightarrow> p \<in> fst ` live (fheap s) \<and> (\<forall>f\<in>set (files s). \<forall>d. fdata f \<noteq> Some (p, d))"

lemma spare_files: "spare p s \<Longrightarrow> fheap s' = fheap s \<Longrightarrow> map fdata (files s') = map fdata (files s) \<Longrightarrow> spare p s'"
  unfolding spare_def by (metis in_set_conv_nth length_map nth_map)

lemma spare_upd:
  "spare p s \<Longrightarrow> \<forall>d. fdata (g (files s ! i)) \<noteq> Some (p, d) \<Longrightarrow> spare p (upd_file i g s)"
  by (auto simp: spare_def dest!: set_update_subset_insert [THEN subsetD])

lemma spare_save: "fs_disk_save i s = Some s' \<Longrightarrow> spare p s \<Longrightarrow> spare p s'"
proof (erule spare_files)
  assume "fs_disk_save i s = Some s'"
  note e = fs_disk_save_effect [OF this]
  then show "fheap s' = fheap s" by simp
  from e(3) obtain d where "files s' = (files s)[i := (files s ! i)\<lparr>fdirty := d\<rparr>]" by blast
  then have "map fdata (files s') = (map fdata (files s))[i := fdata (files s ! i)]" by (simp add: map_update)
  then show "map fdata (files s') = map fdata (files s)"
    by (cases "i < length (files s)") (simp_all add: list_update_same_conv list_update_beyond)
qed

lemma owned_live: "fs_inv s \<Longrightarrow> f \<in> set (files s) \<Longrightarrow> fdata f = Some (p, d) \<Longrightarrow> p \<in> fst ` live (fheap s)"
  unfolding fs_inv_def owned_def by (metis fst_conv image_eqI in_set_conv_nth length_map nth_map)

lemma owned_mono:
  assumes "owned bs h" "heap_ok h'" "\<And>i p d n. i < length bs \<Longrightarrow> bs ! i = Some (p, d) \<Longrightarrow> (p, n) \<in> live h \<Longrightarrow> (p, n) \<in> live h'"
  shows "owned bs h'"
  unfolding owned_def
proof (intro conjI allI impI)
  show "heap_ok h'" by fact
  show "\<exists>n. (p, n) \<in> live h' \<and> length d \<le> n" if "i < length bs" "bs ! i = Some (p, d)" for i p d
    using assms(1,3) that unfolding owned_def by blast
  show "i = j" if "i < length bs" "j < length bs" "bs ! i = Some (p, d)" "bs ! j = Some (p, e)" for i j p d e
    using assms(1) that unfolding owned_def by blast
qed

lemma fs_malloc_spare:
  assumes "fs_inv s" "n \<le> FS_MAX_BIN_DATA" "fs_malloc n s = Some (Some (p, d), s')"
  shows "fs_inv s' \<and> spare p s' \<and> files s' = files s \<and> length d = n"
    and "spare q s \<Longrightarrow> spare q s' \<and> q \<noteq> p"
proof -
  have ok: "heap_ok (fheap s)" using assms(1) by (simp add: fs_inv_def owned_def)
  from assms(3) have m: "malloc (fheap s) (word_of_nat n) = Some (p, fheap s')" "p \<noteq> 0"
    and s': "s' = s\<lparr>fheap := fheap s'\<rparr>" and l: "length d = n"
    by (auto simp: fs_malloc_def bind_eq_Some_conv split: if_splits)
  have fl: "files s' = files s" by (subst s') simp
  have "unat (word_of_nat n :: u32) \<le> 0xFFFFFFFC"
    using assms(2) by (subst unat_of_nat_small) (simp_all add: FS_MAX_BIN_DATA_def)
  with kernel_heap.alloc_fresh [OF ok m] obtain k where
    k: "p \<notin> fst ` live (fheap s)" "live (fheap s') = insert (p, k) (live (fheap s))" by auto
  have "heap_ok (fheap s')" using kernel_heap.alloc_preserves [OF ok m(1)] by simp
  with assms(1) k(2) fl have "fs_inv s'" by (auto simp: fs_inv_def elim!: owned_mono)
  moreover have "spare p s'" using k owned_live [OF assms(1)] fl by (auto simp: spare_def)
  ultimately show "fs_inv s' \<and> spare p s' \<and> files s' = files s \<and> length d = n" using fl l by simp
  show "spare q s' \<and> q \<noteq> p" if "spare q s" using that k fl by (auto simp: spare_def)
qed

lemma fs_free_spare:
  assumes "fs_inv s" "spare p s"
  obtains s' where "fs_free (p, x) s = Some s'" "fs_inv s'" "files s' = files s"
proof -
  from assms obtain n where n: "(p, n) \<in> live (fheap s)" "heap_ok (fheap s)"
    by (auto simp: fs_inv_def owned_def spare_def)
  from kernel_heap.dealloc_frees [OF n(2,1)] obtain h' where
    h': "free (fheap s) p = Some h'" "heap_ok h'" "live h' = live (fheap s) - {(p, n)}" by auto
  have "owned (map fdata (files s)) (fheap s)" using assms(1) by (simp add: fs_inv_def)
  then have "owned (map fdata (files s)) h'"
    by (rule owned_mono) (use h'(2,3) assms(2) in \<open>auto simp: spare_def\<close>)
  with assms(1) h'(1) that [of "s\<lparr>fheap := h'\<rparr>"] show thesis by (simp add: fs_free_def fs_inv_def)
qed

lemma fs_free_own_spare:
  assumes "fs_inv s" "i < length (files s)" "fdata (files s ! i) = Some b" "spare q s"
    "fs_free b (upd_file i (\<lambda>f. f\<lparr>fdata := None\<rparr>) s) = Some s'"
  shows "spare q s'"
proof -
  obtain p d where b: "b = (p, d)" by fastforce
  with assms(2,3,4) have ne: "q \<noteq> p" by (auto simp: spare_def)
  have p: "p \<in> fst ` live (fheap s)" using owned_live [OF assms(1) _ assms(3) [unfolded b]] assms(2) by simp
  then obtain n where n: "(p, n) \<in> live (fheap s)" "heap_ok (fheap s)" using assms(1) by (auto simp: fs_inv_def owned_def)
  from kernel_heap.dealloc_frees [OF n(2,1)] obtain h' where
    h': "free (fheap s) p = Some h'" "live h' = live (fheap s) - {(p, n)}" by blast
  with assms(5) b have s': "s' = (upd_file i (\<lambda>f. f\<lparr>fdata := None\<rparr>) s)\<lparr>fheap := h'\<rparr>"
    by (simp add: fs_free_def)
  have "spare q (upd_file i (\<lambda>f. f\<lparr>fdata := None\<rparr>) s)" using assms(4) by (rule spare_upd) simp
  with s' h'(2) ne show ?thesis by (auto simp: spare_def image_iff)
qed

lemma files_drop_data:
  assumes "i < length (files s)"
    "(case fdata (files s ! i) of None \<Rightarrow> Some s
      | Some b \<Rightarrow> fs_free b (upd_file i (\<lambda>f. f\<lparr>fdata := None\<rparr>) s)) = Some s0"
  shows "files s0 = (files s)[i := (files s ! i)\<lparr>fdata := None\<rparr>]"
proof (cases "fdata (files s ! i)")
  case None
  then have "(files s ! i)\<lparr>fdata := None\<rparr> = files s ! i" by (cases "files s ! i") simp
  then have "(files s)[i := (files s ! i)\<lparr>fdata := None\<rparr>] = files s" by (simp only: list_update_id)
  with assms None show ?thesis by simp
qed (use assms in \<open>auto dest: fs_free_effect\<close>)

text \<open>
  Rewriting a file that exists, with a scratch buffer in the heap: the buffer stays, and either the
  new bytes are there or the heap could not hold them and the file has lost its data.
\<close>

lemma fs_rewrite:
  assumes "fs_inv s" "spare q s" "find_slot (named_file nm) (files s) = Some i"
    "sz \<le> length src" "sz \<le> FS_MAX_BIN_DATA"
  obtains r s' where "fs_write_bin nm src sz tm s = Some (r, s')" "fs_inv s'" "spare q s'"
    "r = 0 \<and> fs_contents s' nm = None \<or> r = 1 \<and> fs_read_bin nm s' = Some (word_of_nat sz, Some (take sz src))"
proof -
  note i = find_slot_SomeD [OF assms(3)]
  obtain s0 where s0: "(case fdata (files s ! i) of None \<Rightarrow> Some s
      | Some b \<Rightarrow> fs_free b (upd_file i (\<lambda>f. f\<lparr>fdata := None\<rparr>) s)) = Some s0" "fs_inv s0" "i < length (files s0)"
    by (rule release_old_buffer [OF assms(1) i(1)])
  note f0 = files_drop_data [OF i(1) s0(1)]
  have sp0: "spare q s0"
    using s0(1) assms(2) fs_free_own_spare [OF assms(1) i(1) _ assms(2)] by (auto split: option.splits)
  have named: "find_slot (named_file nm) ((files s)[i := g]) = Some i" if "named_file nm g" for g
    using i that by (intro find_slot_update_hit) auto
  obtain b s1 where m: "fs_malloc sz s0 = Some (b, s1)" "files s1 = files s0"
    "b = None \<and> fs_inv s1 \<or> (\<exists>p d. b = Some (p, d) \<and> length d = sz \<and>
       (\<forall>i e. length e = sz \<longrightarrow> owned ((map fdata (files s0))[i := Some (p, e)]) (fheap s1)))"
    by (rule fs_malloc_inv [OF s0(2) assms(5)])
  have inv: "keeps_inv (fs_write_bin nm src sz tm s)"
    unfolding fs_write_bin_def by (rule fs_write_bin_safe [OF assms(1,4)])
  show thesis
  proof (cases b)
    case None
    let ?s = "upd_file i (\<lambda>f. f\<lparr>fdata := None\<rparr>) s1"
    have e: "fs_write_bin nm src sz tm s = Some (0, ?s)"
      using assms(3,5) s0(1) m(1) None by (simp add: fs_write_bin_def fs_write_bin_internal_def)
    have "fheap s1 = fheap s0"
      using m(1) None kernel_heap.alloc_null [of "fheap s0"] s0(2)
      by (auto simp: fs_malloc_def bind_eq_Some_conv fs_inv_def owned_def split: if_splits)
    with sp0 m(2) have "spare q s1" by (simp add: spare_def)
    then have "spare q ?s" by (rule spare_upd) simp
    moreover have "files ?s = (files s)[i := (files s ! i)\<lparr>fdata := None\<rparr>]" using m(2) f0 i(1) by simp
    with named [of "(files s ! i)\<lparr>fdata := None\<rparr>"] i have "fs_contents ?s nm = None"
      by (simp add: fs_contents_def fs_read_bin_def named_file_def is_dir_def)
    ultimately show thesis using that [OF e] inv e by (simp add: keeps_inv_def)
  next
    case (Some bb)
    then obtain p d where b: "b = Some (p, d)" "length d = sz" using m(3) by auto
    have sp1: "spare q s1" "q \<noteq> p" using fs_malloc_spare(2) [OF s0(2) assms(5) m(1) [unfolded b(1)] sp0] by auto
    let ?g = "\<lambda>f. f\<lparr>fdata := Some (p, take sz src), fsize := word_of_nat sz, fmtime := tm, fdirty := 1, ftmpfs := 0\<rparr>"
    have "fs_memcpy d src sz = Some (take sz src)" using b(2) assms(4) by (simp add: fs_memcpy_def)
    with assms(3,5) s0(1) m(1) b(1) have e: "fs_write_bin nm src sz tm s =
        map_option (Pair 1) (fs_disk_save i (upd_file i ?g s1))"
      by (simp add: fs_write_bin_def fs_write_bin_internal_def map_option_case)
        (auto split: option.splits)
    with inv obtain s2 where s2: "fs_disk_save i (upd_file i ?g s1) = Some s2" "fs_inv s2"
      by (auto simp: keeps_inv_def split: option.splits)
    have "spare q (upd_file i ?g s1)" using sp1 by (intro spare_upd) auto
    from spare_save [OF s2(1) this] have sp2: "spare q s2" .
    from fs_disk_save_effect(3) [OF s2(1)] m(2) f0 i(1) obtain dr where
      f2: "files s2 = (files s)[i := (?g (files s ! i))\<lparr>fdirty := dr\<rparr>]" by auto
    with named [of "(?g (files s ! i))\<lparr>fdirty := dr\<rparr>"] i
    have "fs_read_bin nm s2 = Some (word_of_nat sz, Some (take sz src))"
      by (simp add: fs_read_bin_def named_file_def is_dir_def)
    with that e s2 sp2 show thesis by simp
  qed
qed

section \<open>A descriptor of a file is a cursor over its bytes\<close>

definition fd_shape :: "'n vfs \<Rightarrow> bool" where
  "fd_shape s \<longleftrightarrow> length (fd_table s) = MAX_TASKS \<and> (\<forall>r\<in>set (fd_table s). length r = VFS_MAX_FD)"

lemma fd_shape_row: "fd_shape s \<Longrightarrow> t < MAX_TASKS \<Longrightarrow> length (fd_table s ! t) = VFS_MAX_FD"
  by (simp add: fd_shape_def)

lemma upd_fd_other [simp]:
  "vpipes (upd_fd t j g s) = vpipes s" "vtasks (upd_fd t j g s) = vtasks s" "vfiles (upd_fd t j g s) = vfiles s"
  "vkbd (upd_fd t j g s) = vkbd s" "tty_slots (upd_fd t j g s) = tty_slots s" "proc_buf (upd_fd t j g s) = proc_buf s"
  by (simp_all add: upd_fd_def)

lemma upd_fd_shape [simp]: "fd_shape (upd_fd t j g s) = fd_shape s"
proof (cases "t < length (fd_table s)")
  case True
  have "length (fd_table s ! i) = VFS_MAX_FD" if "\<forall>i<length (fd_table s). length ((fd_table s)[t := (fd_table s ! t)[j := x]] ! i) = VFS_MAX_FD"
     "i < length (fd_table s)" for i x
    using that by (metis length_list_update nth_list_update_eq nth_list_update_neq)
  moreover have "length ((fd_table s)[t := (fd_table s ! t)[j := x]] ! i) = VFS_MAX_FD"
    if "\<forall>i<length (fd_table s). length (fd_table s ! i) = VFS_MAX_FD" "i < length (fd_table s)" for i x
    using that by (metis length_list_update nth_list_update_eq nth_list_update_neq)
  ultimately show ?thesis by (auto simp: fd_shape_def upd_fd_def all_set_conv_all_nth)
qed (simp add: fd_shape_def upd_fd_def list_update_beyond)

lemma the_fd_upd:
  "fd_shape s \<Longrightarrow> t < MAX_TASKS \<Longrightarrow> j < VFS_MAX_FD \<Longrightarrow>
     the_fd (upd_fd t j g s) t' j' = (if t' = t \<and> j' = j then g (the_fd s t j) else the_fd s t' j')"
  by (auto simp: upd_fd_def fd_shape_def nth_list_update)

definition open_at :: "int \<Rightarrow> int \<Rightarrow> bytes \<Rightarrow> bytes \<Rightarrow> nat \<Rightarrow> 'n vfs \<Rightarrow> bool" where
  "open_at t fd nm c pos s \<longleftrightarrow> fd_shape s \<and> valid_tid t \<and> valid_fd fd \<and> pos < 2 ^ 31 \<and>
     (let f = the_fd s (nat t) (nat fd) in fd_used f \<and> fd_type f = VFS_TYPE_FILE \<and> fd_name f = nm \<and>
        fd_flags f AND VFS_O_RDWR \<noteq> 0 \<and> fd_offset f = word_of_nat pos) \<and>
     fs_inv (vfiles s) \<and> length c \<le> FS_MAX_BIN_DATA \<and>
     (\<exists>n d. fs_read_bin nm (vfiles s) = Some (n, Some d) \<and> unat n \<le> length d \<and> c = take (unat n) d)"

datatype file_op = FRead nat | FWrite bytes | FSeek nat

fun cursor_step :: "file_op \<Rightarrow> bytes \<times> nat \<Rightarrow> (int \<times> bytes) \<times> bytes \<times> nat" where
  "cursor_step (FRead n) (c, p) = (let bs = take n (drop p c) in ((int (length bs), bs), c, p + length bs))"
| "cursor_step (FWrite bs) (c, p) =
     ((int (length bs), []), take p c @ bs @ drop (p + length bs) c, p + length bs)"
| "cursor_step (FSeek q) (c, p) = ((0, []), c, q)"

fun op_fits :: "file_op \<Rightarrow> bytes \<times> nat \<Rightarrow> bool" where
  "op_fits (FRead n) (c, p) \<longleftrightarrow> n < 2 ^ 31"
| "op_fits (FWrite bs) (c, p) \<longleftrightarrow> p \<le> length c \<and> p + length bs < FS_MAX_BIN_DATA"
| "op_fits (FSeek q) (c, p) \<longleftrightarrow> q < 2 ^ 31"

fun vfs_step :: "'n net_ops \<Rightarrow> int \<Rightarrow> int \<Rightarrow> file_op \<Rightarrow> 'n vfs \<Rightarrow> ((int \<times> bytes) \<times> 'n vfs) option" where
  "vfs_step net t fd (FRead n) s =
     (case vfs_read net t fd (int n) s of Some (VRet r bs, s') \<Rightarrow> Some ((r, bs), s') | _ \<Rightarrow> None)"
| "vfs_step net t fd (FWrite bs) s =
     map_option (\<lambda>(r, s'). ((r, []), s')) (vfs_write net t fd bs (int (length bs)) s)"
| "vfs_step net t fd (FSeek q) s = (let (r, s') = vfs_seek t fd (int q) s in Some ((r, []), s'))"

lemma sint_of_nat_small: "n < 2 ^ 31 \<Longrightarrow> sint (word_of_nat n :: u32) = int n"
proof -
  assume "n < 2 ^ 31"
  then have "uint (word_of_nat n :: u32) = int n" by (simp add: uint_nat unat_of_nat_small)
  with \<open>n < 2 ^ 31\<close> show ?thesis by (simp add: sint_uint signed_take_bit_int_eq_self)
qed

lemma sint_small: "unat (w :: u32) < 2 ^ 31 \<Longrightarrow> sint w = int (unat w)"
  using sint_of_nat_small [of "unat w"] by simp

lemma open_at_fd:
  assumes "open_at t fd nm c pos s"
  shows "nat t < MAX_TASKS" "nat fd < VFS_MAX_FD" "fd_shape s" "fd_used (the_fd s (nat t) (nat fd))"
    "fd_type (the_fd s (nat t) (nat fd)) = VFS_TYPE_FILE" "fd_name (the_fd s (nat t) (nat fd)) = nm"
    "fd_flags (the_fd s (nat t) (nat fd)) AND VFS_O_RDWR \<noteq> 0"
    "sint (fd_offset (the_fd s (nat t) (nat fd))) = int pos" "unat (fd_offset (the_fd s (nat t) (nat fd))) = pos"
    "valid_tid t" "valid_fd fd"
  using assms sint_of_nat_small [of pos] unat_of_nat_small [of pos, where 'a = 32]
  by (auto simp: open_at_def Let_def valid_tid_def valid_fd_def)

lemma open_at_content:
  assumes "open_at t fd nm c pos s"
  obtains n d where "fs_read_bin nm (vfiles s) = Some (n, Some d)" "unat n = length c" "sint n = int (length c)"
    "length c \<le> length d" "c = take (length c) d"
proof -
  from assms obtain n d where e: "fs_read_bin nm (vfiles s) = Some (n, Some d)" "unat n \<le> length d" "c = take (unat n) d"
    "length c \<le> FS_MAX_BIN_DATA" by (auto simp: open_at_def)
  then have "unat n = length c" by simp
  moreover with e(4) have "sint n = int (length c)" by (subst sint_small) (auto simp: FS_MAX_BIN_DATA_def)
  ultimately show thesis using that [OF e(1)] e by auto
qed

lemma open_at_advance:
  assumes "open_at t fd nm c pos s" "pos + n < 2 ^ 31"
  shows "open_at t fd nm c (pos + n) (advance (nat t) (nat fd) (int n) s)"
  using assms open_at_fd [OF assms(1)]
  by (simp add: open_at_def Let_def advance_def the_fd_upd)

lemma access_bits [simp]: "VFS_O_RDONLY OR VFS_O_RDWR = VFS_O_RDWR" "VFS_O_WRONLY OR VFS_O_RDWR = VFS_O_RDWR"
  by (simp_all add: VFS_O_RDONLY_def VFS_O_RDWR_def VFS_O_WRONLY_def)

lemma advance_0 [simp]: "advance t j 0 s = s"
proof -
  have "(\<lambda>f. f\<lparr>fd_offset := fd_offset f + word_of_int 0\<rparr>) = (\<lambda>f :: vfs_fd. f)" by (rule ext) simp
  then show ?thesis by (simp add: advance_def upd_fd_def)
qed

lemma copy_out_eq:
  assumes "length c \<le> length d" "c = take (length c) d" "length c < 2 ^ 31" "unat off < 2 ^ 31"
  shows "copy_out d (int (length c)) off (int n) =
    Some (int (length (take n (drop (unat off) c))), take n (drop (unat off) c))"
proof -
  define k where "k = unat off"
  then have k: "unat off = k" "sint off = int k" "k < 2 ^ 31" using sint_small [OF assms(4)] assms(4) by simp_all
  have tk: "take m (drop k c) = take m (drop k d)" if "k + m \<le> length c" for m
    using that by (subst assms(2)) (simp add: drop_take)
  show ?thesis
  proof (cases "length c \<le> k")
    case True
    with k assms(3) show ?thesis by (simp add: copy_out_def int_ok_def)
  next
    case False
    have "take n (drop k c) = take (min n (length c - k)) (drop k c)" by (cases "n \<le> length c - k") simp_all
    also have "\<dots> = take (min n (length c - k)) (drop k d)" using False by (intro tk) simp
    finally have t: "take n (drop k c) = take (min n (length c - k)) (drop k d)" .
    have l: "length (take n (drop k c)) = min n (length c - k)" by simp
    have "(if int n > int (length c) - int k then int (length c) - int k else int n) = int (min n (length c - k))"
      using False by (auto simp: min_def)
    with False k assms(1,3) show ?thesis
      unfolding l k(1) t by (auto simp: copy_out_def Let_def int_ok_def k)
  qed
qed

lemma vfs_read_file:
  assumes "open_at t fd nm c pos s"
  shows "vfs_read net t fd (int n) s = Some (VRet (int (length (take n (drop pos c)))) (take n (drop pos c)),
      advance (nat t) (nat fd) (int (length (take n (drop pos c)))) s)"
proof -
  note f = open_at_fd [OF assms]
  obtain m d where m: "fs_read_bin nm (vfiles s) = Some (m, Some d)" "unat m = length c" "sint m = int (length c)"
    "length c \<le> length d" "c = take (length c) d" by (rule open_at_content [OF assms])
  have "m = 0 \<longleftrightarrow> c = []" using m(2) by (metis length_0_conv unat_eq_zero)
  moreover have "length c < 2 ^ 31" "pos < 2 ^ 31" using assms by (auto simp: open_at_def FS_MAX_BIN_DATA_def)
  with copy_out_eq [OF m(4,5), of "fd_offset (the_fd s (nat t) (nat fd))" n] f(9)
  have "copy_out d (int (length c)) (fd_offset (the_fd s (nat t) (nat fd))) (int n) =
    Some (int (length (take n (drop pos c))), take n (drop pos c))" by simp
  moreover have "vfs_read net t fd (int n) s = read_file (nat t) (nat fd) (int n) s"
    using f by (simp add: vfs_read_def)
  ultimately show ?thesis using m f by (simp add: read_file_def Let_def)
qed

lemma copy_existing_eq:
  assumes "length c \<le> length d" "c = take (length c) d" "unat n = length c" "length c \<le> FS_MAX_BIN_DATA"
  shows "copy_existing (Some d) n tmp = Some (c @ drop (length c) tmp)"
proof -
  have "sint n = int (length c)" using assms by (subst sint_small) (auto simp: FS_MAX_BIN_DATA_def)
  with assms show ?thesis by (auto simp: copy_existing_def Let_def min_def)
qed

lemma overlay_eq:
  assumes "p = unat off" "p \<le> length c" "p + length buf \<le> length tmp" "length c \<le> length tmp"
  shows "\<exists>tmp'. overlay (c @ drop (length c) tmp) off buf (int (length buf)) = Some tmp' \<and> length tmp' = length tmp \<and>
    take (max (length c) (p + length buf)) tmp' = take p c @ buf @ drop (p + length buf) c"
  using assms by (cases "buf = []") (auto simp: overlay_def max_def min_def)

lemma vfs_write_file:
  assumes "open_at t fd nm c pos s" "pos \<le> length c" "pos + length buf < FS_MAX_BIN_DATA"
  shows "\<exists>r s'. vfs_write net t fd buf (int (length buf)) s = Some (r, s') \<and>
    (r = -1 \<and> open_at t fd nm c pos s' \<or>
     r = int (length buf) \<and>
       (open_at t fd nm (take pos c @ buf @ drop (pos + length buf) c) (pos + length buf) s' \<or> fs_contents (vfiles s') nm = None))"
proof -
  note f = open_at_fd [OF assms(1)]
  obtain n d where n: "fs_read_bin nm (vfiles s) = Some (n, Some d)" "unat n = length c" "sint n = int (length c)"
    "length c \<le> length d" "c = take (length c) d" by (rule open_at_content [OF assms(1)])
  have inv: "fs_inv (vfiles s)" and cl: "length c \<le> FS_MAX_BIN_DATA" using assms(1) by (auto simp: open_at_def)
  have w: "vfs_write net t fd buf (int (length buf)) s = write_file (nat t) (nat fd) buf (int (length buf)) s"
    using f by (simp add: vfs_write_def)
  obtain b fs where m: "fs_malloc FS_MAX_BIN_DATA (vfiles s) = Some (b, fs)" "files fs = files (vfiles s)"
    "b = None \<and> fs_inv fs \<or> (\<exists>p d. b = Some (p, d))"
    by (rule fs_malloc_inv [OF inv order.refl]) blast
  show ?thesis
  proof (cases b)
    case None
    with m f n w have "vfs_write net t fd buf (int (length buf)) s = Some (-1, s\<lparr>vfiles := fs\<rparr>)"
      by (simp add: write_file_def Let_def)
    moreover have "fs_read_bin nm fs = fs_read_bin nm (vfiles s)" by (simp only: fs_read_bin_def m(2))
    then have "open_at t fd nm c pos (s\<lparr>vfiles := fs\<rparr>)"
      using assms(1) m(3) None by (auto simp: open_at_def Let_def fd_shape_def)
    ultimately show ?thesis by blast
  next
    case (Some pt)
    then obtain p tmp where b: "b = Some (p, tmp)" by fastforce
    note sp = fs_malloc_spare(1) [OF inv order.refl m(1) [unfolded b]]
    obtain tmp' where tmp': "overlay (c @ drop (length c) tmp) (fd_offset (the_fd s (nat t) (nat fd))) buf (int (length buf)) = Some tmp'"
      "length tmp' = length tmp" "take (max (length c) (pos + length buf)) tmp' = take pos c @ buf @ drop (pos + length buf) c"
      using overlay_eq [OF f(9) [symmetric] assms(2), of buf tmp] sp assms(3) cl by auto
    let ?sz = "max (length c) (pos + length buf)"
    obtain i where i: "find_slot (named_file nm) (files fs) = Some i"
      using n(1) m(2) by (auto simp: fs_read_bin_def split: option.splits)
    obtain r fs1 where w1: "fs_write_bin nm tmp' ?sz (tick (vtasks s)) fs = Some (r, fs1)" "fs_inv fs1" "spare p fs1"
      "r = 0 \<and> fs_contents fs1 nm = None \<or> r = 1 \<and> fs_read_bin nm fs1 = Some (word_of_nat ?sz, Some (take ?sz tmp'))"
      by (rule fs_rewrite [OF _ _ i, of p ?sz tmp' "tick (vtasks s)"]) (use sp tmp'(2) assms(3) cl in auto)
    obtain fs2 where w2: "fs_free (p, c @ drop (length c) tmp) fs1 = Some fs2" "fs_inv fs2" "files fs2 = files fs1"
      by (rule fs_free_spare [OF w1(2,3)])
    have sz: "max (int (length c)) (int pos + int (length buf)) = int ?sz" by simp
    have u: "unat (word_of_int (int ?sz) :: u32) = ?sz"
      using assms(3) cl by (simp add: unat_of_nat_small FS_MAX_BIN_DATA_def)
    let ?s = "advance (nat t) (nat fd) (int (length buf)) (s\<lparr>vfiles := fs2\<rparr>)"
    have e: "vfs_write net t fd buf (int (length buf)) s = Some (int (length buf), ?s)"
      using w f n(1,3) m(1) b tmp'(1) w1(1) w2(1) copy_existing_eq [OF n(4,5,2) cl] assms(3) sz u
      by (auto simp: write_file_def store_file_def Let_def int_ok_def FS_MAX_BIN_DATA_def)
    have c2: "fs_read_bin nm fs2 = fs_read_bin nm fs1" "fs_contents fs2 nm = fs_contents fs1 nm"
      by (simp_all only: fs_read_bin_def fs_contents_def w2(3))
    show ?thesis
    proof (cases "r = 0")
      case True
      with w1(4) c2 e show ?thesis by (auto simp: advance_def)
    next
      case False
      with w1(4) have rd: "fs_read_bin nm fs2 = Some (word_of_nat ?sz, Some (take ?sz tmp'))" using c2 by simp
      have "open_at t fd nm (take ?sz tmp') pos (s\<lparr>vfiles := fs2\<rparr>)"
        using assms(1) w2(2) rd u assms(3) cl sp tmp'(2) by (auto simp: open_at_def Let_def fd_shape_def)
      from open_at_advance [OF this, of "length buf"] assms(3) tmp'(3) e show ?thesis
        by (auto simp: FS_MAX_BIN_DATA_def)
    qed
  qed
qed


text \<open>A machine on which task 1 has opened the file \<open>a\<close> as descriptor 3.\<close>

definition blank_fd :: vfs_fd where
  "blank_fd = \<lparr>fd_type = VFS_TYPE_NONE, fd_used = False, fd_flags = 0, fd_offset = 0, fd_name = replicate 32 0,
     fd_pipe_id = 0, fd_pipe_end = 0, fd_net_conn = 0, fd_tty_id = 0\<rparr>"

definition boot_vfs :: "fs_state \<Rightarrow> unit vfs" where
  "boot_vfs fs = \<lparr>fd_table = replicate MAX_TASKS (replicate VFS_MAX_FD blank_fd),
     tty_slots = replicate VFS_TTY_MAX \<lparr>tty_used = False, tty_pipe_id = 0\<rparr>, proc_buf = [],
     vpipes = replicate PIPE_MAX blank_pipe, vtasks = boot_tasks, vkbd = kbd_start, vfiles = fs, vframes = [],
     klog = \<lparr>dmesg_buf = replicate DMESG_BUF_SIZE 0, dmesg_head = 0, dmesg_len = 0\<rparr>, cpu_count = 1,
     smp_ap_started = 0, screen = [], vnet = ()\<rparr>"

definition no_net :: "unit net_ops" where
  "no_net = \<lparr>net_present = (\<lambda>_. False), net_tcp_connect = (\<lambda>_ _ n. (-1, n)), net_tcp_close = (\<lambda>_ n. n),
     net_tcp_recv = (\<lambda>_ _ n. (-1, [], n)), net_tcp_send = (\<lambda>_ _ _ n. (-1, n))\<rparr>"

lemma boot_vfs_shape [simp]: "fd_shape (boot_vfs fs)"
  by (simp add: boot_vfs_def fd_shape_def)

lemma boot_vfs_simps [simp]:
  "vfiles (boot_vfs fs) = fs" "t < MAX_TASKS \<Longrightarrow> j < VFS_MAX_FD \<Longrightarrow> the_fd (boot_vfs fs) t j = blank_fd"
  by (simp_all add: boot_vfs_def)

lemma demo_open:
  assumes "fs_write_bin [97] [1, 2, 3] 3 0 (empty_fs no_disk) = Some (1, fs)" "fs_inv fs"
  shows "open_at 1 3 [97] [1, 2, 3] 0 (upd_fd 1 3 (\<lambda>f. f\<lparr>fd_used := True, fd_type := VFS_TYPE_FILE,
    fd_flags := VFS_O_RDWR, fd_name := [97]\<rparr>) (boot_vfs fs))"
proof -
  have nm: "length (cstr [97]) < 32" by (simp add: cstr_Cons)
  obtain i g p d where e: "find_slot (named_file [97]) (files (empty_fs no_disk)) = Some i \<or>
      find_slot (named_file [97]) (files (empty_fs no_disk)) = None \<and> find_slot (\<lambda>f. fused f = 0) (files (empty_fs no_disk)) = Some i"
    "files fs = (files (empty_fs no_disk))[i := g]" "named_file [97] g" "fdata g = Some (p, d)"
    "take (unat (fsize g)) d = take 3 [1, 2, 3]"
    by (rule fs_write_bin_effect [OF assms(1) [unfolded fs_write_bin_def] nm])
  have "find_slot (named_file [97]) (files fs) = Some i"
    using e write_slot [OF e(1)] by (simp add: find_slot_update_hit)
  with e write_slot(1) [OF e(1)] have rd: "fs_read_bin [97] fs = Some (fsize g, Some d)"
    by (simp add: fs_read_bin_def)
  have "file_ok g" using fs_invD(1) [OF assms(2), of i] e(2) write_slot(1) [OF e(1)] by simp
  moreover have "min (unat (fsize g)) (length d) = 3" using arg_cong [OF e(5), of length] by simp
  ultimately have "unat (fsize g) \<le> length d"
    using e(4) by (auto simp: file_ok_def FS_MAX_DATA_def min_def split: if_splits)
  with rd e(5) assms(2) show ?thesis
    by (simp add: open_at_def the_fd_upd MAX_TASKS_def VFS_MAX_FD_def valid_tid_def valid_fd_def VFS_O_RDWR_def
        FS_MAX_BIN_DATA_def blank_fd_def)
qed

end
