(* ===== verification/VfsTable.thy ===== *)
theory VfsTable
  imports VfsFile
begin

text \<open>
  The table of descriptors as a whole: its entries stay well typed under every call of the virtual
  file system, a call for one task leaves the descriptors of the others alone, and descriptors are
  handed out lowest first. The last section is about pipes whose descriptors were inherited.
\<close>

unbundle bit_operations_syntax

section \<open>Well-typed descriptors\<close>

text \<open>
  A descriptor in use has a type; the member of the union that this type reads is meaningful: a
  terminated name, an end of a pipe, a slot of the terminal table.
\<close>

definition fd_typed :: "vfs_fd \<Rightarrow> bool" where
  "fd_typed f \<longleftrightarrow> length (fd_name f) = FS_MAX_NAME \<and>
     (fd_used f \<longrightarrow>
        (case fd_type f of
           VFS_TYPE_NONE \<Rightarrow> False
         | VFS_TYPE_FILE \<Rightarrow> 0 \<in> set (fd_name f)
         | VFS_TYPE_PROC \<Rightarrow> 0 \<in> set (fd_name f)
         | VFS_TYPE_PIPE \<Rightarrow> fd_pipe_end f \<in> {0, 1}
         | VFS_TYPE_TTY \<Rightarrow> valid_tty (fd_tty_id f)
         | _ \<Rightarrow> True))"

definition fd_ok :: "'n vfs \<Rightarrow> bool" where
  "fd_ok s \<longleftrightarrow> fd_shape s \<and> length (tty_slots s) = VFS_TTY_MAX \<and>
     (\<forall>t<MAX_TASKS. \<forall>j<VFS_MAX_FD. fd_typed (the_fd s t j))"

definition keeps_fds :: "int \<Rightarrow> 'n vfs \<Rightarrow> 'n vfs \<Rightarrow> bool" where
  "keeps_fds t s s' \<longleftrightarrow> fd_ok s' \<and> (\<forall>t'<MAX_TASKS. int t' \<noteq> t \<longrightarrow> fd_table s' ! t' = fd_table s ! t')"

named_theorems fds \<open>what keeps the descriptors well typed\<close>

lemma keeps_fds_refl: "fd_ok s \<Longrightarrow> keeps_fds t s s"
  by (simp add: keeps_fds_def)

lemma keeps_fds_trans: "keeps_fds t s s' \<Longrightarrow> keeps_fds t s' s'' \<Longrightarrow> keeps_fds t s s''"
  by (simp add: keeps_fds_def)

lemma keeps_fds_ok: "keeps_fds t s s' \<Longrightarrow> fd_ok s'"
  by (simp add: keeps_fds_def)

lemma fd_okD: "fd_ok s \<Longrightarrow> t < MAX_TASKS \<Longrightarrow> j < VFS_MAX_FD \<Longrightarrow> fd_typed (the_fd s t j)"
  by (simp add: fd_ok_def)

lemma fd_ok_shape: "fd_ok s \<Longrightarrow> fd_shape s"
  by (simp add: fd_ok_def)

text \<open>Changes outside of the table.\<close>

lemma keeps_fds_outside:
  assumes "fd_ok s" "fd_table s' = fd_table s" "length (tty_slots s') = length (tty_slots s)"
  shows "keeps_fds t s s'"
  using assms by (auto simp: keeps_fds_def fd_ok_def fd_shape_def)

text \<open>A change of one descriptor.\<close>

lemma keeps_fds_upd:
  assumes "fd_ok s" "valid_tid t" "j < VFS_MAX_FD" "fd_typed (g (the_fd s (nat t) j))"
  shows "keeps_fds t s (upd_fd (nat t) j g s)"
proof -
  have t: "nat t < MAX_TASKS" "\<And>t'. int t' \<noteq> t \<Longrightarrow> nat t \<noteq> t'" using assms(2) by (auto simp: valid_tid_def)
  have "fd_ok (upd_fd (nat t) j g s)"
    using assms t fd_ok_shape [OF assms(1)] by (auto simp: fd_ok_def the_fd_upd)
  with t(2) show ?thesis by (auto simp: keeps_fds_def upd_fd_def)
qed

lemma str_copy_n_name:
  assumes "length dst = FS_MAX_NAME"
  shows "length (str_copy_n dst src FS_MAX_NAME) = FS_MAX_NAME" "0 \<in> set (str_copy_n dst src FS_MAX_NAME)"
proof -
  have ok: "file_ok ((fs_blank (\<lambda>_. 0) 0)\<lparr>fname := dst\<rparr>)" using assms by (simp add: file_ok_def fs_blank_def)
  obtain nm' where "fs_strcpy dst src FS_MAX_NAME = Some nm'" "length nm' = FS_MAX_NAME" "0 \<in> set nm'"
    using copied_name_ok [OF ok, of src] by auto
  then show "length (str_copy_n dst src FS_MAX_NAME) = FS_MAX_NAME" "0 \<in> set (str_copy_n dst src FS_MAX_NAME)"
    by (simp_all add: str_copy_n_def fs_strcpy_def)
qed

lemma typed_open:
  "fd_typed f \<Longrightarrow> ty \<in> {VFS_TYPE_FILE, VFS_TYPE_PROC, VFS_TYPE_DEV} \<Longrightarrow> fd_typed (open_fd ty fl off nm f)"
  using str_copy_n_name [of "fd_name f"] by (auto simp: fd_typed_def open_fd_def)

lemma typed_simple [fds]:
  "fd_typed f \<Longrightarrow> fd_typed (f\<lparr>fd_used := False\<rparr>)" "fd_typed f \<Longrightarrow> fd_typed (f\<lparr>fd_flags := fl\<rparr>)"
  "fd_typed f \<Longrightarrow> fd_typed (f\<lparr>fd_offset := off\<rparr>)"
  "fd_typed f \<Longrightarrow> e \<in> {0, 1} \<Longrightarrow> fd_typed (pipe_fd fl pid e f)"
  "fd_typed f \<Longrightarrow> fd_typed (f\<lparr>fd_used := True, fd_type := VFS_TYPE_STDIN, fd_flags := fl\<rparr>)"
  "fd_typed f \<Longrightarrow> fd_typed (f\<lparr>fd_used := True, fd_type := VFS_TYPE_STDOUT, fd_flags := fl\<rparr>)"
  "fd_typed f \<Longrightarrow> fd_typed (f\<lparr>fd_used := True, fd_type := VFS_TYPE_NET, fd_flags := fl, fd_net_conn := c\<rparr>)"
  "fd_typed f \<Longrightarrow> valid_tty k \<Longrightarrow>
     fd_typed (f\<lparr>fd_used := True, fd_type := VFS_TYPE_TTY, fd_flags := fl, fd_tty_id := k\<rparr>)"
  by (auto simp: fd_typed_def pipe_fd_def split: fd_type.splits)

lemma free_fd_bound:
  assumes "fd_shape s" "t < MAX_TASKS" "free_fd t s = Some j"
  shows "3 \<le> j" "j < VFS_MAX_FD" "\<not> fd_used (the_fd s t j)" "\<And>k. 3 \<le> k \<Longrightarrow> k < j \<Longrightarrow> fd_used (the_fd s t k)"
  using find_slot_from_SomeD [OF assms(3) [unfolded free_fd_def]] fd_shape_row [OF assms(1,2)] by auto


text \<open>One lemma per operation; the ones that change a single descriptor share the shape of their proof.\<close>

lemma tid_bound: "valid_tid t \<Longrightarrow> nat t < MAX_TASKS"
  by (auto simp: valid_tid_def)

lemma keeps_then_upd:
  assumes "fd_ok s" "fd_table s1 = fd_table s" "length (tty_slots s1) = length (tty_slots s)"
    "valid_tid t" "j < VFS_MAX_FD" "fd_typed (g (the_fd s (nat t) j))"
  shows "keeps_fds t s (upd_fd (nat t) j g s1)"
proof -
  have "keeps_fds t s s1" using assms(1-3) by (rule keeps_fds_outside)
  moreover have "keeps_fds t s1 (upd_fd (nat t) j g s1)"
    by (rule keeps_fds_upd) (use assms keeps_fds_ok [OF calculation] in auto)
  ultimately show ?thesis by (rule keeps_fds_trans)
qed

lemma vfs_init_task_keeps:
  assumes "fd_ok s"
  shows "keeps_fds t s (vfs_init_task t s)"
proof (cases "valid_tid t")
  case True
  let ?s1 = "s\<lparr>fd_table := (fd_table s)[nat t := map (\<lambda>f. f\<lparr>fd_used := False\<rparr>) (fd_table s ! nat t)]\<rparr>"
  have l: "length (fd_table s) = MAX_TASKS" "length (fd_table s ! nat t) = VFS_MAX_FD"
    using fd_ok_shape [OF assms] fd_shape_row [OF _ tid_bound [OF True]] by (auto simp: fd_shape_def)
  have "fd_shape ?s1"
    using fd_ok_shape [OF assms] l by (auto simp: fd_shape_def dest!: set_update_subset_insert [THEN subsetD])
  moreover have "fd_typed (the_fd ?s1 t' j)" if "t' < MAX_TASKS" "j < VFS_MAX_FD" for t' j
    using that l fd_okD [OF assms, of t' j] fd_okD [OF assms, of "nat t" j] tid_bound [OF True]
    by (auto simp: nth_list_update intro!: typed_simple)
  ultimately have s1: "keeps_fds t s ?s1"
    using assms True by (auto simp: keeps_fds_def fd_ok_def valid_tid_def nth_list_update)
  have upd: "keeps_fds t s (upd_fd (nat t) j g s')"
    if "keeps_fds t s s'" "j < 3" "\<And>f. fd_typed f \<Longrightarrow> fd_typed (g f)" for s' :: "'a vfs" and j g
    using that True fd_okD [OF keeps_fds_ok [OF that(1)] tid_bound [OF True], of j]
    by (intro keeps_fds_trans [OF that(1)] keeps_fds_upd keeps_fds_ok [OF that(1)]) (auto simp: VFS_MAX_FD_def)
  note s2 = upd [OF s1, of 0 "\<lambda>f. f\<lparr>fd_used := True, fd_type := VFS_TYPE_STDIN, fd_flags := VFS_O_RDONLY\<rparr>"]
  note s3 = upd [OF s2, of 1 "\<lambda>f. f\<lparr>fd_used := True, fd_type := VFS_TYPE_STDOUT, fd_flags := VFS_O_WRONLY\<rparr>"]
  note s4 = upd [OF s3, of 2 "\<lambda>f. f\<lparr>fd_used := True, fd_type := VFS_TYPE_STDOUT, fd_flags := VFS_O_WRONLY\<rparr>"]
  from s4 True show ?thesis by (simp add: vfs_init_task_def Let_def typed_simple)
qed (use assms in \<open>simp add: vfs_init_task_def keeps_fds_refl\<close>)

lemma vfs_copy_fds_keeps:
  assumes "fd_ok s"
  shows "keeps_fds dst s (vfs_copy_fds src dst s)"
proof (cases "valid_tid src \<and> valid_tid dst")
  case True
  then have b: "nat src < MAX_TASKS" "nat dst < MAX_TASKS" "\<And>t'. int t' \<noteq> dst \<Longrightarrow> nat dst \<noteq> t'"
    by (auto simp: valid_tid_def)
  have "fd_shape (vfs_copy_fds src dst s)"
    using fd_ok_shape [OF assms] b True
    by (auto simp: fd_shape_def vfs_copy_fds_def dest!: set_update_subset_insert [THEN subsetD])
  with assms b True show ?thesis
    by (auto simp: keeps_fds_def fd_ok_def vfs_copy_fds_def fd_shape_def nth_list_update)
qed (use assms in \<open>auto simp: vfs_copy_fds_def keeps_fds_refl\<close>)

lemma create_missing_outside:
  "create_missing path s = Some s' \<Longrightarrow> fd_table s' = fd_table s \<and> tty_slots s' = tty_slots s"
  by (auto simp: create_missing_def bind_eq_Some_conv split: option.splits)

lemma open_fd_keeps:
  assumes "fd_ok s" "valid_tid t" "free_fd (nat t) s = Some j" "fd_table s1 = fd_table s" "tty_slots s1 = tty_slots s"
    "ty \<in> {VFS_TYPE_FILE, VFS_TYPE_PROC, VFS_TYPE_DEV}"
  shows "keeps_fds t s (upd_fd (nat t) j (open_fd ty fl off nm) s1)"
proof -
  have "j < VFS_MAX_FD" using free_fd_bound(2) [OF fd_ok_shape [OF assms(1)] tid_bound [OF assms(2)] assms(3)] .
  then show ?thesis
    using assms fd_okD [OF assms(1) tid_bound [OF assms(2)], of j] by (intro keeps_then_upd typed_open) auto
qed

lemma vfs_open_keeps:
  assumes "fd_ok s" "vfs_open t path fl s = Some (r, s')"
  shows "keeps_fds t s s'"
  using assms create_missing_outside
  by (fastforce simp: vfs_open_def open_file_def Let_def bind_eq_Some_conv keeps_fds_refl intro: open_fd_keeps
      split: option.splits if_splits)


definition outside :: "'n vfs \<Rightarrow> 'n vfs \<Rightarrow> bool" where
  "outside s s' \<longleftrightarrow> fd_table s' = fd_table s \<and> length (tty_slots s') = length (tty_slots s)"

lemma outside_keeps: "fd_ok s \<Longrightarrow> outside s s' \<Longrightarrow> keeps_fds t s s'"
  by (simp add: outside_def keeps_fds_outside)

lemma outside_parts [fds]:
  "detach_writer pid s = Some s' \<Longrightarrow> outside s s'" "outside s (close_net net f s)" "outside s (close_tty f s)"
  "close_writer f s = Some s' \<Longrightarrow> outside s s'" "stdin_pass s = (v, s') \<Longrightarrow> outside s s'"
  "pipe_pass pid ret s = (v, s') \<Longrightarrow> outside s s'" "write_pipe pid buf len s = Some (r, s') \<Longrightarrow> outside s s'"
  by (auto simp: outside_def detach_writer_def close_net_def close_tty_def close_writer_def stdin_pass_def
      pipe_pass_def write_pipe_def Let_def split: if_splits prod.splits read_outcome.splits)

lemma outside_refl: "outside s s"
  by (simp add: outside_def)

lemma outside_trans: "outside s s1 \<Longrightarrow> outside s1 s2 \<Longrightarrow> outside s s2"
  by (simp add: outside_def)

lemma upd_after_outside:
  assumes "fd_ok s" "outside s s1" "valid_tid t" "j < VFS_MAX_FD" "fd_typed (g (the_fd s (nat t) j))"
  shows "keeps_fds t s (upd_fd (nat t) j g s1)"
  using assms by (intro keeps_then_upd) (auto simp: outside_def)

lemma fd_bound: "valid_fd fd \<Longrightarrow> nat fd < VFS_MAX_FD"
  by (auto simp: valid_fd_def)

lemma advance_keeps:
  assumes "fd_ok s" "outside s s1" "valid_tid t" "valid_fd fd"
  shows "keeps_fds t s (advance (nat t) (nat fd) n s1)"
  unfolding advance_def
  using assms fd_okD [OF assms(1) tid_bound [OF assms(3)] fd_bound [OF assms(4)]]
  by (intro upd_after_outside typed_simple) (auto simp: fd_bound)

lemma vfs_read_keeps:
  assumes "fd_ok s" "vfs_read net t fd len s = Some (v, s')"
  shows "keeps_fds t s s'"
proof (cases "valid_tid t \<and> valid_fd fd \<and> fd_used (the_fd s (nat t) (nat fd))")
  case True
  note adv = advance_keeps [OF assms(1) _ conjunct1 [OF True] conjunct1 [OF conjunct2 [OF True]]]
  have gen: "outside s (proc_generate nm s)" for nm by (simp add: outside_def proc_generate_def)
  have rf: "keeps_fds t s s'" if "read_file (nat t) (nat fd) len s = Some (v, s')"
    using that adv [OF outside_refl] keeps_fds_refl [OF assms(1)]
    by (auto simp: read_file_def Let_def bind_eq_Some_conv split: if_splits option.splits)
  have rp: "keeps_fds t s s'" if "read_proc (nat t) (nat fd) len s = Some (v, s')"
    using that adv [OF outside_refl] adv [OF gen]
    by (auto simp: read_proc_def Let_def bind_eq_Some_conv split: if_splits)
  note k = outside_keeps [OF assms(1)]
  have net: "outside s (s\<lparr>vnet := n\<rparr>)" for n by (simp add: outside_def)
  show ?thesis
    using assms(2) True rf rp k [OF outside_parts(5)] k [OF outside_parts(6)] k [OF net] k [OF outside_refl]
    by (auto simp: vfs_read_def Let_def split: fd_type.splits if_splits prod.splits)
qed (use assms keeps_fds_refl [OF assms(1)] in \<open>auto simp: vfs_read_def Let_def split: if_splits\<close>)

lemma vfs_write_keeps:
  assumes "fd_ok s" "vfs_write net t fd buf len s = Some (r, s')"
  shows "keeps_fds t s s'"
proof (cases "valid_tid t \<and> valid_fd fd \<and> fd_used (the_fd s (nat t) (nat fd))")
  case True
  have fs: "outside s (s\<lparr>vfiles := fs\<rparr>)" for fs by (simp add: outside_def)
  have wf: "keeps_fds t s s'" if "write_file (nat t) (nat fd) buf len s = Some (r, s')"
    using that advance_keeps [OF assms(1) fs] True outside_keeps [OF assms(1) fs] keeps_fds_refl [OF assms(1)]
    by (auto simp: write_file_def store_file_def Let_def bind_eq_Some_conv
        split: if_splits option.splits prod.splits)
  note k = outside_keeps [OF assms(1)]
  have net: "outside s (s\<lparr>vnet := n\<rparr>)" "outside s (s\<lparr>screen := sc\<rparr>)" for n sc by (simp_all add: outside_def)
  show ?thesis
    using assms(2) True wf k [OF outside_parts(7)] k [OF net(1)] k [OF net(2)] k [OF outside_refl]
    by (auto simp: vfs_write_def Let_def split: fd_type.splits if_splits prod.splits)
qed (use assms keeps_fds_refl [OF assms(1)] in \<open>auto simp: vfs_write_def Let_def split: if_splits\<close>)

lemma vfs_close_keeps:
  assumes "fd_ok s" "vfs_close net t fd s = Some (r, s')"
  shows "keeps_fds t s s'"
proof (cases "valid_tid t \<and> 3 \<le> fd \<and> valid_fd fd \<and> fd_used (the_fd s (nat t) (nat fd))")
  case True
  let ?f = "the_fd s (nat t) (nat fd)"
  from assms(2) True obtain s1 where s1: "close_writer ?f (close_tty ?f (close_net net ?f s)) = Some s1"
    "s' = upd_fd (nat t) (nat fd) (\<lambda>f. f\<lparr>fd_used := False\<rparr>) s1"
    by (auto simp: vfs_close_def Let_def bind_eq_Some_conv valid_fd_def)
  have "outside s s1"
    using outside_parts(4) [OF s1(1)] outside_parts(2,3) by (meson outside_trans)
  with assms(1) True s1(2) fd_okD [OF assms(1) tid_bound fd_bound] show ?thesis
    by (auto intro!: upd_after_outside typed_simple simp: fd_bound)
qed (use assms keeps_fds_refl [OF assms(1)] in \<open>auto simp: vfs_close_def Let_def valid_fd_def split: if_splits\<close>)

lemma close_from_keeps:
  assumes "fd_ok s" "valid_tid t" "close_from net (nat t) js s = Some s'" "\<forall>j\<in>set js. j < VFS_MAX_FD"
  shows "keeps_fds t s s'"
  using assms
proof (induction net "nat t" js s rule: close_from.induct)
  case (2 net j js s)
  show ?case
  proof (cases "fd_used (the_fd s (nat t) j)")
    case True
    with 2 obtain s1 where s1: "close_writer (the_fd s (nat t) j) (close_net net (the_fd s (nat t) j) s) = Some s1"
      "close_from net (nat t) js (upd_fd (nat t) j (\<lambda>f. f\<lparr>fd_used := False\<rparr>) s1) = Some s'"
      by (auto simp: bind_eq_Some_conv)
    have "outside s s1" using outside_parts(4) [OF s1(1)] outside_parts(2) by (meson outside_trans)
    with 2 have k: "keeps_fds t s (upd_fd (nat t) j (\<lambda>f. f\<lparr>fd_used := False\<rparr>) s1)"
      by (intro upd_after_outside typed_simple fd_okD tid_bound) auto
    from 2(1) [OF True s1(1) keeps_fds_ok [OF k]] 2 s1(2) k show ?thesis by (auto intro: keeps_fds_trans)
  qed (use 2 in auto)
qed (simp add: keeps_fds_refl)


lemma vfs_pipe_keeps:
  assumes "fd_ok s" "vfs_pipe t s = (r, s')"
  shows "keeps_fds t s s'"
proof (cases r)
  case None
  with assms(2) have "outside s s'"
    by (auto simp: vfs_pipe_def Let_def outside_def split: if_splits prod.splits option.splits)
  with assms(1) show ?thesis by (rule outside_keeps)
next
  case (Some rw)
  obtain rd w where rw: "rw = (rd, w)" by fastforce
  from assms(2) Some rw obtain pid ps where e: "valid_tid t" "free_fd (nat t) s = Some rd"
    "find_slot_from (Suc rd) (\<lambda>f. \<not> fd_used f) (fd_table s ! nat t) = Some w"
    "s' = (upd_fd (nat t) w (pipe_fd VFS_O_WRONLY pid 1) (upd_fd (nat t) rd (pipe_fd VFS_O_RDONLY pid 0) s))\<lparr>vpipes := ps\<rparr>"
    by (auto simp: vfs_pipe_def Let_def split: if_splits prod.splits option.splits)
  note sh = fd_ok_shape [OF assms(1)] and t = tid_bound [OF e(1)]
  have rd: "rd < VFS_MAX_FD" by (rule free_fd_bound(2) [OF sh t e(2)])
  have w: "w < VFS_MAX_FD" using find_slot_from_SomeD(2) [OF e(3)] fd_shape_row [OF sh t] by simp
  let ?s1 = "upd_fd (nat t) rd (pipe_fd VFS_O_RDONLY pid 0) s"
  let ?s2 = "upd_fd (nat t) w (pipe_fd VFS_O_WRONLY pid 1) ?s1"
  have k1: "keeps_fds t s ?s1"
    by (intro keeps_fds_upd typed_simple fd_okD [OF assms(1) t] assms(1) e(1) rd) simp
  have k2: "keeps_fds t ?s1 ?s2"
    by (intro keeps_fds_upd typed_simple fd_okD [OF keeps_fds_ok [OF k1] t] keeps_fds_ok [OF k1] e(1) w) simp
  have "keeps_fds t ?s2 s'" using e(4) by (intro keeps_fds_outside keeps_fds_ok [OF k2]) simp_all
  with k1 k2 show ?thesis by (blast intro: keeps_fds_trans)
qed

lemma vfs_net_open_keeps:
  assumes "fd_ok s" "vfs_net_open net t ip port s = (r, s')"
  shows "keeps_fds t s s'"
proof -
  have net: "outside s (s\<lparr>vnet := n\<rparr>)" for n by (simp add: outside_def)
  have "keeps_fds t s (upd_fd (nat t) j (\<lambda>f. f\<lparr>fd_used := True, fd_type := VFS_TYPE_NET,
      fd_flags := VFS_O_RDWR, fd_net_conn := c\<rparr>) (s\<lparr>vnet := n\<rparr>))"
    if "valid_tid t" "free_fd (nat t) (s\<lparr>vnet := n\<rparr>) = Some j" for j c n
  proof -
    have "free_fd (nat t) s = Some j" using that(2) by (simp add: free_fd_def)
    from free_fd_bound(2) [OF fd_ok_shape [OF assms(1)] tid_bound [OF that(1)] this] show ?thesis
      by (intro upd_after_outside net typed_simple fd_okD [OF assms(1) tid_bound [OF that(1)]] assms(1) that(1))
  qed
  with assms(2) outside_keeps [OF assms(1) net] keeps_fds_refl [OF assms(1)] show ?thesis
    by (auto simp: vfs_net_open_def Let_def split: if_splits prod.splits option.splits)
qed

lemma vfs_tty_open_keeps:
  assumes "fd_ok s" "vfs_tty_open t s = (r, s')"
  shows "keeps_fds t s s'"
proof -
  have out: "outside s (s\<lparr>vpipes := ps\<rparr>)" "outside s (s\<lparr>vpipes := ps, tty_slots := (tty_slots s)[k := x]\<rparr>)" for ps k x
    by (simp_all add: outside_def)
  have "keeps_fds t s (upd_fd (nat t) j (\<lambda>f. f\<lparr>fd_used := True, fd_type := VFS_TYPE_TTY,
      fd_flags := VFS_O_RDWR, fd_tty_id := i16 (int k)\<rparr>) (s\<lparr>vpipes := ps, tty_slots := (tty_slots s)[k := x]\<rparr>))"
    if "valid_tid t" "free_fd (nat t) (s\<lparr>vpipes := ps, tty_slots := (tty_slots s)[k := x]\<rparr>) = Some j"
      "find_slot (\<lambda>y. \<not> tty_used y) (tty_slots s) = Some k" for j ps k x
  proof -
    have j: "free_fd (nat t) s = Some j" using that(2) by (simp add: free_fd_def)
    have "k < 4" using find_slot_SomeD(1) [OF that(3)] assms(1) by (simp add: fd_ok_def VFS_TTY_MAX_def)
    then have "k = 0 \<or> k = 1 \<or> k = 2 \<or> k = 3" by linarith
    then have "valid_tty (i16 (int k))" by (auto simp: valid_tty_def i16_def VFS_TTY_MAX_def)
    with free_fd_bound(2) [OF fd_ok_shape [OF assms(1)] tid_bound [OF that(1)] j] show ?thesis
      by (intro upd_after_outside out typed_simple fd_okD [OF assms(1) tid_bound [OF that(1)]] assms(1) that(1))
  qed
  with assms(2) outside_keeps [OF assms(1) out(1)] outside_keeps [OF assms(1) out(2)] keeps_fds_refl [OF assms(1)]
  show ?thesis by (auto simp: vfs_tty_open_def Let_def split: if_splits prod.splits option.splits)
qed

lemma one_fd_keeps:
  assumes "fd_ok s" "valid_tid t" "j < VFS_MAX_FD" "\<And>f. fd_typed f \<Longrightarrow> fd_typed (g f)"
  shows "keeps_fds t s (upd_fd (nat t) j g s)"
  using assms fd_okD [OF assms(1) tid_bound [OF assms(2)] assms(3)] by (intro keeps_fds_upd) auto

lemma std_fd: "0 < VFS_MAX_FD" "1 < VFS_MAX_FD" "2 < VFS_MAX_FD"
  by (simp_all add: VFS_MAX_FD_def)

lemma redirect_both_keeps:
  assumes "fd_ok s" "valid_tid t" "outside s s1"
  shows "keeps_fds t s (redirect_both (nat t) off path s1)"
proof -
  have k0: "keeps_fds t s s1" by (rule outside_keeps [OF assms(1,3)])
  note ok = keeps_fds_ok [OF k0]
  let ?s2 = "upd_fd (nat t) 1 (open_fd VFS_TYPE_FILE VFS_O_WRONLY off path) s1"
  have k1: "keeps_fds t s1 ?s2" by (rule one_fd_keeps [OF ok assms(2) std_fd(2)]) (simp add: typed_open)
  have k2: "keeps_fds t ?s2 (upd_fd (nat t) 2 (\<lambda>_. the_fd ?s2 (nat t) 1) ?s2)"
    by (intro keeps_fds_upd keeps_fds_ok [OF k1] assms(2) std_fd fd_okD tid_bound)
  from k0 k1 k2 show ?thesis unfolding redirect_both_def Let_def by (blast intro: keeps_fds_trans)
qed

lemma vfs_redirect_out_keeps:
  assumes "fd_ok s" "vfs_redirect_out t path s = Some (r, s') \<or> vfs_redirect_out_append t path s = Some (r, s')"
  shows "keeps_fds t s s'"
proof -
  have fs: "outside s (s\<lparr>vfiles := fs\<rparr>)" for fs by (simp add: outside_def)
  have cm: "outside s s1" if "create_missing p s = Some s1" for p s1
    using create_missing_outside [OF that] by (simp add: outside_def)
  from assms(2) redirect_both_keeps [OF assms(1) _ fs] redirect_both_keeps [OF assms(1) _ cm]
    redirect_both_keeps [OF assms(1) _ outside_refl] keeps_fds_refl [OF assms(1)]
  show ?thesis
    by (auto simp: vfs_redirect_out_def vfs_redirect_out_append_def no_path_def Let_def bind_eq_Some_conv split: if_splits)
qed

lemma vfs_redirect_keeps:
  assumes "fd_ok s" "vfs_redirect_out_pipe t pid s = (r, s') \<or> vfs_redirect_in_pipe t pid s = (r, s') \<or>
    vfs_redirect_in t path s = (r, s')"
  shows "keeps_fds t s s'"
proof (cases "valid_tid t")
  case True
  note one = one_fd_keeps [OF assms(1) True]
  have "keeps_fds t s (upd_fd (nat t) 1 (pipe_fd VFS_O_WRONLY pid 1) s)"
    by (rule one [OF std_fd(2)]) (simp add: typed_simple)
  then have "keeps_fds t s ((upd_fd (nat t) 1 (pipe_fd VFS_O_WRONLY pid 1) s)\<lparr>vpipes := ps\<rparr>)" for ps
    by (auto simp: keeps_fds_def fd_ok_def fd_shape_def)
  moreover have "keeps_fds t s (upd_fd (nat t) 0 (pipe_fd VFS_O_RDONLY pid 0) s)"
    by (rule one [OF std_fd(1)]) (simp add: typed_simple)
  moreover have "keeps_fds t s (upd_fd (nat t) 0 (open_fd VFS_TYPE_FILE VFS_O_RDONLY 0 p) s)" for p
    by (rule one [OF std_fd(1)]) (simp add: typed_open)
  ultimately show ?thesis using assms(2) True keeps_fds_refl [OF assms(1), of t]
    by (auto simp: vfs_redirect_out_pipe_def vfs_redirect_in_pipe_def vfs_redirect_in_def split: if_splits)
qed (use assms keeps_fds_refl [OF assms(1)] in
    \<open>auto simp: vfs_redirect_out_pipe_def vfs_redirect_in_pipe_def vfs_redirect_in_def no_path_def\<close>)

lemma vfs_seek_flags_keeps:
  assumes "fd_ok s" "vfs_seek t fd off s = (r, s') \<or> vfs_set_flags t fd fl s = (r, s')"
  shows "keeps_fds t s s'"
proof (cases "valid_tid t \<and> valid_fd fd")
  case True
  note one = one_fd_keeps [OF assms(1) conjunct1 [OF True] fd_bound [OF conjunct2 [OF True]]]
  have "keeps_fds t s (upd_fd (nat t) (nat fd) (\<lambda>f. f\<lparr>fd_offset := off'\<rparr>) s)"
    "keeps_fds t s (upd_fd (nat t) (nat fd) (\<lambda>f. f\<lparr>fd_flags := fl\<rparr>) s)" for off'
    by (intro one typed_simple; assumption)+
  with assms(2) True keeps_fds_refl [OF assms(1), of t] show ?thesis
    by (auto simp: vfs_seek_def vfs_set_flags_def split: if_splits)
qed (use assms keeps_fds_refl [OF assms(1)] in \<open>auto simp: vfs_seek_def vfs_set_flags_def\<close>)

section \<open>All calls for a task\<close>

inductive vfs_call :: "'n net_ops \<Rightarrow> int \<Rightarrow> 'n vfs \<Rightarrow> 'n vfs \<Rightarrow> bool" for net t where
  call_init: "vfs_call net t s (vfs_init_task t s)"
| call_copy: "vfs_call net t s (vfs_copy_fds src t s)"
| call_close_all: "vfs_close_all net t s = Some s' \<Longrightarrow> vfs_call net t s s'"
| call_open: "vfs_open t path fl s = Some (r, s') \<Longrightarrow> vfs_call net t s s'"
| call_pipe: "vfs_pipe t s = (rw, s') \<Longrightarrow> vfs_call net t s s'"
| call_net_open: "vfs_net_open net t ip port s = (r, s') \<Longrightarrow> vfs_call net t s s'"
| call_tty_open: "vfs_tty_open t s = (r, s') \<Longrightarrow> vfs_call net t s s'"
| call_read: "vfs_read net t fd len s = Some (v, s') \<Longrightarrow> vfs_call net t s s'"
| call_stdin: "stdin_pass s = (v, s') \<Longrightarrow> vfs_call net t s s'"
| call_wait_pipe: "pipe_pass pid ret s = (v, s') \<Longrightarrow> vfs_call net t s s'"
| call_flags: "vfs_set_flags t fd fl8 s = (r, s') \<Longrightarrow> vfs_call net t s s'"
| call_write: "vfs_write net t fd buf len s = Some (r, s') \<Longrightarrow> vfs_call net t s s'"
| call_close: "vfs_close net t fd s = Some (r, s') \<Longrightarrow> vfs_call net t s s'"
| call_seek: "vfs_seek t fd off s = (r, s') \<Longrightarrow> vfs_call net t s s'"
| call_out: "vfs_redirect_out t path s = Some (r, s') \<Longrightarrow> vfs_call net t s s'"
| call_append: "vfs_redirect_out_append t path s = Some (r, s') \<Longrightarrow> vfs_call net t s s'"
| call_in: "vfs_redirect_in t path s = (r, s') \<Longrightarrow> vfs_call net t s s'"
| call_out_pipe: "vfs_redirect_out_pipe t pid s = (r, s') \<Longrightarrow> vfs_call net t s s'"
| call_in_pipe: "vfs_redirect_in_pipe t pid s = (r, s') \<Longrightarrow> vfs_call net t s s'"

lemma vfs_close_all_keeps: "fd_ok s \<Longrightarrow> vfs_close_all net t s = Some s' \<Longrightarrow> keeps_fds t s s'"
  by (auto simp: vfs_close_all_def keeps_fds_refl split: if_splits intro: close_from_keeps)

lemma vfs_call_keeps:
  assumes "vfs_call net t s s'" "fd_ok s"
  shows "keeps_fds t s s'"
  using assms
proof cases
  case call_stdin
  with assms(2) outside_parts(5) show ?thesis by (blast intro: outside_keeps)
next
  case call_wait_pipe
  with assms(2) outside_parts(6) show ?thesis by (blast intro: outside_keeps)
qed (use assms(2) vfs_init_task_keeps vfs_copy_fds_keeps vfs_close_all_keeps vfs_open_keeps vfs_pipe_keeps
    vfs_net_open_keeps vfs_tty_open_keeps vfs_read_keeps vfs_write_keeps vfs_close_keeps vfs_redirect_out_keeps
    vfs_redirect_keeps vfs_seek_flags_keeps in \<open>metis\<close>)+


text \<open>
  C23. The descriptor table. Every call of the virtual file system for a task, in any state whose
  descriptors are well typed (32 of them for each of 32 tasks, a type for each one in use, a
  terminated name, a pipe end or a terminal slot where the type needs it), leaves them well typed,
  and leaves all descriptors of every other task as they are.
\<close>

theorem vfs_fds_typed:
  assumes "vfs_call net t s s'" "fd_ok s"
  shows "fd_ok s' \<and> (\<forall>u<MAX_TASKS. int u \<noteq> t \<longrightarrow> fd_table s' ! u = fd_table s ! u)"
  using vfs_call_keeps [OF assms] by (simp add: keeps_fds_def)

lemma boot_vfs_ok: "fd_ok (boot_vfs fs)"
proof -
  have "fd_typed blank_fd" by (simp add: fd_typed_def blank_fd_def FS_MAX_NAME_def)
  then show ?thesis by (simp add: fd_ok_def) (simp add: boot_vfs_def)
qed

theorem vfs_fds_typed_witness:
  "let s = boot_vfs (empty_fs no_disk); s' = vfs_init_task 1 s in
     vfs_call no_net 1 s s' \<and> fd_ok s' \<and> fd_table s' ! 0 = fd_table s ! 0 \<and> fd_used (the_fd s' 1 0)"
proof -
  let ?s = "boot_vfs (empty_fs no_disk)"
  have c: "vfs_call no_net 1 ?s (vfs_init_task 1 ?s)" by (rule call_init)
  have "fd_used (the_fd (vfs_init_task 1 ?s) 1 0)"
    by (simp add: vfs_init_task_def Let_def upd_fd_def boot_vfs_def valid_tid_def MAX_TASKS_def VFS_MAX_FD_def)
  with c vfs_fds_typed [OF c boot_vfs_ok] show ?thesis by (simp add: MAX_TASKS_def)
qed

section \<open>Descriptors that are inherited\<close>

lemma i16_small: "k < 8 \<Longrightarrow> i16 (int k) = int k"
proof -
  assume "k < 8"
  then have "k \<in> {0, 1, 2, 3, 4, 5, 6, 7}" by auto
  then show ?thesis by (auto simp: i16_def)
qed

lemma vfs_pipe_effect:
  assumes "fd_ok s" "length (vpipes s) = PIPE_MAX" "vfs_pipe t s = (Some (r, w), s1)"
  obtains i where "valid_tid t" "i < PIPE_MAX" "3 \<le> r" "r < w" "w < VFS_MAX_FD" "fd_ok s1" "tty_slots s1 = tty_slots s"
    "vtasks s1 = vtasks s" "the_fd s1 (nat t) w = pipe_fd VFS_O_WRONLY (int i) 1 (the_fd s (nat t) w)"
    "the_fd s1 (nat t) r = pipe_fd VFS_O_RDONLY (int i) 0 (the_fd s (nat t) r)" "length (vpipes s1) = PIPE_MAX"
    "vpipes s1 ! i = (pipe_reset_waiters ((vpipes s ! i)\<lparr>p_used := True, p_head := 0, p_tail := 0, p_eof := False,
       write_refs := 0\<rparr>))\<lparr>write_refs := 1\<rparr>"
proof -
  from assms(3) obtain pid ps where e: "valid_tid t" "pipe_alloc (vpipes s) = (pid, ps)" "\<not> pid < 0" "free_fd (nat t) s = Some r"
    "find_slot_from (Suc r) (\<lambda>f. \<not> fd_used f) (fd_table s ! nat t) = Some w"
    "s1 = (upd_fd (nat t) w (pipe_fd VFS_O_WRONLY pid 1) (upd_fd (nat t) r (pipe_fd VFS_O_RDONLY pid 0) s))
       \<lparr>vpipes := pipe_writer_attach pid ps\<rparr>"
    by (auto simp: vfs_pipe_def Let_def split: if_splits prod.splits option.splits)
  note sh = fd_ok_shape [OF assms(1)] and t = tid_bound [OF e(1)]
  note rd = free_fd_bound(1,2) [OF sh t e(4)] and w = find_slot_from_SomeD(1,2) [OF e(5)]
  have w': "w < VFS_MAX_FD" "r < w" using w fd_shape_row [OF sh t] by auto
  from e(2,3) obtain i where i: "find_slot (\<lambda>p. \<not> p_used p) (vpipes s) = Some i" "pid = int i"
    "ps = (vpipes s)[i := pipe_reset_waiters ((vpipes s ! i)\<lparr>p_used := True, p_head := 0, p_tail := 0, p_eof := False, write_refs := 0\<rparr>)]"
    by (auto simp: pipe_alloc_def split: option.splits)
  have il: "i < PIPE_MAX" using find_slot_SomeD(1) [OF i(1)] assms(2) by simp
  have at: "pipe_writer_attach pid ps = ps[i := (ps ! i)\<lparr>write_refs := 1\<rparr>]"
    using il assms(2) i(2,3) by (simp add: pipe_writer_attach_def pipe_valid_def pipe_reset_waiters_def)
  have fds: "the_fd s1 (nat t) j = (if j = w then pipe_fd VFS_O_WRONLY (int i) 1 (the_fd s (nat t) w)
      else if j = r then pipe_fd VFS_O_RDONLY (int i) 0 (the_fd s (nat t) r) else the_fd s (nat t) j)" for j
    using sh t rd(2) w' e(6) i(2) by (simp add: the_fd_upd)
  show thesis
    using that [of i] e(1,6) rd(1) w' il keeps_fds_ok [OF vfs_pipe_keeps [OF assms(1,3)]] fds at i(3) assms(2) by simp
qed

lemma last_writer_detach:
  assumes "i < PIPE_MAX" "length ps = PIPE_MAX" "p_used (ps ! i)" "write_refs (ps ! i) = 1" "rw_head (ps ! i) = rw_tail (ps ! i)"
  shows "pipe_writer_detach (int i) ps ts = Some (ps[i := (ps ! i)\<lparr>write_refs := 0, p_eof := True\<rparr>], ts)"
  using assms
  by (simp add: pipe_writer_detach_def pipe_valid_def Let_def PIPE_WAITER_MAX_def pipe_drain.simps pipe_dequeue_waiter_def)

text \<open>
  The end of a pipe comes too early. \<open>vfs_copy_fds\<close> duplicates the write end of a pipe without
  counting the new writer. After a task has created a pipe and its descriptors were copied to
  another task, closing the write end in the copy marks the end of file and wakes the readers,
  although the descriptor of the first task is still open for writing.
\<close>

theorem vfs_inherited_pipe_eof:
  assumes "fd_ok s" "length (vpipes s) = PIPE_MAX" "vfs_pipe t s = (Some (r, w), s1)"
    "valid_tid u" "u \<noteq> t"
  shows "\<exists>s2. vfs_close net u (int w) (vfs_copy_fds t u s1) = Some (0, s2) \<and> fd_used (the_fd s2 (nat t) w) \<and>
    fd_pipe_end (the_fd s2 (nat t) w) = 1 \<and> p_eof (vpipes s2 ! nat (fd_pipe_id (the_fd s2 (nat t) w)))"
proof -
  obtain i where e: "valid_tid t" "i < PIPE_MAX" "3 \<le> r" "r < w" "w < VFS_MAX_FD" "fd_ok s1"
    "the_fd s1 (nat t) w = pipe_fd VFS_O_WRONLY (int i) 1 (the_fd s (nat t) w)" "length (vpipes s1) = PIPE_MAX"
    "vpipes s1 ! i = (pipe_reset_waiters ((vpipes s ! i)\<lparr>p_used := True, p_head := 0, p_tail := 0, p_eof := False,
       write_refs := 0\<rparr>))\<lparr>write_refs := 1\<rparr>"
    by (rule vfs_pipe_effect [OF assms(1-3)])
  let ?c = "vfs_copy_fds t u s1"
  have ne: "nat u \<noteq> nat t" "nat u < MAX_TASKS" using assms(4,5) e(1) by (auto simp: valid_tid_def)
  have len: "length (fd_table s1) = MAX_TASKS" using fd_ok_shape [OF e(6)] by (simp add: fd_shape_def)
  have c: "the_fd ?c (nat u) w = the_fd s1 (nat t) w" "fd_table ?c ! nat t = fd_table s1 ! nat t" "vpipes ?c = vpipes s1"
    using assms(4) e(1) ne len by (simp_all add: vfs_copy_fds_def)
  have f: "fd_type (the_fd s1 (nat t) w) = VFS_TYPE_PIPE" "fd_pipe_end (the_fd s1 (nat t) w) = 1"
    "fd_used (the_fd s1 (nat t) w)" "fd_pipe_id (the_fd s1 (nat t) w) = int i"
    using e(2,7) i16_small [of i] by (simp_all add: pipe_fd_def PIPE_MAX_def)
  have d: "pipe_writer_detach (int i) (vpipes s1) (vtasks ?c) =
      Some ((vpipes s1)[i := (vpipes s1 ! i)\<lparr>write_refs := 0, p_eof := True\<rparr>], vtasks ?c)"
    using e(2,8,9) by (intro last_writer_detach) (simp_all add: pipe_reset_waiters_def)
  let ?s2 = "upd_fd (nat u) w (\<lambda>f. f\<lparr>fd_used := False\<rparr>)
      (?c\<lparr>vpipes := (vpipes s1)[i := (vpipes s1 ! i)\<lparr>write_refs := 0, p_eof := True\<rparr>], vtasks := vtasks ?c\<rparr>)"
  have "vfs_close net u (int w) ?c = Some (0, ?s2)"
    using assms(4) e(3-5) c f d
    by (simp add: vfs_close_def Let_def close_net_def close_tty_def close_writer_def detach_writer_def)
  moreover have "the_fd ?s2 (nat t) w = the_fd s1 (nat t) w" using ne c by (simp add: upd_fd_def)
  ultimately show ?thesis using f e(2,8) by simp
qed

theorem vfs_inherited_pipe_eof_witness:
  "\<exists>s1 s2. vfs_pipe 1 (boot_vfs (empty_fs no_disk)) = (Some (3, 4), s1) \<and>
     vfs_close no_net 2 4 (vfs_copy_fds 1 2 s1) = Some (0, s2) \<and> fd_used (the_fd s2 1 4) \<and>
     p_eof (vpipes s2 ! nat (fd_pipe_id (the_fd s2 1 4)))"
proof -
  let ?s = "boot_vfs (empty_fs no_disk)"
  have p: "find_slot (\<lambda>p. \<not> p_used p) (vpipes ?s) = Some 0" "length (vpipes ?s) = PIPE_MAX"
    by (simp_all add: boot_vfs_def find_slot_replicate blank_pipe_def PIPE_MAX_def)
  have f: "free_fd 1 ?s = Some 3" "find_slot_from 4 (\<lambda>f. \<not> fd_used f) (fd_table ?s ! 1) = Some 4"
    by (simp_all add: free_fd_def find_slot_from_def boot_vfs_def MAX_TASKS_def VFS_MAX_FD_def find_slot_replicate blank_fd_def)
  obtain s1 where s1: "vfs_pipe 1 ?s = (Some (3, 4), s1)"
    using p f by (simp add: vfs_pipe_def valid_tid_def MAX_TASKS_def pipe_alloc_def Let_def)
  have "valid_tid 2" by (simp add: valid_tid_def MAX_TASKS_def)
  from vfs_inherited_pipe_eof [OF boot_vfs_ok p(2) s1 this, of no_net] s1 show ?thesis by auto
qed

end
