(* ===== verification/Elf.thy ===== *)
theory Elf
  imports Cow "HOL-Library.Monad_Syntax"
begin

text \<open>
  The program loader, \<open>src/kernel/elf_loader.c\<close>: checks of the ELF header, the loop over the
  program headers, and for every page of a loadable segment a fresh zeroed frame, the bytes of the
  file that fall into the page, and a mapping in the address space of the new program.

  The image is the list of its bytes; \<open>None\<close> is an access outside of it (or a loop that does not
  end). Addresses and sizes are 64-bit words and wrap as in the code.
\<close>

unbundle bit_operations_syntax

section \<open>Headers\<close>

definition field :: "nat \<Rightarrow> nat \<Rightarrow> bytes \<Rightarrow> 'a::len word option" where
  "field n off dat = (if off + n \<le> length dat then Some (le_word (take n (drop off dat))) else None)"

record elf_hdr =
  e_ident :: bytes
  e_type :: u16
  e_machine :: u16
  e_entry :: u64
  e_phoff :: u64
  e_phentsize :: u16
  e_phnum :: u16

definition EHDR_SIZE :: nat where "EHDR_SIZE = 64"
definition PHDR_SIZE :: nat where "PHDR_SIZE = 56"

definition elf_header :: "bytes \<Rightarrow> elf_hdr option" where
  "elf_header dat = do {
     ty \<leftarrow> field 2 16 dat;
     ma \<leftarrow> field 2 18 dat;
     en \<leftarrow> field 8 24 dat;
     ph \<leftarrow> field 8 32 dat;
     es \<leftarrow> field 2 54 dat;
     nm \<leftarrow> field 2 56 dat;
     Some \<lparr>e_ident = take 16 dat, e_type = ty, e_machine = ma, e_entry = en, e_phoff = ph,
       e_phentsize = es, e_phnum = nm\<rparr>
   }"

record elf_phdr =
  p_type :: u32
  p_offset :: u64
  p_vaddr :: u64
  p_filesz :: u64
  p_memsz :: u64

definition elf_phdr_at :: "nat \<Rightarrow> bytes \<Rightarrow> elf_phdr option" where
  "elf_phdr_at off dat = do {
     ty \<leftarrow> field 4 off dat;
     po \<leftarrow> field 8 (off + 8) dat;
     va \<leftarrow> field 8 (off + 16) dat;
     fs \<leftarrow> field 8 (off + 32) dat;
     ms \<leftarrow> field 8 (off + 40) dat;
     Some \<lparr>p_type = ty, p_offset = po, p_vaddr = va, p_filesz = fs, p_memsz = ms\<rparr>
   }"

section \<open>Loading\<close>

definition elf_magic :: bytes where "elf_magic = [0x7F, 0x45, 0x4C, 0x46]"

definition header_ok :: "elf_hdr \<Rightarrow> bool" where
  "header_ok h \<longleftrightarrow> take 4 (e_ident h) = elf_magic \<and> e_ident h ! 4 = 2 \<and>
     e_type h = 2 \<and> e_machine h = 0x3E \<and> e_phnum h \<noteq> 0"

text \<open>The bytes of the file that fall into one page.\<close>

definition copy_segment :: "bytes \<Rightarrow> elf_phdr \<Rightarrow> u64 \<Rightarrow> nat \<Rightarrow> vm \<Rightarrow> vm option" where
  "copy_segment dat ph virt_page phys s =
     (let seg_file_end = p_vaddr ph + p_filesz ph;
          page_end = virt_page + 4096;
          copy_start = (if virt_page > p_vaddr ph then virt_page else p_vaddr ph);
          copy_end = (if seg_file_end < page_end then seg_file_end else page_end)
      in if copy_start < copy_end
         then let src = unat (p_offset ph + (copy_start - p_vaddr ph)); len = unat (copy_end - copy_start)
              in if src + len \<le> length dat
                 then Some (vmm_copy_to_frame phys (unat (copy_start - virt_page)) (take len (drop src dat)) s)
                 else None
         else Some s)"

text \<open>The loop over the pages; the flag is false when no frame is left.\<close>

partial_function (option) load_pages ::
    "bytes \<Rightarrow> elf_phdr \<Rightarrow> nat \<Rightarrow> u64 \<Rightarrow> u64 \<Rightarrow> vm \<Rightarrow> (bool \<times> vm) option" where
  "load_pages dat ph pml4 virt_page virt_end s =
     (if virt_page < virt_end
      then let (phys, s) = alloc_frame s in
           if phys = 0 then Some (False, s)
           else do {
             s \<leftarrow> copy_segment dat ph virt_page phys (vmm_zero_frame phys s);
             load_pages dat ph pml4 (virt_page + 4096) virt_end (vmm_map_page pml4 virt_page (word_of_nat phys) 7 s)
           }
      else Some (True, s))"

definition load_segment :: "bytes \<Rightarrow> u32 \<Rightarrow> elf_phdr \<Rightarrow> nat \<Rightarrow> vm \<Rightarrow> (bool \<times> vm) option" where
  "load_segment dat sz ph pml4 s =
     (if p_type ph \<noteq> 1 then Some (True, s)
      else if p_filesz ph > 0 \<and> (p_offset ph \<ge> ucast sz \<or> p_offset ph + p_filesz ph > ucast sz)
      then Some (False, s)
      else load_pages dat ph pml4 (p_vaddr ph AND NOT (mask 12))
             ((p_vaddr ph + p_memsz ph + 4096 - 1) AND NOT (mask 12)) s)"

fun load_headers :: "bytes \<Rightarrow> u32 \<Rightarrow> elf_hdr \<Rightarrow> nat list \<Rightarrow> nat \<Rightarrow> vm \<Rightarrow> (bool \<times> vm) option" where
  "load_headers dat sz h [] pml4 s = Some (True, s)"
| "load_headers dat sz h (i # is) pml4 s =
     (let ph_off = e_phoff h + word_of_nat i * ucast (e_phentsize h)
      in if ph_off + ucast (e_phentsize h) > ucast sz then Some (False, s)
         else do {
           ph \<leftarrow> elf_phdr_at (unat ph_off) dat;
           (ok, s) \<leftarrow> load_segment dat sz ph pml4 s;
           if ok then load_headers dat sz h is pml4 s else Some (False, s)
         })"

definition elf_load :: "bytes \<Rightarrow> u32 \<Rightarrow> nat \<Rightarrow> vm \<Rightarrow> (u64 \<times> vm) option" where
  "elf_load dat sz pml4 s =
     (if unat sz < EHDR_SIZE then Some (0, s)
      else do {
        h \<leftarrow> elf_header dat;
        if \<not> header_ok h then Some (0, s)
        else do {
          (ok, s) \<leftarrow> load_headers dat sz h [0..<unat (e_phnum h)] pml4 s;
          Some (if ok then e_entry h else 0, s)
        }
      })"


section \<open>Bounds\<close>

definition seg_in_file :: "bytes \<Rightarrow> elf_phdr \<Rightarrow> bool" where
  "seg_in_file dat ph \<longleftrightarrow> unat (p_offset ph) + unat (p_filesz ph) < 2 ^ 64 \<and>
     (p_filesz ph = 0 \<or> unat (p_offset ph) + unat (p_filesz ph) \<le> length dat)"

lemma unat_widen:
  fixes a :: u32 and b :: u16
  shows "unat (ucast a :: u64) = unat a" "unat (ucast b :: u64) = unat b"
proof -
  have "unat a < 2 ^ LENGTH(32)" "unat b < 2 ^ LENGTH(16)" by (rule unsigned_less)+
  then show "unat (ucast a :: u64) = unat a" "unat (ucast b :: u64) = unat b"
    by (simp_all add: unsigned_ucast_eq take_bit_nat_eq_self_iff)
qed

lemma unat_add_no_wrap: "unat a + unat b < 2 ^ 64 \<Longrightarrow> unat (a + b :: u64) = unat a + unat b"
  by (simp add: unat_word_ariths)

lemma unat_add_wrap: "2 ^ 64 \<le> unat a + unat b \<Longrightarrow> unat (a + b :: u64) = unat a + unat b - 2 ^ 64"
proof -
  assume a: "2 ^ 64 \<le> unat a + unat b"
  have "unat a < 2 ^ 64" "unat b < 2 ^ 64" using unsigned_less [of a] unsigned_less [of b] by simp_all
  with a have "(unat a + unat b) mod 2 ^ 64 = unat a + unat b - 2 ^ 64" by (simp add: le_mod_geq)
  then show ?thesis by (simp add: unat_word_ariths)
qed

text \<open>The part of a page that comes from the file.\<close>

lemma copy_range:
  assumes "copy_start = (if virt_page > p_vaddr ph then virt_page else p_vaddr ph)"
    "copy_end = (if p_vaddr ph + p_filesz ph < virt_page + 4096 then p_vaddr ph + p_filesz ph else virt_page + 4096)"
    "copy_start < copy_end"
  shows "unat (p_vaddr ph) \<le> unat copy_start" "unat copy_start < unat copy_end"
    "unat copy_end \<le> unat (p_vaddr ph) + unat (p_filesz ph)" "unat virt_page \<le> unat copy_start"
    "unat copy_end \<le> unat (virt_page + 4096)"
proof -
  show a: "unat (p_vaddr ph) \<le> unat copy_start" "unat copy_start < unat copy_end" "unat virt_page \<le> unat copy_start"
    "unat copy_end \<le> unat (virt_page + 4096)"
    using assms by (auto simp: word_less_nat_alt word_le_nat_alt not_less)
  have b: "unat copy_end \<le> unat (p_vaddr ph + p_filesz ph)"
    using assms by (auto simp: word_less_nat_alt)
  show "unat copy_end \<le> unat (p_vaddr ph) + unat (p_filesz ph)"
  proof (cases "unat (p_vaddr ph) + unat (p_filesz ph) < 2 ^ 64")
    case True
    with b show ?thesis by (simp add: unat_add_no_wrap)
  next
    case False
    moreover have "unat (p_filesz ph) < 2 ^ 64" using unsigned_less [of "p_filesz ph"] by simp
    ultimately have "unat (p_vaddr ph + p_filesz ph) < unat (p_vaddr ph)" by (simp add: unat_add_wrap)
    with a b show ?thesis by simp
  qed
qed

lemma unat_diff_le: "unat b \<le> unat a \<Longrightarrow> unat (a - b :: u64) = unat a - unat b"
  by (simp add: unat_sub word_le_nat_alt)

lemma copy_segment_returns:
  assumes "seg_in_file dat ph"
  shows "\<exists>s'. copy_segment dat ph virt_page phys s = Some s'"
proof -
  define cs where "cs = (if virt_page > p_vaddr ph then virt_page else p_vaddr ph)"
  define ce where "ce = (if p_vaddr ph + p_filesz ph < virt_page + 4096 then p_vaddr ph + p_filesz ph else virt_page + 4096)"
  show ?thesis
  proof (cases "cs < ce")
    case True
    note r = copy_range [OF cs_def ce_def True]
    have "p_filesz ph \<noteq> 0" using r by auto
    with assms have f: "unat (p_offset ph) + unat (p_filesz ph) \<le> length dat"
      "unat (p_offset ph) + unat (p_filesz ph) < 2 ^ 64" by (auto simp: seg_in_file_def)
    have "unat (p_offset ph + (cs - p_vaddr ph)) = unat (p_offset ph) + (unat cs - unat (p_vaddr ph))"
      using r f by (subst unat_add_no_wrap) (auto simp: unat_diff_le)
    with r f have "unat (p_offset ph + (cs - p_vaddr ph)) + unat (ce - cs) \<le> length dat"
      by (simp add: unat_diff_le)
    with True show ?thesis by (simp add: copy_segment_def Let_def cs_def [symmetric] ce_def [symmetric])
  next
    case False
    then show ?thesis by (simp add: copy_segment_def Let_def cs_def [symmetric] ce_def [symmetric])
  qed
qed

lemma next_page:
  assumes "unat page mod 4096 = 0" "unat virt_end mod 4096 = 0" "page < (virt_end :: u64)"
  shows "unat (page + 4096) = unat page + 4096" "unat page + 4096 \<le> unat virt_end"
    "unat (page + 4096) mod 4096 = 0"
proof -
  have lt: "unat page < unat virt_end" using assms(3) by (simp add: word_less_nat_alt)
  show le: "unat page + 4096 \<le> unat virt_end"
  proof -
    obtain a b where "unat page = 4096 * a" "unat virt_end = 4096 * b" using assms(1,2) by (auto simp: mod_eq_0_iff_dvd dvd_def)
    with lt show ?thesis by simp
  qed
  have "unat virt_end < 2 ^ 64" using unsigned_less [of virt_end] by simp
  with le show u: "unat (page + 4096) = unat page + 4096" by (subst unat_add_no_wrap) auto
  then show "unat (page + 4096) mod 4096 = 0" using assms(1) by simp
qed

lemma load_pages_returns:
  assumes "seg_in_file dat ph" "unat page mod 4096 = 0" "unat virt_end mod 4096 = 0"
  shows "\<exists>r. load_pages dat ph pml4 page virt_end s = Some r"
  using assms(2)
proof (induction "unat virt_end - unat page" arbitrary: page s rule: less_induct)
  case less
  show ?case
  proof (cases "page < virt_end")
    case True
    note n = next_page [OF less.prems assms(3) True]
    obtain phys s1 where a: "alloc_frame s = (phys, s1)" by fastforce
    obtain s2 where c: "copy_segment dat ph page phys (vmm_zero_frame phys s1) = Some s2"
      using copy_segment_returns [OF assms(1)] by blast
    have "\<exists>r. load_pages dat ph pml4 (page + 4096) virt_end (vmm_map_page pml4 page (word_of_nat phys) 7 s2) = Some r"
      by (rule less.hyps) (use n True in \<open>auto simp: word_less_nat_alt\<close>)
    with True a c show ?thesis by (subst load_pages.simps) (auto split: if_splits)
  next
    case False
    then have "load_pages dat ph pml4 page virt_end s = Some (True, s)" by (subst load_pages.simps) simp
    then show ?thesis by blast
  qed
qed

lemma aligned_down: "unat ((w :: u64) AND NOT (mask 12)) mod 4096 = 0"
  using unat_and_not_mask [of w 12] by simp


lemma header_returns: "58 \<le> length dat \<Longrightarrow> \<exists>h. elf_header dat = Some h"
  by (simp add: elf_header_def field_def)

lemma phdr_returns: "off + 48 \<le> length dat \<Longrightarrow> \<exists>ph. elf_phdr_at off dat = Some ph"
  by (simp add: elf_phdr_at_def field_def)

lemma load_segment_returns:
  assumes "unat (p_offset ph) + unat (p_filesz ph) < 2 ^ 64" "unat sz \<le> length dat"
  shows "\<exists>ok s'. load_segment dat sz ph pml4 s = Some (ok, s')"
proof (cases "p_type ph \<noteq> 1 \<or> p_filesz ph > 0 \<and> (p_offset ph \<ge> ucast sz \<or> p_offset ph + p_filesz ph > ucast sz)")
  case False
  have u: "unat (ucast sz :: u64) = unat sz" by (rule unat_widen)
  have "p_filesz ph = 0 \<or> unat (p_offset ph) + unat (p_filesz ph) \<le> length dat"
  proof (cases "p_filesz ph = 0")
    case nz: False
    then have "p_offset ph + p_filesz ph \<le> ucast sz" using False by (auto simp: word_gt_0 not_less)
    then have "unat (p_offset ph + p_filesz ph) \<le> unat sz" using u by (simp add: word_le_nat_alt)
    with unat_add_no_wrap [OF assms(1)] assms(2) show ?thesis by simp
  qed simp
  with assms(1) have "seg_in_file dat ph" by (simp add: seg_in_file_def)
  from load_pages_returns [OF this aligned_down aligned_down] False show ?thesis
    by (auto simp: load_segment_def)
qed (auto simp: load_segment_def)

definition elf_sane :: "bytes \<Rightarrow> elf_hdr \<Rightarrow> bool" where
  "elf_sane dat h \<longleftrightarrow> PHDR_SIZE \<le> unat (e_phentsize h) \<and>
     unat (e_phoff h) + unat (e_phnum h) * unat (e_phentsize h) < 2 ^ 64 \<and>
     (\<forall>i<unat (e_phnum h). \<forall>ph. elf_phdr_at (unat (e_phoff h) + i * unat (e_phentsize h)) dat = Some ph \<longrightarrow>
        unat (p_offset ph) + unat (p_filesz ph) < 2 ^ 64)"

lemma phdr_offset:
  assumes "elf_sane dat h" "i < unat (e_phnum h)"
  shows "unat (e_phoff h + word_of_nat i * ucast (e_phentsize h)) = unat (e_phoff h) + i * unat (e_phentsize h)"
    "unat (e_phoff h + word_of_nat i * ucast (e_phentsize h) + ucast (e_phentsize h)) =
       unat (e_phoff h) + i * unat (e_phentsize h) + unat (e_phentsize h)"
proof -
  have es: "unat (ucast (e_phentsize h) :: u64) = unat (e_phentsize h)" by (rule unat_widen)
  have le: "i * unat (e_phentsize h) + unat (e_phentsize h) \<le> unat (e_phnum h) * unat (e_phentsize h)"
    using mult_le_mono1 [OF Suc_leI [OF assms(2)], of "unat (e_phentsize h)"] by (simp add: add.commute)
  then have b: "unat (e_phoff h) + i * unat (e_phentsize h) + unat (e_phentsize h) < 2 ^ 64"
    using assms(1) by (simp add: elf_sane_def)
  have "unat (e_phnum h) < 2 ^ LENGTH(16)" by (rule unsigned_less)
  then have "i < 2 ^ 64" using assms(2) by simp
  then have i: "unat (word_of_nat i :: u64) = i" by (intro unat_of_nat_small) simp
  have m: "unat (word_of_nat i * ucast (e_phentsize h) :: u64) = i * unat (e_phentsize h)"
    using b by (simp add: unat_word_ariths i es)
  show a: "unat (e_phoff h + word_of_nat i * ucast (e_phentsize h)) = unat (e_phoff h) + i * unat (e_phentsize h)"
    using b by (subst unat_add_no_wrap) (simp_all add: m)
  show "unat (e_phoff h + word_of_nat i * ucast (e_phentsize h) + ucast (e_phentsize h)) =
       unat (e_phoff h) + i * unat (e_phentsize h) + unat (e_phentsize h)"
    using b by (subst unat_add_no_wrap) (simp_all only: a es)
qed

lemma load_headers_returns:
  assumes "elf_sane dat h" "unat sz \<le> length dat" "\<forall>i\<in>set is. i < unat (e_phnum h)"
  shows "\<exists>ok s'. load_headers dat sz h is pml4 s = Some (ok, s')"
  using assms(3)
proof (induction "is" arbitrary: s)
  case (Cons i "is")
  let ?off = "e_phoff h + word_of_nat i * ucast (e_phentsize h)"
  show ?case
  proof (cases "?off + ucast (e_phentsize h) > ucast sz")
    case False
    have u: "unat (ucast sz :: u64) = unat sz" by (rule unat_widen)
    note o = phdr_offset [OF assms(1), of i]
    have "unat ?off + PHDR_SIZE \<le> length dat"
      using False o Cons.prems u assms(1,2) by (auto simp: not_less word_le_nat_alt elf_sane_def)
    then obtain ph where ph: "elf_phdr_at (unat ?off) dat = Some ph"
      using phdr_returns [of "unat ?off" dat] by (auto simp: PHDR_SIZE_def)
    then have "unat (p_offset ph) + unat (p_filesz ph) < 2 ^ 64"
      using assms(1) o Cons.prems by (auto simp: elf_sane_def)
    from load_segment_returns [OF this assms(2)] obtain ok s1 where s1: "load_segment dat sz ph pml4 s = Some (ok, s1)"
      by blast
    show ?thesis
    proof (cases ok)
      case True
      with Cons.IH [of s1] Cons.prems ph s1 False show ?thesis by (auto simp: Let_def)
    qed (use ph s1 False in \<open>auto simp: Let_def\<close>)
  qed (auto simp: Let_def)
qed auto

text \<open>
  C25. Loading stays inside the image. When the header's program headers do not run past the end of
  the 64-bit range, are at least as long as the structure the loader reads, and no segment's file
  range wraps, \<open>elf_load\<close> returns (an entry point or 0): the loop over the pages ends and no byte
  outside of the image is read, whatever addresses, sizes, types and counts the headers hold and
  however few frames are left.
\<close>

theorem elf_load_in_bounds:
  assumes "unat sz \<le> length dat" "\<forall>h. elf_header dat = Some h \<longrightarrow> elf_sane dat h"
  shows "\<exists>e s'. elf_load dat sz pml4 s = Some (e, s')"
proof (cases "unat sz < EHDR_SIZE")
  case False
  with assms(1) have "58 \<le> length dat" by (simp add: EHDR_SIZE_def)
  then obtain h where h: "elf_header dat = Some h" using header_returns by blast
  with assms have "\<exists>ok s'. load_headers dat sz h [0..<unat (e_phnum h)] pml4 s = Some (ok, s')"
    by (intro load_headers_returns) auto
  with False h show ?thesis by (auto simp: elf_load_def)
qed (simp add: elf_load_def)

text \<open>
  Without that condition the checks do not protect the loader: an offset of the program headers
  close to \<open>2 ^ 64\<close> makes the sum in the check wrap, and the header is read outside of the image.
\<close>

lemma elf_load_wrapped_offset:
  assumes "elf_header dat = Some h" "header_ok h" "EHDR_SIZE \<le> unat sz" "length dat \<le> unat (e_phoff h)"
    "e_phoff h + ucast (e_phentsize h) \<le> ucast sz"
  shows "elf_load dat sz pml4 s = None"
proof -
  have "[0..<unat (e_phnum h)] = 0 # [1..<unat (e_phnum h)]"
    using assms(2) by (intro upt_conv_Cons [THEN trans]) (auto simp: header_ok_def unat_gt_0)
  moreover have "elf_phdr_at (unat (e_phoff h)) dat = None" using assms(4) by (simp add: elf_phdr_at_def field_def)
  ultimately show ?thesis using assms by (simp add: elf_load_def Let_def not_less)
qed

text \<open>An image with one program header, a segment of four bytes at 12 MB.\<close>

definition tiny_elf :: "u64 \<Rightarrow> bytes" where
  "tiny_elf phoff = elf_magic @ [2] @ replicate 11 0 @ le_bytes 2 (2 :: u16) @ le_bytes 2 (0x3E :: u16) @ replicate 4 0 @
     le_bytes 8 (0xC00000 :: u64) @ le_bytes 8 phoff @ replicate 14 0 @ le_bytes 2 (56 :: u16) @ le_bytes 2 (1 :: u16) @ replicate 6 0 @
     le_bytes 4 (1 :: u32) @ replicate 4 0 @ le_bytes 8 (120 :: u64) @ le_bytes 8 (0xC00000 :: u64) @ replicate 8 0 @
     le_bytes 8 (4 :: u64) @ le_bytes 8 (8 :: u64) @ replicate 8 0 @ [1, 2, 3, 4]"

definition tiny_header :: "u64 \<Rightarrow> elf_hdr" where
  "tiny_header phoff = \<lparr>e_ident = elf_magic @ [2] @ replicate 11 0, e_type = 2, e_machine = 0x3E, e_entry = 0xC00000,
     e_phoff = phoff, e_phentsize = 56, e_phnum = 1\<rparr>"

lemma tiny_elf_header: "elf_header (tiny_elf phoff) = Some (tiny_header phoff)"
  by (simp add: elf_header_def field_def tiny_elf_def tiny_header_def elf_magic_def)

lemma tiny_elf_phdr: "elf_phdr_at 64 (tiny_elf phoff) =
    Some \<lparr>p_type = 1, p_offset = 120, p_vaddr = 0xC00000, p_filesz = 4, p_memsz = 8\<rparr>"
  by (simp add: elf_phdr_at_def field_def tiny_elf_def elf_magic_def)

theorem elf_load_in_bounds_witness:
  "(\<exists>e s'. elf_load (tiny_elf 64) 124 demo_root demo_vm = Some (e, s')) \<and>
   elf_load (tiny_elf (- 56)) 124 demo_root demo_vm = None"
proof
  have l: "length (tiny_elf x) = 124" for x by (simp add: tiny_elf_def elf_magic_def)
  have "elf_sane (tiny_elf 64) (tiny_header 64)"
    using tiny_elf_phdr [of 64] by (auto simp: elf_sane_def tiny_header_def PHDR_SIZE_def)
  then show "\<exists>e s'. elf_load (tiny_elf 64) 124 demo_root demo_vm = Some (e, s')"
    by (intro elf_load_in_bounds) (simp_all add: l tiny_elf_header)
  show "elf_load (tiny_elf (- 56)) 124 demo_root demo_vm = None"
    by (rule elf_load_wrapped_offset [OF tiny_elf_header]) (simp_all add: tiny_header_def header_ok_def elf_magic_def EHDR_SIZE_def l)
qed

end
