(* ===== verification/ElfLoad.thy ===== *)
theory ElfLoad
  imports Elf
begin

text \<open>
  What a loaded segment looks like from inside the new program: every page of the segment is mapped
  to a frame of its own that holds the bytes of the file, and zeros where the file has none
  (\<open>elf_segment_loaded\<close>).
\<close>

unbundle bit_operations_syntax

section \<open>The content of one page\<close>

definition seg_byte :: "bytes \<Rightarrow> elf_phdr \<Rightarrow> nat \<Rightarrow> u8" where
  "seg_byte dat ph va =
     (if unat (p_vaddr ph) \<le> va \<and> va < unat (p_vaddr ph) + unat (p_filesz ph)
      then dat ! (unat (p_offset ph) + (va - unat (p_vaddr ph))) else 0)"

lemma copy_to_frame_mem:
  "mem (vmm_copy_to_frame phys off src s) x =
     (if phys + off \<le> x \<and> x < phys + off + length src then src ! (x - (phys + off)) else mem s x)"
proof -
  have "fold (\<lambda>i m. m(phys + off + i := src ! i)) [0..<n] m x =
      (if phys + off \<le> x \<and> x < phys + off + n then src ! (x - (phys + off)) else m x)" for n m
    by (induction n) auto
  then show ?thesis by (simp add: vmm_copy_to_frame_def)
qed

lemma copy_segment_mem:
  assumes "seg_in_file dat ph" "unat (p_vaddr ph) + unat (p_filesz ph) < 2 ^ 64" "unat page + 4096 < 2 ^ 64"
    "copy_segment dat ph page phys s = Some s'"
  shows "frame_bitmap s' = frame_bitmap s \<and> mem s' x =
    (if phys \<le> x \<and> x < phys + 4096 \<and> unat (p_vaddr ph) \<le> unat page + (x - phys) \<and>
        unat page + (x - phys) < unat (p_vaddr ph) + unat (p_filesz ph)
     then seg_byte dat ph (unat page + (x - phys)) else mem s x)"
proof -
  define cs where "cs = (if page > p_vaddr ph then page else p_vaddr ph)"
  define ce where "ce = (if p_vaddr ph + p_filesz ph < page + 4096 then p_vaddr ph + p_filesz ph else page + 4096)"
  let ?va = "unat (p_vaddr ph)" and ?fz = "unat (p_filesz ph)" and ?pg = "unat page"
  have u: "unat (p_vaddr ph + p_filesz ph) = ?va + ?fz" "unat (page + 4096) = ?pg + 4096"
    using assms(2,3) by (simp_all add: unat_add_no_wrap)
  have c: "unat cs = max ?pg ?va" "unat ce = min (?va + ?fz) (?pg + 4096)"
    using u by (auto simp: cs_def ce_def word_less_nat_alt)
  show ?thesis
  proof (cases "cs < ce")
    case True
    note r = copy_range [OF cs_def ce_def True]
    have "p_filesz ph \<noteq> 0" using r by auto
    with assms(1) have f: "unat (p_offset ph) + ?fz \<le> length dat" "unat (p_offset ph) + ?fz < 2 ^ 64"
      by (auto simp: seg_in_file_def)
    have src: "unat (p_offset ph + (cs - p_vaddr ph)) = unat (p_offset ph) + (unat cs - ?va)"
      using r f by (subst unat_add_no_wrap) (auto simp: unat_diff_le)
    have len: "unat (ce - cs) = unat ce - unat cs" "unat (cs - page) = unat cs - ?pg"
      using r by (simp_all add: unat_diff_le)
    have s': "s' = vmm_copy_to_frame phys (unat cs - ?pg)
        (take (unat ce - unat cs) (drop (unat (p_offset ph) + (unat cs - ?va)) dat)) s"
      using assms(4) True src len
      by (auto simp: copy_segment_def Let_def cs_def [symmetric] ce_def [symmetric] split: if_splits)
    have l: "length (take (unat ce - unat cs) (drop (unat (p_offset ph) + (unat cs - ?va)) dat)) = unat ce - unat cs"
      using r f by simp
    have "mem s' x = (if phys + (unat cs - ?pg) \<le> x \<and> x < phys + (unat cs - ?pg) + (unat ce - unat cs)
        then dat ! (unat (p_offset ph) + (unat cs - ?va) + (x - (phys + (unat cs - ?pg)))) else mem s x)"
      unfolding s' copy_to_frame_mem l using r f by (auto simp: ac_simps)
    moreover have "phys + (unat cs - ?pg) \<le> x \<and> x < phys + (unat cs - ?pg) + (unat ce - unat cs) \<longleftrightarrow>
        phys \<le> x \<and> x < phys + 4096 \<and> ?va \<le> ?pg + (x - phys) \<and> ?pg + (x - phys) < ?va + ?fz"
      using r unfolding c by auto
    moreover have "unat (p_offset ph) + (unat cs - ?va) + (x - (phys + (unat cs - ?pg))) =
        unat (p_offset ph) + (?pg + (x - phys) - ?va)"
      if "phys + (unat cs - ?pg) \<le> x" using that r unfolding c by auto
    moreover have "frame_bitmap s' = frame_bitmap s" by (simp add: s' vmm_copy_to_frame_def)
    ultimately show ?thesis
      by (cases "phys + (unat cs - ?pg) \<le> x \<and> x < phys + (unat cs - ?pg) + (unat ce - unat cs)")
        (simp_all only: seg_byte_def simp_thms if_True if_False)
  next
    case False
    then have "s' = s"
      using assms(4) by (simp add: copy_segment_def Let_def cs_def [symmetric] ce_def [symmetric])
    moreover have "\<not> max ?pg ?va < min (?va + ?fz) (?pg + 4096)" using False c by (simp add: word_less_nat_alt)
    ultimately show ?thesis by auto
  qed
qed


section \<open>One round of the loop\<close>

lemma same_frame_div:
  "t mod PAGE_SIZE = 0 \<Longrightarrow> t \<le> x \<Longrightarrow> x < t + PAGE_SIZE \<Longrightarrow> x div PAGE_SIZE = t div PAGE_SIZE"
  using same_frame [of t x] by (metis PAGE_SIZE_def nonzero_mult_div_cancel_right zero_neq_numeral)

lemma fresh_frame_extends:
  assumes inv: "vm_inv lv Sh s" and al: "alloc_frame s = (p, s1)" "p \<noteq> 0"
    and s2: "frame_bitmap s2 = frame_bitmap s1" "\<forall>x. x < p \<or> p + PAGE_SIZE \<le> x \<longrightarrow> mem s2 x = mem s x"
  shows "vm_inv lv Sh s2" "extends lv s lv s2" "frames_free s \<le> Suc (frames_free s2)"
    "lv p = 0" "p mod PAGE_SIZE = 0" "p < 2 ^ 64" "p div PAGE_SIZE \<in> frames_used (frame_bitmap s2)"
    "\<And>r w. lv r = 4 \<Longrightarrow> walk (mem s2) 4 r w = walk (mem s) 4 r w"
proof -
  note f = alloc_frame_fresh [OF inv al]
  have ty: "tables_typed lv (frame_bitmap s)" "bitmap_wf (frame_bitmap s)" "links_down lv (mem s)"
    using inv by (auto simp: vm_inv_def)
  have ent: "entry (mem s2) a j = entry (mem s) a j" if "lv a \<noteq> 0" "j < 512" for a j
  proof -
    have "a \<noteq> p" using that(1) f(1) by auto
    from page_gap [OF tables_typedD(2) [OF ty(1) that(1)] f(2) this] that(2)
    have "a + 8 * j + k < p \<or> p + PAGE_SIZE \<le> a + 8 * j + k" if "k < 8" for k
      using that by (auto simp: PAGE_SIZE_def)
    then show ?thesis unfolding entry_def using s2(2) by (intro load64_cong) blast
  qed
  show inv2: "vm_inv lv Sh s2" using f(6,7) ent by (intro vm_inv_frame [OF inv]) (auto simp: s2)
  have "mem s2 x = mem s x" if "x div PAGE_SIZE \<in> frames_used (frame_bitmap s)" for x
    using that f(8) same_frame_div [OF f(2), of x] s2(2) by (metis not_less)
  with ent f(7) show "extends lv s lv s2" by (auto simp: extends_def links_def s2(1))
  show "lv p = 0" "p mod PAGE_SIZE = 0" "p < 2 ^ 64" using f by auto
  show "p div PAGE_SIZE \<in> frames_used (frame_bitmap s2)" using f(7) s2(1) by simp
  show "walk (mem s2) 4 r w = walk (mem s) 4 r w" if "lv r = 4" for r w by (rule walk_cong [OF ty(3) ent that])
  have "pmm.available (frame_bitmap s) \<subseteq> insert (p div PAGE_SIZE) (pmm.available (frame_bitmap s2))"
    using f(7) s2(1) by (auto simp: pmm_available)
  moreover have "finite (pmm.available (frame_bitmap s2))" by (simp add: pmm_available)
  ultimately have "frames_free s \<le> card (insert (p div PAGE_SIZE) (pmm.available (frame_bitmap s2)))" by (intro card_mono) auto
  also have "\<dots> \<le> Suc (frames_free s2)" using card_insert_le_m1 by (simp add: card_insert_if pmm_available)
  finally show "frames_free s \<le> Suc (frames_free s2)" .
qed

definition page_loaded :: "bytes \<Rightarrow> elf_phdr \<Rightarrow> nat \<Rightarrow> u64 \<Rightarrow> (nat \<Rightarrow> nat) \<Rightarrow> vm \<Rightarrow> bool" where
  "page_loaded dat ph root v lv s \<longleftrightarrow>
     (\<exists>p. walk (mem s) 4 root v = word_of_nat p \<and> p < 2 ^ 64 \<and> p mod PAGE_SIZE = 0 \<and> lv p = 0 \<and>
        p div PAGE_SIZE \<in> frames_used (frame_bitmap s) \<and> (\<forall>k<4096. mem s (p + k) = seg_byte dat ph (unat v + k)))"

lemma page_loaded_extends:
  assumes "page_loaded dat ph root v lv s" "extends lv s lv' s'" "walk (mem s') 4 root v = walk (mem s) 4 root v"
  shows "page_loaded dat ph root v lv' s'"
proof -
  from assms(1) obtain p where p: "walk (mem s) 4 root v = word_of_nat p" "p < 2 ^ 64" "p mod PAGE_SIZE = 0" "lv p = 0"
    "p div PAGE_SIZE \<in> frames_used (frame_bitmap s)" "\<forall>k<4096. mem s (p + k) = seg_byte dat ph (unat v + k)"
    by (auto simp: page_loaded_def)
  note d = extendsD [OF assms(2)]
  have "mem s' (p + k) = mem s (p + k)" if "k < 4096" for k
  proof (rule d(5))
    have "(p + k) div PAGE_SIZE * PAGE_SIZE = p" using that p(3) by (intro same_frame) (auto simp: PAGE_SIZE_def)
    moreover have "(p + k) div PAGE_SIZE = p div PAGE_SIZE" using that p(3) by (intro same_frame_div) (auto simp: PAGE_SIZE_def)
    ultimately show "(p + k) div PAGE_SIZE \<in> frames_used (frame_bitmap s)" "lv ((p + k) div PAGE_SIZE * PAGE_SIZE) = 0"
      using p by simp_all
  qed
  with p assms(3) d(3) [OF p(5)] d(4) [OF p(5,4)] show ?thesis unfolding page_loaded_def by auto
qed

lemma load_one_page:
  assumes inv: "vm_inv lv Sh s" "lv root = 4" and seg: "seg_in_file dat ph" "unat (p_vaddr ph) + unat (p_filesz ph) < 2 ^ 64"
    and page: "unat page + 4096 < 2 ^ 64" "\<not> in_large_page root page (mem s)" and free: "4 \<le> frames_free s"
    and al: "alloc_frame s = (phys, s1)" and cp: "copy_segment dat ph page phys (vmm_zero_frame phys s1) = Some s2"
    and s3: "s3 = vmm_map_page root page (word_of_nat phys) 7 s2"
  obtains lv3 where "phys \<noteq> 0" "vm_inv lv3 Sh s3" "extends lv s lv3 s3" "frames_free s \<le> frames_free s3 + 4"
    "page_loaded dat ph root page lv3 s3"
    "\<And>r w. lv r = 4 \<Longrightarrow> \<not> (r = root \<and> same_page w page) \<Longrightarrow> walk (mem s3) 4 r w = walk (mem s) 4 r w"
proof -
  have wf: "bitmap_wf (frame_bitmap s)" using inv(1) by (simp add: vm_inv_def)
  have nz: "phys \<noteq> 0" using alloc_frame_succeeds(1) [OF wf _ al] free by simp
  note f = alloc_frame_fresh [OF inv(1) al nz]
  note c = copy_segment_mem [OF seg page(1) cp]
  have m2: "mem s2 x = (if phys \<le> x \<and> x < phys + 4096 then seg_byte dat ph (unat page + (x - phys)) else mem s x)" for x
    using c [of x] f(4) by (auto simp: vmm_zero_frame_def zero_frame_eq PAGE_SIZE_def seg_byte_def)
  have b2: "frame_bitmap s2 = frame_bitmap s1" using c by (simp add: vmm_zero_frame_def)
  have out: "\<forall>x. x < phys \<or> phys + PAGE_SIZE \<le> x \<longrightarrow> mem s2 x = mem s x" by (auto simp: m2 PAGE_SIZE_def)
  note e = fresh_frame_extends [OF inv(1) al nz b2 out]
  have "\<not> in_large_page root page (mem s2)" using in_large_extends [OF e(2,1) inv(2)] page(2) by blast
  moreover have "(word_of_nat phys :: u64) AND NOT (mask 12) = word_of_nat phys" by (rule page_word_of_nat(1) [OF e(5,6)])
  moreover have "(7 :: u64) AND NOT (mask 12) = 0" by (simp add: mask_eq_exp_minus_1)
  moreover have "3 \<le> frames_free s2" using e(3) free by simp
  ultimately obtain lv3 where m: "vm_inv lv3 Sh s3" "extends lv s2 lv3 s3" "frames_free s2 \<le> frames_free s3 + 3"
    "walk (mem s3) 4 root page = word_of_nat phys"
    "\<forall>r w. lv r = 4 \<longrightarrow> \<not> (r = root \<and> same_page w page) \<longrightarrow> walk (mem s3) 4 r w = walk (mem s2) 4 r w"
    using map_page_result [OF e(1) inv(2), of page "word_of_nat phys" 7] unfolding s3 map_result_def by auto
  note d = extendsD [OF m(2)]
  have "mem s3 (phys + k) = seg_byte dat ph (unat page + k)" if "k < 4096" for k
  proof -
    have "(phys + k) div PAGE_SIZE * PAGE_SIZE = phys" using that e(5) by (intro same_frame) (auto simp: PAGE_SIZE_def)
    moreover have "(phys + k) div PAGE_SIZE = phys div PAGE_SIZE"
      using that e(5) by (intro same_frame_div) (auto simp: PAGE_SIZE_def)
    ultimately have "mem s3 (phys + k) = mem s2 (phys + k)" using e(4,7) by (intro d(5)) simp_all
    with that show ?thesis by (simp add: m2)
  qed
  with m(4) e d(3) [OF e(7)] d(4) [OF e(7,4)] have "page_loaded dat ph root page lv3 s3"
    unfolding page_loaded_def by (intro exI [of _ phys]) auto
  with that [OF nz m(1) extends_trans [OF e(2) m(2)]] e(3,8) m(3,5) show thesis by auto
qed


section \<open>The whole segment\<close>

lemma same_page_div: "same_page v w \<Longrightarrow> unat v div 4096 mod 2 ^ 36 = unat w div 4096 mod 2 ^ 36"
proof -
  assume "same_page v w"
  then have i: "pt_index 12 v = pt_index 12 w" "pt_index 21 v = pt_index 21 w" "pt_index 30 v = pt_index 30 w"
    "pt_index 39 v = pt_index 39 w"
    unfolding same_page_def by (force simp: numeral_eq_Suc)+
  define a b where "a = unat v div 4096" and "b = unat w div 4096"
  have "unat v div 2 ^ (12 + k) = a div 2 ^ k" "unat w div 2 ^ (12 + k) = b div 2 ^ k" for k
    by (simp_all add: a_def b_def power_add div_mult2_eq)
  from this [of 0] this [of 9] this [of 18] this [of 27] i
  have m: "a mod 512 = b mod 512" "a div 512 mod 512 = b div 512 mod 512"
    "a div 512 div 512 mod 512 = b div 512 div 512 mod 512"
    "a div 512 div 512 div 512 mod 512 = b div 512 div 512 div 512 mod 512"
    by (simp_all add: pt_index_eq div_mult2_eq [symmetric])
  have p: "(2 ^ 36 :: nat) = 512 * (512 * (512 * 512))" by simp
  have "x mod (512 * k) = x mod 512 + 512 * (x div 512 mod k)" for x k :: nat by (simp add: mod_mult2_eq)
  then show ?thesis unfolding a_def [symmetric] b_def [symmetric] p by (simp only: m)
qed

lemma other_page:
  assumes "unat page mod 4096 = 0" "unat page + 4096 \<le> unat v" "unat v - unat page < 2 ^ 48"
  shows "\<not> same_page page v"
proof
  assume "same_page page v"
  from same_page_div [OF this] have e: "unat page div 4096 mod 2 ^ 36 = unat v div 4096 mod 2 ^ 36" .
  define a b where "a = unat page div 4096" and "b = unat v div 4096"
  have pa: "unat page = 4096 * a" using assms(1) by (auto simp: a_def)
  have "a < b" using assms(2) unfolding b_def pa by linarith
  moreover have "b - a < 2 ^ 36"
  proof -
    have "4096 * b \<le> unat v" by (simp add: b_def)
    then have "4096 * (b - a) < 4096 * 2 ^ 36" using assms(3) unfolding pa by (simp add: diff_mult_distrib2)
    then show ?thesis by simp
  qed
  moreover have "2 ^ 36 dvd b - a" using e mod_eq_dvd_iff_nat [of a b "2 ^ 36"] \<open>a < b\<close> by (simp add: a_def b_def)
  ultimately show False by (meson dvd_imp_le not_less zero_less_diff)
qed

lemma load_pages_correct:
  assumes seg: "seg_in_file dat ph" "unat (p_vaddr ph) + unat (p_filesz ph) < 2 ^ 64"
    and al: "unat virt_end mod 4096 = 0" "unat page mod 4096 = 0"
    and inv: "vm_inv lv Sh s" "lv root = 4"
    and free: "4 * ((unat virt_end - unat page) div 4096) \<le> frames_free s" "unat virt_end - unat page < 2 ^ 48"
    and large: "\<forall>v. page \<le> v \<longrightarrow> v < virt_end \<longrightarrow> \<not> in_large_page root v (mem s)"
  shows "\<exists>s' lv'. load_pages dat ph root page virt_end s = Some (True, s') \<and> vm_inv lv' Sh s' \<and> extends lv s lv' s' \<and>
    (\<forall>v. unat v mod 4096 = 0 \<longrightarrow> page \<le> v \<longrightarrow> v < virt_end \<longrightarrow> page_loaded dat ph root v lv' s') \<and>
    (\<forall>r w. lv r = 4 \<longrightarrow> \<not> (r = root \<and> (\<exists>v. page \<le> v \<and> v < virt_end \<and> same_page w v)) \<longrightarrow>
       walk (mem s') 4 r w = walk (mem s) 4 r w)"
  using al(2) inv free large
proof (induction "unat virt_end - unat page" arbitrary: page s lv rule: less_induct)
  case less
  show ?case
  proof (cases "page < virt_end")
    case False
    then have "load_pages dat ph root page virt_end s = Some (True, s)" by (subst load_pages.simps) simp
    with less.prems(2) False show ?thesis by (intro exI [of _ s] exI [of _ lv]) auto
  next
    case True
    note n = next_page [OF less.prems(1) al(1) True]
    have "unat virt_end < 2 ^ LENGTH(64)" by (rule unsigned_less)
    then have pb: "unat page + 4096 < 2 ^ 64" using n(2) al(1) by (cases "unat page + 4096 = unat virt_end") auto
    have "4096 \<le> unat virt_end - unat page" using n(2) by simp
    then have cnt: "(unat virt_end - unat page) div 4096 = Suc ((unat virt_end - unat (page + 4096)) div 4096)"
      unfolding n(1) by (subst le_div_geq) auto
    obtain phys s1 where a: "alloc_frame s = (phys, s1)" by fastforce
    obtain s2 where c: "copy_segment dat ph page phys (vmm_zero_frame phys s1) = Some s2"
      using copy_segment_returns [OF seg(1)] by blast
    define s3 where "s3 = vmm_map_page root page (word_of_nat phys) 7 s2"
    have nl: "\<not> in_large_page root page (mem s)" using less.prems(6) True by blast
    have f4: "4 \<le> frames_free s" using less.prems(4) cnt by simp
    obtain lv3 where o: "phys \<noteq> 0" "vm_inv lv3 Sh s3" "extends lv s lv3 s3" "frames_free s \<le> frames_free s3 + 4"
      "page_loaded dat ph root page lv3 s3"
      "\<forall>r w. lv r = 4 \<longrightarrow> \<not> (r = root \<and> same_page w page) \<longrightarrow> walk (mem s3) 4 r w = walk (mem s) 4 r w"
      by (rule load_one_page [OF less.prems(2,3) seg pb nl f4 a c s3_def]) blast
    have step: "load_pages dat ph root page virt_end s = load_pages dat ph root (page + 4096) virt_end s3"
      using True a c o(1) by (subst load_pages.simps) (simp add: s3_def)
    have up: "page < page + 4096" using n(1) by (simp add: word_less_nat_alt)
    have "lv3 root = 4" using extendsD(1) [OF o(3), of root] less.prems(3) by simp
    moreover have "\<forall>v. page + 4096 \<le> v \<longrightarrow> v < virt_end \<longrightarrow> \<not> in_large_page root v (mem s3)"
      using in_large_extends [OF o(3,2) less.prems(3)] less.prems(6) up by fastforce
    moreover have "unat virt_end - unat (page + 4096) < unat virt_end - unat page"
      unfolding n(1) using n(2) by linarith
    moreover have "4 * ((unat virt_end - unat (page + 4096)) div 4096) \<le> frames_free s3" "unat virt_end - unat (page + 4096) < 2 ^ 48"
      using n o(4) cnt less.prems(4,5) True by (simp_all add: word_less_nat_alt)
    ultimately have "\<exists>s' lv'. load_pages dat ph root (page + 4096) virt_end s3 = Some (True, s') \<and> vm_inv lv' Sh s' \<and>
      extends lv3 s3 lv' s' \<and>
      (\<forall>v. unat v mod 4096 = 0 \<longrightarrow> page + 4096 \<le> v \<longrightarrow> v < virt_end \<longrightarrow> page_loaded dat ph root v lv' s') \<and>
      (\<forall>r w. lv3 r = 4 \<longrightarrow> \<not> (r = root \<and> (\<exists>v. page + 4096 \<le> v \<and> v < virt_end \<and> same_page w v)) \<longrightarrow>
         walk (mem s') 4 r w = walk (mem s3) 4 r w)"
      by (intro less.hyps n(3) o(2))
    then obtain s' lv' where r: "load_pages dat ph root (page + 4096) virt_end s3 = Some (True, s')" "vm_inv lv' Sh s'"
      "extends lv3 s3 lv' s'" "\<forall>v. unat v mod 4096 = 0 \<longrightarrow> page + 4096 \<le> v \<longrightarrow> v < virt_end \<longrightarrow> page_loaded dat ph root v lv' s'"
      "\<forall>r w. lv3 r = 4 \<longrightarrow> \<not> (r = root \<and> (\<exists>v. page + 4096 \<le> v \<and> v < virt_end \<and> same_page w v)) \<longrightarrow>
         walk (mem s') 4 r w = walk (mem s3) 4 r w" by blast
    have l3: "lv3 q = 4" if "lv q = 4" for q using extendsD(1) [OF o(3), of q] that by simp
    have "page_loaded dat ph root page lv' s'"
    proof (rule page_loaded_extends [OF o(5) r(3)])
      have "\<not> same_page page v" if "page + 4096 \<le> v" "v < virt_end" for v
        using that n(1) less.prems(1,5) by (intro other_page) (auto simp: word_le_nat_alt word_less_nat_alt)
      with r(5) l3 [OF less.prems(3)] show "walk (mem s') 4 root page = walk (mem s3) 4 root page" by blast
    qed
    moreover have "v = page \<or> page + 4096 \<le> v" if v: "unat v mod 4096 = 0" "page \<le> v" for v
    proof -
      obtain a b where "unat page = 4096 * a" "unat v = 4096 * b"
        using v(1) less.prems(1) by (auto simp: mod_eq_0_iff_dvd dvd_def)
      with v(2) n(1) show ?thesis by (auto simp: word_le_nat_alt word_unat_eq_iff)
    qed
    ultimately have "\<forall>v. unat v mod 4096 = 0 \<longrightarrow> page \<le> v \<longrightarrow> v < virt_end \<longrightarrow> page_loaded dat ph root v lv' s'"
      using r(4) by metis
    moreover have "walk (mem s') 4 q w = walk (mem s) 4 q w"
      if "lv q = 4" "\<not> (q = root \<and> (\<exists>v. page \<le> v \<and> v < virt_end \<and> same_page w v))" for q w
    proof -
      have "\<not> (q = root \<and> same_page w page)" using that(2) True by blast
      moreover have "\<not> (q = root \<and> (\<exists>v. page + 4096 \<le> v \<and> v < virt_end \<and> same_page w v))"
        using that(2) up by (meson less_imp_le order_trans)
      ultimately show ?thesis using r(5) o(6) l3 [OF that(1)] that(1) by simp
    qed
    ultimately show ?thesis using step r(1,2) extends_trans [OF o(3) r(3)] by (intro exI [of _ s'] exI [of _ lv']) simp
  qed
qed

text \<open>
  C26. What the loader puts in memory. For a loadable segment that lies in the file, with four frames
  free for each of its pages and no part of it inside a 2 MB page, \<open>elf_load\<close>'s loop succeeds. Every
  page of the segment is then mapped in the new program's address space, to a frame whose 4096 bytes
  are the bytes of the file at the segment's offset, and zero before the segment's start and after
  its file part. The address spaces stay in order, and no translation outside of the segment's
  pages changes, in this address space or in another.
\<close>

theorem elf_segment_loaded:
  assumes "vm_ok R s" "root \<in> R" "p_type ph = 1" "unat sz \<le> length dat"
    "unat (p_offset ph) + unat (p_filesz ph) \<le> unat sz" "p_offset ph < ucast sz"
    "unat (p_vaddr ph) + unat (p_filesz ph) < 2 ^ 64"
    "first = p_vaddr ph AND NOT (mask 12)" "past = (p_vaddr ph + p_memsz ph + 4096 - 1) AND NOT (mask 12)"
    "4 * ((unat past - unat first) div 4096) \<le> pmm_free_count (frame_bitmap s)"
    "\<forall>v. first \<le> v \<longrightarrow> v < past \<longrightarrow> \<not> in_large_page root v (mem s)"
  shows "\<exists>s'. load_segment dat sz ph root s = Some (True, s') \<and> vm_ok R s' \<and>
    (\<forall>v. v AND NOT (mask 12) = v \<longrightarrow> first \<le> v \<longrightarrow> v < past \<longrightarrow>
       (\<forall>k<4096. mem s' (unat (vmm_get_phys root v (mem s')) + k) = seg_byte dat ph (unat v + k))) \<and>
    (\<forall>r\<in>R. \<forall>w. \<not> (r = root \<and> (\<exists>v. first \<le> v \<and> v < past \<and> same_page w v)) \<longrightarrow>
       vmm_get_phys r w (mem s') = vmm_get_phys r w (mem s))"
proof -
  obtain lv where lv: "vm_inv lv boot_pds s" "\<forall>r\<in>R. lv r = 4" "lv root = 4" "root \<noteq> 0" "bitmap_wf (frame_bitmap s)"
    by (rule vm_okD [OF assms(1,2)]) blast
  have fr: "pmm_free_count (frame_bitmap s) = frames_free s" by (rule pmm_free_count_card [OF lv(5)])
  have "frames_free s \<le> card {KERNEL_RESERVED_FRAMES..<TOTAL_FRAMES}"
    unfolding pmm_available by (intro card_mono) auto
  then have "frames_free s \<le> 14336" by (simp add: KERNEL_RESERVED_FRAMES_def TOTAL_FRAMES_def)
  with assms(10) fr have "(unat past - unat first) div 4096 < 2 ^ 36" by simp
  then have small: "unat past - unat first < 2 ^ 48" by (simp add: div_less_iff_less_mult)
  have u: "unat (ucast sz :: u64) = unat sz" by (rule unat_widen)
  have sz: "unat sz < 2 ^ LENGTH(32)" by (rule unsigned_less)
  have sum: "unat (p_offset ph + p_filesz ph) = unat (p_offset ph) + unat (p_filesz ph)"
    using assms(5) sz by (intro unat_add_no_wrap) simp
  have sif: "seg_in_file dat ph" using assms(4,5) sz by (auto simp: seg_in_file_def)
  have eq: "load_segment dat sz ph root s = load_pages dat ph root first past s"
    using assms(3,5,6) sum u by (auto simp: load_segment_def assms(8,9) word_less_nat_alt word_le_nat_alt)
  have al: "unat first mod 4096 = 0" "unat past mod 4096 = 0" unfolding assms(8,9) by (rule aligned_down)+
  obtain s' lv' where r: "load_pages dat ph root first past s = Some (True, s')" "vm_inv lv' boot_pds s'" "extends lv s lv' s'"
    "\<forall>v. unat v mod 4096 = 0 \<longrightarrow> first \<le> v \<longrightarrow> v < past \<longrightarrow> page_loaded dat ph root v lv' s'"
    "\<forall>r w. lv r = 4 \<longrightarrow> \<not> (r = root \<and> (\<exists>v. first \<le> v \<and> v < past \<and> same_page w v)) \<longrightarrow>
       walk (mem s') 4 r w = walk (mem s) 4 r w"
    using load_pages_correct [OF sif assms(7) al(2,1) lv(1,3) _ small assms(11)] assms(10) fr by auto
  have "vm_ok R s'" using r(2,3) lv(2) extendsD(1) [OF r(3)] unfolding vm_ok_def by (metis zero_neq_numeral)
  moreover have "mem s' (unat (vmm_get_phys root v (mem s')) + k) = seg_byte dat ph (unat v + k)"
    if v: "v AND NOT (mask 12) = v" "first \<le> v" "v < past" and k: "k < 4096" for v k
  proof -
    have "unat v mod 4096 = 0" using aligned_down [of v] v(1) by simp
    from r(4) [rule_format, OF this v(2,3)] have "page_loaded dat ph root v lv' s'" .
    then obtain p where p: "walk (mem s') 4 root v = word_of_nat p" "p < 2 ^ 64"
      "\<forall>k<4096. mem s' (p + k) = seg_byte dat ph (unat v + k)" unfolding page_loaded_def by (elim exE conjE)
    have "unat (word_of_nat p :: u64) = p" using p(2) by (intro unat_of_nat_small) simp
    with p k lv(4) show ?thesis by (simp add: vmm_get_phys_walk)
  qed
  moreover have "vmm_get_phys q w (mem s') = vmm_get_phys q w (mem s)"
    if "q \<in> R" "\<not> (q = root \<and> (\<exists>v. first \<le> v \<and> v < past \<and> same_page w v))" for q w
    using r(5) lv(2) that by (simp add: vmm_get_phys_walk)
  ultimately show ?thesis using eq r(1) by (intro exI [of _ s']) auto
qed


theorem elf_segment_loaded_witness:
  "\<exists>s'. load_segment (tiny_elf 64) 124 \<lparr>p_type = 1, p_offset = 120, p_vaddr = 0xC00000, p_filesz = 4, p_memsz = 8\<rparr>
       demo_root demo_vm = Some (True, s') \<and>
     mem s' (unat (vmm_get_phys demo_root 0xC00000 (mem s')) + 2) = 3 \<and>
     mem s' (unat (vmm_get_phys demo_root 0xC00000 (mem s')) + 5) = 0"
proof -
  let ?ph = "\<lparr>p_type = 1, p_offset = 120, p_vaddr = 0xC00000, p_filesz = 4, p_memsz = 8\<rparr>"
  have l: "length (tiny_elf 64) = 124" by (simp add: tiny_elf_def elf_magic_def)
  have a: "(0xC00000 :: u64) = 0xC00000 AND NOT (mask 12)" "(0xC01000 :: u64) = (0xC00000 + 8 + 4096 - 1) AND NOT (mask 12)"
    by (simp_all add: mask_eq_exp_minus_1)
  have nl: "\<forall>v. 0xC00000 \<le> v \<longrightarrow> v < 0xC01000 \<longrightarrow> \<not> in_large_page demo_root v (mem demo_vm)"
    by (intro allI impI demo_vm_user) (auto simp: word_le_nat_alt word_less_nat_alt)
  have "\<exists>s'. load_segment (tiny_elf 64) 124 ?ph demo_root demo_vm = Some (True, s') \<and> vm_ok {demo_root} s' \<and>
    (\<forall>v. v AND NOT (mask 12) = v \<longrightarrow> 0xC00000 \<le> v \<longrightarrow> v < 0xC01000 \<longrightarrow>
       (\<forall>k<4096. mem s' (unat (vmm_get_phys demo_root v (mem s')) + k) = seg_byte (tiny_elf 64) ?ph (unat v + k))) \<and>
    (\<forall>r\<in>{demo_root}. \<forall>w. \<not> (r = demo_root \<and> (\<exists>v. 0xC00000 \<le> v \<and> v < 0xC01000 \<and> same_page w v)) \<longrightarrow>
       vmm_get_phys r w (mem s') = vmm_get_phys r w (mem demo_vm))"
    by (rule elf_segment_loaded [OF demo_vm_ok(1)]) (use l a nl demo_vm_frames in auto)
  then obtain s' where s': "load_segment (tiny_elf 64) 124 ?ph demo_root demo_vm = Some (True, s')"
    "\<forall>v. v AND NOT (mask 12) = v \<longrightarrow> 0xC00000 \<le> v \<longrightarrow> v < 0xC01000 \<longrightarrow>
       (\<forall>k<4096. mem s' (unat (vmm_get_phys demo_root v (mem s')) + k) = seg_byte (tiny_elf 64) ?ph (unat v + k))"
    by (elim exE conjE)
  have b: "mem s' (unat (vmm_get_phys demo_root 0xC00000 (mem s')) + k) = seg_byte (tiny_elf 64) ?ph (0xC00000 + k)" if "k < 4096" for k
    using s'(2) [rule_format, of "0xC00000" k] that a(1) by simp
  have "seg_byte (tiny_elf 64) ?ph (0xC00000 + 2) = 3" "seg_byte (tiny_elf 64) ?ph (0xC00000 + 5) = 0"
    by (simp_all add: seg_byte_def tiny_elf_def elf_magic_def nth_append)
  with b [of 2] b [of 5] s'(1) show ?thesis by auto
qed

end
