(* ===== verification/Lifecycle.thy ===== *)
theory Lifecycle
  imports Elf VfsFile Sched
begin

text \<open>
  Creation and destruction of tasks, \<open>src/kernel/task.c\<close>: \<open>task_create\<close>, \<open>task_create_user\<close>,
  \<open>task_create_thread\<close>, \<open>task_create_fork\<close>, \<open>task_exit_code\<close> and \<open>task_kill\<close>.

  The kernel stacks lie in the kernel heap, which is mapped to itself, so that pushing an initial
  frame is a sequence of stores to physical memory. Loading \<open>cr3\<close> and the FS base and the final
  halt loop of an exiting task are outside the model. \<open>None\<close> is an access outside of an array.
\<close>

unbundle bit_operations_syntax

section \<open>State\<close>

record 'n kernel =
  kvfs :: "'n vfs"
  kvm :: vm

definition MM_USER_HEAP_START :: u64 where "MM_USER_HEAP_START = 0xC10000"
definition MM_THREAD_STACK_BASE :: u64 where "MM_THREAD_STACK_BASE = 0x700000"
definition MM_THREAD_STACK_SLOT :: u64 where "MM_THREAD_STACK_SLOT = 0x5000"

abbreviation ktasks :: "'n kernel \<Rightarrow> task_state" where "ktasks k \<equiv> vtasks (kvfs k)"

definition map_tasks :: "(task_state \<Rightarrow> task_state) \<Rightarrow> 'n kernel \<Rightarrow> 'n kernel" where
  "map_tasks f k = k\<lparr>kvfs := (kvfs k)\<lparr>vtasks := f (ktasks k)\<rparr>\<rparr>"

definition map_vm :: "(vm \<Rightarrow> vm) \<Rightarrow> 'n kernel \<Rightarrow> 'n kernel" where
  "map_vm f k = k\<lparr>kvm := f (kvm k)\<rparr>"

definition kstack_top :: "nat \<Rightarrow> task_state \<Rightarrow> nat" where
  "kstack_top tid ts = stacks_base ts + tid * STACK_SIZE + STACK_SIZE"

text \<open>Pushing words onto a stack that grows downwards.\<close>

fun push_all :: "nat \<Rightarrow> u64 list \<Rightarrow> phys_mem \<Rightarrow> phys_mem" where
  "push_all tp [] m = m"
| "push_all tp (w # ws) m = push_all (tp - 8) ws (store64 (tp - 8) w m)"

definition iret_frame :: "u64 \<Rightarrow> u64 \<Rightarrow> u64 \<Rightarrow> u64 \<Rightarrow> u64 \<Rightarrow> u64 list" where
  "iret_frame ss usp rflags cs rip = [ss, usp, rflags, cs, rip]"

text \<open>The frame and the fifteen registers on the kernel stack of a task, and its saved stack pointer.\<close>

definition init_stack :: "nat \<Rightarrow> u64 list \<Rightarrow> u64 list \<Rightarrow> 'n kernel \<Rightarrow> 'n kernel" where
  "init_stack tid frame regs k =
     (let tp = kstack_top tid (ktasks k); ws = frame @ regs
      in map_tasks (upd_task tid (\<lambda>t. t\<lparr>rsp := tp - 8 * length ws\<rparr>))
           (map_vm (\<lambda>s. s\<lparr>mem := push_all tp ws (mem s)\<rparr>) k))"

section \<open>Creating tasks\<close>

definition free_task :: "task_state \<Rightarrow> nat option" where
  "free_task ts = find_slot_from 1 (\<lambda>t. \<not> used t) (tasks ts)"

definition claim_slot :: "nat \<Rightarrow> task_state \<Rightarrow> task_state" where
  "claim_slot tid ts = ts\<lparr>task_count := (if int tid \<ge> task_count ts then int tid + 1 else task_count ts)\<rparr>"

definition task_create :: "u64 \<Rightarrow> 'n kernel \<Rightarrow> int \<times> 'n kernel" where
  "task_create ent k =
     (case free_task (ktasks k) of
        None \<Rightarrow> (-1, k)
      | Some tid \<Rightarrow>
          (let (dir, s) = vmm_create_page_dir (kvm k);
               k = map_tasks (upd_task tid (\<lambda>t. t\<lparr>priority := 1, ticks := 1, heap_end := 0,
                     cpu_id := (if has_ap (ktasks k) then 1 else -1), is_user := False, is_thread := False,
                     parent_tid := -1, name := str_copy_n (name t) (bstr ''[idle]'') 32, page_dir := dir\<rparr>)
                     \<circ> task_init_common tid \<circ> claim_slot tid) (k\<lparr>kvm := s\<rparr>);
               tp = kstack_top tid (ktasks k)
           in (int tid, init_stack tid (iret_frame 0x10 (word_of_nat tp) 0x202 0x08 ent) (replicate 15 0) k)))"

text \<open>
  The arguments of a program, packed one after the other into 512 bytes. A missing array or entry
  counts as an empty string. An entry is read only while there is room.
\<close>

definition arg_at :: "bytes option list option \<Rightarrow> nat \<Rightarrow> bytes option" where
  "arg_at argv i =
     (case argv of
        None \<Rightarrow> Some []
      | Some a \<Rightarrow> if i < length a then Some (case a ! i of None \<Rightarrow> [] | Some str \<Rightarrow> cstr str) else None)"

fun pack_args :: "bytes option list option \<Rightarrow> nat list \<Rightarrow> nat \<Rightarrow> bytes \<Rightarrow> (nat \<times> bytes) option" where
  "pack_args argv [] pos buf = Some (pos, buf)"
| "pack_args argv (i # is) pos buf =
     (if pos < 510
      then do {
        arg \<leftarrow> arg_at argv i;
        let w = take (510 - pos) arg @ [0];
        pack_args argv is (pos + length w) (write_at pos w buf)
      }
      else Some (pos, buf))"

definition store_args :: "int \<Rightarrow> bytes option list option \<Rightarrow> task \<Rightarrow> task option" where
  "store_args ac argv t = do {
     (pos, buf) \<leftarrow> pack_args argv [0..<nat ac] 0 (write_at 0 [0] (arg_buf t));
     Some (t\<lparr>arg_buf := write_at pos [0] buf, arg_argc := ac\<rparr>)
   }"

definition tls_va :: "nat \<Rightarrow> u64" where
  "tls_va tid = word_of_nat (MM_TLS_BASE + tid * MM_TLS_PAGE_SIZE)"

text \<open>The page for thread-local storage. There is no check that a frame was left.\<close>

definition alloc_tls :: "nat \<Rightarrow> nat \<Rightarrow> bytes \<Rightarrow> 'n kernel \<Rightarrow> 'n kernel" where
  "alloc_tls tid dir content k =
     (let (phys, s) = alloc_frame (kvm k);
          s = vmm_copy_to_frame phys 0 content (vmm_zero_frame phys s);
          s = vmm_map_page dir (tls_va tid) (word_of_nat phys) 7 s
      in map_tasks (upd_task tid (\<lambda>t. t\<lparr>tls_frame := phys\<rparr>)) (k\<lparr>kvm := s\<rparr>))"

definition map_fds :: "('n vfs \<Rightarrow> 'n vfs) \<Rightarrow> 'n kernel \<Rightarrow> 'n kernel" where
  "map_fds f k = k\<lparr>kvfs := f (kvfs k)\<rparr>"

definition task_create_user ::
    "u64 \<Rightarrow> nat \<Rightarrow> u64 \<Rightarrow> bytes option \<Rightarrow> int \<Rightarrow> bytes option list option \<Rightarrow> 'n kernel \<Rightarrow> (int \<times> 'n kernel) option" where
  "task_create_user ent dir user_rsp nm argc argv k =
     (case free_task (ktasks k) of
        None \<Rightarrow> Some (-1, k)
      | Some tid \<Rightarrow> do {
          let ac = (if argc > 8 then 8 else argc);
          let k = map_tasks (upd_task tid (\<lambda>t. t\<lparr>page_dir := dir, priority := 2, ticks := 2, cpu_id := -1,
                heap_end := MM_USER_HEAP_START, is_user := True, is_thread := False, parent_tid := -1,
                name := str_copy_n (name t) (case nm of None \<Rightarrow> bstr ''?'' | Some n \<Rightarrow> n) 32\<rparr>)
                \<circ> task_init_common tid \<circ> claim_slot tid) k;
          t \<leftarrow> store_args ac argv (the_task (ktasks k) tid);
          let k = map_tasks (upd_task tid (\<lambda>_. t)) k;
          let k = init_stack tid (iret_frame 0x23 user_rsp 0x202 0x2B ent)
                    ((replicate 15 0)[5 := word_of_int (take_bit 32 ac)]) k;
          let k = alloc_tls tid dir (le_bytes 8 (tls_va tid)) k;
          Some (int tid, map_fds (vfs_init_task (int tid)) k)
        })"

definition thread_stack_va :: "nat \<Rightarrow> u64" where
  "thread_stack_va tid = MM_THREAD_STACK_BASE + word_of_nat tid * MM_THREAD_STACK_SLOT"

definition task_create_thread :: "u64 \<Rightarrow> u64 \<Rightarrow> int \<Rightarrow> 'n kernel \<Rightarrow> int \<times> 'n kernel" where
  "task_create_thread ent arg ptid k =
     (case free_task (ktasks k) of
        None \<Rightarrow> (-1, k)
      | Some tid \<Rightarrow>
          let k = map_tasks (claim_slot tid) k in
          if \<not> valid_tid ptid \<or> \<not> used (the_task (ktasks k) (nat ptid)) then (-1, k)
          else let p = the_task (ktasks k) (nat ptid);
                   k = map_tasks (upd_task tid (\<lambda>t. t\<lparr>page_dir := page_dir p, priority := 2, ticks := 2, cpu_id := -1,
                         heap_end := heap_end p, is_user := True, is_thread := True, parent_tid := ptid,
                         name := str_copy_n (name t) (bstr ''thread'') 32, tstack_frames := [0, 0, 0, 0]\<rparr>)
                         \<circ> task_init_common tid) k;
                   k = init_stack tid (iret_frame 0x23 (thread_stack_va tid + MM_THREAD_STACK_SLOT) 0x202 0x2B ent)
                         ((replicate 15 0)[5 := arg]) k;
                   k = alloc_tls tid (page_dir p) [] k
               in (int tid, map_fds (vfs_copy_fds ptid (int tid)) k))"

text \<open>A word on the kernel stack of a task, at a distance from its top.\<close>

definition stack_word :: "nat \<Rightarrow> nat \<Rightarrow> 'n kernel \<Rightarrow> u64" where
  "stack_word ptid off k = load64 (mem (kvm k)) (kstack_top ptid (ktasks k) - off)"

definition task_create_fork :: "nat \<Rightarrow> u64 \<Rightarrow> u64 \<Rightarrow> 'n kernel \<Rightarrow> int \<times> 'n kernel" where
  "task_create_fork ptid child_rip child_rsp k =
     (case free_task (ktasks k) of
        None \<Rightarrow> (-1, k)
      | Some tid \<Rightarrow>
          let p = the_task (ktasks k) ptid;
              k = map_tasks (upd_task tid (\<lambda>_. p\<lparr>tls_frame := 0, used := True, status := TASK_RUNNING, cpu_id := -1,
                    waiter := -1, is_thread := False, parent_tid := -1, wake_tick := 0\<rparr>) \<circ> claim_slot tid) k;
              regs = map (\<lambda>i. if i = 0 then 0 else stack_word ptid (48 + i * 8) k) [0..<15];
              k = init_stack tid (iret_frame 0x23 child_rsp (stack_word ptid 24 k) 0x2B child_rip) regs k
          in (int tid, map_fds (vfs_copy_fds (int ptid) (int tid)) k))"

section \<open>Ending tasks\<close>

definition stack_page :: "nat \<Rightarrow> nat \<Rightarrow> u64" where
  "stack_page tid i = thread_stack_va tid + 0x1000 + word_of_nat i * 0x1000"

definition release_stack_page :: "bool \<Rightarrow> nat \<Rightarrow> u64 \<Rightarrow> vm \<Rightarrow> vm" where
  "release_stack_page unmap dir va s =
     (let phys = vmm_get_phys dir va (mem s)
      in if unat phys \<ge> 768 * PAGE_SIZE
         then free_frame (unat phys) (if unmap then vmm_unmap_page dir va s else s) else s)"

definition wake_waiter :: "int \<Rightarrow> task_state \<Rightarrow> task_state" where
  "wake_waiter w ts = (if valid_tid w \<and> used (the_task ts (nat w)) then task_unblock w ts else ts)"

text \<open>A thread that is still alive when its process ends.\<close>

definition kill_thread :: "nat \<Rightarrow> nat \<Rightarrow> nat \<Rightarrow> 'n kernel \<Rightarrow> 'n kernel" where
  "kill_thread tid dir i k =
     (let t = the_task (ktasks k) i in
      if used t \<and> is_thread t \<and> parent_tid t = int tid
      then map_tasks (wake_waiter (waiter t) \<circ> upd_task i (\<lambda>t. t\<lparr>used := False, cpu_id := -1\<rparr>))
             (map_vm (fold (\<lambda>j. release_stack_page False dir (stack_page i j)) [0..<4]) k)
      else k)"

definition end_thread :: "nat \<Rightarrow> 'n kernel \<Rightarrow> 'n kernel" where
  "end_thread tid k =
     (let t = the_task (ktasks k) tid; ptid = parent_tid t in
      if valid_tid ptid \<and> used (the_task (ktasks k) (nat ptid))
      then let dir = page_dir (the_task (ktasks k) (nat ptid));
               k = map_vm (fold (\<lambda>j. release_stack_page True dir (stack_page tid j)) [0..<4]) k
           in if tls_frame t \<noteq> 0
              then map_vm (\<lambda>s. free_frame (tls_frame t) (vmm_unmap_page dir (tls_va tid) s)) k else k
      else k)"

definition end_process :: "nat \<Rightarrow> 'n kernel \<Rightarrow> 'n kernel" where
  "end_process tid k =
     (let dir = page_dir (the_task (ktasks k) tid)
      in map_vm (vmm_free_user_memory dir) (fold (kill_thread tid dir) [1..<MAX_TASKS] k))"

definition clear_slot :: "task \<Rightarrow> task" where
  "clear_slot t = t\<lparr>used := False, cpu_id := -1, page_dir := 0, waiter := -1, is_thread := False,
     pending_signals := 0, tls_frame := 0, tstack_frames := [0, 0, 0, 0]\<rparr>"

definition task_exit_code :: "'n net_ops \<Rightarrow> int \<Rightarrow> 'n kernel \<Rightarrow> 'n kernel option" where
  "task_exit_code net code k =
     (let tid = current_task (ktasks k); is_thr = is_thread (the_task (ktasks k) tid);
          k = map_tasks (\<lambda>ts. ts\<lparr>exit_codes := (exit_codes ts)[tid := code]\<rparr>) k
      in do {
        v \<leftarrow> (if is_thr then Some (kvfs k) else vfs_close_all net (int tid) (kvfs k));
        let k = k\<lparr>kvfs := v\<rparr>;
        let w = waiter (the_task (ktasks k) tid);
        let k = (if is_thr then end_thread tid k else end_process tid k);
        Some (map_tasks (wake_waiter w \<circ> upd_task tid clear_slot) k)
      })"

definition task_kill :: "int \<Rightarrow> 'n kernel \<Rightarrow> int \<times> 'n kernel" where
  "task_kill tid k =
     (if tid \<le> 0 \<or> tid \<ge> int MAX_TASKS then (0, k)
      else if \<not> used (the_task (ktasks k) (nat tid)) then (0, k)
      else let dir = page_dir (the_task (ktasks k) (nat tid));
               k = map_tasks (upd_task (nat tid) (\<lambda>t. t\<lparr>used := False, page_dir := 0\<rparr>)) k;
               k = map_vm (vmm_free_user_memory dir) k
           in (1, map_tasks (\<lambda>ts. if tid = task_count ts - 1 then ts\<lparr>task_count := task_count ts - 1\<rparr> else ts) k))"

section \<open>Lemmas\<close>

named_theorems kernel_simps

lemma kernel_access [kernel_simps]:
  "ktasks (map_tasks f k) = f (ktasks k)" "kvm (map_tasks f k) = kvm k" "fd_table (kvfs (map_tasks f k)) = fd_table (kvfs k)"
  "kvfs (map_vm g k) = kvfs k" "kvm (map_vm g k) = g (kvm k)" "kvfs (map_fds h k) = h (kvfs k)" "kvm (map_fds h k) = kvm k"
  by (simp_all add: map_tasks_def map_vm_def map_fds_def)

lemma claim_slot_access [kernel_simps]:
  "tasks (claim_slot i ts) = tasks ts" "stacks_base (claim_slot i ts) = stacks_base ts"
  by (simp_all add: claim_slot_def)

lemma kstack_top_upd [kernel_simps]:
  "kstack_top i (upd_task j f ts) = kstack_top i ts" "kstack_top i (claim_slot j ts) = kstack_top i ts"
  by (simp_all add: kstack_top_def upd_task_def claim_slot_def)

lemma vfs_copy_fds_access [kernel_simps]: "vtasks (vfs_copy_fds a b v) = vtasks v"
  by (simp add: vfs_copy_fds_def)

lemma push_all_frame:
  "8 * length ws \<le> tp \<Longrightarrow> a < tp - 8 * length ws \<or> tp \<le> a \<Longrightarrow> push_all tp ws m a = m a"
  by (induction tp ws m rule: push_all.induct) (fastforce simp: store64_def)+

lemma load64_push_all_frame:
  assumes "8 * length ws \<le> tp" "a + 8 \<le> tp - 8 * length ws \<or> tp \<le> a"
  shows "load64 (push_all tp ws m) a = load64 m a"
  using assms by (intro load64_cong push_all_frame) auto

lemma load64_push_all:
  "8 * length ws \<le> tp \<Longrightarrow> j < length ws \<Longrightarrow> load64 (push_all tp ws m) (tp - 8 * Suc j) = ws ! j"
proof (induction tp ws m arbitrary: j rule: push_all.induct)
  case (2 tp w ws m)
  show ?case
  proof (cases j)
    case 0
    have "load64 (push_all (tp - 8) ws (store64 (tp - 8) w m)) (tp - 8) = load64 (store64 (tp - 8) w m) (tp - 8)"
      using "2.prems" by (intro load64_push_all_frame) auto
    then show ?thesis using 0 by simp
  next
    case (Suc i)
    with "2.IH" [of i] "2.prems" show ?thesis by simp
  qed
qed simp

lemma stacks_apart:
  assumes "i \<noteq> j" "n \<le> STACK_SIZE"
  shows "kstack_top i ts \<le> kstack_top j ts - n \<or> kstack_top j ts \<le> kstack_top i ts - STACK_SIZE"
proof (cases "i < j")
  case True
  then have "Suc i * STACK_SIZE \<le> j * STACK_SIZE" by (intro mult_right_mono) auto
  then show ?thesis using assms(2) unfolding kstack_top_def mult_Suc by linarith
next
  case False
  then have "Suc j * STACK_SIZE \<le> i * STACK_SIZE" using assms(1) by (intro mult_right_mono) auto
  then show ?thesis by (simp add: kstack_top_def)
qed

lemma init_stack_mem [kernel_simps]:
  "mem (kvm (init_stack i fr rs k)) = push_all (kstack_top i (ktasks k)) (fr @ rs) (mem (kvm k))"
  by (simp add: init_stack_def Let_def kernel_simps)

lemma init_stack_access [kernel_simps]:
  "ktasks (init_stack i fr rs k) =
     upd_task i (\<lambda>t. t\<lparr>rsp := kstack_top i (ktasks k) - 8 * (length fr + length rs)\<rparr>) (ktasks k)"
  "fd_table (kvfs (init_stack i fr rs k)) = fd_table (kvfs k)"
  by (simp_all add: init_stack_def Let_def kernel_simps)

lemma stack_word_init_other:
  assumes "i \<noteq> j" "8 * (length fr + length rs) \<le> STACK_SIZE" "8 \<le> n" "n \<le> STACK_SIZE"
  shows "stack_word j n (init_stack i fr rs k) = stack_word j n k"
proof -
  let ?n = "8 * length (fr @ rs)" and ?i = "kstack_top i (ktasks k)" and ?j = "kstack_top j (ktasks k)"
  have "STACK_SIZE \<le> ?i" "STACK_SIZE \<le> ?j" by (simp_all add: kstack_top_def)
  moreover have "?j \<le> ?i - ?n \<or> ?i \<le> ?j - STACK_SIZE" using stacks_apart [of j i ?n] assms(1,2) by simp
  ultimately have "load64 (push_all ?i (fr @ rs) (mem (kvm k))) (?j - n) = load64 (mem (kvm k)) (?j - n)"
    using assms(2-4) by (intro load64_push_all_frame) auto
  then show ?thesis by (simp add: stack_word_def kernel_simps)
qed

lemma stack_word_init:
  assumes "8 * (length fr + length rs) \<le> STACK_SIZE" "j < length fr + length rs"
  shows "stack_word i (8 * Suc j) (init_stack i fr rs k) = (fr @ rs) ! j"
proof -
  have "STACK_SIZE \<le> kstack_top i (ktasks k)" by (simp add: kstack_top_def)
  then show ?thesis
    using load64_push_all [of "fr @ rs" "kstack_top i (ktasks k)" j "mem (kvm k)"] assms
    by (simp add: stack_word_def kernel_simps)
qed

section \<open>Fork\<close>

definition fork_task :: "task \<Rightarrow> nat \<Rightarrow> task" where
  "fork_task p sp = p\<lparr>tls_frame := 0, used := True, status := TASK_RUNNING, cpu_id := -1, waiter := -1,
     is_thread := False, parent_tid := -1, wake_tick := 0, rsp := sp\<rparr>"

lemma stack_word_cong [kernel_simps]:
  "stack_word i n (map_tasks (upd_task j f \<circ> claim_slot l) k) = stack_word i n k"
  "stack_word i n (map_fds (vfs_copy_fds a b) k) = stack_word i n k"
  by (simp_all add: stack_word_def kernel_simps)

lemma task_create_fork_eq:
  assumes "free_task (ktasks k) = Some c"
  shows "task_create_fork ptid rip usp k =
    (int c, map_fds (vfs_copy_fds (int ptid) (int c))
       (init_stack c (iret_frame 0x23 usp (stack_word ptid 24 k) 0x2B rip)
          (map (\<lambda>i. if i = 0 then 0 else stack_word ptid (48 + i * 8) k) [0..<15])
          (map_tasks (upd_task c (\<lambda>_. (the_task (ktasks k) ptid)\<lparr>tls_frame := 0, used := True, status := TASK_RUNNING,
             cpu_id := -1, waiter := -1, is_thread := False, parent_tid := -1, wake_tick := 0\<rparr>) \<circ> claim_slot c) k)))"
  unfolding task_create_fork_def assms by (simp only: Let_def option.case kernel_simps)

lemma free_task_SomeD:
  assumes "free_task ts = Some c"
  shows "1 \<le> c" "c < length (tasks ts)" "\<not> used (the_task ts c)" "\<And>i. 1 \<le> i \<Longrightarrow> i < c \<Longrightarrow> used (the_task ts i)"
  using find_slot_from_SomeD [OF assms [unfolded free_task_def]] by auto

text \<open>
  C27. The child of a fork. It takes the lowest free slot. Its task entry is that of the parent, with
  no thread-local page, waiter or processor; it has the parent's file descriptors. Its kernel stack holds
  a frame that returns to user mode at the given address and stack with the parent's flags, below it
  the parent's registers, except \<open>rax\<close>, which is 0. No other task, row of descriptors or
  kernel stack changes. When all slots are in use, nothing changes and the result is -1.
\<close>

theorem task_create_fork_child:
  assumes "tasks_wf (ktasks k)" "length (fd_table (kvfs k)) = MAX_TASKS"
    and "ptid < MAX_TASKS" "used (the_task (ktasks k) ptid)"
    and "task_create_fork ptid rip usp k = (r, k')"
  shows "if \<forall>i\<in>{1..<MAX_TASKS}. used (the_task (ktasks k) i) then r = -1 \<and> k' = k
    else \<exists>c \<in> {1..<MAX_TASKS}. r = int c \<and> \<not> used (the_task (ktasks k) c) \<and> (\<forall>i\<in>{1..<c}. used (the_task (ktasks k) i)) \<and>
      tasks (ktasks k') = (tasks (ktasks k))[c := fork_task (the_task (ktasks k) ptid) (kstack_top c (ktasks k) - 160)] \<and>
      fd_table (kvfs k') = (fd_table (kvfs k))[c := fd_table (kvfs k) ! ptid] \<and>
      map (\<lambda>j. stack_word c (8 * Suc j) k') [0..<20] =
        [0x23, usp, stack_word ptid 24 k, 0x2B, rip, 0] @ map (\<lambda>j. stack_word ptid (8 * Suc j) k) [6..<20] \<and>
      (\<forall>i n. i \<noteq> c \<longrightarrow> 8 \<le> n \<longrightarrow> n \<le> STACK_SIZE \<longrightarrow> stack_word i n k' = stack_word i n k)"
proof (cases "free_task (ktasks k)")
  case None
  then have "\<forall>i\<in>{1..<MAX_TASKS}. used (the_task (ktasks k) i)"
    using assms(1) by (auto simp: free_task_def slot_simps tasks_wf_def)
  then show ?thesis using None assms(5) by (simp add: task_create_fork_def)
next
  case (Some c)
  note f = free_task_SomeD [OF Some]
  have c: "c < MAX_TASKS" "length (tasks (ktasks k)) = MAX_TASKS" using f(2) assms(1) by (simp_all add: tasks_wf_def)
  then have nall: "\<not> (\<forall>i\<in>{1..<MAX_TASKS}. used (the_task (ktasks k) i))" using f by (auto intro!: bexI [of _ c])
  let ?fr = "iret_frame 0x23 usp (stack_word ptid 24 k) 0x2B rip"
  let ?rs = "map (\<lambda>i. if i = 0 then 0 else stack_word ptid (48 + i * 8) k) [0..<15]"
  note eq = task_create_fork_eq [OF Some, of ptid rip usp]
  have r: "r = int c" using assms(5) eq by simp
  have len: "length ?fr = 5" "length ?rs = 15" by (simp_all add: iret_frame_def)
  have ts: "tasks (ktasks k') = (tasks (ktasks k))[c := fork_task (the_task (ktasks k) ptid) (kstack_top c (ktasks k) - 160)]"
    using assms(5) c unfolding eq
    by (auto simp: kernel_simps len upd_task_def fork_task_def kstack_top_def claim_slot_def)
  have fds: "fd_table (kvfs k') = (fd_table (kvfs k))[c := fd_table (kvfs k) ! ptid]"
    using assms(3,5) c unfolding eq by (auto simp: kernel_simps vfs_copy_fds_def valid_tid_def)
  let ?k = "map_tasks (upd_task c (\<lambda>_. (the_task (ktasks k) ptid)\<lparr>tls_frame := 0, used := True, status := TASK_RUNNING,
    cpu_id := -1, waiter := -1, is_thread := False, parent_tid := -1, wake_tick := 0\<rparr>) \<circ> claim_slot c) k"
  have k': "k' = map_fds (vfs_copy_fds (int ptid) (int c)) (init_stack c ?fr ?rs ?k)"
    using assms(5) unfolding eq prod.inject by (elim conjE) (rule sym)
  have fits: "8 * (length ?fr + length ?rs) \<le> STACK_SIZE" unfolding len by (simp add: STACK_SIZE_def)
  have w: "stack_word c (8 * Suc j) k' = (?fr @ ?rs) ! j" if "j < 20" for j
    unfolding k' stack_word_cong by (rule stack_word_init [OF fits]) (use that in \<open>simp add: len del: upt_Suc\<close>)
  have "map (\<lambda>j. stack_word c (8 * Suc j) k') [0..<20] = ?fr @ ?rs"
    by (rule nth_equalityI) (simp_all add: w len del: mult_Suc_right)
  also have "\<dots> = [0x23, usp, stack_word ptid 24 k, 0x2B, rip, 0] @ map (\<lambda>j. stack_word ptid (8 * Suc j) k) [6..<20]"
    by (simp add: iret_frame_def upt_rec)
  finally have words: "map (\<lambda>j. stack_word c (8 * Suc j) k') [0..<20] = \<dots>" .
  have "stack_word i n k' = stack_word i n k" if "i \<noteq> c" "8 \<le> n" "n \<le> STACK_SIZE" for i n
    unfolding k' stack_word_cong using stack_word_init_other [OF that(1) [symmetric] fits that(2,3), of ?k]
    unfolding stack_word_cong .
  then show ?thesis using nall r ts fds words f c by (auto intro!: bexI [of _ c])
qed

text \<open>The shell forks a child.\<close>

definition shell_kernel :: "unit kernel" where
  "shell_kernel = \<lparr>kvfs = (boot_vfs (empty_fs no_disk))\<lparr>vtasks := upd_task 0 (\<lambda>t. t\<lparr>used := True\<rparr>) boot_tasks\<rparr>, kvm = boot_vm\<rparr>"

lemma MAX_TASKS_pos: "0 < MAX_TASKS"
  by (simp add: MAX_TASKS_def)

lemma shell_kernel_shape:
  "tasks_wf (ktasks shell_kernel)" "length (fd_table (kvfs shell_kernel)) = MAX_TASKS"
  "used (the_task (ktasks shell_kernel) 0)" "\<not> used (the_task (ktasks shell_kernel) 1)"
  by (simp_all add: shell_kernel_def tasks_wf_def boot_tasks_def boot_vfs_def upd_task_def zero_task_def MAX_TASKS_def nth_list_update)

theorem task_create_fork_child_witness:
  "\<exists>r k'. task_create_fork 0 0x400000 0x7000 shell_kernel = (r, k') \<and> r = 1 \<and> stack_word 1 48 k' = 0 \<and> stack_word 1 40 k' = 0x400000"
proof -
  obtain r k' where e: "task_create_fork 0 0x400000 0x7000 shell_kernel = (r, k')" by (cases "task_create_fork 0 0x400000 0x7000 shell_kernel")
  note f = task_create_fork_child [OF shell_kernel_shape(1,2) _ shell_kernel_shape(3) e, OF MAX_TASKS_pos]
  have nall: "\<not> (\<forall>i\<in>{1..<MAX_TASKS}. used (the_task (ktasks shell_kernel) i))"
    using shell_kernel_shape(4) by (auto intro!: bexI [of _ 1] simp: MAX_TASKS_def)
  from f [unfolded if_not_P [OF nall]] obtain c where c: "c \<in> {1..<MAX_TASKS}" "r = int c" "\<forall>i\<in>{1..<c}. used (the_task (ktasks shell_kernel) i)"
      and w: "map (\<lambda>j. stack_word c (8 * Suc j) k') [0..<20] =
        [0x23, 0x7000, stack_word 0 24 shell_kernel, 0x2B, 0x400000, 0] @ map (\<lambda>j. stack_word 0 (8 * Suc j) shell_kernel) [6..<20]"
    by (elim bexE conjE) (rule that; assumption)
  have "c = 1" using c(1,3) shell_kernel_shape(4) by (cases "c = 1") auto
  moreover have "stack_word c 48 k' = 0" "stack_word c 40 k' = 0x400000"
    using arg_cong [OF w, of "\<lambda>xs. xs ! 5"] arg_cong [OF w, of "\<lambda>xs. xs ! 4"] by simp_all
  ultimately show ?thesis using e c(2) by (intro exI [of _ r] exI [of _ k']) simp
qed

end
