(* ===== verification/Sha256.thy ===== *)
theory Sha256
  imports Prelude
begin

text \<open>
  SHA-256, HMAC and HKDF, the first three parts of \<open>src/kernel/crypto.c\<close>, and their standards.

  A context holds the eight chaining words, the number of bytes so far and a block that is being filled.
  A caller's buffer is the list of its bytes, whose length is the length argument of the C function.
  The standards (FIPS 180-4, RFC 2104 and RFC 5869) are stated on whole messages.
\<close>

unbundle bit_operations_syntax

section \<open>The compression function\<close>

definition SHA_K :: "u32 list" where
  "SHA_K = concat [
    [0x428a2f98, 0x71374491, 0xb5c0fbcf, 0xe9b5dba5],
    [0x3956c25b, 0x59f111f1, 0x923f82a4, 0xab1c5ed5],
    [0xd807aa98, 0x12835b01, 0x243185be, 0x550c7dc3],
    [0x72be5d74, 0x80deb1fe, 0x9bdc06a7, 0xc19bf174],
    [0xe49b69c1, 0xefbe4786, 0x0fc19dc6, 0x240ca1cc],
    [0x2de92c6f, 0x4a7484aa, 0x5cb0a9dc, 0x76f988da],
    [0x983e5152, 0xa831c66d, 0xb00327c8, 0xbf597fc7],
    [0xc6e00bf3, 0xd5a79147, 0x06ca6351, 0x14292967],
    [0x27b70a85, 0x2e1b2138, 0x4d2c6dfc, 0x53380d13],
    [0x650a7354, 0x766a0abb, 0x81c2c92e, 0x92722c85],
    [0xa2bfe8a1, 0xa81a664b, 0xc24b8b70, 0xc76c51a3],
    [0xd192e819, 0xd6990624, 0xf40e3585, 0x106aa070],
    [0x19a4c116, 0x1e376c08, 0x2748774c, 0x34b0bcb5],
    [0x391c0cb3, 0x4ed8aa4a, 0x5b9cca4f, 0x682e6ff3],
    [0x748f82ee, 0x78a5636f, 0x84c87814, 0x8cc70208],
    [0x90befffa, 0xa4506ceb, 0xbef9a3f7, 0xc67178f2]]"

definition RR32 :: "u32 \<Rightarrow> nat \<Rightarrow> u32" where "RR32 x n = drop_bit n x OR push_bit (32 - n) x"
definition CH :: "u32 \<Rightarrow> u32 \<Rightarrow> u32 \<Rightarrow> u32" where "CH e f g = (e AND f) XOR (NOT e AND g)"
definition MAJ :: "u32 \<Rightarrow> u32 \<Rightarrow> u32 \<Rightarrow> u32" where "MAJ a b c = (a AND b) XOR (a AND c) XOR (b AND c)"
definition S0 :: "u32 \<Rightarrow> u32" where "S0 a = RR32 a 2 XOR RR32 a 13 XOR RR32 a 22"
definition S1 :: "u32 \<Rightarrow> u32" where "S1 e = RR32 e 6 XOR RR32 e 11 XOR RR32 e 25"
definition small_s0 :: "u32 \<Rightarrow> u32" where "small_s0 w = RR32 w 7 XOR RR32 w 18 XOR drop_bit 3 w"
definition small_s1 :: "u32 \<Rightarrow> u32" where "small_s1 w = RR32 w 17 XOR RR32 w 19 XOR drop_bit 10 w"

definition be32 :: "bytes \<Rightarrow> nat \<Rightarrow> u32" where
  "be32 b i = push_bit 24 (ucast (b ! i)) OR push_bit 16 (ucast (b ! (i + 1))) OR
     push_bit 8 (ucast (b ! (i + 2))) OR ucast (b ! (i + 3))"

definition message_schedule :: "bytes \<Rightarrow> u32 list" where
  "message_schedule blk =
     fold (\<lambda>i W. W @ [small_s1 (W ! (i - 2)) + W ! (i - 7) + small_s0 (W ! (i - 15)) + W ! (i - 16)])
       [16..<64] (map (\<lambda>i. be32 blk (i * 4)) [0..<16])"

type_synonym sha_regs = "u32 \<times> u32 \<times> u32 \<times> u32 \<times> u32 \<times> u32 \<times> u32 \<times> u32"

fun sha_round :: "u32 list \<Rightarrow> nat \<Rightarrow> sha_regs \<Rightarrow> sha_regs" where
  "sha_round W i (a, b, c, d, e, f, g, h) =
     (let T1 = h + S1 e + CH e f g + SHA_K ! i + W ! i; T2 = S0 a + MAJ a b c
      in (T1 + T2, a, b, c, d + T1, e, f, g))"

definition sha256_compress :: "u32 list \<Rightarrow> bytes \<Rightarrow> u32 list" where
  "sha256_compress st blk =
     (let (a, b, c, d, e, f, g, h) = fold (sha_round (message_schedule blk)) [0..<64]
            (st ! 0, st ! 1, st ! 2, st ! 3, st ! 4, st ! 5, st ! 6, st ! 7)
      in [st ! 0 + a, st ! 1 + b, st ! 2 + c, st ! 3 + d, st ! 4 + e, st ! 5 + f, st ! 6 + g, st ! 7 + h])"

section \<open>Contexts\<close>

record sha256_ctx =
  sha_state :: "u32 list"
  sha_count :: u64
  sha_buf :: bytes

definition SHA_IV :: "u32 list" where
  "SHA_IV = [0x6a09e667, 0xbb67ae85, 0x3c6ef372, 0xa54ff53a, 0x510e527f, 0x9b05688c, 0x1f83d9ab, 0x5be0cd19]"

text \<open>Initialising leaves the block as it was.\<close>

definition sha256_init :: "sha256_ctx \<Rightarrow> sha256_ctx" where
  "sha256_init ctx = ctx\<lparr>sha_state := SHA_IV, sha_count := 0\<rparr>"

function compress_blocks :: "u32 list \<Rightarrow> bytes \<Rightarrow> u32 list \<times> bytes" where
  "compress_blocks st dat =
     (if length dat \<ge> 64 then compress_blocks (sha256_compress st (take 64 dat)) (drop 64 dat) else (st, dat))"
  by auto
termination by (relation "measure (\<lambda>(st, dat). length dat)") auto

declare compress_blocks.simps [simp del]

text \<open>Completing a block that was begun.\<close>

definition fill_block :: "nat \<Rightarrow> bytes \<Rightarrow> sha256_ctx \<Rightarrow> bytes \<times> sha256_ctx" where
  "fill_block rem dat ctx =
     (let fill = (if length dat < 64 - rem then length dat else 64 - rem);
          ctx = ctx\<lparr>sha_buf := write_at rem (take fill dat) (sha_buf ctx)\<rparr>
      in (drop fill dat, if rem + fill = 64 then ctx\<lparr>sha_state := sha256_compress (sha_state ctx) (sha_buf ctx)\<rparr> else ctx))"

definition sha256_update :: "sha256_ctx \<Rightarrow> bytes \<Rightarrow> sha256_ctx" where
  "sha256_update ctx dat =
     (let rem = unat (sha_count ctx AND 63);
          ctx = ctx\<lparr>sha_count := sha_count ctx + word_of_nat (length dat)\<rparr>;
          (dat, ctx) = (if rem \<noteq> 0 then fill_block rem dat ctx else (dat, ctx));
          (st, dat) = compress_blocks (sha_state ctx) dat
      in ctx\<lparr>sha_state := st, sha_buf := write_at 0 dat (sha_buf ctx)\<rparr>)"

lemma sha_count_update: "sha_count (sha256_update ctx dat) = sha_count ctx + word_of_nat (length dat)"
  by (simp add: sha256_update_def fill_block_def Let_def split: prod.splits)

lemma unat_and_63: "unat (w AND 63 :: u64) = unat w mod 64"
proof -
  have "w AND 63 = take_bit 6 w" by (simp add: take_bit_eq_mask mask_eq_exp_minus_1)
  then have "unat (w AND 63) = take_bit 6 (unat w)" by (simp only: unsigned_take_bit_eq)
  then show ?thesis by (simp add: take_bit_eq_mod)
qed

lemma unat_mod_64_add: "unat (w + word_of_nat n :: u64) mod 64 = (unat w + n) mod 64"
  by (simp add: unat_word_ariths unsigned_of_nat take_bit_eq_mod mod_mod_cancel mod_add_right_eq)

lemma pad_distance: "r < 64 \<Longrightarrow> r \<noteq> 56 \<Longrightarrow> (120 - Suc r mod 64) mod 64 < (120 - r) mod (64 :: nat)"
  by (cases "r < 56"; cases "r = 63") (auto simp: mod_if)

text \<open>Padding with zeros up to the length field.\<close>

function pad_zeros :: "sha256_ctx \<Rightarrow> sha256_ctx" where
  "pad_zeros ctx = (if sha_count ctx AND 63 \<noteq> 56 then pad_zeros (sha256_update ctx [0]) else ctx)"
  by auto
termination
proof (relation "measure (\<lambda>ctx. (120 - unat (sha_count ctx) mod 64) mod 64)")
  fix ctx :: sha256_ctx
  assume "sha_count ctx AND 63 \<noteq> 56"
  then have "unat (sha_count ctx) mod 64 \<noteq> 56" by (simp add: unat_and_63 [symmetric] word_unat_eq_iff)
  moreover have "unat (sha_count (sha256_update ctx [0])) mod 64 = Suc (unat (sha_count ctx) mod 64) mod 64"
    using unat_mod_64_add [of "sha_count ctx" 1] by (simp add: sha_count_update mod_Suc_eq)
  ultimately show "(sha256_update ctx [0], ctx) \<in> measure (\<lambda>ctx. (120 - unat (sha_count ctx) mod 64) mod 64)"
    using pad_distance [of "unat (sha_count ctx) mod 64"] by simp
qed simp

declare pad_zeros.simps [simp del]

definition digest_of :: "u32 list \<Rightarrow> bytes" where
  "digest_of st = concat (map (\<lambda>w. [ucast (drop_bit 24 w), ucast (drop_bit 16 w), ucast (drop_bit 8 w), ucast w]) (take 8 st))"

definition sha256_final :: "sha256_ctx \<Rightarrow> bytes \<times> sha256_ctx" where
  "sha256_final ctx =
     (let bit_count = sha_count ctx * 8;
          ctx = pad_zeros (sha256_update ctx [0x80]);
          ctx = sha256_update ctx (be_bytes 8 bit_count)
      in (digest_of (sha_state ctx), ctx))"

text \<open>The context of a one-shot hash is a local variable; only the length of its block matters.\<close>

definition sha256 :: "sha256_ctx \<Rightarrow> bytes \<Rightarrow> bytes" where
  "sha256 ctx dat = fst (sha256_final (sha256_update (sha256_init ctx) dat))"

section \<open>The standard\<close>

definition sha_pad :: "bytes \<Rightarrow> bytes" where
  "sha_pad m = m @ [0x80] @ replicate ((119 - length m mod 64) mod 64) 0 @ be_bytes 8 (word_of_nat (8 * length m) :: u64)"

definition sha_chain :: "bytes \<Rightarrow> u32 list" where
  "sha_chain m = foldl (\<lambda>st i. sha256_compress st (take 64 (drop (64 * i) m))) SHA_IV [0..<length m div 64]"

definition sha256_spec :: "bytes \<Rightarrow> bytes" where
  "sha256_spec m = digest_of (sha_chain (sha_pad m))"

section \<open>Streaming\<close>

text \<open>A context that has absorbed whole blocks and the beginning of another.\<close>

definition absorbed :: "sha256_ctx \<Rightarrow> bytes \<Rightarrow> bytes \<Rightarrow> bool" where
  "absorbed ctx m t \<longleftrightarrow> length m mod 64 = 0 \<and> length t < 64 \<and> sha_state ctx = sha_chain m \<and>
     sha_count ctx = word_of_nat (length m + length t) \<and> length (sha_buf ctx) = 64 \<and> take (length t) (sha_buf ctx) = t"

lemma sha_chain_append:
  assumes "length m mod 64 = 0" "length b = 64"
  shows "sha_chain (m @ b) = sha256_compress (sha_chain m) b"
proof -
  obtain n where n: "length m = 64 * n" using assms(1) by (auto simp: mod_eq_0_iff_dvd dvd_def)
  have "foldl (\<lambda>st i. sha256_compress st (take 64 (drop (64 * i) (m @ b)))) SHA_IV [0..<n] =
      foldl (\<lambda>st i. sha256_compress st (take 64 (drop (64 * i) m))) SHA_IV [0..<n]"
    by (rule foldl_cong) (auto simp: n)
  then show ?thesis using assms(2) n by (simp add: sha_chain_def)
qed

lemma sha_chain_tail:
  assumes "length m mod 64 = 0" "length t < 64"
  shows "sha_chain (m @ t) = sha_chain m"
proof -
  obtain n where n: "length m = 64 * n" using assms(1) by (auto simp: mod_eq_0_iff_dvd dvd_def)
  then have "length (m @ t) div 64 = n" "length m div 64 = n" using assms(2) by auto
  moreover have "foldl (\<lambda>st i. sha256_compress st (take 64 (drop (64 * i) (m @ t)))) SHA_IV [0..<n] =
      foldl (\<lambda>st i. sha256_compress st (take 64 (drop (64 * i) m))) SHA_IV [0..<n]"
    by (rule foldl_cong) (auto simp: n)
  ultimately show ?thesis by (simp add: sha_chain_def)
qed

lemma compress_blocks_chain:
  assumes "length m mod 64 = 0" "st = sha_chain m"
  shows "\<exists>b t. compress_blocks st dat = (sha_chain (m @ b), t) \<and> dat = b @ t \<and> length (m @ b) mod 64 = 0 \<and> length t < 64"
  using assms
proof (induction st dat arbitrary: m rule: compress_blocks.induct)
  case (1 st dat)
  show ?case
  proof (cases "length dat \<ge> 64")
    case True
    have "length (m @ take 64 dat) mod 64 = 0" "sha256_compress st (take 64 dat) = sha_chain (m @ take 64 dat)"
      using 1(2,3) True by (simp_all add: sha_chain_append)
    from "1.IH" [OF True this] obtain b t where
      "compress_blocks (sha256_compress st (take 64 dat)) (drop 64 dat) = (sha_chain ((m @ take 64 dat) @ b), t)"
      "drop 64 dat = b @ t" "length ((m @ take 64 dat) @ b) mod 64 = 0" "length t < 64"
      by (elim exE conjE) (rule that)
    then show ?thesis
      using True append_take_drop_id [of 64 dat]
      by (subst compress_blocks.simps) (auto intro!: exI [of _ "take 64 dat @ b"])
  next
    case False
    then show ?thesis using 1(2,3) by (subst compress_blocks.simps) (auto intro!: exI [of _ "[]"])
  qed
qed

lemma absorb_rest:
  assumes "length m mod 64 = 0" "sha_state ctx = sha_chain m" "length (sha_buf ctx) = 64"
    and "sha_count ctx = word_of_nat (length m + length dat)"
    and "compress_blocks (sha_state ctx) dat = (st, rest)"
  shows "\<exists>m' t. m' @ t = m @ dat \<and> absorbed (ctx\<lparr>sha_state := st, sha_buf := write_at 0 rest (sha_buf ctx)\<rparr>) m' t"
proof -
  obtain b t where b: "compress_blocks (sha_state ctx) dat = (sha_chain (m @ b), t)" "dat = b @ t"
      "length (m @ b) mod 64 = 0" "length t < 64"
    using compress_blocks_chain [OF assms(1,2), of dat] by (elim exE conjE) (rule that)
  then have "st = sha_chain (m @ b)" "rest = t" using assms(5) by auto
  then have "absorbed (ctx\<lparr>sha_state := st, sha_buf := write_at 0 rest (sha_buf ctx)\<rparr>) (m @ b) t"
    using assms(3,4) b take_write_at [of 0 t "sha_buf ctx"] by (simp add: absorbed_def add.assoc)
  then show ?thesis using b(2) by (intro exI [of _ "m @ b"] exI [of _ t]) simp
qed

lemma update_absorbs:
  assumes "absorbed ctx m t"
  shows "\<exists>m' t'. m' @ t' = m @ t @ dat \<and> absorbed (sha256_update ctx dat) m' t'"
proof -
  note a = assms [unfolded absorbed_def]
  have "unat (sha_count ctx) mod 64 = (length m + length t) mod 64"
    using a by (simp add: unsigned_of_nat take_bit_eq_mod mod_mod_cancel del: of_nat_add)
  then have r: "unat (sha_count ctx AND 63) = length t"
    using a by (simp add: unat_and_63 mod_add_left_eq [of "length m" 64, symmetric])
  let ?ctx = "ctx\<lparr>sha_count := sha_count ctx + word_of_nat (length dat)\<rparr>"
  let ?buf = "write_at (length t) (take (64 - length t) dat) (sha_buf ctx)"
  consider "t = []" | "t \<noteq> []" "length dat < 64 - length t" | "t \<noteq> []" "64 - length t \<le> length dat" by linarith
  then show ?thesis
  proof cases
    case 1
    obtain st rest where c: "compress_blocks (sha_state ?ctx) dat = (st, rest)" by fastforce
    have "sha256_update ctx dat = ?ctx\<lparr>sha_state := st, sha_buf := write_at 0 rest (sha_buf ?ctx)\<rparr>"
      using c 1 r by (simp add: sha256_update_def Let_def)
    then show ?thesis using absorb_rest [OF _ _ _ _ c, of m] a 1 by simp
  next
    case 2
    then have "length t + length dat < 64" by linarith
    then have "absorbed (sha256_update ctx dat) m (t @ dat)"
      using 2 r a take_write_at [of "length t" dat "sha_buf ctx"]
      by (simp add: sha256_update_def fill_block_def absorbed_def compress_blocks.simps write_at_def add.assoc Let_def)
    then show ?thesis by auto
  next
    case 3
    let ?m = "m @ t @ take (64 - length t) dat" and ?d = "drop (64 - length t) dat"
    let ?c = "?ctx\<lparr>sha_buf := ?buf, sha_state := sha256_compress (sha_state ctx) ?buf\<rparr>"
    obtain st rest where c: "compress_blocks (sha_state ?c) ?d = (st, rest)" by fastforce
    have buf: "?buf = t @ take (64 - length t) dat"
      using 3 a take_write_at [of "length t" "take (64 - length t) dat" "sha_buf ctx"] by (simp add: min_absorb2)
    then have "sha_state ?c = sha_chain ?m" "length ?m mod 64 = 0"
      using sha_chain_append [of m "t @ take (64 - length t) dat"] 3 a by (simp_all add: min_absorb2)
    moreover have "sha256_update ctx dat = ?c\<lparr>sha_state := st, sha_buf := write_at 0 rest (sha_buf ?c)\<rparr>"
      using c 3 r a by (simp add: sha256_update_def fill_block_def Let_def)
    ultimately show ?thesis
      using absorb_rest [OF _ _ _ _ c, of ?m] 3 a buf by (simp add: min_absorb2)
  qed
qed

lemma count_absorbed:
  assumes "absorbed ctx m t"
  shows "sha_count ctx AND 63 = 56 \<longleftrightarrow> length t = 56"
proof -
  have "unat (sha_count ctx AND 63) = length t"
    using assms by (simp add: unat_and_63 absorbed_def unsigned_of_nat take_bit_eq_mod mod_mod_cancel
        mod_add_left_eq [of "length m" 64, symmetric] del: of_nat_add)
  then show ?thesis by (simp add: word_unat_eq_iff)
qed

lemma absorbed_length: "absorbed ctx m t \<Longrightarrow> length t = length (m @ t) mod 64"
  by (simp add: absorbed_def mod_add_left_eq [of "length m" 64, symmetric])

lemma pad_distance_Suc: "r < 64 \<Longrightarrow> r \<noteq> 56 \<Longrightarrow> Suc ((120 - Suc r mod 64) mod 64) = (120 - r) mod (64 :: nat)"
  by (cases "r < 56"; cases "r = 63") (auto simp: mod_if)

lemma pad_zeros_absorbs:
  assumes "absorbed ctx m t"
  shows "\<exists>m' t'. m' @ t' = m @ t @ replicate ((120 - length t) mod 64) 0 \<and> absorbed (pad_zeros ctx) m' t'"
  using assms
proof (induction ctx arbitrary: m t rule: pad_zeros.induct)
  case (1 ctx)
  show ?case
  proof (cases "length t = 56")
    case True
    then show ?thesis using count_absorbed [OF "1.prems"] "1.prems"
      by (subst pad_zeros.simps) (intro exI [of _ m] exI [of _ t], simp)
  next
    case False
    then have ne: "sha_count ctx AND 63 \<noteq> 56" using count_absorbed [OF "1.prems"] by simp
    obtain m1 t1 where u: "m1 @ t1 = m @ t @ [0]" "absorbed (sha256_update ctx [0]) m1 t1"
      using update_absorbs [OF "1.prems"] by blast
    have "length t1 = Suc (length (m @ t)) mod 64"
      using absorbed_length [OF u(2)] unfolding u(1) by simp
    also have "\<dots> = Suc (length t) mod 64"
      using mod_Suc_eq [of "length (m @ t)" 64] unfolding absorbed_length [OF "1.prems", symmetric] by simp
    finally have "length t1 = Suc (length t) mod 64" .
    then have "Suc ((120 - length t1) mod 64) = (120 - length t) mod 64"
      using pad_distance_Suc [OF _ False] "1.prems" by (simp add: absorbed_def)
    then have r: "m @ t @ replicate ((120 - length t) mod 64) 0 = (m @ t @ [0]) @ replicate ((120 - length t1) mod 64) 0"
      by (simp flip: replicate_Suc)
    show ?thesis using "1.IH" [OF ne u(2)] unfolding r u(1) [symmetric] using ne by (subst pad_zeros.simps) simp
  qed
qed

lemma pad_first: "(120 - Suc n mod 64) mod 64 = (119 - n mod 64) mod (64 :: nat)"
  by (cases "n mod 64 = 63") (auto simp: mod_Suc)

lemma pad_length: "length (sha_pad m) mod 64 = 0"
proof -
  have "(r + 1 + (119 - r) mod 64 + 8) mod 64 = 0" if "r < 64" for r :: nat
    using that by (cases "r < 56") (auto simp: mod_if)
  from this [of "length m mod 64"] show ?thesis
    by (simp add: sha_pad_def mod_add_left_eq [of "length m" 64, symmetric] ac_simps)
qed

lemma final_absorbed:
  assumes "absorbed ctx m t"
  shows "fst (sha256_final ctx) = sha256_spec (m @ t) \<and> length (sha_buf (snd (sha256_final ctx))) = 64"
proof -
  let ?n = "(119 - length (m @ t) mod 64) mod 64" and ?len = "be_bytes 8 (sha_count ctx * 8)"
  obtain m1 t1 where a1: "m1 @ t1 = m @ t @ [0x80]" "absorbed (sha256_update ctx [0x80]) m1 t1"
    using update_absorbs [OF assms] by blast
  obtain m2 t2 where a2: "m2 @ t2 = m1 @ t1 @ replicate ((120 - length t1) mod 64) 0" "absorbed (pad_zeros (sha256_update ctx [0x80])) m2 t2"
    using pad_zeros_absorbs [OF a1(2)] by blast
  obtain m3 t3 where a3: "m3 @ t3 = m2 @ t2 @ ?len" "absorbed (sha256_update (pad_zeros (sha256_update ctx [0x80])) ?len) m3 t3"
    using update_absorbs [OF a2(2)] by blast
  have "length t1 = Suc (length (m @ t)) mod 64"
    using absorbed_length [OF a1(2)] unfolding a1(1) by simp
  then have "(120 - length t1) mod 64 = ?n" using pad_first [of "length (m @ t)"] by simp
  moreover have "sha_count ctx * 8 = word_of_nat (8 * length (m @ t))"
    using assms by (simp add: absorbed_def mult.commute)
  ultimately have pad: "m3 @ t3 = sha_pad (m @ t)"
    using a1(1) a2(1) a3(1) by (simp add: sha_pad_def)
  have "t3 = []" using absorbed_length [OF a3(2)] pad_length [of "m @ t"] unfolding pad by simp
  then have "sha_state (sha256_update (pad_zeros (sha256_update ctx [0x80])) ?len) = sha_chain (sha_pad (m @ t))"
    using a3(2) pad by (simp add: absorbed_def)
  then show ?thesis using a3(2) by (simp add: sha256_final_def sha256_spec_def Let_def absorbed_def)
qed

lemma update_all_absorbs:
  "absorbed ctx m t \<Longrightarrow> \<exists>m' t'. m' @ t' = m @ t @ concat ds \<and> absorbed (foldl sha256_update ctx ds) m' t'"
proof (induction ds arbitrary: ctx m t)
  case (Cons d ds)
  obtain m1 t1 where u: "m1 @ t1 = m @ t @ d" "absorbed (sha256_update ctx d) m1 t1"
    using update_absorbs [OF Cons.prems] by blast
  from Cons.IH [OF u(2)] show ?case unfolding append_assoc [symmetric] u(1) by simp
qed auto

lemma init_absorbed: "length (sha_buf ctx) = 64 \<Longrightarrow> absorbed (sha256_init ctx) [] []"
  by (simp add: absorbed_def sha256_init_def sha_chain_def)

lemma sha256_stream_spec:
  assumes "length (sha_buf ctx) = 64"
  shows "fst (sha256_final (foldl sha256_update (sha256_init ctx) ds)) = sha256_spec (concat ds)"
  using update_all_absorbs [OF init_absorbed [OF assms], of ds] final_absorbed by fastforce

lemma sha256_final_buf:
  assumes "length (sha_buf ctx) = 64"
  shows "length (sha_buf (snd (sha256_final (foldl sha256_update (sha256_init ctx) ds)))) = 64"
  using update_all_absorbs [OF init_absorbed [OF assms], of ds] final_absorbed by blast

text \<open>
  C30. Hashing in pieces is hashing the whole. For any context, whatever its block holds, and any
  division of a message into pieces, also empty ones and ones longer than a block, the digest after
  feeding the pieces one by one is the digest of the standard: the message is padded with a one bit, zeros and its
  length in bits, and the compression function runs over the blocks of the padded message. The loop
  that pads ends.
\<close>

theorem sha256_streaming:
  assumes "length (sha_buf ctx) = 64"
  shows "fst (sha256_final (foldl sha256_update (sha256_init ctx) ds)) = sha256_spec (concat ds)"
  by (rule sha256_stream_spec [OF assms])

definition blank_ctx :: sha256_ctx where
  "blank_ctx = \<lparr>sha_state = replicate 8 0, sha_count = 0, sha_buf = replicate 64 0\<rparr>"

theorem sha256_streaming_witness:
  "length (sha_buf blank_ctx) = 64 \<and>
   fst (sha256_final (foldl sha256_update (sha256_init blank_ctx) [[1, 2], [], replicate 100 3])) = sha256_spec ([1, 2] @ replicate 100 3)"
proof -
  have b: "length (sha_buf blank_ctx) = 64" by (simp add: blank_ctx_def)
  show ?thesis using b sha256_streaming [OF b, of "[[1, 2], [], replicate 100 3]"] by simp
qed

end
