(* ===== verification/Hkdf.thy ===== *)
theory Hkdf
  imports Sha256
begin

text \<open>
  HMAC and HKDF with SHA-256 and the label expansion of TLS 1.3, the second and third part of
  \<open>src/kernel/crypto.c\<close>, with RFC 2104, RFC 5869 and the label of RFC 8446 as their specifications.

  The argument \<open>ctx\<close> is what the stack holds where a context is declared. \<open>None\<close> is a store
  outside of an array.
\<close>

unbundle bit_operations_syntax

section \<open>HMAC\<close>

definition hmac_sha256 :: "sha256_ctx \<Rightarrow> bytes \<Rightarrow> bytes \<Rightarrow> bytes" where
  "hmac_sha256 ctx key msg =
     (let key = (if length key > 64 then sha256 ctx key else key);
          k0 = map (\<lambda>i. if i < length key then key ! i else 0) [0..<64];
          ipad = map (\<lambda>b. b XOR 0x36) k0;
          opad = map (\<lambda>b. b XOR 0x5c) k0;
          (inner, ctx) = sha256_final (sha256_update (sha256_update (sha256_init ctx) ipad) msg);
          (out, ctx) = sha256_final (sha256_update (sha256_update (sha256_init ctx) opad) inner)
      in out)"

definition hmac_key :: "bytes \<Rightarrow> bytes" where
  "hmac_key key = (let k = (if length key > 64 then sha256_spec key else key) in k @ replicate (64 - length k) 0)"

definition hmac_spec :: "bytes \<Rightarrow> bytes \<Rightarrow> bytes" where
  "hmac_spec key msg =
     sha256_spec (map (\<lambda>b. b XOR 0x5c) (hmac_key key) @ sha256_spec (map (\<lambda>b. b XOR 0x36) (hmac_key key) @ msg))"

lemma sha256_eq: "length (sha_buf ctx) = 64 \<Longrightarrow> sha256 ctx dat = sha256_spec dat"
  using sha256_stream_spec [of ctx "[dat]"] by (simp add: sha256_def)

lemma length_compress [simp]: "length (sha256_compress st b) = 8"
  by (simp add: sha256_compress_def split: prod.splits)

lemma length_sha_chain [simp]: "length (sha_chain m) = 8"
proof -
  have "length (foldl (\<lambda>st i. sha256_compress st (take 64 (drop (64 * i) m))) SHA_IV is) = 8" for "is"
    by (induction "is" rule: rev_induct) (simp_all add: SHA_IV_def)
  then show ?thesis by (simp add: sha_chain_def)
qed

lemma length_sha256_spec [simp]: "length (sha256_spec m) = 32"
  by (simp add: sha256_spec_def digest_of_def length_concat comp_def sum_list_triv)

lemma pad_key: "length key \<le> 64 \<Longrightarrow> map (\<lambda>i. if i < length key then key ! i else 0) [0..<64] = key @ replicate (64 - length key) 0"
  by (rule nth_equalityI) (auto simp: nth_append)

lemma hmac_sha256_eq:
  assumes "length (sha_buf ctx) = 64"
  shows "hmac_sha256 ctx key msg = hmac_spec key msg"
proof -
  let ?key = "if length key > 64 then sha256_spec key else key"
  have k: "map (\<lambda>i. if i < length ?key then ?key ! i else 0) [0..<64] = hmac_key key"
    using pad_key [of ?key] by (simp add: hmac_key_def Let_def)
  have two: "fst (sha256_final (sha256_update (sha256_update (sha256_init c) a) b)) = sha256_spec (a @ b)"
    if "length (sha_buf c) = 64" for c a b using sha256_stream_spec [OF that, of "[a, b]"] by simp
  let ?c = "snd (sha256_final (sha256_update (sha256_update (sha256_init ctx) (map (\<lambda>b. b XOR 0x36) (hmac_key key))) msg))"
  have "length (sha_buf ?c) = 64"
    using sha256_final_buf [OF assms, of "[map (\<lambda>b. b XOR 0x36) (hmac_key key), msg]"] by simp
  then show ?thesis
    using k two [OF assms] two
    by (simp only: hmac_sha256_def sha256_eq [OF assms] Let_def hmac_spec_def case_prod_unfold k)
qed

section \<open>HKDF\<close>

definition hkdf_extract :: "sha256_ctx \<Rightarrow> bytes option \<Rightarrow> bytes \<Rightarrow> bytes" where
  "hkdf_extract ctx salt ikm =
     (case salt of
        None \<Rightarrow> hmac_sha256 ctx (replicate 32 0) ikm
      | Some salt \<Rightarrow> if salt = [] then hmac_sha256 ctx (replicate 32 0) ikm else hmac_sha256 ctx salt ikm)"

text \<open>The scratch buffer holds 289 bytes; input that does not fit is left out.\<close>

function expand_loop :: "sha256_ctx \<Rightarrow> bytes \<Rightarrow> bytes \<Rightarrow> nat \<Rightarrow> u8 \<Rightarrow> bytes \<Rightarrow> nat \<Rightarrow> bytes \<Rightarrow> bytes" where
  "expand_loop ctx prk info olen ctr T done out =
     (if done < olen
      then let ctr = ctr + 1;
               buf = (if ctr > 1 then T else []);
               buf = buf @ take (288 - length buf) info;
               T = hmac_sha256 ctx prk (buf @ [ctr]);
               n = (if olen - done > 32 then 32 else olen - done)
           in expand_loop ctx prk info olen ctr T (done + n) (out @ take n T)
      else out)"
  by auto
termination by (relation "measure (\<lambda>(ctx, prk, info, olen, ctr, T, done, out). olen - done)") auto

declare expand_loop.simps [simp del]

definition hkdf_expand :: "sha256_ctx \<Rightarrow> bytes \<Rightarrow> bytes \<Rightarrow> u32 \<Rightarrow> bytes" where
  "hkdf_expand ctx prk info olen = expand_loop ctx (take 32 prk) info (unat olen) 0 [] 0 []"

text \<open>The label is built in an array of 138 bytes.\<close>

definition hkdf_expand_label :: "sha256_ctx \<Rightarrow> bytes \<Rightarrow> bytes \<Rightarrow> bytes \<Rightarrow> u32 \<Rightarrow> bytes option" where
  "hkdf_expand_label ctx secret label context out_len =
     (let label = cstr label;
          info = [ucast (drop_bit 8 out_len), ucast out_len, word_of_nat (6 + length label)] @ bstr ''tls13 '' @ label @
            [word_of_nat (length context)] @ context
      in if length info \<le> 2 + 1 + 6 + 64 + 1 + 64 then Some (hkdf_expand ctx secret info out_len) else None)"

definition tls13_derive_secret :: "sha256_ctx \<Rightarrow> bytes \<Rightarrow> bytes \<Rightarrow> bytes \<Rightarrow> bytes option" where
  "tls13_derive_secret ctx secret label transcript_hash = hkdf_expand_label ctx secret label (take 32 transcript_hash) 32"

section \<open>The standards\<close>

fun hkdf_block :: "bytes \<Rightarrow> bytes \<Rightarrow> nat \<Rightarrow> bytes" where
  "hkdf_block prk info 0 = []"
| "hkdf_block prk info (Suc n) = hmac_spec prk (hkdf_block prk info n @ info @ [word_of_nat (Suc n)])"

definition hkdf_spec :: "bytes \<Rightarrow> bytes \<Rightarrow> nat \<Rightarrow> bytes" where
  "hkdf_spec prk info L = take L (concat (map (hkdf_block prk info) [1..<Suc ((L + 31) div 32)]))"

text \<open>A length, the label and the context, the last two with a length byte each.\<close>

definition tls13_label :: "nat \<Rightarrow> bytes \<Rightarrow> bytes \<Rightarrow> bytes" where
  "tls13_label L label context =
     (let label = bstr ''tls13 '' @ label
      in be_bytes 2 (word_of_nat L :: u16) @ word_of_nat (length label) # label @ word_of_nat (length context) # context)"

lemma length_hkdf_block: "length (hkdf_block prk info (Suc n)) = 32"
  by (simp add: hmac_spec_def)

lemma length_hkdf_block_le: "length (hkdf_block prk info n) \<le> 32"
  by (cases n) (simp_all only: length_hkdf_block, simp_all)

lemma expand_loop_eq:
  assumes "length (sha_buf ctx) = 64" "olen \<le> 255 * 32" "length info \<le> 256" "d = min (32 * n) olen"
  shows "expand_loop ctx prk info olen (word_of_nat n) (hkdf_block prk info n) d out =
    out @ take (olen - d) (concat (map (hkdf_block prk info) [Suc n..<Suc ((olen + 31) div 32)]))"
  using assms(4)
proof (induction "olen - 32 * n" arbitrary: n d out rule: less_induct)
  case less
  let ?T = "hkdf_block prk info" and ?N = "(olen + 31) div 32"
  show ?case
  proof (cases "32 * n < olen")
    case True
    then have d: "d = 32 * n" "d < olen" and n: "n < 255" "n < ?N" using less.prems assms(2) by auto
    have c: "?T n = []" if "\<not> 1 < (1 + word_of_nat n :: u8)"
    proof (cases n)
      case (Suc k)
      then have "(1 :: u8) < 1 + word_of_nat n"
        using n by (simp add: word_less_nat_alt unat_word_ariths unsigned_of_nat take_bit_eq_mod)
      then show ?thesis using that by simp
    qed simp
    let ?n = "if olen - d > 32 then 32 else olen - d"
    have step: "expand_loop ctx prk info olen (word_of_nat n) (?T n) d out =
        expand_loop ctx prk info olen (word_of_nat (Suc n)) (?T (Suc n)) (d + ?n) (out @ take ?n (?T (Suc n)))"
      using d length_hkdf_block_le [of prk info n] assms(3)
      by (subst expand_loop.simps) (simp add: Let_def c hmac_sha256_eq [OF assms(1)] add.commute)
    have "expand_loop ctx prk info olen (word_of_nat (Suc n)) (?T (Suc n)) (d + ?n) (out @ take ?n (?T (Suc n))) =
        (out @ take ?n (?T (Suc n))) @ take (olen - (d + ?n)) (concat (map ?T [Suc (Suc n)..<Suc ?N]))"
      using True d by (intro less.hyps) auto
    also have "\<dots> = out @ take (olen - d) (?T (Suc n) @ concat (map ?T [Suc (Suc n)..<Suc ?N]))"
      using length_hkdf_block [of prk info n] d by (auto simp del: hkdf_block.simps)
    also have "?T (Suc n) @ concat (map ?T [Suc (Suc n)..<Suc ?N]) = concat (map ?T [Suc n..<Suc ?N])"
      using n by (simp add: upt_conv_Cons [of "Suc n"] del: hkdf_block.simps upt_Suc)
    finally show ?thesis unfolding step .
  next
    case False
    then show ?thesis using less.prems by (subst expand_loop.simps) simp
  qed
qed

lemma hkdf_expand_eq:
  assumes "length (sha_buf ctx) = 64" "unat olen \<le> 255 * 32" "length info \<le> 256" "length prk = 32"
  shows "hkdf_expand ctx prk info olen = hkdf_spec prk info (unat olen)"
  using expand_loop_eq [OF assms(1,2,3), of 0 0 prk "[]"] assms(4) by (simp add: hkdf_expand_def hkdf_spec_def)

text \<open>
  C32. The key schedule follows the standards. For a label and a context of at most 64 bytes and at most
  8160 bytes of output, \<open>hkdf_expand_label\<close> stays inside its arrays and returns the HKDF expansion of RFC 5869,
  over HMAC of RFC 2104, of the secret and the label of RFC 8446. \<open>hkdf_extract\<close> is HMAC with the
  salt, or with 32 zero bytes when there is none.
\<close>

theorem hkdf_expand_label_rfc:
  assumes "length (sha_buf ctx) = 64" "length secret = 32" "length (cstr label) \<le> 64" "length context \<le> 64" "unat olen \<le> 8160"
  shows "hkdf_expand_label ctx secret label context olen =
      Some (hkdf_spec secret (tls13_label (unat olen) (cstr label) context) (unat olen)) \<and>
    hkdf_extract ctx salt ikm =
      hmac_spec (case salt of None \<Rightarrow> replicate 32 0 | Some s \<Rightarrow> if s = [] then replicate 32 0 else s) ikm"
proof -
  have b: "be_bytes 2 (word_of_nat (unat olen) :: u16) = [ucast (drop_bit 8 olen), ucast olen]"
    by (auto simp: be_bytes_def upt_rec intro!: bit_eqI) (auto simp: bit_simps)
  have "hkdf_expand_label ctx secret label context olen = Some (hkdf_spec secret (tls13_label (unat olen) (cstr label) context) (unat olen))"
    using assms by (simp add: hkdf_expand_label_def Let_def bstr_def hkdf_expand_eq tls13_label_def b del: of_nat_unat)
  then show ?thesis
    using hmac_sha256_eq [OF assms(1)] by (simp add: hkdf_extract_def split: option.split)
qed

theorem hkdf_expand_label_rfc_witness:
  "hkdf_expand_label blank_ctx (replicate 32 7) (bstr ''key'') [] 16 =
     Some (hkdf_spec (replicate 32 7) (tls13_label 16 (bstr ''key'') []) 16)"
proof -
  have "cstr (bstr ''key'') = bstr ''key''" by (simp add: bstr_def cstr_def)
  then show ?thesis
    using hkdf_expand_label_rfc [of blank_ctx "replicate 32 7" "bstr ''key''" "[]" 16 None "[]"] by (simp add: blank_ctx_def bstr_def)
qed

end
