(* ===== verification/Aes.thy ===== *)
theory Aes
  imports Sha256
begin

text \<open>
  AES-128 and AES-128-GCM, the fourth and fifth part of \<open>src/kernel/crypto.c\<close>.

  The state of the cipher is a list of four rows. \<open>gcm_mul\<close> gets its three arrays by address, and
  \<open>ghash\<close> calls it with the same array as result and as first factor, so the arrays are kept in a store:
  what an array holds, by its address. Buffers are shorter than \<open>2\<^sup>3\<^sup>2 - 16\<close> bytes, so that
  the 32-bit positions in them do not wrap around.
\<close>

unbundle bit_operations_syntax

section \<open>AES-128\<close>

definition SBOX :: "u8 list" where
  "SBOX = [
    0x63, 0x7c, 0x77, 0x7b, 0xf2, 0x6b, 0x6f, 0xc5, 0x30, 0x01, 0x67, 0x2b, 0xfe, 0xd7, 0xab, 0x76,
    0xca, 0x82, 0xc9, 0x7d, 0xfa, 0x59, 0x47, 0xf0, 0xad, 0xd4, 0xa2, 0xaf, 0x9c, 0xa4, 0x72, 0xc0,
    0xb7, 0xfd, 0x93, 0x26, 0x36, 0x3f, 0xf7, 0xcc, 0x34, 0xa5, 0xe5, 0xf1, 0x71, 0xd8, 0x31, 0x15,
    0x04, 0xc7, 0x23, 0xc3, 0x18, 0x96, 0x05, 0x9a, 0x07, 0x12, 0x80, 0xe2, 0xeb, 0x27, 0xb2, 0x75,
    0x09, 0x83, 0x2c, 0x1a, 0x1b, 0x6e, 0x5a, 0xa0, 0x52, 0x3b, 0xd6, 0xb3, 0x29, 0xe3, 0x2f, 0x84,
    0x53, 0xd1, 0x00, 0xed, 0x20, 0xfc, 0xb1, 0x5b, 0x6a, 0xcb, 0xbe, 0x39, 0x4a, 0x4c, 0x58, 0xcf,
    0xd0, 0xef, 0xaa, 0xfb, 0x43, 0x4d, 0x33, 0x85, 0x45, 0xf9, 0x02, 0x7f, 0x50, 0x3c, 0x9f, 0xa8,
    0x51, 0xa3, 0x40, 0x8f, 0x92, 0x9d, 0x38, 0xf5, 0xbc, 0xb6, 0xda, 0x21, 0x10, 0xff, 0xf3, 0xd2,
    0xcd, 0x0c, 0x13, 0xec, 0x5f, 0x97, 0x44, 0x17, 0xc4, 0xa7, 0x7e, 0x3d, 0x64, 0x5d, 0x19, 0x73,
    0x60, 0x81, 0x4f, 0xdc, 0x22, 0x2a, 0x90, 0x88, 0x46, 0xee, 0xb8, 0x14, 0xde, 0x5e, 0x0b, 0xdb,
    0xe0, 0x32, 0x3a, 0x0a, 0x49, 0x06, 0x24, 0x5c, 0xc2, 0xd3, 0xac, 0x62, 0x91, 0x95, 0xe4, 0x79,
    0xe7, 0xc8, 0x37, 0x6d, 0x8d, 0xd5, 0x4e, 0xa9, 0x6c, 0x56, 0xf4, 0xea, 0x65, 0x7a, 0xae, 0x08,
    0xba, 0x78, 0x25, 0x2e, 0x1c, 0xa6, 0xb4, 0xc6, 0xe8, 0xdd, 0x74, 0x1f, 0x4b, 0xbd, 0x8b, 0x8a,
    0x70, 0x3e, 0xb5, 0x66, 0x48, 0x03, 0xf6, 0x0e, 0x61, 0x35, 0x57, 0xb9, 0x86, 0xc1, 0x1d, 0x9e,
    0xe1, 0xf8, 0x98, 0x11, 0x69, 0xd9, 0x8e, 0x94, 0x9b, 0x1e, 0x87, 0xe9, 0xce, 0x55, 0x28, 0xdf,
    0x8c, 0xa1, 0x89, 0x0d, 0xbf, 0xe6, 0x42, 0x68, 0x41, 0x99, 0x2d, 0x0f, 0xb0, 0x54, 0xbb, 0x16]"

definition RCON :: "u8 list" where
  "RCON = [0x01, 0x02, 0x04, 0x08, 0x10, 0x20, 0x40, 0x80, 0x1b, 0x36]"

definition sbox_byte :: "u32 \<Rightarrow> nat \<Rightarrow> u32" where
  "sbox_byte t n = ucast (SBOX ! unat (drop_bit n t AND 0xff))"

definition key_word :: "u32 list \<Rightarrow> nat \<Rightarrow> u32" where
  "key_word w i =
     (let t = w ! (i - 1);
          t = (if i mod 4 = 0
               then (push_bit 24 (sbox_byte t 16) OR push_bit 16 (sbox_byte t 8) OR push_bit 8 (sbox_byte t 0) OR sbox_byte t 24)
                    XOR push_bit 24 (ucast (RCON ! (i div 4 - 1)))
               else t)
      in w ! (i - 4) XOR t)"

definition aes128_setkey :: "bytes \<Rightarrow> u32 list" where
  "aes128_setkey key = fold (\<lambda>i w. w @ [key_word w i]) [4..<44] (map (\<lambda>i. be32 key (4 * i)) [0..<4])"

definition aes_xtime :: "u8 \<Rightarrow> u8" where
  "aes_xtime b = push_bit 1 b XOR (if drop_bit 7 b \<noteq> 0 then 0x1b else 0)"

type_synonym aes_state = "u8 list list"

definition aes_load :: "bytes \<Rightarrow> aes_state" where
  "aes_load inp = map (\<lambda>r. map (\<lambda>c. inp ! (c * 4 + r)) [0..<4]) [0..<4]"

definition aes_store :: "aes_state \<Rightarrow> bytes" where
  "aes_store s = concat (map (\<lambda>c. map (\<lambda>r. s ! r ! c) [0..<4]) [0..<4])"

definition add_round_key :: "u32 list \<Rightarrow> nat \<Rightarrow> aes_state \<Rightarrow> aes_state" where
  "add_round_key rk i s = map (\<lambda>r. map (\<lambda>c. s ! r ! c XOR ucast (drop_bit (24 - 8 * r) (rk ! (i * 4 + c)) AND 0xff)) [0..<4]) [0..<4]"

definition sub_bytes :: "aes_state \<Rightarrow> aes_state" where
  "sub_bytes s = map (map (\<lambda>b. SBOX ! unat b)) s"

definition shift_rows :: "aes_state \<Rightarrow> aes_state" where
  "shift_rows s =
     [[s ! 0 ! 0, s ! 0 ! 1, s ! 0 ! 2, s ! 0 ! 3],
      [s ! 1 ! 1, s ! 1 ! 2, s ! 1 ! 3, s ! 1 ! 0],
      [s ! 2 ! 2, s ! 2 ! 3, s ! 2 ! 0, s ! 2 ! 1],
      [s ! 3 ! 3, s ! 3 ! 0, s ! 3 ! 1, s ! 3 ! 2]]"

definition mix_columns :: "aes_state \<Rightarrow> aes_state" where
  "mix_columns s =
     (let col = (\<lambda>f. map (\<lambda>c. f (s ! 0 ! c) (s ! 1 ! c) (s ! 2 ! c) (s ! 3 ! c)) [0..<4])
      in [col (\<lambda>a0 a1 a2 a3. aes_xtime a0 XOR a1 XOR aes_xtime a1 XOR a2 XOR a3),
          col (\<lambda>a0 a1 a2 a3. a0 XOR aes_xtime a1 XOR a2 XOR aes_xtime a2 XOR a3),
          col (\<lambda>a0 a1 a2 a3. a0 XOR a1 XOR aes_xtime a2 XOR a3 XOR aes_xtime a3),
          col (\<lambda>a0 a1 a2 a3. a0 XOR aes_xtime a0 XOR a1 XOR a2 XOR aes_xtime a3)])"

definition aes_round :: "u32 list \<Rightarrow> nat \<Rightarrow> aes_state \<Rightarrow> aes_state" where
  "aes_round rk i s =
     (let s = shift_rows (sub_bytes s); s = (if i < 10 then mix_columns s else s) in add_round_key rk i s)"

definition aes128_encrypt_block :: "u32 list \<Rightarrow> bytes \<Rightarrow> bytes" where
  "aes128_encrypt_block rk inp = aes_store (fold (aes_round rk) [1..<11] (add_round_key rk 0 (aes_load inp)))"

section \<open>Multiplication in the field of GCM\<close>

type_synonym arrays = "nat \<Rightarrow> bytes"

definition xor_bytes :: "bytes \<Rightarrow> bytes \<Rightarrow> bytes" where
  "xor_bytes a b = map2 (XOR) a b"

text \<open>Shifting \<open>V\<close> to the right by one bit, the bytes most significant first, and reducing.\<close>

definition gcm_shift :: "bytes \<Rightarrow> bytes" where
  "gcm_shift V =
     (let V' = map (\<lambda>k. if k = 0 then drop_bit 1 (V ! 0) else drop_bit 1 (V ! k) OR push_bit 7 (V ! (k - 1))) [0..<16]
      in if V ! 15 AND 1 \<noteq> 0 then V'[0 := V' ! 0 XOR 0xe1] else V')"

definition gcm_bit :: "nat \<Rightarrow> u8 \<Rightarrow> nat \<Rightarrow> arrays \<times> bytes \<Rightarrow> arrays \<times> bytes" where
  "gcm_bit z xi j = (\<lambda>(m, V). (if drop_bit j xi AND 1 \<noteq> 0 then m(z := xor_bytes (m z) V) else m, gcm_shift V))"

definition gcm_byte :: "nat \<Rightarrow> nat \<Rightarrow> nat \<Rightarrow> arrays \<times> bytes \<Rightarrow> arrays \<times> bytes" where
  "gcm_byte z x i = (\<lambda>(m, V). let xi = m x ! i in fold (gcm_bit z xi) (rev [0..<8]) (m, V))"

definition gcm_mul :: "nat \<Rightarrow> nat \<Rightarrow> nat \<Rightarrow> arrays \<Rightarrow> arrays" where
  "gcm_mul z x y m =
     (let m = m(z := replicate 16 0); V = m y in fst (fold (gcm_byte z x) [0..<16] (m, V)))"

section \<open>GCM\<close>

text \<open>In \<open>ghash\<close> the running value is array 0 and the hash key array 1.\<close>

definition ghash_block :: "bytes \<Rightarrow> arrays \<Rightarrow> arrays" where
  "ghash_block blk m = gcm_mul 0 0 1 (m(0 := xor_bytes (m 0) blk))"

definition pad_block :: "bytes \<Rightarrow> nat \<Rightarrow> bytes" where
  "pad_block dat i = (let b = take 16 (drop (i * 16) dat) in b @ replicate (16 - length b) 0)"

definition ghash_data :: "bytes \<Rightarrow> arrays \<Rightarrow> arrays" where
  "ghash_data dat = fold (\<lambda>i. ghash_block (pad_block dat i)) [0..<(length dat + 15) div 16]"

definition length_block :: "nat \<Rightarrow> nat \<Rightarrow> bytes" where
  "length_block aad_len clen = be_bytes 8 (word_of_nat aad_len * 8 :: u64) @ be_bytes 8 (word_of_nat clen * 8 :: u64)"

definition ghash :: "bytes \<Rightarrow> bytes \<Rightarrow> bytes \<Rightarrow> bytes" where
  "ghash H aad cipher =
     (let m = (\<lambda>_. [])(0 := replicate 16 0, 1 := H);
          m = ghash_data cipher (ghash_data aad m);
          m = ghash_block (length_block (length aad) (length cipher)) m
      in m 0)"

function ctr_loop :: "u32 list \<Rightarrow> bytes \<Rightarrow> u32 \<Rightarrow> bytes \<Rightarrow> bytes" where
  "ctr_loop aes iv ctr buf =
     (if buf = [] then []
      else let ctr = ctr + 1; keystream = aes128_encrypt_block aes (take 12 iv @ be_bytes 4 ctr)
           in xor_bytes (take 16 buf) keystream @ ctr_loop aes iv ctr (drop 16 buf))"
  by auto
termination by (relation "measure (\<lambda>(aes, iv, ctr, buf). length buf)") auto

declare ctr_loop.simps [simp del]

definition gcm_ctr :: "u32 list \<Rightarrow> bytes \<Rightarrow> bytes \<Rightarrow> u32 \<Rightarrow> bytes" where
  "gcm_ctr aes iv buf ctr_start = ctr_loop aes iv ctr_start buf"

definition gcm_tag :: "u32 list \<Rightarrow> bytes \<Rightarrow> bytes \<Rightarrow> bytes \<Rightarrow> bytes" where
  "gcm_tag aes iv aad buf =
     (let H = aes128_encrypt_block aes (replicate 16 0);
          S = ghash H aad buf;
          E_J0 = aes128_encrypt_block aes (take 12 iv @ [0, 0, 0, 1])
      in xor_bytes S E_J0)"

definition aes128gcm_encrypt :: "u32 list \<Rightarrow> bytes \<Rightarrow> bytes \<Rightarrow> bytes \<Rightarrow> bytes \<times> bytes" where
  "aes128gcm_encrypt aes iv aad buf = (let buf = gcm_ctr aes iv buf 1 in (buf, gcm_tag aes iv aad buf))"

text \<open>The comparison collects the differences of all sixteen bytes.\<close>

definition tag_diff :: "bytes \<Rightarrow> bytes \<Rightarrow> u8" where
  "tag_diff tag expected = fold (\<lambda>i diff. diff OR (tag ! i XOR expected ! i)) [0..<16] 0"

definition aes128gcm_decrypt :: "u32 list \<Rightarrow> bytes \<Rightarrow> bytes \<Rightarrow> bytes \<Rightarrow> bytes \<Rightarrow> int \<times> bytes" where
  "aes128gcm_decrypt aes iv aad buf expected_tag =
     (if tag_diff (gcm_tag aes iv aad buf) expected_tag \<noteq> 0 then (-1, buf) else (0, gcm_ctr aes iv buf 1))"

section \<open>Lemmas\<close>

lemma length_aes_store [simp]: "length (aes_store s) = 16"
  by (simp add: aes_store_def length_concat comp_def sum_list_triv)

lemma length_aes128_encrypt_block [simp]: "length (aes128_encrypt_block rk inp) = 16"
  by (simp add: aes128_encrypt_block_def)

lemma xor_bytes_twice: "length b \<ge> length a \<Longrightarrow> xor_bytes (xor_bytes a b) b = a"
  by (rule nth_equalityI) (auto simp: xor_bytes_def xor.assoc)

lemma length_xor_bytes [simp]: "length (xor_bytes a b) = min (length a) (length b)"
  by (simp add: xor_bytes_def)

lemma ctr_loop_involution: "ctr_loop aes iv ctr (ctr_loop aes iv ctr buf) = buf"
proof (induction aes iv ctr buf rule: ctr_loop.induct)
  case (1 aes iv ctr buf)
  show ?case
  proof (cases "buf = []")
    case True
    then show ?thesis by (simp add: ctr_loop.simps)
  next
    case False
    let ?ks = "aes128_encrypt_block aes (take 12 iv @ be_bytes 4 (ctr + 1))"
    let ?x = "xor_bytes (take 16 buf) ?ks" and ?r = "ctr_loop aes iv (ctr + 1) (drop 16 buf)"
    have e: "ctr_loop aes iv ctr buf = ?x @ ?r" using False by (subst ctr_loop.simps) (simp add: Let_def)
    have x: "length ?x = min (length buf) 16" by simp
    have ne: "?x @ ?r \<noteq> []" using False x by (metis append_is_Nil_conv length_0_conv min_0R min_def zero_neq_numeral)
    have short: "?r = []" if "length buf \<le> 16" using that by (simp add: ctr_loop.simps)
    have t: "take 16 (?x @ ?r) = ?x" "drop 16 (?x @ ?r) = ?r" using short by (cases "length buf \<le> 16"; simp)+
    have "ctr_loop aes iv ctr (?x @ ?r) = xor_bytes ?x ?ks @ ctr_loop aes iv (ctr + 1) ?r"
      by (subst ctr_loop.simps) (simp only: Let_def t ne if_False)
    also have "\<dots> = take 16 buf @ drop 16 buf"
      using "1.IH" [OF False refl refl] by (simp add: xor_bytes_twice)
    finally show ?thesis using e by simp
  qed
qed

lemma xor_zero_eq: "(a :: 'a::len word) XOR b = 0 \<Longrightarrow> a = b"
  by (metis xor.assoc xor_self_eq xor.left_neutral xor.right_neutral)

section \<open>The tag\<close>

lemma gcm_byte_zero: "m x ! i = 0 \<Longrightarrow> fst (gcm_byte z x i (m, V)) = m"
proof -
  have "fst (fold (gcm_bit z 0) js (m, V)) = m" for js
    by (induction js arbitrary: V) (simp_all add: gcm_bit_def)
  then show "m x ! i = 0 \<Longrightarrow> fst (gcm_byte z x i (m, V)) = m" by (simp add: gcm_byte_def)
qed

text \<open>With the result in the place of the first factor, that factor is cleared before it is read.\<close>

lemma gcm_bytes_zero:
  "m x = replicate 16 0 \<Longrightarrow> set is \<subseteq> {..<16} \<Longrightarrow> fst (fold (gcm_byte z x) is (m, V)) = m"
proof (induction "is" arbitrary: V)
  case (Cons i "is")
  have "fst (gcm_byte z x i (m, V)) = m" using Cons.prems by (intro gcm_byte_zero) simp
  then obtain V' where "gcm_byte z x i (m, V) = (m, V')" by (cases "gcm_byte z x i (m, V)") simp
  then show ?case using Cons.IH [of V'] Cons.prems by simp
qed simp

lemma gcm_mul_aliased: "gcm_mul z z y m = m(z := replicate 16 0)"
proof -
  have "set [0..<16] \<subseteq> {..<16 :: nat}" by auto
  then show ?thesis unfolding gcm_mul_def Let_def by (intro gcm_bytes_zero) simp
qed

lemma ghash_zero: "ghash H aad cipher = replicate 16 0"
  by (simp add: ghash_def Let_def ghash_block_def gcm_mul_aliased)

lemma gcm_tag_eq: "gcm_tag aes iv aad buf = aes128_encrypt_block aes (take 12 iv @ [0, 0, 0, 1])"
  by (rule nth_equalityI) (simp_all add: gcm_tag_def ghash_zero Let_def xor_bytes_def)

lemma tag_diff_zero: "tag_diff a b = 0 \<longleftrightarrow> (\<forall>i<16. a ! i = b ! i)"
proof -
  have "fold (\<lambda>i diff. diff OR (a ! i XOR b ! i)) is d = 0 \<longleftrightarrow> d = 0 \<and> (\<forall>i\<in>set is. a ! i = b ! i)" for "is" d
    by (induction "is" arbitrary: d) (auto simp: or_eq_0_iff intro: xor_zero_eq)
  from this [of "[0..<16]" 0] show ?thesis by (auto simp: tag_diff_def)
qed

text \<open>
  What is encrypted can be decrypted: \<open>aes128gcm_decrypt\<close> accepts the ciphertext and tag that
  \<open>aes128gcm_encrypt\<close> produced under the same key, nonce and associated data, and gives the plaintext back,
  for every length, also one that is no multiple of the block size.
\<close>

theorem gcm_roundtrip:
  "case aes128gcm_encrypt aes iv aad buf of (c, tag) \<Rightarrow> aes128gcm_decrypt aes iv aad c tag = (0, buf)"
  by (simp add: aes128gcm_encrypt_def aes128gcm_decrypt_def Let_def tag_diff_zero gcm_ctr_def ctr_loop_involution)

text \<open>
  C31. The tag authenticates nothing. \<open>ghash\<close> calls \<open>gcm_mul\<close> with its running value as the result and as the
  first factor; \<open>gcm_mul\<close> clears the result before it reads the factor, so every product and with it the hash
  is zero. A sixteen-byte tag is accepted exactly when it is the encrypted first counter block, whatever the
  ciphertext and the associated data are: the tag of one message is accepted with any other under the
  same nonce.
\<close>

theorem gcm_accepts_forgeries:
  assumes "length tag = 16"
  shows "aes128gcm_decrypt aes iv aad buf tag =
      (if tag = aes128_encrypt_block aes (take 12 iv @ [0, 0, 0, 1]) then (0, gcm_ctr aes iv buf 1) else (-1, buf)) \<and>
    snd (aes128gcm_encrypt aes iv aad buf) = aes128_encrypt_block aes (take 12 iv @ [0, 0, 0, 1])"
proof -
  have "tag_diff (aes128_encrypt_block aes (take 12 iv @ [0, 0, 0, 1])) tag = 0 \<longleftrightarrow>
      tag = aes128_encrypt_block aes (take 12 iv @ [0, 0, 0, 1])"
    using assms by (auto simp: tag_diff_zero list_eq_iff_nth_eq)
  then show ?thesis
    by (simp add: aes128gcm_decrypt_def aes128gcm_encrypt_def gcm_tag_eq Let_def)
qed

theorem gcm_accepts_forgeries_witness:
  "let tag = snd (aes128gcm_encrypt (aes128_setkey (replicate 16 0)) (replicate 12 0) [] [1, 2, 3])
   in length tag = 16 \<and> fst (aes128gcm_decrypt (aes128_setkey (replicate 16 0)) (replicate 12 0) [9] [4, 5] tag) = 0"
  using gcm_accepts_forgeries [of "aes128_encrypt_block (aes128_setkey (replicate 16 0)) (take 12 (replicate 12 0) @ [0, 0, 0, 1])"
      "aes128_setkey (replicate 16 0)" "replicate 12 0" "[9]" "[4, 5]"]
    gcm_accepts_forgeries [of "aes128_encrypt_block (aes128_setkey (replicate 16 0)) (take 12 (replicate 12 0) @ [0, 0, 0, 1])"
      "aes128_setkey (replicate 16 0)" "replicate 12 0" "[]" "[1, 2, 3]"]
  by (simp only: Let_def length_aes128_encrypt_block) simp

section \<open>The multiplication of the standard\<close>

text \<open>Blocks as 128-bit words; bit \<open>i\<close> of the standard is the one of weight \<open>2\<^sup>1\<^sup>2\<^sup>7\<^sup>-\<^sup>i\<close>.\<close>

definition block :: "bytes \<Rightarrow> 128 word" where
  "block bs = le_word (rev bs)"

definition gf_step :: "128 word \<Rightarrow> nat \<Rightarrow> 128 word \<times> 128 word \<Rightarrow> 128 word \<times> 128 word" where
  "gf_step X i = (\<lambda>(Z, V). (if bit X (127 - i) then Z XOR V else Z,
     drop_bit 1 V XOR (if bit V 0 then push_bit 120 0xe1 else 0)))"

definition gf_mul :: "128 word \<Rightarrow> 128 word \<Rightarrow> 128 word" where
  "gf_mul X Y = fst (fold (gf_step X) [0..<128] (0, Y))"

lemma bit_block: "length bs = 16 \<Longrightarrow> bit (block bs) n \<longleftrightarrow> n < 128 \<and> bit (bs ! (15 - n div 8)) (n mod 8)"
  by (auto simp: block_def bit_le_word rev_nth)

lemma block_xor: "length a = 16 \<Longrightarrow> length b = 16 \<Longrightarrow> block (xor_bytes a b) = block a XOR block b"
  by (rule bit_eqI) (auto simp: bit_block xor_bytes_def bit_simps)

lemma block_zero: "block (replicate 16 0) = 0"
  by (rule bit_eqI) (simp add: bit_block)

lemma length_gcm_shift [simp]: "length (gcm_shift V) = 16"
  by (simp add: gcm_shift_def Let_def)

lemma bit_e1_int: "bit (225 :: int) n \<longleftrightarrow> n \<in> {0, 5, 6, 7}"
proof (cases "n < 8")
  case True
  then have "n \<in> {0, 1, 2, 3, 4, 5, 6, 7}" by auto
  then show ?thesis by (auto simp: bit_iff_odd)
next
  case False
  then have "(2 :: int) ^ 8 \<le> 2 ^ n" by (intro power_increasing) auto
  then have "(225 :: int) div 2 ^ n = 0" by (intro div_pos_pos_trivial) auto
  then show ?thesis using False by (simp add: bit_iff_odd)
qed

lemma bit_numeral_e1: "bit (0xe1 :: 'a::len word) n \<longleftrightarrow> n < LENGTH('a) \<and> n \<in> {0, 5, 6, 7}"
  using bit_e1_int [of n] by (simp add: bit_numeral_word_iff)

lemma block_shift:
  assumes "length V = 16"
  shows "block (gcm_shift V) = drop_bit 1 (block V) XOR (if bit (block V) 0 then push_bit 120 0xe1 else 0)"
proof (rule bit_word_eqI)
  fix n assume n: "n < LENGTH(128)"
  let ?V = "map (\<lambda>k. if k = 0 then drop_bit 1 (V ! 0) else drop_bit 1 (V ! k) OR push_bit 7 (V ! (k - 1))) [0..<16]"
  have odd: "(V ! 15 AND 1 \<noteq> 0) = bit (block V) 0"
    using bit_block [OF assms, of 0] by (simp add: and_one_eq odd_iff_mod_2_eq_one [symmetric] bit_0)
  have no8: "\<not> bit (w :: u8) 8" for w using bit_imp_le_length [of w 8] by auto
  have n': "n < 128" using n by simp
  then have q: "n div 8 \<le> 15" by simp
  have k: "?V ! k = (if k = 0 then drop_bit 1 (V ! 0) else drop_bit 1 (V ! k) OR push_bit 7 (V ! (k - 1)))" if "k < 16" for k
    using that by (simp del: upt_Suc)
  have v: "bit (?V ! (15 - n div 8)) (n mod 8) \<longleftrightarrow> bit (block V) (Suc n)"
  proof (cases "n mod 8 = 7")
    case True
    then have "Suc n mod 8 = 0" "Suc n div 8 = Suc (n div 8)" "Suc n < 128 \<longleftrightarrow> n div 8 < 15"
      using n' div_mult_mod_eq [of n 8] by (simp_all add: mod_Suc div_Suc) linarith
    then show ?thesis using True q assms by (subst k) (auto simp: bit_block bit_simps no8 less_Suc_eq_le)
  next
    case False
    then have "Suc n mod 8 = Suc (n mod 8)" "Suc n div 8 = n div 8" "n mod 8 < 7"
      by (simp_all add: mod_Suc div_Suc)
    moreover have "Suc n < 128" using n' False by (cases "n = 127") auto
    ultimately show ?thesis using assms by (subst k) (auto simp: bit_block bit_simps)
  qed
  have top: "bit (?V[0 := ?V ! 0 XOR 0xe1] ! (15 - n div 8)) (n mod 8) \<longleftrightarrow>
      bit (?V ! (15 - n div 8)) (n mod 8) \<noteq> (120 \<le> n \<and> bit (0xe1 :: u8) (n mod 8))"
  proof (cases "n div 8 = 15")
    case True
    then have "120 \<le> n" using div_mult_mod_eq [of n 8] by simp
    then show ?thesis using True by (simp only: diff_self_eq_0 nth_list_update_eq length_map length_upt bit_xor_iff) simp
  next
    case False
    then have "\<not> 120 \<le> n" "0 \<noteq> 15 - n div 8" using q div_le_mono [of 120 n 8] by auto
    then show ?thesis by (simp only: nth_list_update_neq simp_thms)
  qed
  have "120 \<le> n \<Longrightarrow> n mod 8 = n - 120" using n by (simp add: mod_if)
  then have e1: "(120 \<le> n \<and> bit (0xe1 :: u8) (n mod 8)) = bit (push_bit 120 0xe1 :: 128 word) n"
    using n unfolding bit_push_bit_iff bit_numeral_e1 by auto
  have g: "gcm_shift V = (if bit (block V) 0 then ?V[0 := ?V ! 0 XOR 0xe1] else ?V)"
    unfolding gcm_shift_def Let_def odd ..
  have b: "bit (block (gcm_shift V)) n \<longleftrightarrow> bit (gcm_shift V ! (15 - n div 8)) (n mod 8)"
    using n by (simp only: bit_block length_gcm_shift len_num1 len_bit0) simp
  have d: "bit (drop_bit 1 (block V)) n = bit (block V) (Suc n)" by (simp add: bit_drop_bit_eq)
  show "bit (block (gcm_shift V)) n = bit (drop_bit 1 (block V) XOR (if bit (block V) 0 then push_bit 120 0xe1 else 0)) n"
    unfolding b unfolding g bit_xor_iff d
    by (cases "bit (block V) 0") (simp_all only: if_True if_False top v e1 bit_0_eq bot_apply bot_bool_def not_False_eq_True simp_thms)
qed

lemma fold_concat_map: "fold f (concat (map g xs)) s = fold (\<lambda>x. fold f (g x)) xs s"
  by (induction xs arbitrary: s) simp_all

lemma bits_in_order: "concat (map (\<lambda>i. map (\<lambda>j. 8 * i + 7 - j) (rev [0..<8])) [0..<16]) = [0..<128 :: nat]"
  by code_simp

text \<open>The array and the multiple of the second factor that the loops have reached.\<close>

definition gcm_sim :: "nat \<Rightarrow> arrays \<Rightarrow> arrays \<times> bytes \<Rightarrow> 128 word \<times> 128 word \<Rightarrow> bool" where
  "gcm_sim z m0 = (\<lambda>(m, V) (Z, W). m = m0(z := m z) \<and> length (m z) = 16 \<and> length V = 16 \<and> block (m z) = Z \<and> block V = W)"

lemma gcm_bit_sim:
  assumes "gcm_sim z m0 a b" "bit X (127 - (8 * i + 7 - j)) = bit xi j"
  shows "gcm_sim z m0 (gcm_bit z xi j a) (gf_step X (8 * i + 7 - j) b)"
proof -
  have j: "(drop_bit j xi AND 1 \<noteq> 0) = bit xi j" by (simp add: and_one_eq odd_iff_mod_2_eq_one [symmetric] bit_iff_odd_drop_bit)
  obtain m V Z W where e: "a = (m, V)" "b = (Z, W)" by fastforce
  have s: "m = m0(z := m z)" "length (m z) = 16" "length V = 16" "block (m z) = Z" "block V = W"
    using assms(1) unfolding e by (simp_all add: gcm_sim_def)
  have u: "m(z := p) = m0(z := p)" for p using fun_upd_upd [of m0 z "m z" p] s(1) by metis
  show ?thesis
    unfolding e gcm_bit_def gf_step_def split j assms(2)
    using s by (cases "bit xi j") (simp_all add: gcm_sim_def block_xor block_shift u)
qed

lemma gcm_bits_sim:
  assumes "gcm_sim z m0 a b" "\<forall>j \<in> set js. bit X (127 - (8 * i + 7 - j)) = bit xi j"
  shows "gcm_sim z m0 (fold (gcm_bit z xi) js a) (fold (gf_step X) (map (\<lambda>j. 8 * i + 7 - j) js) b)"
  using assms by (induction js arbitrary: a b) (simp_all add: gcm_bit_sim)

lemma gcm_byte_sim:
  assumes "gcm_sim z m0 a b" "z \<noteq> x" "length (m0 x) = 16" "i < 16"
  shows "gcm_sim z m0 (gcm_byte z x i a) (fold (gf_step (block (m0 x))) (map (\<lambda>j. 8 * i + 7 - j) (rev [0..<8])) b)"
proof -
  obtain m V where a: "a = (m, V)" by fastforce
  have "m x = m0 x" using assms(1,2) a by (auto simp: gcm_sim_def fun_eq_iff split: prod.splits if_splits)
  moreover have "bit (block (m0 x)) (127 - (8 * i + 7 - j)) = bit (m0 x ! i) j" if "j < 8" for j
  proof -
    have "127 - (8 * i + 7 - j) = 8 * (15 - i) + j" using that assms(4) by simp
    moreover have "(8 * (15 - i) + j) div 8 = 15 - i" "(8 * (15 - i) + j) mod 8 = j"
      "8 * (15 - i) + j < 128" using that assms(4) by simp_all
    ultimately show ?thesis using assms(3,4) that by (simp add: bit_block)
  qed
  ultimately show ?thesis
    using assms(1) unfolding a gcm_byte_def Let_def split by (intro gcm_bits_sim) auto
qed

lemma gcm_bytes_sim:
  assumes "gcm_sim z m0 a b" "z \<noteq> x" "length (m0 x) = 16" "\<forall>i \<in> set is. i < 16"
  shows "gcm_sim z m0 (fold (gcm_byte z x) is a)
    (fold (\<lambda>i. fold (gf_step (block (m0 x))) (map (\<lambda>j. 8 * i + 7 - j) (rev [0..<8]))) is b)"
  using assms(1,4)
proof (induction "is" arbitrary: a b)
  case (Cons i "is")
  then show ?case using gcm_byte_sim [OF Cons.prems(1) assms(2,3), of i] by simp
qed simp

text \<open>
  On arrays of their own \<open>gcm_mul\<close> computes the product of the standard (NIST SP 800-38D, algorithm 1)
  in the field of \<open>2\<^sup>1\<^sup>2\<^sup>8\<close> elements, and changes only the result.
\<close>

theorem gcm_mul_correct:
  assumes "z \<noteq> x" "z \<noteq> y" "length (m x) = 16" "length (m y) = 16"
  shows "\<exists>p. gcm_mul z x y m = m(z := p) \<and> length p = 16 \<and> block p = gf_mul (block (m x)) (block (m y))"
proof -
  let ?m = "m(z := replicate 16 0)"
  let ?r = "fold (gcm_byte z x) [0..<16] (?m, m y)"
  have "gcm_sim z ?m (?m, m y) (0, block (m y))" using assms by (simp add: gcm_sim_def block_zero)
  then have "gcm_sim z ?m ?r (fold (\<lambda>i. fold (gf_step (block (?m x))) (map (\<lambda>j. 8 * i + 7 - j) (rev [0..<8]))) [0..<16] (0, block (m y)))"
    using assms by (intro gcm_bytes_sim) (simp_all del: upt_Suc)
  then have "gcm_sim z ?m ?r (fold (gf_step (block (m x))) [0..<128] (0, block (m y)))"
    using assms(1) by (simp only: fold_concat_map [symmetric] bits_in_order fun_upd_other)
  moreover have "gcm_mul z x y m = fst ?r" using assms(2) by (simp only: gcm_mul_def Let_def fun_upd_other)
  moreover obtain m' V' Z W where "?r = (m', V')" "fold (gf_step (block (m x))) [0..<128] (0, block (m y)) = (Z, W)"
    by (meson surj_pair)
  ultimately show ?thesis
    unfolding gf_mul_def by (auto simp only: gcm_sim_def split fun_upd_upd fst_conv intro!: exI [of _ "m' z"])
qed

theorem gcm_mul_correct_witness:
  "\<exists>p. gcm_mul 2 0 1 (\<lambda>i. replicate 16 (word_of_nat i)) = (\<lambda>i. replicate 16 (word_of_nat i))(2 := p) \<and>
     length p = 16 \<and> block p = gf_mul (block (replicate 16 0)) (block (replicate 16 1))"
  using gcm_mul_correct [of 2 0 1 "\<lambda>i. replicate 16 (word_of_nat i)"] by simp

end
