(* ===== verification/Field25519.thy ===== *)
theory Field25519
  imports Prelude
begin

text \<open>
  Arithmetic modulo \<open>2\<^sup>2\<^sup>5\<^sup>5 - 19\<close>, from the sixth part of \<open>src/kernel/crypto.c\<close>.

  A field element is five limbs of 51 bits in 64-bit words. The limbs may run over: an operation promises
  its result modulo the prime and a bound on the limbs for operands within a bound. The products are
  computed with 128-bit words.
\<close>

unbundle bit_operations_syntax

type_synonym u128 = "128 word"
type_synonym fe = "u64 \<times> u64 \<times> u64 \<times> u64 \<times> u64"

section \<open>Operations\<close>

definition FE_MASK :: u64 where "FE_MASK = push_bit 51 1 - 1"

definition fe_zero :: fe where "fe_zero = (0, 0, 0, 0, 0)"
definition fe_one :: fe where "fe_one = (1, 0, 0, 0, 0)"

fun fe_add :: "fe \<Rightarrow> fe \<Rightarrow> fe" where
  "fe_add (f0, f1, f2, f3, f4) (g0, g1, g2, g3, g4) = (f0 + g0, f1 + g1, f2 + g2, f3 + g3, f4 + g4)"

fun fe_sub :: "fe \<Rightarrow> fe \<Rightarrow> fe" where
  "fe_sub (f0, f1, f2, f3, f4) (g0, g1, g2, g3, g4) =
     (f0 - g0 + (4 * push_bit 51 1 - 76), f1 - g1 + (4 * push_bit 51 1 - 4), f2 - g2 + (4 * push_bit 51 1 - 4),
      f3 - g3 + (4 * push_bit 51 1 - 4), f4 - g4 + (4 * push_bit 51 1 - 4))"

text \<open>\<open>c=(uint64_t)(t>>51); t&=FE_MASK; n+=c;\<close>, and the carry out of the last limb.\<close>

definition carry :: "u128 \<Rightarrow> u128 \<Rightarrow> u128 \<times> u128" where
  "carry t n = (let c = ucast (drop_bit 51 t) :: u64 in (t AND ucast FE_MASK, n + ucast c))"

definition carry_last :: "u128 \<Rightarrow> u128 \<Rightarrow> u128 \<times> u128" where
  "carry_last t n = (let c = ucast (drop_bit 51 t) :: u64 in (t AND ucast FE_MASK, n + 19 * ucast c))"

text \<open>In \<open>fe_mul_scalar\<close> the product with 19 is one of 64-bit words.\<close>

definition carry_last64 :: "u128 \<Rightarrow> u128 \<Rightarrow> u128 \<times> u128" where
  "carry_last64 t n = (let c = ucast (drop_bit 51 t) :: u64 in (t AND ucast FE_MASK, n + ucast (19 * c)))"

fun fe_reduce :: "u128 \<times> u128 \<times> u128 \<times> u128 \<times> u128 \<Rightarrow> fe" where
  "fe_reduce (t0, t1, t2, t3, t4) =
     (let (t0, t1) = carry t0 t1; (t1, t2) = carry t1 t2; (t2, t3) = carry t2 t3; (t3, t4) = carry t3 t4;
          (t4, t0) = carry_last t4 t0;
          (t0, t1) = carry t0 t1; (t1, t2) = carry t1 t2; (t2, t3) = carry t2 t3; (t3, t4) = carry t3 t4
      in (ucast t0, ucast t1, ucast t2, ucast t3, ucast t4))"

definition mul128 :: "u64 \<Rightarrow> u64 \<Rightarrow> u128" where "mul128 a b = ucast a * ucast b"

fun fe_products :: "fe \<Rightarrow> fe \<Rightarrow> u128 \<times> u128 \<times> u128 \<times> u128 \<times> u128" where
  "fe_products (f0, f1, f2, f3, f4) (g0, g1, g2, g3, g4) =
     (let h1 = f1 * 19; h2 = f2 * 19; h3 = f3 * 19; h4 = f4 * 19
      in (mul128 f0 g0 + mul128 h1 g4 + mul128 h2 g3 + mul128 h3 g2 + mul128 h4 g1,
          mul128 f0 g1 + mul128 f1 g0 + mul128 h2 g4 + mul128 h3 g3 + mul128 h4 g2,
          mul128 f0 g2 + mul128 f1 g1 + mul128 f2 g0 + mul128 h3 g4 + mul128 h4 g3,
          mul128 f0 g3 + mul128 f1 g2 + mul128 f2 g1 + mul128 f3 g0 + mul128 h4 g4,
          mul128 f0 g4 + mul128 f1 g3 + mul128 f2 g2 + mul128 f3 g1 + mul128 f4 g0))"

definition fe_mul :: "fe \<Rightarrow> fe \<Rightarrow> fe" where
  "fe_mul f g = fe_reduce (fe_products f g)"

definition fe_sq :: "fe \<Rightarrow> fe" where "fe_sq f = fe_mul f f"

fun fe_mul_scalar :: "fe \<Rightarrow> u64 \<Rightarrow> fe" where
  "fe_mul_scalar (f0, f1, f2, f3, f4) n =
     (let t0 = mul128 f0 n; t1 = mul128 f1 n; t2 = mul128 f2 n; t3 = mul128 f3 n; t4 = mul128 f4 n;
          (t0, t1) = carry t0 t1; (t1, t2) = carry t1 t2; (t2, t3) = carry t2 t3; (t3, t4) = carry t3 t4;
          (t4, t0) = carry_last64 t4 t0;
          (t0, t1) = carry t0 t1
      in (ucast t0, ucast t1, ucast t2, ucast t3, ucast t4))"

text \<open>Squaring \<open>n\<close> times.\<close>

definition fe_sqn :: "nat \<Rightarrow> fe \<Rightarrow> fe" where "fe_sqn n f = (fe_sq ^^ n) f"

definition fe_invert :: "fe \<Rightarrow> fe" where
  "fe_invert z =
     (let t0 = fe_sq z;
          t1 = fe_sq (fe_sq t0);
          t1 = fe_mul z t1;
          t0 = fe_mul t0 t1;
          t2 = fe_sq t0;
          t1 = fe_mul t1 t2;
          t2 = fe_sqn 5 t1;    t1 = fe_mul t2 t1;
          t2 = fe_sqn 10 t1;   t2 = fe_mul t2 t1;
          t3 = fe_sqn 20 t2;   t2 = fe_mul t3 t2;
          t2 = fe_sqn 10 t2;   t1 = fe_mul t2 t1;
          t2 = fe_sqn 50 t1;   t2 = fe_mul t2 t1;
          t3 = fe_sqn 100 t2;  t2 = fe_mul t3 t2;
          t2 = fe_sqn 50 t2;   t1 = fe_mul t2 t1;
          t1 = fe_sqn 5 t1
      in fe_mul t1 t0)"

fun fe_cswap :: "fe \<Rightarrow> fe \<Rightarrow> u64 \<Rightarrow> fe \<times> fe" where
  "fe_cswap (f0, f1, f2, f3, f4) (g0, g1, g2, g3, g4) b =
     (let mask = 0 - b; x = (\<lambda>f g. (f XOR g) AND mask)
      in ((f0 XOR x f0 g0, f1 XOR x f1 g1, f2 XOR x f2 g2, f3 XOR x f3 g3, f4 XOR x f4 g4),
          (g0 XOR x f0 g0, g1 XOR x f1 g1, g2 XOR x f2 g2, g3 XOR x f3 g3, g4 XOR x f4 g4)))"

text \<open>A 64-bit word from eight bytes, least significant first.\<close>

definition word_at :: "bytes \<Rightarrow> nat \<Rightarrow> u64" where
  "word_at s i = ucast (s ! i) OR push_bit 8 (ucast (s ! (i + 1))) OR push_bit 16 (ucast (s ! (i + 2))) OR
     push_bit 24 (ucast (s ! (i + 3))) OR push_bit 32 (ucast (s ! (i + 4))) OR push_bit 40 (ucast (s ! (i + 5))) OR
     push_bit 48 (ucast (s ! (i + 6))) OR push_bit 56 (ucast (s ! (i + 7)))"

definition fe_from_bytes :: "bytes \<Rightarrow> fe" where
  "fe_from_bytes s =
     (let w0 = word_at s 0; w1 = word_at s 8; w2 = word_at s 16; w3 = word_at s 24
      in (w0 AND FE_MASK,
          (drop_bit 51 w0 OR push_bit 13 w1) AND FE_MASK,
          (drop_bit 38 w1 OR push_bit 26 w2) AND FE_MASK,
          (drop_bit 25 w2 OR push_bit 39 w3) AND FE_MASK,
          drop_bit 12 w3 AND FE_MASK))"

fun carry_round :: "fe \<Rightarrow> fe" where
  "carry_round (t0, t1, t2, t3, t4) =
     (let c = drop_bit 51 t4; t4 = t4 AND FE_MASK; t0 = t0 + 19 * c;
          c = drop_bit 51 t0; t0 = t0 AND FE_MASK; t1 = t1 + c;
          c = drop_bit 51 t1; t1 = t1 AND FE_MASK; t2 = t2 + c;
          c = drop_bit 51 t2; t2 = t2 AND FE_MASK; t3 = t3 + c;
          c = drop_bit 51 t3; t3 = t3 AND FE_MASK; t4 = t4 + c
      in (t0, t1, t2, t3, t4))"

fun subtract_p :: "fe \<Rightarrow> fe" where
  "subtract_p (t0, t1, t2, t3, t4) =
     (let m = (if drop_bit 51 t4 \<noteq> 0 then 1 else 0);
          m = (if t4 = FE_MASK \<and> t3 = FE_MASK \<and> t2 = FE_MASK \<and> t1 = FE_MASK \<and> t0 \<ge> FE_MASK - 18 then 1 else m)
      in (t0 - m * (FE_MASK - 18), t1 - m * FE_MASK, t2 - m * FE_MASK, t3 - m * FE_MASK, t4 - m * FE_MASK))"

fun fe_pack :: "fe \<Rightarrow> bytes" where
  "fe_pack (t0, t1, t2, t3, t4) =
     (let w0 = t0 OR push_bit 51 t1; w1 = drop_bit 13 t1 OR push_bit 38 t2;
          w2 = drop_bit 26 t2 OR push_bit 25 t3; w3 = drop_bit 39 t3 OR push_bit 12 t4
      in le_bytes 8 w0 @ le_bytes 8 w1 @ le_bytes 8 w2 @ le_bytes 8 w3)"

definition fe_to_bytes :: "fe \<Rightarrow> bytes" where
  "fe_to_bytes h = fe_pack (subtract_p (carry_round (carry_round h)))"

section \<open>Values\<close>

definition prime25519 :: int where "prime25519 = 2 ^ 255 - 19"

fun fe_val :: "fe \<Rightarrow> int" where
  "fe_val (f0, f1, f2, f3, f4) = uint f0 + uint f1 * 2 ^ 51 + uint f2 * 2 ^ 102 + uint f3 * 2 ^ 153 + uint f4 * 2 ^ 204"

fun fe_below :: "int \<Rightarrow> fe \<Rightarrow> bool" where
  "fe_below B (f0, f1, f2, f3, f4) \<longleftrightarrow> uint f0 < B \<and> uint f1 < B \<and> uint f2 < B \<and> uint f3 < B \<and> uint f4 < B"

definition fe_mod :: "fe \<Rightarrow> int" where "fe_mod f = fe_val f mod prime25519"

section \<open>Word arithmetic without overflow\<close>

named_theorems limb_simps

lemma uint_add_small: "uint a + uint b < 2 ^ LENGTH('a) \<Longrightarrow> uint (a + b :: 'a::len word) = uint a + uint b"
  by (simp add: uint_word_ariths)

lemma uint_diff_small: "uint b \<le> uint a \<Longrightarrow> uint (a - b :: 'a::len word) = uint a - uint b"
  by (simp add: uint_minus_simple_alt uint_sub_if_size)

lemma uint_ucast_up [limb_simps]: "uint (ucast (a :: u64) :: u128) = uint a"
  by (simp add: unsigned_ucast_eq take_bit_int_eq_self_iff) (rule order.strict_trans [OF uint_lt2p], simp)

lemma uint_ucast_down: "uint a < 2 ^ 64 \<Longrightarrow> uint (ucast (a :: u128) :: u64) = uint a"
  by (simp add: unsigned_ucast_eq take_bit_int_eq_self_iff)

lemma uint_mul128 [limb_simps]: "uint (mul128 a b) = uint a * uint b"
proof -
  have "uint a * uint b < 2 ^ 64 * 2 ^ 64"
    using uint_lt2p [of a] uint_lt2p [of b] by (intro mult_strict_mono) auto
  then show ?thesis by (simp add: mul128_def uint_word_ariths uint_ucast_up)
qed

lemma FE_MASK_eq: "FE_MASK = mask 51"
  by (simp add: FE_MASK_def mask_eq_exp_minus_1)

lemma uint_FE_MASK [limb_simps]: "uint FE_MASK = 2 ^ 51 - 1"
  by (simp add: FE_MASK_def)

lemma uint_drop_bit [limb_simps]: "uint (drop_bit n (a :: 'a::len word)) = uint a div 2 ^ n"
  by (simp only: unsigned_drop_bit_eq) (simp add: drop_bit_eq_div take_bit_int_eq_self)

lemma uint_and_mask_51 [limb_simps]:
  "uint (a AND FE_MASK) = uint a mod 2 ^ 51" "uint (t AND ucast FE_MASK) = uint (t :: u128) mod 2 ^ 51"
proof -
  show "uint (a AND FE_MASK) = uint a mod 2 ^ 51"
    by (simp add: FE_MASK_eq unsigned_take_bit_eq take_bit_eq_mask [symmetric] take_bit_eq_mod [of _ "uint a"])
  have "(ucast FE_MASK :: u128) = mask 51" by (simp add: FE_MASK_def mask_eq_exp_minus_1)
  then show "uint (t AND ucast FE_MASK) = uint t mod 2 ^ 51"
    by (simp add: unsigned_take_bit_eq take_bit_eq_mask [symmetric] take_bit_eq_mod [of _ "uint t"])
qed

lemma div_less_mult: "a < b * c \<Longrightarrow> 0 < c \<Longrightarrow> a div c < (b :: int)"
proof (rule ccontr)
  assume a: "a < b * c" "0 < c" and "\<not> a div c < b"
  then have "b * c \<le> a div c * c" by (intro mult_right_mono) auto
  also have "\<dots> \<le> a" using div_mult_mod_eq [of a c] pos_mod_sign [OF a(2), of a] by linarith
  finally show False using a(1) by simp
qed

lemma carry_eq:
  assumes "uint t < 2 ^ 115" "uint n < 2 ^ 120"
  shows "uint (fst (carry t n)) = uint t mod 2 ^ 51" "uint (snd (carry t n)) = uint n + uint t div 2 ^ 51"
proof -
  have c: "uint t div 2 ^ 51 < 2 ^ 64" using assms(1) by (intro div_less_mult) auto
  then have "uint (ucast (drop_bit 51 t) :: u64) = uint t div 2 ^ 51"
    by (simp add: uint_ucast_down limb_simps)
  then show "uint (fst (carry t n)) = uint t mod 2 ^ 51" "uint (snd (carry t n)) = uint n + uint t div 2 ^ 51"
    using c assms(2) by (simp_all add: carry_def Let_def uint_add_small limb_simps)
qed

lemma carry_last_eq:
  assumes "uint t < 2 ^ 115" "uint n < 2 ^ 120"
  shows "uint (fst (carry_last t n)) = uint t mod 2 ^ 51" "uint (snd (carry_last t n)) = uint n + 19 * (uint t div 2 ^ 51)"
proof -
  have c: "uint t div 2 ^ 51 < 2 ^ 64" using assms(1) by (intro div_less_mult) auto
  then have "uint (ucast (drop_bit 51 t) :: u64) = uint t div 2 ^ 51" by (simp add: uint_ucast_down limb_simps)
  moreover have "uint (19 * w :: u128) = 19 * uint w" if "uint w < 2 ^ 64" for w
    using that by (simp add: uint_word_ariths)
  ultimately show "uint (fst (carry_last t n)) = uint t mod 2 ^ 51" "uint (snd (carry_last t n)) = uint n + 19 * (uint t div 2 ^ 51)"
    using c assms(2) by (simp_all add: carry_last_def Let_def uint_add_small limb_simps)
qed

lemma uint_19_times: "uint w < 2 ^ 29 \<Longrightarrow> uint (19 * w :: u64) = 19 * uint w"
  by (simp add: uint_word_ariths)

lemma carry_last64_eq:
  assumes "uint t < 2 ^ 80" "uint n < 2 ^ 120"
  shows "uint (fst (carry_last64 t n)) = uint t mod 2 ^ 51" "uint (snd (carry_last64 t n)) = uint n + 19 * (uint t div 2 ^ 51)"
proof -
  have c: "uint t div 2 ^ 51 < 2 ^ 29" using assms(1) by (intro div_less_mult) auto
  then have "uint (ucast (drop_bit 51 t) :: u64) = uint t div 2 ^ 51" by (simp add: uint_ucast_down limb_simps)
  then show "uint (fst (carry_last64 t n)) = uint t mod 2 ^ 51" "uint (snd (carry_last64 t n)) = uint n + 19 * (uint t div 2 ^ 51)"
    using c assms(2) by (simp_all add: carry_last64_def Let_def uint_add_small uint_19_times limb_simps)
qed

section \<open>Carry propagation\<close>

text \<open>One pass over five limbs, and the carry out of the last one coming back as a multiple of 19.\<close>

lemma carry_pass:
  fixes B :: int
  assumes "a0 = T0 mod B" "b1 = T1 + T0 div B" "a1 = b1 mod B" "b2 = T2 + b1 div B" "a2 = b2 mod B" "b3 = T3 + b2 div B"
    "a3 = b3 mod B" "b4 = T4 + b3 div B"
  shows "a0 + a1 * B + a2 * B ^ 2 + a3 * B ^ 3 + b4 * B ^ 4 = T0 + T1 * B + T2 * B ^ 2 + T3 * B ^ 3 + T4 * B ^ 4"
proof -
  have "T0 = a0 + B * (b1 - T1)" "b1 = a1 + B * (b2 - T2)" "b2 = a2 + B * (b3 - T3)" "b3 = a3 + B * (b4 - T4)"
    using assms by simp_all
  then show ?thesis by algebra
qed

lemma mod_sub_mult: "(x - q * p) mod p = x mod (p :: int)"
  by (metis mod_diff_right_eq mod_mult_self2_is_0 diff_zero)

lemma fe_reduce_eq:
  assumes "uint t0 < 2 ^ 115 - 2 ^ 70" "uint t1 < 2 ^ 115 - 2 ^ 70" "uint t2 < 2 ^ 115 - 2 ^ 70"
    "uint t3 < 2 ^ 115 - 2 ^ 70" "uint t4 < 2 ^ 115 - 2 ^ 70"
  shows "fe_below (2 ^ 51 + 1) (fe_reduce (t0, t1, t2, t3, t4)) \<and>
    fe_mod (fe_reduce (t0, t1, t2, t3, t4)) =
      (uint t0 + uint t1 * 2 ^ 51 + uint t2 * 2 ^ 102 + uint t3 * 2 ^ 153 + uint t4 * 2 ^ 204) mod prime25519"
proof -
  let ?B = "2 ^ 51 :: int"
  have lt: "x div ?B < 2 ^ 64" if "x < 2 ^ 115" for x using that by (intro div_less_mult) auto
  have pos: "0 \<le> uint x div ?B" for x :: u128 by (simp add: pos_imp_zdiv_nonneg_iff)
  obtain a0 u1 where c1: "carry t0 t1 = (a0, u1)" by fastforce
  obtain a1 u2 where c2: "carry u1 t2 = (a1, u2)" by fastforce
  obtain a2 u3 where c3: "carry u2 t3 = (a2, u3)" by fastforce
  obtain a3 u4 where c4: "carry u3 t4 = (a3, u4)" by fastforce
  obtain a4 v0 where c5: "carry_last u4 a0 = (a4, v0)" by fastforce
  obtain r0 v1 where c6: "carry v0 a1 = (r0, v1)" by fastforce
  obtain r1 v2 where c7: "carry v1 a2 = (r1, v2)" by fastforce
  obtain r2 v3 where c8: "carry v2 a3 = (r2, v3)" by fastforce
  obtain r3 r4 where c9: "carry v3 a4 = (r3, r4)" by fastforce
  have e1: "uint a0 = uint t0 mod ?B" "uint u1 = uint t1 + uint t0 div ?B"
    using carry_eq [of t0 t1] c1 assms by simp_all
  have "uint u1 < 2 ^ 115" using e1(2) lt [of "uint t0"] assms by simp
  then have e2: "uint a1 = uint u1 mod ?B" "uint u2 = uint t2 + uint u1 div ?B" and "uint u1 div ?B < 2 ^ 64"
    using carry_eq [of u1 t2] c2 assms lt by simp_all
  then have "uint u2 < 2 ^ 115" using assms by simp
  then have e3: "uint a2 = uint u2 mod ?B" "uint u3 = uint t3 + uint u2 div ?B" and "uint u2 div ?B < 2 ^ 64"
    using carry_eq [of u2 t3] c3 assms lt by simp_all
  then have "uint u3 < 2 ^ 115" using assms by simp
  then have e4: "uint a3 = uint u3 mod ?B" "uint u4 = uint t4 + uint u3 div ?B" and "uint u3 div ?B < 2 ^ 64"
    using carry_eq [of u3 t4] c4 assms lt by simp_all
  then have "uint u4 < 2 ^ 115" using assms by simp
  moreover have a: "uint a0 < ?B" "uint a1 < ?B" "uint a2 < ?B" "uint a3 < ?B" using e1(1) e2(1) e3(1) e4(1) by simp_all
  ultimately have e5: "uint a4 = uint u4 mod ?B" "uint v0 = uint a0 + 19 * (uint u4 div ?B)" and u4: "uint u4 div ?B < 2 ^ 64"
    using carry_last_eq [of u4 a0] c5 lt by simp_all
  have a4: "uint a4 < ?B" using e5 by simp
  have v0: "uint v0 < 2 ^ 69" using e5(2) a(1) u4 by simp
  then have e6: "uint r0 = uint v0 mod ?B" "uint v1 = uint a1 + uint v0 div ?B"
    using carry_eq [of v0 a1] c6 a by simp_all
  have "uint v0 div ?B < 2 ^ 18" using v0 by (intro div_less_mult) auto
  then have v1: "uint v1 < 2 * ?B" using e6(2) a(2) by simp
  then have e7: "uint r1 = uint v1 mod ?B" "uint v2 = uint a2 + uint v1 div ?B"
    using carry_eq [of v1 a2] c7 a by simp_all
  have "uint v1 div ?B < 2" using v1 by (intro div_less_mult) auto
  then have v2: "uint v2 < 2 * ?B" using e7(2) a(3) by simp
  then have e8: "uint r2 = uint v2 mod ?B" "uint v3 = uint a3 + uint v2 div ?B"
    using carry_eq [of v2 a3] c8 a by simp_all
  have "uint v2 div ?B < 2" using v2 by (intro div_less_mult) auto
  then have v3: "uint v3 < 2 * ?B" using e8(2) a(4) by simp
  then have e9: "uint r3 = uint v3 mod ?B" "uint r4 = uint a4 + uint v3 div ?B"
    using carry_eq [of v3 a4] c9 a4 by simp_all
  have "uint v3 div ?B < 2" using v3 by (intro div_less_mult) auto
  then have r: "uint r0 < ?B" "uint r1 < ?B" "uint r2 < ?B" "uint r3 < ?B" "uint r4 < ?B + 1"
    using e6(1) e7(1) e8(1) e9 a4 by simp_all
  have red: "fe_reduce (t0, t1, t2, t3, t4) = (ucast r0, ucast r1, ucast r2, ucast r3, ucast r4)"
    by (simp add: c1 c2 c3 c4 c5 c6 c7 c8 c9)
  have p1: "uint a0 + uint a1 * ?B + uint a2 * ?B ^ 2 + uint a3 * ?B ^ 3 + uint u4 * ?B ^ 4 =
      uint t0 + uint t1 * ?B + uint t2 * ?B ^ 2 + uint t3 * ?B ^ 3 + uint t4 * ?B ^ 4"
    using e1 e2 e3 e4 by (intro carry_pass)
  have p2: "uint r0 + uint r1 * ?B + uint r2 * ?B ^ 2 + uint r3 * ?B ^ 3 + uint r4 * ?B ^ 4 =
      uint v0 + uint a1 * ?B + uint a2 * ?B ^ 2 + uint a3 * ?B ^ 3 + uint a4 * ?B ^ 4"
    using e6 e7 e8 e9 by (intro carry_pass)
  have "uint u4 = uint a4 + ?B * (uint u4 div ?B)" using e5(1) by simp
  then have "uint r0 + uint r1 * ?B + uint r2 * ?B ^ 2 + uint r3 * ?B ^ 3 + uint r4 * ?B ^ 4 =
      uint t0 + uint t1 * ?B + uint t2 * ?B ^ 2 + uint t3 * ?B ^ 3 + uint t4 * ?B ^ 4 - (uint u4 div ?B) * (?B ^ 5 - 19)"
    using p1 p2 e5(2) by algebra
  then have "fe_val (fe_reduce (t0, t1, t2, t3, t4)) =
      uint t0 + uint t1 * 2 ^ 51 + uint t2 * 2 ^ 102 + uint t3 * 2 ^ 153 + uint t4 * 2 ^ 204 - (uint u4 div ?B) * prime25519"
    using r unfolding red by (simp add: uint_ucast_down prime25519_def)
  then have "fe_mod (fe_reduce (t0, t1, t2, t3, t4)) =
      (uint t0 + uint t1 * 2 ^ 51 + uint t2 * 2 ^ 102 + uint t3 * 2 ^ 153 + uint t4 * 2 ^ 204) mod prime25519"
    unfolding fe_mod_def by (simp only: mod_sub_mult)
  moreover have "fe_below (2 ^ 51 + 1) (fe_reduce (t0, t1, t2, t3, t4))"
    using r unfolding red by (simp add: uint_ucast_down)
  ultimately show ?thesis by blast
qed

section \<open>Field operations\<close>

lemma uint_sum5:
  assumes "uint a < 2 ^ 113" "uint b < 2 ^ 113" "uint c < 2 ^ 113" "uint d < 2 ^ 113" "uint e < 2 ^ 113"
  shows "uint (a + b + c + d + e :: u128) = uint a + uint b + uint c + uint d + uint e"
proof -
  have "uint (a + b) = uint a + uint b" using assms by (intro uint_add_small) simp
  moreover from this have "uint (a + b + c) = uint a + uint b + uint c" using assms by (subst uint_add_small) simp_all
  moreover from this have "uint (a + b + c + d) = uint a + uint b + uint c + uint d" using assms by (subst uint_add_small) simp_all
  ultimately show ?thesis using assms by (subst uint_add_small) simp_all
qed

lemma sum5_below: "a < 19 * 2 ^ 108 \<Longrightarrow> b < 19 * 2 ^ 108 \<Longrightarrow> c < 19 * 2 ^ 108 \<Longrightarrow> d < 19 * 2 ^ 108 \<Longrightarrow> e < 19 * 2 ^ 108 \<Longrightarrow>
    a + b + c + d + e < (2 ^ 115 - 2 ^ 70 :: int)"
  by simp

lemma limb_product:
  fixes f g :: u64
  assumes "uint f < 2 ^ 54" "uint g < 2 ^ 54"
  shows "uint f * uint g < 19 * 2 ^ 108" "19 * uint f * uint g < 19 * 2 ^ 108"
    and "uint f * uint g < 2 ^ 113" "19 * uint f * uint g < 2 ^ 113"
proof -
  have "uint f * uint g < 2 ^ 54 * 2 ^ 54" using assms by (intro mult_strict_mono) auto
  then show "uint f * uint g < 19 * 2 ^ 108" "19 * uint f * uint g < 19 * 2 ^ 108"
    "uint f * uint g < 2 ^ 113" "19 * uint f * uint g < 2 ^ 113" by simp_all
qed

lemma uint_times_19: "uint (f :: u64) < 2 ^ 54 \<Longrightarrow> uint (f * 19) = 19 * uint f"
  by (simp add: uint_word_ariths)

lemma product_identity:
  fixes B :: int
  shows "(f0 * g0 + 19 * f1 * g4 + 19 * f2 * g3 + 19 * f3 * g2 + 19 * f4 * g1) +
    (f0 * g1 + f1 * g0 + 19 * f2 * g4 + 19 * f3 * g3 + 19 * f4 * g2) * B +
    (f0 * g2 + f1 * g1 + f2 * g0 + 19 * f3 * g4 + 19 * f4 * g3) * B ^ 2 +
    (f0 * g3 + f1 * g2 + f2 * g1 + f3 * g0 + 19 * f4 * g4) * B ^ 3 +
    (f0 * g4 + f1 * g3 + f2 * g2 + f3 * g1 + f4 * g0) * B ^ 4 =
    (f0 + f1 * B + f2 * B ^ 2 + f3 * B ^ 3 + f4 * B ^ 4) * (g0 + g1 * B + g2 * B ^ 2 + g3 * B ^ 3 + g4 * B ^ 4) -
    ((f1 * g4 + f2 * g3 + f3 * g2 + f4 * g1) + (f2 * g4 + f3 * g3 + f4 * g2) * B + (f3 * g4 + f4 * g3) * B ^ 2 + f4 * g4 * B ^ 3) *
    (B ^ 5 - 19)"
  by algebra

lemma fe_mul_eq:
  assumes "fe_below (2 ^ 54) f" "fe_below (2 ^ 54) g"
  shows "fe_below (2 ^ 51 + 1) (fe_mul f g) \<and> fe_mod (fe_mul f g) = (fe_mod f * fe_mod g) mod prime25519"
proof -
  obtain f0 f1 f2 f3 f4 where f: "f = (f0, f1, f2, f3, f4)" by (cases f)
  obtain g0 g1 g2 g3 g4 where g: "g = (g0, g1, g2, g3, g4)" by (cases g)
  have bf: "uint f0 < 2 ^ 54" "uint f1 < 2 ^ 54" "uint f2 < 2 ^ 54" "uint f3 < 2 ^ 54" "uint f4 < 2 ^ 54"
    and bg: "uint g0 < 2 ^ 54" "uint g1 < 2 ^ 54" "uint g2 < 2 ^ 54" "uint g3 < 2 ^ 54" "uint g4 < 2 ^ 54"
    using assms unfolding f g by simp_all
  obtain t0 t1 t2 t3 t4 where t: "fe_products f g = (t0, t1, t2, t3, t4)" by (cases "fe_products f g")
  note t' = t [unfolded f g fe_products.simps Let_def prod.inject]
  note limbs = uint_sum5 uint_mul128 uint_times_19 limb_product bf bg
  have e: "uint t0 = uint f0 * uint g0 + 19 * uint f1 * uint g4 + 19 * uint f2 * uint g3 + 19 * uint f3 * uint g2 + 19 * uint f4 * uint g1"
      "uint t1 = uint f0 * uint g1 + uint f1 * uint g0 + 19 * uint f2 * uint g4 + 19 * uint f3 * uint g3 + 19 * uint f4 * uint g2"
      "uint t2 = uint f0 * uint g2 + uint f1 * uint g1 + uint f2 * uint g0 + 19 * uint f3 * uint g4 + 19 * uint f4 * uint g3"
      "uint t3 = uint f0 * uint g3 + uint f1 * uint g2 + uint f2 * uint g1 + uint f3 * uint g0 + 19 * uint f4 * uint g4"
      "uint t4 = uint f0 * uint g4 + uint f1 * uint g3 + uint f2 * uint g2 + uint f3 * uint g1 + uint f4 * uint g0"
    unfolding t' [THEN conjunct1, symmetric] t' [THEN conjunct2, THEN conjunct1, symmetric]
      t' [THEN conjunct2, THEN conjunct2, THEN conjunct1, symmetric] t' [THEN conjunct2, THEN conjunct2, THEN conjunct2, THEN conjunct1, symmetric]
      t' [THEN conjunct2, THEN conjunct2, THEN conjunct2, THEN conjunct2, symmetric]
    by (simp_all only: limbs)
  have b: "uint t0 < 2 ^ 115 - 2 ^ 70" "uint t1 < 2 ^ 115 - 2 ^ 70" "uint t2 < 2 ^ 115 - 2 ^ 70" "uint t3 < 2 ^ 115 - 2 ^ 70" "uint t4 < 2 ^ 115 - 2 ^ 70"
    unfolding e by (rule sum5_below; simp only: limbs)+
  let ?B = "2 ^ 51 :: int"
  have eq: "uint t0 + uint t1 * ?B + uint t2 * ?B ^ 2 + uint t3 * ?B ^ 3 + uint t4 * ?B ^ 4 =
      fe_val f * fe_val g - ((uint f1 * uint g4 + uint f2 * uint g3 + uint f3 * uint g2 + uint f4 * uint g1) +
        (uint f2 * uint g4 + uint f3 * uint g3 + uint f4 * uint g2) * ?B + (uint f3 * uint g4 + uint f4 * uint g3) * ?B ^ 2 +
        uint f4 * uint g4 * ?B ^ 3) * (?B ^ 5 - 19)"
    unfolding e product_identity f g by (simp add: power_mult [symmetric])
  have pw: "2 ^ 102 = ?B ^ 2" "2 ^ 153 = ?B ^ 3" "2 ^ 204 = ?B ^ 4" "?B ^ 5 - 19 = prime25519"
    by (simp_all add: prime25519_def)
  have "(uint t0 + uint t1 * 2 ^ 51 + uint t2 * 2 ^ 102 + uint t3 * 2 ^ 153 + uint t4 * 2 ^ 204) mod prime25519 =
      (fe_val f * fe_val g) mod prime25519"
    unfolding pw(1-3) eq pw(4) by (rule mod_sub_mult)
  then show ?thesis
    using fe_reduce_eq [OF b] unfolding fe_mul_def t by (simp add: fe_mod_def mod_mult_eq)
qed

text \<open>Operands as the operations leave them, and as a product takes them.\<close>

abbreviation tight :: "fe \<Rightarrow> bool" where "tight \<equiv> fe_below (2 ^ 51 + 1)"
abbreviation loose :: "fe \<Rightarrow> bool" where "loose \<equiv> fe_below (2 ^ 54)"

lemma tight_loose: "tight f \<Longrightarrow> loose f"
  by (cases f) simp

lemma fe_add_eq:
  assumes "tight f" "tight g"
  shows "loose (fe_add f g) \<and> fe_mod (fe_add f g) = (fe_mod f + fe_mod g) mod prime25519"
proof -
  obtain f0 f1 f2 f3 f4 g0 g1 g2 g3 g4 where f: "f = (f0, f1, f2, f3, f4)" and g: "g = (g0, g1, g2, g3, g4)"
    by (cases f; cases g)
  have u: "uint (a + b :: u64) = uint a + uint b" if "uint a < 2 ^ 51 + 1" "uint b < 2 ^ 51 + 1" for a b
    using that by (intro uint_add_small) simp
  have "fe_val (fe_add f g) = fe_val f + fe_val g" "loose (fe_add f g)"
    using assms unfolding f g by (simp_all add: u)
  then show ?thesis by (simp add: fe_mod_def mod_add_eq)
qed

lemma uint_diff_add:
  assumes "0 \<le> uint a - uint b + uint c" "uint a - uint b + uint c < 2 ^ LENGTH('a)"
  shows "uint (a - b + c :: 'a::len word) = uint a - uint b + uint c"
  using assms by (simp add: uint_word_ariths mod_add_left_eq)

lemma uint_minus_less: "uint a < K \<Longrightarrow> K \<le> L \<Longrightarrow> uint a - uint b < L"
  using uint_ge_0 [of b] by linarith

lemma fe_sub_eq:
  assumes "tight f" "tight g"
  shows "loose (fe_sub f g) \<and> fe_mod (fe_sub f g) = (fe_mod f - fe_mod g) mod prime25519"
proof -
  obtain f0 f1 f2 f3 f4 g0 g1 g2 g3 g4 where f: "f = (f0, f1, f2, f3, f4)" and g: "g = (g0, g1, g2, g3, g4)"
    by (cases f; cases g)
  have u: "uint (a - b + 9007199254740916 :: u64) = uint a - uint b + 9007199254740916"
      "uint (a - b + 9007199254740988 :: u64) = uint a - uint b + 9007199254740988"
    if "uint a < 2 ^ 51 + 1" "uint b < 2 ^ 51 + 1" for a b
  proof -
    have "uint a - uint b < 2 ^ 51 + 1" using that(1) uint_ge_0 [of b] by linarith
    then show "uint (a - b + 9007199254740916 :: u64) = uint a - uint b + 9007199254740916"
        "uint (a - b + 9007199254740988 :: u64) = uint a - uint b + 9007199254740988"
      using that uint_diff_add [of a b 9007199254740916] uint_diff_add [of a b 9007199254740988] uint_ge_0 [of a] by simp_all
  qed
  have "fe_val (fe_sub f g) = fe_val f - fe_val g - (-4) * prime25519"
    using assms unfolding f g by (simp add: u prime25519_def)
  moreover have "loose (fe_sub f g)"
    using assms unfolding f g by (auto simp: u elim!: uint_minus_less)
  ultimately show ?thesis unfolding fe_mod_def by (simp only: mod_sub_mult mod_diff_eq)
qed

lemma fe_mul_scalar_eq:
  assumes "loose f" "uint n < 2 ^ 17"
  shows "tight (fe_mul_scalar f n) \<and> fe_mod (fe_mul_scalar f n) = (fe_mod f * uint n) mod prime25519"
proof -
  let ?B = "2 ^ 51 :: int"
  obtain f0 f1 f2 f3 f4 where f: "f = (f0, f1, f2, f3, f4)" by (cases f)
  have b: "uint (mul128 a n) < 2 ^ 71" if "uint a < 2 ^ 54" for a
  proof -
    have "uint a * uint n < 2 ^ 54 * 2 ^ 17" using that assms(2) by (intro mult_strict_mono) auto
    then show ?thesis by (simp add: uint_mul128)
  qed
  let ?t0 = "mul128 f0 n" and ?t1 = "mul128 f1 n" and ?t2 = "mul128 f2 n" and ?t3 = "mul128 f3 n" and ?t4 = "mul128 f4 n"
  have t: "uint ?t0 < 2 ^ 71" "uint ?t1 < 2 ^ 71" "uint ?t2 < 2 ^ 71" "uint ?t3 < 2 ^ 71" "uint ?t4 < 2 ^ 71"
    using assms(1) unfolding f by (simp_all add: b del: power_numeral)
  have lt: "uint x div ?B < 2 ^ 21" if "uint x < 2 ^ 72" for x :: u128 using that by (intro div_less_mult) auto
  obtain a0 u1 where c1: "carry ?t0 ?t1 = (a0, u1)" by fastforce
  obtain a1 u2 where c2: "carry u1 ?t2 = (a1, u2)" by fastforce
  obtain a2 u3 where c3: "carry u2 ?t3 = (a2, u3)" by fastforce
  obtain a3 u4 where c4: "carry u3 ?t4 = (a3, u4)" by fastforce
  obtain a4 v0 where c5: "carry_last64 u4 a0 = (a4, v0)" by fastforce
  obtain r0 v1 where c6: "carry v0 a1 = (r0, v1)" by fastforce
  have e1: "uint a0 = uint ?t0 mod ?B" "uint u1 = uint ?t1 + uint ?t0 div ?B"
    using carry_eq [of ?t0 ?t1] c1 t by simp_all
  have u1: "uint u1 < 2 ^ 72" using e1(2) t lt [of ?t0] by simp
  then have e2: "uint a1 = uint u1 mod ?B" "uint u2 = uint ?t2 + uint u1 div ?B"
    using carry_eq [of u1 ?t2] c2 t by simp_all
  have u2: "uint u2 < 2 ^ 72" using e2(2) t lt [OF u1] by simp
  then have e3: "uint a2 = uint u2 mod ?B" "uint u3 = uint ?t3 + uint u2 div ?B"
    using carry_eq [of u2 ?t3] c3 t by simp_all
  have u3: "uint u3 < 2 ^ 72" using e3(2) t lt [OF u2] by simp
  then have e4: "uint a3 = uint u3 mod ?B" "uint u4 = uint ?t4 + uint u3 div ?B"
    using carry_eq [of u3 ?t4] c4 t by simp_all
  have u4: "uint u4 < 2 ^ 72" using e4(2) t lt [OF u3] by simp
  have a: "uint a0 < ?B" "uint a1 < ?B" "uint a2 < ?B" "uint a3 < ?B"
    using e1(1) e2(1) e3(1) e4(1) by simp_all
  have e5: "uint a4 = uint u4 mod ?B" "uint v0 = uint a0 + 19 * (uint u4 div ?B)"
    using carry_last64_eq [of u4 a0] c5 u4 a by simp_all
  have v0: "uint v0 < 2 * ?B" using e5(2) a(1) lt [OF u4] by simp
  then have e6: "uint r0 = uint v0 mod ?B" "uint v1 = uint a1 + uint v0 div ?B"
    using carry_eq [of v0 a1] c6 a by simp_all
  have "uint v0 div ?B < 2" using v0 by (intro div_less_mult) auto
  then have r: "uint r0 < ?B" "uint v1 < ?B + 1" "uint a4 < ?B" using e6 a(2) e5(1) by simp_all
  have red: "fe_mul_scalar f n = (ucast r0, ucast v1, ucast a2, ucast a3, ucast a4)"
    unfolding f by (simp add: c1 c2 c3 c4 c5 c6)
  have p1: "uint a0 + uint a1 * ?B + uint a2 * ?B ^ 2 + uint a3 * ?B ^ 3 + uint u4 * ?B ^ 4 =
      uint ?t0 + uint ?t1 * ?B + uint ?t2 * ?B ^ 2 + uint ?t3 * ?B ^ 3 + uint ?t4 * ?B ^ 4"
    using e1 e2 e3 e4 by (intro carry_pass)
  have "uint u4 = uint a4 + ?B * (uint u4 div ?B)" "uint v0 = uint r0 + ?B * (uint v0 div ?B)" using e5(1) e6(1) by simp_all
  then have eq: "uint r0 + uint v1 * ?B + uint a2 * ?B ^ 2 + uint a3 * ?B ^ 3 + uint a4 * ?B ^ 4 =
      uint ?t0 + uint ?t1 * ?B + uint ?t2 * ?B ^ 2 + uint ?t3 * ?B ^ 3 + uint ?t4 * ?B ^ 4 - (uint u4 div ?B) * (?B ^ 5 - 19)"
    using p1 e5(2) e6(2) by algebra
  have "fe_val (fe_mul_scalar f n) = uint r0 + uint v1 * ?B + uint a2 * ?B ^ 2 + uint a3 * ?B ^ 3 + uint a4 * ?B ^ 4"
    using r a unfolding red by (simp add: uint_ucast_down)
  also have "\<dots> = fe_val f * uint n - (uint u4 div ?B) * prime25519"
    unfolding eq f by (simp add: uint_mul128 prime25519_def algebra_simps)
  finally have "fe_mod (fe_mul_scalar f n) = (fe_val f * uint n) mod prime25519"
    unfolding fe_mod_def by (simp only: mod_sub_mult)
  moreover have "tight (fe_mul_scalar f n)" using r a unfolding red by (simp add: uint_ucast_down)
  ultimately show ?thesis by (simp add: fe_mod_def mod_mult_left_eq)
qed

lemma fe_cswap_eq: "fe_cswap f g (of_bool b) = (if b then (g, f) else (f, g))"
proof -
  have "f XOR ((f XOR g) AND -1) = g" "g XOR ((f XOR g) AND -1) = f" for f g :: u64
    by (simp_all add: xor.assoc [symmetric] xor.commute [of f g]) (simp_all add: xor.assoc)
  then show ?thesis by (cases f; cases g) (simp add: Let_def)
qed

section \<open>The contract of the field operations\<close>

text \<open>
  Representations of residues in two sizes: sums and differences of narrow ones are wide, products of
  wide ones are narrow again. A client computes with the residues.
\<close>

locale residue_ops =
  fixes narrow wide :: "'f \<Rightarrow> bool"
    and val :: "'f \<Rightarrow> int"
    and q :: int
    and add sub mul :: "'f \<Rightarrow> 'f \<Rightarrow> 'f"
  assumes narrow_wide: "narrow f \<Longrightarrow> wide f"
    and add_law: "narrow f \<Longrightarrow> narrow g \<Longrightarrow> wide (add f g) \<and> val (add f g) mod q = (val f + val g) mod q"
    and sub_law: "narrow f \<Longrightarrow> narrow g \<Longrightarrow> wide (sub f g) \<and> val (sub f g) mod q = (val f - val g) mod q"
    and mul_law: "wide f \<Longrightarrow> wide g \<Longrightarrow> narrow (mul f g) \<and> val (mul f g) mod q = (val f * val g) mod q"
begin

definition holds :: "'f \<Rightarrow> int \<Rightarrow> bool" where
  "holds f x \<longleftrightarrow> narrow f \<and> val f mod q = x mod q"

definition holds_wide :: "'f \<Rightarrow> int \<Rightarrow> bool" where
  "holds_wide f x \<longleftrightarrow> wide f \<and> val f mod q = x mod q"

lemma widen: "holds f x \<Longrightarrow> holds_wide f x"
  using narrow_wide unfolding holds_def holds_wide_def by blast

lemma holds_add: "holds f x \<Longrightarrow> holds g y \<Longrightarrow> holds_wide (add f g) (x + y)"
  using add_law [of f g] mod_add_cong unfolding holds_def holds_wide_def by metis

lemma holds_sub: "holds f x \<Longrightarrow> holds g y \<Longrightarrow> holds_wide (sub f g) (x - y)"
  using sub_law [of f g] mod_diff_cong unfolding holds_def holds_wide_def by metis

lemma holds_mul: "holds_wide f x \<Longrightarrow> holds_wide g y \<Longrightarrow> holds (mul f g) (x * y)"
  using mul_law [of f g] mod_mult_cong unfolding holds_def holds_wide_def by metis

lemma holds_square: "holds_wide f x \<Longrightarrow> holds (mul f f) (x ^ 2)"
  using holds_mul [of f x f x] by (simp add: power2_eq_square)

lemma holds_power: "holds f (x ^ m) \<Longrightarrow> holds g (x ^ n) \<Longrightarrow> holds (mul f g) (x ^ (m + n))"
  using holds_mul [OF widen widen] by (simp add: power_add)

end

interpretation fe: residue_ops tight loose fe_val prime25519 fe_add fe_sub fe_mul
proof (unfold_locales, goal_cases)
  case 1 then show ?case by (rule tight_loose)
next
  case (2 f g) then show ?case using fe_add_eq [of f g] unfolding fe_mod_def mod_add_eq by blast
next
  case (3 f g) then show ?case using fe_sub_eq [of f g] unfolding fe_mod_def mod_diff_eq by blast
next
  case (4 f g) then show ?case using fe_mul_eq [of f g] unfolding fe_mod_def mod_mult_eq by blast
qed

lemma holds_fe_mod: "fe.holds f x \<longleftrightarrow> tight f \<and> fe_mod f = x mod prime25519"
  unfolding fe.holds_def fe_mod_def ..

section \<open>Inversion\<close>

text \<open>A limb vector holds a power of \<open>x\<close>.\<close>

lemma power_sq: "fe.holds f (x ^ m) \<Longrightarrow> fe.holds (fe_sq f) (x ^ (m * 2))"
  using fe.holds_power [of f x m f m] by (simp add: fe_sq_def mult_2_right)

lemma power_sqn: "fe.holds f (x ^ m) \<Longrightarrow> fe.holds (fe_sqn n f) (x ^ (m * 2 ^ n))"
proof (induction n)
  case (Suc n)
  from power_sq [OF Suc.IH [OF Suc.prems]] show ?case by (simp add: fe_sqn_def ac_simps)
qed (simp add: fe_sqn_def)

lemma fe_invert_eq:
  assumes "tight z"
  shows "tight (fe_invert z) \<and> fe_mod (fe_invert z) = fe_mod z ^ (2 ^ 255 - 21) mod prime25519"
proof -
  let ?x = "fe_mod z"
  have z: "fe.holds z (?x ^ 1)" using assms unfolding holds_fe_mod by (simp add: fe_mod_def)
  define t0 where "t0 = fe_sq z"
  define t1 where "t1 = fe_mul z (fe_sq (fe_sq t0))"
  define u0 where "u0 = fe_mul t0 t1"
  define u1 where "u1 = fe_mul t1 (fe_sq u0)"
  define v1 where "v1 = fe_mul (fe_sqn 5 u1) u1"
  define v2 where "v2 = fe_mul (fe_sqn 10 v1) v1"
  define v3 where "v3 = fe_mul (fe_sqn 20 v2) v2"
  define w1 where "w1 = fe_mul (fe_sqn 10 v3) v1"
  define w2 where "w2 = fe_mul (fe_sqn 50 w1) w1"
  define w3 where "w3 = fe_mul (fe_sqn 100 w2) w2"
  define y1 where "y1 = fe_mul (fe_sqn 50 w3) w1"
  have "fe.holds t0 (?x ^ 2)" using power_sq [OF z] by (simp add: t0_def)
  then have t1: "fe.holds t1 (?x ^ 9)" using fe.holds_power [OF z power_sq [OF power_sq]] by (fastforce simp: t1_def)
  have u0: "fe.holds u0 (?x ^ 11)" using fe.holds_power [OF \<open>fe.holds t0 (?x ^ 2)\<close> t1] by (simp add: u0_def)
  have u1: "fe.holds u1 (?x ^ (2 ^ 5 - 1))" using fe.holds_power [OF t1 power_sq [OF u0]] by (simp add: u1_def)
  have v1: "fe.holds v1 (?x ^ (2 ^ 10 - 1))" using fe.holds_power [OF power_sqn [OF u1, of 5] u1] by (simp add: v1_def)
  have v2: "fe.holds v2 (?x ^ (2 ^ 20 - 1))" using fe.holds_power [OF power_sqn [OF v1, of 10] v1] by (simp add: v2_def)
  have v3: "fe.holds v3 (?x ^ (2 ^ 40 - 1))" using fe.holds_power [OF power_sqn [OF v2, of 20] v2] by (simp add: v3_def)
  have w1: "fe.holds w1 (?x ^ (2 ^ 50 - 1))" using fe.holds_power [OF power_sqn [OF v3, of 10] v1] by (simp add: w1_def)
  have w2: "fe.holds w2 (?x ^ (2 ^ 100 - 1))" using fe.holds_power [OF power_sqn [OF w1, of 50] w1] by (simp add: w2_def)
  have w3: "fe.holds w3 (?x ^ (2 ^ 200 - 1))" using fe.holds_power [OF power_sqn [OF w2, of 100] w2] by (simp add: w3_def)
  have y1: "fe.holds y1 (?x ^ (2 ^ 250 - 1))" using fe.holds_power [OF power_sqn [OF w3, of 50] w1] by (simp add: y1_def)
  have "fe_invert z = fe_mul (fe_sqn 5 y1) u0"
    by (simp add: fe_invert_def Let_def t0_def t1_def u0_def u1_def v1_def v2_def v3_def w1_def w2_def w3_def y1_def)
  then have "fe.holds (fe_invert z) (?x ^ (2 ^ 255 - 21))"
    using fe.holds_power [OF power_sqn [OF y1, of 5] u0] by simp
  then show ?thesis by (simp only: holds_fe_mod)
qed

end
