(* ===== verification/FieldBytes.thy ===== *)
theory FieldBytes
  imports Field25519
begin

text \<open>
  Field elements and byte strings: \<open>fe_from_bytes\<close> reads the low 255 bits of a little-endian number,
  \<open>fe_to_bytes\<close> writes the least residue modulo the prime.
\<close>

unbundle bit_operations_syntax

section \<open>Four words as one number\<close>

definition join4 :: "u64 \<Rightarrow> u64 \<Rightarrow> u64 \<Rightarrow> u64 \<Rightarrow> 256 word" where
  "join4 w0 w1 w2 w3 = ucast w0 OR push_bit 64 (ucast w1) OR push_bit 128 (ucast w2) OR push_bit 192 (ucast w3)"

lemma bit_join4:
  "bit (join4 w0 w1 w2 w3) n \<longleftrightarrow>
    (if n < 64 then bit w0 n else if n < 128 then bit w1 (n - 64) else if n < 192 then bit w2 (n - 128) else n < 256 \<and> bit w3 (n - 192))"
  by (auto simp: join4_def bit_simps dest: bit_imp_le_length)

lemma uint_or_push:
  fixes x y :: int
  assumes "0 \<le> x" "x < 2 ^ n"
  shows "x OR push_bit n y = x + y * 2 ^ n"
proof -
  have "x = take_bit n x" using assms by (simp add: take_bit_int_eq_self)
  then have "\<not> bit x k \<or> \<not> bit (push_bit n y) k" for k
    by (metis bit_push_bit_iff bit_take_bit_iff linorder_not_less)
  then show ?thesis by (simp add: disjunctive_add push_bit_eq_mult)
qed

lemma uint_join4: "uint (join4 w0 w1 w2 w3) = uint w0 + uint w1 * 2 ^ 64 + uint w2 * 2 ^ 128 + uint w3 * 2 ^ 192"
proof -
  have lt: "uint w0 < 2 ^ 64" "uint w1 < 2 ^ 64" "uint w2 < 2 ^ 64" "uint w3 < 2 ^ 64"
    using uint_lt2p [of w0] uint_lt2p [of w1] uint_lt2p [of w2] uint_lt2p [of w3] by simp_all
  have up: "uint (ucast w :: 256 word) = uint w" for w :: u64
    using uint_lt2p [of w] by (simp add: unsigned_ucast_eq take_bit_int_eq_self)
  have sh: "uint (push_bit n (ucast w :: 256 word)) = push_bit n (uint w)" if "n \<le> 192" for n and w :: u64
  proof -
    have "uint w * 2 ^ n < 2 ^ 64 * 2 ^ n" using uint_lt2p [of w] by (intro mult_strict_right_mono) auto
    also have "\<dots> \<le> 2 ^ 256" using that power_increasing [of "64 + n" 256 "2 :: int"] by (simp add: power_add)
    finally show ?thesis by (simp only: unsigned_push_bit_eq up) (simp add: push_bit_eq_mult take_bit_int_eq_self)
  qed
  have "uint (join4 w0 w1 w2 w3) = ((uint w0 OR push_bit 64 (uint w1)) OR push_bit 128 (uint w2)) OR push_bit 192 (uint w3)"
    by (simp add: join4_def unsigned_or_eq up sh or.assoc)
  also have "uint w0 OR push_bit 64 (uint w1) = uint w0 + uint w1 * 2 ^ 64" using lt by (intro uint_or_push) auto
  also have "(uint w0 + uint w1 * 2 ^ 64) OR push_bit 128 (uint w2) = uint w0 + uint w1 * 2 ^ 64 + uint w2 * 2 ^ 128"
    using lt by (intro uint_or_push) simp_all
  also have "(uint w0 + uint w1 * 2 ^ 64 + uint w2 * 2 ^ 128) OR push_bit 192 (uint w3) =
      uint w0 + uint w1 * 2 ^ 64 + uint w2 * 2 ^ 128 + uint w3 * 2 ^ 192"
    using lt by (intro uint_or_push) simp_all
  finally show ?thesis .
qed

lemma le_bytes_join4: "le_bytes 8 w0 @ le_bytes 8 w1 @ le_bytes 8 w2 @ le_bytes 8 w3 = le_bytes 32 (join4 w0 w1 w2 w3)"
proof (rule nth_equalityI)
  fix k assume "k < length (le_bytes 8 w0 @ le_bytes 8 w1 @ le_bytes 8 w2 @ le_bytes 8 w3)"
  then have "k < 32" by simp
  then show "(le_bytes 8 w0 @ le_bytes 8 w1 @ le_bytes 8 w2 @ le_bytes 8 w3) ! k = le_bytes 32 (join4 w0 w1 w2 w3) ! k"
    by (auto simp: le_bytes_def nth_append bit_simps bit_join4 algebra_simps simp del: upt_Suc intro!: bit_word_eqI)
qed simp

lemma word_at_eq:
  assumes "i + 8 \<le> length s"
  shows "word_at s i = le_word (take 8 (drop i s))"
proof -
  have "take 8 (drop i s) = map (\<lambda>k. s ! (i + k)) [0..<8]"
    using assms by (intro nth_equalityI) auto
  also have "[0..<8] = [0, 1, 2, 3, 4, 5, 6, 7 :: nat]" by (simp add: upt_rec)
  finally show ?thesis
    by (simp only: word_at_def le_word_def list.map foldr.simps comp_apply id_apply add_0_right push_bit_or push_bit_push_bit push_bit_of_0
        or.right_neutral or.left_neutral or.assoc or.commute or.left_commute arith_simps)
qed

lemma le_word_join4:
  assumes "length s = 32"
  shows "(le_word s :: 256 word) = join4 (word_at s 0) (word_at s 8) (word_at s 16) (word_at s 24)"
proof (rule bit_word_eqI)
  fix n assume "n < LENGTH(256)"
  then have n: "n < 256" by simp
  have w: "bit (word_at s i) j \<longleftrightarrow> bit (s ! (i + j div 8)) (j mod 8)" if "i + 8 \<le> 32" "j < 64" for i j
    using that assms by (simp add: word_at_eq bit_le_word)
  have d: "(k + 64) div 8 = 8 + k div 8" "(k + 64) mod 8 = k mod 8" "(k + 128) div 8 = 16 + k div 8" "(k + 128) mod 8 = k mod 8"
      "(k + 192) div 8 = 24 + k div 8" "(k + 192) mod 8 = k mod 8" for k :: nat
    by presburger+
  consider "n < 64" | "64 \<le> n" "n < 128" | "128 \<le> n" "n < 192" | "192 \<le> n" by linarith
  then show "bit (le_word s :: 256 word) n = bit (join4 (word_at s 0) (word_at s 8) (word_at s 16) (word_at s 24)) n"
  proof cases
    case 1 then show ?thesis using assms by (simp add: bit_le_word bit_join4 w)
  next
    case 2
    define k where "k = n - 64"
    then have "n = k + 64" "k < 64" using 2 by simp_all
    then show ?thesis using assms by (simp add: bit_le_word bit_join4 w d)
  next
    case 3
    define k where "k = n - 128"
    then have "n = k + 128" "k < 64" using 3 by simp_all
    then show ?thesis using assms by (simp add: bit_le_word bit_join4 w d)
  next
    case 4
    define k where "k = n - 192"
    then have "n = k + 192" "k < 64" using 4 n by simp_all
    then show ?thesis using assms by (simp add: bit_le_word bit_join4 w d)
  qed
qed

section \<open>Reading\<close>

lemma uint_push_bit_64: "n \<le> 64 \<Longrightarrow> uint (push_bit n (y :: u64)) = (uint y mod 2 ^ (64 - n)) * 2 ^ n"
proof -
  assume n: "n \<le> 64"
  have "uint (push_bit n y) = take_bit 64 (push_bit n (uint y))" by (simp only: unsigned_push_bit_eq) simp
  also have "\<dots> = push_bit n (take_bit (64 - n) (uint y))" using n by (simp add: take_bit_push_bit)
  finally show ?thesis by (simp add: push_bit_eq_mult take_bit_eq_mod)
qed

lemma uint_splice:
  assumes "uint x < 2 ^ (a + b)" "b \<le> 64"
  shows "uint (drop_bit a x OR push_bit b y :: u64) = uint x div 2 ^ a + (uint y mod 2 ^ (64 - b)) * 2 ^ b"
proof -
  have x: "uint x div 2 ^ a < 2 ^ b" using assms(1) by (intro div_less_mult) (auto simp: power_add mult.commute)
  have "uint (drop_bit a x OR push_bit b y) = uint x div 2 ^ a OR push_bit b (uint y mod 2 ^ (64 - b))"
    using assms(2) by (simp only: unsigned_or_eq uint_drop_bit uint_push_bit_64 push_bit_eq_mult [of _ "_ :: int"])
  also have "\<dots> = uint x div 2 ^ a + (uint y mod 2 ^ (64 - b)) * 2 ^ b"
    using x by (intro uint_or_push) (simp_all add: pos_imp_zdiv_nonneg_iff)
  finally show ?thesis .
qed

lemma mod_splice: "0 \<le> X \<Longrightarrow> X < 2 ^ b \<Longrightarrow> (X + Y * 2 ^ b) mod 2 ^ (b + c) = X + (Y mod 2 ^ c) * (2 ^ b :: int)"
  by (simp add: power_add zmod_zmult2_eq)

lemma limb_of_words:
  assumes "a + b = 64" "b \<le> 51"
  shows "uint ((drop_bit a x OR push_bit b y) AND FE_MASK :: u64) = uint x div 2 ^ a + (uint y mod 2 ^ (51 - b)) * 2 ^ b"
proof -
  have "uint x < 2 ^ (a + b)" using uint_lt2p [of x] assms(1) by simp
  then have "uint ((drop_bit a x OR push_bit b y) AND FE_MASK) = (uint x div 2 ^ a + (uint y mod 2 ^ (64 - b)) * 2 ^ b) mod 2 ^ 51"
    using uint_splice [of x a b y] assms(2) by (simp add: uint_and_mask_51)
  also have "\<dots> = uint x div 2 ^ a + (uint y mod 2 ^ (64 - b) mod 2 ^ (51 - b)) * 2 ^ b"
  proof -
    have "uint x div 2 ^ a < 2 ^ b"
      using \<open>uint x < 2 ^ (a + b)\<close> by (intro div_less_mult) (auto simp: power_add mult.commute)
    then show ?thesis
      using mod_splice [of "uint x div 2 ^ a" b "uint y mod 2 ^ (64 - b)" "51 - b"] assms(2) by (simp add: pos_imp_zdiv_nonneg_iff)
  qed
  also have "uint y mod 2 ^ (64 - b) mod 2 ^ (51 - b) = uint y mod 2 ^ (51 - b)"
    by (intro mod_mod_cancel le_imp_power_dvd) simp
  finally show ?thesis .
qed

lemma limb_sum:
  fixes w0 w1 w2 :: int
  assumes "w0 = q0 * 2 ^ 51 + r0" "w1 = q1 * 2 ^ 38 + r1" "w2 = q2 * 2 ^ 25 + r2"
  shows "r0 + (q0 + r1 * 2 ^ 13) * 2 ^ 51 + (q1 + r2 * 2 ^ 26) * 2 ^ 102 + (q2 + r3 * 2 ^ 39) * 2 ^ 153 + q3 * 2 ^ 204 =
    w0 + w1 * 2 ^ 64 + w2 * 2 ^ 128 + (2 ^ 12 * q3 + r3) * 2 ^ 192"
  unfolding assms by (simp add: algebra_simps)

lemma fe_from_bytes_eq:
  assumes "length s = 32"
  shows "tight (fe_from_bytes s) \<and> fe_val (fe_from_bytes s) = uint (le_word s :: 256 word) mod 2 ^ 255"
proof -
  obtain w0 w1 w2 w3 where w: "w0 = word_at s 0" "w1 = word_at s 8" "w2 = word_at s 16" "w3 = word_at s 24" by simp
  have lt: "uint w0 < 2 ^ 64" "uint w1 < 2 ^ 64" "uint w2 < 2 ^ 64"
    using uint_lt2p [of w0] uint_lt2p [of w1] uint_lt2p [of w2] by simp_all
  have f: "fe_from_bytes s = (w0 AND FE_MASK, (drop_bit 51 w0 OR push_bit 13 w1) AND FE_MASK,
      (drop_bit 38 w1 OR push_bit 26 w2) AND FE_MASK, (drop_bit 25 w2 OR push_bit 39 w3) AND FE_MASK, drop_bit 12 w3 AND FE_MASK)"
    by (simp add: fe_from_bytes_def Let_def w)
  have m: "uint (x AND FE_MASK) < 2 ^ 51 + 1" for x by (simp add: uint_and_mask_51 less_le_trans [OF pos_mod_bound])
  have l: "uint ((drop_bit 51 w0 OR push_bit 13 w1) AND FE_MASK) = uint w0 div 2 ^ 51 + (uint w1 mod 2 ^ 38) * 2 ^ 13"
      "uint ((drop_bit 38 w1 OR push_bit 26 w2) AND FE_MASK) = uint w1 div 2 ^ 38 + (uint w2 mod 2 ^ 25) * 2 ^ 26"
      "uint ((drop_bit 25 w2 OR push_bit 39 w3) AND FE_MASK) = uint w2 div 2 ^ 25 + (uint w3 mod 2 ^ 12) * 2 ^ 39"
    using limb_of_words [of 51 13 w0 w1] limb_of_words [of 38 26 w1 w2] limb_of_words [of 25 39 w2 w3] by simp_all
  have v: "fe_val (fe_from_bytes s) = uint w0 mod 2 ^ 51 + (uint w0 div 2 ^ 51 + (uint w1 mod 2 ^ 38) * 2 ^ 13) * 2 ^ 51 +
      (uint w1 div 2 ^ 38 + (uint w2 mod 2 ^ 25) * 2 ^ 26) * 2 ^ 102 + (uint w2 div 2 ^ 25 + (uint w3 mod 2 ^ 12) * 2 ^ 39) * 2 ^ 153 +
      (uint w3 div 2 ^ 12 mod 2 ^ 51) * 2 ^ 204"
    by (simp only: f fe_val.simps l uint_and_mask_51(1) [of w0] uint_and_mask_51(1) [of "drop_bit 12 w3"] uint_drop_bit)
  have "uint (le_word s :: 256 word) mod 2 ^ 255 = ((uint w0 + uint w1 * 2 ^ 64 + uint w2 * 2 ^ 128) + uint w3 * 2 ^ 192) mod 2 ^ (192 + 63)"
    unfolding le_word_join4 [OF assms] w [symmetric] uint_join4 by simp
  also have "\<dots> = (uint w0 + uint w1 * 2 ^ 64 + uint w2 * 2 ^ 128) + (uint w3 mod 2 ^ 63) * 2 ^ 192"
    using lt by (intro mod_splice) simp_all
  also have "uint w3 mod 2 ^ 63 = 2 ^ 12 * (uint w3 div 2 ^ 12 mod 2 ^ 51) + uint w3 mod 2 ^ 12"
    using zmod_zmult2_eq [of "2 ^ 51" "uint w3" "2 ^ 12"] by simp
  finally have "fe_val (fe_from_bytes s) = uint (le_word s :: 256 word) mod 2 ^ 255"
    unfolding v limb_sum [OF div_mult_mod_eq [symmetric] div_mult_mod_eq [symmetric] div_mult_mod_eq [symmetric]] by (rule sym)
  moreover have "tight (fe_from_bytes s)" unfolding f fe_below.simps using m by blast
  ultimately show ?thesis by blast
qed

section \<open>Writing\<close>

lemma carry_round_eq:
  assumes "fe_below (2 ^ 51 + 2) t"
  obtains a0 a1 a2 a3 a4 where "carry_round t = (a0, a1, a2, a3, a4)"
    and "uint a0 < 2 ^ 51" "uint a1 < 2 ^ 51" "uint a2 < 2 ^ 51" "uint a3 < 2 ^ 51" "uint a4 < 2 ^ 51 + 2"
    and "fe_mod (carry_round t) = fe_mod t"
    and "\<And>t0 t1 t2 t3 t4. t = (t0, t1, t2, t3, t4) \<Longrightarrow> uint t0 < 2 ^ 51 \<Longrightarrow> uint t1 < 2 ^ 51 \<Longrightarrow> uint t2 < 2 ^ 51 \<Longrightarrow> uint t3 < 2 ^ 51 \<Longrightarrow> uint a4 < 2 ^ 51"
proof -
  let ?B = "2 ^ 51 :: int"
  obtain t0 t1 t2 t3 t4 where t: "t = (t0, t1, t2, t3, t4)" by (cases t)
  have b: "uint t0 < ?B + 2" "uint t1 < ?B + 2" "uint t2 < ?B + 2" "uint t3 < ?B + 2" "uint t4 < ?B + 2"
    using assms unfolding t by simp_all
  have lt: "uint x div ?B < 2" if "uint x < ?B + 100" for x :: u64 using that by (intro div_less_mult) auto
  have pos: "0 \<le> uint x div ?B" for x :: u64 by (simp add: pos_imp_zdiv_nonneg_iff)
  define u0 where "u0 = t0 + 19 * drop_bit 51 t4"
  define u1 where "u1 = t1 + drop_bit 51 u0"
  define u2 where "u2 = t2 + drop_bit 51 u1"
  define u3 where "u3 = t3 + drop_bit 51 u2"
  define u4 where "u4 = (t4 AND FE_MASK) + drop_bit 51 u3"
  have r: "carry_round t = (u0 AND FE_MASK, u1 AND FE_MASK, u2 AND FE_MASK, u3 AND FE_MASK, u4)"
    unfolding t by (simp add: Let_def u0_def u1_def u2_def u3_def u4_def)
  have c: "uint t4 div ?B < 2" using lt [of t4] b by simp
  then have "uint (19 * drop_bit 51 t4) = 19 * (uint t4 div ?B)" by (subst uint_19_times) (simp_all add: uint_drop_bit)
  then have e0: "uint u0 = uint t0 + 19 * (uint t4 div ?B)" using b c unfolding u0_def by (subst uint_add_small) simp_all
  then have l0: "uint u0 < ?B + 100" using b c by simp
  have e1: "uint u1 = uint t1 + uint u0 div ?B" using b lt [OF l0] unfolding u1_def by (subst uint_add_small) (simp_all add: uint_drop_bit)
  then have l1: "uint u1 < ?B + 100" using b lt [OF l0] by simp
  have e2: "uint u2 = uint t2 + uint u1 div ?B" using b lt [OF l1] unfolding u2_def by (subst uint_add_small) (simp_all add: uint_drop_bit)
  then have l2: "uint u2 < ?B + 100" using b lt [OF l1] by simp
  have e3: "uint u3 = uint t3 + uint u2 div ?B" using b lt [OF l2] unfolding u3_def by (subst uint_add_small) (simp_all add: uint_drop_bit)
  then have l3: "uint u3 < ?B + 100" using b lt [OF l2] by simp
  have m: "uint (x AND FE_MASK) < ?B" for x by (simp add: uint_and_mask_51)
  have e4: "uint u4 = uint t4 mod ?B + uint u3 div ?B"
    using lt [OF l3] m [of t4] unfolding u4_def by (subst uint_add_small) (simp_all add: uint_drop_bit uint_and_mask_51)
  have "uint t4 mod ?B < ?B" by simp
  then have a4: "uint u4 < ?B + 2" using e4 lt [OF l3] by linarith
  have a4': "uint u4 < ?B" if z: "uint t0 < ?B" "uint t1 < ?B" "uint t2 < ?B" "uint t3 < ?B"
  proof (cases "uint t4 < ?B")
    case True
    then have "uint u0 = uint t0" using e0 by simp
    then have "uint u1 = uint t1" using e1 z(1) by simp
    then have "uint u2 = uint t2" using e2 z(2) by simp
    then have "uint u3 = uint t3" using e3 z(3) by simp
    then show ?thesis using e4 z(4) True by simp
  next
    case False
    then have "(uint t4 - ?B) mod ?B = uint t4 - ?B" using b(5) by (intro mod_pos_pos_trivial) simp_all
    then have "uint t4 mod ?B = uint t4 - ?B" using mod_sub_mult [of "uint t4" 1 ?B] by simp
    then show ?thesis using e4 b(5) lt [OF l3] by simp
  qed
  have "uint (u0 AND FE_MASK) + uint (u1 AND FE_MASK) * ?B + uint (u2 AND FE_MASK) * ?B ^ 2 + uint (u3 AND FE_MASK) * ?B ^ 3 + uint u4 * ?B ^ 4 =
      uint u0 + uint t1 * ?B + uint t2 * ?B ^ 2 + uint t3 * ?B ^ 3 + (uint t4 mod ?B) * ?B ^ 4"
    using e1 e2 e3 e4 by (intro carry_pass) (simp_all only: uint_and_mask_51)
  moreover have "uint t4 = uint t4 mod ?B + ?B * (uint t4 div ?B)" by simp
  ultimately have "uint (u0 AND FE_MASK) + uint (u1 AND FE_MASK) * ?B + uint (u2 AND FE_MASK) * ?B ^ 2 + uint (u3 AND FE_MASK) * ?B ^ 3 + uint u4 * ?B ^ 4 =
      uint t0 + uint t1 * ?B + uint t2 * ?B ^ 2 + uint t3 * ?B ^ 3 + uint t4 * ?B ^ 4 - (uint t4 div ?B) * (?B ^ 5 - 19)"
    using e0 by algebra
  then have "fe_val (carry_round t) = fe_val t - (uint t4 div ?B) * prime25519"
    unfolding r unfolding t by (simp add: prime25519_def)
  then have "fe_mod (carry_round t) = fe_mod t" unfolding fe_mod_def by (simp only: mod_sub_mult)
  then show thesis using that [OF r] m a4 a4' t by simp
qed

lemma pack_sum:
  fixes t1 t2 t3 :: int
  assumes "t1 = q1 * 2 ^ 13 + r1" "t2 = q2 * 2 ^ 26 + r2" "t3 = q3 * 2 ^ 39 + r3"
  shows "(t0 + r1 * 2 ^ 51) + (q1 + r2 * 2 ^ 38) * 2 ^ 64 + (q2 + r3 * 2 ^ 25) * 2 ^ 128 + (q3 + t4 * 2 ^ 12) * 2 ^ 192 =
    t0 + t1 * 2 ^ 51 + t2 * 2 ^ 102 + t3 * 2 ^ 153 + t4 * 2 ^ 204"
  unfolding assms by (simp add: algebra_simps)

lemma fe_pack_eq:
  assumes "fe_below (2 ^ 51) t"
  shows "fe_pack t = le_bytes 32 (word_of_int (fe_val t) :: 256 word)"
proof -
  obtain t0 t1 t2 t3 t4 where t: "t = (t0, t1, t2, t3, t4)" by (cases t)
  have b: "uint t0 < 2 ^ 51" "uint t1 < 2 ^ 51" "uint t2 < 2 ^ 51" "uint t3 < 2 ^ 51" "uint t4 < 2 ^ 51"
    using assms unfolding t by simp_all
  let ?w0 = "t0 OR push_bit 51 t1" and ?w1 = "drop_bit 13 t1 OR push_bit 38 t2"
    and ?w2 = "drop_bit 26 t2 OR push_bit 25 t3" and ?w3 = "drop_bit 39 t3 OR push_bit 12 t4"
  have "uint ?w0 = uint t0 + (uint t1 mod 2 ^ 13) * 2 ^ 51" using uint_splice [of t0 0 51 t1] b by simp
  moreover have "uint ?w1 = uint t1 div 2 ^ 13 + (uint t2 mod 2 ^ 26) * 2 ^ 38" using uint_splice [of t1 13 38 t2] b by simp
  moreover have "uint ?w2 = uint t2 div 2 ^ 26 + (uint t3 mod 2 ^ 39) * 2 ^ 25" using uint_splice [of t2 26 25 t3] b by simp
  moreover have "uint ?w3 = uint t3 div 2 ^ 39 + uint t4 * 2 ^ 12"
  proof -
    have "uint t4 mod 2 ^ 52 = uint t4" using b by (intro mod_pos_pos_trivial) simp_all
    then show ?thesis using uint_splice [of t3 39 12 t4] b by simp
  qed
  ultimately have "uint (join4 ?w0 ?w1 ?w2 ?w3) = fe_val t"
    unfolding uint_join4 t fe_val.simps
    by (simp only: pack_sum [OF div_mult_mod_eq [symmetric] div_mult_mod_eq [symmetric] div_mult_mod_eq [symmetric]])
  then have "join4 ?w0 ?w1 ?w2 ?w3 = word_of_int (fe_val t)" by (metis word_of_int_uint)
  then show ?thesis unfolding t by (simp only: fe_pack.simps Let_def le_bytes_join4)
qed

lemma subtract_p_eq:
  assumes "fe_below (2 ^ 51) t"
  shows "fe_below (2 ^ 51) (subtract_p t) \<and> fe_val (subtract_p t) = fe_mod t"
proof -
  let ?B = "2 ^ 51 :: int"
  obtain t0 t1 t2 t3 t4 where t: "t = (t0, t1, t2, t3, t4)" by (cases t)
  have b: "uint t0 < ?B" "uint t1 < ?B" "uint t2 < ?B" "uint t3 < ?B" "uint t4 < ?B"
    using assms unfolding t by simp_all
  have "uint (drop_bit 51 t4) = 0" using b(5) by (simp add: uint_drop_bit)
  then have d: "drop_bit 51 t4 = 0" by (simp add: unsigned_eq_0_iff)
  have full: "(x = FE_MASK) = (uint x = ?B - 1)" for x by (simp add: word_uint_eq_iff uint_FE_MASK)
  have m18: "uint (FE_MASK - 18) = ?B - 19" by (simp add: FE_MASK_def)
  let ?full = "t4 = FE_MASK \<and> t3 = FE_MASK \<and> t2 = FE_MASK \<and> t1 = FE_MASK \<and> t0 \<ge> FE_MASK - 18"
  have c: "?full \<longleftrightarrow> prime25519 \<le> fe_val t"
  proof
    assume ?full
    then show "prime25519 \<le> fe_val t" unfolding t full word_le_def m18 by (simp add: prime25519_def)
  next
    assume v: "prime25519 \<le> fe_val t"
    have "uint t4 = ?B - 1" using v b unfolding t prime25519_def by simp
    moreover from this have "uint t3 = ?B - 1" using v b unfolding t prime25519_def by simp
    moreover from calculation have "uint t2 = ?B - 1" using v b unfolding t prime25519_def by simp
    moreover from calculation have "uint t1 = ?B - 1" using v b unfolding t prime25519_def by simp
    moreover from calculation have "?B - 19 \<le> uint t0" using v b unfolding t prime25519_def by simp
    ultimately show ?full by (simp add: full word_le_def m18)
  qed
  show ?thesis
  proof (cases ?full)
    case True
    have s0: "uint (t0 - (FE_MASK - 18)) = uint t0 - (?B - 19)"
      using True m18 by (subst uint_diff_small) (simp_all add: word_le_def)
    have s: "subtract_p t = (t0 - (FE_MASK - 18), 0, 0, 0, 0)" using True unfolding t by (simp add: Let_def)
    have "fe_val (subtract_p t) = fe_val t - 1 * prime25519"
      using True s0 unfolding s unfolding t by (simp add: uint_FE_MASK prime25519_def)
    moreover have "0 \<le> fe_val t - prime25519" "fe_val t - prime25519 < prime25519"
      using c True b unfolding t by (simp_all add: prime25519_def)
    ultimately have "fe_val (subtract_p t) = fe_mod t"
      unfolding fe_mod_def using mod_sub_mult [of "fe_val t" 1 prime25519] mod_pos_pos_trivial [of "fe_val t - prime25519" prime25519] by simp
    then show ?thesis using s0 b True unfolding s by (simp add: word_le_def m18)
  next
    case False
    then have "subtract_p t = t" using d unfolding t by (auto simp: Let_def)
    moreover have "fe_mod t = fe_val t" unfolding fe_mod_def
      using c False by (intro mod_pos_pos_trivial) (simp_all add: t)
    ultimately show ?thesis using assms by simp
  qed
qed

lemma fe_to_bytes_eq:
  assumes "tight h"
  shows "fe_to_bytes h = le_bytes 32 (word_of_int (fe_mod h) :: 256 word)"
proof -
  have "fe_below (2 ^ 51 + 2) h" using assms by (cases h) simp
  then obtain a0 a1 a2 a3 a4 where a: "carry_round h = (a0, a1, a2, a3, a4)" "uint a0 < 2 ^ 51" "uint a1 < 2 ^ 51"
      "uint a2 < 2 ^ 51" "uint a3 < 2 ^ 51" "uint a4 < 2 ^ 51 + 2" "fe_mod (carry_round h) = fe_mod h"
    by (rule carry_round_eq) blast
  then have "fe_below (2 ^ 51 + 2) (carry_round h)" by simp
  then obtain b0 b1 b2 b3 b4 where b: "carry_round (carry_round h) = (b0, b1, b2, b3, b4)" "uint b0 < 2 ^ 51" "uint b1 < 2 ^ 51"
      "uint b2 < 2 ^ 51" "uint b3 < 2 ^ 51" "fe_mod (carry_round (carry_round h)) = fe_mod (carry_round h)" "uint b4 < 2 ^ 51"
    by (rule carry_round_eq) (use a in blast)
  then have "fe_below (2 ^ 51) (carry_round (carry_round h))" by simp
  from subtract_p_eq [OF this] fe_pack_eq show ?thesis
    using a(7) b(6) by (simp add: fe_to_bytes_def)
qed

end
