(* ===== verification/X25519.thy ===== *)
theory X25519
  imports FieldBytes
begin

text \<open>
  The key exchange of \<open>src/kernel/crypto.c\<close>: the ladder on a Montgomery curve, and the generation of
  private keys. The specification is the ladder of RFC 7748 over the integers modulo the prime, with the
  constant of the curve as a parameter. The source of entropy, the tick counter and the address of
  the generator's state, are arguments.
\<close>

unbundle bit_operations_syntax

section \<open>The ladder\<close>

definition clamp :: "bytes \<Rightarrow> bytes" where
  "clamp k = (k[0 := k ! 0 AND 248])[31 := (k ! 31 AND 127) OR 64]"

definition key_bit :: "bytes \<Rightarrow> nat \<Rightarrow> u64" where
  "key_bit k i = ucast (drop_bit (i mod 8) (k ! (i div 8)) AND 1)"

type_synonym ladder_state = "fe \<times> fe \<times> fe \<times> fe \<times> u64"

fun ladder_step :: "fe \<Rightarrow> bytes \<Rightarrow> nat \<Rightarrow> ladder_state \<Rightarrow> ladder_state" where
  "ladder_step x_1 k i (x_2, z_2, x_3, z_3, swap) =
     (let b = key_bit k i;
          s2 = swap XOR b;
          (x_2, x_3) = fe_cswap x_2 x_3 s2;
          (z_2, z_3) = fe_cswap z_2 z_3 s2;
          A = fe_add x_2 z_2;
          AA = fe_sq A;
          B = fe_sub x_2 z_2;
          BB = fe_sq B;
          E = fe_sub AA BB;
          C = fe_add x_3 z_3;
          D = fe_sub x_3 z_3;
          DA = fe_mul D A;
          CB = fe_mul C B;
          x_3 = fe_sq (fe_add DA CB);
          z_3 = fe_sq (fe_sub DA CB);
          z_3 = fe_mul z_3 x_1;
          x_2 = fe_mul AA BB;
          A = fe_mul_scalar E 121666;
          A = fe_add AA A;
          z_2 = fe_mul E A
      in (x_2, z_2, x_3, z_3, b))"

definition curve25519_ladder :: "bytes \<Rightarrow> bytes \<Rightarrow> bytes" where
  "curve25519_ladder scalar u_in =
     (let x_1 = fe_from_bytes u_in;
          k = clamp scalar;
          (x_2, z_2, x_3, z_3, swap) = fold (ladder_step x_1 k) (rev [0..<255]) (fe_one, fe_zero, x_1, fe_one, 0);
          (x_2, x_3) = fe_cswap x_2 x_3 swap;
          (z_2, z_3) = fe_cswap z_2 z_3 swap;
          z_2 = fe_invert z_2
      in fe_to_bytes (fe_mul x_2 z_2))"

section \<open>Keys\<close>

definition prng_next :: "u64 \<Rightarrow> u64 \<Rightarrow> u64 \<Rightarrow> u64" where
  "prng_next ticks addr st =
     (let st = (if st = 0 then ticks XOR addr XOR 0xdeadbeefcafe else st);
          st = st XOR push_bit 13 st;
          st = st XOR drop_bit 7 st
      in st XOR push_bit 17 st)"

definition x25519_generate_private :: "u64 \<Rightarrow> u64 \<Rightarrow> u64 \<Rightarrow> bytes \<times> u64" where
  "x25519_generate_private ticks addr st =
     (let r0 = prng_next ticks addr st; r1 = prng_next ticks addr r0; r2 = prng_next ticks addr r1; r3 = prng_next ticks addr r2
      in (clamp (le_bytes 8 r0 @ le_bytes 8 r1 @ le_bytes 8 r2 @ le_bytes 8 r3), r3))"

definition BASE_POINT :: bytes where "BASE_POINT = 9 # replicate 31 0"

definition x25519_public :: "bytes \<Rightarrow> bytes" where
  "x25519_public priv = curve25519_ladder priv BASE_POINT"

definition x25519_shared :: "bytes \<Rightarrow> bytes \<Rightarrow> bytes" where
  "x25519_shared priv peer_pub = curve25519_ladder priv peer_pub"

section \<open>The ladder of the standard\<close>

abbreviation p25519 :: int where "p25519 \<equiv> prime25519"

fun mont_step :: "int \<Rightarrow> int \<Rightarrow> bool \<Rightarrow> int \<times> int \<times> int \<times> int \<times> bool \<Rightarrow> int \<times> int \<times> int \<times> int \<times> bool" where
  "mont_step a24 x1 b (x2, z2, x3, z3, swap) =
     (let (x2, x3) = (if swap \<noteq> b then (x3, x2) else (x2, x3));
          (z2, z3) = (if swap \<noteq> b then (z3, z2) else (z2, z3));
          AA = (x2 + z2) ^ 2;
          BB = (x2 - z2) ^ 2;
          E = AA - BB;
          DA = (x3 - z3) * (x2 + z2);
          CB = (x3 + z3) * (x2 - z2)
      in ((AA * BB) mod p25519, (E * (AA + a24 * E)) mod p25519, (DA + CB) ^ 2 mod p25519, (x1 * (DA - CB) ^ 2) mod p25519, b))"

definition mont_ladder :: "int \<Rightarrow> int \<Rightarrow> int \<Rightarrow> int" where
  "mont_ladder a24 k u =
     (let x1 = u mod p25519;
          (x2, z2, x3, z3, swap) = fold (\<lambda>i. mont_step a24 x1 (bit k i)) (rev [0..<255]) (1, 0, x1, 1, False);
          (x2, z2) = (if swap then (x3, z3) else (x2, z2))
      in (x2 * z2 ^ (2 ^ 255 - 21)) mod p25519)"

section \<open>Refinement\<close>

fun ladder_sim :: "ladder_state \<Rightarrow> int \<times> int \<times> int \<times> int \<times> bool \<Rightarrow> bool" where
  "ladder_sim (f2, g2, f3, g3, s) (x2, z2, x3, z3, swap) \<longleftrightarrow>
     fe.holds f2 x2 \<and> fe.holds g2 z2 \<and> fe.holds f3 x3 \<and> fe.holds g3 z3 \<and> s = of_bool swap"

lemma holds_sq: "fe.holds_wide f x \<Longrightarrow> fe.holds (fe_sq f) (x ^ 2)"
  unfolding fe_sq_def by (rule fe.holds_square)

lemma holds_scalar: "fe.holds_wide f x \<Longrightarrow> uint n < 2 ^ 17 \<Longrightarrow> fe.holds (fe_mul_scalar f n) (x * uint n)"
  using fe_mul_scalar_eq [of f n] mod_mult_cong [of "fe_val f" p25519 x "uint n" "uint n"]
  unfolding fe.holds_def fe.holds_wide_def fe_mod_def mod_mult_left_eq by metis

lemma key_bit_eq: "key_bit k i = of_bool (bit (k ! (i div 8)) (i mod 8))"
  by (simp add: key_bit_def and_one_eq bit_iff_odd_drop_bit odd_iff_mod_2_eq_one of_bool_def)

lemma ladder_step_sim:
  assumes "fe.holds x_1 x1" "bit (k ! (i div 8)) (i mod 8) = b" "ladder_sim s t"
  shows "ladder_sim (ladder_step x_1 k i s) (mont_step 121666 x1 b t)"
proof -
  obtain f2 g2 f3 g3 sw x2 z2 x3 z3 swap where e: "s = (f2, g2, f3, g3, sw)" "t = (x2, z2, x3, z3, swap)"
    by (metis prod_cases5)
  note h = assms(3) [unfolded e ladder_sim.simps]
  have sw: "sw XOR key_bit k i = of_bool (swap \<noteq> b)" using h assms(2) by (cases swap; cases b) (simp_all add: key_bit_eq)
  define f2' g2' f3' g3' where "f2' = (if swap \<noteq> b then f3 else f2)" and "g2' = (if swap \<noteq> b then g3 else g2)"
    and "f3' = (if swap \<noteq> b then f2 else f3)" and "g3' = (if swap \<noteq> b then g2 else g3)"
  define x2' z2' x3' z3' where "x2' = (if swap \<noteq> b then x3 else x2)" and "z2' = (if swap \<noteq> b then z3 else z2)"
    and "x3' = (if swap \<noteq> b then x2 else x3)" and "z3' = (if swap \<noteq> b then z2 else z3)"
  note defs = f2'_def g2'_def f3'_def g3'_def x2'_def z2'_def x3'_def z3'_def
  have c: "fe_cswap f2 f3 (of_bool (swap \<noteq> b)) = (f2', f3')" "fe_cswap g2 g3 (of_bool (swap \<noteq> b)) = (g2', g3')"
    "(if swap \<noteq> b then (x3, x2) else (x2, x3)) = (x2', x3')" "(if swap \<noteq> b then (z3, z2) else (z2, z3)) = (z2', z3')"
    unfolding fe_cswap_eq defs by simp_all
  have i: "fe.holds f2' x2'" "fe.holds g2' z2'" "fe.holds f3' x3'" "fe.holds g3' z3'" using h unfolding defs by simp_all
  have AA: "fe.holds (fe_sq (fe_add f2' g2')) ((x2' + z2') ^ 2)" by (intro holds_sq fe.holds_add i)
  have BB: "fe.holds (fe_sq (fe_sub f2' g2')) ((x2' - z2') ^ 2)" by (intro holds_sq fe.holds_sub i)
  have E: "fe.holds_wide (fe_sub (fe_sq (fe_add f2' g2')) (fe_sq (fe_sub f2' g2'))) ((x2' + z2') ^ 2 - (x2' - z2') ^ 2)"
    by (intro fe.holds_sub AA BB)
  have DA: "fe.holds (fe_mul (fe_sub f3' g3') (fe_add f2' g2')) ((x3' - z3') * (x2' + z2'))" by (intro fe.holds_mul fe.holds_sub fe.holds_add i)
  have CB: "fe.holds (fe_mul (fe_add f3' g3') (fe_sub f2' g2')) ((x3' + z3') * (x2' - z2'))" by (intro fe.holds_mul fe.holds_sub fe.holds_add i)
  have x3n: "fe.holds (fe_sq (fe_add (fe_mul (fe_sub f3' g3') (fe_add f2' g2')) (fe_mul (fe_add f3' g3') (fe_sub f2' g2'))))
      (((x3' - z3') * (x2' + z2') + (x3' + z3') * (x2' - z2')) ^ 2)" by (intro holds_sq fe.holds_add DA CB)
  have z3n: "fe.holds (fe_mul (fe_sq (fe_sub (fe_mul (fe_sub f3' g3') (fe_add f2' g2')) (fe_mul (fe_add f3' g3') (fe_sub f2' g2')))) x_1)
      (((x3' - z3') * (x2' + z2') - (x3' + z3') * (x2' - z2')) ^ 2 * x1)"
    by (intro fe.holds_mul fe.widen holds_sq fe.holds_sub DA CB assms(1))
  have x2n: "fe.holds (fe_mul (fe_sq (fe_add f2' g2')) (fe_sq (fe_sub f2' g2'))) ((x2' + z2') ^ 2 * (x2' - z2') ^ 2)"
    by (intro fe.holds_mul fe.widen AA BB)
  have z2n: "fe.holds (fe_mul (fe_sub (fe_sq (fe_add f2' g2')) (fe_sq (fe_sub f2' g2')))
        (fe_add (fe_sq (fe_add f2' g2')) (fe_mul_scalar (fe_sub (fe_sq (fe_add f2' g2')) (fe_sq (fe_sub f2' g2'))) 121666)))
      (((x2' + z2') ^ 2 - (x2' - z2') ^ 2) * ((x2' + z2') ^ 2 + ((x2' + z2') ^ 2 - (x2' - z2') ^ 2) * uint (121666 :: u64)))"
    by (intro fe.holds_mul E fe.holds_add AA holds_scalar) simp
  show ?thesis
    using x2n z2n x3n z3n assms(2)
    unfolding e ladder_step.simps mont_step.simps Let_def sw c prod.case ladder_sim.simps holds_fe_mod
    by (simp add: key_bit_eq mult.commute)
qed

lemma ladder_sim_fold:
  assumes "fe.holds x_1 x1" "\<forall>i \<in> set is. bit (k ! (i div 8)) (i mod 8) = bit n i" "ladder_sim s t"
  shows "ladder_sim (fold (ladder_step x_1 k) is s) (fold (\<lambda>i. mont_step 121666 x1 (bit n i)) is t)"
  using assms(2,3) by (induction "is" arbitrary: s t) (simp_all add: ladder_step_sim [OF assms(1)])

lemma holds_one: "fe.holds fe_one 1" and holds_zero: "fe.holds fe_zero 0"
  unfolding holds_fe_mod by (simp_all add: fe_one_def fe_zero_def fe_mod_def)

lemma clamp_length [simp]: "length (clamp k) = length k"
  by (simp add: clamp_def)

lemma ladder_final:
  assumes "ladder_sim s t"
  shows "(case s of (x_2, z_2, x_3, z_3, swap) \<Rightarrow>
      (let (x_2, x_3) = fe_cswap x_2 x_3 swap; (z_2, z_3) = fe_cswap z_2 z_3 swap; z_2 = fe_invert z_2 in fe_to_bytes (fe_mul x_2 z_2))) =
    le_bytes 32 (word_of_int (case t of (x2, z2, x3, z3, swap) \<Rightarrow>
      (let (x2, z2) = (if swap then (x3, z3) else (x2, z2)) in (x2 * z2 ^ (2 ^ 255 - 21)) mod p25519)) :: 256 word)"
proof -
  obtain f2 g2 f3 g3 sw x2 z2 x3 z3 swap where e: "s = (f2, g2, f3, g3, sw)" "t = (x2, z2, x3, z3, swap)"
    by (metis prod_cases5)
  define f g where "f = (if swap then f3 else f2)" and "g = (if swap then g3 else g2)"
  define x z where "x = (if swap then x3 else x2)" and "z = (if swap then z3 else z2)"
  note h = assms [unfolded e ladder_sim.simps]
  have i: "fe.holds f x" "fe.holds g z" using h by (simp_all add: f_def g_def x_def z_def)
  have c: "fst (fe_cswap f2 f3 sw) = f" "fst (fe_cswap g2 g3 sw) = g" "(if swap then (x3, z3) else (x2, z2)) = (x, z)"
    using h by (simp_all add: fe_cswap_eq f_def g_def x_def z_def)
  have "fe.holds (fe_invert g) (z ^ (2 ^ 255 - 21))"
    using fe_invert_eq [of g] i(2) unfolding holds_fe_mod by (simp only: power_mod)
  then have "fe.holds (fe_mul f (fe_invert g)) (x * z ^ (2 ^ 255 - 21))" by (intro fe.holds_mul fe.widen i)
  then have "fe_to_bytes (fe_mul f (fe_invert g)) = le_bytes 32 (word_of_int ((x * z ^ (2 ^ 255 - 21)) mod p25519) :: 256 word)"
    unfolding holds_fe_mod using fe_to_bytes_eq by metis
  then show ?thesis unfolding e prod.case Let_def case_prod_unfold c fst_conv snd_conv .
qed

lemma curve25519_ladder_eq:
  assumes "length scalar = 32" "length u = 32"
  shows "curve25519_ladder scalar u = le_bytes 32 (word_of_int
    (mont_ladder 121666 (uint (le_word (clamp scalar) :: 256 word)) (uint (le_word u :: 256 word) mod 2 ^ 255)) :: 256 word)"
proof -
  let ?x = "fe_from_bytes u" and ?u = "uint (le_word u :: 256 word) mod 2 ^ 255" and ?k = "uint (le_word (clamp scalar) :: 256 word)"
  have x1: "fe.holds ?x (?u mod p25519)"
    using fe_from_bytes_eq [OF assms(2)] unfolding holds_fe_mod fe_mod_def by (simp only: mod_mod_trivial)
  have "\<forall>i \<in> set (rev [0..<255]). bit (clamp scalar ! (i div 8)) (i mod 8) = bit ?k i"
    using assms(1) by (simp add: bit_uint_iff bit_le_word)
  then have "ladder_sim (fold (ladder_step ?x (clamp scalar)) (rev [0..<255]) (fe_one, fe_zero, ?x, fe_one, 0))
      (fold (\<lambda>i. mont_step 121666 (?u mod p25519) (bit ?k i)) (rev [0..<255]) (1, 0, ?u mod p25519, 1, False))"
    by (intro ladder_sim_fold x1) (simp_all only: ladder_sim.simps holds_one holds_zero x1 of_bool_eq)
  from ladder_final [OF this] show ?thesis
    unfolding curve25519_ladder_def mont_ladder_def Let_def .
qed

text \<open>
  C28. The key exchange computes the ladder of RFC 7748, but for another curve. For keys of 32 bytes
  the result is the little-endian encoding of the ladder over the integers modulo \<open>2\<^sup>2\<^sup>5\<^sup>5 - 19\<close>, run on the clamped
  scalar and the low 255 bits of the point, with inversion as a power: no limb of any intermediate result
  overflows, and the result is fully reduced. The constant of the ladder is 121666 where the standard has 121665.
\<close>

theorem x25519_refines_ladder:
  assumes "length priv = 32" "length peer = 32"
  shows "x25519_shared priv peer = le_bytes 32 (word_of_int
      (mont_ladder 121666 (uint (le_word (clamp priv) :: 256 word)) (uint (le_word peer :: 256 word) mod 2 ^ 255)) :: 256 word) \<and>
    x25519_public priv = le_bytes 32 (word_of_int (mont_ladder 121666 (uint (le_word (clamp priv) :: 256 word)) 9) :: 256 word)"
proof -
  have "length BASE_POINT = 32" by (simp add: BASE_POINT_def)
  moreover have "(le_word BASE_POINT :: 256 word) = 9"
    by (simp add: BASE_POINT_def le_word_Cons le_word_zeros)
  ultimately show ?thesis
    using curve25519_ladder_eq [OF assms] curve25519_ladder_eq [OF assms(1), of BASE_POINT]
    unfolding x25519_shared_def x25519_public_def by simp
qed

theorem x25519_refines_ladder_witness:
  "x25519_shared (replicate 32 7) (replicate 32 5) = le_bytes 32 (word_of_int
     (mont_ladder 121666 (uint (le_word (clamp (replicate 32 7)) :: 256 word)) (uint (le_word (replicate 32 5) :: 256 word) mod 2 ^ 255)) :: 256 word)"
  using x25519_refines_ladder [of "replicate 32 7" "replicate 32 5"] by (simp only: length_replicate simp_thms)

section \<open>The curve\<close>

text \<open>Doubling of the point with coordinate \<open>u\<close> on the curve with coefficient \<open>A\<close>, as a fraction.\<close>

definition curve_double :: "int \<Rightarrow> int \<Rightarrow> int \<times> int" where
  "curve_double A u = (((u ^ 2 - 1) ^ 2) mod p25519, (4 * u * (u ^ 2 + A * u + 1)) mod p25519)"

text \<open>
  C29. The step of the ladder does not double points of Curve25519. Started at any point with
  coordinate \<open>u\<close>, the step doubles on the curve with coefficient 486666 instead of 486662. Already for the base
  point 9 the quotients differ, so public keys and shared secrets are not those of the standard.
\<close>

theorem x25519_wrong_curve:
  assumes "tight f"
  shows "(case ladder_step f (replicate 32 0) 0 (f, fe_one, f, fe_one, 0) of
      (x_2, z_2, _) \<Rightarrow> (fe_mod x_2, fe_mod z_2) = curve_double 486666 (fe_mod f)) \<and>
    (case (curve_double 486666 9, curve_double 486662 9) of ((x, z), (x', z')) \<Rightarrow> (x * z') mod p25519 \<noteq> (x' * z) mod p25519)"
proof -
  let ?u = "fe_mod f"
  have h: "fe.holds f ?u" using assms unfolding holds_fe_mod by (simp add: fe_mod_def)
  have b: "\<not> bit (replicate 32 (0 :: u8) ! (0 div 8)) (0 mod 8)" by simp
  obtain x_2 z_2 x_3 z_3 s where st: "ladder_step f (replicate 32 0) 0 (f, fe_one, f, fe_one, 0) = (x_2, z_2, x_3, z_3, s)"
    by (metis prod_cases5)
  have "ladder_sim (f, fe_one, f, fe_one, 0) (?u, 1, ?u, 1, False)" using h holds_one by simp
  from ladder_step_sim [OF h _ this, of "replicate 32 0" 0 False]
  have "fe.holds x_2 (((?u + 1) ^ 2 * (?u - 1) ^ 2) mod p25519)"
      "fe.holds z_2 ((((?u + 1) ^ 2 - (?u - 1) ^ 2) * ((?u + 1) ^ 2 + 121666 * ((?u + 1) ^ 2 - (?u - 1) ^ 2))) mod p25519)"
    using b unfolding st by (simp_all add: Let_def)
  moreover have "(?u + 1) ^ 2 * (?u - 1) ^ 2 = (?u ^ 2 - 1) ^ 2"
    "((?u + 1) ^ 2 - (?u - 1) ^ 2) * ((?u + 1) ^ 2 + 121666 * ((?u + 1) ^ 2 - (?u - 1) ^ 2)) = 4 * ?u * (?u ^ 2 + 486666 * ?u + 1)"
    by algebra+
  ultimately have "(fe_mod x_2, fe_mod z_2) = curve_double 486666 ?u"
    unfolding holds_fe_mod curve_double_def by simp
  moreover have "case (curve_double 486666 9, curve_double 486662 9) of ((x, z), (x', z')) \<Rightarrow> (x * z') mod p25519 \<noteq> (x' * z) mod p25519"
    by (simp add: curve_double_def prime25519_def)
  ultimately show ?thesis unfolding st by simp
qed

theorem x25519_wrong_curve_witness:
  "tight (fe_from_bytes BASE_POINT) \<and>
   (case ladder_step (fe_from_bytes BASE_POINT) (replicate 32 0) 0 (fe_from_bytes BASE_POINT, fe_one, fe_from_bytes BASE_POINT, fe_one, 0) of
      (x_2, z_2, _) \<Rightarrow> (fe_mod x_2, fe_mod z_2) = curve_double 486666 (fe_mod (fe_from_bytes BASE_POINT)))"
proof -
  have t: "tight (fe_from_bytes BASE_POINT)" using fe_from_bytes_eq [of BASE_POINT] unfolding BASE_POINT_def by (simp only: length_Cons length_replicate)
  show ?thesis by (intro conjI t x25519_wrong_curve [OF t, THEN conjunct1])
qed

end
