(* ===== verification/Ext2.thy ===== *)
theory Ext2
  imports FsDisk
begin

text \<open>
  The read-only driver for EXT2 images, \<open>src/kernel/ext2.c\<close>.

  The static variables of the driver, its scratch buffers included, are a record; the disk is that of
  \<open>Fs\<close>, behind the same \<open>ata_read_sector\<close>. What is printed is collected in \<open>screen\<close> (colours
  are left out). An operation is \<open>None\<close> when the code divides by zero, reads outside of a buffer, or
  does not return.
\<close>

unbundle bit_operations_syntax

section \<open>Constants and state\<close>

definition EXT2_MAGIC :: u16 where "EXT2_MAGIC = 0xEF53"
definition EXT2_ROOT_INO :: u32 where "EXT2_ROOT_INO = 2"
definition EXT2_MAX_BLOCK :: nat where "EXT2_MAX_BLOCK = 4096"
definition EXT2_S_IFDIR :: u16 where "EXT2_S_IFDIR = 0x4000"
definition EXT2_S_IFREG :: u16 where "EXT2_S_IFREG = 0x8000"
definition INO_BLOCK :: nat where "INO_BLOCK = 40"
definition CAT_CHUNK :: nat where "CAT_CHUNK = 512"

record ext2 =
  g_mounted :: bool
  g_block_size :: u32
  g_inodes_per_grp :: u32
  g_inode_size :: u32
  g_blocks_per_grp :: u32
  g_bgdt_block :: u32
  g_sb_buf :: bytes
  g_block_buf :: bytes
  g_inode_buf :: bytes
  g_indir_buf :: bytes
  indir2 :: bytes
  g_dir_buf :: bytes
  find_save :: bytes
  ls_save :: bytes
  cat_save :: bytes
  cat_buf :: bytes
  screen :: bytes

definition ext2_boot :: ext2 where
  "ext2_boot = \<lparr>g_mounted = False, g_block_size = 1024, g_inodes_per_grp = 0, g_inode_size = 128, g_blocks_per_grp = 0,
     g_bgdt_block = 0, g_sb_buf = replicate 1024 0, g_block_buf = replicate EXT2_MAX_BLOCK 0,
     g_inode_buf = replicate 256 0, g_indir_buf = replicate EXT2_MAX_BLOCK 0, indir2 = replicate EXT2_MAX_BLOCK 0,
     g_dir_buf = replicate EXT2_MAX_BLOCK 0, find_save = replicate 256 0, ls_save = replicate 256 0,
     cat_save = replicate 256 0, cat_buf = replicate (CAT_CHUNK + 1) 0, screen = []\<rparr>"

section \<open>Helpers\<close>

text \<open>Reads of a buffer are \<open>None\<close> past its end.\<close>

definition slice :: "nat \<Rightarrow> nat \<Rightarrow> bytes \<Rightarrow> bytes option" where
  "slice off n buf = (if off + n \<le> length buf then Some (take n (drop off buf)) else None)"

definition get_u32 :: "bytes \<Rightarrow> nat \<Rightarrow> u32 option" where
  "get_u32 buf off = map_option le_word (slice off 4 buf)"

definition get_u16 :: "bytes \<Rightarrow> nat \<Rightarrow> u16 option" where
  "get_u16 buf off = map_option le_word (slice off 2 buf)"

definition get_u8 :: "bytes \<Rightarrow> nat \<Rightarrow> u8 option" where
  "get_u8 buf off = (if off < length buf then Some (buf ! off) else None)"

text \<open>The first string is read from a buffer, the second ends with its list.\<close>

fun xstrncmp :: "bytes \<Rightarrow> bytes \<Rightarrow> nat \<Rightarrow> int option" where
  "xstrncmp a b 0 = Some 0"
| "xstrncmp [] b (Suc n) = None"
| "xstrncmp (x # a) b (Suc n) =
     (let y = (case b of [] \<Rightarrow> 0 | y # _ \<Rightarrow> y)
      in if x \<noteq> 0 \<and> y \<noteq> 0 \<and> x = y then xstrncmp a (drop 1 b) n else Some (uint x - uint y))"

fun itoa_digits :: "nat \<Rightarrow> bytes" where
  "itoa_digits n = (if n < 10 then [0x30 + word_of_nat n] else itoa_digits (n div 10) @ [0x30 + word_of_nat (n mod 10)])"

declare itoa_digits.simps [simp del]

definition itoa :: "u32 \<Rightarrow> bytes" where
  "itoa n = itoa_digits (unat n)"

definition print :: "bytes \<Rightarrow> ext2 \<Rightarrow> ext2" where
  "print str s = s\<lparr>screen := screen s @ cstr str\<rparr>"

definition print_uint :: "u32 \<Rightarrow> ext2 \<Rightarrow> ext2" where
  "print_uint n s = print (itoa n) s"

abbreviation lf :: bytes where "lf \<equiv> [0x0A]"

section \<open>Sectors and blocks\<close>

text \<open>The flag is true when the C function returns 0.\<close>

fun read_from :: "disk \<Rightarrow> u32 \<Rightarrow> nat list \<Rightarrow> bytes \<Rightarrow> bool \<times> bytes" where
  "read_from d lba [] buf = (True, buf)"
| "read_from d lba (i # is) buf =
     (case ata_read_sector (unat (lba + word_of_nat i)) d of
        None \<Rightarrow> (False, buf)
      | Some sec \<Rightarrow> read_from d lba is (write_at (i * 512) sec buf))"

definition read_sectors :: "disk \<Rightarrow> u32 \<Rightarrow> u32 \<Rightarrow> bytes \<Rightarrow> bool \<times> bytes" where
  "read_sectors d lba count buf = read_from d lba [0..<unat count] buf"

definition ext2_read_block :: "disk \<Rightarrow> u32 \<Rightarrow> u32 \<Rightarrow> bytes \<Rightarrow> bool \<times> bytes" where
  "ext2_read_block d bs blk buf =
     (if blk = 0 then (True, write_at 0 (replicate (unat bs) 0) buf)
      else let sectors_per_block = bs div 512; lba = blk * sectors_per_block
           in read_sectors d lba sectors_per_block buf)"

section \<open>Mounting\<close>

text \<open>A shift of a 32-bit value by 32 or more is undefined in C; the processor takes the distance modulo 32.\<close>

definition ext2_mount :: "disk \<Rightarrow> ext2 \<Rightarrow> (bool \<times> ext2) option" where
  "ext2_mount d s =
     (let s = s\<lparr>g_mounted := False\<rparr>
      in if \<not> ata_disk_present d then Some (False, print (bstr ''ext2: ATA disk tidak ditemukan'' @ lf) s)
      else let (ok, buf) = read_sectors d 2 2 (g_sb_buf s); s = s\<lparr>g_sb_buf := buf\<rparr>
      in if \<not> ok then Some (False, print (bstr ''ext2: gagal baca superblock'' @ lf) s)
      else do {
        magic \<leftarrow> get_u16 buf 56;
        if magic \<noteq> EXT2_MAGIC then Some (False, print (bstr ''ext2: magic tidak cocok (bukan EXT2 atau disk kosong)'' @ lf) s)
        else do {
          log_bs \<leftarrow> get_u32 buf 24;
          let s = s\<lparr>g_block_size := push_bit (unat log_bs mod 32) 1024\<rparr>;
          if g_block_size s > word_of_nat EXT2_MAX_BLOCK then Some (False, print (bstr ''ext2: block size terlalu besar'' @ lf) s)
          else do {
            bpg \<leftarrow> get_u32 buf 32;
            ipg \<leftarrow> get_u32 buf 40;
            rev \<leftarrow> get_u32 buf 76;
            isz \<leftarrow> get_u16 buf 88;
            let sz = (if rev \<ge> 1 then (if isz \<noteq> 0 then ucast isz else 128) else 128);
            let s = s\<lparr>g_blocks_per_grp := bpg, g_inodes_per_grp := ipg, g_inode_size := (if sz > 256 then 256 else sz),
                      g_bgdt_block := (if g_block_size s = 1024 then 2 else 1), g_mounted := True\<rparr>;
            let s = print_uint (g_block_size s) (print (bstr ''ext2: mounted OK  blksz='') s);
            let s = print_uint (g_inode_size s) (print (bstr ''  inosz='') s);
            let s = print_uint (g_inodes_per_grp s) (print (bstr ''  ino/grp='') s);
            Some (True, print lf s)
          }
        }
      })"

definition ext2_is_mounted :: "ext2 \<Rightarrow> bool" where "ext2_is_mounted s = g_mounted s"

section \<open>Inodes\<close>

definition read_bgd :: "disk \<Rightarrow> u32 \<Rightarrow> ext2 \<Rightarrow> (bytes option \<times> ext2) option" where
  "read_bgd d grp s =
     (let byte_off = grp * 32; bs = g_block_size s
      in if bs = 0 then None
      else let (ok, buf) = ext2_read_block d bs (g_bgdt_block s + byte_off div bs) (g_block_buf s);
               s = s\<lparr>g_block_buf := buf\<rparr>
      in if \<not> ok then Some (None, s)
      else do { bgd \<leftarrow> slice (unat (byte_off mod bs)) 32 buf; Some (Some bgd, s) })"

definition read_inode :: "disk \<Rightarrow> u32 \<Rightarrow> ext2 \<Rightarrow> (bool \<times> ext2) option" where
  "read_inode d ino s =
     (if ino = 0 \<or> g_inodes_per_grp s = 0 then Some (False, s)
      else let grp = (ino - 1) div g_inodes_per_grp s; idx = (ino - 1) mod g_inodes_per_grp s
      in do {
        (bgd, s) \<leftarrow> read_bgd d grp s;
        case bgd of None \<Rightarrow> Some (False, s)
        | Some bgd \<Rightarrow> do {
            itable \<leftarrow> get_u32 bgd 8;
            let byte_off = idx * g_inode_size s;
            let bs = g_block_size s;
            let (ok, buf) = ext2_read_block d bs (itable + byte_off div bs) (g_block_buf s);
            let s = s\<lparr>g_block_buf := buf\<rparr>;
            if \<not> ok then Some (False, s)
            else do {
              i \<leftarrow> slice (unat (byte_off mod bs)) (unat (if g_inode_size s < 256 then g_inode_size s else 256)) buf;
              Some (True, s\<lparr>g_inode_buf := write_at 0 i (g_inode_buf s)\<rparr>)
            }
          }
      })"

definition inode_get_block :: "disk \<Rightarrow> u32 \<Rightarrow> ext2 \<Rightarrow> (u32 \<times> ext2) option" where
  "inode_get_block d idx s =
     (let bs = g_block_size s; ptrs_per_block = bs div 4; direct = 12
      in if idx < direct then do { b \<leftarrow> get_u32 (g_inode_buf s) (INO_BLOCK + unat idx * 4); Some (b, s) }
      else let idx = idx - direct
      in if idx < ptrs_per_block then do {
           indir \<leftarrow> get_u32 (g_inode_buf s) (INO_BLOCK + 12 * 4);
           if indir = 0 then Some (0, s)
           else let (ok, buf) = ext2_read_block d bs indir (g_indir_buf s); s = s\<lparr>g_indir_buf := buf\<rparr>
           in if \<not> ok then Some (0, s)
           else do { b \<leftarrow> get_u32 buf (unat idx * 4); Some (b, s) } }
      else let idx = idx - ptrs_per_block
      in if idx < ptrs_per_block * ptrs_per_block then do {
           dindir \<leftarrow> get_u32 (g_inode_buf s) (INO_BLOCK + 13 * 4);
           if dindir = 0 then Some (0, s)
           else let (ok, buf) = ext2_read_block d bs dindir (g_indir_buf s); s = s\<lparr>g_indir_buf := buf\<rparr>
           in if \<not> ok then Some (0, s)
           else do {
             l1 \<leftarrow> get_u32 buf (unat (idx div ptrs_per_block) * 4);
             if l1 = 0 then Some (0, s)
             else let (ok, buf) = ext2_read_block d bs l1 (indir2 s); s = s\<lparr>indir2 := buf\<rparr>
             in if \<not> ok then Some (0, s)
             else do { b \<leftarrow> get_u32 buf (unat (idx mod ptrs_per_block) * 4); Some (b, s) } } }
      else Some (0, s))"

text \<open>The bytes that \<open>inode_read\<close> has stored so far are its accumulator.\<close>

definition next_chunk :: "u32 \<Rightarrow> u32 \<Rightarrow> u32 \<Rightarrow> u32" where
  "next_chunk bs offset end =
     (let chunk = bs - offset mod bs in if chunk > end - offset then end - offset else chunk)"

lemma next_chunk_bounds:
  assumes "offset < end" "bs \<noteq> 0"
  shows "0 < unat (next_chunk bs offset end)" "unat (next_chunk bs offset end) \<le> unat end - unat offset"
    "unat (next_chunk bs offset end) \<le> unat bs - unat offset mod unat bs"
    "unat (offset + next_chunk bs offset end) = unat offset + unat (next_chunk bs offset end)"
proof -
  let ?c = "next_chunk bs offset end"
  have "0 < unat bs" using assms(2) by (simp add: unat_gt_0)
  then have m: "unat (bs - offset mod bs) = unat bs - unat offset mod unat bs" "unat offset mod unat bs < unat bs"
    using assms(2) by (simp_all add: unat_sub word_mod_less_divisor less_imp_le word_neq_0_conv unat_mod)
  have e: "unat (end - offset) = unat end - unat offset" "unat offset < unat end"
    using assms(1) by (simp_all add: unat_sub word_less_nat_alt less_imp_le)
  have c: "unat ?c = min (unat bs - unat offset mod unat bs) (unat end - unat offset)"
    using m e by (auto simp: next_chunk_def Let_def word_less_nat_alt min_def)
  show "0 < unat ?c" "unat ?c \<le> unat end - unat offset" "unat ?c \<le> unat bs - unat offset mod unat bs"
    using m(2) e(2) c by auto
  have "unat offset + unat ?c < 2 ^ 32" using c e(2) unsigned_less [of "end", where 'a = nat] by simp
  then show "unat (offset + ?c) = unat offset + unat ?c" by (simp add: unat_word_ariths)
qed

function inode_read_loop :: "disk \<Rightarrow> u32 \<Rightarrow> u32 \<Rightarrow> bytes \<Rightarrow> ext2 \<Rightarrow> (bytes \<times> ext2) option" where
  "inode_read_loop d end offset acc s =
     (if offset < end then
        (let bs = g_block_size s in if bs = 0 then None else
         let chunk = next_chunk bs offset end in do {
          (blk_no, s) \<leftarrow> inode_get_block d (offset div bs) s;
          if blk_no = 0 then inode_read_loop d end (offset + chunk) (acc @ replicate (unat chunk) 0) s
          else let (ok, buf) = ext2_read_block d bs blk_no (g_dir_buf s); s = s\<lparr>g_dir_buf := buf\<rparr>
          in if \<not> ok then Some (acc, s)
          else do {
            b \<leftarrow> slice (unat (offset mod bs)) (unat chunk) buf;
            inode_read_loop d end (offset + chunk) (acc @ b) s
          }
        })
      else Some (acc, s))"
  by pat_completeness auto
termination
proof (relation "measure (\<lambda>(d, end, offset, acc, s). unat end - unat offset)", goal_cases)
  case 1 show ?case by simp
next
  case (2 d "end" offset) then show ?case using next_chunk_bounds [of offset "end"] by fastforce
next
  case (3 d "end" offset) then show ?case using next_chunk_bounds [of offset "end"] by fastforce
qed

declare inode_read_loop.simps [simp del]

definition inode_read :: "disk \<Rightarrow> u32 \<Rightarrow> u32 \<Rightarrow> u32 \<Rightarrow> ext2 \<Rightarrow> (bytes \<times> ext2) option" where
  "inode_read d file_size offset len s =
     (let end = offset + len; end = (if end > file_size then file_size else end)
      in if offset \<ge> end then Some ([], s) else inode_read_loop d end offset [] s)"

section \<open>The contract of block reads\<close>

text \<open>A device of blocks of one size, read into the front of a buffer that is large enough.\<close>

locale block_reader =
  fixes good :: "'d \<Rightarrow> 'b \<Rightarrow> bool"
    and bsize :: "'d \<Rightarrow> nat"
    and rd :: "'d \<Rightarrow> 'b \<Rightarrow> bytes \<Rightarrow> bool \<times> bytes"
    and content :: "'d \<Rightarrow> 'b \<Rightarrow> bytes"
  assumes rd_law: "good d b \<Longrightarrow> bsize d \<le> length buf \<Longrightarrow> rd d b buf = (True, write_at 0 (content d b) buf)"
    and content_length: "good d b \<Longrightarrow> length (content d b) = bsize d"
begin

lemma rd_cases:
  assumes "good d b" "bsize d \<le> length buf"
  obtains buf' where "rd d b buf = (True, buf')" "length buf' = length buf" "take (bsize d) buf' = content d b"
proof
  show "rd d b buf = (True, write_at 0 (content d b) buf)" by (rule rd_law [OF assms])
  show "length (write_at 0 (content d b) buf) = length buf" using assms content_length by simp
  show "take (bsize d) (write_at 0 (content d b) buf) = content d b"
    using take_write_at [of 0 "content d b" buf] assms content_length by simp
qed

end

definition ext2_sector :: "u32 \<Rightarrow> u32 \<Rightarrow> nat \<Rightarrow> nat" where
  "ext2_sector bs blk i = unat (blk * (bs div 512) + word_of_nat i)"

definition block_content :: "disk \<Rightarrow> u32 \<Rightarrow> u32 \<Rightarrow> bytes" where
  "block_content d bs blk =
     (if blk = 0 then replicate (unat bs) 0
      else concat (map (\<lambda>i. sectors d (ext2_sector bs blk i)) [0..<unat (bs div 512)]))"

definition block_readable :: "disk \<Rightarrow> u32 \<Rightarrow> u32 \<Rightarrow> bool" where
  "block_readable d bs blk \<longleftrightarrow> blk = 0 \<or> (\<forall>i\<in>set [0..<unat (bs div 512)]. ata_access (ext2_sector bs blk i) d)"

definition valid_bs :: "u32 \<Rightarrow> bool" where
  "valid_bs bs \<longleftrightarrow> bs = 1024 \<or> bs = 2048 \<or> bs = 4096"

lemma read_from_append:
  "read_from d lba (is @ js) buf = (case read_from d lba is buf of (ok, buf) \<Rightarrow> if ok then read_from d lba js buf else (False, buf))"
  by (induction "is" arbitrary: buf) (auto split: option.splits)

lemma length_concat_sectors: "sectors_full d \<Longrightarrow> length (concat (map (\<lambda>i. sectors d (f i)) [0..<n])) = n * 512"
  by (induction n) (simp_all add: sectors_full_def)

lemma write_at_append:
  "pos + length a + length b \<le> length buf \<Longrightarrow> write_at (pos + length a) b (write_at pos a buf) = write_at pos (a @ b) buf"
  by (simp add: write_at_def ac_simps)

lemma read_from_all:
  assumes "sectors_full d" "n * 512 \<le> length buf" "\<forall>i<n. ata_access (unat (lba + word_of_nat i)) d"
  shows "read_from d lba [0..<n] buf = (True, write_at 0 (concat (map (\<lambda>i. sectors d (unat (lba + word_of_nat i))) [0..<n])) buf)"
  using assms(2,3)
proof (induction n)
  case (Suc n)
  let ?c = "concat (map (\<lambda>i. sectors d (unat (lba + word_of_nat i))) [0..<n])"
  have "length ?c = n * 512" using length_concat_sectors [OF assms(1)] .
  then have "write_at (n * 512) b (write_at 0 ?c buf) = write_at 0 (?c @ b) buf" if "length b = 512" for b
    using write_at_append [of 0 ?c b buf] that Suc.prems(1) by simp
  with Suc assms(1) show ?case
    by (simp add: read_from_append ata_read_sector_def sectors_full_def)
qed (simp add: write_at_def)

interpretation blk: block_reader "\<lambda>(d, bs) b. sectors_full d \<and> valid_bs bs \<and> block_readable d bs b"
  "\<lambda>(d, bs). unat bs" "\<lambda>(d, bs). ext2_read_block d bs" "\<lambda>(d, bs). block_content d bs"
proof (unfold_locales, goal_cases)
  case (1 p b buf)
  obtain d bs where p: "p = (d, bs)" by fastforce
  have n: "unat (bs div 512) * 512 = unat bs" using 1(1) by (auto simp: p valid_bs_def)
  then show ?case
    using 1 read_from_all [of d "unat (bs div 512)" buf "b * (bs div 512)"]
    by (auto simp: p ext2_read_block_def read_sectors_def block_content_def block_readable_def ext2_sector_def Let_def)
next
  case (2 p b)
  obtain d bs where p: "p = (d, bs)" by fastforce
  have n: "unat (bs div 512) * 512 = unat bs" using 2 by (auto simp: p valid_bs_def)
  then show ?case using 2 length_concat_sectors by (simp add: p block_content_def)
qed

section \<open>The map of a file\<close>

text \<open>
  Block \<open>i\<close> of a file is reached from one of the pointers of the inode through blocks of pointers:
  the first 12 directly, the others by way of one or two such blocks. A pointer 0 is a hole.
\<close>

definition ptr_at :: "bytes \<Rightarrow> nat \<Rightarrow> u32" where
  "ptr_at b k = le_word (take 4 (drop (k * 4) b))"

definition block_path :: "nat \<Rightarrow> nat \<Rightarrow> (nat \<times> nat list) option" where
  "block_path n i =
     (if i < 12 then Some (i, [])
      else if i < 12 + n then Some (12, [i - 12])
      else if i < 12 + n + n * n then Some (13, [(i - 12 - n) div n, (i - 12 - n) mod n])
      else None)"

definition inode_ptr :: "bytes \<Rightarrow> nat \<Rightarrow> u32" where
  "inode_ptr inode k = ptr_at (drop INO_BLOCK inode) k"

definition logical_block :: "disk \<Rightarrow> u32 \<Rightarrow> bytes \<Rightarrow> nat \<Rightarrow> u32" where
  "logical_block d bs inode i =
     (case block_path (unat (bs div 4)) i of None \<Rightarrow> 0
      | Some (r, ks) \<Rightarrow> foldl (\<lambda>b k. ptr_at (block_content d bs b) k) (inode_ptr inode r) ks)"

text \<open>The blocks of pointers on the way can be read.\<close>

fun path_readable :: "disk \<Rightarrow> u32 \<Rightarrow> u32 \<Rightarrow> nat list \<Rightarrow> bool" where
  "path_readable d bs b [] = True"
| "path_readable d bs b (k # ks) = (block_readable d bs b \<and> path_readable d bs (ptr_at (block_content d bs b) k) ks)"

definition map_readable :: "disk \<Rightarrow> u32 \<Rightarrow> bytes \<Rightarrow> nat \<Rightarrow> bool" where
  "map_readable d bs inode i =
     (case block_path (unat (bs div 4)) i of None \<Rightarrow> True | Some (r, ks) \<Rightarrow> path_readable d bs (inode_ptr inode r) ks)"

definition ext2_ok :: "ext2 \<Rightarrow> bool" where
  "ext2_ok s \<longleftrightarrow> valid_bs (g_block_size s) \<and> length (g_block_buf s) = EXT2_MAX_BLOCK \<and> length (g_inode_buf s) = 256 \<and>
     length (g_indir_buf s) = EXT2_MAX_BLOCK \<and> length (indir2 s) = EXT2_MAX_BLOCK \<and> length (g_dir_buf s) = EXT2_MAX_BLOCK \<and>
     length (find_save s) = 256 \<and> length (ls_save s) = 256 \<and> length (cat_save s) = 256 \<and> length (cat_buf s) = CAT_CHUNK + 1"

text \<open>States that differ in the scratch buffers of the block map only.\<close>

definition indir_frame :: "ext2 \<Rightarrow> ext2 \<Rightarrow> bool" where
  "indir_frame s s' \<longleftrightarrow> length (g_indir_buf s') = EXT2_MAX_BLOCK \<and> length (indir2 s') = EXT2_MAX_BLOCK \<and>
     s' = s\<lparr>g_indir_buf := g_indir_buf s', indir2 := indir2 s'\<rparr>"

lemma valid_bs_cases [consumes 1]:
  assumes "valid_bs bs"
  shows "unat bs \<le> EXT2_MAX_BLOCK" "unat (bs div 4) * 4 = unat bs" "0 < unat (bs div 4)" "unat (bs div 4) \<le> 1024" "bs \<noteq> 0"
    "unat (bs div 4 * (bs div 4)) = unat (bs div 4) * unat (bs div 4)"
  using assms by (auto simp: valid_bs_def EXT2_MAX_BLOCK_def)

lemma get_u32_ptr:
  assumes "take m buf = c" "length c = m" "k * 4 + 4 \<le> m"
  shows "get_u32 buf (k * 4) = Some (ptr_at c k)"
proof -
  have "m \<le> length buf" using assms(1,2) by auto
  moreover have "take 4 (drop (k * 4) c) = take 4 (drop (k * 4) buf)"
    using assms(3) unfolding assms(1) [symmetric] by (simp add: drop_take min_def)
  ultimately show ?thesis using assms(3) by (simp add: get_u32_def slice_def ptr_at_def)
qed

lemma get_u32_inode: "length inode = 256 \<Longrightarrow> k < 15 \<Longrightarrow> get_u32 inode (INO_BLOCK + k * 4) = Some (inode_ptr inode k)"
  by (simp add: get_u32_def slice_def inode_ptr_def ptr_at_def INO_BLOCK_def add.commute)

lemma ptr_at_hole [simp]: "ptr_at (block_content d bs 0) k = 0"
  by (simp add: ptr_at_def block_content_def take_replicate drop_replicate le_word_zeros)

lemma indir_frame_refl: "ext2_ok s \<Longrightarrow> indir_frame s s"
  by (simp add: indir_frame_def ext2_ok_def)

text \<open>A block of pointers, read into either of the scratch buffers.\<close>

lemma read_ptr:
  assumes "sectors_full d" "valid_bs bs" "block_readable d bs b" "length buf = EXT2_MAX_BLOCK" "k < unat (bs div 4)"
  obtains buf' where "ext2_read_block d bs b buf = (True, buf')" "length buf' = EXT2_MAX_BLOCK"
    "get_u32 buf' (k * 4) = Some (ptr_at (block_content d bs b) k)"
proof -
  obtain buf' where b: "ext2_read_block d bs b buf = (True, buf')" "length buf' = length buf" "take (unat bs) buf' = block_content d bs b"
    using blk.rd_cases [of "(d, bs)" b buf] assms(1-4) valid_bs_cases(1) [OF assms(2)] by auto
  have "length (block_content d bs b) = unat bs" using blk.content_length [of "(d, bs)" b] assms(1-3) by simp
  then have "get_u32 buf' (k * 4) = Some (ptr_at (block_content d bs b) k)"
    using b(3) assms(5) valid_bs_cases(2) [OF assms(2)] by (intro get_u32_ptr [of "unat bs"]) auto
  with b(1,2) assms(4) show ?thesis by (intro that) auto
qed

lemma inode_get_block_eq:
  assumes "ext2_ok s" "sectors_full d" "map_readable d (g_block_size s) (g_inode_buf s) (unat idx)"
  shows "\<exists>s'. inode_get_block d idx s = Some (logical_block d (g_block_size s) (g_inode_buf s) (unat idx), s') \<and> indir_frame s s'"
proof -
  define bs n where "bs = g_block_size s" and "n = unat (bs div 4)"
  have ok: "valid_bs bs" "length (g_inode_buf s) = 256" "length (g_indir_buf s) = EXT2_MAX_BLOCK" "length (indir2 s) = EXT2_MAX_BLOCK"
    using assms(1) by (simp_all add: ext2_ok_def bs_def)
  note v = valid_bs_cases [OF ok(1), folded n_def]
  have sub: "unat (idx - 12) = unat idx - 12" if "12 \<le> unat idx"
    using that by (simp add: unat_sub word_le_nat_alt)
  have sub2: "unat (idx - 12 - bs div 4) = unat idx - 12 - n" if "12 + n \<le> unat idx"
    using that sub by (simp add: unat_sub word_le_nat_alt n_def [symmetric])
  consider "unat idx < 12" | "12 \<le> unat idx" "unat idx < 12 + n" | "12 + n \<le> unat idx" "unat idx < 12 + n + n * n"
    | "12 + n + n * n \<le> unat idx" by linarith
  then show ?thesis
  proof cases
    case 1
    then show ?thesis
      using assms(1) ok(2) indir_frame_refl
      by (auto simp: inode_get_block_def logical_block_def block_path_def word_less_nat_alt get_u32_inode)
  next
    case 2
    let ?p = "inode_ptr (g_inode_buf s) 12"
    have l: "logical_block d bs (g_inode_buf s) (unat idx) = ptr_at (block_content d bs ?p) (unat idx - 12)"
      and r: "block_readable d bs ?p"
      using 2 assms(3) by (simp_all add: logical_block_def block_path_def map_readable_def n_def [symmetric] bs_def [symmetric])
    have k: "unat idx - 12 < unat (bs div 4)" using 2 n_def by linarith
    obtain buf where b: "ext2_read_block d bs ?p (g_indir_buf s) = (True, buf)" "length buf = EXT2_MAX_BLOCK"
        "get_u32 buf ((unat idx - 12) * 4) = Some (ptr_at (block_content d bs ?p) (unat idx - 12))"
      by (rule read_ptr [OF assms(2) ok(1) r ok(3) k])
    show ?thesis
      using 2 l b sub get_u32_inode [OF ok(2), of 12] indir_frame_refl [OF assms(1)] ok(4)
      by (auto simp: inode_get_block_def Let_def word_less_nat_alt bs_def [symmetric] n_def [symmetric] indir_frame_def)
  next
    case 3
    let ?p = "inode_ptr (g_inode_buf s) 13" and ?i = "unat idx - 12 - n"
    let ?q = "ptr_at (block_content d bs ?p) (?i div n)"
    have l: "logical_block d bs (g_inode_buf s) (unat idx) = ptr_at (block_content d bs ?q) (?i mod n)"
      and r: "block_readable d bs ?p" "block_readable d bs ?q"
      using 3 assms(3) by (simp_all add: logical_block_def block_path_def map_readable_def n_def [symmetric] bs_def [symmetric])
    have k: "?i div n < unat (bs div 4)" "?i mod n < unat (bs div 4)"
      using 3 v(3) unfolding n_def [symmetric] by (simp_all add: less_mult_imp_div_less)
    obtain buf where b: "ext2_read_block d bs ?p (g_indir_buf s) = (True, buf)" "length buf = EXT2_MAX_BLOCK"
        "get_u32 buf ((?i div n) * 4) = Some ?q"
      by (rule read_ptr [OF assms(2) ok(1) r(1) ok(3) k(1)])
    obtain buf2 where b2: "ext2_read_block d bs ?q (indir2 s) = (True, buf2)" "length buf2 = EXT2_MAX_BLOCK"
        "get_u32 buf2 ((?i mod n) * 4) = Some (ptr_at (block_content d bs ?q) (?i mod n))"
      by (rule read_ptr [OF assms(2) ok(1) r(2) ok(4) k(2)])
    have "unat ((idx - 12 - bs div 4) div (bs div 4)) = ?i div n" "unat ((idx - 12 - bs div 4) mod (bs div 4)) = ?i mod n"
      using sub2 [OF 3(1)] unfolding unat_div [of "idx - 12 - bs div 4"] unat_mod [of "idx - 12 - bs div 4"] n_def by simp_all
    then show ?thesis
      using 3 l b b2 sub sub2 get_u32_inode [OF ok(2), of 13] indir_frame_refl [OF assms(1)] ok(3,4) v(6)
      by (auto simp: inode_get_block_def Let_def word_less_nat_alt bs_def [symmetric] n_def [symmetric] indir_frame_def)
  next
    case 4
    then have "logical_block d bs (g_inode_buf s) (unat idx) = 0" by (simp add: logical_block_def block_path_def n_def [symmetric])
    then show ?thesis
      using 4 sub sub2 indir_frame_refl [OF assms(1)] v(6)
      by (auto simp: inode_get_block_def Let_def word_less_nat_alt bs_def [symmetric] n_def [symmetric])
  qed
qed

section \<open>Reading a file\<close>

definition file_byte :: "disk \<Rightarrow> u32 \<Rightarrow> bytes \<Rightarrow> nat \<Rightarrow> u8" where
  "file_byte d bs inode off = block_content d bs (logical_block d bs inode (off div unat bs)) ! (off mod unat bs)"

definition byte_readable :: "disk \<Rightarrow> u32 \<Rightarrow> bytes \<Rightarrow> nat \<Rightarrow> bool" where
  "byte_readable d bs inode off \<longleftrightarrow> map_readable d bs inode (off div unat bs) \<and>
     block_readable d bs (logical_block d bs inode (off div unat bs))"

definition data_frame :: "ext2 \<Rightarrow> ext2 \<Rightarrow> bool" where
  "data_frame s s' \<longleftrightarrow> length (g_indir_buf s') = EXT2_MAX_BLOCK \<and> length (indir2 s') = EXT2_MAX_BLOCK \<and>
     length (g_dir_buf s') = EXT2_MAX_BLOCK \<and>
     s' = s\<lparr>g_indir_buf := g_indir_buf s', indir2 := indir2 s', g_dir_buf := g_dir_buf s'\<rparr>"

lemma indir_data_frame: "ext2_ok s \<Longrightarrow> indir_frame s s' \<Longrightarrow> length buf = EXT2_MAX_BLOCK \<Longrightarrow> data_frame s (s'\<lparr>g_dir_buf := buf\<rparr>)"
  by (cases s; cases s') (simp add: indir_frame_def data_frame_def)

lemma data_frame_indir: "ext2_ok s \<Longrightarrow> indir_frame s s' \<Longrightarrow> data_frame s s'"
  by (cases s; cases s') (simp add: indir_frame_def data_frame_def ext2_ok_def)

lemma data_frame_trans: "data_frame s t \<Longrightarrow> data_frame t u \<Longrightarrow> data_frame s u"
  by (cases s; cases t; cases u) (simp add: data_frame_def)

lemma data_frame_ok: "ext2_ok s \<Longrightarrow> data_frame s s' \<Longrightarrow> ext2_ok s'"
  by (cases s; cases s') (simp add: data_frame_def ext2_ok_def)

lemma data_frame_same: "data_frame s s' \<Longrightarrow> g_block_size s' = g_block_size s" "data_frame s s' \<Longrightarrow> g_inode_buf s' = g_inode_buf s"
  by (cases s; cases s'; simp add: data_frame_def)+

lemma add_within_block:
  assumes "m mod b + j < (b :: nat)"
  shows "(m + j) mod b = m mod b + j" "(m + j) div b = m div b"
proof -
  have "m + j = (m mod b + j) + b * (m div b)" by simp
  with assms show "(m + j) mod b = m mod b + j" "(m + j) div b = m div b"
    by (metis mod_mult_self2 mod_less) (metis \<open>m + j = _\<close> assms div_mult_self2 div_less add.right_neutral not_less_zero)
qed

lemma chunk_bytes:
  assumes "length (block_content d bs (logical_block d bs inode (off div unat bs))) = unat bs" "off mod unat bs + n \<le> unat bs"
  shows "take n (drop (off mod unat bs) (block_content d bs (logical_block d bs inode (off div unat bs)))) =
    map (file_byte d bs inode) [off..<off + n]"
proof (rule nth_equalityI)
  fix j assume "j < length (take n (drop (off mod unat bs) (block_content d bs (logical_block d bs inode (off div unat bs)))))"
  then have "j < n" by simp
  then have "off mod unat bs + j < unat bs" using assms(2) by linarith
  then have "(off + j) mod unat bs = off mod unat bs + j" "(off + j) div unat bs = off div unat bs"
    by (rule add_within_block)+
  then show "take n (drop (off mod unat bs) (block_content d bs (logical_block d bs inode (off div unat bs)))) ! j =
      map (file_byte d bs inode) [off..<off + n] ! j"
    using \<open>j < n\<close> assms by (simp add: file_byte_def)
qed (use assms in simp)

text \<open>One turn of the loop appends the bytes of one chunk.\<close>

lemma inode_read_turn:
  assumes "ext2_ok s" "sectors_full d" "byte_readable d (g_block_size s) (g_inode_buf s) (unat offset)" "offset < end"
  shows "\<exists>t. data_frame s t \<and> inode_read_loop d end offset acc s =
    inode_read_loop d end (offset + next_chunk (g_block_size s) offset end)
      (acc @ map (file_byte d (g_block_size s) (g_inode_buf s))
         [unat offset..<unat offset + unat (next_chunk (g_block_size s) offset end)]) t"
proof -
  define bs ino where "bs = g_block_size s" and "ino = g_inode_buf s"
  let ?c = "next_chunk bs offset end" and ?l = "logical_block d bs ino (unat offset div unat bs)"
  have v: "valid_bs bs" "bs \<noteq> 0" using assms(1) valid_bs_cases(5) by (simp_all add: ext2_ok_def bs_def)
  have rd: "map_readable d bs ino (unat offset div unat bs)" "block_readable d bs ?l"
    using assms(3) by (simp_all add: byte_readable_def bs_def ino_def)
  obtain s1 where s1: "inode_get_block d (offset div bs) s = Some (?l, s1)" "indir_frame s s1"
    using inode_get_block_eq [OF assms(1,2), of "offset div bs"] rd(1) by (auto simp: unat_div bs_def ino_def)
  have len: "length (block_content d bs ?l) = unat bs" using blk.content_length [of "(d, bs)" ?l] assms(2) v(1) rd(2) by simp
  have fit: "unat offset mod unat bs + unat ?c \<le> unat bs"
    using next_chunk_bounds(3) [OF assms(4) v(2)] mod_less_divisor [of "unat bs" "unat offset"] v(2) unat_gt_0 [of bs] by linarith
  note chunk = chunk_bytes [OF len fit]
  note unfold = inode_read_loop.simps [of d "end" offset acc s] bs_def [symmetric] ino_def [symmetric]
  show ?thesis
  proof (cases "?l = 0")
    case True
    have "replicate (unat ?c) 0 = map (file_byte d bs ino) [unat offset..<unat offset + unat ?c]"
      using fit unfolding chunk [symmetric] True by (simp add: block_content_def)
    then show ?thesis
      using assms(4) v(2) s1(1) True data_frame_indir [OF assms(1) s1(2)]
      by (intro exI [of _ s1]) (simp add: unfold Let_def)
  next
    case False
    have "length (g_dir_buf s1) = EXT2_MAX_BLOCK" using assms(1) s1(2) by (cases s; cases s1) (simp add: indir_frame_def ext2_ok_def)
    then obtain buf where b: "ext2_read_block d bs ?l (g_dir_buf s1) = (True, buf)" "length buf = EXT2_MAX_BLOCK"
        "take (unat bs) buf = block_content d bs ?l"
      using blk.rd_cases [of "(d, bs)" ?l "g_dir_buf s1"] assms(2) v(1) rd(2) valid_bs_cases(1) [OF v(1)] by auto
    have "slice (unat (offset mod bs)) (unat ?c) buf = Some (map (file_byte d bs ino) [unat offset..<unat offset + unat ?c])"
      using fit b(2) valid_bs_cases(1) [OF v(1)] unfolding chunk [symmetric] b(3) [symmetric]
      by (simp add: slice_def unat_mod drop_take min_def)
    then show ?thesis
      using assms(4) v(2) s1(1) False b(1) indir_data_frame [OF assms(1) s1(2) b(2)]
      by (intro exI [of _ "s1\<lparr>g_dir_buf := buf\<rparr>"]) (simp add: unfold Let_def)
  qed
qed

lemma upt_join: "i \<le> j \<Longrightarrow> j \<le> k \<Longrightarrow> [i..<j] @ [j..<k] = [i..<k]"
  using upt_add_eq_append [of i j "k - j"] by simp

lemma inode_read_loop_eq:
  assumes "ext2_ok s" "sectors_full d" "unat offset \<le> unat end"
    "\<forall>off\<in>{unat offset..<unat end}. byte_readable d (g_block_size s) (g_inode_buf s) off"
  shows "\<exists>s'. inode_read_loop d end offset acc s =
      Some (acc @ map (file_byte d (g_block_size s) (g_inode_buf s)) [unat offset..<unat end], s') \<and> data_frame s s'"
  using assms
proof (induction "unat end - unat offset" arbitrary: offset acc s rule: less_induct)
  case less
  let ?c = "next_chunk (g_block_size s) offset end" and ?f = "file_byte d (g_block_size s) (g_inode_buf s)"
  show ?case
  proof (cases "offset < end")
    case False
    then have "unat end \<le> unat offset" by (simp add: word_less_nat_alt)
    then show ?thesis
      using data_frame_indir [OF less(2) indir_frame_refl] False less(2) by (simp add: inode_read_loop.simps [of d "end"])
  next
    case True
    have lt: "unat offset < unat end" using True by (simp add: word_less_nat_alt)
    have "g_block_size s \<noteq> 0" using less(2) valid_bs_cases(5) by (simp add: ext2_ok_def)
    note nc = next_chunk_bounds [OF True this]
    have br: "byte_readable d (g_block_size s) (g_inode_buf s) (unat offset)" using less(5) lt by simp
    obtain t where t: "data_frame s t" "inode_read_loop d end offset acc s =
        inode_read_loop d end (offset + ?c) (acc @ map ?f [unat offset..<unat offset + unat ?c]) t"
      using inode_read_turn [OF less(2,3) br True, of acc] by (elim exE conjE) (rule that)
    have "\<exists>s'. inode_read_loop d end (offset + ?c) (acc @ map ?f [unat offset..<unat offset + unat ?c]) t =
        Some ((acc @ map ?f [unat offset..<unat offset + unat ?c]) @ map (file_byte d (g_block_size t) (g_inode_buf t))
          [unat (offset + ?c)..<unat end], s') \<and> data_frame t s'"
      using less(5) nc lt data_frame_same [OF t(1)] by (intro less(1) data_frame_ok [OF less(2) t(1)] less(3)) auto
    moreover have "[unat offset..<unat offset + unat ?c] @ [unat offset + unat ?c..<unat end] = [unat offset..<unat end]"
      using nc(2) lt by (intro upt_join) auto
    ultimately show ?thesis
      using data_frame_trans [OF t(1)] unfolding t(2) data_frame_same [OF t(1)] nc(4) append_assoc map_append [symmetric] by auto
  qed
qed

text \<open>
  Reading from an open inode returns the bytes of the file. For a mounted volume and blocks that can
  be read, \<open>inode_read\<close> ends and returns the bytes from the offset up to the end of the file or the requested
  length, as the map of the file places them: through the direct pointers, one block of pointers or two, with
  zeros for the holes. Only the scratch buffers change. At the end of the file and past it nothing is read.
\<close>

lemma inode_read_refines:
  assumes "ext2_ok s" "sectors_full d" "unat offset + unat len < 2 ^ 32"
    "\<forall>off\<in>{unat offset..<min (unat offset + unat len) (unat fsz)}. byte_readable d (g_block_size s) (g_inode_buf s) off"
  shows "\<exists>s'. inode_read d fsz offset len s =
      Some (map (file_byte d (g_block_size s) (g_inode_buf s)) [unat offset..<min (unat offset + unat len) (unat fsz)], s') \<and> data_frame s s'"
proof -
  define e where "e = (if offset + len > fsz then fsz else offset + len)"
  have e: "unat e = min (unat offset + unat len) (unat fsz)"
    using assms(3) by (simp add: e_def word_less_nat_alt unat_word_ariths min_def)
  have r: "inode_read d fsz offset len s = (if offset \<ge> e then Some ([], s) else inode_read_loop d e offset [] s)"
    by (simp add: inode_read_def e_def Let_def)
  show ?thesis
  proof (cases "offset < e")
    case True
    then have "unat offset \<le> unat e" "\<not> offset \<ge> e" by (simp_all add: word_less_nat_alt word_le_nat_alt)
    then show ?thesis
      using inode_read_loop_eq [OF assms(1,2), of offset e "[]"] assms(4) unfolding r e [symmetric] by simp
  next
    case False
    then have "min (unat offset + unat len) (unat fsz) \<le> unat offset" unfolding e [symmetric] by (simp add: word_less_nat_alt)
    then show ?thesis
      using False data_frame_indir [OF assms(1) indir_frame_refl [OF assms(1)]] by (simp add: r not_less)
  qed
qed

text \<open>A disk of equal sectors, and a file with one block.\<close>

definition demo_disk :: disk where
  "demo_disk = \<lparr>present = True, answers = (\<lambda>_. True), sectors = (\<lambda>_. replicate 512 7)\<rparr>"

definition demo_ext2 :: ext2 where
  "demo_ext2 = ext2_boot\<lparr>g_inode_buf := replicate 40 0 @ 5 # replicate 215 0\<rparr>"

lemma demo_ext2_ok: "ext2_ok demo_ext2" "sectors_full demo_disk" "g_block_size demo_ext2 = 1024"
  by (simp_all add: ext2_ok_def demo_ext2_def ext2_boot_def valid_bs_def EXT2_MAX_BLOCK_def CAT_CHUNK_def sectors_full_def demo_disk_def)

lemma demo_file_byte:
  assumes "off < 1024"
  shows "byte_readable demo_disk 1024 (g_inode_buf demo_ext2) off" "file_byte demo_disk 1024 (g_inode_buf demo_ext2) off = 7"
proof -
  have l: "logical_block demo_disk 1024 (g_inode_buf demo_ext2) 0 = 5"
    by (simp add: logical_block_def block_path_def inode_ptr_def ptr_at_def INO_BLOCK_def demo_ext2_def le_word_Cons le_word_zeros)
  have "block_content demo_disk 1024 5 = replicate 1024 7"
    by (simp add: block_content_def demo_disk_def upt_rec replicate_add [symmetric])
  moreover have "block_readable demo_disk 1024 5"
    by (simp add: block_readable_def ata_access_def demo_disk_def ext2_sector_def ATA_LBA28_MAX_def upt_rec del: set_upt)
  ultimately show "byte_readable demo_disk 1024 (g_inode_buf demo_ext2) off" "file_byte demo_disk 1024 (g_inode_buf demo_ext2) off = 7"
    using assms l by (simp_all add: byte_readable_def file_byte_def map_readable_def block_path_def)
qed

text \<open>
  Every byte of a file is found through its block map, and reading does not depend on how it is cut. Reading
  a range in one call or in two that meet gives the same bytes, whichever blocks, holes or blocks of
  pointers the ranges cross.
\<close>

theorem inode_read_splits:
  assumes "ext2_ok s" "sectors_full d" "unat offset + (unat a + unat b) < 2 ^ 32"
    "\<forall>off<unat fsz. byte_readable d (g_block_size s) (g_inode_buf s) off"
  shows "\<exists>x y s1 s2 s3. inode_read d fsz offset a s = Some (x, s1) \<and> inode_read d fsz (offset + a) b s1 = Some (y, s2) \<and>
    inode_read d fsz offset (a + b) s = Some (x @ y, s3) \<and> data_frame s s2 \<and> data_frame s s3 \<and>
    x @ y = map (file_byte d (g_block_size s) (g_inode_buf s)) [unat offset..<min (unat offset + (unat a + unat b)) (unat fsz)]"
proof -
  let ?f = "file_byte d (g_block_size s) (g_inode_buf s)" and ?n = "unat fsz"
  have u: "unat (a + b) = unat a + unat b" "unat (offset + a) = unat offset + unat a" using assms(3) by (simp_all add: unat_word_ariths)
  obtain s1 where s1: "inode_read d fsz offset a s = Some (map ?f [unat offset..<min (unat offset + unat a) ?n], s1)" "data_frame s s1"
    using inode_read_refines [OF assms(1,2), of offset a fsz] assms(3,4) by auto
  obtain s2 where s2: "inode_read d fsz (offset + a) b s1 = Some (map ?f [unat offset + unat a..<min (unat offset + unat a + unat b) ?n], s2)" "data_frame s1 s2"
    using inode_read_refines [OF data_frame_ok [OF assms(1) s1(2)] assms(2), of "offset + a" b fsz] assms(3,4) u
    by (auto simp: data_frame_same [OF s1(2)])
  obtain s3 where s3: "inode_read d fsz offset (a + b) s = Some (map ?f [unat offset..<min (unat offset + (unat a + unat b)) ?n], s3)" "data_frame s s3"
    using inode_read_refines [OF assms(1,2), of offset "a + b" fsz] assms(3,4) u by auto
  have "[unat offset..<min (unat offset + unat a) ?n] @ [unat offset + unat a..<min (unat offset + unat a + unat b) ?n] =
      [unat offset..<min (unat offset + (unat a + unat b)) ?n]"
    by (cases "?n \<le> unat offset + unat a") (simp_all add: min_absorb2 upt_join add.assoc)
  then show ?thesis
    using s1 s2 s3 data_frame_trans [OF s1(2) s2(2)] by (auto simp: map_append [symmetric] simp del: map_append)
qed

theorem inode_read_splits_witness:
  "\<exists>x y s1 s2. inode_read demo_disk 10 6 1 demo_ext2 = Some (x, s1) \<and> inode_read demo_disk 10 7 20 s1 = Some (y, s2) \<and> x @ y = [7, 7, 7, 7]"
proof -
  have "\<forall>off<unat (10 :: u32). byte_readable demo_disk (g_block_size demo_ext2) (g_inode_buf demo_ext2) off"
    using demo_file_byte(1) by (simp add: demo_ext2_ok(3))
  from inode_read_splits [OF demo_ext2_ok(1,2) _ this, of 6 1 20] show ?thesis
    using demo_file_byte(2) by (fastforce simp: demo_ext2_ok(3) upt_rec)
qed

end
