(* ===== verification/Ext2Dir.thy ===== *)
theory Ext2Dir
  imports Ext2
begin

text \<open>
  The second half of \<open>src/kernel/ext2.c\<close>: directories, paths and the two commands, listing a directory and
  printing a file, over the block map of \<open>Ext2\<close>. A directory is given by its entries, whose encoding the
  driver walks through.
\<close>

unbundle bit_operations_syntax

section \<open>Directories\<close>

text \<open>
  The walk through one block. Positions are natural numbers: the limit is at most the size of a block and an entry
  is shorter than 65536 bytes, so the 32-bit variable does not wrap around.
\<close>

function dir_walk :: "bytes \<Rightarrow> bytes \<Rightarrow> nat \<Rightarrow> nat \<Rightarrow> u32 option" where
  "dir_walk name buf limit p =
     (if p < limit then do {
        ino \<leftarrow> get_u32 buf p;
        rec_len \<leftarrow> get_u16 buf (p + 4);
        if rec_len = 0 then Some 0
        else do {
          nlen \<leftarrow> get_u8 buf (p + 6);
          hit \<leftarrow> (if ino \<noteq> 0 \<and> nlen = word_of_nat (length name)
                  then map_option (\<lambda>c. c = 0) (xstrncmp (drop (p + 8) buf) name (length name)) else Some False);
          if hit then Some ino else dir_walk name buf limit (p + unat rec_len)
        }
      } else Some 0)"
  by pat_completeness auto
termination
  by (relation "measure (\<lambda>(name, buf, limit, p). limit - p)") (auto simp: unat_gt_0 intro!: diff_less_mono2)

declare dir_walk.simps [simp del]

partial_function (option) dir_find_loop :: "disk \<Rightarrow> bytes \<Rightarrow> u32 \<Rightarrow> u32 \<Rightarrow> ext2 \<Rightarrow> (u32 \<times> ext2) option" where
  "dir_find_loop d name dir_size offset s =
     (if offset < dir_size then
        let bs = g_block_size s in
        if bs = 0 then None
        else let blk_idx = offset div bs; blk_off = offset mod bs;
                 s = s\<lparr>g_inode_buf := find_save s\<rparr>
        in do {
          (blk_no, s) \<leftarrow> inode_get_block d blk_idx s;
          let s = s\<lparr>g_inode_buf := find_save s\<rparr>;
          if blk_no = 0 then Some (0, s)
          else let (ok, buf) = ext2_read_block d bs blk_no (g_dir_buf s); s = s\<lparr>g_dir_buf := buf\<rparr>
          in if \<not> ok then Some (0, s)
          else let block_limit = (if offset + bs > dir_size then dir_size - blk_idx * bs else bs)
          in if blk_off \<noteq> 0 then dir_find_loop d name dir_size (offset + (bs - blk_off)) s
          else do {
            ino \<leftarrow> dir_walk name buf (unat block_limit) 0;
            if ino \<noteq> 0 then Some (ino, s) else dir_find_loop d name dir_size (offset + bs) s
          }
        }
      else Some (0, s))"

definition dir_find :: "disk \<Rightarrow> u32 \<Rightarrow> bytes \<Rightarrow> ext2 \<Rightarrow> (u32 \<times> ext2) option" where
  "dir_find d dir_ino name s = do {
     (ok, s) \<leftarrow> read_inode d dir_ino s;
     if \<not> ok then Some (0, s)
     else do {
       mode \<leftarrow> get_u16 (g_inode_buf s) 0;
       if mode AND EXT2_S_IFDIR = 0 then Some (0, s)
       else do {
         dir_size \<leftarrow> get_u32 (g_inode_buf s) 4;
         dir_find_loop d name dir_size 0 (s\<lparr>find_save := g_inode_buf s\<rparr>)
       }
     }
   }"

section \<open>Paths\<close>

lemma length_drop_slash: "p \<noteq> [] \<Longrightarrow> length (dropWhile P p) - Suc 0 < length p"
  using length_dropWhile_le [of P p] by (cases p) auto

function path_loop :: "disk \<Rightarrow> u32 \<Rightarrow> bytes \<Rightarrow> ext2 \<Rightarrow> (u32 \<times> ext2) option" where
  "path_loop d cur p s =
     (if p = [] then Some (cur, s)
      else let comp = takeWhile (\<lambda>c. c \<noteq> 0x2F) p; slash = dropWhile (\<lambda>c. c \<noteq> 0x2F) p
      in if comp = [] then path_loop d cur (drop 1 slash) s
      else if length comp \<ge> 255 then Some (0, s)
      else do {
        (cur, s) \<leftarrow> dir_find d cur comp s;
        if cur = 0 then Some (0, s) else path_loop d cur (drop 1 slash) s
      })"
  by pat_completeness auto
termination
  by (relation "measure (\<lambda>(d, cur, p, s). length p)") (simp_all add: length_drop_slash)

declare path_loop.simps [simp del]

definition resolve_path :: "disk \<Rightarrow> bytes \<Rightarrow> ext2 \<Rightarrow> (u32 \<times> ext2) option" where
  "resolve_path d path s =
     (let p = cstr path
      in if p = [] \<or> p = [0x2F] then Some (EXT2_ROOT_INO, s)
      else path_loop d EXT2_ROOT_INO (if hd p = 0x2F then drop 1 p else p) s)"

section \<open>Listing a directory\<close>

text \<open>A number, padded on the left.\<close>

definition print_padded :: "nat \<Rightarrow> bytes \<Rightarrow> ext2 \<Rightarrow> ext2" where
  "print_padded w str s = print str (print (replicate (w - length (cstr str)) 0x20) s)"

definition ls_entry :: "disk \<Rightarrow> u32 \<Rightarrow> bytes \<Rightarrow> ext2 \<Rightarrow> ext2 option" where
  "ls_entry d ino name s = (
     if cstr name = bstr ''.'' \<or> cstr name = bstr ''..'' then Some s
     else do {
       let s = print (bstr ''  '') (print_padded 6 (itoa ino) (print (bstr ''  '') s));
       (ok, s) \<leftarrow> read_inode d ino s;
       s \<leftarrow> (if ok then map_option (\<lambda>fsz. print_padded 7 (itoa fsz) s) (get_u32 (g_inode_buf s) 4)
             else Some (print (replicate 7 0x20) s));
       let s = print lf (print name (print (bstr ''  '') s));
       Some (s\<lparr>g_inode_buf := ls_save s\<rparr>)
     })"

function ls_block :: "disk \<Rightarrow> nat \<Rightarrow> nat \<Rightarrow> ext2 \<Rightarrow> ext2 option" where
  "ls_block d limit p s =
     (if p < limit then do {
        ino \<leftarrow> get_u32 (g_dir_buf s) p;
        rec_len \<leftarrow> get_u16 (g_dir_buf s) (p + 4);
        if rec_len = 0 then Some s
        else do {
          nlen \<leftarrow> get_u8 (g_dir_buf s) (p + 6);
          s \<leftarrow> (if ino \<noteq> 0 \<and> nlen > 0 then do {
                    name \<leftarrow> slice (p + 8) (min (unat nlen) 255) (g_dir_buf s);
                    ls_entry d ino name s
                  } else Some s);
          ls_block d limit (p + unat rec_len) s
        }
      } else Some s)"
  by pat_completeness auto
termination
  by (relation "measure (\<lambda>(d, limit, p, s). limit - p)") (auto simp: unat_gt_0 intro!: diff_less_mono2)

declare ls_block.simps [simp del]

partial_function (option) ls_loop :: "disk \<Rightarrow> u32 \<Rightarrow> u32 \<Rightarrow> ext2 \<Rightarrow> ext2 option" where
  "ls_loop d dir_size offset s =
     (if offset < dir_size then
        let bs = g_block_size s in
        if bs = 0 then None
        else let blk_idx = offset div bs; s = s\<lparr>g_inode_buf := ls_save s\<rparr>
        in do {
          (blk_no, s) \<leftarrow> inode_get_block d blk_idx s;
          let s = s\<lparr>g_inode_buf := ls_save s\<rparr>;
          if blk_no = 0 then ls_loop d dir_size (offset + bs) s
          else let (ok, buf) = ext2_read_block d bs blk_no (g_dir_buf s); s = s\<lparr>g_dir_buf := buf\<rparr>
          in if \<not> ok then Some s
          else let block_limit = (if (blk_idx + 1) * bs > dir_size then dir_size - blk_idx * bs else bs)
          in do { s \<leftarrow> ls_block d (unat block_limit) 0 s; ls_loop d dir_size (offset + bs) s }
        }
      else Some s)"

definition ext2_ls :: "disk \<Rightarrow> bytes \<Rightarrow> ext2 \<Rightarrow> ext2 option" where
  "ext2_ls d path s = (
     if \<not> g_mounted s then Some (print (bstr ''ext2: tidak di-mount. Gunakan: mount ext2'' @ lf) s)
     else do {
       (dir_ino, s) \<leftarrow> resolve_path d path s;
       if dir_ino = 0
       then Some (print lf (print path (print (bstr ''ext2: path tidak ditemukan: '') s)))
       else do {
         (ok, s) \<leftarrow> read_inode d dir_ino s;
         if \<not> ok then Some (print (bstr ''ext2: gagal baca inode'' @ lf) s)
         else do {
           mode \<leftarrow> get_u16 (g_inode_buf s) 0;
           if mode AND EXT2_S_IFDIR = 0
           then Some (print lf (print path (print (bstr ''ext2: bukan direktori: '') s)))
           else do {
             dir_size \<leftarrow> get_u32 (g_inode_buf s) 4;
             let s = s\<lparr>ls_save := g_inode_buf s\<rparr>;
             let s = print (bstr ''  inode   size     name'' @ lf) s;
             let s = print (bstr ''  ------  -------  ----'' @ lf) s;
             ls_loop d dir_size 0 s
           }
         }
       }
     })"

section \<open>Printing a file\<close>

text \<open>The offset reached is the first result.\<close>

partial_function (option) cat_loop :: "disk \<Rightarrow> u32 \<Rightarrow> u32 \<Rightarrow> ext2 \<Rightarrow> (u32 \<times> ext2) option" where
  "cat_loop d fsz offset s =
     (if offset < fsz then do {
        let s = s\<lparr>g_inode_buf := cat_save s\<rparr>;
        let chunk = (if fsz - offset > word_of_nat CAT_CHUNK then word_of_nat CAT_CHUNK else fsz - offset);
        (got, s) \<leftarrow> inode_read d fsz offset chunk s;
        let s = s\<lparr>cat_buf := write_at 0 got (cat_buf s)\<rparr>;
        if got = [] then Some (offset, s)
        else let s = s\<lparr>cat_buf := write_at (length got) [0] (cat_buf s)\<rparr>; s = print (cat_buf s) s
        in cat_loop d fsz (offset + word_of_nat (length got)) s
      }
      else Some (offset, s))"

definition ext2_cat :: "disk \<Rightarrow> bytes \<Rightarrow> ext2 \<Rightarrow> ext2 option" where
  "ext2_cat d path s = (
     if \<not> g_mounted s then Some (print (bstr ''ext2: tidak di-mount. Gunakan: mount ext2'' @ lf) s)
     else do {
       (ino, s) \<leftarrow> resolve_path d path s;
       if ino = 0
       then Some (print lf (print path (print (bstr ''ext2: tidak ditemukan: '') s)))
       else do {
         (ok, s) \<leftarrow> read_inode d ino s;
         if \<not> ok then Some (print (bstr ''ext2: gagal baca inode'' @ lf) s)
         else do {
           mode \<leftarrow> get_u16 (g_inode_buf s) 0;
           if mode AND EXT2_S_IFREG = 0
           then Some (print lf (print path (print (bstr ''ext2: bukan file biasa: '') s)))
           else do {
             fsz \<leftarrow> get_u32 (g_inode_buf s) 4;
             if fsz = 0 then Some (print (bstr ''(file kosong)'' @ lf) s)
             else do {
               (offset, s) \<leftarrow> cat_loop d fsz 0 (s\<lparr>cat_save := g_inode_buf s\<rparr>);
               first \<leftarrow> get_u8 (cat_buf s) 0;
               if fsz > 0 \<and> first \<noteq> 0 then do {
                 let idx = (if offset > word_of_nat CAT_CHUNK then word_of_nat CAT_CHUNK else offset mod word_of_nat CAT_CHUNK) - 1;
                 c \<leftarrow> get_u8 (cat_buf s) (unat idx);
                 Some (if c \<noteq> 0x0A then print lf s else s)
               }
               else Some s
             }
           }
         }
       }
     })"

section \<open>Entries\<close>

record dirent =
  de_ino :: u32
  de_type :: u8
  de_name :: bytes
  de_pad :: bytes

definition de_len :: "dirent \<Rightarrow> nat" where
  "de_len e = 8 + length (de_name e) + length (de_pad e)"

definition de_bytes :: "dirent \<Rightarrow> bytes" where
  "de_bytes e = le_bytes 4 (de_ino e) @ le_bytes 2 (word_of_nat (de_len e) :: u16) @
     [word_of_nat (length (de_name e)), de_type e] @ de_name e @ de_pad e"

definition de_ok :: "dirent \<Rightarrow> bool" where
  "de_ok e \<longleftrightarrow> length (de_name e) < 256 \<and> de_len e < 2 ^ 16 \<and> 0 \<notin> set (de_name e)"

definition dir_lookup :: "bytes \<Rightarrow> dirent list \<Rightarrow> u32" where
  "dir_lookup name es = (case find (\<lambda>e. de_ino e \<noteq> 0 \<and> de_name e = name) es of None \<Rightarrow> 0 | Some e \<Rightarrow> de_ino e)"

lemma length_de_bytes [simp]: "length (de_bytes e) = de_len e"
  by (simp add: de_bytes_def de_len_def)

lemma dir_lookup_Cons:
  "dir_lookup name (e # es) = (if de_ino e \<noteq> 0 \<and> de_name e = name then de_ino e else dir_lookup name es)"
  by (simp add: dir_lookup_def)

lemma dir_lookup_append:
  "dir_lookup name (es @ fs) = (if dir_lookup name es \<noteq> 0 then dir_lookup name es else dir_lookup name fs)"
  by (induction es) (auto simp: dir_lookup_Cons dir_lookup_def [of name "[]"])

lemma xstrncmp_name:
  assumes "length nm = length name" "0 \<notin> set nm" "0 \<notin> set name"
  shows "map_option (\<lambda>c. c = 0) (xstrncmp (nm @ r) name (length name)) = Some (nm = name)"
  using assms by (induction nm name rule: list_induct2) (auto simp: Let_def word_uint_eq_iff [symmetric])

lemma slice_append: "length pre = n \<Longrightarrow> length b = k \<Longrightarrow> slice n k (pre @ b @ r) = Some b"
  by (simp add: slice_def)

lemma get_u32_append: "length pre = n \<Longrightarrow> get_u32 (pre @ le_bytes 4 w @ r) n = Some w"
  by (simp add: get_u32_def slice_append)

lemma get_u16_append: "length pre = n \<Longrightarrow> get_u16 (pre @ le_bytes 2 w @ r) n = Some w"
  by (simp add: get_u16_def slice_append)

lemma entry_fields:
  fixes pre e post
  defines "buf \<equiv> pre @ de_bytes e @ post" and "p \<equiv> length pre"
  shows "get_u32 buf p = Some (de_ino e)" "get_u16 buf (p + 4) = Some (word_of_nat (de_len e))"
    "get_u8 buf (p + 6) = Some (word_of_nat (length (de_name e)))" "drop (p + 8) buf = de_name e @ de_pad e @ post"
  using get_u32_append [of pre p "de_ino e"] get_u16_append [of "pre @ le_bytes 4 (de_ino e)" "p + 4" "word_of_nat (de_len e)"]
  by (simp_all add: buf_def p_def de_bytes_def get_u8_def nth_append)

lemma de_len_word: "de_ok e \<Longrightarrow> unat (word_of_nat (de_len e) :: u16) = de_len e" "de_ok e \<Longrightarrow> (word_of_nat (de_len e) :: u16) \<noteq> 0"
proof -
  show u: "unat (word_of_nat (de_len e) :: u16) = de_len e" if "de_ok e"
    using that by (intro unat_of_nat_small) (simp add: de_ok_def)
  show "(word_of_nat (de_len e) :: u16) \<noteq> 0" if "de_ok e"
    using u [OF that] by (metis unat_0 de_len_def add_is_0 zero_neq_numeral)
qed

lemma u8_small: "n < 256 \<Longrightarrow> unat (word_of_nat n :: u8) = n"
  by (rule unat_of_nat_small) simp

lemma dir_walk_eq:
  assumes "\<forall>e\<in>set es. de_ok e" "0 \<notin> set name" "length name < 256"
  shows "dir_walk name (pre @ concat (map de_bytes es) @ post) (length (pre @ concat (map de_bytes es))) (length pre) =
    Some (dir_lookup name es)"
  using assms(1)
proof (induction es arbitrary: pre)
  case Nil
  then show ?case by (simp add: dir_walk.simps dir_lookup_def)
next
  case (Cons e es)
  then have ok: "de_ok e" by simp
  define buf where "buf = pre @ de_bytes e @ concat (map de_bytes es) @ post"
  note f = entry_fields [of pre e "concat (map de_bytes es) @ post", folded buf_def]
  have n: "word_of_nat (length (de_name e)) = (word_of_nat (length name) :: u8) \<longleftrightarrow> length (de_name e) = length name"
    using u8_small [of "length name"] u8_small [of "length (de_name e)"] ok assms(3) by (metis de_ok_def)
  have hit: "(if de_ino e \<noteq> 0 \<and> word_of_nat (length (de_name e)) = (word_of_nat (length name) :: u8)
      then map_option (\<lambda>c. c = 0) (xstrncmp (de_name e @ de_pad e @ concat (map de_bytes es) @ post) name (length name)) else Some False) =
      Some (de_ino e \<noteq> 0 \<and> de_name e = name)"
    using xstrncmp_name [of "de_name e" name] ok assms(2) by (auto simp: n de_ok_def)
  have lim: "length pre < length pre + (de_len e + k)" for k by (simp add: de_len_def)
  have "dir_walk name buf (length pre + (de_len e + length (concat (map de_bytes es)))) (length pre) =
      (if de_ino e \<noteq> 0 \<and> de_name e = name then Some (de_ino e)
       else dir_walk name buf (length pre + (de_len e + length (concat (map de_bytes es)))) (length pre + de_len e))"
    by (subst dir_walk.simps) (simp only: lim if_True f Option.bind.bind_lunit hit de_len_word [OF ok] if_False refl simp_thms)
  moreover have "dir_walk name buf (length pre + (de_len e + length (concat (map de_bytes es)))) (length pre + de_len e) = Some (dir_lookup name es)"
    using Cons.IH [of "pre @ de_bytes e"] Cons.prems by (simp add: buf_def add.assoc)
  ultimately show ?case by (simp add: buf_def dir_lookup_Cons)
qed

end
