(* ===== verification/Ext2Tree.thy ===== *)
theory Ext2Tree
  imports Ext2Dir
begin

text \<open>
  The driver for EXT2 images against the volume it reads: a tree of files and directories laid out on the disk
  (\<open>volume\<close>). Looking up paths, printing files, and what mounting accepts.
\<close>

unbundle bit_operations_syntax

section \<open>Looking up a name\<close>

definition dir_block :: "disk \<Rightarrow> u32 \<Rightarrow> bytes \<Rightarrow> nat \<Rightarrow> dirent list \<Rightarrow> bool" where
  "dir_block d bs inode i es \<longleftrightarrow> map_readable d bs inode i \<and> logical_block d bs inode i \<noteq> 0 \<and>
     block_readable d bs (logical_block d bs inode i) \<and>
     block_content d bs (logical_block d bs inode i) = concat (map de_bytes es) \<and> (\<forall>e\<in>set es. de_ok e)"

lemma read_block_buf:
  assumes "sectors_full d" "valid_bs bs" "block_readable d bs b" "length buf = EXT2_MAX_BLOCK"
  obtains post where "ext2_read_block d bs b buf = (True, block_content d bs b @ post)"
    "length (block_content d bs b @ post) = EXT2_MAX_BLOCK" "length (block_content d bs b) = unat bs"
proof -
  obtain buf' where b: "ext2_read_block d bs b buf = (True, buf')" "length buf' = length buf" "take (unat bs) buf' = block_content d bs b"
    using blk.rd_cases [of "(d, bs)" b buf] assms valid_bs_cases(1) [OF assms(2)] by auto
  moreover have "length (block_content d bs b) = unat bs" using blk.content_length [of "(d, bs)" b] assms by simp
  ultimately show ?thesis using assms(4) append_take_drop_id [of "unat bs" buf'] by (intro that [of "drop (unat bs) buf'"]) auto
qed

lemma dir_find_turn:
  assumes "sectors_full d" "0 \<notin> set name" "length name < 256" "ext2_ok s" "g_inode_buf s = find_save s"
    and "dir_block d (g_block_size s) (find_save s) i es"
    and "unat offset = i * unat (g_block_size s)" "unat offset + unat (g_block_size s) \<le> unat dir_size"
  shows "\<exists>t. data_frame s t \<and> dir_find_loop d name dir_size offset s =
    (if dir_lookup name es \<noteq> 0 then Some (dir_lookup name es, t) else dir_find_loop d name dir_size (offset + g_block_size s) t)"
proof -
  define bs where "bs = g_block_size s"
  let ?l = "logical_block d bs (find_save s) i"
  have v: "valid_bs bs" "bs \<noteq> 0" "0 < unat bs" using assms(4) valid_bs_cases(5) by (simp_all add: ext2_ok_def bs_def unat_gt_0)
  note db = assms(6) [folded bs_def, unfolded dir_block_def]
  have "unat (offset div bs) = i" "unat (offset mod bs) = 0" using assms(7) v by (simp_all add: unat_div unat_mod bs_def)
  then have off: "unat (offset div bs) = i" "offset mod bs = 0" by (simp_all add: unat_eq_0)
  have lim: "\<not> dir_size < offset + bs" "offset < dir_size"
    using assms(8) v(3) unsigned_less [of dir_size, where 'a = nat] by (simp_all add: word_less_nat_alt unat_word_ariths bs_def [symmetric])
  obtain s1 where s1: "inode_get_block d (offset div bs) s = Some (?l, s1)" "indir_frame s s1"
    using inode_get_block_eq [OF assms(4,1), of "offset div bs"] db off(1) assms(5) by (auto simp: bs_def)
  have s1f: "length (g_dir_buf s1) = EXT2_MAX_BLOCK" "s1\<lparr>g_inode_buf := find_save s1\<rparr> = s1" "s\<lparr>g_inode_buf := find_save s\<rparr> = s"
    using assms(4,5) s1(2) by (cases s; cases s1; simp add: indir_frame_def ext2_ok_def)+
  obtain post where b: "ext2_read_block d bs ?l (g_dir_buf s1) = (True, block_content d bs ?l @ post)"
      "length (block_content d bs ?l @ post) = EXT2_MAX_BLOCK" "length (block_content d bs ?l) = unat bs"
    using read_block_buf [OF assms(1) v(1) _ s1f(1)] db by blast
  have w: "dir_walk name (block_content d bs ?l @ post) (unat bs) 0 = Some (dir_lookup name es)"
    using dir_walk_eq [OF _ assms(2,3), of es "[]" post] db b(3) by simp
  show ?thesis
    using lim off(2) v(2) s1(1) s1f(2,3) b(1) w db indir_data_frame [OF assms(4) s1(2) b(2)]
    by (intro exI [of _ "s1\<lparr>g_dir_buf := block_content d bs ?l @ post\<rparr>"])
       (subst dir_find_loop.simps, simp add: bs_def [symmetric] Let_def)
qed

lemma dir_find_loop_eq:
  assumes "sectors_full d" "0 \<notin> set name" "length name < 256" "ext2_ok s" "g_inode_buf s = find_save s"
    and "\<forall>i<length ess. dir_block d (g_block_size s) (find_save s) i (ess ! i)"
    and "unat dir_size = length ess * unat (g_block_size s)" "unat offset = i * unat (g_block_size s)" "i \<le> length ess"
  shows "\<exists>s'. dir_find_loop d name dir_size offset s = Some (dir_lookup name (concat (drop i ess)), s') \<and> data_frame s s'"
  using assms(4-)
proof (induction "length ess - i" arbitrary: i offset s)
  case 0
  then have "\<not> offset < dir_size" by (simp add: word_less_nat_alt)
  then show ?case
    using 0 data_frame_indir [OF _ indir_frame_refl] by (subst dir_find_loop.simps) (simp add: dir_lookup_def)
next
  case (Suc n)
  let ?bs = "g_block_size s"
  have i: "i < length ess" and n: "n = length ess - Suc i" using Suc(2) by simp_all
  have le: "unat offset + unat ?bs \<le> unat dir_size"
    using i mult_le_mono1 [of "Suc i" "length ess" "unat ?bs"] by (simp add: Suc.prems(4,5))
  obtain t where t: "data_frame s t" "dir_find_loop d name dir_size offset s =
      (if dir_lookup name (ess ! i) \<noteq> 0 then Some (dir_lookup name (ess ! i), t) else dir_find_loop d name dir_size (offset + ?bs) t)"
    using dir_find_turn [OF assms(1-3) Suc.prems(1,2) _ Suc.prems(5) le] Suc.prems(3) i by blast
  have fs: "find_save t = find_save s" using t(1) by (cases s; cases t) (simp add: data_frame_def)
  have "unat (offset + ?bs) = Suc i * unat ?bs"
    using le unsigned_less [of dir_size, where 'a = nat] by (simp add: unat_word_ariths Suc.prems(5))
  then obtain s' where "dir_find_loop d name dir_size (offset + ?bs) t = Some (dir_lookup name (concat (drop (Suc i) ess)), s')" "data_frame t s'"
    using Suc(1) [of "Suc i" t "offset + ?bs"] n Suc.prems i data_frame_ok [OF Suc.prems(1) t(1)] data_frame_same [OF t(1)] fs by auto
  moreover have "drop i ess = ess ! i # drop (Suc i) ess" using i by (simp add: Cons_nth_drop_Suc)
  ultimately show ?case using t data_frame_trans [OF t(1)] by (auto simp: dir_lookup_append)
qed

section \<open>Inodes on the disk\<close>

text \<open>States that agree but for the buffers a lookup uses.\<close>

definition vol_frame :: "ext2 \<Rightarrow> ext2 \<Rightarrow> bool" where
  "vol_frame s s' \<longleftrightarrow> ext2_ok s' \<and> s' = s\<lparr>g_block_buf := g_block_buf s', g_inode_buf := g_inode_buf s', g_indir_buf := g_indir_buf s',
     indir2 := indir2 s', g_dir_buf := g_dir_buf s', find_save := find_save s'\<rparr>"

lemma vol_frame_refl: "ext2_ok s \<Longrightarrow> vol_frame s s"
  by (simp add: vol_frame_def)

lemma vol_frame_trans: "vol_frame s t \<Longrightarrow> vol_frame t u \<Longrightarrow> vol_frame s u"
  by (cases s; cases t; cases u) (simp add: vol_frame_def)

lemma data_vol_frame: "ext2_ok s \<Longrightarrow> data_frame s s' \<Longrightarrow> vol_frame s s'"
  using data_frame_ok [of s s'] by (cases s; cases s') (simp add: data_frame_def vol_frame_def)

lemma vol_frame_ok: "vol_frame s s' \<Longrightarrow> ext2_ok s'"
  by (simp add: vol_frame_def)

definition bgd_of :: "disk \<Rightarrow> ext2 \<Rightarrow> u32 \<Rightarrow> bytes" where
  "bgd_of d s grp = take 32 (drop (unat (grp * 32 mod g_block_size s))
     (block_content d (g_block_size s) (g_bgdt_block s + grp * 32 div g_block_size s)))"

definition inode_block :: "disk \<Rightarrow> ext2 \<Rightarrow> u32 \<Rightarrow> u32" where
  "inode_block d s ino = le_word (take 4 (drop 8 (bgd_of d s ((ino - 1) div g_inodes_per_grp s)))) +
     (ino - 1) mod g_inodes_per_grp s * g_inode_size s div g_block_size s"

definition inode_off :: "ext2 \<Rightarrow> u32 \<Rightarrow> nat" where
  "inode_off s ino = unat ((ino - 1) mod g_inodes_per_grp s * g_inode_size s mod g_block_size s)"

definition inode_of :: "disk \<Rightarrow> ext2 \<Rightarrow> u32 \<Rightarrow> bytes" where
  "inode_of d s ino = take (unat (g_inode_size s)) (drop (inode_off s ino) (block_content d (g_block_size s) (inode_block d s ino)))"

text \<open>The inode has a number of the volume, its group descriptor and its block can be read, and it lies in one block.\<close>

definition inode_readable :: "disk \<Rightarrow> ext2 \<Rightarrow> u32 \<Rightarrow> bool" where
  "inode_readable d s ino \<longleftrightarrow> ino \<noteq> 0 \<and> g_inodes_per_grp s \<noteq> 0 \<and> (g_inode_size s = 128 \<or> g_inode_size s = 256) \<and>
     block_readable d (g_block_size s) (g_bgdt_block s + (ino - 1) div g_inodes_per_grp s * 32 div g_block_size s) \<and>
     block_readable d (g_block_size s) (inode_block d s ino) \<and> inode_off s ino + unat (g_inode_size s) \<le> unat (g_block_size s)"

lemma vol_frame_inode:
  assumes "vol_frame s s'"
  shows "inode_of d s' ino = inode_of d s ino" "inode_readable d s' ino = inode_readable d s ino" "g_block_size s' = g_block_size s"
    "g_mounted s' = g_mounted s" "screen s' = screen s"
  using assms by (cases s; cases s'; simp add: vol_frame_def inode_of_def inode_readable_def inode_block_def inode_off_def bgd_of_def)+

lemma slice_front: "off + n \<le> length c \<Longrightarrow> slice off n (c @ post) = Some (take n (drop off c))"
  by (simp add: slice_def)

lemma bgd_fits:
  assumes "valid_bs bs"
  shows "unat (grp * 32 mod bs) + 32 \<le> unat bs"
proof -
  obtain k where k: "unat bs = 32 * k" "0 < k" using assms by (auto simp: valid_bs_def intro: that [of 32] that [of 64] that [of 128])
  have le32: "r + 32 \<le> 32 * k" if "r mod 32 = 0" "r < 32 * k" for r :: nat using that by presburger
  have "unat (grp * 32) mod 32 = 0" by (simp add: unat_word_ariths mod_mod_cancel)
  then have "unat (grp * 32) mod (32 * k) + 32 \<le> 32 * k" using k(2) by (intro le32) (simp_all add: mod_mod_cancel)
  then show ?thesis by (simp add: unat_mod k(1))
qed

lemma read_inode_eq:
  assumes "sectors_full d" "ext2_ok s" "inode_readable d s ino"
  shows "\<exists>s' r. read_inode d ino s = Some (True, s') \<and> g_inode_buf s' = inode_of d s ino @ r \<and>
    length (inode_of d s ino) = unat (g_inode_size s) \<and> vol_frame s s'"
proof -
  define bs grp where "bs = g_block_size s" and "grp = (ino - 1) div g_inodes_per_grp s"
  let ?g = "g_bgdt_block s + grp * 32 div bs" and ?b = "inode_block d s ino"
  have v: "valid_bs bs" "bs \<noteq> 0" using assms(2) valid_bs_cases(5) by (simp_all add: ext2_ok_def bs_def)
  note ir = assms(3) [unfolded inode_readable_def, folded bs_def grp_def]
  have len: "length (g_block_buf s) = EXT2_MAX_BLOCK" "length (g_inode_buf s) = 256" using assms(2) by (simp_all add: ext2_ok_def)
  obtain p1 where p1: "ext2_read_block d bs ?g (g_block_buf s) = (True, block_content d bs ?g @ p1)"
      "length (block_content d bs ?g @ p1) = EXT2_MAX_BLOCK" "length (block_content d bs ?g) = unat bs"
    using read_block_buf [OF assms(1) v(1) _ len(1)] ir by blast
  have bgd: "slice (unat (grp * 32 mod bs)) 32 (block_content d bs ?g @ p1) = Some (bgd_of d s grp)" "length (bgd_of d s grp) = 32"
    using bgd_fits [OF v(1), of grp] p1(3) by (simp_all add: slice_front bgd_of_def bs_def)
  obtain p2 where p2: "ext2_read_block d bs ?b (block_content d bs ?g @ p1) = (True, block_content d bs ?b @ p2)"
      "length (block_content d bs ?b @ p2) = EXT2_MAX_BLOCK" "length (block_content d bs ?b) = unat bs"
    using read_block_buf [OF assms(1) v(1) _ p1(2)] ir by blast
  have i: "slice (inode_off s ino) (unat (g_inode_size s)) (block_content d bs ?b @ p2) = Some (inode_of d s ino)"
    "length (inode_of d s ino) = unat (g_inode_size s)" "length (inode_of d s ino) \<le> 256"
    using ir p2(3) by (auto simp: slice_front inode_of_def bs_def)
  let ?s = "s\<lparr>g_block_buf := block_content d bs ?b @ p2, g_inode_buf := write_at 0 (inode_of d s ino) (g_inode_buf s)\<rparr>"
  have isz: "\<not> g_inode_size s < 256 \<Longrightarrow> g_inode_size s = 256" using ir by auto
  have blk: "le_word (take 4 (drop 8 (bgd_of d s grp))) + (ino - 1) mod g_inodes_per_grp s * g_inode_size s div bs = ?b"
    by (simp add: inode_block_def grp_def bs_def)
  have "read_inode d ino s = Some (True, ?s)"
    using ir v(2) p1(1) p2(1) bgd i(1) blk
    by (cases "g_inode_size s < 256")
       (simp_all add: read_inode_def read_bgd_def bs_def [symmetric] grp_def [symmetric] get_u32_def slice_def [of 8] Let_def isz inode_off_def)
  moreover have "vol_frame s ?s"
    using assms(2) p2(2) i(3) len(2) by (simp add: vol_frame_def ext2_ok_def)
  ultimately show ?thesis
    using i(2) by (intro exI [of _ ?s] exI [of _ "drop (length (inode_of d s ino)) (g_inode_buf s)"]) (simp add: write_at_def)
qed

section \<open>A volume as a tree\<close>

text \<open>Files are their bytes, directories their entries, block by block.\<close>

datatype node = Dir "dirent list list" | File bytes

definition inode_mode :: "bytes \<Rightarrow> u16" where "inode_mode i = le_word (take 2 i)"
definition inode_length :: "bytes \<Rightarrow> u32" where "inode_length i = le_word (take 4 (drop 4 i))"

fun node_on :: "disk \<Rightarrow> ext2 \<Rightarrow> u32 \<Rightarrow> node \<Rightarrow> bool" where
  "node_on d s ino (Dir ess) \<longleftrightarrow> inode_readable d s ino \<and> inode_mode (inode_of d s ino) AND EXT2_S_IFDIR \<noteq> 0 \<and>
     unat (inode_length (inode_of d s ino)) = length ess * unat (g_block_size s) \<and>
     (\<forall>i<length ess. dir_block d (g_block_size s) (inode_of d s ino) i (ess ! i))"
| "node_on d s ino (File c) \<longleftrightarrow> inode_readable d s ino \<and> inode_mode (inode_of d s ino) AND EXT2_S_IFDIR = 0 \<and>
     inode_mode (inode_of d s ino) AND EXT2_S_IFREG \<noteq> 0 \<and> unat (inode_length (inode_of d s ino)) = length c \<and>
     (\<forall>off<length c. byte_readable d (g_block_size s) (inode_of d s ino) off \<and> file_byte d (g_block_size s) (inode_of d s ino) off = c ! off)"

definition volume :: "disk \<Rightarrow> ext2 \<Rightarrow> (u32 \<rightharpoonup> node) \<Rightarrow> bool" where
  "volume d s tree \<longleftrightarrow> sectors_full d \<and> ext2_ok s \<and> tree EXT2_ROOT_INO \<noteq> None \<and>
     (\<forall>ino n. tree ino = Some n \<longrightarrow> node_on d s ino n) \<and>
     (\<forall>ino ess. tree ino = Some (Dir ess) \<longrightarrow> (\<forall>e\<in>set (concat ess). de_ino e \<noteq> 0 \<longrightarrow> tree (de_ino e) \<noteq> None))"

fun lookup_path :: "(u32 \<rightharpoonup> node) \<Rightarrow> u32 \<Rightarrow> bytes list \<Rightarrow> u32" where
  "lookup_path tree cur [] = cur"
| "lookup_path tree cur (c # cs) =
     (case tree cur of Some (Dir ess) \<Rightarrow> (let n = dir_lookup c (concat ess) in if n = 0 then 0 else lookup_path tree n cs) | _ \<Rightarrow> 0)"

fun join_path :: "bytes list \<Rightarrow> bytes" where
  "join_path [] = []"
| "join_path [c] = c"
| "join_path (c # cs) = c @ 0x2F # join_path cs"

definition comp_ok :: "bytes \<Rightarrow> bool" where
  "comp_ok c \<longleftrightarrow> c \<noteq> [] \<and> length c < 255 \<and> 0x2F \<notin> set c \<and> 0 \<notin> set c"

text \<open>Only the first 128 bytes of an inode count.\<close>

lemma inode_ptr_append: "k < 15 \<Longrightarrow> 128 \<le> length i \<Longrightarrow> inode_ptr (i @ r) k = inode_ptr i k"
  by (simp add: inode_ptr_def ptr_at_def INO_BLOCK_def)

lemma block_path_root: "block_path n i = Some (r, ks) \<Longrightarrow> r < 15"
  by (auto simp: block_path_def split: if_splits)

lemma inode_append:
  assumes "128 \<le> length i"
  shows "logical_block d bs (i @ r) n = logical_block d bs i n" "map_readable d bs (i @ r) n = map_readable d bs i n"
    "file_byte d bs (i @ r) off = file_byte d bs i off" "byte_readable d bs (i @ r) off = byte_readable d bs i off"
    "dir_block d bs (i @ r) n es = dir_block d bs i n es"
proof -
  show l: "logical_block d bs (i @ r) n = logical_block d bs i n" for n
    using assms block_path_root by (auto simp: logical_block_def inode_ptr_append split: option.splits)
  show m: "map_readable d bs (i @ r) n = map_readable d bs i n" for n
    using assms block_path_root by (auto simp: map_readable_def inode_ptr_append split: option.splits)
  show "file_byte d bs (i @ r) off = file_byte d bs i off" "byte_readable d bs (i @ r) off = byte_readable d bs i off"
    "dir_block d bs (i @ r) n es = dir_block d bs i n es"
    by (simp_all add: l m file_byte_def byte_readable_def dir_block_def)
qed

lemma node_on_frame: "vol_frame s s' \<Longrightarrow> node_on d s' ino n = node_on d s ino n"
  by (cases n) (simp_all add: vol_frame_inode)

lemma volume_frame: "volume d s tree \<Longrightarrow> vol_frame s s' \<Longrightarrow> volume d s' tree"
  using node_on_frame vol_frame_ok by (simp add: volume_def)

lemma node_readable: "node_on d s ino n \<Longrightarrow> inode_readable d s ino"
  by (cases n) simp_all

text \<open>After reading an inode its fields are in the buffer.\<close>

lemma read_node:
  assumes "volume d s tree" "tree ino = Some n"
  obtains s' r where "read_inode d ino s = Some (True, s')" "g_inode_buf s' = inode_of d s ino @ r" "128 \<le> length (inode_of d s ino)"
    "vol_frame s s'" "get_u16 (g_inode_buf s') 0 = Some (inode_mode (inode_of d s ino))"
    "get_u32 (g_inode_buf s') 4 = Some (inode_length (inode_of d s ino))"
proof -
  have "node_on d s ino n" using assms unfolding volume_def by blast
  then have n: "sectors_full d" "ext2_ok s" "inode_readable d s ino"
    using assms(1) by (simp_all add: volume_def node_readable)
  obtain s' r where s': "read_inode d ino s = Some (True, s')" "g_inode_buf s' = inode_of d s ino @ r"
      "length (inode_of d s ino) = unat (g_inode_size s)" "vol_frame s s'"
    using read_inode_eq [OF n] by (elim exE conjE) (rule that)
  moreover have "128 \<le> length (inode_of d s ino)" using n(3) s'(3) by (auto simp: inode_readable_def)
  ultimately show ?thesis
    by (intro that [of s' r]) (simp_all add: get_u16_def get_u32_def slice_def inode_mode_def inode_length_def)
qed

lemma dir_find_eq:
  assumes "volume d s tree" "tree ino = Some n" "0 \<notin> set name" "length name < 256"
  shows "\<exists>s'. dir_find d ino name s = Some (case n of Dir ess \<Rightarrow> dir_lookup name (concat ess) | File c \<Rightarrow> 0, s') \<and> vol_frame s s'"
proof -
  obtain s1 r where s1: "read_inode d ino s = Some (True, s1)" "g_inode_buf s1 = inode_of d s ino @ r" "128 \<le> length (inode_of d s ino)"
    "vol_frame s s1" "get_u16 (g_inode_buf s1) 0 = Some (inode_mode (inode_of d s ino))"
    "get_u32 (g_inode_buf s1) 4 = Some (inode_length (inode_of d s ino))"
    by (rule read_node [OF assms(1,2)])
  have n: "node_on d s ino n" "sectors_full d" using assms(1,2) by (simp_all add: volume_def)
  show ?thesis
  proof (cases n)
    case (File c)
    then show ?thesis using n(1) s1 by (simp add: dir_find_def)
  next
    case (Dir ess)
    let ?s = "s1\<lparr>find_save := g_inode_buf s1\<rparr>"
    have f: "vol_frame s ?s" "ext2_ok ?s" using s1(4) by (cases s; cases s1; simp add: vol_frame_def ext2_ok_def)+
    have "\<forall>i<length ess. dir_block d (g_block_size ?s) (find_save ?s) i (ess ! i)"
      using n(1) Dir s1(2) inode_append(5) [OF s1(3)] vol_frame_inode(3) [OF s1(4)] by simp
    moreover have "unat (inode_length (inode_of d s ino)) = length ess * unat (g_block_size ?s)"
      using n(1) Dir vol_frame_inode(3) [OF s1(4)] by simp
    ultimately obtain s' where "dir_find_loop d name (inode_length (inode_of d s ino)) 0 ?s = Some (dir_lookup name (concat ess), s')" "data_frame ?s s'"
      using dir_find_loop_eq [OF n(2) assms(3,4) f(2), of ess "inode_length (inode_of d s ino)" 0 0] by auto
    then show ?thesis
      using n(1) Dir s1 vol_frame_trans [OF f(1) data_vol_frame [OF f(2)]] by (simp add: dir_find_def)
  qed
qed

lemma dir_lookup_mem: "dir_lookup name es \<noteq> 0 \<Longrightarrow> \<exists>e\<in>set es. de_ino e = dir_lookup name es"
  by (induction es) (auto simp: dir_lookup_Cons dir_lookup_def [of name "[]"])

lemma dir_lookup_in_tree:
  assumes "volume d s tree" "tree ino = Some (Dir ess)" "dir_lookup name (concat ess) \<noteq> 0"
  shows "tree (dir_lookup name (concat ess)) \<noteq> None"
proof -
  obtain e where "e \<in> set (concat ess)" "de_ino e = dir_lookup name (concat ess)"
    using dir_lookup_mem [OF assms(3)] by blast
  then show ?thesis using assms unfolding volume_def by metis
qed

lemma split_slash:
  assumes "c \<notin> set p"
  shows "takeWhile (\<lambda>x. x \<noteq> c) p = p" "dropWhile (\<lambda>x. x \<noteq> c) p = []"
    "takeWhile (\<lambda>x. x \<noteq> c) (p @ c # r) = p" "dropWhile (\<lambda>x. x \<noteq> c) (p @ c # r) = c # r"
  using assms by (induction p) auto

lemma path_loop_eq:
  assumes "volume d s tree" "tree cur \<noteq> None" "\<forall>c\<in>set cs. comp_ok c"
  shows "\<exists>s'. path_loop d cur (join_path cs) s = Some (lookup_path tree cur cs, s') \<and> vol_frame s s'"
  using assms
proof (induction cs arbitrary: cur s)
  case Nil
  then show ?case by (simp add: path_loop.simps vol_frame_refl volume_def)
next
  case (Cons c cs)
  have c: "c \<noteq> []" "\<not> 255 \<le> length c" "length c < 256" "0x2F \<notin> set c" "0 \<notin> set c" using Cons.prems(3) by (simp_all add: comp_ok_def)
  have tw: "takeWhile (\<lambda>x. x \<noteq> 0x2F) (join_path (c # cs)) = c" "drop 1 (dropWhile (\<lambda>x. x \<noteq> 0x2F) (join_path (c # cs))) = join_path cs"
    by (cases cs; simp add: split_slash [OF c(4)])+
  have ne: "join_path (c # cs) \<noteq> []" using c(1) by (cases cs) simp_all
  obtain n where n: "tree cur = Some n" using Cons.prems(2) by auto
  let ?r = "case n of Dir ess \<Rightarrow> dir_lookup c (concat ess) | File _ \<Rightarrow> 0"
  obtain s1 where s1: "dir_find d cur c s = Some (?r, s1)" "vol_frame s s1"
    using dir_find_eq [OF Cons.prems(1) n c(5,3)] by blast
  have step: "path_loop d cur (join_path (c # cs)) s = (if ?r = 0 then Some (0, s1) else path_loop d ?r (join_path cs) s1)"
    using ne c(1,2) s1(1) by (subst path_loop.simps) (simp only: Let_def tw if_False simp_thms Option.bind.bind_lunit prod.case)
  show ?case
  proof (cases "?r = 0")
    case True
    then show ?thesis using step n s1(2) by (auto split: node.splits)
  next
    case False
    then obtain ess where ess: "n = Dir ess" by (cases n) auto
    have "tree ?r \<noteq> None" using dir_lookup_in_tree [OF Cons.prems(1), of cur ess c] n ess False by simp
    from Cons.IH [OF volume_frame [OF Cons.prems(1) s1(2)] this] Cons.prems(3) obtain s' where
      "path_loop d ?r (join_path cs) s1 = Some (lookup_path tree ?r cs, s')" "vol_frame s1 s'" by auto
    then show ?thesis using step False n ess vol_frame_trans [OF s1(2)] by auto
  qed
qed

lemma resolve_path_eq:
  assumes "volume d s tree" "cstr path = 0x2F # join_path cs" "\<forall>c\<in>set cs. comp_ok c"
  shows "\<exists>s'. resolve_path d path s = Some (lookup_path tree EXT2_ROOT_INO cs, s') \<and> vol_frame s s'"
proof (cases cs)
  case Nil
  then show ?thesis using assms by (simp add: resolve_path_def vol_frame_refl volume_def)
next
  case (Cons c cs')
  then have "join_path cs \<noteq> []" using assms(3) by (cases cs') (simp_all add: comp_ok_def)
  then have "resolve_path d path s = path_loop d EXT2_ROOT_INO (join_path cs) s"
    unfolding resolve_path_def assms(2) Let_def by simp
  then show ?thesis using path_loop_eq [OF assms(1) _ assms(3)] assms(1) by (simp add: volume_def)
qed

section \<open>Printing a file\<close>

text \<open>The buffer after a chunk: its bytes, a terminator and what was there before.\<close>

definition cat_after :: "bytes \<Rightarrow> bytes \<Rightarrow> bytes" where
  "cat_after got buf = got @ 0 # drop (Suc (length got)) buf"

lemma cat_after_eq: "length got < length buf \<Longrightarrow> write_at (length got) [0] (write_at 0 got buf) = cat_after got buf"
  using write_at_append [of 0 got "[0]" buf] by (simp add: write_at_def cat_after_def)

lemma cat_turn:
  assumes "ext2_ok s" "sectors_full d" "unat fsz = length c" "unat offset < length c" "0 \<notin> set c"
    and "\<forall>off<length c. byte_readable d (g_block_size s) (cat_save s) off \<and> file_byte d (g_block_size s) (cat_save s) off = c ! off"
  defines "k \<equiv> min CAT_CHUNK (length c - unat offset)"
  defines "got \<equiv> take k (drop (unat offset) c)"
  shows "\<exists>t. cat_loop d fsz offset s = cat_loop d fsz (offset + word_of_nat k) t \<and> unat (offset + word_of_nat k) = unat offset + k \<and>
    ext2_ok t \<and> g_block_size t = g_block_size s \<and> cat_save t = cat_save s \<and> screen t = screen s @ got \<and> cat_buf t = cat_after got (cat_buf s)"
proof -
  let ?s = "s\<lparr>g_inode_buf := cat_save s\<rparr>"
  define chunk where "chunk = (if fsz - offset > word_of_nat CAT_CHUNK then word_of_nat CAT_CHUNK else fsz - offset)"
  have lt: "offset < fsz" using assms(3,4) by (simp add: word_less_nat_alt)
  then have d: "unat (fsz - offset) = length c - unat offset" using assms(3) by (simp add: unat_sub less_imp_le)
  have k: "0 < k" "k \<le> 512" "unat offset + k \<le> length c" using assms(4) by (auto simp: k_def CAT_CHUNK_def)
  have ch: "unat chunk = k" using d by (auto simp: chunk_def k_def word_less_nat_alt CAT_CHUNK_def)
  have big: "unat offset + k < 2 ^ 32" using k(3) assms(3) unsigned_less [of fsz, where 'a = nat] by simp
  have ok: "ext2_ok ?s" using assms(1) by (simp add: ext2_ok_def)
  have "min (unat offset + unat chunk) (unat fsz) = unat offset + k" using ch k(3) assms(3) by simp
  then obtain s1 where s1: "inode_read d fsz offset chunk ?s =
      Some (map (file_byte d (g_block_size s) (cat_save s)) [unat offset..<unat offset + k], s1)" "data_frame ?s s1"
    using inode_read_refines [OF ok assms(2), of offset chunk fsz] assms(6) k(3) big ch by auto
  have got: "map (file_byte d (g_block_size s) (cat_save s)) [unat offset..<unat offset + k] = got"
    using assms(6) k(3) by (intro nth_equalityI) (simp_all add: got_def)
  have l: "length got = k" "0 \<notin> set got" "got \<noteq> []"
    using k assms(5) by (auto simp: got_def dest: in_set_takeD in_set_dropD)
  have f: "length (cat_buf s1) = 513" "cat_buf s1 = cat_buf s" "screen s1 = screen s" "cat_save s1 = cat_save s" "g_block_size s1 = g_block_size s" "ext2_ok s1"
    using s1(2) assms(1) data_frame_ok [OF ok s1(2)] by (cases s; cases s1; simp add: data_frame_def ext2_ok_def CAT_CHUNK_def)+
  let ?t = "s1\<lparr>cat_buf := cat_after got (cat_buf s1), screen := screen s1 @ got\<rparr>"
  have ca: "write_at (length got) [0] (write_at 0 got (cat_buf s1)) = cat_after got (cat_buf s1)"
    using l(1) k(2) f(1) by (intro cat_after_eq) simp
  have "cat_loop d fsz offset s = cat_loop d fsz (offset + word_of_nat k) ?t"
    using lt s1(1) l ca cstr_append_nul [OF l(2)]
    by (subst cat_loop.simps) (simp add: chunk_def [symmetric] got print_def Let_def cat_after_def)
  moreover have "unat (offset + word_of_nat k) = unat offset + k"
    using big k(2) by (simp add: unat_word_ariths unat_of_nat_small)
  moreover have "ext2_ok ?t" using f l(1) k(2) by (simp add: ext2_ok_def cat_after_def CAT_CHUNK_def)
  ultimately show ?thesis using f by (intro exI [of _ ?t]) simp
qed

text \<open>The last chunk of a text that was printed in chunks of 512 bytes.\<close>

definition last_chunk :: "bytes \<Rightarrow> bytes \<Rightarrow> bool" where
  "last_chunk c buf \<longleftrightarrow> (\<exists>pre got b. c = pre @ got \<and> got \<noteq> [] \<and> length got \<le> CAT_CHUNK \<and> CAT_CHUNK dvd length pre \<and>
     length b = CAT_CHUNK + 1 \<and> buf = cat_after got b)"

lemma last_chunk_one: "c \<noteq> [] \<Longrightarrow> length c \<le> CAT_CHUNK \<Longrightarrow> length b = CAT_CHUNK + 1 \<Longrightarrow> last_chunk c (cat_after c b)"
  unfolding last_chunk_def by (intro exI [of _ "[]"] exI [of _ c] exI [of _ b]) simp

lemma last_chunk_append: "last_chunk c buf \<Longrightarrow> length a = CAT_CHUNK \<Longrightarrow> last_chunk (a @ c) buf"
  unfolding last_chunk_def by (elim exE conjE, rule_tac x = "a @ pre" in exI) auto

lemma cat_loop_end: "cat_loop d fsz fsz s = Some (fsz, s)"
  by (subst cat_loop.simps) simp

lemma cat_loop_eq:
  assumes "ext2_ok s" "sectors_full d" "unat fsz = length c" "unat offset < length c" "0 \<notin> set c"
    and "\<forall>off<length c. byte_readable d (g_block_size s) (cat_save s) off \<and> file_byte d (g_block_size s) (cat_save s) off = c ! off"
  shows "\<exists>s'. cat_loop d fsz offset s = Some (fsz, s') \<and> screen s' = screen s @ drop (unat offset) c \<and>
    last_chunk (drop (unat offset) c) (cat_buf s')"
  using assms
proof (induction "length c - unat offset" arbitrary: offset s rule: less_induct)
  case less
  let ?k = "min CAT_CHUNK (length c - unat offset)"
  let ?got = "take ?k (drop (unat offset) c)"
  obtain t where t: "cat_loop d fsz offset s = cat_loop d fsz (offset + word_of_nat ?k) t" "unat (offset + word_of_nat ?k) = unat offset + ?k"
      "ext2_ok t" "g_block_size t = g_block_size s" "cat_save t = cat_save s" "screen t = screen s @ ?got" "cat_buf t = cat_after ?got (cat_buf s)"
    using cat_turn [OF less.prems] by (elim exE conjE) (rule that)
  have k: "0 < ?k" using less.prems(4) by (auto simp: CAT_CHUNK_def)
  show ?case
  proof (cases "unat offset + ?k < length c")
    case True
    then have k512: "?k = CAT_CHUNK" by auto
    have dec: "length c - unat (offset + word_of_nat ?k) < length c - unat offset" using t(2) k True by linarith
    obtain s' where "cat_loop d fsz (offset + word_of_nat ?k) t = Some (fsz, s')" "screen s' = screen t @ drop (unat offset + ?k) c"
        "last_chunk (drop (unat offset + ?k) c) (cat_buf s')"
      using less.hyps [OF dec t(3)] less.prems t(2-5) True k512 by auto
    moreover have "drop (unat offset) c = ?got @ drop (unat offset + ?k) c"
      by (metis append_take_drop_id drop_drop add.commute)
    moreover have "length ?got = CAT_CHUNK" using True k512 by simp
    ultimately show ?thesis using t(1,6) last_chunk_append [of "drop (unat offset + ?k) c" _ ?got] by (intro exI [of _ s']) simp
  next
    case False
    then have all: "unat offset + ?k = length c" "length c - unat offset \<le> CAT_CHUNK" using less.prems(4) by auto
    then have got: "?got = drop (unat offset) c" by simp
    have "offset + word_of_nat ?k = fsz" using t(2) all(1) less.prems(3) by (simp add: word_unat_eq_iff)
    then have "cat_loop d fsz offset s = Some (fsz, t)" using t(1) cat_loop_end by simp
    moreover have "last_chunk (drop (unat offset) c) (cat_buf t)"
      using less.prems(1,4) all(2) unfolding t(7) got by (intro last_chunk_one) (simp_all add: ext2_ok_def)
    ultimately show ?thesis using t(6) got by simp
  qed
qed

lemma last_chunk_first:
  assumes "last_chunk c buf" "0 \<notin> set c"
  shows "\<exists>x. get_u8 buf 0 = Some x \<and> x \<noteq> 0" "length buf = CAT_CHUNK + 1"
  using assms by (auto simp: last_chunk_def cat_after_def get_u8_def nth_append neq_Nil_conv)

lemma last_chunk_last:
  assumes "last_chunk c buf" "length c < CAT_CHUNK"
  shows "get_u8 buf (length c - 1) = Some (last c)"
proof -
  obtain pre got b where e: "c = pre @ got" "got \<noteq> []" "CAT_CHUNK dvd length pre" "buf = cat_after got b"
    using assms(1) unfolding last_chunk_def by blast
  then have "pre = []" using assms(2) by (auto dest: dvd_imp_le)
  then show ?thesis using e by (simp add: get_u8_def cat_after_def nth_append last_conv_nth)
qed

lemma file_node:
  assumes "volume d s tree" "tree ino = Some (File c)"
  shows "ino \<noteq> 0" "inode_mode (inode_of d s ino) AND EXT2_S_IFREG \<noteq> 0" "unat (inode_length (inode_of d s ino)) = length c"
    "\<forall>off<length c. byte_readable d (g_block_size s) (inode_of d s ino) off \<and> file_byte d (g_block_size s) (inode_of d s ino) off = c ! off"
  using assms unfolding volume_def by (fastforce simp: inode_readable_def)+

lemma cat_index:
  assumes "w \<noteq> 0"
  shows "unat ((if w > 512 then 512 else w mod 512) - 1 :: u32) = (if unat w > 512 then 512 - 1 else if unat w = 512 then 2 ^ 32 - 1 else unat w - 1)"
proof -
  have "w = 512" if "unat w = 512" using that by (simp add: word_unat_eq_iff)
  then consider "unat w > 512" | "w = 512" | "unat w < 512" by linarith
  then show ?thesis
  proof cases
    case 3
    then have "w mod 512 = w" by (simp add: word_unat_eq_iff unat_mod)
    moreover have "unat (w - 1) = unat w - 1" using assms by (simp add: unat_sub word_le_nat_alt unat_gt_0 Suc_leI)
    ultimately show ?thesis using 3 by (simp add: word_less_nat_alt)
  next
    case 2
    have "unat (- 1 :: u32) = 2 ^ 32 - 1" by (simp add: unsigned_minus_1_eq_mask mask_eq_exp_minus_1)
    then show ?thesis using 2 by simp
  qed (simp add: word_less_nat_alt)
qed

text \<open>Up to the lf at the end.\<close>

lemma cat_prints:
  assumes "volume d s tree" "g_mounted s" "cstr path = 0x2F # join_path cs" "\<forall>p\<in>set cs. comp_ok p"
    and "tree (lookup_path tree EXT2_ROOT_INO cs) = Some (File c)" "c \<noteq> []" "0 \<notin> set c"
  shows "\<exists>s'. screen s' = screen s @ c \<and> last_chunk c (cat_buf s') \<and> ext2_cat d path s =
    Option.bind (get_u8 (cat_buf s') (if length c > CAT_CHUNK then CAT_CHUNK - 1 else if length c = CAT_CHUNK then 2 ^ 32 - 1 else length c - 1))
      (\<lambda>x. Some (if x \<noteq> 0x0A then print lf s' else s'))"
proof -
  define ino where "ino = lookup_path tree EXT2_ROOT_INO cs"
  obtain s1 where s1: "resolve_path d path s = Some (ino, s1)" "vol_frame s s1"
    using resolve_path_eq [OF assms(1,3,4)] by (auto simp: ino_def)
  note t = assms(5) [folded ino_def] and v1 = volume_frame [OF assms(1) s1(2)]
  note fn = file_node [OF v1 t]
  obtain s2 r where s2: "read_inode d ino s1 = Some (True, s2)" "g_inode_buf s2 = inode_of d s1 ino @ r" "128 \<le> length (inode_of d s1 ino)"
    "vol_frame s1 s2" "get_u16 (g_inode_buf s2) 0 = Some (inode_mode (inode_of d s1 ino))"
    "get_u32 (g_inode_buf s2) 4 = Some (inode_length (inode_of d s1 ino))"
    by (rule read_node [OF v1 t])
  let ?fsz = "inode_length (inode_of d s1 ino)" and ?s = "s2\<lparr>cat_save := g_inode_buf s2\<rparr>"
  have ok: "ext2_ok ?s" "sectors_full d" using vol_frame_ok [OF s2(4)] assms(1) by (simp_all add: ext2_ok_def volume_def)
  have "\<forall>off<length c. byte_readable d (g_block_size ?s) (cat_save ?s) off \<and> file_byte d (g_block_size ?s) (cat_save ?s) off = c ! off"
    using fn(4) s2(2) inode_append(3,4) [OF s2(3)] vol_frame_inode(3) [OF s2(4)] by simp
  then obtain s' where s': "cat_loop d ?fsz 0 ?s = Some (?fsz, s')" "screen s' = screen ?s @ c" "last_chunk c (cat_buf s')"
    using cat_loop_eq [OF ok fn(3) _ assms(7), where offset = 0] assms(6) by auto
  obtain x where x: "get_u8 (cat_buf s') 0 = Some x" "x \<noteq> 0" using last_chunk_first(1) [OF s'(3) assms(7)] by blast
  have n0: "?fsz \<noteq> 0" "0 < ?fsz" using fn(3) assms(6) by (auto simp: word_gt_0)
  have idx: "unat ((if ?fsz > word_of_nat CAT_CHUNK then word_of_nat CAT_CHUNK else ?fsz mod word_of_nat CAT_CHUNK) - 1 :: u32) =
      (if length c > CAT_CHUNK then CAT_CHUNK - 1 else if length c = CAT_CHUNK then 2 ^ 32 - 1 else length c - 1)"
    using cat_index [OF n0(1), unfolded fn(3)] unfolding CAT_CHUNK_def of_nat_numeral .
  have "ext2_cat d path s = Option.bind (get_u8 (cat_buf s') (unat ((if ?fsz > word_of_nat CAT_CHUNK then word_of_nat CAT_CHUNK else ?fsz mod word_of_nat CAT_CHUNK) - 1)))
      (\<lambda>x. Some (if x \<noteq> 0x0A then print lf s' else s'))"
    using assms(2) s1(1) fn(1,2) s2(1,5,6) s'(1) x n0 by (simp add: ext2_cat_def Let_def)
  moreover have "screen s' = screen s @ c"
    using s'(2) vol_frame_inode(5) [OF s1(2)] vol_frame_inode(5) [OF s2(4)] by simp
  ultimately show ?thesis using s'(3) unfolding idx by blast
qed

text \<open>
  C33. A path leads where the directories say. On a volume that holds a tree of files and directories, looking up
  an absolute path walks from the root through the entries of each directory, first match first; a name that is
  missing, and a file in the place of a directory, give 0. The walk ends, reads no buffer past its end and changes
  nothing but the scratch buffers.
\<close>

theorem resolve_path_refines_tree:
  assumes "volume d s tree" "cstr path = 0x2F # join_path cs" "\<forall>c\<in>set cs. comp_ok c"
  shows "\<exists>s'. resolve_path d path s = Some (lookup_path tree EXT2_ROOT_INO cs, s') \<and> vol_frame s s'"
  using assms by (rule resolve_path_eq)

text \<open>
  C34. Printing a file shows its bytes. On a mounted volume that holds a tree, \<open>ext2_cat\<close> of a path that leads
  to a file without NUL bytes appends the whole file to the screen, followed by a lf when a file shorter than
  512 bytes does not end with one; for longer files the lf depends on a stale byte. For a file of exactly 512
  bytes the code looks for the last character at index 4294967295 of its buffer: that is a read far outside of it.
\<close>

theorem ext2_cat_correct:
  assumes "volume d s tree" "g_mounted s" "cstr path = 0x2F # join_path cs" "\<forall>p\<in>set cs. comp_ok p"
    and "tree (lookup_path tree EXT2_ROOT_INO cs) = Some (File c)" "c \<noteq> []" "0 \<notin> set c"
  shows "if length c = 512 then ext2_cat d path s = None
    else \<exists>s' nl. ext2_cat d path s = Some s' \<and> screen s' = screen s @ c @ nl \<and> (nl = [] \<or> nl = [0x0A]) \<and>
      (length c < 512 \<longrightarrow> (nl = [] \<longleftrightarrow> last c = 0x0A))"
proof -
  obtain s' where s': "screen s' = screen s @ c" "last_chunk c (cat_buf s')" "ext2_cat d path s =
      Option.bind (get_u8 (cat_buf s') (if length c > CAT_CHUNK then CAT_CHUNK - 1 else if length c = CAT_CHUNK then 2 ^ 32 - 1 else length c - 1))
        (\<lambda>x. Some (if x \<noteq> 0x0A then print lf s' else s'))"
    using cat_prints [OF assms] by (elim exE conjE) (rule that)
  have len: "length (cat_buf s') = 513" using last_chunk_first(2) [OF s'(2) assms(7)] by (simp add: CAT_CHUNK_def)
  have nl: "screen (if x \<noteq> 0x0A then print lf s' else s') = screen s @ c @ (if x \<noteq> 0x0A then [0x0A] else [])" for x :: u8
    using s'(1) by (simp add: print_def cstr_Cons)
  consider "length c < 512" | "length c = 512" | "512 < length c" by linarith
  then show ?thesis
  proof cases
    case 1
    then have "get_u8 (cat_buf s') (length c - 1) = Some (last c)" using last_chunk_last [OF s'(2)] by (simp add: CAT_CHUNK_def)
    then have "ext2_cat d path s = Some (if last c \<noteq> 0x0A then print lf s' else s')" using 1 s'(3) by (simp add: CAT_CHUNK_def)
    then show ?thesis using 1 nl [of "last c"] by auto
  next
    case 2
    then show ?thesis using s'(3) len by (simp add: CAT_CHUNK_def get_u8_def)
  next
    case 3
    obtain x where "get_u8 (cat_buf s') (CAT_CHUNK - 1) = Some x" using len by (simp add: get_u8_def CAT_CHUNK_def)
    then have "ext2_cat d path s = Some (if x \<noteq> 0x0A then print lf s' else s')" using 3 s'(3) by (simp add: CAT_CHUNK_def)
    then show ?thesis using 3 nl [of x] by auto
  qed
qed

section \<open>Mounting\<close>

text \<open>The fields of a superblock.\<close>

definition superblock :: "disk \<Rightarrow> bytes" where "superblock d = sectors d 2 @ sectors d 3"
definition sb_magic :: "disk \<Rightarrow> u16" where "sb_magic d = le_word (take 2 (drop 56 (superblock d)))"
definition sb_log_block_size :: "disk \<Rightarrow> u32" where "sb_log_block_size d = le_word (take 4 (drop 24 (superblock d)))"
definition sb_inodes_per_grp :: "disk \<Rightarrow> u32" where "sb_inodes_per_grp d = le_word (take 4 (drop 40 (superblock d)))"

definition sb_readable :: "disk \<Rightarrow> bool" where
  "sb_readable d \<longleftrightarrow> present d \<and> sectors_full d \<and> ata_access 2 d \<and> ata_access 3 d"

lemma read_superblock:
  assumes "sb_readable d" "length buf = 1024"
  shows "read_sectors d 2 2 buf = (True, superblock d)" "length (superblock d) = 1024"
  using assms by (simp_all add: read_sectors_def sb_readable_def sectors_full_def superblock_def ata_read_sector_def write_at_def upt_rec)

lemma print_same [simp]: "g_block_size (print x s) = g_block_size s" "g_inode_size (print x s) = g_inode_size s"
  "g_inodes_per_grp (print x s) = g_inodes_per_grp s" "g_mounted (print x s) = g_mounted s"
  by (simp_all add: print_def)

lemma mount_cases:
  assumes "sb_readable d" "sb_magic d = EXT2_MAGIC" "length (g_sb_buf s) = 1024"
  defines "bs \<equiv> push_bit (unat (sb_log_block_size d) mod 32) 1024"
  shows "\<exists>s'. ext2_mount d s = Some (\<not> 4096 < bs, s') \<and> g_mounted s' = (\<not> 4096 < bs) \<and> g_block_size s' = bs \<and>
    (\<not> 4096 < bs \<longrightarrow> g_inodes_per_grp s' = sb_inodes_per_grp d \<and> g_inode_size s' \<le> 256)"
proof -
  note sb = read_superblock [OF assms(1,3)]
  have f: "get_u16 (superblock d) 56 = Some (sb_magic d)" "get_u32 (superblock d) 24 = Some (sb_log_block_size d)"
    "get_u32 (superblock d) 40 = Some (sb_inodes_per_grp d)"
    using sb(2) by (simp_all add: get_u16_def get_u32_def slice_def sb_magic_def sb_log_block_size_def sb_inodes_per_grp_def)
  obtain x y z where g: "get_u32 (superblock d) 32 = Some x" "get_u32 (superblock d) 76 = Some y" "get_u16 (superblock d) 88 = Some z"
    using sb(2) by (simp add: get_u16_def get_u32_def slice_def)
  have le: "\<not> (256 :: u32) < ucast z \<Longrightarrow> ucast z \<le> (256 :: u32)" by (simp add: linorder_not_less)
  have "ata_disk_present d" using assms(1) by (simp add: sb_readable_def ata_disk_present_def)
  then show ?thesis
    using sb(1) f g assms(2) by (simp add: ext2_mount_def Let_def bs_def [symmetric] EXT2_MAX_BLOCK_def print_uint_def le)
qed

lemma shifted_block_size:
  assumes "k < 32"
  shows "4096 < (push_bit k 1024 :: u32) \<longleftrightarrow> 2 < k \<and> k < 22" "(push_bit k 1024 :: u32) = 0 \<longleftrightarrow> 22 \<le> k"
    "k \<le> 2 \<Longrightarrow> unat (push_bit k 1024 :: u32) = 1024 * 2 ^ k"
proof -
  have p: "unat (push_bit k 1024 :: u32) = 2 ^ (10 + k) mod 2 ^ 32"
    unfolding unsigned_push_bit_eq by (simp add: push_bit_eq_mult take_bit_eq_mod power_add)
  show "4096 < (push_bit k 1024 :: u32) \<longleftrightarrow> 2 < k \<and> k < 22" "(push_bit k 1024 :: u32) = 0 \<longleftrightarrow> 22 \<le> k"
    "k \<le> 2 \<Longrightarrow> unat (push_bit k 1024 :: u32) = 1024 * 2 ^ k"
  proof (atomize (full), cases "k < 22")
    case True
    then have "(2 :: nat) ^ (10 + k) < 2 ^ 32" by (intro power_strict_increasing) auto
    then have u: "unat (push_bit k 1024 :: u32) = 2 ^ (10 + k)" using p by simp
    moreover have "(2 :: nat) ^ 12 < 2 ^ (10 + k) \<longleftrightarrow> 12 < 10 + k" by (rule power_strict_increasing_iff) simp
    moreover have "(push_bit k 1024 :: u32) \<noteq> 0" using u by (metis unat_0 power_not_zero zero_neq_numeral)
    ultimately show "((4096 < (push_bit k 1024 :: u32)) = (2 < k \<and> k < 22)) \<and> ((push_bit k 1024 = (0 :: u32)) = (22 \<le> k)) \<and>
        (k \<le> 2 \<longrightarrow> unat (push_bit k 1024 :: u32) = 1024 * 2 ^ k)"
      using True by (simp add: word_less_nat_alt power_add)
  next
    case False
    then have "(2 :: nat) ^ 32 dvd 2 ^ (10 + k)" by (intro le_imp_power_dvd) simp
    then have "(push_bit k 1024 :: u32) = 0" using p by (simp add: unat_eq_0 dvd_eq_mod_eq_0)
    then show "((4096 < (push_bit k 1024 :: u32)) = (2 < k \<and> k < 22)) \<and> ((push_bit k 1024 = (0 :: u32)) = (22 \<le> k)) \<and>
        (k \<le> 2 \<longrightarrow> unat (push_bit k 1024 :: u32) = 1024 * 2 ^ k)"
      using False by simp
  qed
qed

lemma zero_block_size_faults:
  assumes "g_mounted s" "g_block_size s = 0" "g_inodes_per_grp s \<noteq> 0"
  shows "ext2_ls d [0x2F] s = None" "ext2_cat d [0x2F] s = None"
  using assms by (simp_all add: ext2_ls_def ext2_cat_def resolve_path_def cstr_Cons EXT2_ROOT_INO_def read_inode_def read_bgd_def Let_def)

text \<open>
  What mounting makes of the block size of a superblock. A logarithm up to 2 gives blocks of 1024, 2048 or
  4096 bytes; one from 3 to 21 is refused. From 22 to 31 the shift leaves zero, which passes the test for blocks
  that are too large: the volume is mounted, and the next command divides by zero.
\<close>

theorem ext2_mount_block_size:
  assumes "sb_readable d" "sb_magic d = EXT2_MAGIC" "length (g_sb_buf s) = 1024" "sb_log_block_size d = word_of_nat k" "k < 32"
  shows "\<exists>s'. ext2_mount d s = Some (k \<le> 2 \<or> 22 \<le> k, s') \<and> g_mounted s' = (k \<le> 2 \<or> 22 \<le> k) \<and>
    (k \<le> 2 \<longrightarrow> unat (g_block_size s') = 1024 * 2 ^ k \<and> g_inode_size s' \<le> 256) \<and>
    (22 \<le> k \<and> sb_inodes_per_grp d \<noteq> 0 \<longrightarrow> ext2_ls d [0x2F] s' = None \<and> ext2_cat d [0x2F] s' = None)"
proof -
  have k: "unat (sb_log_block_size d) mod 32 = k" using assms(4,5) by (simp add: unat_of_nat_small)
  obtain s' where s': "ext2_mount d s = Some (\<not> 4096 < (push_bit k 1024 :: u32), s')" "g_mounted s' = (\<not> 4096 < (push_bit k 1024 :: u32))"
      "g_block_size s' = push_bit k 1024" "\<not> 4096 < (push_bit k 1024 :: u32) \<longrightarrow> g_inodes_per_grp s' = sb_inodes_per_grp d \<and> g_inode_size s' \<le> 256"
    using mount_cases [OF assms(1-3)] unfolding k by blast
  note sh = shifted_block_size [OF assms(5)]
  have "(\<not> 4096 < (push_bit k 1024 :: u32)) = (k \<le> 2 \<or> 22 \<le> k)" unfolding sh(1) by auto
  with s' sh(2,3) show ?thesis using zero_block_size_faults [of s' d] by (intro exI [of _ s']) auto
qed

text \<open>A superblock with the logarithm 22.\<close>

definition bad_disk :: disk where
  "bad_disk = \<lparr>present = True, answers = (\<lambda>_. True), sectors = (\<lambda>l. replicate 24 0 @ [22] @ replicate 15 0 @ [8] @ replicate 15 0 @
     [0x53, 0xEF] @ replicate 454 0)\<rparr>"

theorem ext2_mount_block_size_witness:
  "\<exists>s'. ext2_mount bad_disk ext2_boot = Some (True, s') \<and> ext2_ls bad_disk [0x2F] s' = None"
proof -
  have "sb_readable bad_disk" by (simp add: sb_readable_def bad_disk_def sectors_full_def ata_access_def ATA_LBA28_MAX_def)
  moreover have "sb_magic bad_disk = EXT2_MAGIC" "sb_log_block_size bad_disk = word_of_nat 22" "sb_inodes_per_grp bad_disk \<noteq> 0"
    by (simp_all add: sb_magic_def sb_log_block_size_def sb_inodes_per_grp_def superblock_def bad_disk_def EXT2_MAGIC_def le_word_Cons le_word_zeros)
  moreover have "length (g_sb_buf ext2_boot) = 1024" by (simp add: ext2_boot_def)
  ultimately show ?thesis using ext2_mount_block_size [of bad_disk ext2_boot 22] by auto
qed

section \<open>A listing that does not end\<close>

text \<open>
  In a directory whose size is within one block of the end of the 32-bit range the offset wraps around to 0 instead of reaching
  the size. With holes for blocks, the loop of the listing goes on for ever.
\<close>

lemma get_block_hole:
  assumes "\<forall>k<15. inode_ptr (g_inode_buf s) k = 0" "length (g_inode_buf s) = 256"
  shows "inode_get_block d idx s = Some (0, s)"
proof -
  have p: "get_u32 (g_inode_buf s) (INO_BLOCK + k * 4) = Some 0" if "k < 15" for k
    using get_u32_inode [OF assms(2) that] assms(1) that by simp
  show ?thesis using p [of 12] p [of 13] p [of "unat idx"]
    by (cases "idx < 12") (simp_all add: inode_get_block_def Let_def word_less_nat_alt)
qed

lemma wrap_below:
  assumes "valid_bs bs" "2 ^ 32 < unat n + unat bs" "unat offset mod unat bs = 0"
  shows "offset < n" "unat (offset + bs) mod unat bs = 0"
proof -
  obtain k where k: "2 ^ 32 = unat bs * k" using assms(1) by (auto simp: valid_bs_def intro: that [of "2 ^ 22"] that [of "2 ^ 21"] that [of "2 ^ 20"])
  obtain m where m: "unat offset = unat bs * m" using assms(3) by (auto simp: mod_eq_0_iff_dvd dvd_def)
  have "unat offset < 2 ^ 32" using unsigned_less [of offset, where 'a = nat] by simp
  then have "Suc m \<le> k" unfolding k m by simp
  then have "unat offset + unat bs \<le> 2 ^ 32" unfolding k m using mult_le_mono2 [of "Suc m" k "unat bs"] by simp
  then show "offset < n" using assms(2) by (simp add: word_less_nat_alt)
  have "unat (offset + bs) = (unat offset + unat bs) mod (unat bs * k)" by (simp add: unat_word_ariths k [symmetric])
  then show "unat (offset + bs) mod unat bs = 0" using assms(3) by (simp add: mod_mod_cancel)
qed

definition ls_stuck :: "u32 \<Rightarrow> u32 \<Rightarrow> ext2 \<Rightarrow> bool" where
  "ls_stuck n offset s \<longleftrightarrow> valid_bs (g_block_size s) \<and> 2 ^ 32 < unat n + unat (g_block_size s) \<and>
     unat offset mod unat (g_block_size s) = 0 \<and> (\<forall>k<15. inode_ptr (ls_save s) k = 0) \<and> length (ls_save s) = 256"

lemma ls_stuck_never_ends:
  assumes "ls_stuck n offset s"
  shows "ls_loop d n offset s = None"
proof -
  have "\<not> ls_stuck n offset s" if "ls_loop d n offset s = Some y" for y
  proof (rule ls_loop.raw_induct [where P = "\<lambda>d n offset s y. \<not> ls_stuck n offset s", OF _ that], rule notI)
    fix loop :: "disk \<Rightarrow> u32 \<Rightarrow> u32 \<Rightarrow> ext2 \<Rightarrow> ext2 option" and d n offset s y
    assume IH: "\<And>d n offset s y. loop d n offset s = Some y \<Longrightarrow> \<not> ls_stuck n offset s" and "ls_stuck n offset s"
    note a = \<open>ls_stuck n offset s\<close> [unfolded ls_stuck_def]
    note w = wrap_below [OF a [THEN conjunct1] a [THEN conjunct2, THEN conjunct1] a [THEN conjunct2, THEN conjunct2, THEN conjunct1]]
    let ?s = "s\<lparr>g_inode_buf := ls_save s\<rparr>"
    assume "(if offset < n then let bs = g_block_size s in if bs = 0 then None
        else let blk_idx = offset div bs; s = s\<lparr>g_inode_buf := ls_save s\<rparr>
        in do { (blk_no, s) \<leftarrow> inode_get_block d blk_idx s; let s = s\<lparr>g_inode_buf := ls_save s\<rparr>;
          if blk_no = 0 then loop d n (offset + bs) s
          else let (ok, buf) = ext2_read_block d bs blk_no (g_dir_buf s); s = s\<lparr>g_dir_buf := buf\<rparr>
          in if \<not> ok then Some s
          else let block_limit = (if (blk_idx + 1) * bs > n then n - blk_idx * bs else bs)
          in do { s \<leftarrow> ls_block d (unat block_limit) 0 s; loop d n (offset + bs) s } }
      else Some s) = Some y"
    then have "loop d n (offset + g_block_size s) ?s = Some y"
      using w(1) a valid_bs_cases(5) get_block_hole [of ?s] by (simp add: Let_def)
    from IH [OF this] show False using a w(2) by (simp add: ls_stuck_def)
  qed
  then show ?thesis using assms by (cases "ls_loop d n offset s") auto
qed
section \<open>A small volume\<close>

text \<open>Group descriptors in block 2, inodes in block 5, the root directory in block 6 and a file in block 7.\<close>

definition demo_entry :: dirent where
  "demo_entry = \<lparr>de_ino = 3, de_type = 1, de_name = [0x66], de_pad = replicate 1015 0\<rparr>"

definition demo_inode :: "u16 \<Rightarrow> u32 \<Rightarrow> u32 \<Rightarrow> bytes" where
  "demo_inode mode fsz b = le_bytes 2 mode @ [0, 0] @ le_bytes 4 fsz @ replicate 32 0 @ le_bytes 4 b @ replicate 84 0"

definition vol_block :: "nat \<Rightarrow> bytes" where
  "vol_block b =
     (if b = 2 then replicate 8 0 @ le_bytes 4 (5 :: u32) @ replicate 1012 0
      else if b = 5 then replicate 128 0 @ demo_inode 0x4000 1024 6 @ demo_inode 0x8000 3 7 @ replicate 640 0
      else if b = 6 then de_bytes demo_entry
      else [0x68, 0x69, 0x0A] @ replicate 1021 0)"

definition vol_disk :: disk where
  "vol_disk = \<lparr>present = True, answers = (\<lambda>_. True), sectors = (\<lambda>l. take 512 (drop (l mod 2 * 512) (vol_block (l div 2))))\<rparr>"

definition vol_state :: ext2 where
  "vol_state = ext2_boot\<lparr>g_mounted := True, g_inodes_per_grp := 8, g_bgdt_block := 2\<rparr>"

definition vol_tree :: "u32 \<rightharpoonup> node" where
  "vol_tree = [2 \<mapsto> Dir [[demo_entry]], 3 \<mapsto> File [0x68, 0x69, 0x0A]]"

lemma length_vol_block [simp]: "length (vol_block b) = 1024"
  by (simp add: vol_block_def demo_inode_def de_len_def demo_entry_def)

lemma vol_content: "b \<in> {2, 5, 6, 7} \<Longrightarrow> block_content vol_disk 1024 b = vol_block (unat b) \<and> block_readable vol_disk 1024 b"
  by (auto simp: block_content_def block_readable_def ext2_sector_def vol_disk_def ata_access_def ATA_LBA28_MAX_def upt_rec
      simp del: set_upt)

lemma vol_inodes:
  "inode_of vol_disk vol_state 2 = demo_inode 0x4000 1024 6" "inode_readable vol_disk vol_state 2"
  "inode_of vol_disk vol_state 3 = demo_inode 0x8000 3 7" "inode_readable vol_disk vol_state 3"
proof -
  have s: "g_block_size vol_state = 1024" "g_inode_size vol_state = 128" "g_inodes_per_grp vol_state = 8" "g_bgdt_block vol_state = 2"
    by (simp_all add: vol_state_def ext2_boot_def)
  have "le_word (take 4 (drop 8 (bgd_of vol_disk vol_state 0))) = (5 :: u32)"
    using vol_content [of 2] by (simp add: bgd_of_def s vol_block_def)
  then have b: "inode_block vol_disk vol_state 2 = 5" "inode_block vol_disk vol_state 3 = 5" "inode_off vol_state 2 = 128" "inode_off vol_state 3 = 256"
    by (simp_all add: inode_block_def inode_off_def s)
  have l: "length (demo_inode m f p) = 128" for m f p by (simp add: demo_inode_def)
  show "inode_of vol_disk vol_state 2 = demo_inode 0x4000 1024 6" "inode_of vol_disk vol_state 3 = demo_inode 0x8000 3 7"
    using vol_content [of 5] by (simp_all add: inode_of_def b s vol_block_def l)
  show "inode_readable vol_disk vol_state 2" "inode_readable vol_disk vol_state 3"
    using vol_content [of 5] vol_content [of 2] by (simp_all add: inode_readable_def b s)
qed

lemma demo_inode_fields:
  "inode_mode (demo_inode m f b) = m" "inode_length (demo_inode m f b) = f" "inode_ptr (demo_inode m f b) 0 = b"
  by (simp_all add: inode_mode_def inode_length_def inode_ptr_def ptr_at_def demo_inode_def INO_BLOCK_def)

lemma vol_ok: "volume vol_disk vol_state vol_tree"
proof -
  have bs: "g_block_size vol_state = 1024" by (simp add: vol_state_def ext2_boot_def)
  have l: "logical_block vol_disk 1024 (demo_inode m f b) 0 = b" "map_readable vol_disk 1024 (demo_inode m f b) 0" for m f b
    by (simp_all add: logical_block_def map_readable_def block_path_def demo_inode_fields)
  have e: "de_ok demo_entry" by (simp add: de_ok_def de_len_def demo_entry_def)
  have dir: "node_on vol_disk vol_state 2 (Dir [[demo_entry]])"
    using vol_content [of 6] e by (simp add: vol_inodes demo_inode_fields bs dir_block_def l EXT2_S_IFDIR_def vol_block_def)
  have "file_byte vol_disk 1024 (demo_inode 0x8000 3 7) off = [0x68, 0x69, 0x0A] ! off" "byte_readable vol_disk 1024 (demo_inode 0x8000 3 7) off"
    if "off < 3" for off
    using that vol_content [of 7] by (simp_all add: file_byte_def byte_readable_def l vol_block_def nth_Cons')
  then have fnode: "node_on vol_disk vol_state 3 (File [0x68, 0x69, 0x0A])"
    by (simp add: vol_inodes demo_inode_fields bs EXT2_S_IFDIR_def EXT2_S_IFREG_def)
  have "sectors_full vol_disk" by (simp add: sectors_full_def vol_disk_def)
  moreover have "ext2_ok vol_state" by (simp add: ext2_ok_def vol_state_def ext2_boot_def valid_bs_def EXT2_MAX_BLOCK_def CAT_CHUNK_def)
  ultimately show ?thesis
    using dir fnode by (simp add: volume_def vol_tree_def EXT2_ROOT_INO_def demo_entry_def)
qed

theorem resolve_path_refines_tree_witness:
  "\<exists>s'. resolve_path vol_disk [0x2F, 0x66] vol_state = Some (3, s') \<and> vol_frame vol_state s'"
  using resolve_path_refines_tree [OF vol_ok, of "[0x2F, 0x66]" "[[0x66]]"]
  by (simp add: cstr_Cons comp_ok_def vol_tree_def EXT2_ROOT_INO_def dir_lookup_def demo_entry_def)

theorem ext2_cat_correct_witness:
  "\<exists>s'. ext2_cat vol_disk [0x2F, 0x66] vol_state = Some s' \<and> screen s' = [0x68, 0x69, 0x0A]"
  using ext2_cat_correct [OF vol_ok, of "[0x2F, 0x66]" "[[0x66]]" "[0x68, 0x69, 0x0A]"]
  by (auto simp: cstr_Cons comp_ok_def vol_tree_def EXT2_ROOT_INO_def dir_lookup_def demo_entry_def vol_state_def ext2_boot_def)

end
