(* ===== verification/Net.thy ===== *)
theory Net
  imports Prelude "HOL-Library.Monad_Syntax"
begin

text \<open>
  The lower layers of the network stack, \<open>src/kernel/net.c\<close>: checksums, the cache of hardware addresses, and the
  frames the stack builds.

  The field \<open>clock\<close> is what \<open>get_ticks\<close> returns. A frame that is handed to the card is appended to \<open>wire\<close>. A received frame is the buffer it was copied to,
  together with its length; reading outside of that buffer, or through a null pointer, is \<open>None\<close>.
\<close>

unbundle bit_operations_syntax

section \<open>Byte order and checksums\<close>

definition be16 :: "bytes \<Rightarrow> nat \<Rightarrow> u16" where
  "be16 b i = push_bit 8 (ucast (b ! i)) OR ucast (b ! (i + 1))"

definition be_u32 :: "bytes \<Rightarrow> nat \<Rightarrow> u32" where
  "be_u32 b i = push_bit 24 (ucast (b ! i)) OR push_bit 16 (ucast (b ! (i + 1))) OR
     push_bit 8 (ucast (b ! (i + 2))) OR ucast (b ! (i + 3))"

fun cksum_sum :: "u32 \<Rightarrow> bytes \<Rightarrow> u32" where
  "cksum_sum acc (a # b # data) = cksum_sum (acc + (push_bit 8 (ucast a) OR ucast b)) data"
| "cksum_sum acc [a] = acc + push_bit 8 (ucast a)"
| "cksum_sum acc [] = acc"

lemma fold_smaller:
  assumes "drop_bit 16 (w :: u32) \<noteq> 0"
  shows "unat ((w AND 0xFFFF) + drop_bit 16 w) = unat w mod 2 ^ 16 + unat w div 2 ^ 16" "unat ((w AND 0xFFFF) + drop_bit 16 w) < unat w"
proof -
  have d: "unat (drop_bit 16 w) = unat w div 2 ^ 16" by (simp add: drop_bit_eq_div unat_div)
  have "w AND 0xFFFF = take_bit 16 w" by (simp add: take_bit_eq_mask mask_eq_exp_minus_1)
  then have "unat (w AND 0xFFFF) = take_bit 16 (unat w)" by (simp only: unsigned_take_bit_eq)
  then have m: "unat (w AND 0xFFFF) = unat w mod 2 ^ 16" by (simp only: take_bit_eq_mod)
  have "unat w < 2 ^ 32" using unsigned_less [of w, where 'a = nat] by simp
  then have q: "unat w div 2 ^ 16 < 2 ^ 16" by (simp add: less_mult_imp_div_less)
  have "0 < unat w div 2 ^ 16" using assms d unat_gt_0 [of "drop_bit 16 w"] by simp
  have "unat w mod 2 ^ 16 + unat w div 2 ^ 16 < 2 ^ 32" using q mod_less_divisor [of "2 ^ 16" "unat w"] by simp
  then show u: "unat ((w AND 0xFFFF) + drop_bit 16 w) = unat w mod 2 ^ 16 + unat w div 2 ^ 16" by (simp add: unat_word_ariths d m)
  have "r + q < r + q * 2 ^ 16" if "0 < q" for r q :: nat using that by simp
  from this [OF \<open>0 < unat w div 2 ^ 16\<close>, of "unat w mod 2 ^ 16"]
  show "unat ((w AND 0xFFFF) + drop_bit 16 w) < unat w" unfolding u by (simp only: mod_div_mult_eq)
qed

function cksum_fold :: "u32 \<Rightarrow> u32" where
  "cksum_fold acc = (if drop_bit 16 acc \<noteq> 0 then cksum_fold ((acc AND 0xFFFF) + drop_bit 16 acc) else acc)"
  by pat_completeness auto
termination
  by (relation "measure unat") (use fold_smaller(2) in auto)

declare cksum_fold.simps [simp del]

definition inet_cksum :: "bytes \<Rightarrow> u16" where
  "inet_cksum data = ucast (NOT (cksum_fold (cksum_sum 0 data)))"

definition transport_cksum :: "bytes \<Rightarrow> bytes \<Rightarrow> u8 \<Rightarrow> bytes \<Rightarrow> u16" where
  "transport_cksum src_ip dst_ip proto seg =
     (let ph = src_ip @ dst_ip @ [0, proto] @ be_bytes 2 (word_of_nat (length seg) :: u16)
      in ucast (NOT (cksum_fold (cksum_sum (cksum_sum 0 ph) seg))))"

section \<open>State\<close>

definition ARP_CACHE :: nat where "ARP_CACHE = 8"
definition TCP_RX_SIZE :: nat where "TCP_RX_SIZE = 4096"
definition TCP_TX_SIZE :: nat where "TCP_TX_SIZE = 1400"
definition TCP_MAX_CONN :: nat where "TCP_MAX_CONN = 4"
definition TCP_LISTEN_SLOTS :: nat where "TCP_LISTEN_SLOTS = 2"
definition TCP_RTO :: u32 where "TCP_RTO = 200"
definition TCP_MAX_RETRANS :: u8 where "TCP_MAX_RETRANS = 5"
definition TCP_KEEPALIVE_IDLE :: u32 where "TCP_KEEPALIVE_IDLE = 30000"
definition TCP_KEEPALIVE_INTVL :: u32 where "TCP_KEEPALIVE_INTVL = 5000"
definition TCP_KEEPALIVE_CNT :: u8 where "TCP_KEEPALIVE_CNT = 3"
definition TCP_FIN :: u8 where "TCP_FIN = 1"
definition TCP_SYN :: u8 where "TCP_SYN = 2"
definition TCP_RST :: u8 where "TCP_RST = 4"
definition TCP_PSH :: u8 where "TCP_PSH = 8"
definition TCP_ACK :: u8 where "TCP_ACK = 16"

datatype tcp_phase = TCP_CLOSED | TCP_SYN_SENT | TCP_ESTABLISHED | TCP_FIN_WAIT1 | TCP_FIN_WAIT2 | TCP_CLOSE_WAIT | TCP_LAST_ACK | TCP_TIME_WAIT

record arp_entry =
  arp_ip :: bytes
  arp_mac :: bytes
  arp_valid :: bool

text \<open>Ring positions and the lengths of buffered segments stay below the sizes of their arrays and are natural numbers.\<close>

record tcp_conn =
  c_used :: bool
  c_state :: tcp_phase
  dst_ip :: bytes
  dst_mac :: bytes
  src_port :: u16
  dst_port :: u16
  snd_nxt :: u32
  rcv_nxt :: u32
  rx :: bytes
  rx_head :: nat
  rx_tail :: nat
  fin_recv :: bool
  rst_recv :: bool
  tx_buf :: bytes
  tx_len :: nat
  tx_seq :: u32
  retrans_tick :: u32
  retrans_count :: u8
  ooo_buf :: bytes
  ooo_len :: nat
  ooo_seq :: u32
  last_rx_tick :: u32
  ka_probes :: u8
  ka_next_tick :: u32

record listener =
  l_active :: bool
  l_port :: u16
  accept_q :: "int list"
  aq_head :: nat
  aq_tail :: nat
  aq_count :: nat

record net =
  nic :: bool
  my_mac :: bytes
  MY_IP :: bytes
  GW_IP :: bytes
  arp_tbl :: "arp_entry list"
  ip_id_counter :: u16
  tcp_conns :: "tcp_conn list"
  tcp_port_ctr :: u16
  listeners :: "listener list"
  rst_reply_conn :: tcp_conn
  dns_txid :: u16
  clock :: u32
  wire :: "bytes list"

text \<open>The variables as the program starts, with the address that \<open>net_init\<close> reads from the card.\<close>

definition zero_conn :: tcp_conn where
  "zero_conn = \<lparr>c_used = False, c_state = TCP_CLOSED, dst_ip = replicate 4 0, dst_mac = replicate 6 0, src_port = 0, dst_port = 0,
     snd_nxt = 0, rcv_nxt = 0, rx = replicate TCP_RX_SIZE 0, rx_head = 0, rx_tail = 0, fin_recv = False, rst_recv = False,
     tx_buf = replicate TCP_TX_SIZE 0, tx_len = 0, tx_seq = 0, retrans_tick = 0, retrans_count = 0,
     ooo_buf = replicate TCP_TX_SIZE 0, ooo_len = 0, ooo_seq = 0, last_rx_tick = 0, ka_probes = 0, ka_next_tick = 0\<rparr>"

definition net_init :: "bytes option \<Rightarrow> net" where
  "net_init hw =
     \<lparr>nic = (hw \<noteq> None), my_mac = (case hw of Some mac \<Rightarrow> mac | None \<Rightarrow> replicate 6 0), MY_IP = [10, 0, 2, 15], GW_IP = [10, 0, 2, 2],
      arp_tbl = replicate ARP_CACHE \<lparr>arp_ip = replicate 4 0, arp_mac = replicate 6 0, arp_valid = False\<rparr>, ip_id_counter = 1,
      tcp_conns = replicate TCP_MAX_CONN zero_conn, tcp_port_ctr = 49152,
      listeners = replicate TCP_LISTEN_SLOTS \<lparr>l_active = False, l_port = 0, accept_q = [0, 0], aq_head = 0, aq_tail = 0, aq_count = 0\<rparr>,
      rst_reply_conn = zero_conn, dns_txid = 0x4400, clock = 0, wire = []\<rparr>"

definition BCAST_MAC :: bytes where "BCAST_MAC = replicate 6 0xFF"
definition ICMP_ID :: u16 where "ICMP_ID = 0x4D59"

section \<open>The cache of hardware addresses\<close>

definition arp_cache_put :: "bytes \<Rightarrow> bytes \<Rightarrow> net \<Rightarrow> net" where
  "arp_cache_put ip mac n =
     (case find_slot (\<lambda>e. \<not> arp_valid e \<or> arp_ip e = ip) (arp_tbl n) of
        Some i \<Rightarrow> n\<lparr>arp_tbl := (arp_tbl n)[i := \<lparr>arp_ip = ip, arp_mac = mac, arp_valid = True\<rparr>]\<rparr>
      | None \<Rightarrow> n\<lparr>arp_tbl := (arp_tbl n)[0 := (arp_tbl n ! 0)\<lparr>arp_ip := ip, arp_mac := mac\<rparr>]\<rparr>)"

definition arp_cache_get :: "bytes \<Rightarrow> net \<Rightarrow> bytes option" where
  "arp_cache_get ip n = map_option (\<lambda>i. arp_mac (arp_tbl n ! i)) (find_slot (\<lambda>e. arp_valid e \<and> arp_ip e = ip) (arp_tbl n))"

section \<open>Frames\<close>

definition rtl8139_send :: "bytes \<Rightarrow> net \<Rightarrow> net" where
  "rtl8139_send frame n = n\<lparr>wire := wire n @ [frame]\<rparr>"

definition eth_hdr :: "bytes \<Rightarrow> u16 \<Rightarrow> net \<Rightarrow> bytes" where
  "eth_hdr dst ethertype n = dst @ my_mac n @ be_bytes 2 ethertype"

definition arp_packet :: "u8 \<Rightarrow> bytes \<Rightarrow> bytes \<Rightarrow> net \<Rightarrow> bytes" where
  "arp_packet oper tha tpa n = [0, 1, 8, 0, 6, 4, 0, oper] @ my_mac n @ MY_IP n @ tha @ tpa"

definition arp_send_request :: "bytes \<Rightarrow> net \<Rightarrow> net" where
  "arp_send_request target_ip n = rtl8139_send (eth_hdr BCAST_MAC 0x0806 n @ arp_packet 1 BCAST_MAC target_ip n) n"

definition arp_send_reply :: "bytes \<Rightarrow> bytes \<Rightarrow> net \<Rightarrow> net" where
  "arp_send_reply req_mac req_ip n = rtl8139_send (eth_hdr req_mac 0x0806 n @ arp_packet 2 req_mac req_ip n) n"

text \<open>A checksum goes into the two bytes at a position that held zeros.\<close>

definition with_cksum :: "nat \<Rightarrow> u16 \<Rightarrow> bytes \<Rightarrow> bytes" where
  "with_cksum pos ck h = write_at pos (be_bytes 2 ck) h"

definition ip_header :: "u16 \<Rightarrow> u8 \<Rightarrow> bytes \<Rightarrow> net \<Rightarrow> bytes" where
  "ip_header tlen proto dst n =
     (let h = [0x45, 0] @ be_bytes 2 tlen @ be_bytes 2 (ip_id_counter n) @ [0, 0, 64, proto, 0, 0] @ MY_IP n @ dst
      in with_cksum 10 (inet_cksum h) h)"

definition icmp_echo_send :: "bytes \<Rightarrow> bytes \<Rightarrow> u16 \<Rightarrow> net \<Rightarrow> net" where
  "icmp_echo_send dst mac sq n =
     (let icmp = [8, 0, 0, 0] @ be_bytes 2 ICMP_ID @ be_bytes 2 sq @ map word_of_nat [0..<56]
      in rtl8139_send (eth_hdr mac 0x0800 n @ ip_header 84 1 dst n @ with_cksum 2 (inet_cksum icmp) icmp)
           (n\<lparr>ip_id_counter := ip_id_counter n + 1\<rparr>))"

definition tcp_segment :: "u16 \<Rightarrow> u16 \<Rightarrow> u8 \<Rightarrow> u32 \<Rightarrow> u32 \<Rightarrow> bytes \<Rightarrow> bytes" where
  "tcp_segment sp dp flags sq ack data =
     be_bytes 2 sp @ be_bytes 2 dp @ be_bytes 4 sq @ be_bytes 4 ack @ [0x50, flags, 0xFF, 0xFF, 0, 0, 0, 0] @ data"

definition tcp_frame :: "tcp_conn \<Rightarrow> u8 \<Rightarrow> u32 \<Rightarrow> u32 \<Rightarrow> bytes \<Rightarrow> net \<Rightarrow> bytes" where
  "tcp_frame c flags sq ack data n =
     (let t = tcp_segment (src_port c) (dst_port c) flags sq ack data
      in eth_hdr (dst_mac c) 0x0800 n @ ip_header (word_of_nat (40 + length data)) 6 (dst_ip c) n @
         with_cksum 16 (transport_cksum (MY_IP n) (dst_ip c) 6 t) t)"

definition tcp_tx :: "tcp_conn \<Rightarrow> u8 \<Rightarrow> u32 \<Rightarrow> u32 \<Rightarrow> bytes \<Rightarrow> net \<Rightarrow> net" where
  "tcp_tx c flags sq ack data n =
     rtl8139_send (tcp_frame c flags sq ack data n) (n\<lparr>ip_id_counter := ip_id_counter n + 1\<rparr>)"

definition next_hop_ip :: "bytes \<Rightarrow> net \<Rightarrow> bytes" where
  "next_hop_ip dst n = (if dst ! 0 = MY_IP n ! 0 \<and> dst ! 1 = MY_IP n ! 1 \<and> dst ! 2 = MY_IP n ! 2 then dst else GW_IP n)"

text \<open>Datagrams leave without a checksum. The frame buffer has 1514 bytes.\<close>

definition udp_frame :: "bytes \<Rightarrow> bytes \<Rightarrow> u16 \<Rightarrow> u16 \<Rightarrow> bytes \<Rightarrow> net \<Rightarrow> bytes" where
  "udp_frame mac dst dp sp data n =
     eth_hdr mac 0x0800 n @ ip_header (word_of_nat (28 + length data)) 17 dst n @
     be_bytes 2 sp @ be_bytes 2 dp @ be_bytes 2 (word_of_nat (8 + length data) :: u16) @ [0, 0] @ data"

definition udp_send_to :: "bytes \<Rightarrow> bytes \<Rightarrow> u16 \<Rightarrow> u16 \<Rightarrow> bytes \<Rightarrow> net \<Rightarrow> net option" where
  "udp_send_to mac dst dp sp data n =
     (if 42 + length data > 1514 then None
      else Some (rtl8139_send (udp_frame mac dst dp sp data n) (n\<lparr>ip_id_counter := ip_id_counter n + 1\<rparr>)))"

section \<open>The checksum of the Internet\<close>

text \<open>The 16-bit words of a message, added up.\<close>

fun words_sum :: "bytes \<Rightarrow> nat" where
  "words_sum (a # b # data) = 256 * unat a + unat b + words_sum data"
| "words_sum [a] = 256 * unat a"
| "words_sum [] = 0"

lemma unat_be16: "unat (push_bit 8 (ucast a) OR ucast b :: 'a::len word) = 256 * unat (a :: u8) + unat (b :: u8)"
  if "16 \<le> LENGTH('a)"
proof -
  have "push_bit 8 (ucast a) AND (ucast b :: 'a word) = 0"
    by (rule bit_word_eqI) (auto simp: bit_and_iff bit_push_bit_iff bit_ucast_iff dest: bit_imp_le_length)
  then have "push_bit 8 (ucast a) OR ucast b = push_bit 8 (ucast a) + (ucast b :: 'a word)" by (simp add: disjunctive_add_eq_or)
  moreover have "256 * unat a + unat b < 2 ^ LENGTH('a)"
  proof -
    have "256 * unat a + unat b < 2 ^ 16"
      using unsigned_less [of a, where 'a = nat] unsigned_less [of b, where 'a = nat] by simp
    also have "\<dots> \<le> 2 ^ LENGTH('a)" using that by (rule power_increasing) simp
    finally show ?thesis .
  qed
  moreover have "unat (ucast x :: 'a word) = unat (x :: u8)" for x
  proof -
    have "unat x < 2 ^ LENGTH('a)"
      using unsigned_less [of x, where 'a = nat] power_increasing [of 8 "LENGTH('a)" "2 :: nat"] that by simp
    then show ?thesis by (simp add: unsigned_ucast_eq take_bit_nat_eq_self)
  qed
  moreover have "(256 :: nat) mod 2 ^ LENGTH('a) = 256"
    using power_strict_increasing [of 8 "LENGTH('a)" "2 :: nat"] that by simp
  ultimately show ?thesis
    by (simp add: unat_word_ariths unsigned_push_bit_eq push_bit_eq_mult take_bit_eq_mod mult.commute mod_add_left_eq mod_add_right_eq)
qed

lemma words_sum_le: "words_sum data \<le> 65535 * ((length data + 1) div 2)"
proof (induction data rule: words_sum.induct)
  case (1 a b data)
  then show ?case using unsigned_less [of a, where 'a = nat] unsigned_less [of b, where 'a = nat] by simp
next
  case (2 a)
  then show ?case using unsigned_less [of a, where 'a = nat] by simp
qed simp

lemma unat_cksum_sum:
  "unat acc + words_sum data < 2 ^ 32 \<Longrightarrow> unat (cksum_sum acc data) = unat acc + words_sum data"
proof (induction acc data rule: cksum_sum.induct)
  case (1 acc a b data)
  then have "unat (acc + (push_bit 8 (ucast a) OR ucast b)) = unat acc + (256 * unat a + unat b)"
    by (simp add: unat_word_ariths unat_be16)
  with 1 show ?case by simp
next
  case (2 acc a)
  have "unat (push_bit 8 (ucast a) :: u32) = 256 * unat a" using unat_be16 [of a 0, where 'a = 32] by simp
  then show ?case using 2 by (simp add: unat_word_ariths)
qed simp

text \<open>Folding keeps the value modulo 65535 and distinguishes zero.\<close>

lemma fold_mod: "(r + q) mod 65535 = (q * 65536 + r) mod (65535 :: nat)"
proof -
  have "q * 65536 + r = (r + q) + q * 65535" by simp
  then show ?thesis by (simp only: mod_mult_self1)
qed

lemma cksum_fold_eq:
  "unat (cksum_fold w) < 2 ^ 16 \<and> unat (cksum_fold w) mod 65535 = unat w mod 65535 \<and> (cksum_fold w = 0 \<longleftrightarrow> w = 0)"
proof (induction w rule: cksum_fold.induct)
  case (1 w)
  show ?case
  proof (cases "drop_bit 16 w = 0")
    case True
    have "unat (drop_bit 16 w) = unat w div 65536" by (simp add: drop_bit_eq_div unat_div)
    then have "unat w < 2 ^ 16" using True by (simp add: div_eq_0_iff)
    then show ?thesis using True by (simp add: cksum_fold.simps)
  next
    case False
    let ?v = "(w AND 0xFFFF) + drop_bit 16 w"
    note f = fold_smaller [OF False]
    have v: "unat ?v = unat w mod 65536 + unat w div 65536" using f(1) by simp
    have m: "unat ?v mod 65535 = unat w mod 65535"
      using fold_mod [of "unat w mod 65536" "unat w div 65536"] unfolding v by (simp only: div_mult_mod_eq)
    have "0 < unat w div 65536" using False unat_gt_0 [of "drop_bit 16 w"] by (simp add: drop_bit_eq_div unat_div)
    then have "unat ?v \<noteq> 0" "w \<noteq> 0" using v by auto
    then have "?v \<noteq> 0" "w \<noteq> 0" by auto
    with "1.IH" [OF False] m show ?thesis using False by (subst (1 2 3) cksum_fold.simps) simp
  qed
qed

lemma unat_cksum: "unat (ucast (NOT (cksum_fold w)) :: u16) = 65535 - unat (cksum_fold w)"
proof -
  have f: "unat (cksum_fold w) < 2 ^ 16" using cksum_fold_eq by blast
  then have "unat (ucast (cksum_fold w) :: u16) = unat (cksum_fold w)" by (simp add: unsigned_ucast_eq take_bit_nat_eq_self)
  moreover have "(ucast (NOT (cksum_fold w)) :: u16) = NOT (ucast (cksum_fold w))"
    by (rule bit_word_eqI) (simp add: bit_ucast_iff bit_not_iff)
  ultimately show ?thesis using unat_sub [of "ucast (cksum_fold w) :: u16" "-1"]
    by (simp add: not_eq_complement minus_diff_commute unsigned_minus_1_eq_mask mask_eq_exp_minus_1)
qed

lemma cksum_sum_append: "even (length a) \<Longrightarrow> cksum_sum acc (a @ b) = cksum_sum (cksum_sum acc a) b"
  by (induction acc a rule: cksum_sum.induct) auto

lemma words_sum_append: "even (length a) \<Longrightarrow> words_sum (a @ b) = words_sum a + words_sum b"
  by (induction a rule: words_sum.induct) auto

lemma transport_cksum_eq:
  assumes "length src = 4" "length dst = 4"
  shows "transport_cksum src dst proto seg =
    inet_cksum (src @ dst @ [0, proto] @ be_bytes 2 (word_of_nat (length seg) :: u16) @ seg)"
  using assms cksum_sum_append [of "src @ dst @ [0, proto] @ be_bytes 2 (word_of_nat (length seg) :: u16)" 0 seg]
  by (simp add: transport_cksum_def inet_cksum_def Let_def)

lemma words_sum_be_bytes: "words_sum (be_bytes 2 (w :: u16) @ c) = unat w + words_sum c"
proof -
  have "unat (ucast (drop_bit 8 w) :: u8) = unat w div 256" "unat (ucast w :: u8) = unat w mod 256"
    using unsigned_less [of w, where 'a = nat]
    by (simp_all add: unsigned_ucast_eq unsigned_drop_bit_eq take_bit_eq_mod drop_bit_eq_div unat_div less_mult_imp_div_less)
  then show ?thesis by (simp add: be_bytes_def upt_rec)
qed

text \<open>A message with its checksum in an aligned field that was zero has checksum zero.\<close>

lemma inet_cksum_insert:
  assumes "even (length a)" "length (a @ [0, 0] @ c) \<le> 65536"
  shows "inet_cksum (a @ be_bytes 2 (inet_cksum (a @ [0, 0] @ c)) @ c) = 0"
proof -
  let ?h = "a @ [0, 0] @ c" and ?ck = "inet_cksum (a @ [0, 0] @ c)"
  let ?g = "a @ be_bytes 2 ?ck @ c"
  have bnd: "words_sum d < 2 ^ 32" if "length d = length ?h" for d
    using words_sum_le [of d] that assms(2) by simp
  have h: "unat (cksum_sum 0 ?h) = words_sum a + words_sum c"
    using bnd [of ?h] unat_cksum_sum [of 0 ?h] assms(1) by (simp add: words_sum_append)
  have g: "unat (cksum_sum 0 ?g) = unat (cksum_sum 0 ?h) + unat ?ck"
    using bnd [of ?g] unat_cksum_sum [of 0 ?g] assms(1) unfolding h by (simp add: words_sum_append words_sum_be_bytes)
  let ?f = "unat (cksum_fold (cksum_sum 0 ?h))"
  have ck: "unat ?ck = 65535 - ?f" unfolding inet_cksum_def by (rule unat_cksum)
  have f: "?f < 2 ^ 16" "?f mod 65535 = unat (cksum_sum 0 ?h) mod 65535" using cksum_fold_eq by blast+
  have "unat (cksum_sum 0 ?g) mod 65535 = (?f + (65535 - ?f)) mod 65535"
    unfolding g ck by (subst mod_add_left_eq [of "unat (cksum_sum 0 ?h)", symmetric]) (simp only: f(2) [symmetric] mod_add_left_eq)
  then have m: "unat (cksum_sum 0 ?g) mod 65535 = 0" using f(1) by simp
  have "unat (cksum_sum 0 ?g) \<noteq> 0"
  proof
    assume "unat (cksum_sum 0 ?g) = 0"
    then have "cksum_sum 0 ?h = 0" "unat ?ck = 0" using g by (simp_all add: unat_eq_zero)
    then show False using ck cksum_fold_eq [of "cksum_sum 0 ?h"] by simp
  qed
  then have "cksum_sum 0 ?g \<noteq> 0" by auto
  then have n0: "unat (cksum_fold (cksum_sum 0 ?g)) \<noteq> 0" using cksum_fold_eq by (simp add: unat_eq_zero)
  have "n = 65535" if "n < 2 ^ 16" "n mod 65535 = 0" "n \<noteq> 0" for n :: nat
    using that by (cases "n < 65535") auto
  from this [OF _ _ n0] m cksum_fold_eq [of "cksum_sum 0 ?g"] have "unat (cksum_fold (cksum_sum 0 ?g)) = 65535" by simp
  then have "unat (inet_cksum ?g) = 0" unfolding inet_cksum_def unat_cksum by simp
  then show ?thesis by (simp add: unat_eq_zero)
qed

end
