(* ===== verification/Tcp.thy ===== *)
theory Tcp
  imports Net
begin

text \<open>
  Connections of \<open>src/kernel/net.c\<close>: reception of segments, the calls of the socket interface, listening and the
  periodic timer, with the demultiplexer of received frames.

  A call that polls the card until a deadline takes the polls of the card from a list: what the clock says and the
  frame that the card delivers, if it has one. The call returns the polls it did not use. It is \<open>None\<close> when it has not
  ended after the last of them, or when it makes an illegal access.
\<close>

unbundle bit_operations_syntax

section \<open>Received data\<close>

definition rx_full :: "tcp_conn \<Rightarrow> bool" where
  "rx_full c \<longleftrightarrow> (rx_head c + 1) mod TCP_RX_SIZE = rx_tail c"

definition rx_store :: "u8 \<Rightarrow> tcp_conn \<Rightarrow> tcp_conn" where
  "rx_store b c = c\<lparr>rx := (rx c)[rx_head c := b], rx_head := (rx_head c + 1) mod TCP_RX_SIZE\<rparr>"

text \<open>Pushing stops when the ring is full. The source is the rest of the buffer from the pointer on.\<close>

fun tcp_rx_push :: "nat \<Rightarrow> bytes \<Rightarrow> tcp_conn \<Rightarrow> tcp_conn option" where
  "tcp_rx_push 0 data c = Some c"
| "tcp_rx_push (Suc len) data c =
     (if rx_full c then Some c else case data of [] \<Rightarrow> None | b # data \<Rightarrow> tcp_rx_push len data (rx_store b c))"

definition merge_ooo :: "tcp_conn \<Rightarrow> tcp_conn option" where
  "merge_ooo c =
     (if ooo_len c > 0 \<and> ooo_seq c = rcv_nxt c then do {
        c \<leftarrow> tcp_rx_push (ooo_len c) (ooo_buf c) c;
        Some (c\<lparr>rcv_nxt := rcv_nxt c + word_of_nat (ooo_len c), ooo_len := 0\<rparr>)
      } else Some c)"

definition accept_data :: "u32 \<Rightarrow> u32 \<Rightarrow> nat \<Rightarrow> bytes \<Rightarrow> tcp_conn \<Rightarrow> tcp_conn option" where
  "accept_data now sseq dlen data c =
     (let c = c\<lparr>last_rx_tick := now, ka_probes := 0, ka_next_tick := now + TCP_KEEPALIVE_IDLE\<rparr>
      in if sseq = rcv_nxt c then do {
           c \<leftarrow> tcp_rx_push dlen data c;
           merge_ooo (c\<lparr>rcv_nxt := rcv_nxt c + word_of_nat dlen\<rparr>)
         }
         else if sseq > rcv_nxt c \<and> dlen \<le> TCP_TX_SIZE then
           (if ooo_len c = 0 then
              (if dlen > length data then None
               else Some (c\<lparr>ooo_buf := write_at 0 (take dlen data) (ooo_buf c), ooo_len := dlen, ooo_seq := sseq\<rparr>))
            else Some c)
         else Some c)"

definition process_ack :: "u32 \<Rightarrow> tcp_conn \<Rightarrow> tcp_conn" where
  "process_ack sack c =
     (let c = (if tx_len c > 0 \<and> sint (sack - (tx_seq c + word_of_nat (tx_len c))) \<ge> 0 then c\<lparr>tx_len := 0\<rparr> else c)
      in if c_state c = TCP_FIN_WAIT1 \<and> sack = snd_nxt c then c\<lparr>c_state := TCP_FIN_WAIT2\<rparr> else c\<lparr>snd_nxt := sack\<rparr>)"

text \<open>Segments to send, by their flags and sequence numbers. None of them carries data.\<close>

type_synonym reply = "u8 \<times> u32 \<times> u32"

definition ack_of :: "tcp_conn \<Rightarrow> reply" where
  "ack_of c = (TCP_ACK, snd_nxt c, rcv_nxt c)"

definition open_segment :: "u32 \<Rightarrow> u8 \<Rightarrow> u32 \<Rightarrow> u32 \<Rightarrow> nat \<Rightarrow> bytes \<Rightarrow> tcp_conn \<Rightarrow> (tcp_conn \<times> reply list) option" where
  "open_segment now flags sseq sack dlen data c =
     do {
       let c = (if flags AND TCP_ACK \<noteq> 0 then process_ack sack c else c);
       (c, rs) \<leftarrow> (if dlen > 0 \<and> c_state c = TCP_ESTABLISHED
                   then map_option (\<lambda>c. (c, [ack_of c])) (accept_data now sseq dlen data c) else Some (c, []));
       Some (if flags AND TCP_FIN \<noteq> 0 then
               let c = c\<lparr>rcv_nxt := rcv_nxt c + 1, fin_recv := True\<rparr>
               in (c\<lparr>c_state := (if c_state c = TCP_ESTABLISHED then TCP_CLOSE_WAIT else TCP_TIME_WAIT)\<rparr>, rs @ [ack_of c])
             else (c, rs))
     }"

text \<open>A segment for a connection; the flag tells that the C function returns at once.\<close>

definition conn_segment :: "u32 \<Rightarrow> u8 \<Rightarrow> u32 \<Rightarrow> u32 \<Rightarrow> nat \<Rightarrow> bytes \<Rightarrow> tcp_conn \<Rightarrow> (bool \<times> tcp_conn \<times> reply list) option" where
  "conn_segment now flags sseq sack dlen data c =
     (if flags AND TCP_RST \<noteq> 0 then Some (True, c\<lparr>rst_recv := True, c_state := TCP_CLOSED, c_used := False\<rparr>, [])
      else case c_state c of
        TCP_SYN_SENT \<Rightarrow>
          (if flags AND (TCP_SYN OR TCP_ACK) = TCP_SYN OR TCP_ACK then
             let c = c\<lparr>rcv_nxt := sseq + 1, snd_nxt := sack, c_state := TCP_ESTABLISHED\<rparr> in Some (False, c, [ack_of c])
           else Some (False, c, []))
      | TCP_ESTABLISHED \<Rightarrow> map_option (Pair False) (open_segment now flags sseq sack dlen data c)
      | TCP_FIN_WAIT1 \<Rightarrow> map_option (Pair False) (open_segment now flags sseq sack dlen data c)
      | TCP_FIN_WAIT2 \<Rightarrow> map_option (Pair False) (open_segment now flags sseq sack dlen data c)
      | TCP_LAST_ACK \<Rightarrow>
          Some (False, if flags AND TCP_ACK \<noteq> 0 then c\<lparr>c_used := False, c_state := TCP_CLOSED\<rparr> else c, [])
      | _ \<Rightarrow> Some (False, c, []))"

definition set_conn :: "nat \<Rightarrow> tcp_conn \<Rightarrow> net \<Rightarrow> net" where
  "set_conn i c n = n\<lparr>tcp_conns := (tcp_conns n)[i := c]\<rparr>"

definition send_replies :: "tcp_conn \<Rightarrow> reply list \<Rightarrow> net \<Rightarrow> net" where
  "send_replies c rs n = fold (\<lambda>(flags, sq, ack). tcp_tx c flags sq ack []) rs n"

section \<open>Listening\<close>

definition net_tcp_listen :: "u16 \<Rightarrow> net \<Rightarrow> int \<times> net" where
  "net_tcp_listen port n =
     (case find_slot (\<lambda>l. \<not> l_active l) (listeners n) of
        Some i \<Rightarrow> (int i, n\<lparr>listeners := (listeners n)[i :=
          \<lparr>l_active = True, l_port = port, accept_q = [-1, -1], aq_head = 0, aq_tail = 0, aq_count = 0\<rparr>]\<rparr>)
      | None \<Rightarrow> (-1, n))"

definition net_tcp_unlisten :: "int \<Rightarrow> net \<Rightarrow> net" where
  "net_tcp_unlisten lid n =
     (if lid \<ge> 0 \<and> lid < int TCP_LISTEN_SLOTS
      then n\<lparr>listeners := (listeners n)[nat lid := (listeners n ! nat lid)\<lparr>l_active := False\<rparr>]\<rparr> else n)"

definition tcp_send_rst_reply :: "bytes \<Rightarrow> bytes \<Rightarrow> u16 \<Rightarrow> u16 \<Rightarrow> u32 \<Rightarrow> net \<Rightarrow> net" where
  "tcp_send_rst_reply src_ip mac our_port remote_port ack n =
     (let c = (rst_reply_conn n)\<lparr>dst_ip := src_ip, dst_mac := mac, src_port := our_port, dst_port := remote_port\<rparr>
      in tcp_tx c (TCP_RST OR TCP_ACK) 0 ack [] (n\<lparr>rst_reply_conn := c\<rparr>))"

definition passive_conn :: "u32 \<Rightarrow> bytes \<Rightarrow> bytes \<Rightarrow> u16 \<Rightarrow> u16 \<Rightarrow> u32 \<Rightarrow> tcp_conn \<Rightarrow> tcp_conn" where
  "passive_conn now src_ip mac rdp rsp sseq nc =
     nc\<lparr>dst_ip := src_ip, dst_mac := mac, src_port := rdp, dst_port := rsp, rcv_nxt := sseq + 1, snd_nxt := 0xAC000001,
        c_state := TCP_ESTABLISHED, c_used := True, fin_recv := False, rst_recv := False, tx_len := 0, rx_head := 0, rx_tail := 0,
        ooo_len := 0, ka_probes := 0, last_rx_tick := now, ka_next_tick := now + TCP_KEEPALIVE_IDLE\<rparr>"

definition handle_syn :: "bytes \<Rightarrow> bytes \<Rightarrow> u16 \<Rightarrow> u16 \<Rightarrow> u32 \<Rightarrow> net \<Rightarrow> net" where
  "handle_syn src_ip mac rdp rsp sseq n =
     (case find_slot (\<lambda>l. l_active l \<and> l_port l = rdp) (listeners n) of
        None \<Rightarrow> n
      | Some li \<Rightarrow>
          let l = listeners n ! li
          in if aq_count l \<ge> 2 then tcp_send_rst_reply src_ip mac rdp rsp (sseq + 1) n
          else case find_slot (\<lambda>c. \<not> c_used c) (tcp_conns n) of
            None \<Rightarrow> tcp_send_rst_reply src_ip mac rdp rsp (sseq + 1) n
          | Some ci \<Rightarrow>
              let nc = passive_conn (clock n) src_ip mac rdp rsp sseq (tcp_conns n ! ci);
                  n = tcp_tx nc (TCP_SYN OR TCP_ACK) (snd_nxt nc - 1) (rcv_nxt nc) [] (set_conn ci nc n);
                  n = set_conn ci (nc\<lparr>snd_nxt := snd_nxt nc + 1\<rparr>) n
              in n\<lparr>listeners := (listeners n)[li := l\<lparr>accept_q := (accept_q l)[aq_tail l := int ci],
                     aq_tail := (aq_tail l + 1) mod 2, aq_count := aq_count l + 1\<rparr>]\<rparr>)"

section \<open>Demultiplexing\<close>

text \<open>What happens to a segment once its header has been read. The data are the rest of the frame buffer.\<close>

definition tcp_rx_segment ::
    "bytes \<Rightarrow> bytes \<Rightarrow> u16 \<Rightarrow> u16 \<Rightarrow> u8 \<Rightarrow> u32 \<Rightarrow> u32 \<Rightarrow> nat \<Rightarrow> bytes \<Rightarrow> net \<Rightarrow> net option" where
  "tcp_rx_segment src_ip mac rsp rdp flags sseq sack dlen data n = do {
     (stop, n) \<leftarrow> (case find_slot (\<lambda>c. c_used c \<and> src_port c = rdp \<and> dst_port c = rsp \<and> dst_ip c = src_ip) (tcp_conns n) of
         None \<Rightarrow> Some (False, n)
       | Some i \<Rightarrow> do {
           (stop, c, rs) \<leftarrow> conn_segment (clock n) flags sseq sack dlen data (tcp_conns n ! i);
           Some (stop, send_replies c rs (set_conn i c n))
         });
     Some (if \<not> stop \<and> flags AND (TCP_SYN OR TCP_ACK) = TCP_SYN then handle_syn src_ip mac rdp rsp sseq n else n)
   }"

definition tcp_rx_process :: "bytes \<Rightarrow> bytes \<Rightarrow> bytes \<Rightarrow> nat \<Rightarrow> net \<Rightarrow> net option" where
  "tcp_rx_process src_ip mac seg tcp_total n =
     (let doff = unat (drop_bit 4 (seg ! 12)) * 4
      in tcp_rx_segment src_ip mac (be16 seg 0) (be16 seg 2) (seg ! 13) (be_u32 seg 4) (be_u32 seg 8)
           (tcp_total - doff) (drop doff seg) n)"

text \<open>
  One received frame. The result is the round-trip time when the frame answers a ping to \<open>expect_src\<close>; other callers
  pass a null pointer there.
\<close>

definition net_process :: "bytes \<Rightarrow> nat \<Rightarrow> bytes option \<Rightarrow> u32 \<Rightarrow> net \<Rightarrow> (u16 option \<times> net) option" where
  "net_process pkt len expect_src send_tick n =
     (if len < 14 then Some (None, n)
      else let etype = be16 pkt 12
      in if etype = 0x0806 \<and> len \<ge> 42 then
        (let oper = be16 pkt 20; sha = take 6 (drop 22 pkt); spa = take 4 (drop 28 pkt); tpa = take 4 (drop 38 pkt)
         in Some (None, if oper = 2 then arp_cache_put spa sha n
                  else if oper = 1 \<and> tpa = MY_IP n then arp_send_reply sha spa n else n))
      else if etype = 0x0800 \<and> len \<ge> 34 then
        (let ip = drop 14 pkt; ihl = unat (ip ! 0 AND 0xF) * 4; proto = ip ! 9; pay = drop ihl ip;
             ip_total = unat (be16 ip 2); pay_len = ip_total - ihl; src = take 4 (drop 12 ip); mac = take 6 (drop 6 pkt);
             n = arp_cache_put src mac n
         in if proto = 1 \<and> pay_len \<ge> 8 \<and> pay ! 0 = 0 then do {
              e \<leftarrow> expect_src;
              Some (if src = e then (Some (ucast (clock n - send_tick)), n) else (None, n))
            }
            else if proto = 6 \<and> pay_len \<ge> 20 then map_option (Pair None) (tcp_rx_process src mac pay pay_len n)
            else Some (None, n))
      else Some (None, n))"

type_synonym poll = "u32 \<times> (bytes \<times> nat) option"

definition net_poll_once :: "poll \<Rightarrow> net \<Rightarrow> net option" where
  "net_poll_once p n =
     (let n = n\<lparr>clock := fst p\<rparr>
      in case snd p of None \<Rightarrow> Some n | Some (pkt, len) \<Rightarrow> map_option snd (net_process pkt len None 0 n))"

section \<open>Resolving addresses\<close>

fun arp_wait :: "bytes \<Rightarrow> u32 \<Rightarrow> poll list \<Rightarrow> net \<Rightarrow> (bytes option \<times> poll list \<times> net) option" where
  "arp_wait ip deadline [] n = (if clock n < deadline then None else Some (None, [], n))"
| "arp_wait ip deadline (p # ps) n =
     (if clock n < deadline then do {
        n \<leftarrow> net_poll_once p n;
        case arp_cache_get ip n of Some mac \<Rightarrow> Some (Some mac, ps, n) | None \<Rightarrow> arp_wait ip deadline ps n
      } else Some (None, p # ps, n))"

definition arp_resolve :: "bytes \<Rightarrow> poll list \<Rightarrow> net \<Rightarrow> (bytes option \<times> poll list \<times> net) option" where
  "arp_resolve ip ps n =
     (case arp_cache_get ip n of Some mac \<Rightarrow> Some (Some mac, ps, n)
      | None \<Rightarrow> arp_wait ip (clock n + 2000) ps (arp_send_request ip n))"

section \<open>Ping\<close>

text \<open>The answer to one request: the time it took, or nothing in five seconds. What is printed is left out.\<close>

fun ping_wait :: "bytes \<Rightarrow> u32 \<Rightarrow> u32 \<Rightarrow> poll list \<Rightarrow> net \<Rightarrow> (u16 option \<times> poll list \<times> net) option" where
  "ping_wait dst send_tick dead [] n = (if clock n < dead then None else Some (None, [], n))"
| "ping_wait dst send_tick dead (p # ps) n =
     (if clock n < dead then
        let n = n\<lparr>clock := fst p\<rparr>
        in case snd p of None \<Rightarrow> ping_wait dst send_tick dead ps n
           | Some (pkt, len) \<Rightarrow> do {
               (rtt, n) \<leftarrow> net_process pkt len (Some dst) send_tick n;
               if rtt \<noteq> None then Some (rtt, ps, n) else ping_wait dst send_tick dead ps n
             }
      else Some (None, p # ps, n))"

fun ping_loop :: "bytes \<Rightarrow> bytes \<Rightarrow> nat list \<Rightarrow> poll list \<Rightarrow> net \<Rightarrow> (u16 option list \<times> poll list \<times> net) option" where
  "ping_loop dst mac [] ps n = Some ([], ps, n)"
| "ping_loop dst mac (i # is) ps n = do {
     let n = icmp_echo_send dst mac (word_of_nat (i + 1)) n;
     (rtt, ps, n) \<leftarrow> ping_wait dst (clock n) (clock n + 5000) ps n;
     (rtts, ps, n) \<leftarrow> ping_loop dst mac is ps n;
     Some (rtt # rtts, ps, n)
   }"

definition net_ping :: "bytes \<Rightarrow> nat \<Rightarrow> poll list \<Rightarrow> net \<Rightarrow> (u16 option list option \<times> poll list \<times> net) option" where
  "net_ping dst count ps n =
     (if \<not> nic n then Some (None, ps, n)
      else do {
        (mac, ps, n) \<leftarrow> arp_resolve (next_hop_ip dst n) ps n;
        case mac of None \<Rightarrow> Some (None, ps, n)
        | Some mac \<Rightarrow> map_option (\<lambda>(rtts, ps, n). (Some rtts, ps, n)) (ping_loop dst mac [0..<count] ps n)
      })"

section \<open>Datagrams\<close>

definition net_udp_send :: "bytes \<Rightarrow> u16 \<Rightarrow> u16 \<Rightarrow> bytes \<Rightarrow> poll list \<Rightarrow> net \<Rightarrow> (int \<times> poll list \<times> net) option" where
  "net_udp_send dst dp sp data ps n =
     (if \<not> nic n then Some (-1, ps, n)
      else do {
        (mac, ps, n) \<leftarrow> arp_resolve (next_hop_ip dst n) ps n;
        case mac of None \<Rightarrow> Some (-1, ps, n) | Some mac \<Rightarrow> map_option (\<lambda>n. (0, ps, n)) (udp_send_to mac dst dp sp data n)
      })"

section \<open>Accepting a connection\<close>

text \<open>The loop drops frames of at most 54 bytes.\<close>

definition accept_poll :: "poll \<Rightarrow> net \<Rightarrow> net option" where
  "accept_poll p n =
     net_poll_once (fst p, case snd p of Some (pkt, len) \<Rightarrow> if len > 54 then Some (pkt, len) else None | None \<Rightarrow> None) n"

definition accept_take :: "nat \<Rightarrow> net \<Rightarrow> (int \<times> net) option" where
  "accept_take lid n =
     (let l = listeners n ! lid
      in if aq_count l > 0 then
        Some (accept_q l ! aq_head l,
              n\<lparr>listeners := (listeners n)[lid := l\<lparr>aq_head := (aq_head l + 1) mod 2, aq_count := aq_count l - 1\<rparr>]\<rparr>)
      else None)"

fun accept_wait :: "nat \<Rightarrow> u32 \<Rightarrow> poll list \<Rightarrow> net \<Rightarrow> (int \<times> poll list \<times> net) option" where
  "accept_wait lid deadline [] n = (if clock n < deadline then None else Some (-1, [], n))"
| "accept_wait lid deadline (p # ps) n =
     (if clock n < deadline then do {
        n \<leftarrow> accept_poll p n;
        case accept_take lid n of Some (cid, n) \<Rightarrow> Some (cid, ps, n) | None \<Rightarrow> accept_wait lid deadline ps n
      } else Some (-1, p # ps, n))"

definition net_tcp_accept :: "int \<Rightarrow> u32 \<Rightarrow> poll list \<Rightarrow> net \<Rightarrow> (int \<times> poll list \<times> net) option" where
  "net_tcp_accept lid timeout_ms ps n =
     (if lid < 0 \<or> lid \<ge> int TCP_LISTEN_SLOTS \<or> \<not> l_active (listeners n ! nat lid) then Some (-2, ps, n)
      else accept_wait (nat lid) (clock n + timeout_ms) ps n)"

section \<open>The socket interface\<close>

definition close_conn :: "nat \<Rightarrow> net \<Rightarrow> net" where
  "close_conn i n = set_conn i ((tcp_conns n ! i)\<lparr>c_used := False, c_state := TCP_CLOSED\<rparr>) n"

definition active_conn :: "u32 \<Rightarrow> bytes \<Rightarrow> bytes \<Rightarrow> u16 \<Rightarrow> u16 \<Rightarrow> tcp_conn \<Rightarrow> tcp_conn" where
  "active_conn now ip mac sp dp c =
     c\<lparr>dst_mac := mac, dst_ip := ip, dst_port := dp, src_port := sp, snd_nxt := 0x12340000 + ucast sp * 131, rcv_nxt := 0,
       rx_head := 0, rx_tail := 0, fin_recv := False, rst_recv := False, tx_len := 0, tx_seq := 0, retrans_tick := 0,
       retrans_count := 0, ooo_len := 0, ooo_seq := 0, last_rx_tick := now, ka_probes := 0,
       ka_next_tick := now + TCP_KEEPALIVE_IDLE, c_state := TCP_SYN_SENT, c_used := True\<rparr>"

definition connect_start :: "nat \<Rightarrow> bytes \<Rightarrow> u16 \<Rightarrow> bytes \<Rightarrow> net \<Rightarrow> net" where
  "connect_start i ip dp mac n =
     (let sp = tcp_port_ctr n; pc = sp + 1;
          n = n\<lparr>tcp_port_ctr := (if pc < 49152 then 49152 else pc)\<rparr>;
          c = active_conn (clock n) ip mac sp dp (tcp_conns n ! i);
          n = tcp_tx c TCP_SYN (snd_nxt c) 0 [] (set_conn i c n)
      in set_conn i (c\<lparr>snd_nxt := snd_nxt c + 1\<rparr>) n)"

definition connect_fail :: "nat \<Rightarrow> poll list \<Rightarrow> net \<Rightarrow> int \<times> poll list \<times> net" where
  "connect_fail i ps n = (if rst_recv (tcp_conns n ! i) then -2 else -1, ps, close_conn i n)"

fun connect_wait :: "nat \<Rightarrow> u32 \<Rightarrow> poll list \<Rightarrow> net \<Rightarrow> (int \<times> poll list \<times> net) option" where
  "connect_wait i deadline [] n = (if clock n < deadline then None else Some (connect_fail i [] n))"
| "connect_wait i deadline (p # ps) n =
     (if clock n < deadline then do {
        n \<leftarrow> net_poll_once p n;
        if c_state (tcp_conns n ! i) = TCP_ESTABLISHED then Some (int i, ps, n)
        else if \<not> c_used (tcp_conns n ! i) then Some (connect_fail i ps n)
        else connect_wait i deadline ps n
      } else Some (connect_fail i (p # ps) n))"

text \<open>The slot is chosen before the address is resolved, and the polls of that may use it.\<close>

definition net_tcp_connect :: "bytes \<Rightarrow> u16 \<Rightarrow> poll list \<Rightarrow> net \<Rightarrow> (int \<times> poll list \<times> net) option" where
  "net_tcp_connect ip dp ps n =
     (if \<not> nic n then Some (-1, ps, n)
      else case find_slot (\<lambda>c. \<not> c_used c) (tcp_conns n) of None \<Rightarrow> Some (-1, ps, n)
      | Some i \<Rightarrow> do {
          (mac, ps, n) \<leftarrow> arp_resolve (next_hop_ip ip n) ps n;
          case mac of None \<Rightarrow> Some (-1, ps, n)
          | Some mac \<Rightarrow> let n = connect_start i ip dp mac n in connect_wait i (clock n + 5000) ps n
        })"

definition tcp_valid :: "int \<Rightarrow> bool" where "tcp_valid i \<longleftrightarrow> 0 \<le> i \<and> i < int TCP_MAX_CONN"

definition net_tcp_send :: "int \<Rightarrow> bytes \<Rightarrow> net \<Rightarrow> int \<times> net" where
  "net_tcp_send i data n =
     (if \<not> tcp_valid i then (-1, n)
      else let c = tcp_conns n ! nat i
      in if \<not> c_used c \<or> c_state c \<noteq> TCP_ESTABLISHED then (-1, n)
      else let chunk = (if length data > TCP_TX_SIZE then TCP_TX_SIZE else length data);
               n = tcp_tx c (TCP_PSH OR TCP_ACK) (snd_nxt c) (rcv_nxt c) (take chunk data) n
      in (int chunk, set_conn (nat i) (c\<lparr>tx_seq := snd_nxt c, tx_len := chunk, tx_buf := write_at 0 (take chunk data) (tx_buf c),
            retrans_tick := clock n, retrans_count := 0, snd_nxt := snd_nxt c + word_of_nat chunk\<rparr>) n))"

definition rx_get :: "tcp_conn \<Rightarrow> (u8 \<times> tcp_conn) option" where
  "rx_get c = (if rx_tail c = rx_head c then None
     else Some (rx c ! rx_tail c, c\<lparr>rx_tail := (rx_tail c + 1) mod TCP_RX_SIZE\<rparr>))"

fun rx_take :: "nat \<Rightarrow> tcp_conn \<Rightarrow> bytes \<times> tcp_conn" where
  "rx_take 0 c = ([], c)"
| "rx_take (Suc k) c =
     (case rx_get c of None \<Rightarrow> ([], c) | Some (b, c) \<Rightarrow> let (bs, c) = rx_take k c in (b # bs, c))"

fun recv_wait :: "nat \<Rightarrow> nat \<Rightarrow> u32 \<Rightarrow> poll list \<Rightarrow> net \<Rightarrow> (bytes \<times> poll list \<times> net) option" where
  "recv_wait i maxlen deadline [] n = (if clock n < deadline then None else Some ([], [], n))"
| "recv_wait i maxlen deadline (p # ps) n =
     (if clock n < deadline then do {
        n \<leftarrow> net_poll_once p n;
        let c = tcp_conns n ! i;
        if rx_head c \<noteq> rx_tail c then Some (let (bs, c) = rx_take maxlen c in (bs, ps, set_conn i c n))
        else if fin_recv c \<or> c_state c = TCP_CLOSE_WAIT \<or> c_state c = TCP_CLOSED \<or> \<not> c_used c then Some ([], ps, n)
        else recv_wait i maxlen deadline ps n
      } else Some ([], p # ps, n))"

text \<open>The result is \<open>None\<close> for the error, and the bytes otherwise.\<close>

definition net_tcp_recv :: "int \<Rightarrow> nat \<Rightarrow> poll list \<Rightarrow> net \<Rightarrow> (bytes option \<times> poll list \<times> net) option" where
  "net_tcp_recv i maxlen ps n =
     (if \<not> tcp_valid i \<or> \<not> c_used (tcp_conns n ! nat i) then Some (None, ps, n)
      else map_option (\<lambda>(bs, ps, n). (Some bs, ps, n)) (recv_wait (nat i) maxlen (clock n + 5000) ps n))"

definition close_start :: "nat \<Rightarrow> net \<Rightarrow> net" where
  "close_start i n =
     (let c = tcp_conns n ! i
      in set_conn i (c\<lparr>snd_nxt := snd_nxt c + 1, c_state := (if c_state c = TCP_ESTABLISHED then TCP_FIN_WAIT1 else TCP_LAST_ACK)\<rparr>)
           (tcp_tx c (TCP_FIN OR TCP_ACK) (snd_nxt c) (rcv_nxt c) [] n))"

fun close_wait :: "nat \<Rightarrow> u32 \<Rightarrow> poll list \<Rightarrow> net \<Rightarrow> (poll list \<times> net) option" where
  "close_wait i deadline [] n = (if clock n < deadline \<and> c_used (tcp_conns n ! i) then None else Some ([], n))"
| "close_wait i deadline (p # ps) n =
     (if clock n < deadline \<and> c_used (tcp_conns n ! i) then do {
        n \<leftarrow> net_poll_once p n;
        if c_state (tcp_conns n ! i) = TCP_TIME_WAIT \<or> c_state (tcp_conns n ! i) = TCP_CLOSED then Some (ps, n)
        else close_wait i deadline ps n
      } else Some (p # ps, n))"

definition net_tcp_close :: "int \<Rightarrow> poll list \<Rightarrow> net \<Rightarrow> (poll list \<times> net) option" where
  "net_tcp_close i ps n =
     (if \<not> tcp_valid i \<or> \<not> c_used (tcp_conns n ! nat i) then Some (ps, n)
      else do {
        (ps, n) \<leftarrow> (if c_state (tcp_conns n ! nat i) = TCP_ESTABLISHED \<or> c_state (tcp_conns n ! nat i) = TCP_CLOSE_WAIT
                    then close_wait (nat i) (clock n + 3000) ps (close_start (nat i) n) else Some (ps, n));
        Some (ps, close_conn (nat i) n)
      })"

definition net_tcp_state :: "int \<Rightarrow> net \<Rightarrow> tcp_phase" where
  "net_tcp_state i n = (if \<not> tcp_valid i \<or> \<not> c_used (tcp_conns n ! nat i) then TCP_CLOSED else c_state (tcp_conns n ! nat i))"

section \<open>The timer\<close>

definition retrans_due :: "u32 \<Rightarrow> tcp_conn \<Rightarrow> bool" where
  "retrans_due now c \<longleftrightarrow> tx_len c > 0 \<and> now - retrans_tick c \<ge> TCP_RTO"

definition ka_due :: "u32 \<Rightarrow> tcp_conn \<Rightarrow> bool" where
  "ka_due now c \<longleftrightarrow> now - last_rx_tick c \<ge> TCP_KEEPALIVE_IDLE \<and> now \<ge> ka_next_tick c"

definition abort_conn :: "nat \<Rightarrow> tcp_conn \<Rightarrow> net \<Rightarrow> net" where
  "abort_conn i c n =
     set_conn i (c\<lparr>c_used := False, c_state := TCP_CLOSED\<rparr>) (tcp_tx c (TCP_RST OR TCP_ACK) (snd_nxt c) (rcv_nxt c) [] n)"

definition tick_keepalive :: "u32 \<Rightarrow> nat \<Rightarrow> net \<Rightarrow> net" where
  "tick_keepalive now i n =
     (let c = tcp_conns n ! i
      in if ka_due now c then
        (if ka_probes c \<ge> TCP_KEEPALIVE_CNT then abort_conn i c n
         else set_conn i (c\<lparr>ka_probes := ka_probes c + 1, ka_next_tick := now + TCP_KEEPALIVE_INTVL\<rparr>)
                (tcp_tx c TCP_ACK (snd_nxt c - 1) (rcv_nxt c) [] n))
      else n)"

definition tick_conn :: "u32 \<Rightarrow> nat \<Rightarrow> net \<Rightarrow> net" where
  "tick_conn now i n =
     (let c = tcp_conns n ! i
      in if \<not> c_used c \<or> c_state c \<noteq> TCP_ESTABLISHED then n
      else if retrans_due now c then
        (if retrans_count c \<ge> TCP_MAX_RETRANS then abort_conn i c n
         else tick_keepalive now i (set_conn i (c\<lparr>retrans_tick := now, retrans_count := retrans_count c + 1\<rparr>)
                (tcp_tx c (TCP_PSH OR TCP_ACK) (tx_seq c) (rcv_nxt c) (take (tx_len c) (tx_buf c)) n)))
      else tick_keepalive now i n)"

definition net_tcp_tick :: "net \<Rightarrow> net" where
  "net_tcp_tick n = (if \<not> nic n then n else fold (tick_conn (clock n)) [0..<TCP_MAX_CONN] n)"

end
