(* ===== verification/TcpStream.thy ===== *)
theory TcpStream
  imports Tcp
begin

text \<open>
  The receiving side of a connection: the ring is a queue of bytes, and what the application has got together with
  what the ring holds is the acknowledged part of the byte stream.
\<close>

unbundle bit_operations_syntax

section \<open>The receive ring is a queue\<close>

definition rx_bytes :: "tcp_conn \<Rightarrow> bytes" where
  "rx_bytes c = ring_list (rx c) (rx_tail c) (rx_head c)"

definition conn_ok :: "tcp_conn \<Rightarrow> bool" where
  "conn_ok c \<longleftrightarrow> length (rx c) = TCP_RX_SIZE \<and> rx_head c < TCP_RX_SIZE \<and> rx_tail c < TCP_RX_SIZE \<and>
     length (ooo_buf c) = TCP_TX_SIZE \<and> ooo_len c \<le> TCP_TX_SIZE \<and> length (tx_buf c) = TCP_TX_SIZE \<and> tx_len c \<le> TCP_TX_SIZE"

definition rx_put :: "u8 \<Rightarrow> tcp_conn \<Rightarrow> tcp_conn option" where
  "rx_put b c = (if rx_full c then None else Some (rx_store b c))"

lemma rx_store_bytes:
  assumes "conn_ok c" "\<not> rx_full c"
  shows "rx_bytes (rx_store b c) = rx_bytes c @ [b]" "conn_ok (rx_store b c)"
  using assms ring_list_push [of "rx_tail c" "rx c" "rx_head c" b]
  by (auto simp: conn_ok_def rx_full_def rx_store_def rx_bytes_def TCP_RX_SIZE_def)

lemma rx_full_iff: "conn_ok c \<Longrightarrow> rx_full c \<longleftrightarrow> length (rx_bytes c) = TCP_RX_SIZE - 1"
  using ring_full_iff [of "rx_tail c" TCP_RX_SIZE "rx_head c"] by (simp add: conn_ok_def rx_full_def rx_bytes_def)

lemma rx_get_bytes:
  assumes "conn_ok c" "rx_get c = Some (b, c')"
  shows "rx_bytes c = b # rx_bytes c'" "conn_ok c'"
  using assms ring_list_pop [of "rx_tail c" "rx c" "rx_head c"]
  by (auto simp: conn_ok_def rx_get_def rx_bytes_def TCP_RX_SIZE_def split: if_splits)

lemma rx_get_None_iff: "conn_ok c \<Longrightarrow> rx_get c = None \<longleftrightarrow> rx_bytes c = []"
  using ring_list_Nil_iff [of "rx_tail c" "rx c" "rx_head c"] by (simp add: conn_ok_def rx_get_def rx_bytes_def)

lemma rx_bytes_bound: "conn_ok c \<Longrightarrow> length (rx_bytes c) \<le> TCP_RX_SIZE - 1"
  using ring_len_less [of TCP_RX_SIZE "rx_tail c" "rx_head c"] by (simp add: conn_ok_def rx_bytes_def TCP_RX_SIZE_def)

interpretation rx_ring: bounded_queue rx_put rx_get rx_bytes conn_ok "TCP_RX_SIZE - 1" "\<lambda>_. True"
proof (unfold_locales, goal_cases)
  case (1 q x q')
  then show ?case using rx_store_bytes by (auto simp: rx_put_def split: if_splits)
next
  case (2 q x)
  then show ?case by (simp add: rx_put_def rx_full_iff)
next
  case (3 q x q')
  then show ?case using rx_get_bytes [OF 3] by simp
next
  case (4 q)
  then show ?case by (rule rx_get_None_iff)
next
  case (5 q)
  then show ?case by (rule rx_bytes_bound)
qed

text \<open>Pushing stores as much as there is room for and touches nothing but the ring.\<close>

lemma tcp_rx_push_spec:
  assumes "conn_ok c" "len \<le> length data"
  shows "\<exists>r h. tcp_rx_push len data c = Some (c\<lparr>rx := r, rx_head := h\<rparr>) \<and> conn_ok (c\<lparr>rx := r, rx_head := h\<rparr>) \<and>
    rx_bytes (c\<lparr>rx := r, rx_head := h\<rparr>) = rx_bytes c @ take (min len (TCP_RX_SIZE - 1 - length (rx_bytes c))) data"
  using assms
proof (induction len data c rule: tcp_rx_push.induct)
  case (1 data c)
  then show ?case by (intro exI [of _ "rx c"] exI [of _ "rx_head c"]) simp
next
  case (2 len data c)
  show ?case
  proof (cases "rx_full c")
    case True
    with 2 rx_full_iff [of c] show ?thesis by (intro exI [of _ "rx c"] exI [of _ "rx_head c"]) simp
  next
    case False
    from "2.prems" obtain b data' where d: "data = b # data'" by (cases data) auto
    note st = rx_store_bytes [OF "2.prems"(1) False, of b]
    have "length (rx_bytes c) < TCP_RX_SIZE - 1"
      using False rx_full_iff rx_bytes_bound [OF "2.prems"(1)] "2.prems"(1) by fastforce
    then obtain m where "TCP_RX_SIZE - 1 - length (rx_bytes c) = Suc m"
      by (metis Suc_diff_Suc)
    moreover from this have "TCP_RX_SIZE - 1 - length (rx_bytes (rx_store b c)) = m" using st(1) by simp
    ultimately have "take (min (Suc len) (TCP_RX_SIZE - 1 - length (rx_bytes c))) data =
        b # take (min len (TCP_RX_SIZE - 1 - length (rx_bytes (rx_store b c)))) data'"
      using d by simp
    moreover from "2.IH" [OF False d st(2)] "2.prems"(2) d obtain r h where
      "tcp_rx_push len data' (rx_store b c) = Some ((rx_store b c)\<lparr>rx := r, rx_head := h\<rparr>)"
      "conn_ok ((rx_store b c)\<lparr>rx := r, rx_head := h\<rparr>)"
      "rx_bytes ((rx_store b c)\<lparr>rx := r, rx_head := h\<rparr>) =
        rx_bytes (rx_store b c) @ take (min len (TCP_RX_SIZE - 1 - length (rx_bytes (rx_store b c)))) data'" by auto
    ultimately show ?thesis using False d st(1) by (intro exI [of _ r] exI [of _ h]) (simp add: rx_store_def)
  qed
qed

lemma rx_take_spec:
  assumes "conn_ok c"
  shows "\<exists>t. rx_take k c = (take k (rx_bytes c), c\<lparr>rx_tail := t\<rparr>) \<and> conn_ok (c\<lparr>rx_tail := t\<rparr>) \<and>
    rx_bytes (c\<lparr>rx_tail := t\<rparr>) = drop k (rx_bytes c)"
  using assms
proof (induction k c rule: rx_take.induct)
  case (1 c)
  then show ?case by (intro exI [of _ "rx_tail c"]) simp
next
  case (2 k c)
  show ?case
  proof (cases "rx_get c")
    case None
    with 2 rx_get_None_iff [of c] show ?thesis by (intro exI [of _ "rx_tail c"]) simp
  next
    case (Some p)
    obtain b c1 where p: "p = (b, c1)" by (cases p)
    note g = rx_get_bytes [OF "2.prems" Some [unfolded p]]
    obtain t1 where c1: "c1 = c\<lparr>rx_tail := t1\<rparr>" using Some p by (auto simp: rx_get_def split: if_splits)
    from "2.IH" [OF Some p [symmetric] g(2)] obtain t where
      "rx_take k c1 = (take k (rx_bytes c1), c1\<lparr>rx_tail := t\<rparr>)" "conn_ok (c1\<lparr>rx_tail := t\<rparr>)"
      "rx_bytes (c1\<lparr>rx_tail := t\<rparr>) = drop k (rx_bytes c1)" by auto
    then show ?thesis using Some p g(1) c1 by (intro exI [of _ t]) simp
  qed
qed

section \<open>The byte stream\<close>

text \<open>
  The peer sends the stream \<open>S\<close> from sequence number \<open>b\<close> on. It may send any part of it, again and in any order, as long
  as it stays within the 4095 bytes after what the application has fetched. The application fetches what it likes;
  transmissions of this side change the fields for transmission only.
\<close>

inductive stream_step :: "(nat \<Rightarrow> u8) \<Rightarrow> u32 \<Rightarrow> tcp_conn \<times> bytes \<Rightarrow> tcp_conn \<times> bytes \<Rightarrow> bool" for S b where
  segment: "flags AND TCP_RST = 0 \<Longrightarrow> flags AND TCP_FIN = 0 \<Longrightarrow> off + dlen < length out + TCP_RX_SIZE \<Longrightarrow>
    off + dlen < 2 ^ 32 \<Longrightarrow>
    conn_segment now flags (b + word_of_nat off) sack dlen (map S [off..<off + dlen] @ pad) c = Some (stop, c', rs) \<Longrightarrow>
    stream_step S b (c, out) (c', out)"
| fetch: "rx_take k c = (bs, c') \<Longrightarrow> stream_step S b (c, out) (c', out @ bs)"
| transmit: "length tb = TCP_TX_SIZE \<Longrightarrow> l \<le> TCP_TX_SIZE \<Longrightarrow>
    stream_step S b (c, out) (c\<lparr>snd_nxt := sn, tx_buf := tb, tx_len := l, tx_seq := q, retrans_tick := r, retrans_count := k,
      ka_probes := kp, ka_next_tick := kn\<rparr>, out)"

definition held_back :: "(nat \<Rightarrow> u8) \<Rightarrow> u32 \<Rightarrow> nat \<Rightarrow> tcp_conn \<Rightarrow> bool" where
  "held_back S b lim c \<longleftrightarrow> (ooo_len c > 0 \<longrightarrow>
     (\<exists>off. ooo_seq c = b + word_of_nat off \<and> off + ooo_len c < lim \<and> off + ooo_len c < 2 ^ 32 \<and>
       take (ooo_len c) (ooo_buf c) = map S [off..<off + ooo_len c]))"

definition stream_at :: "(nat \<Rightarrow> u8) \<Rightarrow> u32 \<Rightarrow> bytes \<Rightarrow> nat \<Rightarrow> tcp_conn \<Rightarrow> bool" where
  "stream_at S b out m c \<longleftrightarrow> conn_ok c \<and> m < 2 ^ 32 \<and> out @ rx_bytes c = map S [0..<m] \<and> rcv_nxt c = b + word_of_nat m \<and>
     held_back S b (length out + TCP_RX_SIZE) c"

definition stream_inv :: "(nat \<Rightarrow> u8) \<Rightarrow> u32 \<Rightarrow> tcp_conn \<times> bytes \<Rightarrow> bool" where
  "stream_inv S b s \<longleftrightarrow> (case s of (c, out) \<Rightarrow> c_state c \<noteq> TCP_SYN_SENT \<and> (\<exists>m. stream_at S b out m c))"

lemma word_of_nat_inj32: "m < 2 ^ 32 \<Longrightarrow> k < 2 ^ 32 \<Longrightarrow> (word_of_nat m :: u32) = word_of_nat k \<longleftrightarrow> m = k"
  by (simp add: word_of_nat_eq_iff take_bit_nat_eq_self)

lemma stream_at_cong:
  assumes "stream_at S b out m c" "rx c' = rx c" "rx_head c' = rx_head c" "rx_tail c' = rx_tail c" "rcv_nxt c' = rcv_nxt c"
    "ooo_len c' = ooo_len c" "ooo_buf c' = ooo_buf c" "ooo_seq c' = ooo_seq c" "length (tx_buf c') = TCP_TX_SIZE" "tx_len c' \<le> TCP_TX_SIZE"
  shows "stream_at S b out m c'"
  using assms by (simp add: stream_at_def held_back_def conn_ok_def rx_bytes_def)

lemma stream_at_tx: "stream_at S b out m c \<Longrightarrow> length (tx_buf c) = TCP_TX_SIZE \<and> tx_len c \<le> TCP_TX_SIZE"
  by (simp add: stream_at_def conn_ok_def)

text \<open>Pushing the next part of the stream, when there is room for it.\<close>

lemma push_next:
  assumes "conn_ok c" "out @ rx_bytes c = map S [0..<m]" "m + len < length out + TCP_RX_SIZE"
    "len \<le> length data" "take len data = map S [m..<m + len]"
  obtains r h where "tcp_rx_push len data c = Some (c\<lparr>rx := r, rx_head := h\<rparr>)" "conn_ok (c\<lparr>rx := r, rx_head := h\<rparr>)"
    "out @ rx_bytes (c\<lparr>rx := r, rx_head := h\<rparr>) = map S [0..<m + len]"
proof -
  have "length out + length (rx_bytes c) = m" using arg_cong [OF assms(2), of length] by simp
  then have "len \<le> TCP_RX_SIZE - 1 - length (rx_bytes c)" using assms(3) by linarith
  then have m: "min len (TCP_RX_SIZE - 1 - length (rx_bytes c)) = len" by linarith
  obtain r h where *: "tcp_rx_push len data c = Some (c\<lparr>rx := r, rx_head := h\<rparr>)" "conn_ok (c\<lparr>rx := r, rx_head := h\<rparr>)"
    "rx_bytes (c\<lparr>rx := r, rx_head := h\<rparr>) = rx_bytes c @ take (min len (TCP_RX_SIZE - 1 - length (rx_bytes c))) data"
    using tcp_rx_push_spec [OF assms(1,4)] by blast
  have "out @ rx_bytes (c\<lparr>rx := r, rx_head := h\<rparr>) = map S [0..<m] @ map S [m..<m + len]"
    unfolding *(3) m assms(5) by (simp add: assms(2) [symmetric])
  also have "\<dots> = map S [0..<m + len]" by (simp add: upt_add_eq_append [of 0])
  finally show thesis by (rule that [OF *(1,2)])
qed

lemma merge_ooo_stream:
  assumes "stream_at S b out m c"
  shows "\<exists>c' m'. merge_ooo c = Some c' \<and> stream_at S b out m' c' \<and> m \<le> m' \<and> c_state c' = c_state c"
proof (cases "ooo_len c > 0 \<and> ooo_seq c = rcv_nxt c")
  case True
  have c: "conn_ok c" "m < 2 ^ 32" "out @ rx_bytes c = map S [0..<m]" "rcv_nxt c = b + word_of_nat m"
    and hb: "held_back S b (length out + TCP_RX_SIZE) c" using assms by (auto simp: stream_at_def)
  from hb True obtain off where o: "ooo_seq c = b + word_of_nat off" "off + ooo_len c < length out + TCP_RX_SIZE"
    "off + ooo_len c < 2 ^ 32" "take (ooo_len c) (ooo_buf c) = map S [off..<off + ooo_len c]" by (auto simp: held_back_def)
  have "off = m" using o(1,3) c(2,4) True word_of_nat_inj32 [of off m] by simp
  moreover have "ooo_len c \<le> length (ooo_buf c)" using c(1) by (simp add: conn_ok_def)
  ultimately obtain r h where "tcp_rx_push (ooo_len c) (ooo_buf c) c = Some (c\<lparr>rx := r, rx_head := h\<rparr>)"
    "conn_ok (c\<lparr>rx := r, rx_head := h\<rparr>)" "out @ rx_bytes (c\<lparr>rx := r, rx_head := h\<rparr>) = map S [0..<m + ooo_len c]"
    using push_next [OF c(1,3), of "ooo_len c" "ooo_buf c"] o by metis
  then show ?thesis using True c(4) o(3) \<open>off = m\<close>
    by (intro exI [of _ "c\<lparr>rx := r, rx_head := h, rcv_nxt := rcv_nxt c + word_of_nat (ooo_len c), ooo_len := 0\<rparr>"]
          exI [of _ "m + ooo_len c"])
      (simp add: merge_ooo_def stream_at_def held_back_def conn_ok_def rx_bytes_def)
qed (use assms in \<open>auto simp: merge_ooo_def\<close>)

text \<open>A segment of the stream: in order it advances the stream; otherwise it is at most put aside.\<close>

lemma accept_data_stream:
  assumes "stream_at S b out m c" "off + dlen < length out + TCP_RX_SIZE" "off + dlen < 2 ^ 32" "dlen > 0"
  shows "\<exists>c' m'. accept_data now (b + word_of_nat off) dlen (map S [off..<off + dlen] @ pad) c = Some c' \<and>
    stream_at S b out m' c' \<and> m + (if off = m then dlen else 0) \<le> m' \<and> c_state c' = c_state c"
proof -
  let ?data = "map S [off..<off + dlen] @ pad"
  let ?c = "c\<lparr>last_rx_tick := now, ka_probes := 0, ka_next_tick := now + TCP_KEEPALIVE_IDLE\<rparr>"
  have c: "conn_ok ?c" "m < 2 ^ 32" "out @ rx_bytes ?c = map S [0..<m]" "rcv_nxt c = b + word_of_nat m"
    "held_back S b (length out + TCP_RX_SIZE) c"
    using assms(1) by (auto simp: stream_at_def conn_ok_def rx_bytes_def)
  have eq: "b + word_of_nat off = rcv_nxt c \<longleftrightarrow> off = m" using c(2,4) assms(3) word_of_nat_inj32 [of off m] by simp
  show ?thesis
  proof (cases "off = m")
    case True
    have "m + dlen < length out + TCP_RX_SIZE" "dlen \<le> length ?data" "take dlen ?data = map S [m..<m + dlen]"
      using assms(2) True by simp_all
    from push_next [OF c(1,3) this] obtain r h where "tcp_rx_push dlen ?data ?c = Some (?c\<lparr>rx := r, rx_head := h\<rparr>)"
      "conn_ok (?c\<lparr>rx := r, rx_head := h\<rparr>)" "out @ rx_bytes (?c\<lparr>rx := r, rx_head := h\<rparr>) = map S [0..<m + dlen]" .
    moreover define c1 where "c1 = ?c\<lparr>rx := r, rx_head := h, rcv_nxt := rcv_nxt c + word_of_nat dlen\<rparr>"
    ultimately have "stream_at S b out (m + dlen) c1"
      using c(4,5) assms(3) True by (simp add: stream_at_def held_back_def conn_ok_def rx_bytes_def)
    from merge_ooo_stream [OF this] \<open>tcp_rx_push dlen ?data ?c = _\<close> show ?thesis
      using True eq by (auto simp: accept_data_def c1_def Let_def)
  next
    case False
    have at: "stream_at S b out m ?c" using stream_at_tx [OF assms(1)] by (intro stream_at_cong [OF assms(1)]) simp_all
    show ?thesis
    proof (cases "b + word_of_nat off > rcv_nxt c \<and> dlen \<le> TCP_TX_SIZE \<and> ooo_len c = 0")
      case True
      let ?c1 = "?c\<lparr>ooo_buf := write_at 0 (take dlen ?data) (ooo_buf c), ooo_len := dlen, ooo_seq := b + word_of_nat off\<rparr>"
      have "take dlen ?data = map S [off..<off + dlen]" by simp
      moreover have "dlen \<le> length (ooo_buf c)" using c(1) True by (simp add: conn_ok_def)
      ultimately have "stream_at S b out m ?c1"
        using at assms(2,3) True by (auto simp: stream_at_def held_back_def conn_ok_def rx_bytes_def write_at_def intro!: exI [of _ off])
      then show ?thesis using True False eq by (intro exI [of _ ?c1] exI [of _ m]) (simp add: accept_data_def)
    next
      case no: False
      then show ?thesis using at False eq by (intro exI [of _ ?c] exI [of _ m]) (auto simp: accept_data_def Let_def)
    qed
  qed
qed

lemma process_ack_fields:
  "stream_at S b out m c \<Longrightarrow> stream_at S b out m (process_ack sack c)"
  "c_state (process_ack sack c) = TCP_ESTABLISHED \<longleftrightarrow> c_state c = TCP_ESTABLISHED"
  "c_state (process_ack sack c) = TCP_SYN_SENT \<longleftrightarrow> c_state c = TCP_SYN_SENT"
proof -
  show "stream_at S b out m (process_ack sack c)" if "stream_at S b out m c"
    using stream_at_tx [OF that] by (intro stream_at_cong [OF that]) (simp_all add: process_ack_def Let_def)
qed (auto simp: process_ack_def Let_def)

lemma open_segment_stream:
  assumes "stream_at S b out m c" "flags AND TCP_FIN = 0" "off + dlen < length out + TCP_RX_SIZE" "off + dlen < 2 ^ 32"
  shows "\<exists>c' rs m'. open_segment now flags (b + word_of_nat off) sack dlen (map S [off..<off + dlen] @ pad) c = Some (c', rs) \<and>
    stream_at S b out m' c' \<and> (c_state c' = TCP_SYN_SENT \<longleftrightarrow> c_state c = TCP_SYN_SENT) \<and>
    m + (if off = m \<and> c_state c = TCP_ESTABLISHED then dlen else 0) \<le> m'"
proof -
  define c1 where "c1 = (if flags AND TCP_ACK \<noteq> 0 then process_ack sack c else c)"
  have c1: "stream_at S b out m c1" "c_state c1 = TCP_ESTABLISHED \<longleftrightarrow> c_state c = TCP_ESTABLISHED"
    "c_state c1 = TCP_SYN_SENT \<longleftrightarrow> c_state c = TCP_SYN_SENT"
    using assms(1) process_ack_fields by (auto simp: c1_def)
  show ?thesis
  proof (cases "dlen > 0 \<and> c_state c1 = TCP_ESTABLISHED")
    case True
    with accept_data_stream [OF c1(1) assms(3,4), of now pad] obtain c' m' where
      "accept_data now (b + word_of_nat off) dlen (map S [off..<off + dlen] @ pad) c1 = Some c'"
      "stream_at S b out m' c'" "m + (if off = m then dlen else 0) \<le> m'" "c_state c' = c_state c1" by blast
    with True assms(2) c1 show ?thesis by (auto simp: open_segment_def Let_def c1_def [symmetric])
  next
    case False
    with assms(2) c1 show ?thesis by (auto simp: open_segment_def Let_def c1_def [symmetric])
  qed
qed

lemma conn_segment_stream:
  assumes "stream_at S b out m c" "c_state c \<noteq> TCP_SYN_SENT" "flags AND TCP_RST = 0" "flags AND TCP_FIN = 0"
    "off + dlen < length out + TCP_RX_SIZE" "off + dlen < 2 ^ 32"
  shows "\<exists>c' rs m'. conn_segment now flags (b + word_of_nat off) sack dlen (map S [off..<off + dlen] @ pad) c = Some (False, c', rs) \<and>
    stream_at S b out m' c' \<and> c_state c' \<noteq> TCP_SYN_SENT \<and>
    m + (if off = m \<and> c_state c = TCP_ESTABLISHED then dlen else 0) \<le> m'"
proof (cases "c_state c = TCP_ESTABLISHED \<or> c_state c = TCP_FIN_WAIT1 \<or> c_state c = TCP_FIN_WAIT2")
  case True
  from open_segment_stream [OF assms(1,4-), of now sack pad] assms(2,3) True show ?thesis
    by (auto simp: conn_segment_def)
next
  case False
  have "stream_at S b out m (c\<lparr>c_used := False, c_state := TCP_CLOSED\<rparr>)"
    using stream_at_tx [OF assms(1)] by (intro stream_at_cong [OF assms(1)]) simp_all
  then show ?thesis using False assms by (cases "c_state c") (auto simp: conn_segment_def)
qed

lemma stream_step_inv:
  assumes "stream_step S b s s'" "stream_inv S b s"
  shows "stream_inv S b s'"
  using assms
proof cases
  case (segment flags off dlen out now sack pad c stop c' rs)
  with assms(2) obtain m where "stream_at S b out m c" "c_state c \<noteq> TCP_SYN_SENT" by (auto simp: stream_inv_def)
  from conn_segment_stream [OF this segment(3-6), of now sack pad] segment(1,2,7) show ?thesis by (auto simp: stream_inv_def)
next
  case (fetch k c bs c' out)
  with assms(2) obtain m where m: "stream_at S b out m c" "c_state c \<noteq> TCP_SYN_SENT" by (auto simp: stream_inv_def)
  from rx_take_spec [of c k] m(1) fetch(3) obtain t where t: "bs = take k (rx_bytes c)" "c' = c\<lparr>rx_tail := t\<rparr>" "conn_ok c'"
    "rx_bytes c' = drop k (rx_bytes c)" by (auto simp: stream_at_def)
  have "stream_at S b (out @ bs) m c'"
    using m(1) t by (fastforce simp: stream_at_def held_back_def)
  then show ?thesis using m(2) t(2) fetch(2) by (auto simp: stream_inv_def)
next
  case (transmit tb l c out)
  with assms(2) obtain m where m: "stream_at S b out m c" "c_state c \<noteq> TCP_SYN_SENT" by (auto simp: stream_inv_def)
  show ?thesis
    unfolding transmit(2) stream_inv_def prod.case using m(2) transmit(3,4)
    by (intro conjI exI [of _ m] stream_at_cong [OF m(1)]) simp_all
qed

lemma stream_reachable:
  assumes "(stream_step S b)\<^sup>*\<^sup>* (c, []) (c', out)" "conn_ok c" "c_state c \<noteq> TCP_SYN_SENT" "rx_head c = rx_tail c" "ooo_len c = 0" "rcv_nxt c = b"
  shows "stream_inv S b (c', out)"
  using assms(1)
proof (induction rule: rtranclp_induct)
  case base
  show ?case using assms(2-) by (auto simp: stream_inv_def stream_at_def held_back_def rx_bytes_def intro!: exI [of _ 0])
next
  case (step s s')
  then show ?case using stream_step_inv by blast
qed

text \<open>
  C8. What the application of a connection has received, followed by what waits in the ring, is exactly the part of the
  peer's byte stream that the connection has acknowledged, whatever the order in which segments arrive, as long as the
  peer keeps within the ring and less than \<open>2 ^ 32\<close> bytes are sent.
\<close>

theorem tcp_stream_safe:
  assumes "(stream_step S b)\<^sup>*\<^sup>* (c, []) (c', out)" "conn_ok c" "c_state c = TCP_ESTABLISHED" "rx_head c = rx_tail c" "ooo_len c = 0"
    "rcv_nxt c = b"
  shows "out @ rx_bytes c' = map S [0..<unat (rcv_nxt c' - b)]"
proof -
  from stream_reachable [OF assms(1,2)] assms(3-) obtain m where
    "m < 2 ^ 32" "out @ rx_bytes c' = map S [0..<m]" "rcv_nxt c' = b + word_of_nat m"
    by (auto simp: stream_inv_def stream_at_def)
  then show ?thesis by (simp add: unsigned_of_nat take_bit_nat_eq_self)
qed

text \<open>The second byte of a stream arrives before the first one; both are then fetched.\<close>

definition open_conn :: tcp_conn where
  "open_conn = zero_conn\<lparr>c_used := True, c_state := TCP_ESTABLISHED, rcv_nxt := 7\<rparr>"

lemma open_conn_ok: "conn_ok open_conn" "c_state open_conn = TCP_ESTABLISHED" "rx_head open_conn = rx_tail open_conn"
  "ooo_len open_conn = 0" "rcv_nxt open_conn = 7"
  by (simp_all add: open_conn_def zero_conn_def conn_ok_def TCP_RX_SIZE_def TCP_TX_SIZE_def)

theorem tcp_stream_safe_witness:
  "\<exists>c' out. (stream_step word_of_nat 7)\<^sup>*\<^sup>* (open_conn, []) (c', out) \<and> out = [0, 1] \<and>
     out @ rx_bytes c' = map word_of_nat [0..<unat (rcv_nxt c' - 7)]"
proof -
  let ?S = "word_of_nat :: nat \<Rightarrow> u8"
  let ?c1 = "open_conn\<lparr>snd_nxt := 0, last_rx_tick := 3, ka_next_tick := 30003, ooo_buf := 1 # replicate 1399 0, ooo_len := 1, ooo_seq := 8\<rparr>"
  have "conn_segment 3 TCP_ACK (7 + word_of_nat 1) 0 1 (map ?S [1..<1 + 1] @ []) open_conn = Some (False, ?c1, [ack_of ?c1])"
    by (simp add: conn_segment_def open_segment_def process_ack_def accept_data_def open_conn_def zero_conn_def write_at_def
        TCP_RST_def TCP_ACK_def TCP_FIN_def TCP_TX_SIZE_def TCP_KEEPALIVE_IDLE_def Let_def)
  then have "stream_step ?S 7 (open_conn, []) (?c1, [])"
    by (rule stream_step.segment [rotated 4]) (simp_all add: TCP_RST_def TCP_ACK_def TCP_FIN_def TCP_RX_SIZE_def)
  moreover
  have "(4096 :: nat) = Suc (Suc 4094)" by simp
  then have ring: "replicate 4096 (0 :: u8) = 0 # 0 # replicate 4094 0" by (simp only: replicate_Suc)
  let ?c2 = "?c1\<lparr>last_rx_tick := 4, ka_next_tick := 30004, ooo_len := 0, rcv_nxt := 9, rx := 0 # 1 # replicate 4094 0, rx_head := 2\<rparr>"
  have "conn_segment 4 TCP_ACK (7 + word_of_nat 0) 0 1 (map ?S [0..<0 + 1] @ []) ?c1 = Some (False, ?c2, [ack_of ?c2])"
    by (simp add: conn_segment_def open_segment_def process_ack_def accept_data_def merge_ooo_def open_conn_def zero_conn_def ack_of_def ring
        rx_full_def rx_store_def TCP_RST_def TCP_ACK_def TCP_FIN_def TCP_RX_SIZE_def TCP_TX_SIZE_def TCP_KEEPALIVE_IDLE_def Let_def)
  then have "stream_step ?S 7 (?c1, []) (?c2, [])"
    by (rule stream_step.segment [rotated 4]) (simp_all add: TCP_RST_def TCP_ACK_def TCP_FIN_def TCP_RX_SIZE_def)
  moreover
  have "rx_take (Suc (Suc 0)) ?c2 = ([0, 1], ?c2\<lparr>rx_tail := 2\<rparr>)"
    by (simp add: rx_get_def open_conn_def zero_conn_def TCP_RX_SIZE_def)
  then have "stream_step ?S 7 (?c2, []) (?c2\<lparr>rx_tail := 2\<rparr>, [] @ [0, 1])" by (rule stream_step.fetch)
  ultimately have run: "(stream_step ?S 7)\<^sup>*\<^sup>* (open_conn, []) (?c2\<lparr>rx_tail := 2\<rparr>, [0, 1])" by simp
  from run tcp_stream_safe [OF run open_conn_ok] show ?thesis by blast
qed

section \<open>More data than the ring holds\<close>

lemma process_ack_open:
  assumes "c_state c = TCP_ESTABLISHED"
  shows "process_ack sack c = c\<lparr>snd_nxt := sack,
    tx_len := (if sint (sack - (tx_seq c + word_of_nat (tx_len c))) \<ge> 0 then 0 else tx_len c)\<rparr>"
  using assms by (simp add: process_ack_def Let_def)

lemma in_order_segment:
  assumes "conn_ok c" "c_state c = TCP_ESTABLISHED" "ooo_len c = 0" "0 < dlen" "dlen \<le> length data"
    "flags AND TCP_RST = 0" "flags AND TCP_FIN = 0" "flags AND TCP_ACK \<noteq> 0"
  shows "\<exists>r h l. let c' = c\<lparr>snd_nxt := sack, tx_len := l, last_rx_tick := now, ka_probes := 0, ka_next_tick := now + TCP_KEEPALIVE_IDLE,
      rx := r, rx_head := h, rcv_nxt := rcv_nxt c + word_of_nat dlen\<rparr>
    in conn_segment now flags (rcv_nxt c) sack dlen data c = Some (False, c', [ack_of c']) \<and> conn_ok c' \<and>
      rx_bytes c' = rx_bytes c @ take (TCP_RX_SIZE - 1 - length (rx_bytes c)) (take dlen data)"
proof -
  obtain l where l: "process_ack sack c = c\<lparr>snd_nxt := sack, tx_len := l\<rparr>" "l \<le> tx_len c"
    using process_ack_open [OF assms(2), of sack] by auto
  let ?c = "c\<lparr>snd_nxt := sack, tx_len := l, last_rx_tick := now, ka_probes := 0, ka_next_tick := now + TCP_KEEPALIVE_IDLE\<rparr>"
  have "conn_ok ?c" "rx_bytes ?c = rx_bytes c" using assms(1) l(2) by (auto simp: conn_ok_def rx_bytes_def)
  with tcp_rx_push_spec [of ?c dlen data] assms(5) obtain r h where
    p: "tcp_rx_push dlen data ?c = Some (?c\<lparr>rx := r, rx_head := h\<rparr>)" "conn_ok (?c\<lparr>rx := r, rx_head := h\<rparr>)"
    "rx_bytes (?c\<lparr>rx := r, rx_head := h\<rparr>) = rx_bytes c @ take (min dlen (TCP_RX_SIZE - 1 - length (rx_bytes c))) data" by auto
  let ?c' = "?c\<lparr>rx := r, rx_head := h, rcv_nxt := rcv_nxt c + word_of_nat dlen\<rparr>"
  have "accept_data now (rcv_nxt c) dlen data (process_ack sack c) = Some ?c'"
    using p(1) l(1) assms(3) by (simp add: accept_data_def merge_ooo_def)
  then have "conn_segment now flags (rcv_nxt c) sack dlen data c = Some (False, ?c', [ack_of ?c'])"
    using assms l(1) by (simp add: conn_segment_def open_segment_def Let_def)
  moreover have "rx_bytes ?c' = rx_bytes c @ take (TCP_RX_SIZE - 1 - length (rx_bytes c)) (take dlen data)" "conn_ok ?c'"
    using p(2,3) by (simp_all add: rx_bytes_def conn_ok_def min.commute)
  ultimately show ?thesis unfolding Let_def by (intro exI conjI)
qed

text \<open>
  A segment in order is acknowledged as a whole, but only the bytes that fit into the ring are kept. The window that
  every segment announces is 65535, so a peer is free to send more than the 4095 bytes the ring can hold.
\<close>

theorem tcp_overflow_acked:
  assumes "conn_ok c" "c_state c = TCP_ESTABLISHED" "ooo_len c = 0" "0 < dlen" "dlen \<le> length data"
    "flags AND TCP_RST = 0" "flags AND TCP_FIN = 0" "flags AND TCP_ACK \<noteq> 0"
  shows "\<exists>c'. conn_segment now flags (rcv_nxt c) sack dlen data c = Some (False, c', [(TCP_ACK, snd_nxt c', rcv_nxt c + word_of_nat dlen)]) \<and>
    rcv_nxt c' = rcv_nxt c + word_of_nat dlen \<and>
    rx_bytes c' = rx_bytes c @ take (TCP_RX_SIZE - 1 - length (rx_bytes c)) (take dlen data)"
  using in_order_segment [OF assms, of now sack] by (auto simp: Let_def ack_of_def)

text \<open>A byte that arrives while the ring is full is acknowledged and lost.\<close>

theorem tcp_overflow_acked_witness:
  "\<exists>c'. conn_segment 5 TCP_ACK 7 0 1 [42] (open_conn\<lparr>rx_head := 4095\<rparr>) = Some (False, c', [(TCP_ACK, snd_nxt c', 8)]) \<and>
     rx_bytes c' = rx_bytes (open_conn\<lparr>rx_head := 4095\<rparr>)"
proof -
  let ?c = "open_conn\<lparr>rx_head := 4095\<rparr>"
  have c: "conn_ok ?c" "c_state ?c = TCP_ESTABLISHED" "ooo_len ?c = 0" "rcv_nxt ?c = 7" "length (rx_bytes ?c) = 4095"
    by (simp_all add: open_conn_def zero_conn_def conn_ok_def rx_bytes_def ring_len_def TCP_RX_SIZE_def TCP_TX_SIZE_def)
  from tcp_overflow_acked [OF c(1-3), of 1 "[42]" TCP_ACK 5 0] c(4,5) show ?thesis
    by (auto simp: TCP_RST_def TCP_ACK_def TCP_FIN_def TCP_RX_SIZE_def)
qed

end
