(* ===== verification/TcpLink.thy ===== *)
theory TcpLink
  imports TcpStream
begin

text \<open>
  What one host sends and another one receives: frames carry valid checksums and are read back as the segment they were
  made from, a connection opens on both sides, and data that is sent arrives and is acknowledged.
\<close>

unbundle bit_operations_syntax

section \<open>The layout of a frame\<close>

lemma be_bytes_2: "be_bytes 2 w = [ucast (drop_bit 8 w), ucast w]"
  by (simp add: be_bytes_def upt_rec)

lemma be_bytes_4: "be_bytes 4 w = [ucast (drop_bit 24 w), ucast (drop_bit 16 w), ucast (drop_bit 8 w), ucast w]"
  by (simp add: be_bytes_def upt_rec)

lemma join_16: "push_bit 8 (ucast (ucast (drop_bit 8 w) :: u8)) OR ucast (ucast w :: u8) = (w :: u16)"
  by (rule bit_word_eqI) (auto simp: bit_or_iff bit_push_bit_iff bit_ucast_iff bit_drop_bit_eq)

lemma join_32:
  "push_bit 24 (ucast (ucast (drop_bit 24 w) :: u8)) OR push_bit 16 (ucast (ucast (drop_bit 16 w) :: u8)) OR
   push_bit 8 (ucast (ucast (drop_bit 8 w) :: u8)) OR ucast (ucast w :: u8) = (w :: u32)"
proof (rule bit_word_eqI)
  fix n assume "n < LENGTH(32)"
  consider "n < 8" | "8 \<le> n" "n < 16" | "16 \<le> n" "n < 24" | "24 \<le> n" by linarith
  then show "bit (push_bit 24 (ucast (ucast (drop_bit 24 w) :: u8)) OR push_bit 16 (ucast (ucast (drop_bit 16 w) :: u8)) OR
      push_bit 8 (ucast (ucast (drop_bit 8 w) :: u8)) OR ucast (ucast w :: u8) :: u32) n = bit w n"
    by cases (use \<open>n < LENGTH(32)\<close> in \<open>auto simp: bit_or_iff bit_push_bit_iff bit_ucast_iff bit_drop_bit_eq\<close>)
qed

lemma length_4: "length l = 4 \<Longrightarrow> \<exists>a b c d. l = [a, b, c, d]"
  by (auto simp: length_Suc_conv eval_nat_numeral)

lemma length_6: "length l = 6 \<Longrightarrow> \<exists>a b c d e f. l = [a, b, c, d, e, f]"
  by (auto simp: length_Suc_conv eval_nat_numeral)

definition addresses_ok :: "tcp_conn \<Rightarrow> net \<Rightarrow> bool" where
  "addresses_ok c n \<longleftrightarrow> length (dst_mac c) = 6 \<and> length (my_mac n) = 6 \<and> length (MY_IP n) = 4 \<and> length (dst_ip c) = 4"

lemma ip_header_eq:
  "ip_header tlen proto dst n =
     (let h = [0x45, 0] @ be_bytes 2 tlen @ be_bytes 2 (ip_id_counter n) @ [0, 0, 64, proto]
      in h @ be_bytes 2 (inet_cksum (h @ [0, 0] @ MY_IP n @ dst)) @ MY_IP n @ dst)"
  by (simp add: ip_header_def with_cksum_def write_at_def be_bytes_2 Let_def)

lemma ip_header_shape:
  "\<exists>k0 k1. ip_header tlen proto dst n = [0x45, 0, ucast (drop_bit 8 tlen), ucast tlen, ucast (drop_bit 8 (ip_id_counter n)),
     ucast (ip_id_counter n), 0, 0, 64, proto, k0, k1] @ MY_IP n @ dst"
  by (simp add: ip_header_eq be_bytes_2 Let_def)

lemma tcp_segment_cksum_eq:
  "with_cksum 16 ck (tcp_segment sp dp flags sq ack data) =
     be_bytes 2 sp @ be_bytes 2 dp @ be_bytes 4 sq @ be_bytes 4 ack @ [0x50, flags, 0xFF, 0xFF] @ be_bytes 2 ck @ [0, 0] @ data"
  by (simp add: tcp_segment_def with_cksum_def write_at_def be_bytes_2 be_bytes_4)

lemma length_tcp_segment [simp]: "length (tcp_segment sp dp flags sq ack data) = 20 + length data"
  by (simp add: tcp_segment_def)

lemma tcp_frame_parts:
  assumes "addresses_ok c n"
  shows "take 20 (drop 14 (tcp_frame c flags sq ack data n)) = ip_header (word_of_nat (40 + length data)) 6 (dst_ip c) n"
    "drop 34 (tcp_frame c flags sq ack data n) =
       with_cksum 16 (transport_cksum (MY_IP n) (dst_ip c) 6 (tcp_segment (src_port c) (dst_port c) flags sq ack data))
         (tcp_segment (src_port c) (dst_port c) flags sq ack data)"
    "length (tcp_frame c flags sq ack data n) = 54 + length data"
  using assms by (simp_all add: tcp_frame_def eth_hdr_def addresses_ok_def ip_header_eq tcp_segment_cksum_eq Let_def)

text \<open>Both checksums of a segment that leaves the host are valid: a receiver that adds up gets zero.\<close>

theorem tcp_frame_checksums:
  assumes "addresses_ok c n" "length data \<le> TCP_TX_SIZE"
  shows "inet_cksum (take 20 (drop 14 (tcp_frame c flags sq ack data n))) = 0 \<and>
    transport_cksum (MY_IP n) (dst_ip c) 6 (drop 34 (tcp_frame c flags sq ack data n)) = 0"
proof
  have len: "length (MY_IP n) = 4" "length (dst_ip c) = 4" using assms(1) by (auto simp: addresses_ok_def)
  show "inet_cksum (take 20 (drop 14 (tcp_frame c flags sq ack data n))) = 0"
    unfolding tcp_frame_parts(1) [OF assms(1)] ip_header_eq Let_def by (rule inet_cksum_insert) (simp_all add: len)
  let ?h = "be_bytes 2 (src_port c) @ be_bytes 2 (dst_port c) @ be_bytes 4 sq @ be_bytes 4 ack @ [0x50, flags, 0xFF, 0xFF]"
  let ?ph = "MY_IP n @ dst_ip c @ [0, 6] @ be_bytes 2 (word_of_nat (20 + length data) :: u16)"
  let ?t = "tcp_segment (src_port c) (dst_port c) flags sq ack data"
  have ck: "transport_cksum (MY_IP n) (dst_ip c) 6 ?t = inet_cksum ((?ph @ ?h) @ [0, 0] @ [0, 0] @ data)"
    using transport_cksum_eq [OF len, of 6 ?t] by (simp add: tcp_segment_def)
  have "transport_cksum (MY_IP n) (dst_ip c) 6 (with_cksum 16 (transport_cksum (MY_IP n) (dst_ip c) 6 ?t) ?t) =
    inet_cksum ((?ph @ ?h) @ be_bytes 2 (inet_cksum ((?ph @ ?h) @ [0, 0] @ [0, 0] @ data)) @ [0, 0] @ data)"
    unfolding transport_cksum_eq [OF len] ck [symmetric] by (simp add: tcp_segment_cksum_eq)
  also have "\<dots> = 0" using assms(2) by (intro inet_cksum_insert) (simp_all add: len TCP_TX_SIZE_def)
  finally show "transport_cksum (MY_IP n) (dst_ip c) 6 (drop 34 (tcp_frame c flags sq ack data n)) = 0"
    unfolding tcp_frame_parts(2) [OF assms(1)] .
qed

theorem tcp_frame_checksums_witness:
  "inet_cksum (take 20 (drop 14 (tcp_frame zero_conn TCP_ACK 5 9 [1, 2, 3] (net_init None)))) = 0 \<and>
    transport_cksum (MY_IP (net_init None)) (dst_ip zero_conn) 6 (drop 34 (tcp_frame zero_conn TCP_ACK 5 9 [1, 2, 3] (net_init None))) = 0"
  by (rule tcp_frame_checksums) (simp_all add: addresses_ok_def zero_conn_def net_init_def TCP_TX_SIZE_def)

lemma tcp_rx_process_segment:
  "tcp_rx_process src mac (with_cksum 16 ck (tcp_segment sp dp flags sq ack data) @ pad) (20 + length data) n =
     tcp_rx_segment src mac sp dp flags sq ack (length data) (data @ pad) n"
  by (simp add: tcp_rx_process_def tcp_segment_cksum_eq be_bytes_2 be_bytes_4 be16_def be_u32_def join_16 join_32)

text \<open>A frame is received as the segment it was made from.\<close>

lemma tcp_frame_received:
  assumes "addresses_ok c s" "length data \<le> TCP_TX_SIZE" "len \<ge> 34"
  shows "net_poll_once (t, Some (tcp_frame c flags sq ack data s @ pad, len)) n =
    tcp_rx_segment (MY_IP s) (my_mac s) (src_port c) (dst_port c) flags sq ack (length data) (data @ pad)
      (arp_cache_put (MY_IP s) (my_mac s) (n\<lparr>clock := t\<rparr>))"
proof -
  let ?t = "tcp_segment (src_port c) (dst_port c) flags sq ack data"
  let ?seg = "with_cksum 16 (transport_cksum (MY_IP s) (dst_ip c) 6 ?t) ?t"
  let ?len = "word_of_nat (40 + length data) :: u16"
  from assms(1) obtain m0 m1 m2 m3 m4 m5 where m: "dst_mac c = [m0, m1, m2, m3, m4, m5]"
    using length_6 [of "dst_mac c"] by (auto simp: addresses_ok_def)
  from assms(1) obtain e0 e1 e2 e3 e4 e5 where e: "my_mac s = [e0, e1, e2, e3, e4, e5]"
    using length_6 [of "my_mac s"] by (auto simp: addresses_ok_def)
  from assms(1) obtain a0 a1 a2 a3 where a: "MY_IP s = [a0, a1, a2, a3]"
    using length_4 [of "MY_IP s"] by (auto simp: addresses_ok_def)
  from assms(1) obtain d0 d1 d2 d3 where d: "dst_ip c = [d0, d1, d2, d3]"
    using length_4 [of "dst_ip c"] by (auto simp: addresses_ok_def)
  have "unat ?len = 40 + length data" using assms(2) by (simp add: unsigned_of_nat take_bit_nat_eq_self TCP_TX_SIZE_def del: of_nat_add)
  moreover obtain k0 k1 where "ip_header ?len 6 (dst_ip c) s = [0x45, 0, ucast (drop_bit 8 ?len), ucast ?len,
      ucast (drop_bit 8 (ip_id_counter s)), ucast (ip_id_counter s), 0, 0, 64, 6, k0, k1] @ MY_IP s @ dst_ip c"
    using ip_header_shape by blast
  then have "tcp_frame c flags sq ack data s @ pad =
      [m0, m1, m2, m3, m4, m5, e0, e1, e2, e3, e4, e5, 8, 0, 0x45, 0, ucast (drop_bit 8 ?len), ucast ?len,
       ucast (drop_bit 8 (ip_id_counter s)), ucast (ip_id_counter s), 0, 0, 64, 6, k0, k1, a0, a1, a2, a3, d0, d1, d2, d3] @ ?seg @ pad"
    by (simp add: tcp_frame_def eth_hdr_def be_bytes_2 m e a d Let_def)
  ultimately show ?thesis
    using assms(3) a e tcp_rx_process_segment [of "MY_IP s" "my_mac s" _ "src_port c" "dst_port c" flags sq ack data pad]
    by (simp add: net_poll_once_def net_process_def be16_def join_16 Let_def option.map_comp comp_def option.map_ident)
qed

section \<open>Two connected hosts\<close>

text \<open>
  Connection \<open>i\<close> of host \<open>a\<close> is the other end of connection \<open>j\<close> of host \<open>b\<close>: it is found for the segments that come from
  there, and the next byte it will send is the one that is expected there.
\<close>

definition half_link :: "net \<Rightarrow> nat \<Rightarrow> net \<Rightarrow> nat \<Rightarrow> bool" where
  "half_link a i b j \<longleftrightarrow> (let ca = tcp_conns a ! i; cb = tcp_conns b ! j in
     i < TCP_MAX_CONN \<and> c_state ca = TCP_ESTABLISHED \<and> conn_ok ca \<and> ooo_len ca = 0 \<and> addresses_ok ca a \<and>
     dst_ip ca = MY_IP b \<and> snd_nxt ca = rcv_nxt cb \<and>
     find_slot (\<lambda>c. c_used c \<and> src_port c = dst_port cb \<and> dst_port c = src_port cb \<and> dst_ip c = MY_IP b) (tcp_conns a) = Some i)"

definition linked :: "net \<Rightarrow> nat \<Rightarrow> net \<Rightarrow> nat \<Rightarrow> bool" where
  "linked a i b j \<longleftrightarrow> half_link a i b j \<and> half_link b j a i"

lemma half_linkD:
  assumes "half_link a i b j"
  shows "i < length (tcp_conns a)" "c_used (tcp_conns a ! i)" "src_port (tcp_conns a ! i) = dst_port (tcp_conns b ! j)"
    "dst_port (tcp_conns a ! i) = src_port (tcp_conns b ! j)" "dst_ip (tcp_conns a ! i) = MY_IP b"
    "c_state (tcp_conns a ! i) = TCP_ESTABLISHED" "conn_ok (tcp_conns a ! i)" "ooo_len (tcp_conns a ! i) = 0"
    "addresses_ok (tcp_conns a ! i) a" "i < TCP_MAX_CONN" "snd_nxt (tcp_conns a ! i) = rcv_nxt (tcp_conns b ! j)"
  using assms by (auto simp: half_link_def Let_def find_slot_Some_iff)

lemma send_data:
  assumes "i < TCP_MAX_CONN" "c_used (tcp_conns a ! i)" "c_state (tcp_conns a ! i) = TCP_ESTABLISHED" "length data \<le> TCP_TX_SIZE"
  shows "net_tcp_send (int i) data a =
    (int (length data), set_conn i ((tcp_conns a ! i)\<lparr>tx_seq := snd_nxt (tcp_conns a ! i), tx_len := length data,
        tx_buf := write_at 0 data (tx_buf (tcp_conns a ! i)), retrans_tick := clock a, retrans_count := 0,
        snd_nxt := snd_nxt (tcp_conns a ! i) + word_of_nat (length data)\<rparr>)
      (tcp_tx (tcp_conns a ! i) (TCP_PSH OR TCP_ACK) (snd_nxt (tcp_conns a ! i)) (rcv_nxt (tcp_conns a ! i)) data a))"
  using assms by (simp add: net_tcp_send_def tcp_valid_def tcp_tx_def rtl8139_send_def Let_def)

lemma arp_cache_put_fields [simp]:
  "tcp_conns (arp_cache_put ip mac n) = tcp_conns n" "clock (arp_cache_put ip mac n) = clock n" "wire (arp_cache_put ip mac n) = wire n"
  "MY_IP (arp_cache_put ip mac n) = MY_IP n" "my_mac (arp_cache_put ip mac n) = my_mac n" "listeners (arp_cache_put ip mac n) = listeners n"
  by (simp_all add: arp_cache_put_def split: option.splits)

lemma tcp_tx_fields [simp]:
  "tcp_conns (tcp_tx c f q k d n) = tcp_conns n" "clock (tcp_tx c f q k d n) = clock n" "MY_IP (tcp_tx c f q k d n) = MY_IP n"
  "my_mac (tcp_tx c f q k d n) = my_mac n" "listeners (tcp_tx c f q k d n) = listeners n"
  "wire (tcp_tx c f q k d n) = wire n @ [tcp_frame c f q k d n]"
  by (simp_all add: tcp_tx_def rtl8139_send_def tcp_frame_def eth_hdr_def ip_header_def Let_def)

lemma set_conn_fields [simp]:
  "tcp_conns (set_conn i c n) = (tcp_conns n)[i := c]" "clock (set_conn i c n) = clock n" "MY_IP (set_conn i c n) = MY_IP n"
  "my_mac (set_conn i c n) = my_mac n" "listeners (set_conn i c n) = listeners n" "wire (set_conn i c n) = wire n"
  by (simp_all add: set_conn_def)

text \<open>A segment that is not the first of a connection goes to the connection that is found for it.\<close>

lemma tcp_rx_segment_found:
  assumes "find_slot (\<lambda>c. c_used c \<and> src_port c = rdp \<and> dst_port c = rsp \<and> dst_ip c = src) (tcp_conns n) = Some i"
    "flags AND (TCP_SYN OR TCP_ACK) \<noteq> TCP_SYN" "conn_segment (clock n) flags sq ack dlen data (tcp_conns n ! i) = Some (stop, c, rs)"
  shows "tcp_rx_segment src mac rsp rdp flags sq ack dlen data n = Some (send_replies c rs (set_conn i c n))"
  using assms by (simp add: tcp_rx_segment_def)

definition same_ends :: "tcp_conn \<Rightarrow> tcp_conn \<Rightarrow> bool" where
  "same_ends c c' \<longleftrightarrow> c_used c' = c_used c \<and> c_state c' = c_state c \<and> src_port c' = src_port c \<and> dst_port c' = dst_port c \<and>
     dst_ip c' = dst_ip c \<and> dst_mac c' = dst_mac c"

lemma half_link_update:
  assumes "half_link a i b j" "tcp_conns a' = (tcp_conns a)[i := ca]" "tcp_conns b' = (tcp_conns b)[j := cb]" "j < length (tcp_conns b)"
    "same_ends (tcp_conns a ! i) ca" "same_ends (tcp_conns b ! j) cb" "my_mac a' = my_mac a" "MY_IP a' = MY_IP a" "MY_IP b' = MY_IP b"
    "conn_ok ca" "ooo_len ca = 0" "snd_nxt ca = rcv_nxt cb"
  shows "half_link a' i b' j"
proof -
  let ?P = "\<lambda>c. c_used c \<and> src_port c = dst_port (tcp_conns b ! j) \<and> dst_port c = src_port (tcp_conns b ! j) \<and> dst_ip c = MY_IP b"
  have s: "find_slot ?P (tcp_conns a) = Some i" using assms(1) by (simp add: half_link_def Let_def)
  note d = find_slot_SomeD [OF s]
  have "find_slot ?P ((tcp_conns a)[i := ca]) = Some i"
    using d assms(5) by (intro find_slot_update_hit) (auto simp: same_ends_def)
  then show ?thesis
    using half_linkD [OF assms(1)] assms(2-) by (simp add: half_link_def Let_def same_ends_def addresses_ok_def)
qed

lemma deliver_data:
  assumes "linked a i b j" "data \<noteq> []" "length data \<le> TCP_TX_SIZE" "34 \<le> len"
    "length (rx_bytes (tcp_conns b ! j)) + length data < TCP_RX_SIZE"
  shows "\<exists>cb. let ca = tcp_conns a ! i; b0 = arp_cache_put (MY_IP a) (my_mac a) (b\<lparr>clock := t\<rparr>) in
    net_poll_once (t, Some (tcp_frame ca (TCP_PSH OR TCP_ACK) (snd_nxt ca) (rcv_nxt ca) data a @ pad, len)) b =
      Some (tcp_tx cb TCP_ACK (snd_nxt cb) (rcv_nxt cb) [] (set_conn j cb b0)) \<and>
    same_ends (tcp_conns b ! j) cb \<and> conn_ok cb \<and> ooo_len cb = 0 \<and> snd_nxt cb = rcv_nxt ca \<and>
    rcv_nxt cb = snd_nxt ca + word_of_nat (length data) \<and> rx_bytes cb = rx_bytes (tcp_conns b ! j) @ data"
proof -
  let ?ca = "tcp_conns a ! i" and ?cb = "tcp_conns b ! j"
  let ?b0 = "arp_cache_put (MY_IP a) (my_mac a) (b\<lparr>clock := t\<rparr>)" and ?f = "TCP_PSH OR TCP_ACK"
  from assms(1) have h: "half_link a i b j" "half_link b j a i" by (auto simp: linked_def)
  note da = half_linkD [OF h(1)] and db = half_linkD [OF h(2)]
  have f: "?f AND TCP_RST = 0" "?f AND TCP_FIN = 0" "?f AND TCP_ACK \<noteq> 0" "?f AND (TCP_SYN OR TCP_ACK) \<noteq> TCP_SYN"
    by (simp_all add: TCP_PSH_def TCP_ACK_def TCP_RST_def TCP_FIN_def TCP_SYN_def)
  have "0 < length data" "length data \<le> length (data @ pad)" using assms(2) by auto
  from in_order_segment [OF db(7,6,8) this f(1-3), of t "rcv_nxt ?ca"] obtain r h l where
    c: "conn_segment t ?f (rcv_nxt ?cb) (rcv_nxt ?ca) (length data) (data @ pad) ?cb = Some (False, cb, [ack_of cb])"
      "conn_ok cb" "rx_bytes cb = rx_bytes ?cb @ take (TCP_RX_SIZE - 1 - length (rx_bytes ?cb)) (take (length data) (data @ pad))"
    if "cb = ?cb\<lparr>snd_nxt := rcv_nxt ?ca, tx_len := l, last_rx_tick := t, ka_probes := 0, ka_next_tick := t + TCP_KEEPALIVE_IDLE,
      rx := r, rx_head := h, rcv_nxt := rcv_nxt ?cb + word_of_nat (length data)\<rparr>" for cb
    unfolding Let_def by blast
  define cb where "cb = ?cb\<lparr>snd_nxt := rcv_nxt ?ca, tx_len := l, last_rx_tick := t, ka_probes := 0, ka_next_tick := t + TCP_KEEPALIVE_IDLE,
      rx := r, rx_head := h, rcv_nxt := rcv_nxt ?cb + word_of_nat (length data)\<rparr>"
  note c = c [OF cb_def]
  have "find_slot (\<lambda>c. c_used c \<and> src_port c = dst_port ?ca \<and> dst_port c = src_port ?ca \<and> dst_ip c = MY_IP a) (tcp_conns ?b0) = Some j"
    using h(2) by (simp add: half_link_def Let_def)
  moreover have "conn_segment (clock ?b0) ?f (snd_nxt ?ca) (rcv_nxt ?ca) (length data) (data @ pad) (tcp_conns ?b0 ! j) =
      Some (False, cb, [ack_of cb])" using c(1) da(11) by simp
  ultimately have
    "tcp_rx_segment (MY_IP a) (my_mac a) (src_port ?ca) (dst_port ?ca) ?f (snd_nxt ?ca) (rcv_nxt ?ca) (length data) (data @ pad) ?b0 =
       Some (tcp_tx cb TCP_ACK (snd_nxt cb) (rcv_nxt cb) [] (set_conn j cb ?b0))"
    using tcp_rx_segment_found f(4) by (simp add: send_replies_def ack_of_def)
  then have "net_poll_once (t, Some (tcp_frame ?ca ?f (snd_nxt ?ca) (rcv_nxt ?ca) data a @ pad, len)) b =
      Some (tcp_tx cb TCP_ACK (snd_nxt cb) (rcv_nxt cb) [] (set_conn j cb ?b0))"
    using tcp_frame_received [OF da(9) assms(3,4)] by simp
  moreover have "rx_bytes cb = rx_bytes ?cb @ data" using c(3) assms(5) by simp
  ultimately show ?thesis
    using c(2) db(8) da(11) unfolding Let_def by (intro exI [of _ cb]) (simp add: cb_def same_ends_def)
qed

lemma deliver_ack:
  assumes "half_link a i b j" "addresses_ok cb b0" "MY_IP b0 = MY_IP b" "same_ends (tcp_conns b ! j) cb"
    "tcp_conns a' = (tcp_conns a)[i := ca]" "same_ends (tcp_conns a ! i) ca" "34 \<le> len" "0 < tx_len ca"
    "ack = tx_seq ca + word_of_nat (tx_len ca)"
  shows "net_poll_once (t, Some (tcp_frame cb TCP_ACK sq ack [] b0 @ pad, len)) a' =
    Some (set_conn i (ca\<lparr>snd_nxt := ack, tx_len := 0\<rparr>) (arp_cache_put (MY_IP b) (my_mac b0) (a'\<lparr>clock := t\<rparr>)))"
proof -
  let ?a0 = "arp_cache_put (MY_IP b) (my_mac b0) (a'\<lparr>clock := t\<rparr>)"
  let ?P = "\<lambda>c. c_used c \<and> src_port c = dst_port cb \<and> dst_port c = src_port cb \<and> dst_ip c = MY_IP b"
  note d = half_linkD [OF assms(1)]
  have s: "find_slot ?P (tcp_conns a) = Some i" using assms(1,4) by (simp add: half_link_def Let_def same_ends_def)
  note m = find_slot_SomeD [OF s]
  have s': "find_slot ?P (tcp_conns ?a0) = Some i"
    using m assms(5,6) by (simp add: same_ends_def) (rule find_slot_update_hit, auto)
  have st: "c_state ca = TCP_ESTABLISHED" "tcp_conns ?a0 ! i = ca" using assms(5,6) d(1,6) by (simp_all add: same_ends_def)
  have "conn_segment (clock ?a0) TCP_ACK sq ack 0 pad (tcp_conns ?a0 ! i) = Some (False, ca\<lparr>snd_nxt := ack, tx_len := 0\<rparr>, [])"
    unfolding st(2) using st(1) assms(8,9)
    by (simp add: conn_segment_def open_segment_def process_ack_open TCP_ACK_def TCP_RST_def TCP_FIN_def Let_def)
  from tcp_rx_segment_found [OF s' _ this, of "my_mac b0"]
  have "tcp_rx_segment (MY_IP b) (my_mac b0) (src_port cb) (dst_port cb) TCP_ACK sq ack 0 pad ?a0 =
      Some (set_conn i (ca\<lparr>snd_nxt := ack, tx_len := 0\<rparr>) ?a0)"
    by (simp add: send_replies_def TCP_ACK_def TCP_SYN_def)
  then show ?thesis
    using tcp_frame_received [OF assms(2), of "[]" len t TCP_ACK sq ack pad a'] assms(3,7) by (simp add: TCP_TX_SIZE_def)
qed

text \<open>
  C9. Data that one host sends over a connection arrives in the receive ring of the other, is acknowledged there, and the
  acknowledgement empties the sender's buffer; both ends are then ready for the next transmission. The frames may have
  been padded.
\<close>

theorem tcp_send_delivers:
  assumes "linked a i b j" "data \<noteq> []" "length data \<le> TCP_TX_SIZE" "34 \<le> len" "34 \<le> len'"
    "length (rx_bytes (tcp_conns b ! j)) + length data < TCP_RX_SIZE"
  shows "\<exists>a1 b1 a2. net_tcp_send (int i) data a = (int (length data), a1) \<and>
    net_poll_once (t, Some (last (wire a1) @ pad, len)) b = Some b1 \<and>
    rx_bytes (tcp_conns b1 ! j) = rx_bytes (tcp_conns b ! j) @ data \<and>
    net_poll_once (t', Some (last (wire b1) @ pad', len')) a1 = Some a2 \<and>
    tx_len (tcp_conns a2 ! i) = 0 \<and> linked a2 i b1 j"
proof -
  let ?ca = "tcp_conns a ! i" and ?cb = "tcp_conns b ! j"
  from assms(1) have h: "half_link a i b j" "half_link b j a i" by (auto simp: linked_def)
  note da = half_linkD [OF h(1)] and db = half_linkD [OF h(2)]
  define ca where "ca = ?ca\<lparr>tx_seq := snd_nxt ?ca, tx_len := length data, tx_buf := write_at 0 data (tx_buf ?ca), retrans_tick := clock a,
    retrans_count := 0, snd_nxt := snd_nxt ?ca + word_of_nat (length data)\<rparr>"
  define a1 where "a1 = set_conn i ca (tcp_tx ?ca (TCP_PSH OR TCP_ACK) (snd_nxt ?ca) (rcv_nxt ?ca) data a)"
  have send: "net_tcp_send (int i) data a = (int (length data), a1)"
    using send_data [OF da(10,2,6) assms(3)] by (simp add: a1_def ca_def)
  from deliver_data [OF assms(1-4,6), of t pad] obtain cb where b1:
    "net_poll_once (t, Some (last (wire a1) @ pad, len)) b =
      Some (tcp_tx cb TCP_ACK (snd_nxt cb) (rcv_nxt cb) [] (set_conn j cb (arp_cache_put (MY_IP a) (my_mac a) (b\<lparr>clock := t\<rparr>))))"
    and cb: "same_ends ?cb cb" "conn_ok cb" "ooo_len cb = 0" "snd_nxt cb = rcv_nxt ?ca"
      "rcv_nxt cb = snd_nxt ?ca + word_of_nat (length data)" "rx_bytes cb = rx_bytes ?cb @ data"
    by (auto simp: a1_def Let_def)
  let ?b0 = "set_conn j cb (arp_cache_put (MY_IP a) (my_mac a) (b\<lparr>clock := t\<rparr>))"
  let ?b1 = "tcp_tx cb TCP_ACK (snd_nxt cb) (rcv_nxt cb) [] ?b0"
  let ?a2 = "set_conn i (ca\<lparr>snd_nxt := rcv_nxt cb, tx_len := 0\<rparr>) (arp_cache_put (MY_IP b) (my_mac ?b0) (a1\<lparr>clock := t'\<rparr>))"
  have e: "same_ends ?ca ca" "same_ends ?ca (ca\<lparr>snd_nxt := rcv_nxt cb, tx_len := 0\<rparr>)" by (simp_all add: ca_def same_ends_def)
  have adr: "addresses_ok cb ?b0" using db(9) cb(1) by (simp add: addresses_ok_def same_ends_def)
  have lw: "last (wire ?b1) = tcp_frame cb TCP_ACK (snd_nxt cb) (rcv_nxt cb) [] ?b0" by simp
  have p: "MY_IP ?b0 = MY_IP b" "tcp_conns a1 = (tcp_conns a)[i := ca]" "0 < tx_len ca" "rcv_nxt cb = tx_seq ca + word_of_nat (tx_len ca)"
    using assms(2) cb(5) by (simp_all add: a1_def ca_def)
  have a2: "net_poll_once (t', Some (last (wire ?b1) @ pad', len')) a1 = Some ?a2"
    unfolding lw by (rule deliver_ack [OF h(1) adr p(1) cb(1) p(2) e(1) assms(5) p(3,4)])
  have ok: "conn_ok (ca\<lparr>snd_nxt := rcv_nxt cb, tx_len := 0\<rparr>)" "ooo_len ca = 0"
    using da(7,8) assms(3) by (auto simp: ca_def conn_ok_def)
  have c: "tcp_conns ?a2 = (tcp_conns a)[i := ca\<lparr>snd_nxt := rcv_nxt cb, tx_len := 0\<rparr>]" "tcp_conns ?b1 = (tcp_conns b)[j := cb]"
    by (simp_all add: a1_def)
  have "rcv_nxt ca = rcv_nxt ?ca" by (simp add: ca_def)
  then have "linked ?a2 i ?b1 j"
    using half_link_update [OF h(1) c db(1) e(2) cb(1)] half_link_update [OF h(2) c(2,1) da(1) cb(1) e(2)] ok cb(2,3,4)
    by (simp add: linked_def a1_def)
  with send b1 a2 show ?thesis
    using cb(6) da(1) db(1) by (intro exI conjI) (simp_all add: a1_def)
qed

text \<open>Two connected hosts, one of which sends a byte.\<close>

definition linked_pair :: "net \<times> net" where
  "linked_pair =
     ((net_init (Some [2, 0, 0, 0, 0, 1]))\<lparr>tcp_conns := zero_conn\<lparr>c_used := True, c_state := TCP_ESTABLISHED, dst_ip := [10, 0, 2, 16],
        src_port := 49152, dst_port := 80, snd_nxt := 5, rcv_nxt := 9\<rparr> # replicate 3 zero_conn\<rparr>,
      (net_init (Some [2, 0, 0, 0, 0, 2]))\<lparr>MY_IP := [10, 0, 2, 16], tcp_conns := zero_conn\<lparr>c_used := True, c_state := TCP_ESTABLISHED,
        dst_ip := [10, 0, 2, 15], src_port := 80, dst_port := 49152, snd_nxt := 9, rcv_nxt := 5\<rparr> # replicate 3 zero_conn\<rparr>)"

lemma linked_pair_linked: "linked (fst linked_pair) 0 (snd linked_pair) 0" "rx_bytes (tcp_conns (snd linked_pair) ! 0) = []"
  by (simp_all add: linked_pair_def linked_def half_link_def conn_ok_def addresses_ok_def zero_conn_def net_init_def rx_bytes_def
      TCP_RX_SIZE_def TCP_TX_SIZE_def TCP_MAX_CONN_def)

theorem tcp_send_delivers_witness:
  "\<exists>a1 b1 a2. net_tcp_send (int 0) [42] (fst linked_pair) = (1, a1) \<and>
    net_poll_once (1, Some (last (wire a1) @ replicate 5 0, 60)) (snd linked_pair) = Some b1 \<and>
    rx_bytes (tcp_conns b1 ! 0) = [42] \<and>
    net_poll_once (2, Some (last (wire b1) @ replicate 6 0, 60)) a1 = Some a2 \<and> tx_len (tcp_conns a2 ! 0) = 0 \<and> linked a2 0 b1 0"
  using tcp_send_delivers [OF linked_pair_linked(1), of "[42]" 60 60 1 "replicate 5 0" 2 "replicate 6 0"]
  by (simp add: linked_pair_linked(2) TCP_TX_SIZE_def TCP_RX_SIZE_def)

section \<open>Opening a connection\<close>

definition host_ok :: "net \<Rightarrow> bool" where
  "host_ok n \<longleftrightarrow> nic n \<and> length (my_mac n) = 6 \<and> length (MY_IP n) = 4"

text \<open>Slot \<open>i\<close> is the next one to be used, and no connection between the two ports exists.\<close>

definition next_slot :: "net \<Rightarrow> nat \<Rightarrow> u16 \<Rightarrow> u16 \<Rightarrow> bytes \<Rightarrow> bool" where
  "next_slot n i lp rp ip \<longleftrightarrow> find_slot (\<lambda>c. \<not> c_used c) (tcp_conns n) = Some i \<and> i < TCP_MAX_CONN \<and> conn_ok (tcp_conns n ! i) \<and>
     find_slot (\<lambda>c. c_used c \<and> src_port c = lp \<and> dst_port c = rp \<and> dst_ip c = ip) (tcp_conns n) = None"

definition idle_listener :: "net \<Rightarrow> nat \<Rightarrow> u16 \<Rightarrow> bool" where
  "idle_listener n li port \<longleftrightarrow> (let l = listeners n ! li in
     find_slot (\<lambda>l. l_active l \<and> l_port l = port) (listeners n) = Some li \<and> li < TCP_LISTEN_SLOTS \<and>
     aq_count l = 0 \<and> aq_head l = aq_tail l \<and> aq_tail l < length (accept_q l))"

lemma new_conn_found:
  assumes "next_slot n i lp rp ip" "c_used c" "src_port c = lp" "dst_port c = rp" "dst_ip c = ip"
  shows "find_slot (\<lambda>c. c_used c \<and> src_port c = lp \<and> dst_port c = rp \<and> dst_ip c = ip) ((tcp_conns n)[i := c]) = Some i"
proof (rule find_slot_update_hit)
  show "i < length (tcp_conns n)" using assms(1) find_slot_SomeD by (auto simp: next_slot_def)
  show "\<not> (c_used (tcp_conns n ! k) \<and> src_port (tcp_conns n ! k) = lp \<and> dst_port (tcp_conns n ! k) = rp \<and> dst_ip (tcp_conns n ! k) = ip)"
    if "k < i" for k
    using assms(1) that \<open>i < length (tcp_conns n)\<close> nth_mem [of k "tcp_conns n"] by (auto simp: next_slot_def find_slot_None_iff)
qed (use assms in auto)

lemma new_half_link:
  assumes "next_slot n i (src_port c) (dst_port c) (MY_IP m)" "tcp_conns n' = (tcp_conns n)[i := c]"
    "c_used c" "c_state c = TCP_ESTABLISHED" "dst_ip c = MY_IP m'" "MY_IP m' = MY_IP m" "addresses_ok c n'" "conn_ok c" "ooo_len c = 0"
    "snd_nxt c = rcv_nxt (tcp_conns m' ! j)" "src_port c = dst_port (tcp_conns m' ! j)" "dst_port c = src_port (tcp_conns m' ! j)"
  shows "half_link n' i m' j"
proof -
  have "i < length (tcp_conns n)" using assms(1) find_slot_SomeD by (auto simp: next_slot_def)
  moreover from new_conn_found [OF assms(1,3) refl refl] assms(5,6)
  have "find_slot (\<lambda>x. c_used x \<and> src_port x = src_port c \<and> dst_port x = dst_port c \<and> dst_ip x = MY_IP m) (tcp_conns n') = Some i"
    by (simp add: assms(2))
  ultimately show ?thesis
    using assms by (simp add: half_link_def Let_def next_slot_def)
qed

text \<open>The request to open reaches the listening host.\<close>

lemma accept_syn:
  assumes "idle_listener b li dp" "next_slot b j dp sp ip" "clock b < clock b + timeout" "54 < len"
    "addresses_ok c a" "src_port c = sp" "dst_port c = dp" "MY_IP a = ip"
  shows "\<exists>b1. let cb = passive_conn t ip (my_mac a) dp sp sq (tcp_conns b ! j);
      b0 = set_conn j cb (arp_cache_put ip (my_mac a) (b\<lparr>clock := t\<rparr>))
    in net_tcp_accept (int li) timeout [(t, Some (tcp_frame c TCP_SYN sq 0 [] a @ pad, len))] b = Some (int j, [], b1) \<and>
      wire b1 = wire b @ [tcp_frame cb (TCP_SYN OR TCP_ACK) (snd_nxt cb - 1) (rcv_nxt cb) [] b0] \<and> MY_IP b1 = MY_IP b \<and> my_mac b1 = my_mac b \<and>
      tcp_conns b1 = (tcp_conns b)[j := cb\<lparr>snd_nxt := snd_nxt cb + 1\<rparr>]"
proof -
  let ?b = "arp_cache_put ip (my_mac a) (b\<lparr>clock := t\<rparr>)" and ?l = "listeners b ! li"
  have l: "find_slot (\<lambda>l. l_active l \<and> l_port l = dp) (listeners b) = Some li" "li < TCP_LISTEN_SLOTS" "aq_count ?l = 0"
    "aq_head ?l = aq_tail ?l" "aq_tail ?l < length (accept_q ?l)" "li < length (listeners b)" "l_active ?l"
    using assms(1) find_slot_SomeD [of _ "listeners b" li] by (auto simp: idle_listener_def Let_def)
  have s: "find_slot (\<lambda>c. \<not> c_used c) (tcp_conns b) = Some j"
    "find_slot (\<lambda>c. c_used c \<and> src_port c = dp \<and> dst_port c = sp \<and> dst_ip c = ip) (tcp_conns b) = None"
    using assms(2) by (auto simp: next_slot_def)
  have "net_poll_once (t, Some (tcp_frame c TCP_SYN sq 0 [] a @ pad, len)) b = Some (handle_syn ip (my_mac a) dp sp sq ?b)"
    using tcp_frame_received [OF assms(5), of "[]" len t TCP_SYN sq 0 pad b] assms(4,6-8) s(2)
    by (simp add: tcp_rx_segment_def TCP_TX_SIZE_def TCP_SYN_def TCP_ACK_def)
  then show ?thesis
    using assms(3,4) l s(1)
    by (simp add: net_tcp_accept_def accept_poll_def accept_take_def handle_syn_def Let_def)
qed

lemma connect_start_fields:
  fixes i ip dp mac a
  defines "ca \<equiv> active_conn (clock a) ip mac (tcp_port_ctr a) dp (tcp_conns a ! i)"
  shows "tcp_conns (connect_start i ip dp mac a) = (tcp_conns a)[i := ca\<lparr>snd_nxt := snd_nxt ca + 1\<rparr>]"
    "clock (connect_start i ip dp mac a) = clock a" "MY_IP (connect_start i ip dp mac a) = MY_IP a"
    "my_mac (connect_start i ip dp mac a) = my_mac a"
    "\<exists>a0. wire (connect_start i ip dp mac a) = wire a @ [tcp_frame ca TCP_SYN (snd_nxt ca) 0 [] a0] \<and> MY_IP a0 = MY_IP a \<and> my_mac a0 = my_mac a"
  by (auto simp: connect_start_def ca_def Let_def)

text \<open>The answer reaches the host that asked.\<close>

lemma receive_syn_ack:
  assumes "find_slot (\<lambda>c. c_used c \<and> src_port c = dst_port cb \<and> dst_port c = src_port cb \<and> dst_ip c = MY_IP b0) (tcp_conns a) = Some i"
    "c_state (tcp_conns a ! i) = TCP_SYN_SENT" "addresses_ok cb b0" "34 \<le> len"
  shows "let c = (tcp_conns a ! i)\<lparr>rcv_nxt := sq + 1, snd_nxt := ack, c_state := TCP_ESTABLISHED\<rparr> in
    net_poll_once (t, Some (tcp_frame cb (TCP_SYN OR TCP_ACK) sq ack [] b0 @ pad, len)) a =
      Some (tcp_tx c TCP_ACK ack (sq + 1) [] (set_conn i c (arp_cache_put (MY_IP b0) (my_mac b0) (a\<lparr>clock := t\<rparr>))))"
  using tcp_frame_received [OF assms(3), of "[]" len t "TCP_SYN OR TCP_ACK" sq ack pad a] assms
  by (simp add: tcp_rx_segment_def conn_segment_def send_replies_def ack_of_def TCP_TX_SIZE_def TCP_SYN_def TCP_ACK_def TCP_RST_def Let_def)

lemma receive_first_ack:
  assumes "find_slot (\<lambda>c. c_used c \<and> src_port c = dst_port ca \<and> dst_port c = src_port ca \<and> dst_ip c = MY_IP a0) (tcp_conns b) = Some j"
    "c_state (tcp_conns b ! j) = TCP_ESTABLISHED" "tx_len (tcp_conns b ! j) = 0" "addresses_ok ca a0" "34 \<le> len"
  shows "net_poll_once (t, Some (tcp_frame ca TCP_ACK sq ack [] a0 @ pad, len)) b =
      Some (set_conn j ((tcp_conns b ! j)\<lparr>snd_nxt := ack\<rparr>) (arp_cache_put (MY_IP a0) (my_mac a0) (b\<lparr>clock := t\<rparr>)))"
  using tcp_frame_received [OF assms(4), of "[]" len t TCP_ACK sq ack pad b] assms
  by (simp add: tcp_rx_segment_def conn_segment_def open_segment_def process_ack_def send_replies_def TCP_TX_SIZE_def TCP_SYN_def
      TCP_ACK_def TCP_RST_def TCP_FIN_def Let_def)

lemma connect_syn_ack:
  assumes "host_ok a" "next_slot a i (tcp_port_ctr a) dp (MY_IP b0)" "arp_cache_get (next_hop_ip (MY_IP b0) a) a = Some mac"
    "clock a < clock a + 5000" "addresses_ok cb b0" "src_port cb = dp" "dst_port cb = tcp_port_ctr a" "34 \<le> len"
  shows "\<exists>a0. let ca = active_conn (clock a) (MY_IP b0) mac (tcp_port_ctr a) dp (tcp_conns a ! i);
      c = ca\<lparr>rcv_nxt := sq + 1, snd_nxt := ack, c_state := TCP_ESTABLISHED\<rparr> in
    net_tcp_connect (MY_IP b0) dp [(t, Some (tcp_frame cb (TCP_SYN OR TCP_ACK) sq ack [] b0 @ pad, len))] a =
      Some (int i, [], tcp_tx c TCP_ACK ack (sq + 1) [] a0) \<and>
    tcp_conns a0 = (tcp_conns a)[i := c] \<and> MY_IP a0 = MY_IP a \<and> my_mac a0 = my_mac a"
proof -
  define ca where "ca = active_conn (clock a) (MY_IP b0) mac (tcp_port_ctr a) dp (tcp_conns a ! i)"
  define a1 where "a1 = connect_start i (MY_IP b0) dp mac a"
  note cs = connect_start_fields [of i "MY_IP b0" dp mac a, folded ca_def a1_def]
  have li: "i < length (tcp_conns a)" using assms(2) find_slot_SomeD by (auto simp: next_slot_def)
  have f: "find_slot (\<lambda>c. c_used c \<and> src_port c = dst_port cb \<and> dst_port c = src_port cb \<and> dst_ip c = MY_IP b0) (tcp_conns a1) = Some i"
    unfolding cs(1) assms(6,7) by (rule new_conn_found [OF assms(2)]) (simp_all add: ca_def active_conn_def)
  define c where "c = ca\<lparr>rcv_nxt := sq + 1, snd_nxt := ack, c_state := TCP_ESTABLISHED\<rparr>"
  define a0 where "a0 = set_conn i c (arp_cache_put (MY_IP b0) (my_mac b0) (a1\<lparr>clock := t\<rparr>))"
  have "c_state (tcp_conns a1 ! i) = TCP_SYN_SENT" using li by (simp add: cs(1) ca_def active_conn_def)
  from receive_syn_ack [OF f this assms(5,8), where sq = sq and ack = ack and t = t and pad = pad] li
  have poll: "net_poll_once (t, Some (tcp_frame cb (TCP_SYN OR TCP_ACK) sq ack [] b0 @ pad, len)) a1 = Some (tcp_tx c TCP_ACK ack (sq + 1) [] a0)"
    by (simp add: cs(1) a0_def c_def Let_def)
  have "tcp_conns a0 = (tcp_conns a)[i := c]" by (simp add: a0_def cs(1))
  then have "net_tcp_connect (MY_IP b0) dp [(t, Some (tcp_frame cb (TCP_SYN OR TCP_ACK) sq ack [] b0 @ pad, len))] a =
      Some (int i, [], tcp_tx c TCP_ACK ack (sq + 1) [] a0)"
    using assms(1-4) poll cs(2) li
    by (simp add: net_tcp_connect_def arp_resolve_def host_ok_def next_slot_def a1_def c_def Let_def)
  then show ?thesis
    by (intro exI [of _ a0]) (simp add: ca_def [symmetric] c_def [symmetric] a0_def cs)
qed

lemma handshake_linked:
  assumes "next_slot b j (dst_port ca) (src_port ca) (MY_IP a)" "next_slot a i (src_port ca) (dst_port ca) (MY_IP b)"
    "tcp_conns a' = (tcp_conns a)[i := ca]" "tcp_conns b' = (tcp_conns b)[j := cb]" "MY_IP a' = MY_IP a" "MY_IP b' = MY_IP b"
    "addresses_ok ca a'" "addresses_ok cb b'" "c_used ca" "c_used cb" "c_state ca = TCP_ESTABLISHED" "c_state cb = TCP_ESTABLISHED"
    "dst_ip ca = MY_IP b" "dst_ip cb = MY_IP a" "conn_ok ca" "conn_ok cb" "ooo_len ca = 0" "ooo_len cb = 0"
    "src_port cb = dst_port ca" "dst_port cb = src_port ca" "snd_nxt ca = rcv_nxt cb" "snd_nxt cb = rcv_nxt ca"
  shows "linked a' i b' j"
proof -
  have "i < length (tcp_conns a)" "j < length (tcp_conns b)" using assms(1,2) find_slot_SomeD by (auto simp: next_slot_def)
  then show ?thesis
    unfolding linked_def using assms by (intro conjI new_half_link [OF _ assms(3)] new_half_link [OF _ assms(4)]) simp_all
qed

text \<open>
  C10. A host that accepts and a host that connects, exchanging the three frames of the handshake, return from their calls
  with the two ends of one connection.
\<close>

theorem tcp_handshake:
  assumes "host_ok a" "host_ok b" "idle_listener b li dp" "next_slot b j dp (tcp_port_ctr a) (MY_IP a)"
    "next_slot a i (tcp_port_ctr a) dp (MY_IP b)" "arp_cache_get (next_hop_ip (MY_IP b) a) a = Some mac" "length mac = 6"
    "clock a < clock a + 5000" "clock b < clock b + timeout" "54 < len" "34 \<le> len'" "34 \<le> len''"
  shows "\<exists>b1 a2 b2. net_tcp_accept (int li) timeout [(t, Some (last (wire (connect_start i (MY_IP b) dp mac a)) @ pad, len))] b = Some (int j, [], b1) \<and>
    net_tcp_connect (MY_IP b) dp [(t', Some (last (wire b1) @ pad', len'))] a = Some (int i, [], a2) \<and>
    net_poll_once (t'', Some (last (wire a2) @ pad'', len'')) b1 = Some b2 \<and> linked a2 i b2 j"
proof -
  define ca where "ca = active_conn (clock a) (MY_IP b) mac (tcp_port_ctr a) dp (tcp_conns a ! i)"
  note cs = connect_start_fields [of i "MY_IP b" dp mac a, folded ca_def]
  from cs(5) obtain a0 where a0: "wire (connect_start i (MY_IP b) dp mac a) = wire a @ [tcp_frame ca TCP_SYN (snd_nxt ca) 0 [] a0]"
    "MY_IP a0 = MY_IP a" "my_mac a0 = my_mac a" by blast
  have lj: "j < length (tcp_conns b)" using assms(4) find_slot_SomeD by (auto simp: next_slot_def)
  have cap: "src_port ca = tcp_port_ctr a" "dst_port ca = dp" "c_used ca" "dst_ip ca = MY_IP b" "ooo_len ca = 0" "dst_mac ca = mac" "conn_ok ca"
    using assms(5) by (simp_all add: ca_def active_conn_def next_slot_def conn_ok_def TCP_RX_SIZE_def)
  have adr: "addresses_ok ca a0" using assms(1,2,7) a0(2,3) cap by (simp add: addresses_ok_def host_ok_def)
  define cb where "cb = passive_conn t (MY_IP a) (my_mac a) dp (tcp_port_ctr a) (snd_nxt ca) (tcp_conns b ! j)"
  define b0 where "b0 = set_conn j cb (arp_cache_put (MY_IP a) (my_mac a) (b\<lparr>clock := t\<rparr>))"
  from accept_syn [OF assms(3,4,9,10) adr cap(1,2) a0(2), of t "snd_nxt ca" pad] a0(1,3) obtain b1 where
    b1: "net_tcp_accept (int li) timeout [(t, Some (last (wire (connect_start i (MY_IP b) dp mac a)) @ pad, len))] b = Some (int j, [], b1)"
    "last (wire b1) = tcp_frame cb (TCP_SYN OR TCP_ACK) (snd_nxt cb - 1) (rcv_nxt cb) [] b0" "MY_IP b1 = MY_IP b" "my_mac b1 = my_mac b"
    "tcp_conns b1 = (tcp_conns b)[j := cb\<lparr>snd_nxt := snd_nxt cb + 1\<rparr>]"
    by (auto simp: cb_def b0_def Let_def)
  have cbp: "src_port cb = dp" "dst_port cb = tcp_port_ctr a" "snd_nxt cb = 0xAC000001" "rcv_nxt cb = snd_nxt ca + 1" "c_used cb" "dst_ip cb = MY_IP a"
    "c_state cb = TCP_ESTABLISHED" "tx_len cb = 0" "ooo_len cb = 0" "dst_mac cb = my_mac a" "conn_ok cb"
    using assms(4) by (simp_all add: cb_def passive_conn_def next_slot_def conn_ok_def TCP_RX_SIZE_def)
  have adb: "addresses_ok cb b0" "MY_IP b0 = MY_IP b" using assms(1,2) cbp by (simp_all add: addresses_ok_def host_ok_def b0_def)
  define c2 where "c2 = ca\<lparr>rcv_nxt := 0xAC000001, snd_nxt := snd_nxt ca + 1, c_state := TCP_ESTABLISHED\<rparr>"
  have "next_slot a i (tcp_port_ctr a) dp (MY_IP b0)" "arp_cache_get (next_hop_ip (MY_IP b0) a) a = Some mac"
    using assms(5,6) adb(2) by simp_all
  from connect_syn_ack [OF assms(1) this assms(8) adb(1) cbp(1,2) assms(11), where sq = "snd_nxt cb - 1" and ack = "rcv_nxt cb" and t = t' and pad = pad']
  obtain a2
    where a2: "net_tcp_connect (MY_IP b) dp [(t', Some (last (wire b1) @ pad', len'))] a = Some (int i, [], tcp_tx c2 TCP_ACK (snd_nxt ca + 1) 0xAC000001 [] a2)"
      "tcp_conns a2 = (tcp_conns a)[i := c2]" "MY_IP a2 = MY_IP a" "my_mac a2 = my_mac a"
    by (auto simp: b1(2) c2_def ca_def [symmetric] cbp(3,4) adb(2) Let_def)
  have ad2: "addresses_ok c2 a2" using adr a0(2,3) a2(3,4) by (simp add: addresses_ok_def c2_def)
  have "find_slot (\<lambda>c. c_used c \<and> src_port c = dst_port c2 \<and> dst_port c = src_port c2 \<and> dst_ip c = MY_IP a2) (tcp_conns b1) = Some j"
    unfolding b1(5) a2(3) using cap by (simp add: c2_def) (rule new_conn_found [OF assms(4)], simp_all add: cbp)
  from receive_first_ack [OF this _ _ ad2 assms(12), where sq = "snd_nxt ca + 1" and ack = "0xAC000001" and t = t'' and pad = pad''] lj cbp
  have b2: "net_poll_once (t'', Some (last (wire (tcp_tx c2 TCP_ACK (snd_nxt ca + 1) 0xAC000001 [] a2)) @ pad'', len'')) b1 =
      Some (set_conn j (cb\<lparr>snd_nxt := 0xAC000001\<rparr>) (arp_cache_put (MY_IP a) (my_mac a) (b1\<lparr>clock := t''\<rparr>)))"
    by (simp add: b1(5) a2(3,4))
  have "linked (tcp_tx c2 TCP_ACK (snd_nxt ca + 1) 0xAC000001 [] a2) i
      (set_conn j (cb\<lparr>snd_nxt := 0xAC000001\<rparr>) (arp_cache_put (MY_IP a) (my_mac a) (b1\<lparr>clock := t''\<rparr>))) j"
    by (rule handshake_linked [where ca = c2 and cb = "cb\<lparr>snd_nxt := 0xAC000001\<rparr>" and a = a and b = b]) (use assms(1,2,4,5,7) cap cbp a2 b1(3-5) in \<open>simp_all add: c2_def host_ok_def addresses_ok_def conn_ok_def\<close>)
  with a2(1) b1(1) b2 show ?thesis by blast
qed

text \<open>A host that connects to a listener on the other one.\<close>

definition calling_host :: net where
  "calling_host = arp_cache_put [10, 0, 2, 16] [2, 0, 0, 0, 0, 2] (net_init (Some [2, 0, 0, 0, 0, 1]))"

definition listening_host :: net where
  "listening_host = snd (net_tcp_listen 80 ((net_init (Some [2, 0, 0, 0, 0, 2]))\<lparr>MY_IP := [10, 0, 2, 16]\<rparr>))"

lemma small_tables: "replicate 8 x = x # replicate 7 x" "replicate 2 x = [x, x]"
  by (simp_all add: numeral_eq_Suc)

lemma calling_listening:
  "host_ok calling_host" "host_ok listening_host" "idle_listener listening_host 0 80"
  "next_slot listening_host 0 80 (tcp_port_ctr calling_host) (MY_IP calling_host)"
  "next_slot calling_host 0 (tcp_port_ctr calling_host) 80 (MY_IP listening_host)"
  "arp_cache_get (next_hop_ip (MY_IP listening_host) calling_host) calling_host = Some [2, 0, 0, 0, 0, 2]"
  "clock calling_host = 0" "clock listening_host = 0"
  by (simp_all add: calling_host_def listening_host_def host_ok_def idle_listener_def next_slot_def net_tcp_listen_def net_init_def zero_conn_def
      arp_cache_put_def arp_cache_get_def next_hop_ip_def find_slot_replicate conn_ok_def small_tables
      TCP_RX_SIZE_def TCP_TX_SIZE_def TCP_MAX_CONN_def TCP_LISTEN_SLOTS_def ARP_CACHE_def)

theorem tcp_handshake_witness:
  "\<exists>b1 a2 b2. net_tcp_accept (int 0) 100 [(1, Some (last (wire (connect_start 0 (MY_IP listening_host) 80 [2, 0, 0, 0, 0, 2] calling_host)) @ replicate 6 0, 60))]
      listening_host = Some (int 0, [], b1) \<and>
    net_tcp_connect (MY_IP listening_host) 80 [(2, Some (last (wire b1) @ replicate 6 0, 60))] calling_host = Some (int 0, [], a2) \<and>
    net_poll_once (3, Some (last (wire a2) @ replicate 6 0, 60)) b1 = Some b2 \<and> linked a2 0 b2 0"
  by (rule tcp_handshake [OF calling_listening(1-6)]) (simp_all add: calling_listening(7,8))

end
