(* ===== verification/TcpTimer.thy ===== *)
theory TcpTimer
  imports TcpLink
begin

text \<open>
  The sending side of a connection: what the one retransmission buffer and the timer do with data that is not
  acknowledged, and what an acknowledgement does to the sequence numbers.
\<close>

unbundle bit_operations_syntax

section \<open>Acknowledgement of a part\<close>

text \<open>
  C39. A connection sends three chunks, and the peer acknowledges the first one between the second and the third. The
  acknowledgement sets the next sequence number back, so the third chunk is sent under the numbers of the second one,
  and the buffer keeps the third chunk only: the second one is never sent again.
\<close>

theorem tcp_ack_rewinds:
  fixes n i x y z
  defines "s \<equiv> snd_nxt (tcp_conns n ! i)"
  defines "n1 \<equiv> snd (net_tcp_send (int i) x n)"
  defines "n2 \<equiv> snd (net_tcp_send (int i) y n1)"
  defines "n3 \<equiv> set_conn i (process_ack (s + word_of_nat (length x)) (tcp_conns n2 ! i)) n2"
  defines "n4 \<equiv> snd (net_tcp_send (int i) z n3)"
  assumes "i < TCP_MAX_CONN" "i < length (tcp_conns n)" "conn_ok (tcp_conns n ! i)" "c_used (tcp_conns n ! i)"
    "c_state (tcp_conns n ! i) = TCP_ESTABLISHED" "0 < length y" "length x \<le> TCP_TX_SIZE" "length y \<le> TCP_TX_SIZE" "length z \<le> TCP_TX_SIZE"
  shows "\<exists>c1 c2 c3. wire n4 = wire n @
      [tcp_frame c1 (TCP_PSH OR TCP_ACK) s (rcv_nxt c1) x n,
       tcp_frame c2 (TCP_PSH OR TCP_ACK) (s + word_of_nat (length x)) (rcv_nxt c2) y n1,
       tcp_frame c3 (TCP_PSH OR TCP_ACK) (s + word_of_nat (length x)) (rcv_nxt c3) z n3] \<and>
    take (tx_len (tcp_conns n4 ! i)) (tx_buf (tcp_conns n4 ! i)) = z"
proof -
  let ?c = "tcp_conns n ! i"
  note sd = send_data [OF assms(6)]
  have n1: "wire n1 = wire n @ [tcp_frame ?c (TCP_PSH OR TCP_ACK) s (rcv_nxt ?c) x n]" "i < length (tcp_conns n1)"
    "c_used (tcp_conns n1 ! i)" "c_state (tcp_conns n1 ! i) = TCP_ESTABLISHED" "snd_nxt (tcp_conns n1 ! i) = s + word_of_nat (length x)"
    "length (tx_buf (tcp_conns n1 ! i)) = TCP_TX_SIZE"
    using assms(7-10,12) by (simp_all add: n1_def s_def sd conn_ok_def)
  have n2: "wire n2 = wire n1 @ [tcp_frame (tcp_conns n1 ! i) (TCP_PSH OR TCP_ACK) (s + word_of_nat (length x)) (rcv_nxt (tcp_conns n1 ! i)) y n1]"
    "i < length (tcp_conns n2)" "c_used (tcp_conns n2 ! i)" "c_state (tcp_conns n2 ! i) = TCP_ESTABLISHED"
    "length (tx_buf (tcp_conns n2 ! i)) = TCP_TX_SIZE"
    using n1 assms(13) by (simp_all add: n2_def sd)
  have n3: "wire n3 = wire n2" "i < length (tcp_conns n3)" "c_used (tcp_conns n3 ! i)" "c_state (tcp_conns n3 ! i) = TCP_ESTABLISHED"
    "snd_nxt (tcp_conns n3 ! i) = s + word_of_nat (length x)" "length (tx_buf (tcp_conns n3 ! i)) = TCP_TX_SIZE"
    using n2 by (simp_all add: n3_def process_ack_open)
  have "wire n4 = wire n3 @ [tcp_frame (tcp_conns n3 ! i) (TCP_PSH OR TCP_ACK) (s + word_of_nat (length x)) (rcv_nxt (tcp_conns n3 ! i)) z n3]"
    "take (tx_len (tcp_conns n4 ! i)) (tx_buf (tcp_conns n4 ! i)) = z"
    using n3 assms(14) by (simp_all add: n4_def sd write_at_def)
  then show ?thesis
    using n1(1) n2(1) n3(1) by (intro exI [of _ ?c] exI [of _ "tcp_conns n1 ! i"] exI [of _ "tcp_conns n3 ! i"]) simp
qed

section \<open>Retransmission\<close>

text \<open>Every time of the list is at least the timeout after the one before it.\<close>

fun spaced :: "u32 \<Rightarrow> u32 list \<Rightarrow> bool" where
  "spaced r [] = True"
| "spaced r (t # ts) = (t - r \<ge> TCP_RTO \<and> spaced t ts)"

lemma tcp_frame_cong:
  assumes "same_ends c c'" "MY_IP n' = MY_IP n" "my_mac n' = my_mac n" "ip_id_counter n' = ip_id_counter n"
  shows "tcp_frame c' f q k d n' = tcp_frame c f q k d n"
  using assms by (simp add: tcp_frame_def same_ends_def eth_hdr_def ip_header_def)

lemma tick_resends:
  assumes "c_used (tcp_conns n ! i)" "c_state (tcp_conns n ! i) = TCP_ESTABLISHED" "i < length (tcp_conns n)"
    "retrans_due t (tcp_conns n ! i)" "retrans_count (tcp_conns n ! i) < TCP_MAX_RETRANS" "t - last_rx_tick (tcp_conns n ! i) < TCP_KEEPALIVE_IDLE"
  shows "tick_conn t i n = (let c = tcp_conns n ! i in
    set_conn i (c\<lparr>retrans_tick := t, retrans_count := retrans_count c + 1\<rparr>)
      (tcp_tx c (TCP_PSH OR TCP_ACK) (tx_seq c) (rcv_nxt c) (take (tx_len c) (tx_buf c)) n))"
proof -
  have "\<not> TCP_MAX_RETRANS \<le> retrans_count (tcp_conns n ! i)" "\<not> TCP_KEEPALIVE_IDLE \<le> t - last_rx_tick (tcp_conns n ! i)"
    using assms(5,6) by (simp_all only: not_le)
  then show ?thesis using assms(1-4) by (simp add: tick_conn_def tick_keepalive_def ka_due_def Let_def)
qed

lemma ticks_resend:
  assumes "tcp_conns n ! i = c" "i < length (tcp_conns n)" "c_used c" "c_state c = TCP_ESTABLISHED" "0 < tx_len c"
    "spaced (retrans_tick c) ts" "retrans_count c = word_of_nat k" "k + length ts \<le> 5" "\<forall>t\<in>set ts. t - last_rx_tick c < TCP_KEEPALIVE_IDLE"
  shows "let n' = fold (\<lambda>t. tick_conn t i) ts n in
    wire n' = wire n @ map (\<lambda>m. tcp_frame c (TCP_PSH OR TCP_ACK) (tx_seq c) (rcv_nxt c) (take (tx_len c) (tx_buf c))
        (n\<lparr>ip_id_counter := ip_id_counter n + word_of_nat m\<rparr>)) [0..<length ts] \<and>
    tcp_conns n' = (tcp_conns n)[i := c\<lparr>retrans_tick := last (retrans_tick c # ts), retrans_count := word_of_nat (k + length ts)\<rparr>]"
  using assms
proof (induction ts arbitrary: n c k)
  case Nil
  then have "(tcp_conns n)[i := c] = tcp_conns n" by auto
  then show ?case by (simp flip: Nil.prems(7))
next
  case (Cons t ts)
  let ?d = "take (tx_len c) (tx_buf c)"
  define c1 where "c1 = c\<lparr>retrans_tick := t, retrans_count := retrans_count c + 1\<rparr>"
  define n1 where "n1 = set_conn i c1 (tcp_tx c (TCP_PSH OR TCP_ACK) (tx_seq c) (rcv_nxt c) ?d n)"
  have "k < 5" using Cons.prems(8) by simp
  then have "retrans_count c < TCP_MAX_RETRANS"
    using Cons.prems(7) by (simp add: TCP_MAX_RETRANS_def word_less_nat_alt unsigned_of_nat take_bit_nat_eq_self)
  then have tick: "tick_conn t i n = n1"
    using tick_resends [of n i t] Cons.prems by (simp add: n1_def c1_def retrans_due_def Let_def)
  have "tcp_conns n1 ! i = c1" "i < length (tcp_conns n1)" "c_used c1" "c_state c1 = TCP_ESTABLISHED" "0 < tx_len c1"
    "spaced (retrans_tick c1) ts" "retrans_count c1 = word_of_nat (Suc k)" "Suc k + length ts \<le> 5" "\<forall>t\<in>set ts. t - last_rx_tick c1 < TCP_KEEPALIVE_IDLE"
    using Cons.prems by (simp_all add: n1_def c1_def)
  note ih = Cons.IH [OF this]
  have fr: "tcp_frame c1 (TCP_PSH OR TCP_ACK) q a d (n1\<lparr>ip_id_counter := ip_id_counter n1 + word_of_nat m\<rparr>) =
      tcp_frame c (TCP_PSH OR TCP_ACK) q a d (n\<lparr>ip_id_counter := ip_id_counter n + word_of_nat (Suc m)\<rparr>)" for q a d m
    by (rule tcp_frame_cong) (simp_all add: n1_def c1_def same_ends_def set_conn_def tcp_tx_def rtl8139_send_def)
  have "map (\<lambda>m. tcp_frame c (TCP_PSH OR TCP_ACK) (tx_seq c) (rcv_nxt c) ?d (n\<lparr>ip_id_counter := ip_id_counter n + word_of_nat m\<rparr>)) [0..<length (t # ts)] =
      tcp_frame c (TCP_PSH OR TCP_ACK) (tx_seq c) (rcv_nxt c) ?d n #
      map (\<lambda>m. tcp_frame c1 (TCP_PSH OR TCP_ACK) (tx_seq c1) (rcv_nxt c1) ?d (n1\<lparr>ip_id_counter := ip_id_counter n1 + word_of_nat m\<rparr>)) [0..<length ts]"
    unfolding fr by (simp add: upt_conv_Cons map_Suc_upt [symmetric] c1_def del: upt_Suc)
  moreover have "wire n1 = wire n @ [tcp_frame c (TCP_PSH OR TCP_ACK) (tx_seq c) (rcv_nxt c) ?d n]" "tcp_conns n1 = (tcp_conns n)[i := c1]"
    by (simp_all add: n1_def)
  ultimately show ?case using ih by (simp add: tick c1_def Let_def)
qed

lemma spaced_append: "spaced r (ts @ [t]) \<longleftrightarrow> spaced r ts \<and> t - last (r # ts) \<ge> TCP_RTO"
  by (induction r ts rule: spaced.induct) auto


definition unacked_host :: net where
  "unacked_host = snd (net_tcp_send 0 [42] (fst linked_pair))"

lemma unacked_conn: "tcp_conns unacked_host = (hd (tcp_conns (fst linked_pair)))\<lparr>tx_seq := 5, tx_len := 1, tx_buf := 42 # replicate 1399 0,
    snd_nxt := 6\<rparr> # replicate 3 zero_conn"
  by (simp add: unacked_host_def net_tcp_send_def tcp_valid_def linked_pair_def zero_conn_def net_init_def write_at_def set_conn_def
      TCP_MAX_CONN_def TCP_TX_SIZE_def Let_def)


theorem tcp_ack_rewinds_witness:
  "\<exists>n1 n3 (n4 :: net) c1 c2 c3. wire n4 = wire (fst linked_pair) @
      [tcp_frame c1 (TCP_PSH OR TCP_ACK) 5 (rcv_nxt c1) [1] (fst linked_pair), tcp_frame c2 (TCP_PSH OR TCP_ACK) 6 (rcv_nxt c2) [2] n1,
       tcp_frame c3 (TCP_PSH OR TCP_ACK) 6 (rcv_nxt c3) [3] n3] \<and>
    take (tx_len (tcp_conns n4 ! 0)) (tx_buf (tcp_conns n4 ! 0)) = [3]"
proof -
  have c: "0 < TCP_MAX_CONN" "0 < length (tcp_conns (fst linked_pair))" "conn_ok (tcp_conns (fst linked_pair) ! 0)" "c_used (tcp_conns (fst linked_pair) ! 0)"
    "c_state (tcp_conns (fst linked_pair) ! 0) = TCP_ESTABLISHED" "snd_nxt (tcp_conns (fst linked_pair) ! 0) = 5"
    by (simp_all add: linked_pair_def zero_conn_def conn_ok_def TCP_MAX_CONN_def TCP_RX_SIZE_def TCP_TX_SIZE_def)
  have l: "0 < length [2 :: u8]" "length [1 :: u8] \<le> TCP_TX_SIZE" "length [2 :: u8] \<le> TCP_TX_SIZE" "length [3 :: u8] \<le> TCP_TX_SIZE"
    and six: "5 + word_of_nat (length [1 :: u8]) = (6 :: u32)"
    by (simp_all add: TCP_TX_SIZE_def)
  from tcp_ack_rewinds [OF c(1-5) l] show ?thesis unfolding c(6) six by blast
qed

end
