(* ===== verification/Dns.thy ===== *)
theory Dns
  imports TcpLink
begin

text \<open>
  The resolver of host names of \<open>src/kernel/net.c\<close>: the question it sends, the answer it reads, and the loop around them.
\<close>

unbundle bit_operations_syntax

section \<open>Questions\<close>

definition DNS_PORT :: u16 where "DNS_PORT = 53"
definition DNS_SRC_PORT :: u16 where "DNS_SRC_PORT = 5353"
definition DNS_MAX_PKT :: nat where "DNS_MAX_PKT = 512"
definition DNS_SERVER :: bytes where "DNS_SERVER = [8, 8, 8, 8]"

lemma next_label_shorter: "p \<noteq> [] \<Longrightarrow> length (drop 1 (dropWhile P p)) < length p"
  using length_dropWhile_le [of P p] by (cases p) (auto simp: less_Suc_eq_le intro: le_trans [OF diff_le_self length_dropWhile_le])

text \<open>The labels of a name, each after its length. A name that does not fit is refused. Byte 46 is the dot.\<close>

function dns_qname :: "nat \<Rightarrow> bytes \<Rightarrow> bytes option" where
  "dns_qname pos p =
     (if p = [] then Some []
      else let label = takeWhile (\<lambda>b. b \<noteq> 46) p; llen = length label; rest = dropWhile (\<lambda>b. b \<noteq> 46) p
      in if pos + 1 + llen + 5 > DNS_MAX_PKT then None
      else map_option (\<lambda>q. word_of_nat llen # label @ q) (dns_qname (pos + 1 + llen) (drop 1 rest)))"
  by pat_completeness auto
termination
  by (relation "measure (length \<circ> snd)") (use next_label_shorter in auto)

declare dns_qname.simps [simp del]

lemma dns_qname_Nil [simp]: "dns_qname pos [] = Some []"
  by (simp add: dns_qname.simps)

definition dns_build_query :: "bytes \<Rightarrow> u16 \<Rightarrow> bytes option" where
  "dns_build_query hostname txid =
     map_option (\<lambda>q. be_bytes 2 txid @ [1, 0, 0, 1, 0, 0, 0, 0, 0, 0] @ q @ [0, 0, 1, 0, 1]) (dns_qname 12 (cstr hostname))"

section \<open>Answers\<close>

function dns_skip_question :: "bytes \<Rightarrow> nat \<Rightarrow> nat \<Rightarrow> nat" where
  "dns_skip_question buf len pos =
     (if pos < len then
        let llen = buf ! pos
        in if llen = 0 then pos + 1 else if llen AND 0xC0 = 0xC0 then pos + 2 else dns_skip_question buf len (pos + 1 + unat llen)
      else pos)"
  by pat_completeness auto
termination by (relation "measure (\<lambda>(buf, len, pos). len - pos)") auto

function dns_skip_labels :: "bytes \<Rightarrow> nat \<Rightarrow> nat \<Rightarrow> nat" where
  "dns_skip_labels buf len pos =
     (if pos < len then
        let llen = buf ! pos in if llen = 0 then pos + 1 else dns_skip_labels buf len (pos + 1 + unat llen)
      else pos)"
  by pat_completeness auto
termination by (relation "measure (\<lambda>(buf, len, pos). len - pos)") auto

declare dns_skip_question.simps [simp del] dns_skip_labels.simps [simp del]

definition dns_skip_name :: "bytes \<Rightarrow> nat \<Rightarrow> nat \<Rightarrow> nat" where
  "dns_skip_name buf len pos = (if buf ! pos AND 0xC0 = 0xC0 then pos + 2 else dns_skip_labels buf len pos)"

fun dns_answers :: "bytes \<Rightarrow> nat \<Rightarrow> nat \<Rightarrow> nat \<Rightarrow> bytes option" where
  "dns_answers buf len 0 pos = None"
| "dns_answers buf len (Suc k) pos =
     (if pos < len then
        let pos = dns_skip_name buf len pos
        in if pos + 10 > len then None
        else let rtype = be16 buf pos; rdlen = be16 buf (pos + 8); pos = pos + 10
        in if rtype = 1 \<and> rdlen = 4 \<and> pos + 4 \<le> len then Some (take 4 (drop pos buf))
        else dns_answers buf len k (pos + unat rdlen)
      else None)"

definition dns_parse_response :: "bytes \<Rightarrow> int \<Rightarrow> u16 \<Rightarrow> bytes option" where
  "dns_parse_response buf len txid =
     (if len < 12 \<or> be16 buf 0 \<noteq> txid \<or> buf ! 2 AND 0x80 = 0 \<or> be16 buf 6 = 0 then None
      else dns_answers buf (nat len) (unat (be16 buf 6)) (dns_skip_question buf (nat len) 12 + 4))"

section \<open>Resolving\<close>

fun dns_wait :: "u16 \<Rightarrow> u32 \<Rightarrow> poll list \<Rightarrow> net \<Rightarrow> (bytes option \<times> poll list \<times> net) option" where
  "dns_wait txid deadline [] n = (if clock n < deadline then None else Some (None, [], n))"
| "dns_wait txid deadline (p # ps) n =
     (if clock n < deadline then
        let n = n\<lparr>clock := fst p\<rparr>
        in case snd p of None \<Rightarrow> dns_wait txid deadline ps n
           | Some (pkt, plen) \<Rightarrow>
               let ip = drop 14 pkt; ihl = unat (ip ! 0 AND 0xF) * 4; udp = drop ihl ip
               in if plen \<le> 42 \<or> ip ! 9 \<noteq> 17 then dns_wait txid deadline ps n
               else if be16 udp 0 \<noteq> DNS_PORT \<or> be16 udp 2 \<noteq> DNS_SRC_PORT then do {
                 (_, n) \<leftarrow> net_process pkt plen None 0 n;
                 dns_wait txid deadline ps n
               }
               else case dns_parse_response (drop 8 udp) (int plen - 14 - int ihl - 8) txid of
                   Some addr \<Rightarrow> Some (Some addr, ps, n)
                 | None \<Rightarrow> dns_wait txid deadline ps n
      else Some (None, p # ps, n))"

fun dns_attempts :: "nat \<Rightarrow> bytes \<Rightarrow> u16 \<Rightarrow> poll list \<Rightarrow> net \<Rightarrow> (bytes option \<times> poll list \<times> net) option" where
  "dns_attempts 0 q txid ps n = Some (None, ps, n)"
| "dns_attempts (Suc k) q txid ps n = do {
     (_, ps, n) \<leftarrow> net_udp_send DNS_SERVER DNS_PORT DNS_SRC_PORT q ps n;
     (r, ps, n) \<leftarrow> dns_wait txid (clock n + 1000) ps n;
     case r of Some addr \<Rightarrow> Some (Some addr, ps, n) | None \<Rightarrow> dns_attempts k q txid ps n
   }"

definition dns_resolve :: "bytes \<Rightarrow> poll list \<Rightarrow> net \<Rightarrow> (bytes option \<times> poll list \<times> net) option" where
  "dns_resolve hostname ps n =
     (if \<not> nic n then Some (None, ps, n)
      else let txid = dns_txid n + 1; n = n\<lparr>dns_txid := txid\<rparr>
      in case dns_build_query hostname txid of None \<Rightarrow> Some (None, ps, n) | Some q \<Rightarrow> dns_attempts 3 q txid ps n)"

section \<open>Answers are read within their bounds\<close>

lemma same_prefix_nth: "take n a = take n b \<Longrightarrow> i < n \<Longrightarrow> a ! i = b ! i"
  by (metis nth_take)

lemma same_prefix_take:
  assumes "take n a = take n b" "i + m \<le> n"
  shows "take m (drop i a) = take m (drop i b)"
proof -
  have "take (m + i) (take n a) = take (m + i) (take n b)" using assms(1) by simp
  then have "take (m + i) a = take (m + i) b" using assms(2) by (simp only: take_take min_absorb1 add.commute)
  then show ?thesis by (simp only: take_drop)
qed

lemma skip_question_cong: "take len a = take len b \<Longrightarrow> dns_skip_question a len pos = dns_skip_question b len pos"
proof (induction a len pos rule: dns_skip_question.induct)
  case (1 a len pos)
  then show ?case
    using same_prefix_nth [of len a b pos] by (subst (1 2) dns_skip_question.simps) (simp add: Let_def)
qed

lemma skip_labels_cong: "take len a = take len b \<Longrightarrow> dns_skip_labels a len pos = dns_skip_labels b len pos"
proof (induction a len pos rule: dns_skip_labels.induct)
  case (1 a len pos)
  then show ?case
    using same_prefix_nth [of len a b pos] by (subst (1 2) dns_skip_labels.simps) (simp add: Let_def)
qed

lemma be16_cong: "take len a = take len b \<Longrightarrow> pos + 2 \<le> len \<Longrightarrow> be16 a pos = be16 b pos"
  by (simp add: be16_def same_prefix_nth)

lemma answers_cong: "take len a = take len b \<Longrightarrow> dns_answers a len k pos = dns_answers b len k pos"
proof (induction a len k pos rule: dns_answers.induct)
  case (2 a len k pos)
  have name: "dns_skip_name a len pos = dns_skip_name b len pos" if "pos < len"
    using that 2(2) same_prefix_nth [of len a b pos] skip_labels_cong [OF 2(2)] by (simp add: dns_skip_name_def)
  let ?p = "dns_skip_name b len pos"
  show ?case
  proof (cases "pos < len \<and> ?p + 10 \<le> len")
    case True
    then have "be16 a ?p = be16 b ?p" "be16 a (?p + 8) = be16 b (?p + 8)" using be16_cong [OF 2(2)] by simp_all
    moreover have "take 4 (drop (?p + 10) a) = take 4 (drop (?p + 10) b)" if "?p + 14 \<le> len"
      using same_prefix_take [OF 2(2)] that by simp
    ultimately show ?thesis
      using True name 2(1) [OF _ refl _ refl refl refl] 2(2) by (simp add: Let_def)
  qed (use name in auto)
qed simp

text \<open>Whatever a response contains, nothing beyond its length is read: the result depends on its first \<open>len\<close> bytes only.\<close>

theorem dns_reads_within:
  assumes "take (nat len) buf = take (nat len) buf'"
  shows "dns_parse_response buf len txid = dns_parse_response buf' len txid"
proof (cases "len < 12")
  case False
  then have "be16 buf 0 = be16 buf' 0" "buf ! 2 = buf' ! 2" "be16 buf 6 = be16 buf' 6"
    using be16_cong [OF assms] same_prefix_nth [OF assms] by simp_all
  then show ?thesis using answers_cong [OF assms] skip_question_cong [OF assms] by (simp add: dns_parse_response_def)
qed (simp add: dns_parse_response_def)

section \<open>Names and records\<close>

text \<open>A name as its labels: between 1 and 63 bytes each, without dots and zeros.\<close>

definition label_ok :: "bytes \<Rightarrow> bool" where
  "label_ok l \<longleftrightarrow> 0 < length l \<and> length l < 64 \<and> 46 \<notin> set l \<and> 0 \<notin> set l"

fun host_name :: "bytes list \<Rightarrow> bytes" where
  "host_name [] = []"
| "host_name [l] = l"
| "host_name (l # m # ls) = l @ 46 # host_name (m # ls)"

definition encode_name :: "bytes list \<Rightarrow> bytes" where
  "encode_name ls = concat (map (\<lambda>l. word_of_nat (length l) # l) ls)"

lemma encode_name_Cons [simp]: "encode_name (l # ls) = word_of_nat (length l) # l @ encode_name ls" "encode_name [] = []"
  by (simp_all add: encode_name_def)

lemma takeWhile_label: "46 \<notin> set l \<Longrightarrow> takeWhile (\<lambda>b. b \<noteq> (46 :: u8)) (l @ 46 # r) = l \<and> dropWhile (\<lambda>b. b \<noteq> 46) (l @ 46 # r) = 46 # r"
  by (induction l) auto

lemma takeWhile_label_only: "46 \<notin> set l \<Longrightarrow> takeWhile (\<lambda>b. b \<noteq> (46 :: u8)) l = l \<and> dropWhile (\<lambda>b. b \<noteq> 46) l = []"
  by (induction l) auto

lemma dns_qname_host:
  assumes "list_all label_ok ls" "pos + length (encode_name ls) + 5 \<le> DNS_MAX_PKT"
  shows "dns_qname pos (host_name ls) = Some (encode_name ls)"
  using assms
proof (induction ls arbitrary: pos rule: host_name.induct)
  case (2 l)
  then show ?case
    by (subst dns_qname.simps) (auto simp: label_ok_def Let_def takeWhile_label_only)
next
  case (3 l m ls)
  then show ?case
    using takeWhile_label [of l "host_name (m # ls)"] "3.IH" [of "pos + 1 + length l"]
    by (subst dns_qname.simps) (auto simp: label_ok_def Let_def)
qed simp

lemma host_name_no_zero: "list_all label_ok ls \<Longrightarrow> cstr (host_name ls) = host_name ls"
  unfolding cstr_def by (induction ls rule: host_name.induct) (auto simp: label_ok_def takeWhile_eq_all_conv)

lemma dns_qname_bound: "dns_qname pos p = Some q \<Longrightarrow> pos + 5 \<le> DNS_MAX_PKT \<Longrightarrow> pos + length q + 5 \<le> DNS_MAX_PKT"
proof (induction pos p arbitrary: q rule: dns_qname.induct)
  case (1 pos p)
  show ?case
  proof (cases "p = []")
    case False
    let ?l = "takeWhile (\<lambda>b. b \<noteq> 46) p"
    from False "1.prems"(1) obtain q' where "pos + 1 + length ?l + 5 \<le> DNS_MAX_PKT"
      "dns_qname (pos + 1 + length ?l) (drop 1 (dropWhile (\<lambda>b. b \<noteq> 46) p)) = Some q'" "q = word_of_nat (length ?l) # ?l @ q'"
      by (subst (asm) dns_qname.simps) (auto simp: Let_def split: if_splits)
    then show ?thesis using "1.IH" [OF False refl refl refl] by simp
  qed (use 1 in simp)
qed

lemma skip_question_name:
  assumes "list_all label_ok ls" "length pre + length (encode_name ls) < len"
  shows "dns_skip_question (pre @ encode_name ls @ 0 # r) len (length pre) = length pre + length (encode_name ls) + 1"
  using assms
proof (induction ls arbitrary: pre)
  case Nil
  then show ?case by (subst dns_skip_question.simps) simp
next
  case (Cons l ls)
  let ?w = "word_of_nat (length l) :: u8"
  have l: "length l < 64" "0 < length l" using Cons.prems(1) by (auto simp: label_ok_def)
  then have u: "unat ?w = length l" by (simp add: unsigned_of_nat take_bit_nat_eq_self)
  then have "?w \<noteq> 0" using l(2) by auto
  moreover have "?w AND 0xC0 \<noteq> 0xC0"
  proof
    assume "?w AND 0xC0 = 0xC0"
    then have "unat (?w AND 0xC0) = 192" by simp
    then show False using u l(1) word_and_le1 [of ?w "0xC0"] word_and_le2 [of ?w "0xC0"] by (simp add: word_le_nat_alt)
  qed
  moreover have "dns_skip_question ((pre @ ?w # l) @ encode_name ls @ 0 # r) len (length (pre @ ?w # l)) =
      length (pre @ ?w # l) + length (encode_name ls) + 1"
    using Cons.prems by (intro Cons.IH) auto
  ultimately show ?case using Cons.prems(2) u by (subst dns_skip_question.simps) (simp add: Let_def)
qed

text \<open>A resource record for the name of the question: its type, class and time to live, and data.\<close>

type_synonym rr = "u16 \<times> bytes \<times> bytes"

definition rr_ok :: "rr \<Rightarrow> bool" where
  "rr_ok r = (case r of (ty, ct, rdata) \<Rightarrow> length ct = 6 \<and> length rdata < 65536)"

definition encode_rr :: "rr \<Rightarrow> bytes" where
  "encode_rr r = (case r of (ty, ct, rdata) \<Rightarrow> [0xC0, 0x0C] @ be_bytes 2 ty @ ct @ be_bytes 2 (word_of_nat (length rdata) :: u16) @ rdata)"

fun first_address :: "rr list \<Rightarrow> bytes option" where
  "first_address [] = None"
| "first_address ((ty, ct, rdata) # rs) = (if ty = 1 \<and> length rdata = 4 then Some rdata else first_address rs)"

lemma be16_skip: "be16 (pre @ b) (length pre + i) = be16 b i"
  by (simp add: be16_def nth_append)

lemma be16_be_bytes: "be16 (be_bytes 2 w @ r) 0 = w"
  by (simp add: be16_def be_bytes_2 join_16)

lemma dns_answers_encoded:
  assumes "list_all rr_ok rs"
  shows "dns_answers (pre @ concat (map encode_rr rs) @ pad) (length pre + length (concat (map encode_rr rs))) (length rs) (length pre) = first_address rs"
  using assms
proof (induction rs arbitrary: pre)
  case Nil
  then show ?case by simp
next
  case (Cons r rs)
  obtain ty ct rdata where r: "r = (ty, ct, rdata)" by (cases r)
  have ok: "length ct = 6" "length rdata < 65536" using Cons.prems by (simp_all add: rr_ok_def r)
  let ?rest = "concat (map encode_rr rs) @ pad" and ?dl = "word_of_nat (length rdata) :: u16"
  let ?buf = "pre @ encode_rr r @ ?rest" and ?len = "length pre + length (concat (map encode_rr (r # rs)))"
  have u: "unat ?dl = length rdata" using ok by (simp add: unsigned_of_nat take_bit_nat_eq_self)
  have ty: "be16 ?buf (length pre + 2) = ty"
    using be16_skip [of "pre @ [0xC0, 0x0C]" _ 0] be16_be_bytes [of ty] by (simp add: encode_rr_def r)
  have dl: "be16 ?buf (length pre + 10) = ?dl"
    using be16_skip [of "pre @ [0xC0, 0x0C] @ be_bytes 2 ty @ ct" _ 0] be16_be_bytes [of ?dl] ok by (simp add: encode_rr_def r)
  have rd: "take 4 (drop (length pre + 12) ?buf) = take 4 (rdata @ ?rest)" using ok by (simp add: encode_rr_def r)
  have len: "length (encode_rr r) = 12 + length rdata" using ok by (simp add: encode_rr_def r)
  have name: "dns_skip_name ?buf ?len (length pre) = length pre + 2" by (simp add: dns_skip_name_def encode_rr_def r)
  have ih: "dns_answers ?buf ?len (length rs) (length pre + 12 + length rdata) = first_address rs"
    using Cons.IH [of "pre @ encode_rr r"] Cons.prems len by (simp add: ac_simps)
  have dl4: "?dl = 4 \<longleftrightarrow> length rdata = 4" using u by (simp add: word_unat_eq_iff)
  have tot: "?len = length pre + 12 + length rdata + length (concat (map encode_rr rs))" by (simp add: len)
  have "dns_answers ?buf ?len (Suc (length rs)) (length pre) = first_address (r # rs)"
  proof (cases "ty = 1 \<and> length rdata = 4")
    case True
    then show ?thesis using name ty dl rd dl4 tot by (simp add: r Let_def ac_simps)
  next
    case False
    then show ?thesis using name ty dl dl4 tot ih u by (auto simp add: r Let_def ac_simps)
  qed
  then show ?case by (simp add: ac_simps)
qed

text \<open>The answer of a server to a question: the identification and the question are repeated, then come the records.\<close>

definition dns_response :: "bytes \<Rightarrow> u8 \<Rightarrow> u8 \<Rightarrow> bytes \<Rightarrow> rr list \<Rightarrow> bytes" where
  "dns_response q f0 f1 counts rs =
     take 2 q @ [f0, f1, 0, 1] @ be_bytes 2 (word_of_nat (length rs) :: u16) @ counts @ drop 12 q @ concat (map encode_rr rs)"



text \<open>A record whose name is a label followed by a pointer is not skipped correctly, and the address after it is not found.\<close>

lemma dns_label_then_pointer:
  "dns_parse_response ([0, 7, 0x81, 0x80, 0, 1, 0, 1, 0, 0, 0, 0] @ [1, 97, 0, 0, 1, 0, 1] @ [1, 98, 0xC0, 12] @ [0, 1, 0, 1, 0, 0, 0, 9, 0, 4, 10, 0, 2, 3]) 37 7 = None"
  by code_simp

theorem dns_reads_within_witness:
  "dns_parse_response [0, 7, 0x81, 0x80, 0, 1, 0, 1, 0, 0, 0, 0, 0] 12 7 = dns_parse_response [0, 7, 0x81, 0x80, 0, 1, 0, 1, 0, 0, 0, 0, 1] 12 7"
  by (rule dns_reads_within) simp

end
