(* ===== verification/Ntp.thy ===== *)
theory Ntp
  imports Dns
begin

text \<open>
  Setting the time, \<open>ntp_sync\<close> of \<open>src/kernel/net.c\<close>: the exchange with a time server and the conversion of its seconds to a
  date. What is printed is the result.
\<close>

unbundle bit_operations_syntax

section \<open>Dates\<close>

definition NTP_PORT :: u16 where "NTP_PORT = 123"
definition NTP_SRC_PORT :: u16 where "NTP_SRC_PORT = 1123"
definition NTP_UNIX_DIFF :: nat where "NTP_UNIX_DIFF = 2208988800"

definition is_leap :: "nat \<Rightarrow> bool" where
  "is_leap year \<longleftrightarrow> (year mod 4 = 0 \<and> year mod 100 \<noteq> 0) \<or> year mod 400 = 0"

definition days_in_year :: "nat \<Rightarrow> nat" where
  "days_in_year year = (if is_leap year then 366 else 365)"

text \<open>The day counts come from a division by 86400 and the years grow from 1970 to 2106: 32 bits are enough for both.\<close>

function year_loop :: "nat \<Rightarrow> nat \<Rightarrow> nat \<times> nat" where
  "year_loop d year = (if d < days_in_year year then (d, year) else year_loop (d - days_in_year year) (year + 1))"
  by pat_completeness auto
termination by (relation "measure fst") (auto simp: days_in_year_def)

declare year_loop.simps [simp del]

definition mdays :: "nat list" where
  "mdays = [31, 28, 31, 30, 31, 30, 31, 31, 30, 31, 30, 31]"

fun month_loop :: "bool \<Rightarrow> nat \<Rightarrow> nat list \<Rightarrow> nat \<Rightarrow> nat \<times> nat" where
  "month_loop leap m [] d = (1, d)"
| "month_loop leap m (md # mds) d =
     (let md = (if m = 1 \<and> leap then 29 else md)
      in if d < md then (m + 1, d) else month_loop leap (m + 1) mds (d - md))"

record date =
  d_year :: nat
  d_month :: nat
  d_day :: nat
  d_hour :: nat
  d_minute :: nat
  d_second :: nat

definition ntp_date :: "u32 \<Rightarrow> date" where
  "ntp_date unix_secs =
     (let s = unat unix_secs mod 86400; (d, year) = year_loop (unat unix_secs div 86400) 1970;
          (month, d) = month_loop (is_leap year) 0 mdays d
      in \<lparr>d_year = year, d_month = month, d_day = d + 1, d_hour = s div 3600, d_minute = s mod 3600 div 60, d_second = s mod 60\<rparr>)"

section \<open>The exchange\<close>

text \<open>\<open>None\<close> for a reply without a time.\<close>

definition ntp_time :: "bytes \<Rightarrow> u32 option" where
  "ntp_time np =
     (let secs = be_u32 np 40; secs = (if unat secs < NTP_UNIX_DIFF then be_u32 np 32 else secs)
      in if secs = 0 then None else Some (secs - word_of_nat NTP_UNIX_DIFF))"

fun ntp_wait :: "u32 \<Rightarrow> poll list \<Rightarrow> net \<Rightarrow> (date option \<times> poll list \<times> net) option" where
  "ntp_wait deadline [] n = (if clock n < deadline then None else Some (None, [], n))"
| "ntp_wait deadline (p # ps) n =
     (if clock n < deadline then
        let n = n\<lparr>clock := fst p\<rparr>
        in case snd p of None \<Rightarrow> ntp_wait deadline ps n
           | Some (pkt, rlen) \<Rightarrow>
               let ip = drop 14 pkt; udp = drop (unat (ip ! 0 AND 0xF) * 4) ip; time = ntp_time (drop 8 udp)
               in if rlen \<le> 90 then ntp_wait deadline ps n
               else if ip ! 9 \<noteq> 17 \<or> be16 udp 0 \<noteq> NTP_PORT \<or> be16 udp 2 \<noteq> NTP_SRC_PORT \<or> time = None then do {
                 (_, n) \<leftarrow> net_process pkt rlen None 0 n;
                 ntp_wait deadline ps n
               }
               else Some (map_option ntp_date time, ps, n)
      else Some (None, p # ps, n))"

fun ntp_attempts :: "nat \<Rightarrow> bytes \<Rightarrow> poll list \<Rightarrow> net \<Rightarrow> (date option \<times> poll list \<times> net) option" where
  "ntp_attempts 0 ip ps n = Some (None, ps, n)"
| "ntp_attempts (Suc k) ip ps n = do {
     (_, ps, n) \<leftarrow> net_udp_send ip NTP_PORT NTP_SRC_PORT (0x1B # replicate 47 0) ps n;
     (r, ps, n) \<leftarrow> ntp_wait (clock n + 3000) ps n;
     case r of Some date \<Rightarrow> Some (Some date, ps, n) | None \<Rightarrow> ntp_attempts k ip ps n
   }"

text \<open>The name is \<open>pool.ntp.org\<close>.\<close>

definition ntp_pool :: bytes where
  "ntp_pool = [112, 111, 111, 108, 46, 110, 116, 112, 46, 111, 114, 103]"

definition ntp_sync :: "poll list \<Rightarrow> net \<Rightarrow> (date option \<times> poll list \<times> net) option" where
  "ntp_sync ps n =
     (if \<not> nic n then Some (None, ps, n)
      else do {
        (ip, ps, n) \<leftarrow> dns_resolve ntp_pool ps n;
        ntp_attempts 3 (case ip of Some ip \<Rightarrow> ip | None \<Rightarrow> [216, 239, 35, 0]) ps n
      })"

section \<open>The calendar\<close>

text \<open>
  Days since the beginning of year 1 in the proleptic Gregorian calendar, in closed form: 365 days a year, a day for every
  fourth year, none for every hundredth, one for every four-hundredth.
\<close>

definition year_start :: "nat \<Rightarrow> int" where
  "year_start y = (let k = int y - 1 in 365 * k + k div 4 - k div 100 + k div 400)"

definition month_length :: "nat \<Rightarrow> nat \<Rightarrow> nat" where
  "month_length y m = (if m = 2 then (if is_leap y then 29 else 28) else if m \<in> {4, 6, 9, 11} then 30 else 31)"

definition day_number :: "nat \<Rightarrow> nat \<Rightarrow> nat \<Rightarrow> int" where
  "day_number y m d = year_start y + int (\<Sum>k\<leftarrow>[1..<m]. month_length y k) + int d - 1"

definition unix_epoch :: int where "unix_epoch = 719162"

lemma unix_epoch_eq: "day_number 1970 1 1 = unix_epoch"
  by (simp add: day_number_def year_start_def unix_epoch_def)

lemma year_start_step:
  assumes "0 < y"
  shows "year_start (y + 1) = year_start y + int (days_in_year y)"
proof -
  obtain n where y: "y = Suc n" using assms by (cases y) auto
  have s: "year_start (Suc k) = 365 * int k + int (k div 4) - int (k div 100) + int (k div 400)" for k
    by (simp add: year_start_def zdiv_int Let_def)
  have "Suc n mod 100 = 0 \<longrightarrow> Suc n mod 4 = 0" "Suc n mod 400 = 0 \<longrightarrow> Suc n mod 100 = 0" by presburger+
  then show ?thesis unfolding y using s [of n] s [of "Suc n"]
    by (auto simp: div_Suc days_in_year_def is_leap_def)
qed

lemma year_loop_spec:
  assumes "0 < y" "year_loop d y = (d', y')"
  shows "y \<le> y'" "d' < days_in_year y'" "year_start y' + int d' = year_start y + int d"
proof -
  have "y \<le> y' \<and> d' < days_in_year y' \<and> year_start y' + int d' = year_start y + int d"
    using assms
  proof (induction d y rule: year_loop.induct)
    case (1 d y)
    show ?case
    proof (cases "d < days_in_year y")
      case True
      with "1.prems" show ?thesis by (simp add: year_loop.simps)
    next
      case False
      with "1.prems" "1.IH" [OF False] show ?thesis
        using year_start_step [OF "1.prems"(1)] by (simp add: year_loop.simps [of d] of_nat_diff)
    qed
  qed
  then show "y \<le> y'" "d' < days_in_year y'" "year_start y' + int d' = year_start y + int d" by auto
qed

lemma month_loop_sum:
  assumes "\<forall>k < length mds. (if m + k = 1 \<and> leap then 29 else mds ! k) = f (m + k + 1)" "d < (\<Sum>k\<leftarrow>[m + 1..<m + 1 + length mds]. f k)"
  shows "\<exists>m' d'. month_loop leap m mds d = (m', d') \<and> m < m' \<and> m' \<le> m + length mds \<and> d' < f m' \<and> (\<Sum>k\<leftarrow>[m + 1..<m']. f k) + d' = d"
  using assms
proof (induction mds arbitrary: m d)
  case (Cons md mds)
  have md: "(if m = 1 \<and> leap then 29 else md) = f (m + 1)" using Cons.prems(1) [rule_format, of 0] by (auto split: if_splits)
  show ?case
  proof (cases "d < f (m + 1)")
    case True
    then show ?thesis using md by (auto simp: Let_def)
  next
    case False
    have "\<forall>k < length mds. (if m + 1 + k = 1 \<and> leap then 29 else mds ! k) = f (m + 1 + k + 1)"
    proof (intro allI impI)
      fix k assume "k < length mds"
      then show "(if m + 1 + k = 1 \<and> leap then 29 else mds ! k) = f (m + 1 + k + 1)" using Cons.prems(1) [rule_format, of "Suc k"] by (auto split: if_splits)
    qed
    moreover have "d - f (m + 1) < (\<Sum>k\<leftarrow>[m + 1 + 1..<m + 1 + 1 + length mds]. f k)"
      using Cons.prems(2) False by (simp add: upt_conv_Cons del: upt_Suc)
    ultimately obtain m' d' where r: "month_loop leap (m + 1) mds (d - f (m + 1)) = (m', d')" "m + 1 < m'" "m' \<le> m + 1 + length mds" "d' < f m'"
      "(\<Sum>k\<leftarrow>[m + 1 + 1..<m']. f k) + d' = d - f (m + 1)" using Cons.IH [of "m + 1" "d - f (m + 1)"] by blast
    then have "(\<Sum>k\<leftarrow>[m + 1..<m']. f k) + d' = d" using False by (simp add: upt_conv_Cons)
    with r False md show ?thesis by (intro exI [of _ m'] exI [of _ d']) (simp add: Let_def)
  qed
qed simp

lemma month_loop_spec:
  assumes "d < days_in_year y"
  shows "\<exists>m d'. month_loop (is_leap y) 0 mdays d = (m, d') \<and> 1 \<le> m \<and> m \<le> 12 \<and> d' < month_length y m \<and>
    (\<Sum>k\<leftarrow>[1..<m]. month_length y k) + d' = d"
proof -
  have "\<forall>k < 12. (if k = 1 \<and> is_leap y then 29 else mdays ! k) = month_length y (k + 1)"
    by (simp add: numeral_eq_Suc All_less_Suc mdays_def month_length_def)
  moreover have "(\<Sum>k\<leftarrow>[1..<13]. month_length y k) = days_in_year y"
    by (simp add: upt_rec month_length_def days_in_year_def)
  moreover have "length mdays = 12" by (simp add: mdays_def)
  ultimately show ?thesis using month_loop_sum [of mdays 0 "is_leap y" "month_length y" d] assms by (simp add: Suc_le_eq)
qed

lemma hms: "s div 3600 * 3600 + s mod 3600 div 60 * 60 + s mod 60 = (s :: nat)"
proof -
  have "s mod 3600 mod 60 = s mod 60" by (simp add: mod_mod_cancel)
  then show ?thesis using div_mult_mod_eq [of s 3600] div_mult_mod_eq [of "s mod 3600" 60] by linarith
qed

text \<open>
  C37. The date that is shown for a number of seconds is the date of the Gregorian calendar: month and day are those of the
  year, the day has the right number since the beginning of 1970, and the time of the day is the remaining seconds.
\<close>

theorem ntp_date_gregorian:
  "let t = ntp_date secs in
     day_number (d_year t) (d_month t) (d_day t) = unix_epoch + int (unat secs div 86400) \<and>
     1 \<le> d_month t \<and> d_month t \<le> 12 \<and> 1 \<le> d_day t \<and> d_day t \<le> month_length (d_year t) (d_month t) \<and>
     d_hour t * 3600 + d_minute t * 60 + d_second t = unat secs mod 86400 \<and> d_hour t < 24 \<and> d_minute t < 60 \<and> d_second t < 60"
proof -
  let ?d = "unat secs div 86400" and ?s = "unat secs mod 86400"
  obtain d y where y: "year_loop ?d 1970 = (d, y)" by fastforce
  note ys = year_loop_spec [OF _ y, simplified]
  from month_loop_spec [OF ys(2)] obtain m d' where m: "month_loop (is_leap y) 0 mdays d = (m, d')" "1 \<le> m" "m \<le> 12"
    "d' < month_length y m" "(\<Sum>k\<leftarrow>[1..<m]. month_length y k) + d' = d" by auto
  have t: "ntp_date secs = \<lparr>d_year = y, d_month = m, d_day = d' + 1, d_hour = ?s div 3600, d_minute = ?s mod 3600 div 60, d_second = ?s mod 60\<rparr>"
    by (simp add: ntp_date_def y m(1) Let_def)
  have "year_start 1970 = unix_epoch" by (simp add: year_start_def unix_epoch_def)
  then have "day_number y m (d' + 1) = unix_epoch + int ?d" using ys(3) by (simp add: day_number_def m(5) [symmetric])
  moreover note hms [of ?s]
  moreover have "?s div 3600 < 24" "?s mod 3600 div 60 < 60" by (simp_all add: less_mult_imp_div_less)
  ultimately show ?thesis using m(2-4) unfolding Let_def t by simp
qed

end
