(* ===== verification/Http.thy ===== *)
theory Http
  imports Prelude "HOL-Library.Monad_Syntax"
begin

text \<open>
  The parsers that the HTTP client of \<open>src/kernel/net.c\<close> applies to addresses and responses. Strings end at their first zero
  byte; a response is a list of bytes of its length. A signed overflow is \<open>None\<close>.
\<close>

section \<open>Addresses and headers\<close>

text \<open>The bytes of \<open>http://\<close>, the slash, and the two characters that end a line.\<close>

definition scheme :: bytes where "scheme = [104, 116, 116, 112, 58, 47, 47]"
definition SLASH :: u8 where "SLASH = 47"
definition CR :: u8 where "CR = 13"
definition LF :: u8 where "LF = 10"

text \<open>Host and path. A host of more than 127 bytes is cut and its rest is taken for the path.\<close>

definition parse_http_url :: "bytes \<Rightarrow> (bytes \<times> bytes) option" where
  "parse_http_url url =
     (let p = cstr url
      in if take 7 p \<noteq> scheme then None
      else let p = drop 7 p; host = take 127 (takeWhile (\<lambda>c. c \<noteq> SLASH) p); p = drop (length host) p
      in if host = [] then None else Some (host, if p = [] then [SLASH] else take 255 p))"

definition digit :: "u8 \<Rightarrow> bool" where "digit c \<longleftrightarrow> 48 \<le> c \<and> c \<le> 57"

fun decimal :: "int \<Rightarrow> bytes \<Rightarrow> int option" where
  "decimal code [] = Some code"
| "decimal code (c # s) =
     (if digit c then
        let code' = code * 10 + int (unat c - 48) in if code' > 2147483647 then None else decimal code' s
      else Some code)"

definition http_parse_status :: "bytes \<Rightarrow> int option" where
  "http_parse_status hdr = decimal 0 (dropWhile (\<lambda>c. c = 32) (dropWhile (\<lambda>c. c \<noteq> 32) (cstr hdr)))"

definition to_lower :: "u8 \<Rightarrow> u8" where
  "to_lower c = (if 65 \<le> c \<and> c \<le> 90 then c + 32 else c)"

definition field_at :: "bytes \<Rightarrow> bytes \<Rightarrow> bool" where
  "field_at field s \<longleftrightarrow> map to_lower (take (length field) s) = map to_lower field \<and> s ! length field = 58"

text \<open>The scan looks at positions up to the length of the name and three bytes before the end.\<close>

function find_field_loop :: "bytes \<Rightarrow> bytes \<Rightarrow> bytes option" where
  "find_field_loop field s =
     (if length s \<le> length field + 2 then None
      else if hd s = LF \<and> field_at field (tl s) then
        Some (takeWhile (\<lambda>c. c \<noteq> CR \<and> c \<noteq> LF) (dropWhile (\<lambda>c. c = 32) (drop (length field + 1) (tl s))))
      else find_field_loop field (tl s))"
  by pat_completeness auto
termination by (relation "measure (length \<circ> snd)") auto

definition http_find_field :: "bytes \<Rightarrow> bytes \<Rightarrow> bytes option" where
  "http_find_field hdr field = find_field_loop (cstr field) hdr"

section \<open>Chunked bodies\<close>

definition HTTP_WORK_BUF :: nat where "HTTP_WORK_BUF = 8192"

definition hex_val :: "u8 \<Rightarrow> nat option" where
  "hex_val c = (if digit c then Some (unat c - 48) else if 97 \<le> c \<and> c \<le> 102 then Some (unat c - 87)
     else if 65 \<le> c \<and> c \<le> 70 then Some (unat c - 55) else None)"

fun chunk_size :: "nat \<Rightarrow> bytes \<Rightarrow> (nat \<times> bytes) option" where
  "chunk_size csz [] = Some (csz, [])"
| "chunk_size csz (c # s) =
     (case hex_val c of None \<Rightarrow> Some (csz, c # s)
      | Some v \<Rightarrow> if csz * 16 + v > 2147483647 then None else chunk_size (csz * 16 + v) s)"

lemma chunk_size_shorter: "chunk_size csz s = Some (n, r) \<Longrightarrow> length r \<le> length s \<and> (n \<noteq> csz \<longrightarrow> length r < length s)"
proof (induction csz s rule: chunk_size.induct)
  case (2 csz c s)
  then show ?case by (cases "hex_val c") (fastforce split: if_splits)+
qed simp

text \<open>The bytes decoded so far and the rest of the response.\<close>

function chunk_loop :: "bytes \<Rightarrow> bytes \<Rightarrow> bytes option" where
  "chunk_loop out src =
     (if src = [] \<or> length out \<ge> HTTP_WORK_BUF - 1 then Some out
      else case chunk_size 0 src of None \<Rightarrow> None
      | Some (csz, s) \<Rightarrow>
          let s = drop 1 (dropWhile (\<lambda>c. c \<noteq> LF) s); n = min csz (HTTP_WORK_BUF - 1 - length out)
          in if csz = 0 then Some out
          else chunk_loop (out @ take n s) (dropWhile (\<lambda>c. c = CR \<or> c = LF) (drop n s)))"
  by pat_completeness auto
termination
proof (relation "measure (length \<circ> snd)", simp, goal_cases)
  case (1 out src p csz s s' n)
  have "length (dropWhile (\<lambda>c. c = CR \<or> c = LF) (drop n s')) \<le> length s'" using length_dropWhile_le [of _ "drop n s'"] by (metis diff_le_self le_trans length_drop)
  also have "\<dots> \<le> length s" using 1 length_dropWhile_le [of "\<lambda>c. c \<noteq> LF" s] by (metis diff_le_self le_trans length_drop)
  also have "\<dots> < length src" using 1 chunk_size_shorter [of 0 src csz s] by auto
  finally show ?case by simp
qed

definition http_decode_chunked :: "bytes \<Rightarrow> bytes option" where
  "http_decode_chunked src = chunk_loop [] src"

declare find_field_loop.simps [simp del] chunk_loop.simps [simp del]

section \<open>What the header parsers return\<close>

lemma parse_http_url_parts:
  assumes "host \<noteq> []" "length host \<le> 127" "SLASH \<notin> set host" "0 \<notin> set host" "0 \<notin> set path" "length path < 255"
  shows "parse_http_url (scheme @ host @ SLASH # path) = Some (host, SLASH # path)"
proof -
  have "takeWhile (\<lambda>c. c \<noteq> SLASH) (host @ SLASH # path) = host" using assms(3) by (induction host) auto
  moreover have "cstr (scheme @ host @ SLASH # path) = scheme @ host @ SLASH # path"
    using assms(4,5) by (auto simp: cstr_def scheme_def SLASH_def takeWhile_eq_all_conv)
  ultimately show ?thesis using assms(1,2,6) by (simp add: parse_http_url_def scheme_def)
qed

text \<open>Header lines: a name without a colon, and a value; every line starts after the line feed of the one before it.\<close>

definition encode_headers :: "(bytes \<times> bytes) list \<Rightarrow> bytes" where
  "encode_headers hs = concat (map (\<lambda>(n, v). LF # n @ [58, 32] @ v @ [CR]) hs) @ [LF, CR, LF]"

definition field_ok :: "bytes \<times> bytes \<Rightarrow> bool" where
  "field_ok h = (case h of (n, v) \<Rightarrow> 58 \<notin> set n \<and> LF \<notin> set n \<and> CR \<notin> set n \<and> LF \<notin> set v \<and> CR \<notin> set v \<and> v \<noteq> [] \<and> hd v \<noteq> 32)"

fun header_value :: "bytes \<Rightarrow> (bytes \<times> bytes) list \<Rightarrow> bytes option" where
  "header_value field [] = None"
| "header_value field ((n, v) # hs) = (if map to_lower n = map to_lower field then Some v else header_value field hs)"

lemma to_lower_colon: "to_lower c = 58 \<longleftrightarrow> c = 58"
proof -
  have "c + 32 \<noteq> 58" if "65 \<le> c" "c \<le> 90"
  proof
    assume "c + 32 = 58"
    then have "c = 26" by (simp add: eq_diff_eq [symmetric])
    with that show False by simp
  qed
  then show ?thesis by (auto simp: to_lower_def)
qed

lemma field_at_header:
  assumes "58 \<notin> set n" "58 \<notin> set field"
  shows "field_at field (n @ 58 # r) \<longleftrightarrow> map to_lower n = map to_lower field"
proof
  assume f: "field_at field (n @ 58 # r)"
  have "\<not> length n < length field"
  proof
    assume l: "length n < length field"
    have "map to_lower (take (length field) (n @ 58 # r)) ! length n = map to_lower field ! length n" using f by (simp add: field_at_def)
    then have "to_lower (field ! length n) = 58" using l by (simp add: nth_append to_lower_def)
    then show False using assms(2) l to_lower_colon by (metis nth_mem)
  qed
  moreover have "\<not> length field < length n"
    using f assms(1) by (auto simp: field_at_def nth_append dest: nth_mem split: if_splits)
  ultimately have "length field = length n" by simp
  then show "map to_lower n = map to_lower field" using f by (simp add: field_at_def)
next
  assume m: "map to_lower n = map to_lower field"
  then have "length n = length field" by (metis length_map)
  then show "field_at field (n @ 58 # r)" using m by (simp add: field_at_def nth_append flip: \<open>length n = length field\<close>)
qed

lemma find_field_skip: "LF \<notin> set x \<Longrightarrow> find_field_loop field (x @ y) = find_field_loop field y"
proof (induction x)
  case (Cons c x)
  then show ?case
    by (cases "length (c # x @ y) \<le> length field + 2") (auto simp: find_field_loop.simps [of _ "c # x @ y"] find_field_loop.simps [of _ y])
qed simp

lemma find_field_headers:
  assumes "list_all field_ok hs" "58 \<notin> set field" "field \<noteq> []"
  shows "find_field_loop field (encode_headers hs) = header_value field hs"
  using assms(1)
proof (induction hs)
  case Nil
  then show ?case using assms(3) by (cases field) (auto simp: encode_headers_def find_field_loop.simps)
next
  case (Cons h hs)
  obtain n v where h: "h = (n, v)" by (cases h)
  have ok: "58 \<notin> set n" "LF \<notin> set n" "LF \<notin> set v" "CR \<notin> set v" "v \<noteq> []" "hd v \<noteq> 32" using Cons.prems by (simp_all add: h field_ok_def)
  let ?line = "n @ [58, 32] @ v @ [CR]"
  have enc: "encode_headers (h # hs) = LF # ?line @ encode_headers hs" by (simp add: encode_headers_def h)
  have tail: "find_field_loop field (?line @ encode_headers hs) = header_value field hs"
    using find_field_skip [of ?line field "encode_headers hs"] Cons ok(2,3) by (simp add: LF_def CR_def)
  have at: "field_at field (?line @ encode_headers hs) \<longleftrightarrow> map to_lower n = map to_lower field"
    using field_at_header [OF ok(1) assms(2)] by simp
  show ?case
  proof (cases "map to_lower n = map to_lower field")
    case True
    then have len: "length n = length field" by (metis length_map)
    have "dropWhile (\<lambda>c. c = 32) (32 # v @ CR # encode_headers hs) = v @ CR # encode_headers hs" using ok(5,6) by (cases v) auto
    moreover have "takeWhile (\<lambda>c. c \<noteq> CR \<and> c \<noteq> LF) (v @ CR # encode_headers hs) = v" using ok(3,4) by (induction v) auto
    ultimately show ?thesis using True at len unfolding enc by (subst find_field_loop.simps) (simp add: h)
  next
    case False
    then show ?thesis
    proof (cases "length (?line @ encode_headers hs) \<le> length field + 2")
      case True
      then have "find_field_loop field (?line @ encode_headers hs) = None" by (subst find_field_loop.simps) simp
      then show ?thesis using False at tail unfolding enc by (subst find_field_loop.simps) (auto simp: h)
    next
      case no: False
      then show ?thesis using False at tail unfolding enc by (subst find_field_loop.simps) (auto simp: h)
    qed
  qed
qed

text \<open>Looking up a field in a response gives the value of the first header line of that name, whatever its case.\<close>

lemma http_find_field_spec:
  assumes "list_all field_ok hs" "58 \<notin> set field" "field \<noteq> []" "0 \<notin> set field" "LF \<notin> set status"
  shows "http_find_field (status @ encode_headers hs) field = header_value field hs"
proof -
  have "cstr field = field" using assms(4) by (auto simp: cstr_def takeWhile_eq_all_conv)
  then show ?thesis using find_field_headers [OF assms(1-3)] find_field_skip [OF assms(5)] by (simp add: http_find_field_def)
qed

section \<open>Decoding undoes encoding\<close>

definition hex_digit :: "nat \<Rightarrow> u8" where
  "hex_digit v = (if v < 10 then word_of_nat (48 + v) else word_of_nat (87 + v))"

fun to_hex :: "nat \<Rightarrow> bytes" where
  "to_hex n = (if n < 16 then [hex_digit n] else to_hex (n div 16) @ [hex_digit (n mod 16)])"

declare to_hex.simps [simp del]

lemma hex_val_digit: "v < 16 \<Longrightarrow> hex_val (hex_digit v) = Some v"
  by (cases "v < 10")
    (simp_all add: hex_val_def digit_def hex_digit_def word_le_nat_alt unsigned_of_nat take_bit_nat_eq_self del: of_nat_add)

lemma chunk_size_to_hex: "n \<le> 2147483647 \<Longrightarrow> chunk_size 0 (to_hex n @ r) = chunk_size n r"
proof (induction n arbitrary: r rule: to_hex.induct)
  case (1 n)
  show ?case
  proof (cases "n < 16")
    case True
    then show ?thesis using hex_val_digit by (simp add: to_hex.simps)
  next
    case False
    have "chunk_size 0 (to_hex (n div 16) @ hex_digit (n mod 16) # r) = chunk_size (n div 16) (hex_digit (n mod 16) # r)"
      using "1.IH" [OF False] "1.prems" by (metis div_le_dividend le_trans)
    then show ?thesis using False "1.prems" hex_val_digit [of "n mod 16"] by (simp add: to_hex.simps [of n])
  qed
qed

lemma to_hex_hd: "to_hex n \<noteq> [] \<and> hd (to_hex n) \<noteq> CR \<and> hd (to_hex n) \<noteq> LF"
proof (induction n rule: to_hex.induct)
  case (1 n)
  have "hex_digit v \<noteq> CR \<and> hex_digit v \<noteq> LF" if "v < 16" for v
    using hex_val_digit [OF that] by (auto simp: hex_val_def digit_def CR_def LF_def)
  then show ?case using 1 by (cases "n < 16") (simp_all add: to_hex.simps [of n])
qed

text \<open>A chunk: its length, an extension that does not look like part of the length, the data.\<close>

definition encode_chunk :: "bytes \<times> bytes \<Rightarrow> bytes" where
  "encode_chunk c = to_hex (length (snd c)) @ fst c @ [CR, LF] @ snd c @ [CR, LF]"

definition chunk_ok :: "bytes \<times> bytes \<Rightarrow> bool" where
  "chunk_ok c \<longleftrightarrow> snd c \<noteq> [] \<and> LF \<notin> set (fst c) \<and> (fst c = [] \<or> hex_val (hd (fst c)) = None)"

lemma chunk_size_stop: "s \<noteq> [] \<Longrightarrow> hex_val (hd s) = None \<Longrightarrow> chunk_size n s = Some (n, s)"
  by (cases s) auto

lemma dropWhile_to_LF: "LF \<notin> set e \<Longrightarrow> dropWhile (\<lambda>c. c \<noteq> LF) (e @ LF # r) = LF # r"
  by (induction e) auto

lemma chunk_step:
  assumes "chunk_ok c" "length out + length (snd c) \<le> HTTP_WORK_BUF - 1" "rest \<noteq> []" "hd rest \<noteq> CR" "hd rest \<noteq> LF"
  shows "chunk_loop out (encode_chunk c @ rest) = chunk_loop (out @ snd c) rest"
proof -
  obtain e d where c: "c = (e, d)" by (cases c)
  have "0 < length d" using assms(1) c by (simp add: chunk_ok_def)
  then have d: "0 < length d" "length d \<le> HTTP_WORK_BUF - 1 - length out" "length out < HTTP_WORK_BUF - 1"
    using assms(2) c by (simp_all del: length_greater_0_conv)
  then have small: "length d \<le> 2147483647" by (simp add: HTTP_WORK_BUF_def)
  let ?r = "e @ [CR, LF] @ d @ [CR, LF] @ rest"
  have "hex_val (hd ?r) = None" using assms(1) c by (cases e) (auto simp: chunk_ok_def hex_val_def digit_def CR_def)
  then have "chunk_size 0 (to_hex (length d) @ ?r) = Some (length d, ?r)"
    using chunk_size_to_hex [OF small] chunk_size_stop [of ?r] by simp
  moreover have "drop 1 (dropWhile (\<lambda>c. c \<noteq> LF) ?r) = d @ [CR, LF] @ rest"
    using dropWhile_to_LF [of "e @ [CR]" "d @ [CR, LF] @ rest"] assms(1) c by (simp add: chunk_ok_def CR_def LF_def)
  moreover have "dropWhile (\<lambda>c. c = CR \<or> c = LF) ([CR, LF] @ rest) = rest"
    using assms(3-5) by (cases rest) auto
  ultimately show ?thesis
    using d to_hex_hd [of "length d"] by (subst chunk_loop.simps) (simp add: c encode_chunk_def Let_def del: drop_drop)
qed

text \<open>
  C36. The body that is decoded from a response in chunks is the concatenation of the data of the chunks, extensions left out,
  when it fits into the buffer of 8191 bytes.
\<close>

theorem http_chunked_roundtrip:
  assumes "list_all chunk_ok cs" "length (concat (map snd cs)) \<le> HTTP_WORK_BUF - 1"
  shows "http_decode_chunked (concat (map encode_chunk cs) @ [48, CR, LF, CR, LF]) = Some (concat (map snd cs))"
proof -
  have last: "chunk_loop out [48, CR, LF, CR, LF] = Some out" for out
    by (subst chunk_loop.simps) (simp add: hex_val_def digit_def CR_def LF_def)
  have "chunk_loop out (concat (map encode_chunk cs) @ [48, CR, LF, CR, LF]) = Some (out @ concat (map snd cs))"
    if "length out + length (concat (map snd cs)) \<le> HTTP_WORK_BUF - 1" for out
    using that assms(1)
  proof (induction cs arbitrary: out)
    case Nil
    then show ?case using last by simp
  next
    case (Cons c cs)
    let ?rest = "concat (map encode_chunk cs) @ [48, CR, LF, CR, LF]"
    have "?rest \<noteq> []" "hd ?rest \<noteq> CR" "hd ?rest \<noteq> LF"
      using to_hex_hd by (cases cs; simp add: encode_chunk_def CR_def LF_def hd_append)+
    then show ?case using chunk_step [of c out ?rest] Cons.IH [of "out @ snd c"] Cons.prems by simp
  qed
  from this [of "[]"] show ?thesis using assms(2) by (simp add: http_decode_chunked_def)
qed

theorem http_chunked_roundtrip_witness:
  "http_decode_chunked (concat (map encode_chunk [([59, 120], [1, 2, 3]), ([], [13, 10])]) @ [48, CR, LF, CR, LF]) =
    Some (concat (map snd [([59, 120] :: bytes, [1, 2, 3]), ([], [13, 10])]))"
  by (rule http_chunked_roundtrip) (simp_all add: chunk_ok_def hex_val_def digit_def LF_def HTTP_WORK_BUF_def)

end
