(* ===== verification/Dhcp.thy ===== *)
theory Dhcp
  imports TcpLink
begin

text \<open>
  The client of \<open>src/kernel/net.c\<close> for dynamic configuration: the two messages it sends, the options it reads, and the
  exchange that sets the address and the gateway of the host.
\<close>

unbundle bit_operations_syntax

section \<open>Messages\<close>

definition DHCP_SRC_PORT :: u8 where "DHCP_SRC_PORT = 68"
definition DHCP_DST_PORT :: u8 where "DHCP_DST_PORT = 67"

text \<open>The offered address and the server's address are present in a request.\<close>

definition dhcp_options :: "u8 \<Rightarrow> (bytes \<times> bytes) option \<Rightarrow> bytes \<Rightarrow> bytes" where
  "dhcp_options msg_type offer mac =
     [53, 1, msg_type, 61, 7, 1] @ mac @
     (case offer of Some (ip, server) \<Rightarrow> if msg_type = 3 then [50, 4] @ ip @ [54, 4] @ server else [] | None \<Rightarrow> []) @
     [55, 4, 1, 3, 6, 51, 255]"

definition dhcp_payload :: "u8 \<Rightarrow> u32 \<Rightarrow> (bytes \<times> bytes) option \<Rightarrow> bytes \<Rightarrow> bytes" where
  "dhcp_payload msg_type xid offer mac =
     [1, 1, 6, 0] @ be_bytes 4 xid @ replicate 20 0 @ mac @ replicate 202 0 @ [99, 130, 83, 99] @ dhcp_options msg_type offer mac"

definition dhcp_build :: "u8 \<Rightarrow> u32 \<Rightarrow> (bytes \<times> bytes) option \<Rightarrow> net \<Rightarrow> bytes" where
  "dhcp_build msg_type xid offer n =
     (let d = dhcp_payload msg_type xid offer (my_mac n); udp_len = 8 + length d; ip_len = 20 + udp_len;
          h = [0x45, 0] @ be_bytes 2 (word_of_nat ip_len :: u16) @ [0, 0, 0, 0, 64, 17, 0, 0] @ [0, 0, 0, 0] @ [255, 255, 255, 255]
      in BCAST_MAC @ my_mac n @ [8, 0] @ with_cksum 10 (inet_cksum h) h @
         [0, DHCP_SRC_PORT, 0, DHCP_DST_PORT] @ be_bytes 2 (word_of_nat udp_len :: u16) @ [0, 0] @ d)"

section \<open>Options\<close>

text \<open>The value of an option: the length that it gives, and the rest of the buffer from the value on.\<close>

function dhcp_opt :: "bytes \<Rightarrow> nat \<Rightarrow> u8 \<Rightarrow> (nat \<times> bytes) option" where
  "dhcp_opt opt optlen code =
     (if optlen = 0 \<or> opt ! 0 = 255 then None
      else if opt ! 0 = 0 then dhcp_opt (drop 1 opt) (optlen - 1) code
      else if optlen \<le> 1 then None
      else let len = unat (opt ! 1)
      in if opt ! 0 = code then Some (len, drop 2 opt) else dhcp_opt (drop (2 + len) opt) (optlen - (2 + len)) code)"
  by pat_completeness auto
termination by (relation "measure (fst \<circ> snd)") auto

declare dhcp_opt.simps [simp del]

text \<open>Reading from a pointer into the buffer; \<open>None\<close> past its end.\<close>

definition read_n :: "nat \<Rightarrow> bytes \<Rightarrow> bytes option" where
  "read_n k p = (if k \<le> length p then Some (take k p) else None)"

definition msg_type_is :: "u8 \<Rightarrow> bytes \<Rightarrow> nat \<Rightarrow> bool option" where
  "msg_type_is ty opt optlen =
     (case dhcp_opt opt optlen 53 of None \<Rightarrow> Some False | Some (_, mt) \<Rightarrow> map_option (\<lambda>v. v = [ty]) (read_n 1 mt))"

definition opt_address :: "(nat \<Rightarrow> bool) \<Rightarrow> u8 \<Rightarrow> bytes \<Rightarrow> nat \<Rightarrow> bytes \<Rightarrow> bytes option" where
  "opt_address fits code opt optlen dflt =
     (case dhcp_opt opt optlen code of Some (vl, v) \<Rightarrow> if fits vl then read_n 4 v else Some dflt | None \<Rightarrow> Some dflt)"

definition dhcp_reply :: "u32 \<Rightarrow> bytes \<Rightarrow> nat \<Rightarrow> bool" where
  "dhcp_reply xid pkt rlen \<longleftrightarrow> rlen \<ge> 42 + 240 + 5 \<and> pkt ! 12 = 8 \<and> pkt ! 13 = 0 \<and> pkt ! 23 = 17 \<and>
     pkt ! 34 = 0 \<and> pkt ! 35 = 67 \<and> pkt ! 36 = 0 \<and> pkt ! 37 = 68 \<and> pkt ! 42 = 2 \<and> be_u32 pkt (42 + 4) = xid \<and>
     pkt ! (42 + 236) = 99 \<and> pkt ! (42 + 237) = 130 \<and> pkt ! (42 + 238) = 83 \<and> pkt ! (42 + 239) = 99"

section \<open>The exchange\<close>

definition dhcp_offer :: "u32 \<Rightarrow> bytes \<Rightarrow> nat \<Rightarrow> (bytes \<times> bytes) option option" where
  "dhcp_offer xid pkt rlen =
     (if \<not> dhcp_reply xid pkt rlen then Some None
      else let opt = drop (42 + 240) pkt; optlen = rlen - 42 - 240
      in do {
        is_offer \<leftarrow> msg_type_is 2 opt optlen;
        if \<not> is_offer then Some None
        else do {
          server \<leftarrow> opt_address (\<lambda>vl. vl = 4) 54 opt optlen (take 4 (drop 26 pkt));
          Some (Some (take 4 (drop (42 + 16) pkt), server))
        }
      })"

text \<open>From an acknowledgement the gateway is taken; the name server is read as well, but only shown.\<close>

definition dhcp_ack :: "u32 \<Rightarrow> bytes \<Rightarrow> nat \<Rightarrow> bytes option option" where
  "dhcp_ack xid pkt rlen =
     (if \<not> dhcp_reply xid pkt rlen then Some None
      else let opt = drop (42 + 240) pkt; optlen = rlen - 42 - 240
      in do {
        is_ack \<leftarrow> msg_type_is 5 opt optlen;
        if \<not> is_ack then Some None
        else do {
          gw \<leftarrow> opt_address (\<lambda>vl. vl \<ge> 4) 3 opt optlen (replicate 4 0);
          _ \<leftarrow> opt_address (\<lambda>vl. vl \<ge> 4) 6 opt optlen (replicate 4 0);
          Some (Some gw)
        }
      })"

text \<open>Both waiting loops drop every frame that is not what they wait for.\<close>

fun dhcp_wait :: "(bytes \<Rightarrow> nat \<Rightarrow> 'a option option) \<Rightarrow> u32 \<Rightarrow> poll list \<Rightarrow> net \<Rightarrow> ('a option \<times> poll list \<times> net) option" where
  "dhcp_wait accept deadline [] n = (if clock n < deadline then None else Some (None, [], n))"
| "dhcp_wait accept deadline (p # ps) n =
     (if clock n < deadline then
        let n = n\<lparr>clock := fst p\<rparr>
        in case snd p of None \<Rightarrow> dhcp_wait accept deadline ps n
           | Some (pkt, rlen) \<Rightarrow> do {
               r \<leftarrow> accept pkt rlen;
               case r of Some v \<Rightarrow> Some (Some v, ps, n) | None \<Rightarrow> dhcp_wait accept deadline ps n
             }
      else Some (None, p # ps, n))"

definition dhcp_xid :: "net \<Rightarrow> u32" where
  "dhcp_xid n = 0xD0C50000 OR push_bit 8 (ucast (my_mac n ! 4)) OR ucast (my_mac n ! 5)"

definition dhcp_request :: "poll list \<Rightarrow> net \<Rightarrow> (bool \<times> poll list \<times> net) option" where
  "dhcp_request ps n =
     (if \<not> nic n then Some (False, ps, n)
      else let xid = dhcp_xid n; n = rtl8139_send (dhcp_build 1 xid None n) n
      in do {
        (offer, ps, n) \<leftarrow> dhcp_wait (dhcp_offer xid) (clock n + 300) ps n;
        case offer of None \<Rightarrow> Some (False, ps, n)
        | Some (ip, server) \<Rightarrow> let n = rtl8139_send (dhcp_build 3 xid (Some (ip, server)) n) n
          in do {
            (ack, ps, n) \<leftarrow> dhcp_wait (dhcp_ack xid) (clock n + 300) ps n;
            case ack of None \<Rightarrow> Some (False, ps, n)
            | Some gw \<Rightarrow> Some (True, ps, n\<lparr>MY_IP := ip, GW_IP := (if gw ! 0 \<noteq> 0 then gw else GW_IP n)\<rparr>)
          }
      })"

section \<open>A server's replies\<close>

type_synonym opts = "(u8 \<times> bytes) list"

definition opt_ok :: "u8 \<times> bytes \<Rightarrow> bool" where
  "opt_ok kv \<longleftrightarrow> fst kv \<noteq> 0 \<and> fst kv \<noteq> 255 \<and> length (snd kv) < 256"

definition encode_opts :: "opts \<Rightarrow> bytes" where
  "encode_opts os = concat (map (\<lambda>(k, v). k # word_of_nat (length v) # v) os) @ [255]"

lemma encode_opts_Cons: "encode_opts ((k, v) # os) = k # word_of_nat (length v) # v @ encode_opts os" "encode_opts [] = [255]"
  by (simp_all add: encode_opts_def)

lemma dhcp_opt_encoded:
  assumes "list_all opt_ok os" "length (encode_opts os) \<le> optlen"
  shows "\<exists>r. dhcp_opt (encode_opts os @ pad) optlen code = map_option (\<lambda>v. (length v, v @ r)) (map_of os code)"
  using assms
proof (induction os arbitrary: optlen)
  case Nil
  then show ?case by (subst dhcp_opt.simps) (simp add: encode_opts_Cons)
next
  case (Cons kv os)
  obtain k v where kv: "kv = (k, v)" by (cases kv)
  have ok: "k \<noteq> 0" "k \<noteq> 255" "length v < 256" using Cons.prems(1) by (simp_all add: kv opt_ok_def)
  then have u: "unat (word_of_nat (length v) :: u8) = length v" by (simp add: unsigned_of_nat take_bit_nat_eq_self)
  have len: "length (encode_opts (kv # os)) = 2 + length v + length (encode_opts os)" by (simp add: kv encode_opts_Cons)
  show ?case
  proof (cases "k = code")
    case True
    then show ?thesis using ok u Cons.prems(2) len by (subst dhcp_opt.simps) (auto simp: kv encode_opts_Cons)
  next
    case False
    have "length (encode_opts os) \<le> optlen - (2 + length v)" using Cons.prems(2) len by simp
    from Cons.IH [OF _ this] Cons.prems(1) False ok u Cons.prems(2) len show ?thesis
      by (subst dhcp_opt.simps) (auto simp: kv encode_opts_Cons)
  qed
qed

text \<open>The parts of a reply that the client does not look at.\<close>

record reply_parts =
  r_eth :: bytes
  r_ip :: bytes
  r_udp :: bytes
  r_hw :: bytes
  r_mid :: bytes
  r_rest :: bytes

definition parts_ok :: "reply_parts \<Rightarrow> bool" where
  "parts_ok q \<longleftrightarrow> length (r_eth q) = 12 \<and> length (r_ip q) = 20 \<and> r_ip q ! 9 = 17 \<and> length (r_udp q) = 4 \<and> length (r_hw q) = 3 \<and>
     length (r_mid q) = 8 \<and> length (r_rest q) = 216"

definition server_frame :: "reply_parts \<Rightarrow> u32 \<Rightarrow> bytes \<Rightarrow> opts \<Rightarrow> bytes" where
  "server_frame q xid ip os = r_eth q @ [8, 0] @ r_ip q @ [0, 67, 0, 68] @ r_udp q @ 2 # r_hw q @ be_bytes 4 xid @ r_mid q @ ip @ r_rest q @
     [99, 130, 83, 99] @ encode_opts os"

lemma server_frame_read:
  assumes "parts_ok q" "length ip = 4" "5 \<le> length (encode_opts os)" "rlen = length (server_frame q xid ip os)"
  shows "dhcp_reply xid (server_frame q xid ip os @ pad) rlen" "take 4 (drop 58 (server_frame q xid ip os @ pad)) = ip"
    "drop 282 (server_frame q xid ip os @ pad) = encode_opts os @ pad" "rlen - 282 = length (encode_opts os)"
    "take 4 (drop 26 (server_frame q xid ip os @ pad)) = take 4 (drop 12 (r_ip q))"
proof -
  note f = assms(1)[unfolded parts_ok_def]
  have x: "be_u32 (server_frame q xid ip os @ pad) 46 = xid"
    using f by (simp add: server_frame_def be_u32_def nth_append be_bytes_4 join_32)
  show "dhcp_reply xid (server_frame q xid ip os @ pad) rlen"
    using f x assms(2-4) by (simp add: dhcp_reply_def) (simp add: server_frame_def nth_append be_bytes_4)
qed (use assms in \<open>simp_all add: parts_ok_def server_frame_def\<close>)

lemma msg_type_encoded:
  assumes "list_all opt_ok os" "map_of os 53 = Some [ty]"
  shows "msg_type_is ty (encode_opts os @ pad) (length (encode_opts os)) = Some True"
  using dhcp_opt_encoded [OF assms(1) order_refl, of pad 53] assms(2) by (auto simp: msg_type_is_def read_n_def)

lemma opt_address_encoded:
  assumes "list_all opt_ok os" "\<And>k. fits k \<Longrightarrow> 4 \<le> k"
  shows "opt_address fits code (encode_opts os @ pad) (length (encode_opts os)) dflt =
    Some (case map_of os code of Some v \<Rightarrow> if fits (length v) then take 4 v else dflt | None \<Rightarrow> dflt)"
  using dhcp_opt_encoded [OF assms(1) order_refl, of pad code] assms(2)
  by (cases "map_of os code") (fastforce simp: opt_address_def read_n_def)+

lemma dhcp_offer_encoded:
  assumes "parts_ok q" "length ip = 4" "5 \<le> length (encode_opts os)" "list_all opt_ok os" "map_of os 53 = Some [2]"
    "map_of os 54 = Some server" "length server = 4"
  shows "dhcp_offer xid (server_frame q xid ip os @ pad) (length (server_frame q xid ip os)) = Some (Some (ip, server))"
  using server_frame_read [OF assms(1-3) refl] msg_type_encoded [OF assms(4,5)] opt_address_encoded [OF assms(4), of "\<lambda>vl. vl = 4"] assms(6,7)
  by (simp add: dhcp_offer_def)

lemma dhcp_ack_encoded:
  assumes "parts_ok q" "length ip = 4" "5 \<le> length (encode_opts os)" "list_all opt_ok os" "map_of os 53 = Some [5]"
    "map_of os 3 = Some gw" "4 \<le> length gw"
  shows "dhcp_ack xid (server_frame q xid ip os @ pad) (length (server_frame q xid ip os)) = Some (Some (take 4 gw))"
  using server_frame_read [OF assms(1-3) refl] msg_type_encoded [OF assms(4,5)] opt_address_encoded [OF assms(4), of "\<lambda>vl. vl \<ge> 4"] assms(6,7)
  by (simp add: dhcp_ack_def)


definition sample_parts :: reply_parts where
  "sample_parts = \<lparr>r_eth = replicate 12 0, r_ip = (replicate 20 0)[9 := 17], r_udp = replicate 4 0, r_hw = replicate 3 0, r_mid = replicate 8 0,
     r_rest = replicate 216 0\<rparr>"


end
