(* ===== verification/Spec2Isabelle.thy ===== *)
theory Spec2Isabelle
  imports Memory Messages Sched Shm Mfs4 VfsTable ElfLoad Lifecycle Hkdf Aes X25519 Ext2Tree TcpTimer Ntp Http Dhcp
begin

text \<open>
  A verification library for the kernel of Sistem-Operasi, a 64-bit hobby operating system in C. The
  theories follow the files under \<open>src/kernel\<close>; every definition keeps the name of the C function it
  translates where that is possible.

  \<^bold>\<open>The program.\<close> The kernel runs tasks in user mode and in kernel mode on one or two processors. A timer interrupt
  drives the scheduler; tasks block on semaphores, condition variables, pipes, the keyboard and each
  other, and are woken through the task table. Memory is a heap for the kernel, a bitmap of physical frames and
  four-level page tables with copy on write. Files live in a table of 64 KB slots that is mirrored on disk, with an
  inode layer above it. File descriptors unify files, pipes, the keyboard, terminals, generated files
  and connections. A network stack with its own TCP runs over an Ethernet card, and a secure transport brings its own
  cryptography.

  \<^bold>\<open>Conventions.\<close>
  \<^item> State is passed explicitly. Each component has a record of the C variables it owns; operations return the
    new record. Locals of C become \<open>let\<close>.
  \<^item> Machine integers are words of their width; array indices and pointers that the code keeps in range
    are natural numbers.
  \<^item> An access outside of an array, a null pointer or an overflow of a signed integer is the result \<open>None\<close> of an
    operation; return codes are values.
  \<^item> Sections with interrupts off, and the schedulers under their lock, are atomic. Where the code can
    be interrupted between two sections, the sections are separate steps of an inductive relation.
  \<^item> Blocking loops are cut into passes: one pass runs until the task blocks or returns. Loops of the network stack that poll
    the card until a deadline take what the clock and the card say from a list, and are \<open>None\<close> when the list ends first.
  \<^item> Loops that are bounded are recursion over the range. The free-list walks, the page loop of the
    program loader and the loops over the offsets of an EXT2 file are partial functions, and the theorems about them show that
    they return, or that one never does. No fuel is used.

  \<^bold>\<open>Theories.\<close>
  \<^descr>[Prelude] Table scans, C strings, little-endian and big-endian bytes, rings; the locale of a bounded queue.
  \<^descr>[Memory] \<open>memory.c\<close>: the list of blocks in the heap, \<open>malloc\<close> and \<open>free\<close>. First fit, safety of blocks,
    coalescing, and that freeing undoes allocating.
  \<^descr>[Task] \<open>task.c\<close>, \<open>timer.c\<close>: task table, blocking, sleeping, signals, interval timers, accessors.
  \<^descr>[Sched] \<open>task_switch\<close>, \<open>task_switch_ap\<close>: choice by priority and age, the context that is loaded, absence
    of starvation, and that two processors never run the same task.
  \<^descr>[Semaphore, Condvar] \<open>semaphore.c\<close>, \<open>condvar.c\<close>: mutual exclusion under every interleaving, the window in which a
    wake-up is lost, broadcast.
  \<^descr>[Pipe, Messages] \<open>pipe.c\<close>, \<open>ipc.c\<close>, \<open>mq.c\<close>: pipes and the global queue as bounded queues (interpretations of the
    locale of the prelude), end of file, mailboxes as multisets.
  \<^descr>[Pmm, Vmm, Paging, Cow] \<open>vmm.c\<close>: frame bitmap, byte-level page tables, translation, mapping and unmapping, new
    address spaces, copy on write.
  \<^descr>[Shm] \<open>shm.c\<close>: shared regions over frames and page tables.
  \<^descr>[Fs, FsStore, FsDisk] \<open>fs.c\<close> with the sector contract of \<open>ata.c\<close>: file table, heap buffers, disk image. Memory safety
    from boot on, last write wins, saving and loading.
  \<^descr>[Mfs4] \<open>mfs4.c\<close>: inodes, links, path resolution, the table on disk.
  \<^descr>[Ext2, Ext2Dir, Ext2Tree] \<open>ext2.c\<close>: the read-only driver, against a tree of files and directories laid out on the disk:
    block map, directories, paths, printing, and what mounting accepts.
  \<^descr>[Keyboard] \<open>keyboard.c\<close>: scan codes to characters, the ring of typed characters.
  \<^descr>[Procfs, Vfs, VfsFile, VfsTable] \<open>vfs.c\<close> and the log ring of \<open>serial.c\<close>: generated files, all descriptor operations, a file
    descriptor as a cursor, typing of the table under every call. The network stack is a record of functions there.
  \<^descr>[Net, Tcp] \<open>net.c\<close>: checksums, hardware addresses, the frames the stack builds; the demultiplexer, connections on both
    sides, the socket calls and the timer. The boundary is the card: frames it takes are appended to a list, frames
    it delivers are in the list of polls that a waiting call takes.
  \<^descr>[TcpStream, TcpLink, TcpTimer] The receive ring as a queue (an interpretation of the locale of the prelude) and the stream
    that goes through it; two hosts that exchange frames: valid checksums, handshake, delivery and acknowledgement;
    retransmission, reset, and what a partial acknowledgement does.
  \<^descr>[Dns] \<open>net.c\<close>: questions and answers of the resolver, its waiting loop; the answer is read within its bounds.
  \<^descr>[Ntp, Dhcp, Http] \<open>net.c\<close>: the time client against the Gregorian calendar, the configuration client against a server's
    replies, and the parsers of the HTTP client against the texts they read.
  \<^descr>[Elf, ElfLoad] \<open>elf_loader.c\<close>: bounds of the loader and what it puts at which address.
  \<^descr>[Lifecycle] \<open>task.c\<close>: creating tasks, threads and children, exit and kill, over descriptors, page tables and
    kernel stacks in physical memory.
  \<^descr>[Sha256, Hkdf] \<open>crypto.c\<close>: streaming SHA-256, HMAC and HKDF against FIPS 180-4, RFC 2104, RFC 5869 and RFC 8446.
  \<^descr>[Aes] \<open>crypto.c\<close>: AES-128-GCM. The arrays of the field multiplication are in a store because one caller
    passes the same array twice.
  \<^descr>[Field25519, FieldBytes, X25519] \<open>crypto.c\<close>: field arithmetic in limbs, and the key exchange against the ladder
    over the integers modulo the prime.

  \<^bold>\<open>What the theorems show.\<close> Besides correctness, several theorems state what the code really does where it departs from its
    intention: lost wake-ups, messages that overtake, shared memory that is not mapped, an inode table on top of
    files, a deleted file that returns, end of file that comes too early, a key that is swallowed, a tag
    that authenticates nothing, a key exchange on the wrong curve, a volume with blocks of no bytes, bytes that are
    acknowledged and dropped, and sequence numbers that are used twice.

  \<^bold>\<open>Not modelled.\<close>
  \<^item> Hardware set-up and port input and output: interrupt controllers, start-up of processors, disk, network card,
    serial port, clock, mouse, video (\<open>apic.c\<close>, \<open>acpi.c\<close>, \<open>smp.c\<close>, \<open>ata.c\<close> below the sector contract, \<open>virtio_blk.c\<close>, \<open>rtl8139.c\<close>,
    \<open>rtc.c\<close>, \<open>pic.c\<close>, \<open>idt.c\<close>, \<open>tss.c\<close>, the assembly files).
  \<^item> Of \<open>net.c\<close>: the driving loop of the HTTP client and IPv6; the transports above it (\<open>tls13.c\<close>, \<open>x509.c\<close>, \<open>websocket.c\<close>).
  \<^item> System call dispatch, the boot sequence and the exception handler (\<open>syscall_*.c\<close>, \<open>kernel.c\<close>).
  \<^item> Pixels, windows, the shell and the user programs (\<open>graphics.c\<close>, \<open>window.c\<close>, \<open>shell.c\<close>, \<open>src/programs\<close>).
  \<^item> Caches of address translations, the loading of \<open>cr3\<close>, and memory ordering between processors.
\<close>

end
